(* ===== verification/S22_Prelude.thy ===== *)
theory S22_Prelude
  imports Complex_Main "HOL-Library.Word" "HOL-Library.AList"
begin

text \<open>
  Shared vocabulary of the development: the Python values the daemons of
  \<^verbatim>\<open>src/tools/hardware\<close> compute with, their exceptions as a sum type, slices and
  little-endian integers over byte strings, and insertion-ordered dictionaries.

  \<^item> \<open>bytes\<close> is a list of 8-bit words, so every element is a byte by its type.
  \<^item> \<open>pystr\<close> is a list of code points: Python strings are sequences of code points, and the
    GSM alphabet needs Greek letters and the euro sign, which do not fit HOL's 8-bit \<open>char\<close>.
    \<open>lit\<close> turns an ASCII literal into such a list.
  \<^item> \<open>pyerr + 'a\<close> is the outcome of code that may raise; \<open>try_r\<close> is the sequencing of two
    such computations (the second runs only when the first did not raise).
  \<^item> \<open>time\<close> is the rational number a clock returned. The rounding of float subtraction is not
    modelled.
  \<^item> dictionaries are association lists with \<open>AList.update\<close> (which keeps the position of an
    existing key and appends a new one, as Python's \<open>dict\<close> and \<open>OrderedDict\<close> do).
\<close>

unbundle bit_operations_syntax

section \<open>Types\<close>

type_synonym byte = "8 word"
type_synonym bytes = "byte list"
type_synonym pystr = "nat list"
type_synonym time = rat
type_synonym ('k, 'v) dict = "('k \<times> 'v) list"

datatype pyerr = ValueError | OverflowError | AttributeError | IndexError | KeyError | TypeError | StructError | OSError | LinkDown pystr

named_theorems py_simps \<open>unfolding rules for the Python helpers\<close>

definition lit :: "string \<Rightarrow> pystr" where
  "lit s = map of_char s"

section \<open>Computations that may raise\<close>

definition try_r :: "'e + 'a \<Rightarrow> ('a \<Rightarrow> 'e + 'b) \<Rightarrow> 'e + 'b" where
  "try_r m f = (case m of Inl e \<Rightarrow> Inl e | Inr x \<Rightarrow> f x)"

lemma try_r_simps [simp]:
  "try_r (Inl e) f = Inl e"
  "try_r (Inr x) f = f x"
  by (simp_all add: try_r_def)

lemma try_r_Inr_iff: "try_r m f = Inr y \<longleftrightarrow> (\<exists>x. m = Inr x \<and> f x = Inr y)"
  by (cases m) auto

text \<open>\<open>data[i]\<close> for a non-negative index and \<open>data[a:b]\<close> for non-negative bounds.\<close>

definition item :: "'a list \<Rightarrow> nat \<Rightarrow> pyerr + 'a" where
  "item xs i = (if i < length xs then Inr (xs ! i) else Inl IndexError)"

definition py_slice :: "nat \<Rightarrow> nat \<Rightarrow> 'a list \<Rightarrow> 'a list" where
  "py_slice a b xs = take (b - a) (drop a xs)"

lemma item_in_range [simp]: "i < length xs \<Longrightarrow> item xs i = Inr (xs ! i)"
  by (simp add: item_def)

lemma item_append_right [simp]: "item (xs @ y # ys) (length xs) = Inr y"
  by (simp add: item_def)

lemma length_py_slice [simp]: "length (py_slice a b xs) = min (b - a) (length xs - a)"
  by (simp add: py_slice_def)

lemma py_slice_mid: "length xs = a \<Longrightarrow> a + length ys = b \<Longrightarrow> py_slice a b (xs @ ys @ zs) = ys"
  by (simp add: py_slice_def)

section \<open>Integers as byte strings\<close>

text \<open>\<open>int.from_bytes(b, "little")\<close> and \<open>v.to_bytes(n, "little")\<close> for \<open>v < 256 ** n\<close>.\<close>

fun from_bytes_le :: "bytes \<Rightarrow> nat" where
  "from_bytes_le [] = 0"
| "from_bytes_le (b # bs) = unat b + 256 * from_bytes_le bs"

fun to_bytes_le :: "nat \<Rightarrow> nat \<Rightarrow> bytes" where
  "to_bytes_le 0 v = []"
| "to_bytes_le (Suc n) v = of_nat (v mod 256) # to_bytes_le n (v div 256)"

lemma length_to_bytes_le [simp]: "length (to_bytes_le n v) = n"
  by (induction n arbitrary: v) auto

lemma unat_of_nat_byte [simp]: "n < 256 \<Longrightarrow> unat (of_nat n :: byte) = n"
  by (simp add: unat_of_nat take_bit_eq_mod)

lemma unat_byte_less [simp]: "unat (b :: byte) < 256"
  using unsigned_less [of b] by simp

lemma from_to_bytes_le: "v < 256 ^ n \<Longrightarrow> from_bytes_le (to_bytes_le n v) = v"
proof (induction n arbitrary: v)
  case 0
  then show ?case by simp
next
  case (Suc n)
  then have "v div 256 < 256 ^ n" by (simp add: less_mult_imp_div_less mult.commute)
  with Suc.IH show ?case by simp
qed

lemma from_bytes_le_append:
  "from_bytes_le (xs @ ys) = from_bytes_le xs + 256 ^ length xs * from_bytes_le ys"
  by (induction xs) (simp_all add: algebra_simps)

lemma from_bytes_le_less: "from_bytes_le xs < 256 ^ length xs"
proof (induction xs)
  case Nil
  then show ?case by simp
next
  case (Cons b bs)
  have "unat b + 256 * from_bytes_le bs < 256 + 256 * from_bytes_le bs"
    by simp
  also have "\<dots> = 256 * Suc (from_bytes_le bs)"
    by simp
  also have "\<dots> \<le> 256 * 256 ^ length bs"
    using Cons.IH by (intro mult_le_mono2) simp
  finally show ?case by simp
qed

section \<open>Masks and shifts on non-negative integers\<close>

lemma and_7F [simp]: "(n::nat) AND 127 = n mod 128"
  using take_bit_eq_mask [of 7 n] by (simp add: take_bit_eq_mod mask_eq_exp_minus_1)

lemma and_0F [simp]: "(n::nat) AND 15 = n mod 16"
  using take_bit_eq_mask [of 4 n] by (simp add: take_bit_eq_mod mask_eq_exp_minus_1)

lemma and_07 [simp]: "(n::nat) AND 7 = n mod 8"
  using take_bit_eq_mask [of 3 n] by (simp add: take_bit_eq_mod mask_eq_exp_minus_1)

lemma or_push_bit:
  assumes "(v::nat) < 2 ^ b"
  shows "v OR push_bit b x = v + x * 2 ^ b"
proof -
  have "take_bit b v = v" using assms by (simp add: take_bit_nat_eq_self)
  then have v: "bit v n \<Longrightarrow> n < b" for n by (metis bit_take_bit_iff)
  have "v AND push_bit b x = 0" by (rule bit_eqI) (auto simp: bit_simps dest: v)
  then show ?thesis using disjunctive_add_eq_or [of v "push_bit b x"] by (simp add: push_bit_eq_mult)
qed

lemma push_bit_or:
  assumes "(v::nat) < 2 ^ b"
  shows "push_bit b x OR v = x * 2 ^ b + v"
  using or_push_bit [OF assms, of x] by (simp add: or.commute)

section \<open>Running a machine over its inputs\<close>

text \<open>A step takes the state and one input to the next state and a list of outputs.\<close>

fun run_chunks :: "('s \<Rightarrow> 'c \<Rightarrow> 's \<times> 'o list) \<Rightarrow> 's \<Rightarrow> 'c list \<Rightarrow> 's \<times> 'o list" where
  "run_chunks f s [] = (s, [])"
| "run_chunks f s (c # cs) =
     (let (s1, out1) = f s c; (s2, out2) = run_chunks f s1 cs in (s2, out1 @ out2))"

lemma run_chunks_append:
  "run_chunks f s (cs @ ds) =
     (let (s1, out1) = run_chunks f s cs; (s2, out2) = run_chunks f s1 ds in (s2, out1 @ out2))"
  by (induction cs arbitrary: s) (simp_all split: prod.splits)

section \<open>Updated lists\<close>

lemma nth_update: "j < length xs \<Longrightarrow> xs[i := x] ! j = (if i = j then x else xs ! j)"
  by (cases "i = j") auto

lemma list_update_all:
  assumes "\<forall>p \<in> set os. P p" and "i < length os \<Longrightarrow> P x"
  shows "\<forall>p \<in> set (os[i := x]). P p"
proof (cases "i < length os")
  case True
  then show ?thesis using assms set_update_subset_insert [of os i x] by blast
next
  case False
  then show ?thesis using assms(1) by (simp add: list_update_beyond)
qed

section \<open>Insertion-ordered dictionaries\<close>

definition dict_keys :: "('k, 'v) dict \<Rightarrow> 'k list" where
  "dict_keys d = map fst d"

definition dict_ok :: "('k, 'v) dict \<Rightarrow> bool" where
  "dict_ok d \<longleftrightarrow> distinct (map fst d)"

lemma dict_ok_Nil [simp]: "dict_ok []"
  by (simp add: dict_ok_def)

lemma dict_ok_update [simp]: "dict_ok d \<Longrightarrow> dict_ok (AList.update k v d)"
  by (simp add: dict_ok_def distinct_update)

lemma dict_ok_delete [simp]: "dict_ok d \<Longrightarrow> dict_ok (AList.delete k d)"
  by (simp add: dict_ok_def distinct_delete)

lemma map_of_dict_update [simp]: "map_of (AList.update k v d) = (map_of d)(k \<mapsto> v)"
  by (rule update_conv')

lemma map_of_dict_delete [simp]: "map_of (AList.delete k d) = (map_of d)(k := None)"
  by (rule delete_conv')

lemma update_new: "map_of d k = None \<Longrightarrow> AList.update k v d = d @ [(k, v)]"
  by (induction d) (auto split: if_splits)

lemma set_dict_update: "set (AList.update k v d) \<subseteq> insert (k, v) (set d)"
  by (induction d) auto

lemma keys_dict_update: "fst ` set (AList.update k v d) = insert k (fst ` set d)"
  by (induction d) auto

lemma length_dict_update:
  "length (AList.update k v d) = (if map_of d k = None then Suc (length d) else length d)"
  by (induction d) (auto simp: map_of_eq_None_iff)

lemma dict_ok_drop: "dict_ok d \<Longrightarrow> dict_ok (drop n d)"
  by (simp add: dict_ok_def drop_map [symmetric] distinct_drop)

end
