(* ===== verification/Sipc_Frame.thy ===== *)
theory Sipc_Frame
  imports S22_Prelude
begin

text \<open>
  The SIPC FMT framing of \<^verbatim>\<open>src/tools/hardware/phoned/s22-phoned.py\<close>: the class \<open>Frame\<close>
  (a 7-byte little-endian header and a payload) and the incremental \<open>FrameDecoder\<close>, which
  keeps the bytes of an incomplete frame between two reads.

  The interface \<open>stream_decoder\<close> states what a client of an incremental decoder relies on;
  inside it the chunking independence of the decoder is proved once.
\<close>

section \<open>Frames\<close>

record frame =
  mseq :: byte
  aseq :: byte
  grp :: byte
  idx :: byte
  ftyp :: byte
  payload :: bytes

definition HDR_size :: nat where
  "HDR_size = 7"

definition cmd :: "frame \<Rightarrow> byte \<times> byte" where
  "cmd fr = (grp fr, idx fr)"

text \<open>\<open>HDR.pack\<close> raises \<open>struct.error\<close> when the length does not fit 16 bits.\<close>

definition encode :: "frame \<Rightarrow> pyerr + bytes" where
  "encode fr =
     (let n = HDR_size + length (payload fr) in
      if n < 65536
      then Inr (to_bytes_le 2 n @ [mseq fr, aseq fr, grp fr, idx fr, ftyp fr] @ payload fr)
      else Inl StructError)"

section \<open>The incremental decoder\<close>

record decoder =
  dec_buf :: bytes
  dec_errors :: nat

definition init_decoder :: decoder where
  "init_decoder = \<lparr>dec_buf = [], dec_errors = 0\<rparr>"

text \<open>
  The loop of \<open>feed\<close>: \<open>length, mseq, aseq, g, i, t = HDR.unpack_from(self.buf)\<close>; a length below
  the header size drops the whole buffer and counts an error; a buffer shorter than the length
  waits for more bytes.
\<close>

function feed_loop :: "decoder \<Rightarrow> decoder \<times> frame list" where
  "feed_loop d =
     (let buf = dec_buf d; len = from_bytes_le (take 2 buf) in
      if length buf < HDR_size then (d, [])
      else if len < HDR_size then (d\<lparr>dec_errors := dec_errors d + 1, dec_buf := []\<rparr>, [])
      else if length buf < len then (d, [])
      else (let fr = \<lparr>mseq = buf ! 2, aseq = buf ! 3, grp = buf ! 4, idx = buf ! 5, ftyp = buf ! 6,
                      payload = py_slice HDR_size len buf\<rparr>;
                (d', out) = feed_loop (d\<lparr>dec_buf := drop len buf\<rparr>)
            in (d', fr # out)))"
  by pat_completeness auto
termination
  by (relation "measure (\<lambda>d. length (dec_buf d))") (auto simp: HDR_size_def)

declare feed_loop.simps [simp del]

definition feed :: "decoder \<Rightarrow> bytes \<Rightarrow> decoder \<times> frame list" where
  "feed d xs = feed_loop (d\<lparr>dec_buf := dec_buf d @ xs\<rparr>)"

text \<open>Feeding the chunks of successive reads, collecting the frames in order.\<close>

definition feed_all :: "decoder \<Rightarrow> bytes list \<Rightarrow> decoder \<times> frame list" where
  "feed_all d cs = run_chunks feed d cs"

section \<open>The interface of an incremental decoder\<close>

text \<open>
  \<open>feed\<close> consumes a chunk and returns the decoded items; \<open>errs\<close> counts the framing errors seen.
  The laws: a chunk may be split when its first part raised no error, errors only accumulate and
  an error of a first part stays visible, and a whole encoded item at the front of the input of an
  idle decoder is decoded before the rest.
\<close>

locale stream_decoder =
  fixes feed :: "'s \<Rightarrow> 'b list \<Rightarrow> 's \<times> 'f list"
    and errs :: "'s \<Rightarrow> nat"
    and idle :: "'s \<Rightarrow> bool"
    and enc :: "'f \<Rightarrow> 'b list option"
  assumes feed_Nil: "idle s \<Longrightarrow> feed s [] = (s, [])"
    and feed_split: "feed s a = (s1, out1) \<Longrightarrow> errs s1 = errs s \<Longrightarrow>
      feed s (a @ b) = (let (s2, out2) = feed s1 b in (s2, out1 @ out2))"
    and errs_mono: "errs s \<le> errs (fst (feed s a))"
    and errs_visible: "errs (fst (feed s (a @ b))) = errs s \<Longrightarrow> errs (fst (feed s a)) = errs s"
    and feed_enc: "idle s \<Longrightarrow> enc x = Some e \<Longrightarrow> feed s e = (s, [x])"
begin

lemma run_concat:
  assumes "cs \<noteq> []" and "errs (fst (feed s (concat cs))) = errs s"
  shows "run_chunks feed s cs = feed s (concat cs)"
  using assms
proof (induction cs arbitrary: s)
  case Nil
  then show ?case by simp
next
  case (Cons c cs)
  obtain s1 out1 where c: "feed s c = (s1, out1)" by fastforce
  have e1: "errs s1 = errs s"
    using errs_visible [of s c "concat cs"] Cons.prems(2) c by simp
  note split = feed_split [OF c e1]
  show ?case
  proof (cases "cs = []")
    case True
    with c show ?thesis by simp
  next
    case False
    from Cons.prems(2) split [of "concat cs"]
    have "errs (fst (feed s1 (concat cs))) = errs s1"
      by (simp add: e1 case_prod_beta)
    with Cons.IH [OF False] have "run_chunks feed s1 cs = feed s1 (concat cs)" by simp
    with c split [of "concat cs"] show ?thesis by simp
  qed
qed

lemma feed_encs:
  assumes "idle s" and "list_all2 (\<lambda>x e. enc x = Some e) xs es"
  shows "feed s (concat es) = (s, xs)"
  using assms(2)
proof (induction rule: list_all2_induct)
  case Nil
  from assms(1) show ?case by (simp add: feed_Nil)
next
  case (Cons x xs e es)
  have "feed s e = (s, [x])" using assms(1) Cons(1) by (rule feed_enc)
  then show ?case using feed_split [of s e s "[x]" "concat es"] Cons.IH by simp
qed

lemma run_encs:
  assumes "idle s" and "list_all2 (\<lambda>x e. enc x = Some e) xs es" and "concat cs = concat es"
  shows "run_chunks feed s cs = (s, xs)"
proof (cases "cs = []")
  case True
  with assms(3) have "concat es = []" by simp
  with feed_encs [OF assms(1,2)] feed_Nil [OF assms(1)] have "xs = []" by simp
  with True show ?thesis by simp
next
  case False
  have "feed s (concat cs) = (s, xs)" using feed_encs [OF assms(1,2)] assms(3) by simp
  then show ?thesis using run_concat [OF False, of s] by simp
qed

end

section \<open>The decoder of phoned implements it\<close>

lemma feed_loop_wait:
  assumes "length (dec_buf d) < HDR_size \<or>
    (HDR_size \<le> from_bytes_le (take 2 (dec_buf d)) \<and>
     length (dec_buf d) < from_bytes_le (take 2 (dec_buf d)))"
  shows "feed_loop d = (d, [])"
  using assms by (subst feed_loop.simps) (auto simp: Let_def)

lemma feed_loop_junk:
  assumes "HDR_size \<le> length (dec_buf d)" and "from_bytes_le (take 2 (dec_buf d)) < HDR_size"
  shows "feed_loop d = (d\<lparr>dec_errors := dec_errors d + 1, dec_buf := []\<rparr>, [])"
  using assms by (subst feed_loop.simps) (auto simp: Let_def)

lemma feed_loop_frame:
  assumes "HDR_size \<le> from_bytes_le (take 2 (dec_buf d))"
    and "from_bytes_le (take 2 (dec_buf d)) \<le> length (dec_buf d)"
  shows "feed_loop d =
    (let len = from_bytes_le (take 2 (dec_buf d)); (d', out) = feed_loop (d\<lparr>dec_buf := drop len (dec_buf d)\<rparr>)
     in (d', \<lparr>mseq = dec_buf d ! 2, aseq = dec_buf d ! 3, grp = dec_buf d ! 4, idx = dec_buf d ! 5,
             ftyp = dec_buf d ! 6, payload = py_slice HDR_size len (dec_buf d)\<rparr> # out))"
  using assms by (subst feed_loop.simps) (auto simp: Let_def)

lemma feed_loop_cases:
  obtains (wait) "length (dec_buf d) < HDR_size \<or>
      (HDR_size \<le> from_bytes_le (take 2 (dec_buf d)) \<and>
       length (dec_buf d) < from_bytes_le (take 2 (dec_buf d)))"
  | (junk) "HDR_size \<le> length (dec_buf d)" "from_bytes_le (take 2 (dec_buf d)) < HDR_size"
  | (frame) "HDR_size \<le> from_bytes_le (take 2 (dec_buf d))"
      "from_bytes_le (take 2 (dec_buf d)) \<le> length (dec_buf d)"
  by linarith

lemma feed_loop_errors_mono: "dec_errors d \<le> dec_errors (fst (feed_loop d))"
proof (induction d rule: feed_loop.induct)
  case (1 d)
  show ?case
    using "1" by (subst feed_loop.simps) (auto simp: Let_def split: prod.splits)
qed

text \<open>
  Appending bytes to the buffer: one induction along the loop gives both that a split is
  harmless when its first part raised no error, and that an error stays visible.
\<close>

lemma feed_loop_append:
  "dec_errors (fst (feed_loop d)) = dec_errors d \<Longrightarrow>
     feed_loop (d\<lparr>dec_buf := dec_buf d @ b\<rparr>) =
       (let (d1, out1) = feed_loop d; (d2, out2) = feed_loop (d1\<lparr>dec_buf := dec_buf d1 @ b\<rparr>)
        in (d2, out1 @ out2))"
proof (induction d rule: feed_loop.induct)
  case (1 d)
  let ?buf = "dec_buf d" and ?len = "from_bytes_le (take 2 (dec_buf d))"
  let ?d' = "d\<lparr>dec_buf := drop ?len ?buf\<rparr>"
  show ?case
  proof (cases d rule: feed_loop_cases)
    case wait
    then show ?thesis by (simp add: feed_loop_wait)
  next
    case junk
    with "1.prems" show ?thesis by (simp add: feed_loop_junk)
  next
    case frame
    then have "HDR_size \<le> length ?buf" by simp
    then have t: "2 - length ?buf = 0" by (simp add: HDR_size_def)
    have nth: "(?buf @ b) ! i = ?buf ! i" if "i < 7" for i
      using that \<open>HDR_size \<le> length ?buf\<close> by (simp add: nth_append HDR_size_def)
    have pay: "py_slice HDR_size ?len (?buf @ b) = py_slice HDR_size ?len ?buf"
      using frame by (simp add: py_slice_def)
    have errs: "dec_errors (fst (feed_loop ?d')) = dec_errors ?d'"
      using "1.prems" feed_loop_frame [OF frame] by (simp add: Let_def split: prod.splits)
    have "feed_loop (?d'\<lparr>dec_buf := dec_buf ?d' @ b\<rparr>) =
        (let (d1, out1) = feed_loop ?d'; (d2, out2) = feed_loop (d1\<lparr>dec_buf := dec_buf d1 @ b\<rparr>)
         in (d2, out1 @ out2))"
      by (rule "1.IH" [OF refl refl _ _ _ refl errs]) (use frame in auto)
    then show ?thesis
      using frame feed_loop_frame [OF frame] feed_loop_frame [of "d\<lparr>dec_buf := ?buf @ b\<rparr>"]
      by (simp add: t nth pay split: prod.splits)
  qed
qed

lemma feed_loop_error_stays:
  "dec_errors (fst (feed_loop (d\<lparr>dec_buf := dec_buf d @ b\<rparr>))) = dec_errors d \<Longrightarrow>
     dec_errors (fst (feed_loop d)) = dec_errors d"
proof (induction d rule: feed_loop.induct)
  case (1 d)
  let ?buf = "dec_buf d" and ?len = "from_bytes_le (take 2 (dec_buf d))"
  let ?d' = "d\<lparr>dec_buf := drop ?len ?buf\<rparr>"
  show ?case
  proof (cases d rule: feed_loop_cases)
    case wait
    then show ?thesis by (simp add: feed_loop_wait)
  next
    case junk
    have "feed_loop (d\<lparr>dec_buf := ?buf @ b\<rparr>) =
        (d\<lparr>dec_buf := ?buf @ b, dec_errors := dec_errors d + 1, dec_buf := []\<rparr>, [])"
      using feed_loop_junk [of "d\<lparr>dec_buf := ?buf @ b\<rparr>"] junk by (simp add: HDR_size_def)
    with "1.prems" show ?thesis by simp
  next
    case frame
    then have t: "2 - length ?buf = 0" by (simp add: HDR_size_def)
    have "dec_errors (fst (feed_loop (?d'\<lparr>dec_buf := dec_buf ?d' @ b\<rparr>))) = dec_errors ?d'"
      using "1.prems" frame feed_loop_frame [of "d\<lparr>dec_buf := ?buf @ b\<rparr>"]
      by (simp add: t Let_def split: prod.splits)
    then have "dec_errors (fst (feed_loop ?d')) = dec_errors ?d'"
      by (intro "1.IH" [OF refl refl _ _ _ refl]) (use frame in auto)
    then show ?thesis
      using feed_loop_frame [OF frame] by (simp add: Let_def split: prod.splits)
  qed
qed

lemma feed_encode:
  assumes "dec_buf d = []" and "encode fr = Inr e"
  shows "feed d e = (d, [fr])"
proof -
  have len: "HDR_size + length (payload fr) < 65536"
    and e: "e = to_bytes_le 2 (HDR_size + length (payload fr)) @
      [mseq fr, aseq fr, grp fr, idx fr, ftyp fr] @ payload fr"
    using assms(2) by (auto simp: encode_def Let_def split: if_splits)
  have "take 2 e = to_bytes_le 2 (HDR_size + length (payload fr))" using e by simp
  then have n: "from_bytes_le (take 2 e) = HDR_size + length (payload fr)"
    using len by (simp add: from_to_bytes_le del: to_bytes_le.simps)
  moreover have l: "length e = HDR_size + length (payload fr)" using e by (simp add: HDR_size_def)
  ultimately have "feed_loop (d\<lparr>dec_buf := e\<rparr>) =
      (d, [\<lparr>mseq = e ! 2, aseq = e ! 3, grp = e ! 4, idx = e ! 5, ftyp = e ! 6,
           payload = py_slice HDR_size (length e) e\<rparr>])"
    using feed_loop_frame [of "d\<lparr>dec_buf := e\<rparr>"] feed_loop_wait [of "d\<lparr>dec_buf := []\<rparr>"] assms(1)
    by (simp add: HDR_size_def)
  also have "\<dots> = (d, [fr])"
    using l by (simp add: e nth_append HDR_size_def py_slice_def)
  finally show ?thesis using assms(1) by (simp add: feed_def)
qed

interpretation sipc: stream_decoder feed dec_errors "\<lambda>d. dec_buf d = []"
    "\<lambda>fr. case encode fr of Inr e \<Rightarrow> Some e | Inl _ \<Rightarrow> None"
proof (unfold_locales, goal_cases)
  case (1 s)
  then show ?case by (simp add: feed_def feed_loop_wait HDR_size_def)
next
  case (2 s a s1 out1 b)
  then show ?case
    using feed_loop_append [of "s\<lparr>dec_buf := dec_buf s @ a\<rparr>" b] by (simp add: feed_def)
next
  case (3 s a)
  then show ?case
    using feed_loop_errors_mono [of "s\<lparr>dec_buf := dec_buf s @ a\<rparr>"] by (simp add: feed_def)
next
  case (4 s a b)
  then show ?case
    using feed_loop_error_stays [of "s\<lparr>dec_buf := dec_buf s @ a\<rparr>" b] by (simp add: feed_def)
next
  case (5 s x e)
  then show ?case by (auto intro: feed_encode split: sum.splits)
qed

text \<open>
  C23. Framing survives any chunking: when encoded frames arrive over reads that cut the byte stream
  anywhere, the decoder returns exactly those frames in order and is left empty and error-free.
\<close>

theorem frames_roundtrip:
  assumes "list_all2 (\<lambda>fr e. encode fr = Inr e) frs es" and "concat cs = concat es"
  shows "feed_all init_decoder cs = (init_decoder, frs)"
  unfolding feed_all_def
  by (rule sipc.run_encs [OF _ _ assms(2)])
    (use assms(1) in \<open>auto simp: init_decoder_def elim!: list_all2_mono\<close>)

lemma frames_roundtrip_witness:
  "feed_all init_decoder [[8, 0, 1, 2], [4, 1], [], [3, 0xAA, 7], [0, 1, 0, 5, 2, 2]] =
     (init_decoder,
      [\<lparr>mseq = 1, aseq = 2, grp = 4, idx = 1, ftyp = 3, payload = [0xAA]\<rparr>,
       \<lparr>mseq = 1, aseq = 0, grp = 5, idx = 2, ftyp = 2, payload = []\<rparr>])"
  by (rule frames_roundtrip [where es = "[[8, 0, 1, 2, 4, 1, 3, 0xAA], [7, 0, 1, 0, 5, 2, 2]]"])
    (simp_all add: encode_def HDR_size_def numeral_2_eq_2)

end
