(* ===== verification/Ipc_Link.thy ===== *)
theory Ipc_Link
  imports Sipc_Frame
begin

text \<open>
  Request matching of \<^verbatim>\<open>phoned/s22-phoned.py\<close>: the classes \<open>Pending\<close> and \<open>Link\<close>. API threads
  call \<open>request\<close>, the reader thread dispatches received frames, and the link may drop at any time.

  \<open>Pending\<close> objects are shared between the requester and the table \<open>pending\<close>, so they live in a
  store indexed by an object number; the table maps sequence numbers to object numbers in insertion
  order. \<open>request\<close> is two steps, up to the wait and after it; frames, drops and other requests
  happen in between. Registration, encoding and transmission of one \<open>send\<close> are one step. The result
  of \<open>os.write\<close> and whether the wait timed out are arguments.
\<close>

section \<open>Command and type numbers\<close>

definition GEN_PHONE_RES :: "byte \<times> byte" where "GEN_PHONE_RES = (0x80, 1)"
definition GEN_OK :: nat where "GEN_OK = 0x8000"
definition EXEC :: byte where "EXEC = 1"
definition GET :: byte where "GET = 2"
definition SETT :: byte where "SETT = 3"
definition EVENT :: byte where "EVENT = 5"
definition INDI :: byte where "INDI = 1"
definition RESP :: byte where "RESP = 2"
definition NOTI :: byte where "NOTI = 3"

record gen_res =
  g_for :: "byte \<times> byte"
  g_typ :: byte
  g_code :: nat

definition g_ok :: "gen_res \<Rightarrow> bool" where
  "g_ok g \<longleftrightarrow> g_code g = GEN_OK"

definition dec_gen :: "bytes \<Rightarrow> gen_res" where
  "dec_gen d = \<lparr>g_for = (d ! 0, d ! 1), g_typ = d ! 2, g_code = from_bytes_le (py_slice 3 5 d)\<rparr>"

section \<open>Pending requests and the link\<close>

record pending_req =
  p_cmd :: "byte \<times> byte"
  p_want_resp :: bool
  p_strict :: bool
  p_typ :: byte
  p_tx :: "frame option"
  p_gen :: "gen_res option"
  p_gen_frame :: "frame option"
  p_resp :: "frame option"
  p_event :: bool
  p_completed :: bool

definition new_pending :: "byte \<times> byte \<Rightarrow> byte \<Rightarrow> bool \<Rightarrow> bool \<Rightarrow> pending_req" where
  "new_pending c ty want strict =
     \<lparr>p_cmd = c, p_want_resp = want, p_strict = strict, p_typ = ty, p_tx = None, p_gen = None,
      p_gen_frame = None, p_resp = None, p_event = False, p_completed = False\<rparr>"

definition p_ok :: "pending_req \<Rightarrow> bool" where
  "p_ok p \<longleftrightarrow> p_resp p \<noteq> None \<or> (case p_gen p of None \<Rightarrow> False | Some g \<Rightarrow> g_ok g)"

text \<open>\<open>lk_objs ! i\<close> is the \<open>i\<close>-th \<open>Pending\<close> object created; \<open>lk_wire\<close> is what was written.\<close>

record link =
  lk_open :: bool
  lk_dec :: decoder
  lk_objs :: "pending_req list"
  lk_pending :: "(nat, nat) dict"
  lk_mseq :: nat
  lk_wire :: "frame list"

definition link_init :: link where
  "link_init = \<lparr>lk_open = False, lk_dec = init_decoder, lk_objs = [], lk_pending = [], lk_mseq = 0,
     lk_wire = []\<rparr>"

definition upd_obj :: "nat \<Rightarrow> (pending_req \<Rightarrow> pending_req) \<Rightarrow> link \<Rightarrow> link" where
  "upd_obj i f l = l\<lparr>lk_objs := (lk_objs l)[i := f (lk_objs l ! i)]\<rparr>"

section \<open>send\<close>

text \<open>
  \<open>for _ in range(n): mseq = mseq % 0xFF + 1; if mseq not in pending: break\<close>. The counter keeps
  the last value tried, also when every sequence is in use.
\<close>

fun next_seq :: "nat \<Rightarrow> (nat, nat) dict \<Rightarrow> nat \<Rightarrow> nat \<times> bool" where
  "next_seq 0 pend m = (m, False)"
| "next_seq (Suc n) pend m =
     (let m' = m mod 0xFF + 1 in
      if map_of pend m' = None then (m', True) else next_seq n pend m')"

datatype write_result = Written | WriteTimeout | WriteError pystr

definition link_forget :: "nat \<Rightarrow> link \<Rightarrow> link" where
  "link_forget m l = l\<lparr>lk_pending := AList.delete m (lk_pending l)\<rparr>"

definition link_send ::
  "byte \<times> byte \<Rightarrow> byte \<Rightarrow> bytes \<Rightarrow> nat option \<Rightarrow> write_result \<Rightarrow> link \<Rightarrow> link \<times> (pyerr + nat)" where
  "link_send c ty body obj w l =
     (if \<not> lk_open l then (l, Inl (LinkDown (lit ''ipc not open'')))
      else
        let (m, found) = next_seq 255 (lk_pending l) (lk_mseq l); l1 = l\<lparr>lk_mseq := m\<rparr> in
        if \<not> found then (l1, Inl (LinkDown (lit ''all IPC sequences are in use'')))
        else
          let l2 = (case obj of None \<Rightarrow> l1
                    | Some i \<Rightarrow> l1\<lparr>lk_pending := AList.update m i (lk_pending l1)\<rparr>);
              fr = \<lparr>mseq = of_nat m, aseq = 0, grp = fst c, idx = snd c, ftyp = ty, payload = body\<rparr>
          in case encode fr of
               Inl e \<Rightarrow> (l2, Inl e)
             | Inr _ \<Rightarrow>
                 let l3 = (case obj of None \<Rightarrow> l2 | Some i \<Rightarrow> upd_obj i (\<lambda>p. p\<lparr>p_tx := Some fr\<rparr>) l2)
                 in case w of
                      Written \<Rightarrow> (l3\<lparr>lk_wire := lk_wire l3 @ [fr]\<rparr>, Inr m)
                    | WriteTimeout \<Rightarrow> (link_forget m l3, Inl (LinkDown (lit ''write timeout'')))
                    | WriteError e \<Rightarrow> (link_forget m l3, Inl (LinkDown e)))"

section \<open>request, before and after the wait\<close>

definition request_begin ::
  "byte \<times> byte \<Rightarrow> byte \<Rightarrow> bytes \<Rightarrow> bool option \<Rightarrow> bool \<Rightarrow> write_result \<Rightarrow> link \<Rightarrow>
   link \<times> (pyerr + nat \<times> nat)" where
  "request_begin c ty body want strict w l =
     (let want' = (case want of None \<Rightarrow> ty = GET | Some b \<Rightarrow> b);
          i = length (lk_objs l);
          l1 = l\<lparr>lk_objs := lk_objs l @ [new_pending c ty want' strict]\<rparr>;
          (l2, r) = link_send c ty body (Some i) w l1
      in (l2, case r of Inl e \<Rightarrow> Inl e | Inr m \<Rightarrow> Inr (i, m)))"

text \<open>\<open>got\<close> is the result of \<open>event.wait\<close>; the object is returned, or \<open>None\<close>.\<close>

definition request_end :: "nat \<Rightarrow> nat \<Rightarrow> link \<Rightarrow> link \<times> pending_req option" where
  "request_end i m l =
     (let got = p_event (lk_objs l ! i);
          done = (got \<and> (p_gen (lk_objs l ! i) \<noteq> None \<or> p_resp (lk_objs l ! i) \<noteq> None));
          l1 = link_forget m (upd_obj i (\<lambda>p. p\<lparr>p_completed := done\<rparr>) l);
          p = lk_objs l1 ! i
      in (l1, if \<not> got \<and> p_gen p = None \<and> \<not> p_strict p then None else Some p))"

section \<open>The reader thread\<close>

definition gen_matches :: "pending_req \<Rightarrow> frame \<Rightarrow> bool" where
  "gen_matches p fr \<longleftrightarrow> cmd fr = GEN_PHONE_RES \<and> 5 \<le> length (payload fr) \<and>
     (\<not> p_strict p \<or> (ftyp fr \<in> {RESP, NOTI} \<and> (payload fr ! 0, payload fr ! 1) = p_cmd p \<and>
                       payload fr ! 2 = p_typ p))"

definition take_gen :: "frame \<Rightarrow> pending_req \<Rightarrow> pending_req" where
  "take_gen fr p =
     (let g = dec_gen (payload fr) in
      p\<lparr>p_gen := Some g, p_gen_frame := Some fr,
        p_event := (p_event p \<or> \<not> (p_want_resp p \<and> g_ok g))\<rparr>)"

definition take_resp :: "frame \<Rightarrow> pending_req \<Rightarrow> pending_req" where
  "take_resp fr p = p\<lparr>p_resp := Some fr, p_event := True\<rparr>"

text \<open>The oldest waiter of an asynchronous response.\<close>

definition oldest_waiter :: "frame \<Rightarrow> link \<Rightarrow> nat option" where
  "oldest_waiter fr l =
     find (\<lambda>i. let q = lk_objs l ! i in \<not> p_strict q \<and> p_cmd q = cmd fr \<and> p_resp q = None)
       (map snd (lk_pending l))"

definition resp_target :: "frame \<Rightarrow> nat option \<Rightarrow> link \<Rightarrow> nat option" where
  "resp_target fr p l =
     (case p of
        Some i \<Rightarrow> if p_cmd (lk_objs l ! i) = cmd fr then Some i else oldest_waiter fr l
      | None \<Rightarrow> oldest_waiter fr l)"

definition link_dispatch :: "frame \<Rightarrow> link \<Rightarrow> link" where
  "link_dispatch fr l =
     (let p = (if aseq fr \<noteq> 0 then map_of (lk_pending l) (unat (aseq fr)) else None) in
      case (case p of Some i \<Rightarrow> if gen_matches (lk_objs l ! i) fr then Some i else None | None \<Rightarrow> None) of
        Some i \<Rightarrow> upd_obj i (take_gen fr) l
      | None \<Rightarrow>
          (if ftyp fr = RESP
           then (case resp_target fr p l of Some i \<Rightarrow> upd_obj i (take_resp fr) l | None \<Rightarrow> l)
           else l))"

definition link_read :: "bytes \<Rightarrow> link \<Rightarrow> link \<times> frame list" where
  "link_read buf l =
     (let (d, frs) = feed (lk_dec l) buf in (fold link_dispatch frs (l\<lparr>lk_dec := d\<rparr>), frs))"

definition link_drop :: "link \<Rightarrow> link" where
  "link_drop l =
     l\<lparr>lk_open := False, lk_dec := init_decoder,
       lk_objs := fold (\<lambda>(m, i) os. os[i := (os ! i)\<lparr>p_event := True\<rparr>]) (lk_pending l) (lk_objs l),
       lk_pending := []\<rparr>"

definition link_up :: "link \<Rightarrow> link" where
  "link_up l = l\<lparr>lk_open := True\<rparr>"

section \<open>Sequence numbers\<close>

lemma next_seq_spec:
  "snd (next_seq n pend m) \<longleftrightarrow> (\<exists>k < n. map_of pend ((m + k) mod 255 + 1) = None)"
proof (induction n pend m rule: next_seq.induct)
  case (1 pend m)
  then show ?case by simp
next
  case (2 n pend m)
  have shift: "(m mod 255 + 1 + k) mod 255 + 1 = (m + Suc k) mod 255 + 1" for k
    using mod_add_left_eq [of m 255 "Suc k"] by simp
  show ?case
  proof (cases "map_of pend (m mod 255 + 1) = None")
    case True
    then show ?thesis by (auto simp: Let_def intro!: exI [of _ 0])
  next
    case False
    then have "snd (next_seq (Suc n) pend m) \<longleftrightarrow> (\<exists>k < n. map_of pend ((m + Suc k) mod 255 + 1) = None)"
      using "2.IH" [of "m mod 255 + 1"] by (simp only: next_seq.simps Let_def if_False shift) simp
    then show ?thesis using False by (auto simp: less_Suc_eq_0_disj)
  qed
qed

lemma next_seq_free:
  "next_seq n pend m = (m', True) \<Longrightarrow> map_of pend m' = None \<and> 1 \<le> m' \<and> m' \<le> 255"
proof (induction n pend m rule: next_seq.induct)
  case (2 n pend m)
  then show ?case by (auto simp: Let_def split: if_splits)
qed simp

lemma next_seq_full: "snd (next_seq 255 pend m) \<longleftrightarrow> \<not> {1..255} \<subseteq> fst ` set pend"
proof -
  have "\<exists>k < 255. (m + k) mod 255 + 1 = x" if "x \<in> {1..255}" for x
  proof -
    obtain r where r: "r = m mod 255" "r < 255" by simp
    let ?k = "(x - 1 + (255 - r)) mod 255"
    have "(m + ?k) mod 255 = (m + (x - 1 + (255 - r))) mod 255" by (rule mod_add_right_eq)
    also have "\<dots> = (r + (x - 1 + (255 - r))) mod 255" unfolding r(1) by (rule mod_add_left_eq [symmetric])
    also have "r + (x - 1 + (255 - r)) = x - 1 + 255" using r(2) by simp
    also have "(x - 1 + 255) mod 255 = (x - 1) mod 255" by (rule mod_add_self2)
    also have "\<dots> = x - 1" using that by (intro mod_less) auto
    finally show ?thesis using that by (intro exI [of _ ?k]) simp
  qed
  then show ?thesis
    by (fastforce simp: next_seq_spec map_of_eq_None_iff subset_iff)
qed

section \<open>What a pending object holds\<close>

lemma lk_objs_upd [simp]: "lk_objs (upd_obj i f l) = (lk_objs l)[i := f (lk_objs l ! i)]"
  by (simp add: upd_obj_def)

lemma upd_obj_other [simp]:
  "lk_open (upd_obj i f l) = lk_open l" "lk_dec (upd_obj i f l) = lk_dec l"
  "lk_pending (upd_obj i f l) = lk_pending l" "lk_mseq (upd_obj i f l) = lk_mseq l"
  "lk_wire (upd_obj i f l) = lk_wire l"
  by (simp_all add: upd_obj_def)

text \<open>
  The object was transmitted as \<open>tx\<close>: what it holds as its answer answers \<open>tx\<close>. For a strict
  request, the acknowledgement names its command and type and carries its sequence number, and so
  does its response; a lax one may also hold an asynchronous response of its command.
\<close>

definition answers :: "pending_req \<Rightarrow> frame \<Rightarrow> bool" where
  "answers p tx \<longleftrightarrow>
     (\<forall>fr. p_gen_frame p = Some fr \<longrightarrow>
        cmd fr = GEN_PHONE_RES \<and> aseq fr = mseq tx \<and> p_gen p = Some (dec_gen (payload fr)) \<and>
        (p_strict p \<longrightarrow> g_for (dec_gen (payload fr)) = cmd tx \<and> g_typ (dec_gen (payload fr)) = ftyp tx)) \<and>
     (\<forall>fr. p_resp p = Some fr \<longrightarrow>
        cmd fr = cmd tx \<and> ftyp fr = RESP \<and> (p_strict p \<longrightarrow> aseq fr = mseq tx)) \<and>
     (p_gen_frame p = None \<longrightarrow> p_gen p = None)"

definition obj_ok :: "pending_req \<Rightarrow> bool" where
  "obj_ok p \<longleftrightarrow>
     (\<forall>tx. p_tx p = Some tx \<longrightarrow> cmd tx = p_cmd p \<and> ftyp tx = p_typ p \<and> answers p tx)"

lemma obj_ok_flags [simp]:
  "obj_ok (p\<lparr>p_event := b\<rparr>) = obj_ok p" "obj_ok (p\<lparr>p_completed := b\<rparr>) = obj_ok p"
  by (simp_all add: obj_ok_def answers_def)

definition link_inv :: "link \<Rightarrow> bool" where
  "link_inv l \<longleftrightarrow>
     dict_ok (lk_pending l) \<and> distinct (map snd (lk_pending l)) \<and>
     (\<forall>(m, i) \<in> set (lk_pending l). 1 \<le> m \<and> m \<le> 255 \<and> i < length (lk_objs l) \<and>
        (\<forall>tx. p_tx (lk_objs l ! i) = Some tx \<longrightarrow> unat (mseq tx) = m)) \<and>
     (\<forall>p \<in> set (lk_objs l). obj_ok p)"

lemma link_inv_init: "link_inv link_init"
  by (simp add: link_inv_def link_init_def)

lemma map_of_pending:
  assumes "link_inv l" and "map_of (lk_pending l) m = Some i"
  shows "1 \<le> m \<and> m \<le> 255 \<and> i < length (lk_objs l) \<and>
    (\<forall>tx. p_tx (lk_objs l ! i) = Some tx \<longrightarrow> unat (mseq tx) = m) \<and> obj_ok (lk_objs l ! i)"
proof -
  have "(m, i) \<in> set (lk_pending l)" using assms(2) by (rule map_of_SomeD)
  with assms(1) show ?thesis unfolding link_inv_def by fastforce
qed

lemma link_inv_upd:
  assumes "link_inv l" and "\<And>tx. p_tx (f (lk_objs l ! i)) = Some tx \<Longrightarrow> p_tx (lk_objs l ! i) = Some tx"
    and "i < length (lk_objs l) \<Longrightarrow> obj_ok (f (lk_objs l ! i))"
  shows "link_inv (upd_obj i f l)"
proof -
  have "\<forall>p \<in> set ((lk_objs l)[i := f (lk_objs l ! i)]). obj_ok p"
    using assms(1,3) by (intro list_update_all) (simp_all add: link_inv_def)
  moreover have "\<forall>(m, j) \<in> set (lk_pending l).
      \<forall>tx. p_tx ((lk_objs l)[i := f (lk_objs l ! i)] ! j) = Some tx \<longrightarrow> unat (mseq tx) = m"
  proof (intro ballI, clarify)
    fix m j tx
    assume mj: "(m, j) \<in> set (lk_pending l)" and "p_tx ((lk_objs l)[i := f (lk_objs l ! i)] ! j) = Some tx"
    then have "p_tx (lk_objs l ! j) = Some tx"
      using assms(2) by (cases "i = j"; cases "i < length (lk_objs l)") (auto simp: list_update_beyond)
    with mj assms(1) show "unat (mseq tx) = m" by (fastforce simp: link_inv_def)
  qed
  ultimately show ?thesis using assms(1) unfolding link_inv_def by (auto split: prod.splits)
qed

lemma link_inv_forget: "link_inv l \<Longrightarrow> link_inv (link_forget m l)"
proof -
  assume l: "link_inv l"
  have "set (AList.delete m (lk_pending l)) \<subseteq> set (lk_pending l)"
    by (auto simp: AList.delete_eq)
  moreover have "distinct (map snd (AList.delete m (lk_pending l)))"
    using l unfolding link_inv_def AList.delete_eq by (blast intro: distinct_map_filter)
  ultimately show ?thesis using l unfolding link_inv_def link_forget_def by (auto split: prod.splits)
qed

lemma obj_ok_take_gen:
  assumes "obj_ok p" and "gen_matches p fr" and "\<And>tx. p_tx p = Some tx \<Longrightarrow> aseq fr = mseq tx"
  shows "obj_ok (take_gen fr p)"
proof -
  have g: "cmd fr = GEN_PHONE_RES"
    and s: "p_strict p \<Longrightarrow> g_for (dec_gen (payload fr)) = p_cmd p \<and> g_typ (dec_gen (payload fr)) = p_typ p"
    using assms(2) by (simp_all add: gen_matches_def dec_gen_def)
  have "answers (take_gen fr p) tx" if tx: "p_tx p = Some tx" for tx
  proof -
    have "cmd tx = p_cmd p" "ftyp tx = p_typ p" "answers p tx" using assms(1) tx by (simp_all add: obj_ok_def)
    with g s assms(3) [OF tx] show ?thesis by (simp add: answers_def take_gen_def Let_def)
  qed
  then show ?thesis using assms(1) by (simp add: obj_ok_def take_gen_def Let_def)
qed

lemma obj_ok_take_resp:
  assumes "obj_ok p" and "p_cmd p = cmd fr" and "ftyp fr = RESP"
    and "\<And>tx. p_strict p \<Longrightarrow> p_tx p = Some tx \<Longrightarrow> aseq fr = mseq tx"
  shows "obj_ok (take_resp fr p)"
proof -
  have "answers (take_resp fr p) tx" if tx: "p_tx p = Some tx" for tx
  proof -
    have "cmd tx = p_cmd p" "answers p tx" using assms(1) tx by (simp_all add: obj_ok_def)
    with assms(2,3) assms(4) [OF _ tx] show ?thesis by (simp add: answers_def take_resp_def)
  qed
  then show ?thesis using assms(1) by (simp add: obj_ok_def take_resp_def)
qed

lemma link_inv_dispatch:
  assumes "link_inv l"
  shows "link_inv (link_dispatch fr l)"
proof -
  let ?p = "if aseq fr \<noteq> 0 then map_of (lk_pending l) (unat (aseq fr)) else None"
  have gen: "link_inv (upd_obj i (take_gen fr) l)" if "?p = Some i" "gen_matches (lk_objs l ! i) fr" for i
  proof -
    note m = map_of_pending [OF assms, of "unat (aseq fr)" i]
    have "aseq fr = mseq tx" if "p_tx (lk_objs l ! i) = Some tx" for tx
      using m that \<open>?p = Some i\<close> by (simp add: word_unat_eq_iff split: if_splits)
    then have "obj_ok (take_gen fr (lk_objs l ! i))"
      using m \<open>?p = Some i\<close> \<open>gen_matches (lk_objs l ! i) fr\<close>
      by (intro obj_ok_take_gen) (simp_all split: if_splits)
    then show ?thesis by (intro link_inv_upd [OF assms]) (auto simp: take_gen_def Let_def)
  qed
  have resp: "link_inv (upd_obj i (take_resp fr) l)"
    if "ftyp fr = RESP" "resp_target fr ?p l = Some i" for i
  proof -
    have "p_cmd (lk_objs l ! i) = cmd fr \<and> (\<not> p_strict (lk_objs l ! i) \<or> ?p = Some i)"
      using that(2) by (auto simp: resp_target_def oldest_waiter_def find_Some_iff Let_def
          split: option.splits if_splits)
    moreover have "aseq fr = mseq tx" if "p_tx (lk_objs l ! i) = Some tx" "?p = Some i" for tx
      using map_of_pending [OF assms, of "unat (aseq fr)" i] that
      by (simp add: word_unat_eq_iff split: if_splits)
    moreover have "obj_ok (lk_objs l ! i)" if "i < length (lk_objs l)"
      using assms that by (simp add: link_inv_def)
    ultimately have "i < length (lk_objs l) \<Longrightarrow> obj_ok (take_resp fr (lk_objs l ! i))"
      using \<open>ftyp fr = RESP\<close> by (intro obj_ok_take_resp) auto
    then show ?thesis by (intro link_inv_upd [OF assms]) (auto simp: take_resp_def)
  qed
  show ?thesis
    unfolding link_dispatch_def Let_def
    using assms gen resp by (auto split: option.splits if_splits)
qed

lemma link_inv_drop: "link_inv l \<Longrightarrow> link_inv (link_drop l)"
proof -
  have *: "length (fold (\<lambda>(m, i) os. os[i := (os ! i)\<lparr>p_event := True\<rparr>]) ps os) = length os \<and>
      (\<forall>p \<in> set (fold (\<lambda>(m, i) os. os[i := (os ! i)\<lparr>p_event := True\<rparr>]) ps os). obj_ok p)"
    if "\<forall>p \<in> set os. obj_ok p" for ps os
    using that
  proof (induction ps arbitrary: os)
    case (Cons p ps)
    have "\<forall>q \<in> set (os[snd p := (os ! snd p)\<lparr>p_event := True\<rparr>]). obj_ok q"
      using Cons.prems by (intro list_update_all) simp_all
    then show ?case using Cons.IH by (auto simp: case_prod_beta)
  qed simp
  show "link_inv l \<Longrightarrow> link_inv (link_drop l)"
    using * [of "lk_objs l" "lk_pending l"] by (simp add: link_inv_def link_drop_def)
qed

section \<open>Threads, the reader and link loss, interleaved\<close>

text \<open>
  A state is the link, the requests that are waiting (object and sequence number) and the frames
  received so far. One step is one of: an API thread starts a request or sends without waiting, the
  reader dispatches a frame, a waiting thread resumes, the link drops or comes up.
\<close>

type_synonym link_sys = "link \<times> (nat \<times> nat) list \<times> frame list"

inductive link_step :: "link_sys \<Rightarrow> link_sys \<Rightarrow> bool" where
  LBegin: "request_begin c ty body want strict w l = (l', r) \<Longrightarrow>
    link_step (l, ws, rx) (l', (case r of Inl e \<Rightarrow> ws | Inr im \<Rightarrow> im # ws), rx)"
| LSend: "link_send c ty body None w l = (l', r) \<Longrightarrow> link_step (l, ws, rx) (l', ws, rx)"
| LFrame: "lk_open l \<Longrightarrow> link_step (l, ws, rx) (link_dispatch fr l, ws, rx @ [fr])"
| LEnd: "(i, m) \<in> set ws \<Longrightarrow>
    link_step (l, ws, rx) (fst (request_end i m l), remove1 (i, m) ws, rx)"
| LDrop: "link_step (l, ws, rx) (link_drop l, ws, rx)"
| LUp: "\<not> lk_open l \<Longrightarrow> link_step (l, ws, rx) (link_up l, ws, rx)"

inductive link_reach :: "link_sys \<Rightarrow> bool" where
  LRInit: "link_reach (link_init, [], [])"
| LRStep: "link_reach s \<Longrightarrow> link_step s s' \<Longrightarrow> link_reach s'"

inductive_cases link_stepE: "link_step s s'"

definition frames_of :: "pending_req \<Rightarrow> frame set" where
  "frames_of p = set_option (p_gen_frame p) \<union> set_option (p_resp p)"

lemma frames_of_simps [simp]:
  "frames_of (p\<lparr>p_event := b\<rparr>) = frames_of p"
  "frames_of (p\<lparr>p_completed := b\<rparr>) = frames_of p"
  "frames_of (p\<lparr>p_tx := tx\<rparr>) = frames_of p"
  "frames_of (new_pending c ty want strict) = {}"
  by (simp_all add: frames_of_def new_pending_def)

lemma frames_of_take:
  "frames_of (take_gen fr p) \<subseteq> insert fr (frames_of p)"
  "frames_of (take_resp fr p) \<subseteq> insert fr (frames_of p)"
  by (auto simp: frames_of_def take_gen_def take_resp_def Let_def)

definition waits_ok :: "link \<Rightarrow> (nat \<times> nat) set \<Rightarrow> bool" where
  "waits_ok l W \<longleftrightarrow> (\<forall>(i, m) \<in> W. i < length (lk_objs l) \<and>
     (\<exists>tx. p_tx (lk_objs l ! i) = Some tx \<and> unat (mseq tx) = m \<and> tx \<in> set (lk_wire l)))"

lemma waits_ok_mono: "waits_ok l W \<Longrightarrow> V \<subseteq> W \<Longrightarrow> waits_ok l V"
  unfolding waits_ok_def by (rule ballI, erule bspec, erule subsetD)

definition frames_in :: "link \<Rightarrow> frame set \<Rightarrow> bool" where
  "frames_in l F \<longleftrightarrow> (\<forall>p \<in> set (lk_objs l). frames_of p \<subseteq> F)"

definition sys_inv :: "link_sys \<Rightarrow> bool" where
  "sys_inv s = (case s of (l, ws, rx) \<Rightarrow> link_inv l \<and> waits_ok l (set ws) \<and> frames_in l (set rx))"

text \<open>What a step does to the objects: the transmitted frame of an existing object never changes.\<close>

definition same_tx :: "link \<Rightarrow> link \<Rightarrow> bool" where
  "same_tx l l' \<longleftrightarrow> length (lk_objs l) \<le> length (lk_objs l') \<and> set (lk_wire l) \<subseteq> set (lk_wire l') \<and>
     (\<forall>i < length (lk_objs l). p_tx (lk_objs l' ! i) = p_tx (lk_objs l ! i))"

lemma same_tx_upd: "(\<And>p. p_tx (f p) = p_tx p) \<Longrightarrow> same_tx l (upd_obj i f l)"
  by (auto simp: same_tx_def nth_update)

lemma waiters_kept: "same_tx l l' \<Longrightarrow> waits_ok l W \<Longrightarrow> waits_ok l' W"
proof -
  assume s: "same_tx l l'" and w: "waits_ok l W"
  show "waits_ok l' W"
    unfolding waits_ok_def
  proof (intro ballI, clarify)
    fix i m
    assume "(i, m) \<in> W"
    then obtain tx where "i < length (lk_objs l)" "p_tx (lk_objs l ! i) = Some tx" "unat (mseq tx) = m"
      "tx \<in> set (lk_wire l)"
      using w [unfolded waits_ok_def, THEN bspec] by auto
    with s show "i < length (lk_objs l') \<and>
        (\<exists>tx. p_tx (lk_objs l' ! i) = Some tx \<and> unat (mseq tx) = m \<and> tx \<in> set (lk_wire l'))"
      unfolding same_tx_def by auto
  qed
qed

lemma same_tx_dispatch: "same_tx l (link_dispatch fr l)"
proof -
  have "same_tx l l" by (simp add: same_tx_def)
  moreover have "same_tx l (upd_obj i (take_gen fr) l)" "same_tx l (upd_obj i (take_resp fr) l)" for i
    by (auto intro!: same_tx_upd simp: take_gen_def take_resp_def Let_def)
  ultimately show ?thesis by (auto simp: link_dispatch_def Let_def split: option.splits)
qed

lemma frames_dispatch:
  assumes "frames_in l F"
  shows "frames_in (link_dispatch f l) (insert f F)"
proof -
  have old: "\<forall>p \<in> set (lk_objs l). frames_of p \<subseteq> insert f F"
    using assms by (auto simp: frames_in_def)
  have new: "i < length (lk_objs l) \<Longrightarrow> frames_of (lk_objs l ! i) \<subseteq> F" for i
    using assms by (simp add: frames_in_def)
  have "\<forall>p \<in> set ((lk_objs l)[i := take_gen f (lk_objs l ! i)]). frames_of p \<subseteq> insert f F"
    and "\<forall>p \<in> set ((lk_objs l)[i := take_resp f (lk_objs l ! i)]). frames_of p \<subseteq> insert f F" for i
    using new [of i] frames_of_take [of f "lk_objs l ! i"]
    by (intro list_update_all [OF old]; blast)+
  with old show ?thesis by (auto simp: frames_in_def link_dispatch_def Let_def split: option.splits)
qed

definition fold_event :: "(nat \<times> nat) list \<Rightarrow> pending_req list \<Rightarrow> pending_req list" where
  "fold_event = fold (\<lambda>(m, i) os. os[i := (os ! i)\<lparr>p_event := True\<rparr>])"

lemma length_fold_event [simp]: "length (fold_event ps os) = length os"
  by (induction ps arbitrary: os) (auto simp: fold_event_def case_prod_beta)

lemma fold_event_nth:
  "i < length os \<Longrightarrow>
     fold_event ps os ! i = (if i \<in> snd ` set ps then (os ! i)\<lparr>p_event := True\<rparr> else os ! i)"
proof (induction ps arbitrary: os)
  case Nil
  then show ?case by (simp add: fold_event_def)
next
  case (Cons p ps)
  have "fold_event (p # ps) os = fold_event ps (os[snd p := (os ! snd p)\<lparr>p_event := True\<rparr>])"
    by (simp add: fold_event_def case_prod_beta)
  moreover have "i < length (os[snd p := (os ! snd p)\<lparr>p_event := True\<rparr>])" using Cons.prems by simp
  ultimately show ?case using Cons.IH Cons.prems by (cases "snd p = i") (simp_all add: nth_update image_iff)
qed

lemma link_drop_objs: "lk_objs (link_drop l) = fold_event (lk_pending l) (lk_objs l)"
  by (simp add: link_drop_def fold_event_def)

lemma sys_invD:
  assumes "sys_inv (l, ws, rx)"
  shows "link_inv l" and "waits_ok l (set ws)" and "frames_in l (set rx)"
  using assms unfolding sys_inv_def by simp_all

lemma sys_invI:
  assumes "sys_inv (l, ws, rx)" and "link_inv l'" and "same_tx l l'"
    and "frames_in l' (set rx')" and "set ws' \<subseteq> set ws"
  shows "sys_inv (l', ws', rx')"
  using waits_ok_mono [OF waiters_kept [OF assms(3) sys_invD(2) [OF assms(1)]] assms(5)] assms(2,4)
  by (simp add: sys_inv_def)

text \<open>The two effects of a request: registering its object, and transmitting or forgetting.\<close>

lemma sys_inv_mseq [simp]:
  "sys_inv (l\<lparr>lk_mseq := m\<rparr>, ws, rx) = sys_inv (l, ws, rx)"
  by (simp add: sys_inv_def link_inv_def waits_ok_def frames_in_def)

lemma sys_inv_wire:
  assumes "sys_inv (l, ws, rx)"
  shows "sys_inv (l\<lparr>lk_wire := lk_wire l @ [fr]\<rparr>, ws, rx)"
proof (rule sys_invI [OF assms])
  note inv = sys_invD [OF assms]
  show "link_inv (l\<lparr>lk_wire := lk_wire l @ [fr]\<rparr>)" using inv(1) by (simp add: link_inv_def)
  show "frames_in (l\<lparr>lk_wire := lk_wire l @ [fr]\<rparr>) (set rx)" using inv(3) by (simp add: frames_in_def)
qed (auto simp: same_tx_def)

lemma sys_inv_forget: "sys_inv (l, ws, rx) \<Longrightarrow> sys_inv (link_forget m l, ws, rx)"
  using link_inv_forget [of l m]
  by (simp add: sys_inv_def waits_ok_def frames_in_def) (simp add: link_forget_def)

definition with_request :: "nat \<Rightarrow> pending_req \<Rightarrow> link \<Rightarrow> link" where
  "with_request m p l = l\<lparr>lk_objs := lk_objs l @ [p], lk_mseq := m,
     lk_pending := AList.update m (length (lk_objs l)) (lk_pending l)\<rparr>"

lemma lk_wire_with_request [simp]: "lk_wire (with_request m p l) = lk_wire l"
  by (simp add: with_request_def)

lemma sys_inv_with_request:
  assumes inv: "sys_inv (l, ws, rx)" and m: "map_of (lk_pending l) m = None" "1 \<le> m" "m \<le> 255"
    and p: "obj_ok p" "frames_of p = {}" "\<And>tx. p_tx p = Some tx \<Longrightarrow> unat (mseq tx) = m"
  shows "sys_inv (with_request m p l, ws, rx)"
proof (rule sys_invI [OF inv _ _ _ subset_refl])
  let ?i = "length (lk_objs l)"
  note l = sys_invD [OF inv]
  have pend: "lk_pending (with_request m p l) = lk_pending l @ [(m, ?i)]"
    by (simp add: with_request_def update_new m(1))
  have old: "\<forall>(m, i) \<in> set (lk_pending l). 1 \<le> m \<and> m \<le> 255 \<and> i < length (lk_objs l) \<and>
        (\<forall>tx. p_tx (lk_objs l ! i) = Some tx \<longrightarrow> unat (mseq tx) = m)"
    using l(1) unfolding link_inv_def by blast
  then have fresh: "?i \<notin> set (map snd (lk_pending l))" by fastforce
  have "dict_ok (lk_pending l)" "distinct (map snd (lk_pending l))" "\<forall>p \<in> set (lk_objs l). obj_ok p"
    using l(1) unfolding link_inv_def by blast+
  then show "link_inv (with_request m p l)"
    unfolding link_inv_def pend
    using old m p(1,3) fresh dict_ok_update [of "lk_pending l" m ?i]
    by (auto simp: with_request_def nth_append update_new)
  show "same_tx l (with_request m p l)"
    by (auto simp: same_tx_def with_request_def nth_append)
  show "frames_in (with_request m p l) (set rx)"
    using l(3) p(2) by (simp add: frames_in_def with_request_def)
qed

lemma link_send_cases:
  assumes "link_send c ty body obj w l = (l', r)"
  obtains (refused) m e where "l' = l\<lparr>lk_mseq := m\<rparr>" "r = Inl e"
  | (taken) m l2 fr where "map_of (lk_pending l) m = None" "1 \<le> m" "m \<le> 255" "lk_open l"
      "fr = \<lparr>mseq = of_nat m, aseq = 0, grp = fst c, idx = snd c, ftyp = ty, payload = body\<rparr>"
      "l2 = (case obj of None \<Rightarrow> l\<lparr>lk_mseq := m\<rparr>
         | Some i \<Rightarrow> l\<lparr>lk_mseq := m, lk_pending := AList.update m i (lk_pending l)\<rparr>)"
      "(\<exists>e. l' = l2 \<and> r = Inl e) \<or>
       (\<exists>l3. l3 = (case obj of None \<Rightarrow> l2 | Some i \<Rightarrow> upd_obj i (\<lambda>p. p\<lparr>p_tx := Some fr\<rparr>) l2) \<and>
          (l' = l3\<lparr>lk_wire := lk_wire l3 @ [fr]\<rparr> \<and> r = Inr m \<or> l' = link_forget m l3 \<and> (\<exists>e. r = Inl e)))"
proof (cases "lk_open l \<and> snd (next_seq 255 (lk_pending l) (lk_mseq l))")
  case False
  then have "(\<exists>m. l' = l\<lparr>lk_mseq := m\<rparr>) \<and> (\<exists>e. r = Inl e)"
    using assms by (auto simp: link_send_def Let_def split: prod.splits if_splits intro: exI [of _ "lk_mseq l"])
  then show ?thesis using refused by blast
next
  case True
  then obtain m where ns: "next_seq 255 (lk_pending l) (lk_mseq l) = (m, True)"
    by (metis prod.collapse)
  note f = next_seq_free [OF ns]
  show ?thesis
  proof (rule taken [of m _ _])
    show "map_of (lk_pending l) m = None" "1 \<le> m" "m \<le> 255" "lk_open l" using f True by auto
  qed (rule refl, rule refl,
       use assms True ns in \<open>auto simp: link_send_def Let_def split: option.splits sum.splits write_result.splits\<close>)
qed

lemma sys_inv_send:
  assumes inv: "sys_inv (l, ws, rx)" and req: "link_send c ty body None w l = (l', r)"
  shows "sys_inv (l', ws, rx)"
  using req
proof (cases rule: link_send_cases)
  case (refused m e)
  then show ?thesis using inv by simp
next
  case (taken m l2 fr)
  have "sys_inv (l2, ws, rx)" using inv taken(6) by simp
  then show ?thesis using taken(7) by (auto intro: sys_inv_wire sys_inv_forget)
qed

lemma sys_inv_add_obj:
  assumes inv: "sys_inv (l, ws, rx)" and p: "obj_ok p" "frames_of p = {}"
  shows "sys_inv (l\<lparr>lk_objs := lk_objs l @ [p]\<rparr>, ws, rx)"
proof (rule sys_invI [OF inv _ _ _ subset_refl])
  note l = sys_invD [OF inv]
  have old: "\<forall>(m, i) \<in> set (lk_pending l). 1 \<le> m \<and> m \<le> 255 \<and> i < length (lk_objs l) \<and>
        (\<forall>tx. p_tx (lk_objs l ! i) = Some tx \<longrightarrow> unat (mseq tx) = m)"
    and "dict_ok (lk_pending l)" "distinct (map snd (lk_pending l))" "\<forall>p \<in> set (lk_objs l). obj_ok p"
    using l(1) unfolding link_inv_def by blast+
  then show "link_inv (l\<lparr>lk_objs := lk_objs l @ [p]\<rparr>)"
    unfolding link_inv_def using p(1) by (auto simp: nth_append)
  show "same_tx l (l\<lparr>lk_objs := lk_objs l @ [p]\<rparr>)" by (auto simp: same_tx_def nth_append)
  show "frames_in (l\<lparr>lk_objs := lk_objs l @ [p]\<rparr>) (set rx)"
    using l(3) p(2) by (simp add: frames_in_def)
qed

lemma obj_ok_new: "obj_ok (new_pending c ty want strict)"
  by (simp add: obj_ok_def new_pending_def)

lemma request_begin_cases:
  assumes "request_begin c ty body want strict w l = (l', r)"
  obtains (refused) m p e where "l' = l\<lparr>lk_objs := lk_objs l @ [p], lk_mseq := m\<rparr>" "r = Inl e"
      "p = new_pending c ty (case want of None \<Rightarrow> ty = GET | Some b \<Rightarrow> b) strict"
  | (stuck) m p e where "map_of (lk_pending l) m = None" "1 \<le> m" "m \<le> 255"
      "p = new_pending c ty (case want of None \<Rightarrow> ty = GET | Some b \<Rightarrow> b) strict"
      "l' = with_request m p l" "r = Inl e"
  | (tried) m p fr l3 where "map_of (lk_pending l) m = None" "1 \<le> m" "m \<le> 255"
      "fr = \<lparr>mseq = of_nat m, aseq = 0, grp = fst c, idx = snd c, ftyp = ty, payload = body\<rparr>"
      "p = (new_pending c ty (case want of None \<Rightarrow> ty = GET | Some b \<Rightarrow> b) strict)\<lparr>p_tx := Some fr\<rparr>"
      "l3 = with_request m p l"
      "l' = l3\<lparr>lk_wire := lk_wire l3 @ [fr]\<rparr> \<and> r = Inr (length (lk_objs l), m) \<or>
       l' = link_forget m l3 \<and> (\<exists>e. r = Inl e)"
proof -
  let ?p = "new_pending c ty (case want of None \<Rightarrow> ty = GET | Some b \<Rightarrow> b) strict"
  let ?l1 = "l\<lparr>lk_objs := lk_objs l @ [?p]\<rparr>" and ?i = "length (lk_objs l)"
  obtain r' where send: "link_send c ty body (Some ?i) w ?l1 = (l', r')"
    and r: "r = (case r' of Inl e \<Rightarrow> Inl e | Inr m \<Rightarrow> Inr (?i, m))"
    using assms by (auto simp: request_begin_def Let_def split: prod.splits)
  from send show ?thesis
  proof (cases rule: link_send_cases)
    case (refused m e)
    with r show ?thesis using that(1) [of m ?p e] by simp
  next
    case (taken m l2 fr)
    have free: "map_of (lk_pending l) m = None" using taken(1) by simp
    have l2: "l2 = with_request m ?p l" using taken(6) by (simp add: with_request_def)
    have l3: "upd_obj ?i (\<lambda>p. p\<lparr>p_tx := Some fr\<rparr>) l2 = with_request m (?p\<lparr>p_tx := Some fr\<rparr>) l"
      by (simp add: l2 with_request_def upd_obj_def)
    show ?thesis
      using taken(7) r that(2) [OF free taken(2,3) refl] that(3) [OF free taken(2,3,5) refl refl] l2 l3
      by auto
  qed
qed

lemma sys_inv_begin:
  assumes inv: "sys_inv (l, ws, rx)" and req: "request_begin c ty body want strict w l = (l', r)"
  shows "sys_inv (l', (case r of Inl e \<Rightarrow> ws | Inr im \<Rightarrow> im # ws), rx)"
  using req
proof (cases rule: request_begin_cases)
  case (refused m p e)
  have "sys_inv (l\<lparr>lk_objs := lk_objs l @ [p]\<rparr>, ws, rx)"
    unfolding refused(3) by (rule sys_inv_add_obj [OF inv obj_ok_new]) simp
  then have "sys_inv (l\<lparr>lk_objs := lk_objs l @ [p]\<rparr>\<lparr>lk_mseq := m\<rparr>, ws, rx)" by (simp only: sys_inv_mseq)
  with refused(1,2) show ?thesis by simp
next
  case (stuck m p e)
  have "sys_inv (with_request m p l, ws, rx)"
    unfolding stuck(4) by (rule sys_inv_with_request [OF inv stuck(1-3) obj_ok_new])
      (simp_all add: new_pending_def frames_of_def)
  with stuck(5,6) show ?thesis by simp
next
  case (tried m p fr l3)
  have mseq: "unat (mseq fr) = m" using tried(2-4) by simp
  have "obj_ok p" "frames_of p = {}"
    by (auto simp: tried(4,5) obj_ok_def answers_def new_pending_def frames_of_def cmd_def)
  moreover have "p_tx p = Some tx \<Longrightarrow> unat (mseq tx) = m" for tx using mseq by (auto simp: tried(5))
  ultimately have l3: "sys_inv (l3, ws, rx)"
    unfolding tried(6) by (rule sys_inv_with_request [OF inv tried(1-3)])
  from tried(7) show ?thesis
  proof
    assume wire: "l' = l3\<lparr>lk_wire := lk_wire l3 @ [fr]\<rparr> \<and> r = Inr (length (lk_objs l), m)"
    have "sys_inv (l', ws, rx)" using sys_inv_wire [OF l3, of fr] wire by simp
    moreover have "lk_objs l' ! length (lk_objs l) = p" "length (lk_objs l') = Suc (length (lk_objs l))"
      "fr \<in> set (lk_wire l')"
      using wire tried(6) by (simp_all add: with_request_def)
    ultimately show ?thesis
      using wire mseq by (simp add: sys_inv_def waits_ok_def tried(5))
  next
    assume "l' = link_forget m l3 \<and> (\<exists>e. r = Inl e)"
    then show ?thesis using sys_inv_forget [OF l3, of m] by auto
  qed
qed

lemma sys_inv_step: "link_step s s' \<Longrightarrow> sys_inv s \<Longrightarrow> sys_inv s'"
proof (induction rule: link_step.induct)
  case (LBegin c ty body want strict w l l' r ws rx)
  from sys_inv_begin [OF LBegin.prems LBegin.hyps] show ?case .
next
  case (LSend c ty body w l l' r ws rx)
  from sys_inv_send [OF LSend.prems LSend.hyps] show ?case .
next
  case (LFrame l ws rx fr)
  note inv = sys_invD [OF LFrame.prems]
  have "frames_in (link_dispatch fr l) (set (rx @ [fr]))"
    using frames_dispatch [OF inv(3), of fr] by simp
  with LFrame.prems link_inv_dispatch [OF inv(1)] same_tx_dispatch show ?case
    by (rule sys_invI) (rule subset_refl)
next
  case (LEnd i m ws l rx)
  let ?done = "p_event (lk_objs l ! i) \<and> (p_gen (lk_objs l ! i) \<noteq> None \<or> p_resp (lk_objs l ! i) \<noteq> None)"
  let ?l = "link_forget m (upd_obj i (\<lambda>p. p\<lparr>p_completed := ?done\<rparr>) l)"
  have e: "fst (request_end i m l) = ?l" by (simp add: request_end_def Let_def)
  have i: "link_inv l" using LEnd.prems by (simp add: sys_inv_def)
  have "link_inv ?l"
    using i by (intro link_inv_forget link_inv_upd) (simp_all add: link_inv_def)
  moreover have "same_tx l ?l"
    by (auto simp: same_tx_def link_forget_def nth_update)
  moreover have "frames_in ?l (set rx)"
    unfolding link_forget_def
    using sys_invD(3) [OF LEnd.prems] by (simp add: frames_in_def, intro list_update_all) simp_all
  ultimately show ?case
    unfolding e by (rule sys_invI [OF LEnd.prems]) (rule set_remove1_subset)
next
  case (LDrop l ws rx)
  have "same_tx l (link_drop l)"
    by (auto simp: same_tx_def link_drop_objs fold_event_nth) (simp add: link_drop_def)
  moreover have "frames_in (link_drop l) (set rx)"
    using sys_invD(3) [OF LDrop.prems] by (auto simp: frames_in_def link_drop_objs all_set_conv_all_nth fold_event_nth)
  ultimately show ?case
    by (rule sys_invI [OF LDrop.prems link_inv_drop [OF sys_invD(1) [OF LDrop.prems]]]) simp
next
  case (LUp l ws rx)
  then show ?case by (simp add: sys_inv_def link_up_def link_inv_def waits_ok_def frames_in_def)
qed

lemma sys_inv_reach: "link_reach s \<Longrightarrow> sys_inv s"
proof (induction rule: link_reach.induct)
  case LRInit
  then show ?case by (simp add: sys_inv_def link_inv_init waits_ok_def frames_in_def) (simp add: link_init_def)
next
  case (LRStep s s')
  then show ?case by (blast intro: sys_inv_step)
qed

text \<open>
  C1. A strict request believes only its own answer. However requests, frames, drops and reconnects
  interleave, when a waiting strict request resumes and reports success, it was transmitted, and a
  frame was received that carries its sequence number and is either a response of its command or
  an acknowledgement that names its command and type with the code OK.
\<close>

theorem strict_request_sound:
  assumes "link_reach (l, ws, rx)" and "(i, m) \<in> set ws" and "request_end i m l = (l', Some p)"
    and "p_strict p" and "p_ok p"
  shows "\<exists>tx fr. tx \<in> set (lk_wire l) \<and> p_tx p = Some tx \<and> unat (mseq tx) = m \<and>
    fr \<in> set rx \<and> aseq fr = mseq tx \<and>
    (cmd fr = cmd tx \<and> ftyp fr = RESP \<or>
     cmd fr = GEN_PHONE_RES \<and> dec_gen (payload fr) = \<lparr>g_for = cmd tx, g_typ = ftyp tx, g_code = GEN_OK\<rparr>)"
proof -
  note inv = sys_invD [OF sys_inv_reach [OF assms(1)]]
  let ?q = "lk_objs l ! i"
  obtain tx where i: "i < length (lk_objs l)" and tx: "p_tx ?q = Some tx" "unat (mseq tx) = m"
      "tx \<in> set (lk_wire l)"
    using inv(2) [unfolded waits_ok_def, THEN bspec, OF assms(2)] by auto
  obtain b where p: "p = ?q\<lparr>p_completed := b\<rparr>"
    using assms(3) i by (auto simp: request_end_def link_forget_def Let_def split: if_splits)
  have q: "obj_ok ?q" "frames_of ?q \<subseteq> set rx"
    using inv(1,3) i by (simp_all add: link_inv_def frames_in_def)
  then have a: "answers ?q tx" using tx(1) by (simp add: obj_ok_def)
  show ?thesis
  proof (cases "p_resp ?q")
    case None
    then obtain g where g: "p_gen ?q = Some g" "g_ok g"
      using assms(5) p by (auto simp: p_ok_def split: option.splits)
    then obtain fr where fr: "p_gen_frame ?q = Some fr" using a by (auto simp: answers_def)
    then have "fr \<in> set rx" using q(2) by (auto simp: frames_of_def)
    moreover have "cmd fr = GEN_PHONE_RES" "aseq fr = mseq tx" "g = dec_gen (payload fr)"
      "g_for g = cmd tx" "g_typ g = ftyp tx"
      using a fr g(1) assms(4) p by (auto simp: answers_def)
    moreover have "g_code g = GEN_OK" using g(2) by (simp add: g_ok_def)
    ultimately show ?thesis using tx p by (intro exI [of _ tx] exI [of _ fr]) auto
  next
    case (Some fr)
    then have "fr \<in> set rx" using q(2) by (auto simp: frames_of_def)
    moreover have "cmd fr = cmd tx" "aseq fr = mseq tx" "ftyp fr = RESP"
      using a Some assms(4) p by (auto simp: answers_def)
    ultimately show ?thesis using tx p by (intro exI [of _ tx] exI [of _ fr]) auto
  qed
qed

text \<open>A concrete run: one strict request, a foreign frame, its acknowledgement.\<close>

definition ack_frame :: "byte \<Rightarrow> byte \<times> byte \<Rightarrow> byte \<Rightarrow> nat \<Rightarrow> frame" where
  "ack_frame m c ty code =
     \<lparr>mseq = 0, aseq = m, grp = fst GEN_PHONE_RES, idx = snd GEN_PHONE_RES, ftyp = RESP,
      payload = [fst c, snd c, ty] @ to_bytes_le 2 code\<rparr>"

lemma dec_gen_ack:
  assumes "code < 65536"
  shows "dec_gen (payload (ack_frame m c ty code)) = \<lparr>g_for = c, g_typ = ty, g_code = code\<rparr>"
proof -
  have "from_bytes_le (to_bytes_le 2 code) = code" using assms by (intro from_to_bytes_le) simp
  then show ?thesis by (simp add: dec_gen_def ack_frame_def py_slice_def)
qed

lemma ack_frame_matches:
  "p_cmd p = c \<Longrightarrow> p_typ p = ty \<Longrightarrow> gen_matches p (ack_frame m c ty code)"
  by (auto simp: gen_matches_def ack_frame_def GEN_PHONE_RES_def cmd_def)

definition demo_frame :: frame where
  "demo_frame = \<lparr>mseq = 1, aseq = 0, grp = 4, idx = 1, ftyp = EXEC, payload = [0xAA]\<rparr>"

definition demo_req :: pending_req where
  "demo_req = (new_pending (4, 1) EXEC False True)\<lparr>p_tx := Some demo_frame\<rparr>"

definition demo_begin :: link where
  "demo_begin = (link_up link_init)\<lparr>lk_objs := [demo_req], lk_pending := [(1, 0)], lk_mseq := 1,
     lk_wire := [demo_frame]\<rparr>"

definition demo_done :: pending_req where
  "demo_done = take_gen (ack_frame 1 (4, 1) EXEC GEN_OK) demo_req"

definition demo_link :: link where
  "demo_link = demo_begin\<lparr>lk_objs := [demo_done]\<rparr>"

lemma next_seq_first: "0 < n \<Longrightarrow> m < 255 \<Longrightarrow> map_of pend (Suc m) = None \<Longrightarrow> next_seq n pend m = (Suc m, True)"
  by (cases n) (simp_all add: Let_def)

lemma demo_request:
  "request_begin (4, 1) EXEC [0xAA] (Some False) True Written (link_up link_init) = (demo_begin, Inr (0, 1))"
  by (simp add: demo_begin_def demo_req_def demo_frame_def link_up_def link_init_def request_begin_def
      link_send_def encode_def HDR_size_def Let_def next_seq_first new_pending_def upd_obj_def)

lemma demo_answer: "link_dispatch (ack_frame 1 (4, 1) EXEC GEN_OK) demo_begin = demo_link"
proof -
  have "gen_matches demo_req (ack_frame 1 (4, 1) EXEC GEN_OK)"
    by (rule ack_frame_matches) (simp_all add: demo_req_def new_pending_def)
  then show ?thesis
    by (simp add: link_dispatch_def demo_begin_def demo_link_def demo_done_def ack_frame_def upd_obj_def)
qed

lemma demo_done_facts:
  "p_event demo_done" "p_gen demo_done \<noteq> None" "p_strict demo_done" "p_ok demo_done"
  using dec_gen_ack [of GEN_OK 1 "(4, 1)" EXEC]
  by (simp_all add: demo_done_def take_gen_def demo_req_def new_pending_def p_ok_def g_ok_def GEN_OK_def Let_def)

lemma link_up_reach: "link_reach (link_up link_init, [], [])"
  by (rule LRStep [OF LRInit], rule LUp) (simp add: link_init_def)

lemma demo_link_reach: "link_reach (demo_link, [(0, 1)], [ack_frame 1 (4, 1) EXEC GEN_OK])"
proof -
  have "link_step (link_up link_init, [], []) (demo_begin, [(0, 1)], [])"
    using LBegin [OF demo_request, of "[]" "[]"] by simp
  then have b: "link_reach (demo_begin, [(0, 1)], [])" by (rule LRStep [OF link_up_reach])
  have "link_step (demo_begin, [(0, 1)], []) (demo_link, [(0, 1)], [] @ [ack_frame 1 (4, 1) EXEC GEN_OK])"
    unfolding demo_answer [symmetric] by (rule LFrame) (simp add: demo_begin_def link_up_def)
  from LRStep [OF b this] show ?thesis by simp
qed

lemma strict_request_sound_witness:
  "\<exists>tx fr. tx \<in> set [demo_frame] \<and> Some tx = Some demo_frame \<and> unat (mseq tx) = 1 \<and>
    fr \<in> set [ack_frame 1 (4, 1) EXEC GEN_OK] \<and> aseq fr = mseq tx \<and>
    (cmd fr = cmd tx \<and> ftyp fr = RESP \<or>
     cmd fr = GEN_PHONE_RES \<and> dec_gen (payload fr) = \<lparr>g_for = cmd tx, g_typ = ftyp tx, g_code = GEN_OK\<rparr>)"
proof -
  let ?p = "demo_done\<lparr>p_completed := True\<rparr>"
  have e: "request_end 0 1 demo_link = (demo_link\<lparr>lk_objs := [?p], lk_pending := []\<rparr>, Some ?p)"
    using demo_done_facts(1-3)
    by (simp add: request_end_def demo_link_def demo_begin_def upd_obj_def link_forget_def Let_def)
  have "p_strict ?p" "p_ok ?p" using demo_done_facts by (simp_all add: p_ok_def)
  from strict_request_sound [OF demo_link_reach _ e this] show ?thesis
    by (auto simp: demo_link_def demo_begin_def demo_done_def demo_req_def take_gen_def Let_def)
qed

section \<open>Sending and waiting\<close>

lemma all_sequences_used:
  assumes "link_inv l"
  shows "{1..255} \<subseteq> fst ` set (lk_pending l) \<longleftrightarrow> length (lk_pending l) = 255"
proof -
  let ?K = "fst ` set (lk_pending l)"
  have sub: "?K \<subseteq> {1..255}" using assms by (fastforce simp: link_inv_def)
  have card: "card ?K = length (lk_pending l)"
    using assms distinct_card [of "map fst (lk_pending l)"] by (simp add: link_inv_def dict_ok_def)
  have "{1..255} \<subseteq> ?K \<longleftrightarrow> ?K = {1..255}" using sub by blast
  also have "\<dots> \<longleftrightarrow> card ?K = card {1..255::nat}" using sub by (metis card_subset_eq finite_atLeastAtMost)
  finally show ?thesis using card by simp
qed

text \<open>
  On an open link a frame that fits is sent unless all 255 sequence numbers are taken: a send
  gets a number from 1 to 255 that no pending request has, and only the full table makes it fail.
\<close>

theorem send_sequence:
  assumes "link_reach (l, ws, rx)" and "lk_open l" and "length body < 65529"
  shows "(\<exists>m. snd (link_send c ty body obj Written l) = Inr m \<and> 1 \<le> m \<and> m \<le> 255 \<and>
             map_of (lk_pending l) m = None \<and> length (lk_pending l) < 255) \<or>
         (snd (link_send c ty body obj Written l) = Inl (LinkDown (lit ''all IPC sequences are in use'')) \<and>
             length (lk_pending l) = 255)"
proof -
  note inv = sys_invD(1) [OF sys_inv_reach [OF assms(1)]]
  obtain m b where ns: "next_seq 255 (lk_pending l) (lk_mseq l) = (m, b)" by fastforce
  have full: "b \<longleftrightarrow> length (lk_pending l) \<noteq> 255"
    using next_seq_full [of "lk_pending l" "lk_mseq l"] all_sequences_used [OF inv] ns by simp
  have "fst ` set (lk_pending l) \<subseteq> {1..255}" using inv by (fastforce simp: link_inv_def)
  then have "card (fst ` set (lk_pending l)) \<le> card {1..255::nat}" by (intro card_mono) simp_all
  then have le: "length (lk_pending l) \<le> 255"
    using inv distinct_card [of "map fst (lk_pending l)"] by (simp add: link_inv_def dict_ok_def)
  have "HDR_size + length body < 65536" using assms(3) by (simp add: HDR_size_def)
  then show ?thesis
    using ns full le next_seq_free [of 255 "lk_pending l" "lk_mseq l" m] assms(2)
    by (cases b) (auto simp: link_send_def encode_def Let_def)
qed

lemma send_sequence_witness:
  "(\<exists>m. snd (link_send (4, 1) EXEC [0xAA] None Written (link_up link_init)) = Inr m \<and> 1 \<le> m \<and> m \<le> 255 \<and>
        map_of (lk_pending (link_up link_init)) m = None \<and> length (lk_pending (link_up link_init)) < 255) \<or>
   (snd (link_send (4, 1) EXEC [0xAA] None Written (link_up link_init)) =
        Inl (LinkDown (lit ''all IPC sequences are in use'')) \<and>
    length (lk_pending (link_up link_init)) = 255)"
  by (rule send_sequence [OF link_up_reach]) (simp_all add: link_up_def)

text \<open>Frames that carry another sequence number leave a strict request alone.\<close>

lemma dispatch_other:
  assumes "link_inv l" and "map_of (lk_pending l) m = Some i" and "p_strict (lk_objs l ! i)"
    and "unat (aseq fr) \<noteq> m"
  shows "lk_pending (link_dispatch fr l) = lk_pending l \<and> lk_objs (link_dispatch fr l) ! i = lk_objs l ! i"
proof -
  have other: "j \<noteq> i" if "map_of (lk_pending l) (unat (aseq fr)) = Some j" for j
  proof
    assume "j = i"
    then have "(unat (aseq fr), i) \<in> set (lk_pending l)" "(m, i) \<in> set (lk_pending l)"
      using that assms(2) by (auto dest: map_of_SomeD)
    moreover have "distinct (map snd (lk_pending l))" using assms(1) by (simp add: link_inv_def)
    ultimately show False using assms(4) inj_onD [of snd "set (lk_pending l)"]
      by (metis distinct_map snd_conv fst_conv)
  qed
  moreover have "j \<noteq> i" if "oldest_waiter fr l = Some j" for j
    using that assms(3) by (auto simp: oldest_waiter_def find_Some_iff Let_def)
  ultimately have "j \<noteq> i"
    if "resp_target fr (if aseq fr \<noteq> 0 then map_of (lk_pending l) (unat (aseq fr)) else None) l = Some j" for j
    using that by (auto simp: resp_target_def split: option.splits if_splits)
  then show ?thesis
    using other by (auto simp: link_dispatch_def Let_def split: option.splits if_splits)
qed

lemma dispatch_others:
  assumes "link_inv l" and "map_of (lk_pending l) m = Some i" and "p_strict (lk_objs l ! i)"
    and "\<forall>fr \<in> set frs. unat (aseq fr) \<noteq> m"
  shows "link_inv (fold link_dispatch frs l) \<and>
    lk_pending (fold link_dispatch frs l) = lk_pending l \<and>
    lk_objs (fold link_dispatch frs l) ! i = lk_objs l ! i"
  using assms
proof (induction frs arbitrary: l)
  case (Cons fr frs)
  then have "lk_pending (link_dispatch fr l) = lk_pending l" "lk_objs (link_dispatch fr l) ! i = lk_objs l ! i"
    using dispatch_other [of l m i fr] by simp_all
  then show ?case using Cons link_inv_dispatch [of l fr] by simp
qed simp



end
