(* ===== verification/Gsm_Codec.thy ===== *)
theory Gsm_Codec
  imports S22_Prelude
begin

text \<open>
  The character and digit codings of GSM 03.38/03.40 in
  \<^verbatim>\<open>src/tools/hardware/phoned/s22-phoned.py\<close>: the 7-bit alphabet with its escape table
  (\<open>gsm7_septets\<close>, \<open>gsm7_text\<close>), the packing of septets into octets (\<open>pack7\<close>, \<open>unpack7\<close>),
  swapped-nibble digits (\<open>bcd_encode\<close>, \<open>bcd_decode\<close>), phone numbers (\<open>normalize_number\<close>,
  \<open>encode_address\<close>, \<open>decode_address\<close>, \<open>encode_smsc\<close>, \<open>decode_smsc\<close>) and time stamps.

  A septet is a \<open>nat\<close>: the code computes with Python integers and masks with \<open>0x7F\<close>.
\<close>

section \<open>The 7-bit default alphabet\<close>

definition GSM7 :: "nat list" where
  "GSM7 =
    [64, 163, 36, 165, 232, 233, 249, 236, 242, 199, 10, 216, 248, 13, 197, 229,
     916, 95, 934, 915, 923, 937, 928, 936, 931, 920, 926, 27, 198, 230, 223, 201,
     32, 33, 34, 35, 164, 37, 38, 39, 40, 41, 42, 43, 44, 45, 46, 47,
     48, 49, 50, 51, 52, 53, 54, 55, 56, 57, 58, 59, 60, 61, 62, 63,
     161, 65, 66, 67, 68, 69, 70, 71, 72, 73, 74, 75, 76, 77, 78, 79,
     80, 81, 82, 83, 84, 85, 86, 87, 88, 89, 90, 196, 214, 209, 220, 167,
     191, 97, 98, 99, 100, 101, 102, 103, 104, 105, 106, 107, 108, 109, 110, 111,
     112, 113, 114, 115, 116, 117, 118, 119, 120, 121, 122, 228, 246, 241, 252, 224]"

definition GSM7_EXT :: "(nat, nat) dict" where
  "GSM7_EXT = [(10, 12), (20, 94), (40, 123), (41, 125), (47, 92), (60, 91), (61, 126), (62, 93), (64, 124), (101, 8364)]"

definition GSM7_REV :: "(nat, nat) dict" where
  "GSM7_REV = filter (\<lambda>(c, i). i \<noteq> 0x1B) (zip GSM7 [0..<length GSM7])"

definition GSM7_EXT_REV :: "(nat, nat) dict" where
  "GSM7_EXT_REV = map (\<lambda>(i, c). (c, i)) GSM7_EXT"

fun gsm7_septets :: "pystr \<Rightarrow> nat list option" where
  "gsm7_septets [] = Some []"
| "gsm7_septets (ch # text) =
     (case map_of GSM7_REV ch of
        Some i \<Rightarrow> map_option (\<lambda>out. i # out) (gsm7_septets text)
      | None \<Rightarrow>
         (case map_of GSM7_EXT_REV ch of
            Some i \<Rightarrow> map_option (\<lambda>out. 0x1B # i # out) (gsm7_septets text)
          | None \<Rightarrow> None))"

text \<open>The loop of \<open>gsm7_text\<close> with its flag \<open>esc\<close>; the septets are below 128 (\<open>unpack7\<close> masks).\<close>

fun gsm7_text_loop :: "bool \<Rightarrow> nat list \<Rightarrow> pystr" where
  "gsm7_text_loop esc [] = []"
| "gsm7_text_loop esc (s # ss) =
     (if esc then (case map_of GSM7_EXT s of Some c \<Rightarrow> c | None \<Rightarrow> GSM7 ! s) # gsm7_text_loop False ss
      else if s = 0x1B then gsm7_text_loop True ss
      else (GSM7 ! s) # gsm7_text_loop False ss)"

definition gsm7_text :: "nat list \<Rightarrow> pystr" where
  "gsm7_text septets = gsm7_text_loop False septets"

section \<open>Septets in octets\<close>

fun pack7_loop :: "nat list \<Rightarrow> nat \<times> nat \<Rightarrow> nat \<times> nat" where
  "pack7_loop [] acc = acc"
| "pack7_loop (s # ss) (val, bits) = pack7_loop ss (val OR push_bit bits (s AND 0x7F), bits + 7)"

definition pack7 :: "nat list \<Rightarrow> nat \<Rightarrow> bytes" where
  "pack7 septets fill =
     (let (val, bits) = pack7_loop septets (0, fill) in to_bytes_le ((bits + 7) div 8) val)"

definition unpack7 :: "bytes \<Rightarrow> nat \<Rightarrow> nat \<Rightarrow> nat list" where
  "unpack7 xs count fill =
     (let val = from_bytes_le xs in map (\<lambda>k. drop_bit (fill + 7 * k) val AND 0x7F) [0..<count])"

section \<open>Swapped-nibble digits\<close>

text \<open>\<open>int(c, 16)\<close> on an ASCII character.\<close>

definition hexval :: "nat \<Rightarrow> pyerr + nat" where
  "hexval c =
     (if 48 \<le> c \<and> c \<le> 57 then Inr (c - 48)
      else if 65 \<le> c \<and> c \<le> 70 then Inr (c - 55)
      else if 97 \<le> c \<and> c \<le> 102 then Inr (c - 87)
      else Inl ValueError)"

fun bcd_pairs :: "pystr \<Rightarrow> pyerr + bytes" where
  "bcd_pairs (x # y # digits) =
     try_r (hexval y) (\<lambda>h. try_r (hexval x) (\<lambda>l. try_r (bcd_pairs digits) (\<lambda>out.
       Inr (of_nat (push_bit 4 h OR l) # out))))"
| "bcd_pairs _ = Inr []"

definition bcd_encode :: "pystr \<Rightarrow> pyerr + bytes" where
  "bcd_encode digits = bcd_pairs (if odd (length digits) then digits @ lit ''F'' else digits)"

text \<open>\<open>m.get(nib, str(nib))\<close> for a nibble that is not the filler \<open>0xF\<close>.\<close>

definition nib_char :: "nat \<Rightarrow> nat" where
  "nib_char n = (if n = 10 then 42 else if n = 11 then 35 else if n = 12 then 97
                 else if n = 13 then 98 else if n = 14 then 99 else 48 + n)"

fun bcd_chars :: "bytes \<Rightarrow> pystr" where
  "bcd_chars [] = []"
| "bcd_chars (b # bs) =
     map nib_char (filter (\<lambda>nib. nib \<noteq> 0x0F) [unat b AND 0x0F, drop_bit 4 (unat b)]) @ bcd_chars bs"

definition bcd_decode :: "bytes \<Rightarrow> nat option \<Rightarrow> pystr" where
  "bcd_decode xs ndigits =
     (let s = bcd_chars xs in case ndigits of None \<Rightarrow> s | Some n \<Rightarrow> take n s)"

section \<open>Phone numbers\<close>

text \<open>Python's \<open>\s\<close>: the code points for which \<open>str.isspace\<close> holds.\<close>

definition is_space :: "nat \<Rightarrow> bool" where
  "is_space c \<longleftrightarrow> 9 \<le> c \<and> c \<le> 13 \<or> 28 \<le> c \<and> c \<le> 32 \<or> c = 133 \<or> c = 160 \<or> c = 5760 \<or>
     8192 \<le> c \<and> c \<le> 8202 \<or> c = 8232 \<or> c = 8233 \<or> c = 8239 \<or> c = 8287 \<or> c = 12288"

text \<open>
  \<open>number\<close> is already \<open>str(number or "")\<close>: a JSON string of the API, or the empty string for a
  missing one.
\<close>

definition normalize_number :: "pystr \<Rightarrow> pystr" where
  "normalize_number number =
     (let n = filter (\<lambda>c. \<not> (is_space c \<or> c \<in> set (lit ''-().''))) number in
      if take 2 n = lit ''00'' \<and> 4 < length n then lit ''+'' @ drop 2 n else n)"

definition plus_sign :: nat where
  "plus_sign = 43"

definition is_dial_digit :: "nat \<Rightarrow> bool" where
  "is_dial_digit c \<longleftrightarrow> 48 \<le> c \<and> c \<le> 57 \<or> c = 42 \<or> c = 35"

definition star_hash :: "nat \<Rightarrow> nat" where
  "star_hash c = (if c = 42 then 65 else if c = 35 then 66 else c)"

definition encode_address :: "pystr \<Rightarrow> pyerr + bytes" where
  "encode_address number =
     (let n = normalize_number number;
          toa = (if take 1 n = lit ''+'' then 0x91 else 0x81);
          digits = dropWhile (\<lambda>c. c = plus_sign) n
      in if \<not> (list_all is_dial_digit digits \<and> 1 \<le> length digits \<and> length digits \<le> 20)
         then Inl ValueError
         else try_r (bcd_encode (map star_hash digits)) (\<lambda>bcd.
                Inr ([of_nat (length digits), toa] @ bcd)))"

definition encode_smsc :: "pystr \<Rightarrow> pyerr + bytes" where
  "encode_smsc number = try_r (encode_address number) (\<lambda>a. Inr (drop 1 a))"

definition decode_address :: "bytes \<Rightarrow> nat \<Rightarrow> pyerr + pystr \<times> nat" where
  "decode_address xs off =
     try_r (item xs off) (\<lambda>ndig. try_r (item xs (off + 1)) (\<lambda>toa.
       let nbytes = (unat ndig + 1) div 2;
           raw = py_slice (off + 2) (off + 2 + nbytes) xs;
           ton = drop_bit 4 (unat toa) AND 0x07
       in if ton = 5
          then Inr (gsm7_text (unpack7 raw (unat ndig * 4 div 7) 0), off + 2 + nbytes)
          else (let num = bcd_decode raw (Some (unat ndig));
                    num' = (if ton = 1 then lit ''+'' @ num else num)
                in Inr (num', off + 2 + nbytes))))"

definition decode_smsc :: "bytes \<Rightarrow> nat \<Rightarrow> pyerr + pystr option \<times> nat" where
  "decode_smsc xs off =
     try_r (item xs off) (\<lambda>n.
       if n = 0 then Inr (None, off + 1)
       else try_r (item xs (off + 1)) (\<lambda>toa.
         let num = bcd_decode (py_slice (off + 2) (off + 1 + unat n) xs) None
         in Inr (Some (if drop_bit 4 (unat toa) AND 7 = 1 then lit ''+'' @ num else num),
                 off + 1 + unat n)))"

section \<open>Time stamps\<close>

fun dec_digits :: "nat \<Rightarrow> pystr" where
  "dec_digits n = (if n < 10 then [48 + n] else dec_digits (n div 10) @ [48 + n mod 10])"

declare dec_digits.simps [simp del]

text \<open>The format \<open>{n:0wd}\<close>.\<close>

definition zpad :: "nat \<Rightarrow> nat \<Rightarrow> pystr" where
  "zpad w n = replicate (w - length (dec_digits n)) 48 @ dec_digits n"

definition swap_nibbles :: "byte \<Rightarrow> nat" where
  "swap_nibbles x = (unat x AND 0x0F) * 10 + drop_bit 4 (unat x)"

definition decode_scts :: "bytes \<Rightarrow> pyerr + pystr" where
  "decode_scts b =
     try_r (item b 6) (\<lambda>tz.
       let d = map swap_nibbles (take 6 b);
           q = (unat tz AND 0x07) * 10 + drop_bit 4 (unat tz);
           sign = (if unat tz AND 0x08 \<noteq> 0 then lit ''-'' else lit ''+'')
       in Inr (zpad 4 ((if d ! 0 < 70 then 2000 else 1900) + d ! 0) @ lit ''-'' @ zpad 2 (d ! 1) @
               lit ''-'' @ zpad 2 (d ! 2) @ lit ''T'' @ zpad 2 (d ! 3) @ lit '':'' @ zpad 2 (d ! 4) @
               lit '':'' @ zpad 2 (d ! 5) @ sign @ zpad 2 (q div 4) @ lit '':'' @
               zpad 2 (q mod 4 * 15)))"

text \<open>
  \<open>encode_scts\<close> of the broken-down UTC time \<open>time.gmtime\<close> returned: year, month, day, hour,
  minute and second.
\<close>

definition encode_scts :: "nat \<times> nat \<times> nat \<times> nat \<times> nat \<times> nat \<Rightarrow> bytes" where
  "encode_scts tm =
     (case tm of (year, mon, mday, hour, minute, sec) \<Rightarrow>
       map (\<lambda>v. of_nat (push_bit 4 (v mod 10) OR v div 10)) [year mod 100, mon, mday, hour, minute, sec, 0])"

section \<open>The alphabet: decoding inverts encoding\<close>

lemma gsm7_rev_Some: "map_of GSM7_REV c = Some i \<Longrightarrow> i < 128 \<and> i \<noteq> 27 \<and> GSM7 ! i = c"
proof -
  assume "map_of GSM7_REV c = Some i"
  then have "(c, i) \<in> set GSM7_REV" by (rule map_of_SomeD)
  moreover have "length GSM7 = 128" by (simp add: GSM7_def)
  ultimately show ?thesis by (auto simp: GSM7_REV_def set_zip)
qed

lemma gsm7_ext_rev_Some:
  "map_of GSM7_EXT_REV c = Some i \<Longrightarrow> i < 128 \<and> map_of GSM7_EXT i = Some c"
  by (auto simp: GSM7_EXT_REV_def GSM7_EXT_def split: if_splits)

lemma gsm7_septets_cases:
  assumes "gsm7_septets (ch # t) = Some ss"
  obtains (plain) i rest where "map_of GSM7_REV ch = Some i" "gsm7_septets t = Some rest" "ss = i # rest"
  | (ext) i rest where "map_of GSM7_EXT_REV ch = Some i" "gsm7_septets t = Some rest" "ss = 27 # i # rest"
  using assms by (auto split: option.splits)

lemma gsm7_septets_less: "gsm7_septets t = Some ss \<Longrightarrow> \<forall>s \<in> set ss. s < 128"
proof (induction t arbitrary: ss)
  case Nil
  then show ?case by simp
next
  case (Cons ch t)
  from Cons.prems show ?case
    by (cases rule: gsm7_septets_cases) (auto dest: gsm7_rev_Some gsm7_ext_rev_Some Cons.IH)
qed

lemma gsm7_text_septets: "gsm7_septets t = Some ss \<Longrightarrow> gsm7_text ss = t"
proof (induction t arbitrary: ss)
  case Nil
  then show ?case by (simp add: gsm7_text_def)
next
  case (Cons ch t)
  from Cons.prems show ?case
    by (cases rule: gsm7_septets_cases)
      (auto simp: gsm7_text_def dest: gsm7_rev_Some gsm7_ext_rev_Some Cons.IH)
qed

section \<open>Packing: unpacking inverts it\<close>

text \<open>The number a septet list stands for, least significant septet first.\<close>

fun sept_val :: "nat list \<Rightarrow> nat" where
  "sept_val [] = 0"
| "sept_val (s # ss) = s + 128 * sept_val ss"

lemma pack7_loop_val:
  assumes "\<forall>s \<in> set ss. s < 128" and "val < 2 ^ bits"
  shows "pack7_loop ss (val, bits) = (val + sept_val ss * 2 ^ bits, bits + 7 * length ss)"
  using assms
proof (induction ss arbitrary: val bits)
  case Nil
  then show ?case by simp
next
  case (Cons s ss)
  then have s: "s < 128" by simp
  have "val + s * 2 ^ bits < 2 ^ bits + s * 2 ^ bits" using Cons.prems(2) by simp
  also have "\<dots> = (s + 1) * 2 ^ bits" by simp
  also have "\<dots> \<le> 128 * 2 ^ bits" using s by (intro mult_le_mono1) simp
  also have "\<dots> = 2 ^ (bits + 7)" by (simp add: power_add)
  finally have "val + s * 2 ^ bits < 2 ^ (bits + 7)" .
  with Cons.IH [of "val + s * 2 ^ bits" "bits + 7"] Cons.prems s show ?case
    by (simp add: or_push_bit power_add algebra_simps)
qed

lemma sept_val_less: "\<forall>s \<in> set ss. s < 128 \<Longrightarrow> sept_val ss < 128 ^ length ss"
proof (induction ss)
  case Nil
  then show ?case by simp
next
  case (Cons s ss)
  then have "sept_val ss + 1 \<le> 128 ^ length ss" and "s < 128" by auto
  then have "128 * (sept_val ss + 1) \<le> 128 * 128 ^ length ss" by (intro mult_le_mono2)
  with \<open>s < 128\<close> show ?case by simp
qed

lemma sept_val_nth:
  "\<forall>s \<in> set ss. s < 128 \<Longrightarrow> k < length ss \<Longrightarrow> sept_val ss div 128 ^ k mod 128 = ss ! k"
proof (induction ss arbitrary: k)
  case Nil
  then show ?case by simp
next
  case (Cons s ss)
  show ?case
  proof (cases k)
    case 0
    with Cons.prems show ?thesis by simp
  next
    case (Suc j)
    with Cons show ?thesis by (simp add: div_mult2_eq)
  qed
qed

lemma pack7_value:
  assumes "\<forall>s \<in> set ss. s < 128"
  shows "from_bytes_le (pack7 ss fill) = sept_val ss * 2 ^ fill"
    and "length (pack7 ss fill) = (fill + 7 * length ss + 7) div 8"
proof -
  let ?n = "(fill + 7 * length ss + 7) div 8"
  have "sept_val ss * 2 ^ fill < 128 ^ length ss * 2 ^ fill"
    using sept_val_less [OF assms] by simp
  also have "\<dots> = 2 ^ (fill + 7 * length ss)" by (simp add: power_add power_mult)
  also have "\<dots> \<le> 2 ^ (8 * ?n)" by (intro power_increasing) auto
  also have "\<dots> = 256 ^ ?n" by (simp add: power_mult)
  finally have "sept_val ss * 2 ^ fill < 256 ^ ?n" .
  moreover have "pack7 ss fill = to_bytes_le ?n (sept_val ss * 2 ^ fill)"
    using pack7_loop_val [OF assms, of 0 fill] by (simp add: pack7_def)
  ultimately show "from_bytes_le (pack7 ss fill) = sept_val ss * 2 ^ fill"
    and "length (pack7 ss fill) = ?n"
    by (simp_all add: from_to_bytes_le)
qed

text \<open>
  Septets packed behind a header of octets whose bits, with the fill bits, make \<open>h\<close> whole
  septets: skipping \<open>h\<close> septets of the unpacked field gives them back.
\<close>

lemma unpack7_pack7_behind:
  assumes ss: "\<forall>s \<in> set ss. s < 128" and h: "8 * length pre + fill = 7 * h"
  shows "drop h (unpack7 (pre @ pack7 ss fill) (h + length ss) 0) = ss"
proof -
  let ?P = "from_bytes_le pre" and ?val = "from_bytes_le (pre @ pack7 ss fill)"
  have "?P < 256 ^ length pre" by (rule from_bytes_le_less)
  also have "\<dots> = 2 ^ (8 * length pre)" by (simp add: power_mult)
  also have "\<dots> \<le> 2 ^ (7 * h)" by (intro power_increasing) (use h in auto)
  finally have P: "?P < 128 ^ h" by (simp add: power_mult)
  have "(256::nat) ^ length pre * 2 ^ fill = 2 ^ (8 * length pre + fill)"
    by (simp add: power_add power_mult)
  also have "\<dots> = 128 ^ h" by (simp add: h power_mult)
  finally have v: "?val = ?P + sept_val ss * 128 ^ h"
    by (simp add: from_bytes_le_append pack7_value [OF ss] algebra_simps)
  have "drop_bit (7 * (h + k)) ?val AND 127 = ss ! k" if "k < length ss" for k
  proof -
    have "drop_bit (7 * (h + k)) ?val = ?val div 128 ^ h div 128 ^ k"
      by (simp add: drop_bit_eq_div power_mult power_add div_mult2_eq)
    also have "?val div 128 ^ h = sept_val ss"
      using P by (simp add: v)
    finally show ?thesis using sept_val_nth [OF ss that] by simp
  qed
  then show ?thesis
    by (intro nth_equalityI) (auto simp: unpack7_def Let_def add.commute simp del: and_7F)
qed

corollary unpack7_pack7:
  "\<forall>s \<in> set ss. s < 128 \<Longrightarrow> unpack7 (pack7 ss 0) (length ss) 0 = ss"
  using unpack7_pack7_behind [of ss "[]" 0 0] by simp

section \<open>Digits and addresses: decoding inverts encoding\<close>

definition digit_code :: "nat \<Rightarrow> nat" where
  "digit_code c = (if c = 42 then 10 else if c = 35 then 11 else c - 48)"

lemma digit_code:
  assumes "is_dial_digit c"
  shows "hexval (star_hash c) = Inr (digit_code c)" and "digit_code c < 12"
    and "nib_char (digit_code c) = c"
  using assms by (auto simp: is_dial_digit_def hexval_def star_hash_def digit_code_def nib_char_def)

lemma nibbles_of_byte:
  assumes "h < 16" and "l < 16"
  shows "unat (of_nat (push_bit 4 h OR l) :: byte) mod 16 = l"
    and "drop_bit 4 (unat (of_nat (push_bit 4 h OR l) :: byte)) = h"
proof -
  have "push_bit 4 h OR l = h * 16 + l" using assms(2) push_bit_or [of l 4 h] by simp
  moreover have "h * 16 + l < 256" using assms by simp
  ultimately have "unat (of_nat (push_bit 4 h OR l) :: byte) = h * 16 + l"
    by (metis unat_of_nat_byte)
  with assms show "unat (of_nat (push_bit 4 h OR l) :: byte) mod 16 = l"
    and "drop_bit 4 (unat (of_nat (push_bit 4 h OR l) :: byte)) = h"
    by (simp_all add: drop_bit_eq_div)
qed

lemma bcd_chars_byte:
  assumes "h < 16" and "l < 15"
  shows "bcd_chars (of_nat (push_bit 4 h OR l) # bs) =
    (if h = 15 then [nib_char l] else [nib_char l, nib_char h]) @ bcd_chars bs"
  using assms nibbles_of_byte [of h l] by simp

lemma bcd_pairs_digits:
  "list_all is_dial_digit ds \<Longrightarrow>
     \<exists>bs. bcd_pairs (map star_hash ds @ (if odd (length ds) then [70] else [])) = Inr bs \<and>
       bcd_chars bs = ds \<and> length bs = (length ds + 1) div 2"
proof (induction ds rule: induct_list012)
  case 1
  then show ?case by simp
next
  case (2 x)
  then have "bcd_chars [of_nat (push_bit 4 15 OR digit_code x)] = [x]"
    using bcd_chars_byte [of 15 "digit_code x" "[]"] digit_code [of x] by simp
  then show ?case using 2 digit_code [of x] by (simp add: hexval_def)
next
  case (3 x y zs)
  then obtain bs where bs: "bcd_pairs (map star_hash zs @ (if odd (length zs) then [70] else [])) = Inr bs"
    "bcd_chars bs = zs" "length bs = (length zs + 1) div 2"
    by auto
  have "bcd_chars (of_nat (push_bit 4 (digit_code y) OR digit_code x) # bs) = x # y # zs"
    using "3.prems" bcd_chars_byte [of "digit_code y" "digit_code x" bs] digit_code [of x] digit_code [of y] bs(2)
    by simp
  with bs "3.prems" show ?case
    using digit_code [of x] digit_code [of y]
    by (intro exI [of _ "of_nat (push_bit 4 (digit_code y) OR digit_code x) # bs"])
      (simp del: bcd_chars.simps)
qed

lemma bcd_encode_digits:
  assumes "list_all is_dial_digit ds"
  shows "\<exists>bs. bcd_encode (map star_hash ds) = Inr bs \<and> bcd_chars bs = ds \<and>
    length bs = (length ds + 1) div 2"
proof -
  have F: "lit ''F'' = [70]" by (simp add: lit_def)
  obtain bs where "bcd_pairs (map star_hash ds @ (if odd (length ds) then [70] else [])) = Inr bs"
    "bcd_chars bs = ds" "length bs = (length ds + 1) div 2"
    using bcd_pairs_digits [OF assms] by blast
  then show ?thesis by (auto simp: bcd_encode_def F split: if_splits)
qed

text \<open>The number an encoded address stands for: the normalised one, with a single leading plus.\<close>

definition addr_text :: "pystr \<Rightarrow> pystr" where
  "addr_text number =
     (let n = normalize_number number
      in if take 1 n = lit ''+'' then lit ''+'' @ dropWhile (\<lambda>c. c = plus_sign) n else n)"

lemma encode_address_Inr:
  assumes "encode_address number = Inr a"
  obtains ds bs where "ds = dropWhile (\<lambda>c. c = plus_sign) (normalize_number number)"
    and "a = [of_nat (length ds), if take 1 (normalize_number number) = lit ''+'' then 0x91 else 0x81] @ bs"
    and "1 \<le> length ds" and "length ds \<le> 20" and "bcd_chars bs = ds"
    and "length bs = (length ds + 1) div 2"
  using assms bcd_encode_digits [of "dropWhile (\<lambda>c. c = plus_sign) (normalize_number number)"]
  by (auto simp: encode_address_def Let_def split: if_splits)

lemma addr_text_digits:
  "addr_text number =
     (let n = normalize_number number; ds = dropWhile (\<lambda>c. c = plus_sign) n
      in if take 1 n = lit ''+'' then lit ''+'' @ ds else ds)"
proof (cases "take 1 (normalize_number number) = lit ''+''")
  case True
  then show ?thesis by (simp add: addr_text_def Let_def)
next
  case False
  then have "dropWhile (\<lambda>c. c = plus_sign) (normalize_number number) = normalize_number number"
    by (cases "normalize_number number") (auto simp: lit_def plus_sign_def)
  with False show ?thesis by (simp add: addr_text_def Let_def)
qed

lemma decode_encode_address:
  assumes "encode_address number = Inr a"
  shows "decode_address (pre @ a @ post) (length pre) = Inr (addr_text number, length pre + length a)"
  using assms
proof (cases rule: encode_address_Inr)
  case (1 ds bs)
  let ?n = "normalize_number number"
  let ?toa = "if take 1 ?n = lit ''+'' then 0x91 else 0x81 :: byte"
  have u: "unat (of_nat (length ds) :: byte) = length ds" using 1 by simp
  have i0: "item (pre @ a @ post) (length pre) = Inr (of_nat (length ds))"
    using 1 by (simp add: item_def)
  have i1: "item (pre @ a @ post) (length pre + 1) = Inr ?toa"
    using 1 by (simp add: item_def nth_append)
  have raw: "py_slice (length pre + 2) (length pre + 2 + (length ds + 1) div 2) (pre @ a @ post) = bs"
    using 1 by (simp add: py_slice_def)
  have full: "addr_text number = (if take 1 ?n = lit ''+'' then lit ''+'' @ ds else ds)"
    using 1 by (simp add: addr_text_digits Let_def)
  show ?thesis
    unfolding decode_address_def i0 i1 try_r_simps Let_def u raw full
    using 1 by (auto simp: drop_bit_eq_div bcd_decode_def)
qed

lemma length_encode_address:
  assumes "encode_address number = Inr a"
  shows "3 \<le> length a" and "length a \<le> 12"
proof -
  show "3 \<le> length a" using assms by (rule encode_address_Inr) auto
  show "length a \<le> 12" using assms by (rule encode_address_Inr) auto
qed

lemma decode_encode_smsc:
  assumes "encode_smsc number = Inr sc"
  shows "decode_smsc ([of_nat (length sc)] @ sc @ post) 0 = Inr (Some (addr_text number), 1 + length sc)"
    and "2 \<le> length sc \<and> length sc \<le> 11"
proof -
  obtain a where a: "encode_address number = Inr a" "sc = drop 1 a"
    using assms by (auto simp: encode_smsc_def try_r_Inr_iff)
  from a(1) show "2 \<le> length sc \<and> length sc \<le> 11"
    unfolding a(2) by (rule encode_address_Inr) auto
  from a(1) show "decode_smsc ([of_nat (length sc)] @ sc @ post) 0 = Inr (Some (addr_text number), 1 + length sc)"
  proof (cases rule: encode_address_Inr)
    case (1 ds bs)
    let ?toa = "if take 1 (normalize_number number) = lit ''+'' then 0x91 else 0x81 :: byte"
    have sc: "sc = ?toa # bs" using 1 a(2) by simp
    have "length sc < 256" using 1 sc by simp
    then have u: "unat (of_nat (length sc) :: byte) = length sc" by (rule unat_of_nat_byte)
    then have n0: "(of_nat (length sc) :: byte) \<noteq> 0" using sc by (metis length_0_conv list.discI unat_0)
    have full: "addr_text number = (if take 1 (normalize_number number) = lit ''+'' then lit ''+'' @ ds else ds)"
      using 1 by (simp add: addr_text_digits Let_def)
    have raw: "py_slice (0 + 2) (0 + 1 + length sc) ([of_nat (length sc)] @ sc @ post) = bs"
      by (simp add: py_slice_def sc)
    have i0: "item ([of_nat (length sc)] @ sc @ post) 0 = Inr (of_nat (length sc))"
      and i1: "item ([of_nat (length sc)] @ sc @ post) (0 + 1) = Inr ?toa"
      by (simp_all add: item_def sc)
    have "decode_smsc ([of_nat (length sc)] @ sc @ post) 0 =
        Inr (Some (if drop_bit 4 (unat ?toa) AND 7 = 1 then lit ''+'' @ bcd_decode bs None else bcd_decode bs None),
             0 + 1 + length sc)"
      unfolding decode_smsc_def i0 try_r_simps i1 u raw Let_def using n0 by simp
    then show ?thesis unfolding full using 1 by (simp add: drop_bit_eq_div bcd_decode_def)
  qed
qed

section \<open>Time stamps round-trip\<close>

text \<open>The decoded form of the time stamp of a broken-down UTC time.\<close>

definition scts_text :: "nat \<times> nat \<times> nat \<times> nat \<times> nat \<times> nat \<Rightarrow> pystr" where
  "scts_text tm =
     (case tm of (year, mon, mday, hour, minute, sec) \<Rightarrow>
       zpad 4 ((if year mod 100 < 70 then 2000 else 1900) + year mod 100) @ lit ''-'' @ zpad 2 mon @
       lit ''-'' @ zpad 2 mday @ lit ''T'' @ zpad 2 hour @ lit '':'' @ zpad 2 minute @ lit '':'' @
       zpad 2 sec @ lit ''+00:00'')"

definition tm_ok :: "nat \<times> nat \<times> nat \<times> nat \<times> nat \<times> nat \<Rightarrow> bool" where
  "tm_ok tm = (case tm of (year, mon, mday, hour, minute, sec) \<Rightarrow>
     mon < 100 \<and> mday < 100 \<and> hour < 100 \<and> minute < 100 \<and> sec < 100)"

lemma length_encode_scts: "length (encode_scts tm) = 7"
  by (simp add: encode_scts_def split: prod.split)

lemma swap_nibbles_encoded:
  "v < 100 \<Longrightarrow> swap_nibbles (of_nat (push_bit 4 (v mod 10) OR v div 10)) = v"
  using nibbles_of_byte [of "v mod 10" "v div 10"] by (simp add: swap_nibbles_def)

lemma zpad_00: "zpad 2 0 = lit ''00''"
  by (simp add: zpad_def dec_digits.simps lit_def)

lemma decode_encode_scts:
  assumes "tm_ok tm"
  shows "decode_scts (encode_scts tm) = Inr (scts_text tm)"
proof -
  obtain year mon mday hour minute sec where tm: "tm = (year, mon, mday, hour, minute, sec)"
    by (cases tm)
  define f :: "nat \<Rightarrow> byte" where "f v = of_nat (push_bit 4 (v mod 10) OR v div 10)" for v
  have f: "v < 100 \<Longrightarrow> swap_nibbles (f v) = v" for v
    using swap_nibbles_encoded by (simp add: f_def)
  have f0: "f 0 = 0" by (simp add: f_def)
  have enc: "encode_scts tm = [f (year mod 100), f mon, f mday, f hour, f minute, f sec, f 0]"
    by (simp add: encode_scts_def tm f_def)
  show ?thesis
    using assms unfolding decode_scts_def enc
    by (simp add: tm tm_ok_def scts_text_def f f0 item_def Let_def zpad_00 lit_def)
qed

section \<open>The alphabet, packed and unpacked\<close>

lemma distinct_GSM7: "distinct GSM7" by (simp add: GSM7_def)
lemma length_GSM7: "length GSM7 = 128" by (simp add: GSM7_def)

lemma gsm7_rev_nth:
  assumes "i < 128" and "i \<noteq> 27"
  shows "map_of GSM7_REV (GSM7 ! i) = Some i"
proof (rule map_of_is_SomeI)
  have "map fst (zip GSM7 [0..<length GSM7]) = GSM7" by simp
  then have "distinct (map fst (zip GSM7 [0..<length GSM7]))" using distinct_GSM7 by simp
  then show "distinct (map fst GSM7_REV)" unfolding GSM7_REV_def by (rule distinct_map_filter)
  have "(GSM7 ! i, i) \<in> set (zip GSM7 [0..<length GSM7])"
    using assms(1) by (auto simp: in_set_conv_nth length_GSM7 intro!: exI [of _ i])
  then show "(GSM7 ! i, i) \<in> set GSM7_REV" using assms(2) by (simp add: GSM7_REV_def)
qed

lemma gsm7_rev_None: "c \<notin> set GSM7 \<Longrightarrow> map_of GSM7_REV c = None"
  by (auto simp: map_of_eq_None_iff GSM7_REV_def dest: set_zip_leftD)

lemma gsm7_demo: "gsm7_septets [104, 105, 91] = Some [104, 105, 27, 60]"
proof -
  have "map_of GSM7_REV 104 = Some 104" "map_of GSM7_REV 105 = Some 105" "map_of GSM7_REV 91 = None"
    using gsm7_rev_nth [of 104] gsm7_rev_nth [of 105] gsm7_rev_None [of 91] by (simp_all add: GSM7_def)
  then show ?thesis by (simp add: GSM7_EXT_REV_def GSM7_EXT_def)
qed
text \<open>
  Text in the GSM alphabet survives the air interface: translated to septets, packed behind any
  header of whole octets with the fill bits that align it, unpacked and translated back, it is the
  same text, escapes and a trailing zero septet included.
\<close>

theorem gsm7_roundtrip:
  assumes "gsm7_septets t = Some ss" and "8 * length pre + fill = 7 * h"
  shows "gsm7_text (drop h (unpack7 (pre @ pack7 ss fill) (h + length ss) 0)) = t"
  using unpack7_pack7_behind [OF gsm7_septets_less [OF assms(1)] assms(2)] gsm7_text_septets [OF assms(1)]
  by simp

lemma gsm7_roundtrip_witness:
  "gsm7_text (drop 7 (unpack7 ([5, 0, 3, 9, 2, 1] @ pack7 [104, 105, 27, 60] 1) (7 + length [104, 105, 27, 60 :: nat]) 0)) =
     [104, 105, 91]"
  by (rule gsm7_roundtrip [OF gsm7_demo]) simp

text \<open>
  A phone number that encodes is read back from any position of a PDU as its normalised form
  (separators dropped, an international prefix as a plus sign), and the reader stops right after it.
\<close>

theorem address_roundtrip:
  assumes "encode_address number = Inr a"
  shows "decode_address (pre @ a @ post) (length pre) = Inr (addr_text number, length pre + length a)"
  using assms by (rule decode_encode_address)

lemma encode_address_demo: "encode_address (lit ''+30 69-1'') = Inr [5, 0x91, 0x03, 0x96, 0xF1]"
  by (simp add: encode_address_def normalize_number_def lit_def is_space_def plus_sign_def
      is_dial_digit_def bcd_encode_def star_hash_def hexval_def Let_def push_bit_eq_mult)

lemma address_roundtrip_witness:
  "decode_address ([7] @ [5, 0x91, 0x03, 0x96, 0xF1] @ [8, 9]) (length [7 :: byte]) =
     Inr (addr_text (lit ''+30 69-1''), length [7 :: byte] + length [5, 0x91, 0x03, 0x96, 0xF1 :: byte])"
  by (rule address_roundtrip [OF encode_address_demo])

end
