(* ===== verification/Sms_Pdu.thy ===== *)
theory Sms_Pdu
  imports Gsm_Codec
begin

text \<open>
  The GSM 03.40 PDUs of \<^verbatim>\<open>src/tools/hardware/phoned/s22-phoned.py\<close>: splitting a text into
  parts (\<open>split_text\<close>), building SMS-SUBMIT, SMS-DELIVER and SMS-STATUS-REPORT PDUs, and the
  decoder \<open>decode_pdu\<close> with its user-data header. Exceptions are values; the only ones this
  code raises are \<open>ValueError\<close> and \<open>IndexError\<close>.

  UTF-16 is part of Python's codec library: \<open>utf16_encode\<close> fails on a lone surrogate (the
  \<open>UnicodeEncodeError\<close> is a \<open>ValueError\<close>), and \<open>utf16_decode\<close> is the error handler
  \<open>"replace"\<close>, which puts U+FFFD for an unpaired surrogate or a truncated unit.
\<close>

section \<open>UTF-16 (big endian)\<close>

definition is_high :: "nat \<Rightarrow> bool" where
  "is_high u \<longleftrightarrow> 0xD800 \<le> u \<and> u \<le> 0xDBFF"

definition is_low :: "nat \<Rightarrow> bool" where
  "is_low u \<longleftrightarrow> 0xDC00 \<le> u \<and> u \<le> 0xDFFF"

definition scalar :: "nat \<Rightarrow> bool" where
  "scalar c \<longleftrightarrow> c < 0x110000 \<and> \<not> is_high c \<and> \<not> is_low c"

definition unit_bytes :: "nat \<Rightarrow> bytes" where
  "unit_bytes u = [of_nat (u div 256), of_nat (u mod 256)]"

definition utf16_char :: "nat \<Rightarrow> bytes" where
  "utf16_char c =
     (if c < 0x10000 then unit_bytes c
      else unit_bytes (0xD800 + (c - 0x10000) div 0x400) @ unit_bytes (0xDC00 + (c - 0x10000) mod 0x400))"

definition utf16_encode :: "pystr \<Rightarrow> pyerr + bytes" where
  "utf16_encode t = (if list_all scalar t then Inr (concat (map utf16_char t)) else Inl ValueError)"

fun utf16_decode :: "bytes \<Rightarrow> pystr" where
  "utf16_decode [] = []"
| "utf16_decode [b] = [0xFFFD]"
| "utf16_decode (a # b # r) =
     (let u = unat a * 256 + unat b in
      if is_high u then
        (case r of
           c # d # r' \<Rightarrow>
             (let v = unat c * 256 + unat d in
              if is_low v then (0x10000 + (u - 0xD800) * 0x400 + (v - 0xDC00)) # utf16_decode r'
              else 0xFFFD # utf16_decode r)
         | _ \<Rightarrow> [0xFFFD])
      else if is_low u then 0xFFFD # utf16_decode r
      else u # utf16_decode r)"

section \<open>Splitting a text into parts\<close>

datatype chunk = Septets "nat list" | Units bytes

text \<open>The loop over the septets, which never separates an escape from the septet it escapes.\<close>

function split_septets :: "nat list \<Rightarrow> nat list \<Rightarrow> nat list list" where
  "split_septets cur [] = [cur]"
| "split_septets cur (s # ss) =
     (let step = (if s = 0x1B then 2 else 1);
          piece = take step (s # ss);
          rest = drop step (s # ss)
      in if 153 < length cur + step then cur # split_septets piece rest
         else split_septets (cur @ piece) rest)"
  by pat_completeness auto
termination
  by (relation "measure (\<lambda>(cur, ss). length ss)") auto

text \<open>The loop over the UTF-16 units, which never separates a surrogate pair.\<close>

function split_units :: "bytes \<Rightarrow> bytes list" where
  "split_units units =
     (if units = [] then []
      else (let end0 = min 134 (length units);
                end1 = (if end0 < length units \<and> 0xD8 \<le> unat (units ! (end0 - 2)) \<and>
                           unat (units ! (end0 - 2)) \<le> 0xDB
                        then end0 - 2 else end0)
            in take end1 units # split_units (drop end1 units)))"
  by pat_completeness auto
termination
  by (relation "measure length") (auto simp: min_def split: if_splits)

declare split_units.simps [simp del]

definition split_text :: "pystr \<Rightarrow> nat \<Rightarrow> pyerr + byte \<times> chunk list" where
  "split_text t max_parts =
     (case gsm7_septets t of
        Some septs \<Rightarrow>
          if length septs \<le> 160 then Inr (0x00, [Septets septs])
          else (let chunks = split_septets [] septs
                in if max_parts < length chunks then Inl ValueError
                   else Inr (0x00, map Septets chunks))
      | None \<Rightarrow>
          try_r (utf16_encode t) (\<lambda>units.
            if length units \<le> 140 then Inr (0x08, [Units units])
            else (let chunks = split_units units
                  in if max_parts < length chunks then Inl ValueError
                     else Inr (0x08, map Units chunks))))"

section \<open>Building PDUs\<close>

text \<open>
  \<open>bytes([...])\<close> raises \<open>ValueError\<close> for a number of parts above 255, and \<open>struct.pack(">H")\<close>
  raises \<open>struct.error\<close> for a reference above 65535; every other octet is in range.
\<close>

text \<open>\<open>_user_data\<close>: the user-data length and the user data, behind a header \<open>udh\<close>.\<close>

fun user_data :: "chunk \<Rightarrow> bytes \<Rightarrow> nat \<times> bytes" where
  "user_data (Septets chunk) udh =
     (if udh \<noteq> [] then
        (let hbits = length udh * 8;
             fill = (7 - hbits mod 7) mod 7
         in ((hbits + fill) div 7 + length chunk, udh @ pack7 chunk fill))
      else (length chunk, pack7 chunk 0))"
| "user_data (Units chunk) udh = (length udh + length chunk, udh @ chunk)"

definition submit_udh :: "nat \<Rightarrow> nat \<Rightarrow> nat \<Rightarrow> bytes" where
  "submit_udh ref tot seq =
     (if 1 < tot then [5, 0x00, 3, of_nat (ref mod 256), of_nat tot, of_nat seq] else [])"

definition submit_pdu :: "bytes \<Rightarrow> byte \<Rightarrow> nat \<Rightarrow> bool \<Rightarrow> nat \<Rightarrow> nat \<times> chunk \<Rightarrow> bytes" where
  "submit_pdu da dcs ref srr tot = (\<lambda>(seq, chunk).
     let udh = submit_udh ref tot seq;
         first = 0x01 OR 0x10 OR (if srr then 0x20 else 0) OR (if udh \<noteq> [] then 0x40 else 0);
         (udl, ud) = user_data chunk udh
     in [first, 0x00] @ da @ [0x00, dcs, 0xA7, of_nat udl] @ ud)"

definition build_submit_pdus ::
  "pystr \<Rightarrow> pystr \<Rightarrow> nat \<Rightarrow> bool \<Rightarrow> nat \<Rightarrow> pyerr + bytes list" where
  "build_submit_pdus to t ref srr max_parts =
     try_r (split_text t max_parts) (\<lambda>(dcs, chunks).
     try_r (encode_address to) (\<lambda>da.
       if 0xFF < length chunks then Inl ValueError
       else Inr (map (submit_pdu da dcs ref srr (length chunks)) (enumerate 1 chunks))))"

definition deliver_udh :: "(nat \<times> nat \<times> nat) option \<Rightarrow> pyerr + bytes" where
  "deliver_udh conc =
     (case conc of
        None \<Rightarrow> Inr []
      | Some (ref, tot, seq) \<Rightarrow>
          if 0xFFFF < ref then Inl StructError
          else if 0xFF < tot \<or> 0xFF < seq then Inl ValueError
          else if 0xFF < ref then Inr [6, 0x08, 4, of_nat (ref div 256), of_nat (ref mod 256), of_nat tot, of_nat seq]
          else Inr [5, 0x00, 3, of_nat ref, of_nat tot, of_nat seq])"

definition build_deliver_pdu ::
  "pystr \<Rightarrow> pystr \<Rightarrow> pystr \<Rightarrow> (nat \<times> nat \<times> nat) option \<Rightarrow>
   nat \<times> nat \<times> nat \<times> nat \<times> nat \<times> nat \<Rightarrow> pyerr + bytes" where
  "build_deliver_pdu sender t smsc conc tm =
     try_r (split_text t 1) (\<lambda>(dcs, chunks).
     try_r (deliver_udh conc) (\<lambda>udh.
     try_r (encode_smsc smsc) (\<lambda>sc.
     let (udl, ud) = user_data (hd chunks) udh;
         first = 0x04 OR (if udh \<noteq> [] then 0x40 else 0)
     in try_r (encode_address sender) (\<lambda>oa.
       Inr ([of_nat (length sc)] @ sc @ [first] @ oa @ [0x00, dcs] @ encode_scts tm @ [of_nat udl] @ ud)))))"

definition build_status_report_pdu ::
  "pystr \<Rightarrow> nat \<Rightarrow> byte \<Rightarrow> pystr \<Rightarrow> nat \<times> nat \<times> nat \<times> nat \<times> nat \<times> nat \<Rightarrow> pyerr + bytes" where
  "build_status_report_pdu recipient mr st smsc tm =
     try_r (encode_smsc smsc) (\<lambda>sc.
     try_r (encode_address recipient) (\<lambda>ra.
       Inr ([of_nat (length sc)] @ sc @ [0x06, of_nat (mr mod 256)] @ ra @
            encode_scts tm @ encode_scts tm @ [st])))"

section \<open>Decoding PDUs\<close>

datatype alphabet = Gsm7 | EightBit | Ucs2

record concat_info =
  c_ref :: nat
  c_total :: nat
  c_seq :: nat

record deliver_sms =
  d_smsc :: "pystr option"
  d_sender :: pystr
  d_pid :: byte
  d_dcs :: byte
  d_scts :: pystr
  d_text :: pystr
  d_concat :: "concat_info option"
  d_alphabet :: alphabet
  d_status_report :: bool

record status_sms =
  r_smsc :: "pystr option"
  r_mr :: nat
  r_recipient :: pystr
  r_scts :: pystr
  r_discharge :: pystr
  r_st :: nat
  r_delivered :: "bool option"

record submit_sms =
  s_smsc :: "pystr option"
  s_mr :: nat
  s_to :: pystr
  s_dcs :: byte
  s_text :: pystr
  s_concat :: "concat_info option"
  s_alphabet :: alphabet
  s_srr :: bool

datatype sms = Deliver deliver_sms | StatusReport status_sms | Submit submit_sms

definition dcs_alphabet :: "byte \<Rightarrow> alphabet" where
  "dcs_alphabet dcs =
     (let grp = drop_bit 4 (unat dcs);
          low = drop_bit 2 (unat dcs) AND 3
      in if grp AND 0x0C = 0
         then (if low = 1 then EightBit else if low = 2 then Ucs2 else Gsm7)
         else if grp = 0x0F then (if unat dcs AND 0x04 \<noteq> 0 then EightBit else Gsm7)
         else if grp = 0x0E then Ucs2
         else Gsm7)"

definition concat_ie :: "byte \<Rightarrow> byte \<Rightarrow> bytes \<Rightarrow> concat_info option \<Rightarrow> pyerr + concat_info option" where
  "concat_ie iei ielen ie conc =
     (if iei = 0x00 \<and> ielen = 3 then
        try_r (item ie 0) (\<lambda>r. try_r (item ie 1) (\<lambda>t. try_r (item ie 2) (\<lambda>s.
          Inr (Some \<lparr>c_ref = unat r, c_total = unat t, c_seq = unat s\<rparr>))))
      else if iei = 0x08 \<and> ielen = 4 then
        try_r (item ie 0) (\<lambda>h. try_r (item ie 1) (\<lambda>l. try_r (item ie 2) (\<lambda>t. try_r (item ie 3) (\<lambda>s.
          Inr (Some \<lparr>c_ref = push_bit 8 (unat h) OR unat l, c_total = unat t, c_seq = unat s\<rparr>)))))
      else Inr conc)"

function udh_loop :: "bytes \<Rightarrow> nat \<Rightarrow> nat \<Rightarrow> concat_info option \<Rightarrow> pyerr + concat_info option" where
  "udh_loop ud udh_len k conc =
     (if k + 1 < udh_len then
        try_r (item ud k) (\<lambda>iei. try_r (item ud (k + 1)) (\<lambda>ielen.
        try_r (concat_ie iei ielen (py_slice (k + 2) (k + 2 + unat ielen) ud) conc) (\<lambda>conc'.
          udh_loop ud udh_len (k + 2 + unat ielen) conc')))
      else Inr conc)"
  by pat_completeness auto
termination
  by (relation "measure (\<lambda>(ud, udh_len, k, conc). udh_len - k)") auto

declare udh_loop.simps [simp del]

definition hex_digit :: "nat \<Rightarrow> nat" where
  "hex_digit n = (if n < 10 then 48 + n else 87 + n)"

definition hex_str :: "bytes \<Rightarrow> pystr" where
  "hex_str xs = concat (map (\<lambda>b. [hex_digit (unat b div 16), hex_digit (unat b mod 16)]) xs)"

definition decode_ud :: "byte \<Rightarrow> byte \<Rightarrow> nat \<Rightarrow> bytes \<Rightarrow> pyerr + pystr \<times> concat_info option \<times> alphabet" where
  "decode_ud first dcs udl ud =
     (let udh_len = (if first AND 0x40 \<noteq> 0 \<and> ud \<noteq> [] then unat (ud ! 0) + 1 else 0) in
      try_r (if first AND 0x40 \<noteq> 0 \<and> ud \<noteq> [] then udh_loop ud udh_len 1 None else Inr None) (\<lambda>conc.
        let alpha = dcs_alphabet dcs;
            t = (case alpha of
                   Gsm7 \<Rightarrow> gsm7_text (drop ((udh_len * 8 + 6) div 7) (unpack7 ud udl 0))
                 | Ucs2 \<Rightarrow> utf16_decode (py_slice udh_len udl ud)
                 | EightBit \<Rightarrow> hex_str (py_slice udh_len udl ud))
        in Inr (t, conc, alpha)))"

definition decode_deliver :: "bytes \<Rightarrow> pystr option \<Rightarrow> byte \<Rightarrow> nat \<Rightarrow> pyerr + sms" where
  "decode_deliver pdu smsc first off0 =
     try_r (decode_address pdu off0) (\<lambda>(sender, off).
     try_r (item pdu off) (\<lambda>pid. try_r (item pdu (off + 1)) (\<lambda>dcs.
     try_r (decode_scts (py_slice (off + 2) (off + 9) pdu)) (\<lambda>ts.
     try_r (item pdu (off + 9)) (\<lambda>udl.
     try_r (decode_ud first dcs (unat udl) (drop (off + 10) pdu)) (\<lambda>(t, conc, alpha).
       Inr (Deliver \<lparr>d_smsc = smsc, d_sender = sender, d_pid = pid, d_dcs = dcs, d_scts = ts,
                     d_text = t, d_concat = conc, d_alphabet = alpha,
                     d_status_report = (first AND 0x20 \<noteq> 0)\<rparr>)))))))"

definition decode_status :: "bytes \<Rightarrow> pystr option \<Rightarrow> nat \<Rightarrow> pyerr + sms" where
  "decode_status pdu smsc off0 =
     try_r (item pdu off0) (\<lambda>mr.
     try_r (decode_address pdu (off0 + 1)) (\<lambda>(recipient, off).
     try_r (decode_scts (py_slice off (off + 7) pdu)) (\<lambda>scts.
     try_r (decode_scts (py_slice (off + 7) (off + 14) pdu)) (\<lambda>dt.
     try_r (item pdu (off + 14)) (\<lambda>st.
       Inr (StatusReport \<lparr>r_smsc = smsc, r_mr = unat mr, r_recipient = recipient, r_scts = scts,
              r_discharge = dt, r_st = unat st,
              r_delivered = (if unat st < 0x20 then Some True
                             else if unat st < 0x40 then None else Some False)\<rparr>))))))"

definition decode_submit :: "bytes \<Rightarrow> pystr option \<Rightarrow> byte \<Rightarrow> nat \<Rightarrow> pyerr + sms" where
  "decode_submit pdu smsc first off0 =
     try_r (item pdu off0) (\<lambda>mr.
     try_r (decode_address pdu (off0 + 1)) (\<lambda>(dest, off).
     try_r (item pdu off) (\<lambda>pid. try_r (item pdu (off + 1)) (\<lambda>dcs.
     let vpf = drop_bit 3 (unat first) AND 3;
         off' = off + 2 + (if vpf = 0 then 0 else if vpf = 2 then 1 else 7)
     in try_r (item pdu off') (\<lambda>udl.
     try_r (decode_ud first dcs (unat udl) (drop (off' + 1) pdu)) (\<lambda>(t, conc, alpha).
       Inr (Submit \<lparr>s_smsc = smsc, s_mr = unat mr, s_to = dest, s_dcs = dcs, s_text = t,
                    s_concat = conc, s_alphabet = alpha, s_srr = (first AND 0x20 \<noteq> 0)\<rparr>)))))))"

definition decode_pdu :: "bytes \<Rightarrow> bool \<Rightarrow> pyerr + sms" where
  "decode_pdu pdu has_smsc =
     try_r (if has_smsc then decode_smsc pdu 0 else Inr (None, 0)) (\<lambda>(smsc, off).
     try_r (item pdu off) (\<lambda>first.
       let mti = first AND 0x03 in
       if mti = 0 then decode_deliver pdu smsc first (off + 1)
       else if mti = 2 then decode_status pdu smsc (off + 1)
       else if mti = 1 then decode_submit pdu smsc first (off + 1)
       else Inl ValueError))"

section \<open>Splitting septets: parts are short, complete and self-contained\<close>

text \<open>No escape is left without the septet it escapes.\<close>

fun esc_closed :: "nat list \<Rightarrow> bool" where
  "esc_closed [] = True"
| "esc_closed [s] = (s \<noteq> 0x1B)"
| "esc_closed (s # x # r) = (if s = 0x1B then esc_closed r else esc_closed (x # r))"

lemma esc_closed_append: "esc_closed xs \<Longrightarrow> esc_closed (xs @ ys) = esc_closed ys"
proof (induction xs rule: esc_closed.induct)
  case (2 s)
  then show ?case by (cases ys) auto
qed auto

lemma gsm7_text_append: "esc_closed xs \<Longrightarrow> gsm7_text (xs @ ys) = gsm7_text xs @ gsm7_text ys"
  by (induction xs rule: esc_closed.induct) (auto simp: gsm7_text_def split: if_splits)

lemma gsm7_septets_closed: "gsm7_septets t = Some ss \<Longrightarrow> esc_closed ss"
proof (induction t arbitrary: ss)
  case Nil
  then show ?case by simp
next
  case (Cons ch t)
  from Cons.prems show ?case
  proof (cases rule: gsm7_septets_cases)
    case (plain i rest)
    then have "i \<noteq> 27" by (auto dest: gsm7_rev_Some)
    with plain Cons.IH show ?thesis by (cases rest) auto
  next
    case (ext i rest)
    with Cons.IH show ?thesis by simp
  qed
qed

lemma split_septets_step:
  assumes "esc_closed (s # ss)"
  defines "step \<equiv> (if s = 0x1B then 2 else 1 :: nat)"
  shows "esc_closed (take step (s # ss))" and "esc_closed (drop step (s # ss))"
    and "length (take step (s # ss)) = step"
  using assms(1) unfolding step_def by (cases ss; cases "s = 0x1B"; auto)+

lemma split_septets_spec:
  assumes "esc_closed cur" and "esc_closed ss" and "length cur \<le> 153"
  shows "concat (split_septets cur ss) = cur @ ss \<and>
    (\<forall>c \<in> set (split_septets cur ss). length c \<le> 153 \<and> esc_closed c)"
  using assms
proof (induction cur ss rule: split_septets.induct)
  case (1 cur)
  then show ?case by simp
next
  case (2 cur s ss)
  let ?step = "if s = 0x1B then 2 else 1 :: nat"
  let ?piece = "take ?step (s # ss)" and ?rest = "drop ?step (s # ss)"
  note st = split_septets_step [OF "2.prems"(2)]
  have p: "length ?piece \<le> 2" using st(3) by simp
  have pr: "?piece @ ?rest = s # ss" by (rule append_take_drop_id)
  show ?case
  proof (cases "153 < length cur + ?step")
    case True
    have "split_septets cur (s # ss) = cur # split_septets ?piece ?rest"
      using True by (simp add: Let_def)
    moreover have "concat (split_septets ?piece ?rest) = ?piece @ ?rest \<and>
        (\<forall>c \<in> set (split_septets ?piece ?rest). length c \<le> 153 \<and> esc_closed c)"
      by (rule "2.IH"(1) [OF refl refl refl]) (use True st p in auto)
    ultimately show ?thesis using "2.prems" pr by simp
  next
    case False
    have "split_septets cur (s # ss) = split_septets (cur @ ?piece) ?rest"
      using False by (simp add: Let_def)
    moreover have "concat (split_septets (cur @ ?piece) ?rest) = (cur @ ?piece) @ ?rest \<and>
        (\<forall>c \<in> set (split_septets (cur @ ?piece) ?rest). length c \<le> 153 \<and> esc_closed c)"
      by (rule "2.IH"(2) [OF refl refl refl])
        (use False st "2.prems" in \<open>auto simp: esc_closed_append\<close>)
    ultimately show ?thesis using pr by simp
  qed
qed

lemma gsm7_text_concat:
  "(\<And>c. c \<in> set cs \<Longrightarrow> esc_closed c) \<Longrightarrow> concat (map gsm7_text cs) = gsm7_text (concat cs)"
  by (induction cs) (auto simp: gsm7_text_append, simp add: gsm7_text_def)

section \<open>UTF-16: decoding inverts encoding, on every part\<close>

lemma unat_unit_bytes:
  "u < 0x10000 \<Longrightarrow> unit_bytes u = [a, b] \<Longrightarrow> unat a * 256 + unat b = u"
  by (auto simp: unit_bytes_def)

lemma utf16_decode_char:
  assumes "scalar c"
  shows "utf16_decode (utf16_char c @ r) = c # utf16_decode r"
proof (cases "c < 0x10000")
  case True
  then have "c div 256 < 256" by simp
  with True assms show ?thesis
    by (simp add: utf16_char_def unit_bytes_def scalar_def)
next
  case False
  define hi lo where "hi = 0xD800 + (c - 0x10000) div 0x400" and "lo = 0xDC00 + (c - 0x10000) mod 0x400"
  have c: "c < 0x110000" using assms by (simp add: scalar_def)
  have "(c - 0x10000) div 0x400 < 0x400" using c False by simp
  then have hi: "is_high hi" "hi div 256 < 256" by (auto simp: hi_def is_high_def)
  have "(c - 0x10000) mod 0x400 < 0x400" by simp
  then have lo: "is_low lo" "lo div 256 < 256" by (auto simp: lo_def is_low_def)
  have "hi div 256 * 256 + hi mod 256 = hi" and "lo div 256 * 256 + lo mod 256 = lo" by simp_all
  moreover have "0x10000 + (hi - 0xD800) * 0x400 + (lo - 0xDC00) = c"
    using False by (simp add: hi_def lo_def)
  moreover have "utf16_char c = unit_bytes hi @ unit_bytes lo"
    using False by (simp add: utf16_char_def hi_def lo_def)
  ultimately show ?thesis using hi lo by (simp add: unit_bytes_def)
qed

lemma utf16_decode_encoded:
  "list_all scalar t \<Longrightarrow> utf16_decode (concat (map utf16_char t) @ r) = t @ utf16_decode r"
  by (induction t) (simp_all add: utf16_decode_char)

text \<open>The high byte of the unit before a cut tells whether the cut separates a pair.\<close>

lemma utf16_char_length: "length (utf16_char c) = (if c < 0x10000 then 2 else 4)"
  by (simp add: utf16_char_def unit_bytes_def)

lemma utf16_char_bytes:
  assumes "scalar c"
  shows "c < 0x10000 \<Longrightarrow> \<not> (0xD8 \<le> unat (utf16_char c ! 0) \<and> unat (utf16_char c ! 0) \<le> 0xDB)"
    and "\<not> c < 0x10000 \<Longrightarrow> 0xD8 \<le> unat (utf16_char c ! 0) \<and> unat (utf16_char c ! 0) \<le> 0xDB"
    and "\<not> c < 0x10000 \<Longrightarrow> \<not> (0xD8 \<le> unat (utf16_char c ! 2) \<and> unat (utf16_char c ! 2) \<le> 0xDB)"
proof -
  assume "c < 0x10000"
  then have "c div 256 < 256" by simp
  with \<open>c < 0x10000\<close> assms
  show "\<not> (0xD8 \<le> unat (utf16_char c ! 0) \<and> unat (utf16_char c ! 0) \<le> 0xDB)"
    by (auto simp: utf16_char_def unit_bytes_def scalar_def is_high_def)
next
  assume n: "\<not> c < 0x10000"
  have "c < 0x110000" using assms by (simp add: scalar_def)
  then have "(c - 0x10000) div 0x400 < 0x400" using n by simp
  then have "0xD8 \<le> (0xD800 + (c - 0x10000) div 0x400) div 256"
    and "(0xD800 + (c - 0x10000) div 0x400) div 256 \<le> 0xDB"
    by linarith+
  then show "0xD8 \<le> unat (utf16_char c ! 0) \<and> unat (utf16_char c ! 0) \<le> 0xDB"
    using n by (simp add: utf16_char_def unit_bytes_def)
  have "(c - 0x10000) mod 0x400 < 0x400" by simp
  then have "(0xDC00 + (c - 0x10000) mod 0x400) div 256 < 256"
    and "0xDC \<le> (0xDC00 + (c - 0x10000) mod 0x400) div 256" by simp_all
  then show "\<not> (0xD8 \<le> unat (utf16_char c ! 2) \<and> unat (utf16_char c ! 2) \<le> 0xDB)"
    using n by (simp add: utf16_char_def unit_bytes_def)
qed

definition safe_cut :: "bytes \<Rightarrow> nat \<Rightarrow> nat" where
  "safe_cut us n = (if 0xD8 \<le> unat (us ! (n - 2)) \<and> unat (us ! (n - 2)) \<le> 0xDB then n - 2 else n)"

lemma safe_cut_skip: "length p + 2 \<le> n \<Longrightarrow> safe_cut (p @ us) n = length p + safe_cut us (n - length p)"
  by (auto simp: safe_cut_def nth_append)

lemma utf16_cut:
  assumes "list_all scalar t" and "even n" and "0 < n" and "n < length (concat (map utf16_char t))"
  shows "\<exists>t1 t2. t = t1 @ t2 \<and>
    concat (map utf16_char t1) = take (safe_cut (concat (map utf16_char t)) n) (concat (map utf16_char t))"
  using assms
proof (induction t arbitrary: n)
  case Nil
  then show ?case by simp
next
  case (Cons c t)
  let ?p = "utf16_char c" and ?us = "concat (map utf16_char t)"
  have c: "scalar c" using Cons.prems by simp
  show ?case
  proof (cases "n \<le> length ?p")
    case True
    then have "n \<le> 4" and "c < 0x10000 \<Longrightarrow> n \<le> 2" by (auto simp: utf16_char_length split: if_splits)
    with Cons.prems(2,3) have "n = 2 \<or> n = 4 \<and> \<not> c < 0x10000" by presburger
    then consider "n = 2" "c < 0x10000" | "n = 2" "\<not> c < 0x10000" | "n = 4" "\<not> c < 0x10000"
      by blast
    then show ?thesis
    proof cases
      case 1
      then have "safe_cut (?p @ ?us) n = 2"
        using utf16_char_bytes(1) [OF c] by (simp add: safe_cut_def nth_append utf16_char_length)
      then show ?thesis using 1 by (intro exI [of _ "[c]"] exI [of _ t]) (simp add: utf16_char_length)
    next
      case 2
      then have "safe_cut (?p @ ?us) n = 0"
        using utf16_char_bytes(2) [OF c] by (simp add: safe_cut_def nth_append utf16_char_length)
      then show ?thesis by (intro exI [of _ "[]"] exI [of _ "c # t"]) simp
    next
      case 3
      then have "safe_cut (?p @ ?us) n = 4"
        using utf16_char_bytes(3) [OF c] by (simp add: safe_cut_def nth_append utf16_char_length)
      then show ?thesis using 3 by (intro exI [of _ "[c]"] exI [of _ t]) (simp add: utf16_char_length)
    qed
  next
    case False
    have l: "length ?p = 2 \<or> length ?p = 4" by (simp add: utf16_char_length)
    then have n: "length ?p + 2 \<le> n" using False Cons.prems(2) by (elim disjE evenE) auto
    have "even (n - length ?p)" "0 < n - length ?p" "n - length ?p < length ?us"
      using l n Cons.prems by (auto simp: even_diff_nat)
    moreover have "list_all scalar t" using Cons.prems(1) by simp
    ultimately have "\<exists>t1 t2. t = t1 @ t2 \<and> concat (map utf16_char t1) = take (safe_cut ?us (n - length ?p)) ?us"
      by (intro Cons.IH)
    then obtain t1 t2 where t: "t = t1 @ t2"
      and t1: "concat (map utf16_char t1) = take (safe_cut ?us (n - length ?p)) ?us" by blast
    have "concat (map utf16_char (c # t1)) = take (safe_cut (?p @ ?us) n) (?p @ ?us)"
      unfolding safe_cut_skip [OF n, of ?us] using t1 by simp
    moreover have "concat (map utf16_char (c # t)) = ?p @ ?us" by simp
    ultimately have "concat (map utf16_char (c # t1)) =
        take (safe_cut (concat (map utf16_char (c # t))) n) (concat (map utf16_char (c # t)))"
      by (simp only:)
    moreover have "c # t = (c # t1) @ t2" unfolding t by (rule append_Cons [symmetric])
    ultimately show ?thesis by blast
  qed
qed

abbreviation utf16_bytes :: "pystr \<Rightarrow> bytes" where
  "utf16_bytes t \<equiv> concat (map utf16_char t)"

lemma even_utf16_bytes: "even (length (utf16_bytes t))"
  by (induction t) (auto simp: utf16_char_length)

lemma split_units_step:
  assumes "us \<noteq> []"
  defines "e \<equiv> (if 134 < length us then safe_cut us 134 else length us)"
  shows "split_units us = take e us # split_units (drop e us)"
  using assms by (subst split_units.simps) (auto simp: safe_cut_def Let_def min_def)

lemma split_units_spec:
  assumes "list_all scalar t"
  shows "\<exists>ts. concat ts = t \<and> split_units (utf16_bytes t) = map utf16_bytes ts \<and>
    (\<forall>x \<in> set ts. length (utf16_bytes x) \<le> 134)"
  using assms
proof (induction "length t" arbitrary: t rule: less_induct)
  case less
  let ?us = "utf16_bytes t"
  show ?case
  proof (cases "?us = []")
    case True
    then have "t = []" by (cases t) (auto simp: utf16_char_def unit_bytes_def split: if_splits)
    then show ?thesis by (intro exI [of _ "[]"]) (simp add: split_units.simps)
  next
    case us: False
    show ?thesis
    proof (cases "134 < length ?us")
      case False
      then have "split_units ?us = [?us]"
        using split_units_step [OF us] by (simp add: split_units.simps [of "[]"])
      with False show ?thesis by (intro exI [of _ "[t]"]) simp
    next
      case True
      have "\<exists>t1 t2. t = t1 @ t2 \<and> utf16_bytes t1 = take (safe_cut ?us 134) ?us"
        by (rule utf16_cut [OF less.prems]) (use True in simp_all)
      then obtain t1 t2 where t: "t = t1 @ t2" and cut: "utf16_bytes t1 = take (safe_cut ?us 134) ?us"
        by blast
      have e: "132 \<le> safe_cut ?us 134" "safe_cut ?us 134 \<le> 134" by (simp_all add: safe_cut_def)
      have us_t: "?us = utf16_bytes t1 @ utf16_bytes t2" unfolding t by simp
      have len1: "length (utf16_bytes t1) = safe_cut ?us 134"
        unfolding cut length_take using True e by linarith
      have rest: "utf16_bytes t2 = drop (safe_cut ?us 134) ?us"
        by (metis us_t len1 append_eq_conv_conj)
      have "t1 \<noteq> []" using len1 e by (metis concat.simps(1) list.map(1) list.size(3) not_numeral_le_zero)
      then have "length t2 < length t" unfolding t by simp
      moreover have "list_all scalar t2" using less.prems unfolding t by simp
      ultimately obtain ts where ts: "concat ts = t2" "split_units (utf16_bytes t2) = map utf16_bytes ts"
        "\<forall>x \<in> set ts. length (utf16_bytes x) \<le> 134"
        using less.hyps by blast
      have "split_units ?us = map utf16_bytes (t1 # ts)"
        unfolding split_units_step [OF us] list.map
        using True by (simp only: if_True cut [symmetric] rest [symmetric] ts(2))
      moreover have "concat (t1 # ts) = t" unfolding t by (simp add: ts(1))
      moreover have "\<forall>x \<in> set (t1 # ts). length (utf16_bytes x) \<le> 134"
        using ts(3) len1 e(2) by simp
      ultimately show ?thesis by blast
    qed
  qed
qed

fun chunk_text :: "chunk \<Rightarrow> pystr" where
  "chunk_text (Septets ss) = gsm7_text ss"
| "chunk_text (Units us) = utf16_decode us"

definition chunk_ok :: "byte \<Rightarrow> bool \<Rightarrow> chunk \<Rightarrow> bool" where
  "chunk_ok dcs multi c =
     (case c of
        Septets ss \<Rightarrow> dcs = 0x00 \<and> (\<forall>s \<in> set ss. s < 128) \<and> length ss \<le> (if multi then 153 else 160)
      | Units us \<Rightarrow> dcs = 0x08 \<and> length us \<le> (if multi then 134 else 140))"

lemma split_text_gsm:
  assumes "gsm7_septets t = Some ss" and "split_text t mp = Inr (dcs, chunks)"
  shows "chunks \<noteq> [] \<and> concat (map chunk_text chunks) = t \<and>
    (\<forall>c \<in> set chunks. chunk_ok dcs (1 < length chunks) c)"
proof -
  have less: "\<forall>s \<in> set ss. s < 128" and txt1: "gsm7_text ss = t" and closed: "esc_closed ss"
    using assms(1) by (auto dest: gsm7_septets_less gsm7_text_septets gsm7_septets_closed)
  show ?thesis
  proof (cases "length ss \<le> 160")
    case True
    with assms less txt1 show ?thesis by (auto simp: split_text_def chunk_ok_def)
  next
    case False
    let ?cs = "split_septets [] ss"
    have cat: "concat ?cs = ss" and ok: "\<forall>c \<in> set ?cs. length c \<le> 153 \<and> esc_closed c"
      using split_septets_spec [of "[]" ss] closed by auto
    have "?cs \<noteq> []" using cat False by auto
    moreover have "concat (map gsm7_text ?cs) = t"
      using gsm7_text_concat [of ?cs] ok cat txt1 by simp
    moreover have "\<forall>c \<in> set ?cs. \<forall>s \<in> set c. s < 128"
      using less cat by (metis UnI1 UN_I set_concat)
    moreover have "dcs = 0" "chunks = map Septets ?cs"
      using assms False by (auto simp: split_text_def Let_def split: if_splits)
    ultimately show ?thesis using ok by (auto simp: chunk_ok_def comp_def)
  qed
qed

lemma split_text_ucs2:
  assumes "gsm7_septets t = None" and "split_text t mp = Inr (dcs, chunks)"
  shows "chunks \<noteq> [] \<and> concat (map chunk_text chunks) = t \<and>
    (\<forall>c \<in> set chunks. chunk_ok dcs (1 < length chunks) c)"
proof -
  have sc: "list_all scalar t" and dcs: "dcs = 0x08"
    using assms by (auto simp: split_text_def utf16_encode_def Let_def split: if_splits)
  have dec: "utf16_decode (utf16_bytes x) = x" if "list_all scalar x" for x
    using utf16_decode_encoded [OF that, of "[]"] by simp
  show ?thesis
  proof (cases "length (utf16_bytes t) \<le> 140")
    case True
    with assms sc dec [OF sc] show ?thesis
      by (auto simp: split_text_def utf16_encode_def chunk_ok_def split: if_splits)
  next
    case False
    obtain ts where ts: "concat ts = t" "split_units (utf16_bytes t) = map utf16_bytes ts"
      "\<forall>x \<in> set ts. length (utf16_bytes x) \<le> 134"
      using split_units_spec [OF sc] by blast
    then have "\<forall>x \<in> set ts. list_all scalar x" using sc by (auto simp: list_all_iff)
    then have "concat (map (utf16_decode \<circ> utf16_bytes) ts) = concat ts"
      using dec by (intro arg_cong [where f = concat] map_idI) auto
    moreover have "ts \<noteq> []" using ts False by auto
    moreover have "chunks = map (Units \<circ> utf16_bytes) ts"
      using assms sc False ts by (auto simp: split_text_def utf16_encode_def Let_def split: if_splits)
    ultimately show ?thesis using ts dcs by (auto simp: chunk_ok_def comp_def)
  qed
qed

lemma split_text_spec:
  assumes "split_text t mp = Inr (dcs, chunks)"
  shows "chunks \<noteq> []" and "concat (map chunk_text chunks) = t"
    and "c \<in> set chunks \<Longrightarrow> chunk_ok dcs (1 < length chunks) c"
  using split_text_gsm [OF _ assms] split_text_ucs2 [OF _ assms] by (cases "gsm7_septets t"; auto)+

section \<open>User data: decoding inverts encoding\<close>

text \<open>
  A user-data header as the builders write it: its first octet counts the others, and the
  information elements decode to \<open>conc\<close> whatever follows.
\<close>

definition udh_ok :: "bytes \<Rightarrow> concat_info option \<Rightarrow> bool" where
  "udh_ok udh conc \<longleftrightarrow>
     (if udh = [] then conc = None
      else length udh \<le> 7 \<and> unat (udh ! 0) + 1 = length udh \<and>
        (\<forall>rest. udh_loop (udh @ rest) (length udh) 1 None = Inr conc))"

lemma user_data_udl:
  assumes "chunk_ok dcs multi c" and "length udh \<le> 7" and "user_data c udh = (udl, ud)"
  shows "udl < 256"
proof (cases c)
  case (Septets ss)
  define h where "h = (length udh * 8 + (7 - length udh * 8 mod 7) mod 7) div 7"
  have "h \<le> (56 + 6) div 7"
    unfolding h_def using assms(2) by (intro div_le_mono add_mono) auto
  moreover have "length ss \<le> 160" using assms(1) Septets by (auto simp: chunk_ok_def split: if_splits)
  moreover have "udl = (if udh \<noteq> [] then h + length ss else length ss)"
    using assms(3) Septets by (simp add: Let_def h_def split: if_splits)
  ultimately show ?thesis by simp
next
  case (Units us)
  with assms show ?thesis by (auto simp: chunk_ok_def split: if_splits)
qed

lemma dcs_alphabet_0_8: "dcs_alphabet 0 = Gsm7" "dcs_alphabet 8 = Ucs2"
  by (simp_all add: dcs_alphabet_def)

lemma fill_septets: "8 * n + (7 - n * 8 mod 7) mod 7 = 7 * ((n * 8 + 6) div 7)" for n :: nat
proof -
  define q r where "q = n * 8 div 7" and "r = n * 8 mod 7"
  have m: "n * 8 = 7 * q + r" and m8: "8 * n = 7 * q + r" and r: "r < 7"
    by (simp_all add: q_def r_def mult.commute [of 8])
  show ?thesis
  proof (cases "r = 0")
    case True
    have "(7 * q + 6) div 7 = q" by simp
    with True show ?thesis unfolding r_def [symmetric] m m8 by simp
  next
    case False
    have "7 * q + r + 6 = 7 * (q + 1) + (r - 1)" using False by simp
    moreover have "(7 * (q + 1) + (r - 1)) div 7 = q + 1" using r by simp
    ultimately have "(7 * q + r + 6) div 7 = q + 1" by simp
    with False r show ?thesis unfolding r_def [symmetric] m m8 by simp
  qed
qed

lemma decode_user_data:
  assumes "chunk_ok dcs multi c" and "udh_ok udh conc" and "user_data c udh = (udl, ud)"
    and "first AND 0x40 \<noteq> 0 \<longleftrightarrow> udh \<noteq> []"
  shows "decode_ud first dcs udl ud = Inr (chunk_text c, conc, dcs_alphabet dcs)"
proof -
  let ?l = "if first AND 0x40 \<noteq> 0 \<and> ud \<noteq> [] then unat (ud ! 0) + 1 else 0"
  obtain r where ud: "ud = udh @ r"
    using assms(3) by (cases c) (auto simp: Let_def split: if_splits)
  have l: "?l = length udh"
    using assms(2,4) ud by (auto simp: udh_ok_def nth_append)
  have c: "(if first AND 0x40 \<noteq> 0 \<and> ud \<noteq> [] then udh_loop ud (length udh) 1 None else Inr None) = Inr conc"
    using assms(2,4) ud by (auto simp: udh_ok_def)
  have t: "(case dcs_alphabet dcs of
       Gsm7 \<Rightarrow> gsm7_text (drop ((length udh * 8 + 6) div 7) (unpack7 ud udl 0))
     | Ucs2 \<Rightarrow> utf16_decode (py_slice (length udh) udl ud)
     | EightBit \<Rightarrow> hex_str (py_slice (length udh) udl ud)) = chunk_text c"
  proof (cases c)
    case (Septets ss)
    let ?fill = "(7 - length udh * 8 mod 7) mod 7" and ?h = "(length udh * 8 + 6) div 7"
    have h: "8 * length udh + ?fill = 7 * ?h" by (rule fill_septets)
    then have "(length udh * 8 + ?fill) div 7 = ?h" by (metis mult.commute nonzero_mult_div_cancel_left zero_neq_numeral)
    then have "ud = udh @ pack7 ss ?fill \<and> udl = ?h + length ss"
      using assms(3) Septets by (auto simp: Let_def split: if_splits)
    with unpack7_pack7_behind [OF _ h, of ss] assms(1) Septets show ?thesis
      by (simp add: chunk_ok_def dcs_alphabet_0_8)
  next
    case (Units us)
    with assms(1,3) show ?thesis by (auto simp: chunk_ok_def dcs_alphabet_0_8 py_slice_def)
  qed
  show ?thesis
    unfolding decode_ud_def Let_def l c try_r_simps t ..
qed

section \<open>Whole PDUs\<close>

lemma udh_okI:
  assumes "length udh = n" and "0 < n" and "n \<le> 7" and "unat (udh ! 0) + 1 = n"
    and "\<And>rest. udh_loop (udh @ rest) n 1 None = Inr conc"
  shows "udh_ok udh conc"
  using assms by (auto simp: udh_ok_def)

lemma udh_ok_8bit:
  assumes "ref < 256" and "tot < 256" and "seq < 256"
  shows "udh_ok [5, 0, 3, of_nat ref, of_nat tot, of_nat seq]
    (Some \<lparr>c_ref = ref, c_total = tot, c_seq = seq\<rparr>)"
proof (rule udh_okI [where n = 6])
  show "udh_loop ([5, 0, 3, of_nat ref, of_nat tot, of_nat seq] @ rest) 6 1 None =
    Inr (Some \<lparr>c_ref = ref, c_total = tot, c_seq = seq\<rparr>)" for rest
    using assms
    by (simp add: udh_loop.simps [of _ 6 "Suc 0"] udh_loop.simps [of _ 6 6] item_def py_slice_def concat_ie_def)
qed simp_all

lemma udh_ok_16bit:
  assumes "ref < 65536" and "tot < 256" and "seq < 256"
  shows "udh_ok [6, 8, 4, of_nat (ref div 256), of_nat (ref mod 256), of_nat tot, of_nat seq]
    (Some \<lparr>c_ref = ref, c_total = tot, c_seq = seq\<rparr>)"
proof (rule udh_okI [where n = 7])
  have "ref div 256 < 256" using assms(1) by simp
  moreover have "push_bit 8 (ref div 256) OR ref mod 256 = ref"
    using push_bit_or [of "ref mod 256" 8 "ref div 256"] by simp
  ultimately show "udh_loop ([6, 8, 4, of_nat (ref div 256), of_nat (ref mod 256), of_nat tot, of_nat seq] @ rest)
      7 1 None = Inr (Some \<lparr>c_ref = ref, c_total = tot, c_seq = seq\<rparr>)" for rest
    using assms
    by (simp add: udh_loop.simps [of _ 7 "Suc 0"] udh_loop.simps [of _ 7 7] item_def py_slice_def concat_ie_def
        del: of_nat_mod)
qed simp_all

definition submit_concat :: "nat \<Rightarrow> nat \<Rightarrow> nat \<Rightarrow> concat_info option" where
  "submit_concat ref tot seq =
     (if 1 < tot then Some \<lparr>c_ref = ref mod 256, c_total = tot, c_seq = seq\<rparr> else None)"

lemma submit_udh_ok:
  "tot < 256 \<Longrightarrow> seq < 256 \<Longrightarrow> udh_ok (submit_udh ref tot seq) (submit_concat ref tot seq)"
  using udh_ok_8bit [of "ref mod 256" tot seq]
  by (auto simp: submit_udh_def submit_concat_def udh_ok_def [of "[]"] simp del: of_nat_mod)

lemma submit_udh_length: "length (submit_udh ref tot seq) \<le> 7" "submit_udh ref tot seq \<noteq> [] \<longleftrightarrow> 1 < tot"
  by (simp_all add: submit_udh_def)

lemma decode_submit_pdu:
  assumes "encode_address to = Inr da" and "chunk_ok dcs (1 < tot) c"
    and "tot < 256" and "seq < 256"
  shows "decode_pdu (submit_pdu da dcs ref srr tot (seq, c)) False =
    Inr (Submit \<lparr>s_smsc = None, s_mr = 0, s_to = addr_text to, s_dcs = dcs, s_text = chunk_text c,
                 s_concat = submit_concat ref tot seq, s_alphabet = dcs_alphabet dcs, s_srr = srr\<rparr>)"
proof -
  define udh where "udh = submit_udh ref tot seq"
  define first :: byte where
    "first = 0x01 OR 0x10 OR (if srr then 0x20 else 0) OR (if udh \<noteq> [] then 0x40 else 0)"
  obtain udl ud where ud: "user_data c udh = (udl, ud)" by fastforce
  define pdu where "pdu = [first, 0x00] @ da @ [0x00, dcs, 0xA7, of_nat udl] @ ud"
  have multi: "udh \<noteq> [] \<longleftrightarrow> 1 < tot" by (simp add: udh_def submit_udh_length)
  have c: "chunk_ok dcs (udh \<noteq> []) c" using assms(2) multi by simp
  have udl: "udl < 256" using user_data_udl [OF c _ ud] by (simp add: udh_def submit_udh_length)
  have first: "first AND 0x03 = 1" "first AND 0x20 \<noteq> 0 \<longleftrightarrow> srr" "first AND 0x40 \<noteq> 0 \<longleftrightarrow> udh \<noteq> []"
    "drop_bit 3 (unat first) AND 3 = 2"
    by (simp_all add: first_def drop_bit_eq_div)
  define off where "off = 2 + length da"
  have addr: "decode_address pdu 2 = Inr (addr_text to, off)"
    using decode_encode_address [OF assms(1), of "[first, 0x00]"]
    by (simp add: pdu_def off_def numeral_2_eq_2)
  have items: "item pdu 0 = Inr first" "item pdu 1 = Inr 0" "item pdu off = Inr 0"
    "item pdu (off + 1) = Inr dcs" "item pdu (off + 2 + 1) = Inr (of_nat udl)"
    by (simp_all add: pdu_def off_def item_def nth_append)
  have rest: "drop (off + 2 + 1 + 1) pdu = ud" by (simp add: pdu_def off_def drop_Cons')
  have dec: "decode_ud first dcs udl ud = Inr (chunk_text c, submit_concat ref tot seq, dcs_alphabet dcs)"
    by (rule decode_user_data [OF c _ ud first(3)])
      (use submit_udh_ok [OF assms(3,4), of ref] in \<open>simp add: udh_def\<close>)
  have "decode_submit pdu None first 1 =
    Inr (Submit \<lparr>s_smsc = None, s_mr = 0, s_to = addr_text to, s_dcs = dcs, s_text = chunk_text c,
                 s_concat = submit_concat ref tot seq, s_alphabet = dcs_alphabet dcs, s_srr = srr\<rparr>)"
    unfolding decode_submit_def one_add_one items addr try_r_simps Let_def first(4) prod.case
      if_False if_True zero_neq_numeral [symmetric] refl rest
    using dec first udl items rest by simp
  then have "decode_pdu pdu False =
    Inr (Submit \<lparr>s_smsc = None, s_mr = 0, s_to = addr_text to, s_dcs = dcs, s_text = chunk_text c,
                 s_concat = submit_concat ref tot seq, s_alphabet = dcs_alphabet dcs, s_srr = srr\<rparr>)"
    using items first by (simp add: decode_pdu_def)
  moreover have "submit_pdu da dcs ref srr tot (seq, c) = pdu"
    using ud by (simp add: submit_pdu_def pdu_def first_def udh_def Let_def)
  ultimately show ?thesis by simp
qed

definition deliver_concat :: "(nat \<times> nat \<times> nat) option \<Rightarrow> concat_info option" where
  "deliver_concat conc =
     map_option (\<lambda>(ref, tot, seq). \<lparr>c_ref = ref, c_total = tot, c_seq = seq\<rparr>) conc"

lemma deliver_udh_ok:
  assumes "deliver_udh conc = Inr udh"
  shows "udh_ok udh (deliver_concat conc)" and "length udh \<le> 7"
  using assms udh_ok_8bit udh_ok_16bit
  by (auto simp: deliver_udh_def deliver_concat_def udh_ok_def [of "[]"] split: option.splits if_splits)

lemma decode_build_deliver:
  assumes build: "build_deliver_pdu sender t smsc conc tm = Inr pdu" and tm: "tm_ok tm"
  shows "\<exists>dcs. decode_pdu pdu True =
    Inr (Deliver \<lparr>d_smsc = Some (addr_text smsc), d_sender = addr_text sender, d_pid = 0, d_dcs = dcs,
           d_scts = scts_text tm, d_text = t, d_concat = deliver_concat conc,
           d_alphabet = dcs_alphabet dcs, d_status_report = False\<rparr>)"
proof -
  obtain dcs chunks where split: "split_text t 1 = Inr (dcs, chunks)"
    using build by (auto simp: build_deliver_pdu_def try_r_Inr_iff)
  have "length chunks \<le> 1"
    using split by (auto simp: split_text_def Let_def try_r_Inr_iff split: option.splits if_splits)
  then obtain c where chunks: "chunks = [c]"
    using split_text_spec(1) [OF split] by (cases chunks) auto
  have c: "chunk_ok dcs False c" "chunk_text c = t"
    using split_text_spec(2,3) [OF split] chunks by auto
  obtain udh where udh: "deliver_udh conc = Inr udh"
    using build split by (auto simp: build_deliver_pdu_def try_r_Inr_iff)
  obtain sc where sc: "encode_smsc smsc = Inr sc"
    using build split udh by (auto simp: build_deliver_pdu_def try_r_Inr_iff)
  obtain udl ud where ud: "user_data c udh = (udl, ud)" by fastforce
  obtain oa where oa: "encode_address sender = Inr oa"
    using build split udh sc ud chunks by (auto simp: build_deliver_pdu_def try_r_Inr_iff Let_def)
  define first :: byte where "first = 0x04 OR (if udh \<noteq> [] then 0x40 else 0)"
  have pdu: "pdu = [of_nat (length sc)] @ sc @ [first] @ oa @ [0x00, dcs] @ encode_scts tm @ [of_nat udl] @ ud"
    using build split udh sc oa ud chunks by (simp add: build_deliver_pdu_def first_def)
  have udl: "udl < 256" using user_data_udl [OF c(1) _ ud] deliver_udh_ok [OF udh] by simp
  have first: "first AND 0x03 = 0" "first AND 0x20 = 0" "first AND 0x40 \<noteq> 0 \<longleftrightarrow> udh \<noteq> []"
    by (simp_all add: first_def)
  define n where "n = 1 + length sc"
  define off where "off = n + 1 + length oa"
  have smsc: "decode_smsc pdu 0 = Inr (Some (addr_text smsc), n)"
    unfolding pdu n_def by (rule decode_encode_smsc(1) [OF sc])
  have item0: "item pdu n = Inr first" by (simp add: pdu n_def item_def nth_append)
  have addr: "decode_address pdu (n + 1) = Inr (addr_text sender, off)"
    using decode_encode_address [OF oa, of "[of_nat (length sc)] @ sc @ [first]"]
    by (simp add: pdu n_def off_def)
  define pre where "pre = [of_nat (length sc)] @ sc @ [first] @ oa"
  have pre: "pdu = pre @ [0x00, dcs] @ encode_scts tm @ [of_nat udl] @ ud" "length pre = off"
    by (simp_all add: pdu pre_def off_def n_def)
  have items: "item pdu off = Inr 0" "item pdu (off + 1) = Inr dcs" "item pdu (off + 9) = Inr (of_nat udl)"
    unfolding pre(1) using pre(2) by (simp_all add: item_def nth_append length_encode_scts)
  have slice: "py_slice (off + 2) (off + 9) pdu = encode_scts tm"
    using py_slice_mid [of "pre @ [0x00, dcs]" "off + 2" "encode_scts tm" "off + 9" "[of_nat udl] @ ud"] pre
    by (simp add: length_encode_scts)
  have rest: "drop (off + 10) pdu = ud"
    unfolding pre(1) using pre(2) by (simp add: drop_Cons' length_encode_scts)
  have dec: "decode_ud first dcs udl ud = Inr (t, deliver_concat conc, dcs_alphabet dcs)"
    using decode_user_data [OF c(1) deliver_udh_ok(1) [OF udh] ud first(3)] c(2) by simp
  have u: "unat (of_nat udl :: byte) = udl" using udl by simp
  have "decode_pdu pdu True = decode_deliver pdu (Some (addr_text smsc)) first (n + 1)"
    unfolding decode_pdu_def if_True smsc try_r_simps prod.case item0 Let_def first(1) by simp
  also have "\<dots> = Inr (Deliver \<lparr>d_smsc = Some (addr_text smsc), d_sender = addr_text sender, d_pid = 0,
      d_dcs = dcs, d_scts = scts_text tm, d_text = t, d_concat = deliver_concat conc,
      d_alphabet = dcs_alphabet dcs, d_status_report = False\<rparr>)"
    unfolding decode_deliver_def addr try_r_simps prod.case items slice decode_encode_scts [OF tm] rest u dec
    using first(2) by simp
  finally show ?thesis by blast
qed

lemma build_submit_pdus_Inr:
  assumes "build_submit_pdus to t ref srr mp = Inr pdus"
  obtains dcs chunks da where "split_text t mp = Inr (dcs, chunks)" and "encode_address to = Inr da"
    and "length chunks < 256" and "pdus = map (submit_pdu da dcs ref srr (length chunks)) (enumerate 1 chunks)"
  using assms by (auto simp: build_submit_pdus_def try_r_Inr_iff split: if_splits)

lemma decode_build_submit:
  assumes "build_submit_pdus to t ref srr mp = Inr pdus"
  shows "\<exists>msgs. map (\<lambda>p. decode_pdu p False) pdus = map (\<lambda>m. Inr (Submit m)) msgs \<and>
    concat (map s_text msgs) = t \<and>
    (\<forall>i < length msgs. s_to (msgs ! i) = addr_text to \<and> s_srr (msgs ! i) = srr \<and>
       s_concat (msgs ! i) = submit_concat ref (length msgs) (i + 1))"
  using assms
proof (cases rule: build_submit_pdus_Inr)
  case (1 dcs chunks da)
  let ?n = "length chunks"
  define msg where "msg i = \<lparr>s_smsc = None, s_mr = 0, s_to = addr_text to, s_dcs = dcs,
      s_text = chunk_text (chunks ! i), s_concat = submit_concat ref ?n (i + 1),
      s_alphabet = dcs_alphabet dcs, s_srr = srr\<rparr>" for i
  have len: "length pdus = ?n" using 1(4) by simp
  have "decode_pdu (pdus ! i) False = Inr (Submit (msg i))" if "i < ?n" for i
    using that 1(4) decode_submit_pdu [OF 1(2) split_text_spec(3) [OF 1(1)] 1(3), of "chunks ! i" "i + 1" ref srr] 1(3)
    by (simp add: nth_enumerate_eq msg_def)
  then have "map (\<lambda>p. decode_pdu p False) pdus = map (\<lambda>m. Inr (Submit m)) (map msg [0..<?n])"
    using len by (intro nth_equalityI) auto
  moreover have "concat (map s_text (map msg [0..<?n])) = concat (map chunk_text chunks)"
    by (simp add: msg_def comp_def map_nth [of chunks, THEN arg_cong, of "map chunk_text", simplified, symmetric, unfolded comp_def])
  ultimately show ?thesis
    using split_text_spec(2) [OF 1(1)] by (intro exI [of _ "map msg [0..<?n]"]) (simp add: msg_def)
qed

section \<open>What is built is what is read\<close>

text \<open>
  C3. What the SMS layer builds is what a decoder reads: for every text, the submit PDUs decode,
  in order, to the parts of exactly that text, addressed to the number, numbered 1 to n with the
  concatenation reference, and with the status-report flag that was asked for.
\<close>

theorem submit_roundtrip:
  assumes "build_submit_pdus to t ref srr mp = Inr pdus"
  shows "\<exists>msgs. map (\<lambda>p. decode_pdu p False) pdus = map (\<lambda>m. Inr (Submit m)) msgs \<and>
    concat (map s_text msgs) = t \<and>
    (\<forall>i < length msgs. s_to (msgs ! i) = addr_text to \<and> s_srr (msgs ! i) = srr \<and>
       s_concat (msgs ! i) = submit_concat ref (length msgs) (i + 1))"
  using assms by (rule decode_build_submit)

lemma split_text_demo: "split_text [104, 105, 91] mp = Inr (0, [Septets [104, 105, 27, 60]])"
  by (simp add: split_text_def gsm7_demo del: gsm7_septets.simps)

lemma build_submit_demo:
  "\<exists>pdus. build_submit_pdus (lit ''+30 69-1'') [104, 105, 91] 7 True 8 = Inr pdus"
  by (simp add: build_submit_pdus_def split_text_demo encode_address_demo)

lemma submit_roundtrip_witness:
  "\<exists>pdus msgs. build_submit_pdus (lit ''+30 69-1'') [104, 105, 91] 7 True 8 = Inr pdus \<and>
    map (\<lambda>p. decode_pdu p False) pdus = map (\<lambda>m. Inr (Submit m)) msgs \<and>
    concat (map s_text msgs) = [104, 105, 91]"
  using build_submit_demo submit_roundtrip by blast

text \<open>
  C17. A message built for delivery decodes, with its service centre, to its sender, its text, its
  time stamp and its concatenation data, for 8-bit and 16-bit references and any alphabet.
\<close>

theorem deliver_roundtrip:
  assumes "build_deliver_pdu sender t smsc conc tm = Inr pdu" and "tm_ok tm"
  shows "\<exists>dcs. decode_pdu pdu True =
    Inr (Deliver \<lparr>d_smsc = Some (addr_text smsc), d_sender = addr_text sender, d_pid = 0, d_dcs = dcs,
           d_scts = scts_text tm, d_text = t, d_concat = deliver_concat conc,
           d_alphabet = dcs_alphabet dcs, d_status_report = False\<rparr>)"
  using assms by (rule decode_build_deliver)

lemma build_deliver_demo:
  "\<exists>pdu. build_deliver_pdu (lit ''+30 69-1'') [104, 105, 91] (lit ''+30 69-1'') (Some (300, 2, 1)) (2026, 7, 4, 12, 30, 59) =
     Inr pdu"
  by (simp add: build_deliver_pdu_def split_text_demo encode_address_demo encode_smsc_def deliver_udh_def
      Let_def split: prod.splits)

lemma deliver_roundtrip_witness:
  "\<exists>pdu dcs. build_deliver_pdu (lit ''+30 69-1'') [104, 105, 91] (lit ''+30 69-1'') (Some (300, 2, 1))
       (2026, 7, 4, 12, 30, 59) = Inr pdu \<and>
    decode_pdu pdu True =
    Inr (Deliver \<lparr>d_smsc = Some (addr_text (lit ''+30 69-1'')), d_sender = addr_text (lit ''+30 69-1''),
           d_pid = 0, d_dcs = dcs, d_scts = scts_text (2026, 7, 4, 12, 30, 59), d_text = [104, 105, 91],
           d_concat = deliver_concat (Some (300, 2, 1)), d_alphabet = dcs_alphabet dcs,
           d_status_report = False\<rparr>)"
  using build_deliver_demo deliver_roundtrip by (fastforce simp: tm_ok_def)

text \<open>
  Splitting respects the air interface and the characters: the parts concatenate to the text;
  one part carries at most 160 septets or 140 octets, each of several parts at most 153 septets or
  134 octets; no part ends in the middle of an escape sequence or of a surrogate pair, so that each
  part decodes on its own; and no more parts are made than allowed.
\<close>

theorem split_text_parts:
  assumes "split_text t mp = Inr (dcs, chunks)"
  shows "concat (map chunk_text chunks) = t \<and> 1 \<le> length chunks \<and> length chunks \<le> max 1 mp \<and>
    (\<forall>c \<in> set chunks. chunk_ok dcs (1 < length chunks) c)"
proof -
  have "length chunks \<le> max 1 mp"
    using assms by (auto simp: split_text_def Let_def try_r_Inr_iff split: option.splits if_splits)
  moreover have "1 \<le> length chunks" using split_text_spec(1) [OF assms] by (cases chunks) simp_all
  ultimately show ?thesis using split_text_spec(2,3) [OF assms] by blast
qed

lemma split_text_parts_witness:
  "concat (map chunk_text [Septets [104, 105, 27, 60]]) = [104, 105, 91] \<and>
     1 \<le> length [Septets [104, 105, 27, 60]] \<and> length [Septets [104, 105, 27, 60]] \<le> max 1 8 \<and>
     chunk_ok 0 False (Septets [104, 105, 27, 60])"
  using split_text_parts [OF split_text_demo, of 8] by simp

end
