(* ===== verification/Json_Wire.thy ===== *)
theory Json_Wire
  imports Sms_Pdu "HOL-Library.List_Lexorder"
begin

text \<open>
  The JSON the daemons exchange: Python's \<open>json.loads\<close> on a string, and \<open>stock_json\<close> of
  \<^verbatim>\<open>phoned/s22-phoned.py\<close>, which writes the compact, key-sorted ASCII text of the modem's own
  radio library. The reader follows the scanner of CPython's \<open>json\<close> module: white space, literals,
  numbers, escapes with surrogate pairs, duplicate keys (the last value wins at the first position).

  A number with a fraction or an exponent is a rational (Python rounds it to a float). Python's
  recursion limit and its limit of 4300 digits per integer are not modelled.
\<close>

datatype json =
    JNull | JBool bool | JInt int | JFloat rat | JNaN | JInf bool
  | JStr pystr | JArr "json list" | JObj "(pystr \<times> json) list"

section \<open>The reader\<close>

definition is_ws :: "nat \<Rightarrow> bool" where
  "is_ws c \<longleftrightarrow> c = 32 \<or> c = 9 \<or> c = 10 \<or> c = 13"

definition skip_ws :: "pystr \<Rightarrow> pystr" where
  "skip_ws = dropWhile is_ws"

definition hex4 :: "pystr \<Rightarrow> (nat \<times> pystr) option" where
  "hex4 s =
     (case s of
        a # b # c # d # r \<Rightarrow>
          (case (hexval a, hexval b, hexval c, hexval d) of
             (Inr a', Inr b', Inr c', Inr d') \<Rightarrow> Some (((a' * 16 + b') * 16 + c') * 16 + d', r)
           | _ \<Rightarrow> None)
      | _ \<Rightarrow> None)"

text \<open>The characters of \<open>\"\<close>, \<open>\\<close>, \<open>\/\<close>, \<open>\b\<close>, \<open>\f\<close>, \<open>\n\<close>, \<open>\r\<close> and \<open>\t\<close>.\<close>

definition simple_escapes :: "(nat, nat) dict" where
  "simple_escapes = [(34, 34), (92, 92), (47, 47), (98, 8), (102, 12), (110, 10), (114, 13), (116, 9)]"

definition scan_escape :: "pystr \<Rightarrow> (nat \<times> pystr) option" where
  "scan_escape s =
     (case s of
        [] \<Rightarrow> None
      | e # r \<Rightarrow>
          if e = 117 then
            (case hex4 r of
               None \<Rightarrow> None
             | Some (u, r1) \<Rightarrow>
                 if is_high u then
                   (case r1 of
                      b # v # r2 \<Rightarrow>
                        if b = 92 \<and> v = 117 then
                          (case hex4 r2 of
                             None \<Rightarrow> None
                           | Some (u2, r3) \<Rightarrow>
                               if is_low u2
                               then Some (0x10000 + (u - 0xD800) * 0x400 + (u2 - 0xDC00), r3)
                               else Some (u, r1))
                        else Some (u, r1)
                    | _ \<Rightarrow> Some (u, r1))
                 else Some (u, r1))
          else map_option (\<lambda>x. (x, r)) (map_of simple_escapes e))"

text \<open>
  The test \<open>length r' < length s\<close> here and below always holds (lemma \<open>scan_shrinks\<close>); it lets the
  recursion be defined as it is written in the source, without a bound on its depth.
\<close>

function scan_str :: "pystr \<Rightarrow> (pystr \<times> pystr) option" where
  "scan_str s =
     (case s of
        [] \<Rightarrow> None
      | c # r \<Rightarrow>
          if c = 34 then Some ([], r)
          else if c < 32 then None
          else if c \<noteq> 92 then map_option (\<lambda>(t, r'). (c # t, r')) (scan_str r)
          else (case scan_escape r of
                  None \<Rightarrow> None
                | Some (x, r') \<Rightarrow>
                    if length r' < length s then map_option (\<lambda>(t, r'). (x # t, r')) (scan_str r')
                    else None))"
  by pat_completeness auto
termination by (relation "measure length") auto

declare scan_str.simps [simp del]

definition is_digit :: "nat \<Rightarrow> bool" where
  "is_digit c \<longleftrightarrow> 48 \<le> c \<and> c \<le> 57"

definition digits_val :: "pystr \<Rightarrow> nat" where
  "digits_val ds = foldl (\<lambda>v d. 10 * v + (d - 48)) 0 ds"

definition sign_of :: "bool \<Rightarrow> int \<Rightarrow> int" where
  "sign_of neg n = (if neg then - n else n)"

text \<open>\<open>(-?(?:0|[1-9][0-9]*))(\.[0-9]+)?([eE][-+]?[0-9]+)?\<close>\<close>

definition scan_int :: "pystr \<Rightarrow> (bool \<times> nat \<times> pystr) option" where
  "scan_int s =
     (let neg = (take 1 s = [45]); r = (if neg then drop 1 s else s) in
      case r of
        [] \<Rightarrow> None
      | c # r1 \<Rightarrow>
          if c = 48 then Some (neg, 0, r1)
          else if is_digit c then Some (neg, digits_val (takeWhile is_digit r), dropWhile is_digit r)
          else None)"

definition scan_frac :: "pystr \<Rightarrow> (rat \<times> pystr) option" where
  "scan_frac r =
     (case r of
        p # d # r1 \<Rightarrow>
          if p = 46 \<and> is_digit d then
            (let ds = takeWhile is_digit (d # r1)
             in Some (of_nat (digits_val ds) / 10 ^ length ds, dropWhile is_digit (d # r1)))
          else None
      | _ \<Rightarrow> None)"

definition scan_exp :: "pystr \<Rightarrow> (int \<times> pystr) option" where
  "scan_exp r =
     (case r of
        e # r1 \<Rightarrow>
          if e = 101 \<or> e = 69 then
            (let neg = (take 1 r1 = [45]);
                 r2 = (if take 1 r1 = [45] \<or> take 1 r1 = [43] then drop 1 r1 else r1)
             in if r2 \<noteq> [] \<and> is_digit (hd r2)
                then Some (sign_of neg (int (digits_val (takeWhile is_digit r2))), dropWhile is_digit r2)
                else None)
          else None
      | [] \<Rightarrow> None)"

definition pow10 :: "int \<Rightarrow> rat" where
  "pow10 e = (if 0 \<le> e then 10 ^ nat e else 1 / 10 ^ nat (- e))"

definition scan_num :: "pystr \<Rightarrow> (json \<times> pystr) option" where
  "scan_num s =
     (case scan_int s of
        None \<Rightarrow> None
      | Some (neg, n, r) \<Rightarrow>
          (let frac = scan_frac r; r1 = (case frac of Some (_, r') \<Rightarrow> r' | None \<Rightarrow> r);
               ex = scan_exp r1; r2 = (case ex of Some (_, r') \<Rightarrow> r' | None \<Rightarrow> r1)
           in if frac = None \<and> ex = None then Some (JInt (sign_of neg (int n)), r)
              else let m = (of_nat n + (case frac of Some (f, _) \<Rightarrow> f | None \<Rightarrow> 0)) *
                             (case ex of Some (e, _) \<Rightarrow> pow10 e | None \<Rightarrow> 1)
                   in Some (JFloat (if neg then - m else m), r2)))"

text \<open>The literals, and the three constants Python accepts beyond the standard.\<close>

definition literals :: "(pystr \<times> json) list" where
  "literals = [(lit ''null'', JNull), (lit ''true'', JBool True), (lit ''false'', JBool False),
     (lit ''NaN'', JNaN), (lit ''Infinity'', JInf True), (lit ''-Infinity'', JInf False)]"

definition scan_atom :: "pystr \<Rightarrow> (json \<times> pystr) option" where
  "scan_atom s =
     (case find (\<lambda>(l, v). take (length l) s = l) literals of
        Some (l, v) \<Rightarrow> Some (v, drop (length l) s)
      | None \<Rightarrow> scan_num s)"

definition dict_of :: "('k \<times> 'v) list \<Rightarrow> ('k, 'v) dict" where
  "dict_of kvs = foldl (\<lambda>d (k, v). AList.update k v d) [] kvs"

lemma length_skip_ws: "length (skip_ws s) \<le> length s"
  by (simp add: skip_ws_def length_dropWhile_le)

function parse_val :: "pystr \<Rightarrow> (json \<times> pystr) option"
  and parse_elems :: "pystr \<Rightarrow> (json list \<times> pystr) option"
  and parse_members :: "pystr \<Rightarrow> ((pystr \<times> json) list \<times> pystr) option" where
  "parse_val s =
     (case s of
        [] \<Rightarrow> None
      | c # r \<Rightarrow>
          if c = 34 then map_option (\<lambda>(t, r'). (JStr t, r')) (scan_str r)
          else if c = 123 then
            (if take 1 (skip_ws r) = [125] then Some (JObj [], drop 1 (skip_ws r))
             else map_option (\<lambda>(kvs, r'). (JObj (dict_of kvs), r')) (parse_members (skip_ws r)))
          else if c = 91 then
            (if take 1 (skip_ws r) = [93] then Some (JArr [], drop 1 (skip_ws r))
             else map_option (\<lambda>(vs, r'). (JArr vs, r')) (parse_elems (skip_ws r)))
          else scan_atom s)"
| "parse_elems s =
     (case parse_val s of
        None \<Rightarrow> None
      | Some (v, r) \<Rightarrow>
          (case skip_ws r of
             [] \<Rightarrow> None
           | c # r1 \<Rightarrow>
               if c = 93 then Some ([v], r1)
               else if c = 44 \<and> length (skip_ws r1) < length s
               then map_option (\<lambda>(vs, r'). (v # vs, r')) (parse_elems (skip_ws r1))
               else None))"
| "parse_members s =
     (case s of
        [] \<Rightarrow> None
      | q # r0 \<Rightarrow>
          if q \<noteq> 34 then None
          else (case scan_str r0 of
             None \<Rightarrow> None
           | Some (k, r) \<Rightarrow>
               (case skip_ws r of
                  [] \<Rightarrow> None
                | c # r1 \<Rightarrow>
                    if c = 58 \<and> length (skip_ws r1) < length s then
                      (case parse_val (skip_ws r1) of
                         None \<Rightarrow> None
                       | Some (v, r2) \<Rightarrow>
                           (case skip_ws r2 of
                              [] \<Rightarrow> None
                            | d # r3 \<Rightarrow>
                                if d = 125 then Some ([(k, v)], r3)
                                else if d = 44 \<and> length (skip_ws r3) < length s
                                then map_option (\<lambda>(kvs, r'). ((k, v) # kvs, r')) (parse_members (skip_ws r3))
                                else None))
                    else None)))"
  by pat_completeness auto
termination
  by (relation "measure (\<lambda>x. case x of Inl s \<Rightarrow> 2 * length s
      | Inr (Inl s) \<Rightarrow> 2 * length s + 1 | Inr (Inr s) \<Rightarrow> 2 * length s + 1)")
    (auto simp: le_imp_less_Suc length_skip_ws intro: le_less_trans [OF length_skip_ws])

declare parse_val.simps [simp del] parse_elems.simps [simp del] parse_members.simps [simp del]

definition json_loads :: "pystr \<Rightarrow> json option" where
  "json_loads s =
     (if take 1 s = [0xFEFF] then None
      else case parse_val (skip_ws s) of
        Some (v, r) \<Rightarrow> if skip_ws r = [] then Some v else None
      | None \<Rightarrow> None)"

section \<open>Every scanner consumes input\<close>

lemma hex4_shrinks: "hex4 s = Some (u, r) \<Longrightarrow> length s = length r + 4"
  by (auto simp: hex4_def split: list.splits sum.splits)

lemma scan_escape_shrinks: "scan_escape s = Some (x, r) \<Longrightarrow> length r < length s"
  by (auto simp: scan_escape_def split: list.splits option.splits if_splits dest!: hex4_shrinks)

lemma scan_str_shrinks: "scan_str s = Some (t, r) \<Longrightarrow> length r < length s"
proof (induction s arbitrary: t r rule: scan_str.induct)
  case (1 s)
  obtain c u where s: "s = c # u" using "1.prems" by (cases s) (auto simp: scan_str.simps)
  consider "c = 34" | "c \<noteq> 34" "\<not> c < 32" "c \<noteq> 92" | "c \<noteq> 34" "\<not> c < 32" "c = 92"
    using "1.prems" by (subst (asm) scan_str.simps) (auto simp: s split: if_splits)
  then show ?case
  proof cases
    case 1
    then show ?thesis using "1.prems" by (subst (asm) scan_str.simps) (simp add: s)
  next
    case 2
    then obtain t' where "scan_str u = Some (t', r)"
      using "1.prems" by (subst (asm) scan_str.simps) (auto simp: s)
    then show ?thesis using "1.IH"(1) [OF s] 2 by (fastforce simp: s)
  next
    case 3
    then obtain x u' t' where x: "scan_escape u = Some (x, u')" "length u' < length s" "scan_str u' = Some (t', r)"
      using "1.prems" by (subst (asm) scan_str.simps) (auto simp: s split: option.splits if_splits)
    then have "length r < length u'" using "1.IH"(2) [OF s _ _ _ x(1) refl x(2)] 3 by blast
    then show ?thesis using x(2) by simp
  qed
qed

lemma length_dropWhile_digits:
  "d # r = s \<Longrightarrow> is_digit d \<Longrightarrow> length (dropWhile is_digit s) < length s"
  using length_dropWhile_le [of is_digit r] by auto

lemma scan_int_shrinks: "scan_int s = Some (neg, n, r) \<Longrightarrow> length r < length s"
proof -
  assume a: "scan_int s = Some (neg, n, r)"
  let ?u = "if take 1 s = [45] then drop 1 s else s"
  have "length ?u \<le> length s" by simp
  moreover have "length r < length ?u"
  proof (cases ?u)
    case Nil
    with a show ?thesis by (simp add: scan_int_def Let_def)
  next
    case (Cons c u)
    then show ?thesis
      using a length_dropWhile_le [of is_digit u] unfolding scan_int_def Let_def Cons
      by (auto split: if_splits)
  qed
  ultimately show ?thesis by simp
qed

lemma scan_frac_shrinks: "scan_frac s = Some (f, r) \<Longrightarrow> length r < length s"
proof -
  assume a: "scan_frac s = Some (f, r)"
  then obtain p d u where s: "s = p # d # u" by (cases s; cases "tl s") (auto simp: scan_frac_def)
  then have "r = dropWhile is_digit (d # u)" using a by (auto simp: scan_frac_def Let_def split: if_splits)
  then have "length r \<le> length (d # u)" by (simp only: length_dropWhile_le)
  then show ?thesis by (simp add: s)
qed


lemma scan_exp_shrinks: "scan_exp s = Some (e, r) \<Longrightarrow> length r < length s"
proof -
  assume a: "scan_exp s = Some (e, r)"
  then obtain c u where s: "s = c # u" by (cases s) (auto simp: scan_exp_def)
  let ?v = "if take 1 u = [45] \<or> take 1 u = [43] then drop 1 u else u"
  have "r = dropWhile is_digit ?v" using a by (auto simp: scan_exp_def s Let_def split: if_splits)
  then have "length r \<le> length ?v" by (simp only: length_dropWhile_le)
  also have "\<dots> \<le> length u" by simp
  finally show ?thesis by (simp add: s)
qed

lemma scan_num_shrinks: "scan_num s = Some (v, r) \<Longrightarrow> length r < length s"
  by (auto simp: scan_num_def Let_def split: option.splits if_splits
      dest!: scan_int_shrinks scan_frac_shrinks scan_exp_shrinks)

lemma scan_atom_shrinks: "scan_atom s = Some (v, r) \<Longrightarrow> s \<noteq> [] \<Longrightarrow> length r < length s"
proof -
  assume a: "scan_atom s = Some (v, r)" and s: "s \<noteq> []"
  show ?thesis
  proof (cases "find (\<lambda>(l, v). take (length l) s = l) literals")
    case None
    with a show ?thesis by (simp add: scan_atom_def scan_num_shrinks)
  next
    case (Some lv)
    then have "lv \<in> set literals" by (auto simp: find_Some_iff in_set_conv_nth)
    then have "fst lv \<noteq> []" by (auto simp: literals_def lit_def)
    then show ?thesis using a s Some by (auto simp: scan_atom_def case_prod_beta length_greater_0_conv)
  qed
qed

lemma skip_ws_shorter: "length s < n \<Longrightarrow> length (skip_ws s) < n"
  using length_skip_ws [of s] by (rule le_less_trans)

lemma skip_ws_Cons: "skip_ws r = c # r1 \<Longrightarrow> length r1 < length r"
  using length_skip_ws [of r] by simp

lemma parse_shrinks:
  "parse_val s = Some (v, r) \<Longrightarrow> length r < length s"
  "parse_elems s' = Some (vs, r') \<Longrightarrow> length r' < length s'"
  "parse_members s'' = Some (kvs, r'') \<Longrightarrow> length r'' < length s''"
proof (induction s and s' and s'' arbitrary: v r and vs r' and kvs r''
    rule: parse_val_parse_elems_parse_members.induct)
  case (1 s)
  obtain c u where s: "s = c # u" using "1.prems" by (cases s) (auto simp: parse_val.simps)
  have u: "length (skip_ws u) < length s" using length_skip_ws [of u] by (simp add: s)
  show ?case
  proof (cases "c = 123 \<or> c = 91")
    case False
    then have "(if c = 34 then map_option (\<lambda>(t, r'). (JStr t, r')) (scan_str u) else scan_atom s) = Some (v, r)"
      using "1.prems" by (subst (asm) parse_val.simps) (auto simp: s)
    then show ?thesis
      using scan_atom_shrinks [of s v r] scan_str_shrinks [of u _ r]
      by (fastforce simp: s split: if_splits)
  next
    case True
    then consider "c = 123" "take 1 (skip_ws u) = [125]" | "c = 123" "take 1 (skip_ws u) \<noteq> [125]"
      | "c = 91" "take 1 (skip_ws u) = [93]" | "c = 91" "take 1 (skip_ws u) \<noteq> [93]" by blast
    then show ?thesis
    proof cases
      case 2
      then obtain kvs where "parse_members (skip_ws u) = Some (kvs, r)"
        using "1.prems" by (subst (asm) parse_val.simps) (auto simp: s)
      then have "length r < length (skip_ws u)" using "1.IH"(1) [OF s] 2 by simp
      with u show ?thesis by simp
    next
      case 4
      then obtain vs where "parse_elems (skip_ws u) = Some (vs, r)"
        using "1.prems" by (subst (asm) parse_val.simps) (auto simp: s)
      then have "length r < length (skip_ws u)" using "1.IH"(2) [OF s] 4 by simp
      with u show ?thesis by simp
    qed (use "1.prems" u in \<open>subst (asm) parse_val.simps, auto simp: s\<close>)+
  qed
next
  case (2 s)
  obtain v u where v: "parse_val s = Some (v, u)"
    using "2.prems" by (subst (asm) parse_elems.simps) (auto split: option.splits)
  have u: "length u < length s" using "2.IH"(1) [OF v] .
  obtain c r1 where c: "skip_ws u = c # r1"
    using "2.prems" v by (subst (asm) parse_elems.simps) (auto split: list.splits)
  note r1 = skip_ws_Cons [OF c]
  show ?case
  proof (cases "c = 93")
    case True
    then show ?thesis using "2.prems" v c u r1 by (subst (asm) parse_elems.simps) simp
  next
    case False
    then obtain vs2 where "c = 44 \<and> length (skip_ws r1) < length s" "parse_elems (skip_ws r1) = Some (vs2, r')"
      using "2.prems" v c by (subst (asm) parse_elems.simps) (auto split: if_splits)
    then have "length r' < length (skip_ws r1)" using "2.IH"(2) [OF v refl c False] by simp
    then show ?thesis using \<open>c = 44 \<and> length (skip_ws r1) < length s\<close> by simp
  qed
next
  case (3 s)
  obtain r0 where s: "s = 34 # r0"
    using "3.prems" by (cases s) (auto simp: parse_members.simps split: if_splits)
  obtain k r where k: "scan_str r0 = Some (k, r)"
    using "3.prems" by (subst (asm) parse_members.simps) (auto simp: s split: option.splits)
  obtain r1 where c: "skip_ws r = 58 # r1" "length (skip_ws r1) < length s"
    using "3.prems" k by (subst (asm) parse_members.simps) (auto simp: s split: list.splits if_splits)
  obtain v r2 where v: "parse_val (skip_ws r1) = Some (v, r2)"
    using "3.prems" k c by (subst (asm) parse_members.simps) (auto simp: s split: option.splits)
  have r2: "length r2 < length (skip_ws r1)" by (rule "3.IH"(1) [OF _ _ _ refl _ _ v]) (use s k c in auto)
  obtain d r3 where d: "skip_ws r2 = d # r3"
    using "3.prems" k c v by (subst (asm) parse_members.simps) (auto simp: s split: list.splits)
  note r3 = skip_ws_Cons [OF d]
  show ?case
  proof (cases "d = 125")
    case True
    then show ?thesis using "3.prems" k c v d r2 r3 by (subst (asm) parse_members.simps) (simp add: s)
  next
    case False
    then obtain kvs2 where e: "d = 44 \<and> length (skip_ws r3) < length s"
        "parse_members (skip_ws r3) = Some (kvs2, r'')"
      using "3.prems" k c v d by (subst (asm) parse_members.simps) (auto simp: s split: if_splits)
    have "length r'' < length (skip_ws r3)"
      by (rule "3.IH"(2) [OF _ _ _ refl _ _ v refl d False e(1) e(2)]) (use s k c in auto)
    then show ?thesis using e(1) by simp
  qed
qed

section \<open>The writer\<close>

text \<open>
  The values the daemons write: no floats. \<open>PObj\<close> is a Python dictionary, so its keys are distinct
  (\<open>plain_ok\<close>); the text is ASCII (\<open>ensure_ascii\<close>), with the keys of every object sorted.
\<close>

datatype jplain =
    PNull | PBool bool | PInt int | PStr pystr | PArr "jplain list" | PObj "(pystr \<times> jplain) list"

fun jval :: "jplain \<Rightarrow> json" where
  "jval PNull = JNull"
| "jval (PBool b) = JBool b"
| "jval (PInt i) = JInt i"
| "jval (PStr t) = JStr t"
| "jval (PArr vs) = JArr (map jval vs)"
| "jval (PObj kvs) = JObj (map (\<lambda>(k, v). (k, jval v)) kvs)"

fun psort :: "jplain \<Rightarrow> jplain" where
  "psort (PArr vs) = PArr (map psort vs)"
| "psort (PObj kvs) = PObj (sort_key fst (map (\<lambda>(k, v). (k, psort v)) kvs))"
| "psort v = v"

definition hex_low :: "nat \<Rightarrow> pystr" where
  "hex_low n = map hex_digit [n div 4096 mod 16, n div 256 mod 16, n div 16 mod 16, n mod 16]"

definition esc_char :: "nat \<Rightarrow> pystr" where
  "esc_char c =
     (if c = 34 \<or> c = 92 then [92, c]
      else if c = 10 then [92, 110] else if c = 13 then [92, 114] else if c = 9 then [92, 116]
      else if c = 12 then [92, 102] else if c = 8 then [92, 98]
      else if 32 \<le> c \<and> c \<le> 126 then [c]
      else if c < 0x10000 then [92, 117] @ hex_low c
      else [92, 117] @ hex_low (0xD800 + (c - 0x10000) div 0x400) @
           [92, 117] @ hex_low (0xDC00 + (c - 0x10000) mod 0x400))"

definition json_str :: "pystr \<Rightarrow> pystr" where
  "json_str t = 34 # concat (map esc_char t) @ [34]"

fun comma_join :: "pystr list \<Rightarrow> pystr" where
  "comma_join [] = []"
| "comma_join [x] = x"
| "comma_join (x # y # xs) = x @ 44 # comma_join (y # xs)"

definition int_text :: "int \<Rightarrow> pystr" where
  "int_text i = (if i < 0 then 45 # dec_digits (nat (- i)) else dec_digits (nat i))"

fun json_text :: "jplain \<Rightarrow> pystr" where
  "json_text PNull = lit ''null''"
| "json_text (PBool b) = (if b then lit ''true'' else lit ''false'')"
| "json_text (PInt i) = int_text i"
| "json_text (PStr t) = json_str t"
| "json_text (PArr vs) = 91 # comma_join (map json_text vs) @ [93]"
| "json_text (PObj kvs) = 123 # comma_join (map (\<lambda>(k, v). json_str k @ 58 # json_text v) kvs) @ [125]"

definition stock_json :: "jplain \<Rightarrow> bytes" where
  "stock_json v = map of_nat (json_text (psort v) @ [10])"

fun plain_ok :: "jplain \<Rightarrow> bool" where
  "plain_ok (PStr t) = list_all scalar t"
| "plain_ok (PArr vs) = list_all plain_ok vs"
| "plain_ok (PObj kvs) = (distinct (map fst kvs) \<and> list_all (\<lambda>(k, v). list_all scalar k \<and> plain_ok v) kvs)"
| "plain_ok _ = True"

section \<open>Reading what was written\<close>

lemma hexval_hex_digit: "n < 16 \<Longrightarrow> hexval (hex_digit n) = Inr n"
  by (auto simp: hexval_def hex_digit_def)

lemma hex_value: "n = 16 * a + r \<Longrightarrow> a = 16 * b + s \<Longrightarrow> b = 16 * c + t \<Longrightarrow>
    ((c * 16 + t) * 16 + s) * 16 + r = n" for n :: nat
  by simp

lemma hex4_low:
  assumes "n < 0x10000"
  shows "hex4 (hex_low n @ r) = Some (n, r)"
proof -
  have "n = 16 * (n div 16) + n mod 16" "n div 16 = 16 * (n div 256) + n div 16 mod 16"
    "n div 256 = 16 * (n div 4096) + n div 256 mod 16"
    using div_mult2_eq [of n 16 16] div_mult2_eq [of n 256 16]
      mult_div_mod_eq [of 16 "n div 16"] mult_div_mod_eq [of 16 "n div 256"] by simp_all
  then have val: "((n div 4096 * 16 + n div 256 mod 16) * 16 + n div 16 mod 16) * 16 + n mod 16 = n"
    by (rule hex_value)
  have d: "n div 4096 < 16" using assms by simp
  then have "n div 4096 mod 16 = n div 4096" by simp
  then have "hex4 (hex_low n @ r) =
      Some (((n div 4096 * 16 + n div 256 mod 16) * 16 + n div 16 mod 16) * 16 + n mod 16, r)"
    using d by (simp add: hex4_def hex_low_def hexval_hex_digit)
  then show ?thesis by (simp only: val)
qed

lemma scan_escape_simple:
  "scan_escape (34 # r) = Some (34, r)" "scan_escape (92 # r) = Some (92, r)"
  "scan_escape (110 # r) = Some (10, r)" "scan_escape (114 # r) = Some (13, r)"
  "scan_escape (116 # r) = Some (9, r)" "scan_escape (102 # r) = Some (12, r)"
  "scan_escape (98 # r) = Some (8, r)"
  by (simp_all add: scan_escape_def simple_escapes_def)

lemma scan_escape_bmp:
  "u < 0x10000 \<Longrightarrow> \<not> is_high u \<Longrightarrow> scan_escape (117 # hex_low u @ r) = Some (u, r)"
  by (simp add: scan_escape_def hex4_low)

lemma scan_escape_pair:
  assumes "hi < 0x10000" "lo < 0x10000" "is_high hi" "is_low lo"
  shows "scan_escape (117 # hex_low hi @ 92 # 117 # hex_low lo @ r) =
    Some (0x10000 + (hi - 0xD800) * 0x400 + (lo - 0xDC00), r)"
  using assms by (simp add: scan_escape_def hex4_low)

lemma scan_str_escape:
  assumes "scan_escape s = Some (x, r)"
  shows "scan_str (92 # s) = map_option (\<lambda>(t, r'). (x # t, r')) (scan_str r)"
  using scan_escape_shrinks [OF assms] assms by (subst scan_str.simps) simp

lemma scan_str_esc_char:
  assumes "scalar c"
  shows "scan_str (esc_char c @ s) = map_option (\<lambda>(t, r). (c # t, r)) (scan_str s)"
proof -
  have sc: "\<not> is_high c" "c < 0x110000" using assms by (simp_all add: scalar_def)
  consider "c = 34 \<or> c = 92 \<or> c = 10 \<or> c = 13 \<or> c = 9 \<or> c = 12 \<or> c = 8"
    | "c \<noteq> 34" "c \<noteq> 92" "32 \<le> c" "c \<le> 126"
    | "c \<notin> {34, 92, 10, 13, 9, 12, 8}" "\<not> (32 \<le> c \<and> c \<le> 126)" "c < 0x10000"
    | "0x10000 \<le> c" by fastforce
  then show ?thesis
  proof cases
    case 1
    then show ?thesis
      by (elim disjE) (simp_all add: esc_char_def scan_str_escape [OF scan_escape_simple(1)]
          scan_str_escape [OF scan_escape_simple(2)] scan_str_escape [OF scan_escape_simple(3)]
          scan_str_escape [OF scan_escape_simple(4)] scan_str_escape [OF scan_escape_simple(5)]
          scan_str_escape [OF scan_escape_simple(6)] scan_str_escape [OF scan_escape_simple(7)])
  next
    case 2
    then show ?thesis by (subst scan_str.simps) (simp add: esc_char_def)
  next
    case 3
    then have "esc_char c = 92 # 117 # hex_low c" by (auto simp: esc_char_def)
    then show ?thesis using scan_str_escape [OF scan_escape_bmp [OF 3(3) sc(1)]] by simp
  next
    case 4
    define hi lo where "hi = 0xD800 + (c - 0x10000) div 0x400" and "lo = 0xDC00 + (c - 0x10000) mod 0x400"
    have "(c - 0x10000) div 0x400 < 0x400" using sc(2) 4 by simp
    then have hi: "hi < 0x10000" "is_high hi" by (auto simp: hi_def is_high_def)
    have "(c - 0x10000) mod 0x400 < 0x400" by simp
    then have lo: "lo < 0x10000" "is_low lo" by (auto simp: lo_def is_low_def)
    have c: "0x10000 + (hi - 0xD800) * 0x400 + (lo - 0xDC00) = c" using 4 by (simp add: hi_def lo_def)
    have "esc_char c = 92 # 117 # hex_low hi @ 92 # 117 # hex_low lo"
      using 4 by (simp add: esc_char_def hi_def lo_def)
    then show ?thesis using scan_str_escape [OF scan_escape_pair [OF hi(1) lo(1) hi(2) lo(2)], of s] c by simp
  qed
qed

lemma scan_str_written: "list_all scalar t \<Longrightarrow> scan_str (concat (map esc_char t) @ 34 # r) = Some (t, r)"
proof (induction t)
  case Nil
  then show ?case by (subst scan_str.simps) simp
next
  case (Cons c t)
  then show ?case by (simp add: scan_str_esc_char)
qed

text \<open>Numbers: the text of an integer, in front of a character that cannot continue it.\<close>

definition num_end :: "pystr \<Rightarrow> bool" where
  "num_end r \<longleftrightarrow> r = [] \<or> hd r \<in> {44, 93, 125, 10}"

lemma dec_digits_digits: "list_all is_digit (dec_digits n) \<and> dec_digits n \<noteq> []"
proof (induction n rule: dec_digits.induct)
  case (1 n)
  have "is_digit (48 + n mod 10)" by (simp add: is_digit_def)
  moreover have "n < 10 \<Longrightarrow> is_digit (48 + n)" by (simp add: is_digit_def)
  ultimately show ?case using 1 by (subst (1 2) dec_digits.simps) auto
qed

lemma digits_val_dec: "digits_val (dec_digits n) = n"
proof (induction n rule: dec_digits.induct)
  case (1 n)
  then show ?case by (subst dec_digits.simps) (auto simp: digits_val_def)
qed

lemma dec_digits_head: "0 < n \<Longrightarrow> hd (dec_digits n) \<noteq> 48"
proof (induction n rule: dec_digits.induct)
  case (1 n)
  show ?case
  proof (cases "n < 10")
    case True
    with "1.prems" show ?thesis by (subst dec_digits.simps) simp
  next
    case False
    then show ?thesis using "1.IH" dec_digits_digits [of "n div 10"] by (subst dec_digits.simps) simp
  qed
qed

lemma take_digits:
  assumes "list_all is_digit ds" and "r = [] \<or> \<not> is_digit (hd r)"
  shows "takeWhile is_digit (ds @ r) = ds \<and> dropWhile is_digit (ds @ r) = r"
  using assms by (induction ds) (cases r; auto)+

lemma scan_int_digits:
  assumes "num_end r"
  shows "scan_int ((if neg then [45] else []) @ dec_digits n @ r) = Some (neg, n, r)"
proof -
  obtain c u where c: "dec_digits n = c # u" using dec_digits_digits [of n] by (cases "dec_digits n") auto
  have dig: "is_digit c" using dec_digits_digits [of n] c by simp
  have r: "r = [] \<or> \<not> is_digit (hd r)" using assms by (auto simp: num_end_def is_digit_def)
  note t = take_digits [OF conjunct1 [OF dec_digits_digits] r, of n]
  have "c \<noteq> 45" using dig by (auto simp: is_digit_def)
  then have s: "scan_int ((if neg then [45] else []) @ dec_digits n @ r) =
      (if c = 48 then Some (neg, 0, u @ r)
       else Some (neg, digits_val (takeWhile is_digit (dec_digits n @ r)), dropWhile is_digit (dec_digits n @ r)))"
    using dig by (cases neg) (simp_all add: scan_int_def c Let_def)
  show ?thesis
  proof (cases "n = 0")
    case True
    then show ?thesis using s c by (simp add: dec_digits.simps)
  next
    case False
    then have "c \<noteq> 48" using dec_digits_head [of n] c by simp
    then show ?thesis using s t digits_val_dec [of n] by simp
  qed
qed

lemma scan_num_int:
  assumes "num_end r"
  shows "scan_num (int_text i @ r) = Some (JInt i, r)"
proof -
  have "int_text i @ r = (if i < 0 then [45] else []) @ dec_digits (nat \<bar>i\<bar>) @ r"
    by (simp add: int_text_def)
  then have "scan_int (int_text i @ r) = Some (i < 0, nat \<bar>i\<bar>, r)"
    using scan_int_digits [OF assms] by simp
  moreover have "scan_frac r = None" "scan_exp r = None"
    using assms by (auto simp: num_end_def scan_frac_def scan_exp_def split: list.splits)
  ultimately show ?thesis by (simp add: scan_num_def sign_of_def)
qed

text \<open>A value is read back from any context that ends it; none starts with white space or a bracket.\<close>

lemma json_text_head:
  "\<exists>c u. json_text v = c # u \<and> \<not> is_ws c \<and> c \<noteq> 93 \<and> c \<noteq> 125"
proof (cases v)
  case (PInt i)
  obtain c u where c: "dec_digits (nat \<bar>i\<bar>) = c # u"
    using dec_digits_digits [of "nat \<bar>i\<bar>"] by (cases "dec_digits (nat \<bar>i\<bar>)") auto
  then have "is_digit c" using dec_digits_digits [of "nat \<bar>i\<bar>"] by simp
  with c show ?thesis by (auto simp: PInt int_text_def is_ws_def is_digit_def)
qed (auto simp: lit_def is_ws_def json_str_def)

lemma skip_ws_text [simp]: "skip_ws (json_text v @ r) = json_text v @ r"
  using json_text_head [of v] by (auto simp: skip_ws_def)

lemma skip_ws_head [simp]: "\<not> is_ws c \<Longrightarrow> skip_ws (c # r) = c # r"
  by (simp add: skip_ws_def)

lemma not_ws [simp]: "\<not> is_ws 34" "\<not> is_ws 44" "\<not> is_ws 58" "\<not> is_ws 91" "\<not> is_ws 93" "\<not> is_ws 123" "\<not> is_ws 125"
  by (simp_all add: is_ws_def)

definition reads_back :: "jplain \<Rightarrow> bool" where
  "reads_back v \<longleftrightarrow> (\<forall>r. num_end r \<longrightarrow> parse_val (json_text v @ r) = Some (jval v, r))"

lemma parse_elems_written:
  assumes "list_all reads_back vs" and "vs \<noteq> []"
  shows "parse_elems (comma_join (map json_text vs) @ 93 # r) = Some (map jval vs, r)"
  using assms
proof (induction "map json_text vs" arbitrary: vs rule: comma_join.induct)
  case 1
  then show ?case by simp
next
  case (2 x)
  then obtain v where v: "vs = [v]" "x = json_text v" by auto
  then have "parse_val (json_text v @ 93 # r) = Some (jval v, 93 # r)"
    using "2.prems"(1) by (simp add: reads_back_def num_end_def)
  then show ?case by (subst parse_elems.simps) (simp add: v)
next
  case (3 x y xs)
  then obtain v w ws where v: "vs = v # w # ws" by (cases vs; cases "tl vs") auto
  let ?r = "comma_join (map json_text (w # ws)) @ 93 # r"
  have IH: "parse_elems ?r = Some (map jval (w # ws), r)"
    by (rule "3.hyps"(1)) (use "3.hyps"(2) "3.prems" v in simp_all)
  have "parse_val (json_text v @ 44 # ?r) = Some (jval v, 44 # ?r)"
    using "3.prems"(1) by (simp add: v reads_back_def num_end_def)
  moreover have "skip_ws ?r = ?r"
    by (cases ws) simp_all
  ultimately show ?case using IH by (subst parse_elems.simps) (simp add: v)
qed

definition member_text :: "pystr \<times> jplain \<Rightarrow> pystr" where
  "member_text kv = json_str (fst kv) @ 58 # json_text (snd kv)"

lemma member_head [simp]: "skip_ws (member_text kv @ r) = member_text kv @ r"
  by (simp add: member_text_def json_str_def)

lemma parse_members_written:
  assumes "list_all (\<lambda>(k, v). list_all scalar k \<and> reads_back v) kvs" and "kvs \<noteq> []"
  shows "parse_members (comma_join (map member_text kvs) @ 125 # r) = Some (map (\<lambda>(k, v). (k, jval v)) kvs, r)"
  using assms
proof (induction "map member_text kvs" arbitrary: kvs rule: comma_join.induct)
  case 1
  then show ?case by simp
next
  case (2 x)
  then obtain k v where v: "kvs = [(k, v)]" by auto
  then have "parse_val (json_text v @ 125 # r) = Some (jval v, 125 # r)" "list_all scalar k"
    using "2.prems"(1) by (simp_all add: reads_back_def num_end_def)
  then show ?case
    by (subst parse_members.simps) (simp add: v member_text_def json_str_def scan_str_written)
next
  case (3 x y xs)
  then obtain k v w ws where v: "kvs = (k, v) # w # ws" by (cases kvs; cases "tl kvs") auto
  let ?r = "comma_join (map member_text (w # ws)) @ 125 # r"
  have IH: "parse_members ?r = Some (map (\<lambda>(k, v). (k, jval v)) (w # ws), r)"
    by (rule "3.hyps"(1)) (use "3.hyps"(2) "3.prems" v in simp_all)
  have "parse_val (json_text v @ 44 # ?r) = Some (jval v, 44 # ?r)" "list_all scalar k"
    using "3.prems"(1) by (simp_all add: v reads_back_def num_end_def)
  moreover have "skip_ws ?r = ?r" by (cases ws) simp_all
  ultimately show ?case using IH
    by (subst parse_members.simps) (simp add: v member_text_def json_str_def scan_str_written)
qed

lemma dict_of_distinct:
  assumes "distinct (map fst kvs)"
  shows "dict_of kvs = kvs"
proof -
  have "foldl (\<lambda>d (k, v). AList.update k v d) d kvs = d @ kvs" if "distinct (map fst (d @ kvs))" for d
    using that
  proof (induction kvs arbitrary: d)
    case (Cons kv kvs)
    obtain k v where kv: "kv = (k, v)" by fastforce
    have "map_of d k = None" using Cons.prems by (auto simp: kv map_of_eq_None_iff)
    then have "AList.update k v d = d @ [(k, v)]" by (rule update_new)
    then show ?case using Cons.IH [of "d @ [(k, v)]"] Cons.prems by (simp add: kv)
  qed simp
  then show ?thesis using assms by (simp add: dict_of_def)
qed

lemma plain_reads_back: "plain_ok v \<Longrightarrow> reads_back v"
proof (induction v)
  case PNull
  then show ?case by (simp add: reads_back_def parse_val.simps scan_atom_def literals_def lit_def)
next
  case (PBool b)
  then show ?case by (simp add: reads_back_def parse_val.simps scan_atom_def literals_def lit_def)
next
  case (PInt i)
  let ?t = "int_text i"
  obtain d u where d: "dec_digits (nat \<bar>i\<bar>) = d # u" "48 \<le> d" "d \<le> 57"
    using dec_digits_digits [of "nat \<bar>i\<bar>"]
    by (cases "dec_digits (nat \<bar>i\<bar>)") (auto simp: is_digit_def)
  have t: "?t = (if i < 0 then 45 # d # u else d # u)" using d(1) by (cases "i < 0") (simp_all add: int_text_def)
  have v: "parse_val (?t @ r) = scan_atom (?t @ r)" for r
    using t d by (subst parse_val.simps) auto
  have "find (\<lambda>(l, v). take (length l) (?t @ r) = l) literals = None" for r
    using d by (auto simp: t literals_def lit_def)
  then show ?case using v scan_num_int by (simp add: reads_back_def scan_atom_def)
next
  case (PStr t)
  then show ?case by (simp add: reads_back_def parse_val.simps json_str_def scan_str_written)
next
  case (PArr vs)
  then have vs: "list_all reads_back vs" by (auto simp: list_all_iff)
  show ?case
  proof (cases "vs = []")
    case True
    then show ?thesis by (simp add: reads_back_def parse_val.simps)
  next
    case False
    obtain w ws where w: "vs = w # ws" using False by (cases vs) auto
    let ?u = "comma_join (map json_text vs)"
    obtain c u where c: "?u = c # u" "c \<noteq> 93" "\<not> is_ws c"
      using json_text_head [of w] by (cases ws) (auto simp: w)
    have "parse_val (json_text (PArr vs) @ r) = Some (jval (PArr vs), r)" for r
      using parse_elems_written [OF vs False, of r] c by (subst parse_val.simps) simp
    then show ?thesis by (simp add: reads_back_def)
  qed
next
  case (PObj kvs)
  then have vs: "list_all (\<lambda>(k, v). list_all scalar k \<and> reads_back v) kvs"
    by (auto simp: list_all_iff)
  have m: "map (\<lambda>(k, v). json_str k @ 58 # json_text v) kvs = map member_text kvs"
    by (simp add: member_text_def case_prod_beta)
  have d: "dict_of (map (\<lambda>(k, v). (k, jval v)) kvs) = map (\<lambda>(k, v). (k, jval v)) kvs"
    using PObj.prems by (intro dict_of_distinct) (simp add: comp_def case_prod_beta)
  show ?case
  proof (cases "kvs = []")
    case True
    then show ?thesis by (simp add: reads_back_def parse_val.simps)
  next
    case False
    obtain w ws where w: "kvs = w # ws" using False by (cases kvs) auto
    obtain u where c: "comma_join (map member_text kvs) = 34 # u"
      by (cases ws) (auto simp: w member_text_def json_str_def)
    have "parse_val (json_text (PObj kvs) @ r) = Some (jval (PObj kvs), r)" for r
      using parse_members_written [OF vs False, of r] c d
      by (subst parse_val.simps) (simp add: m)
    then show ?thesis by (simp add: reads_back_def)
  qed
qed

lemma plain_ok_psort: "plain_ok v \<Longrightarrow> plain_ok (psort v)"
proof (induction v)
  case (PArr vs)
  then show ?case by (auto simp: list_all_iff)
next
  case (PObj kvs)
  let ?kvs = "map (\<lambda>(k, v). (k, psort v)) kvs"
  have "map fst ?kvs = map fst kvs" by (simp add: case_prod_beta)
  then have "distinct (map fst ?kvs)" using PObj.prems by (simp only: plain_ok.simps)
  then have "distinct (map fst (sort_key fst ?kvs))"
    by (simp only: distinct_map distinct_sort set_sort)
  moreover have "\<forall>(k, v) \<in> set ?kvs. list_all scalar k \<and> plain_ok v"
    using PObj by (auto simp: list_all_iff)
  ultimately show ?case by (simp add: list_all_iff)
qed simp_all

definition ascii :: "pystr \<Rightarrow> bool" where
  "ascii s \<longleftrightarrow> list_all (\<lambda>c. c < 128) s"

lemma ascii_append [simp]: "ascii (a @ b) \<longleftrightarrow> ascii a \<and> ascii b" "ascii (c # s) \<longleftrightarrow> c < 128 \<and> ascii s" "ascii []"
  by (auto simp: ascii_def)

lemma hex_digit_ascii: "n < 16 \<Longrightarrow> hex_digit n < 128"
  by (simp add: hex_digit_def)

lemma ascii_esc: "ascii (esc_char c)"
  by (simp add: esc_char_def hex_low_def hex_digit_ascii)

lemma ascii_json_str: "ascii (json_str t)"
  unfolding json_str_def by (induction t) (simp_all add: ascii_esc)

lemma ascii_comma_join: "list_all ascii xs \<Longrightarrow> ascii (comma_join xs)"
  by (induction xs rule: comma_join.induct) simp_all

lemma ascii_json_text: "ascii (json_text v)"
proof (induction v)
  case (PInt i)
  have "ascii (dec_digits n)" for n
    using dec_digits_digits [of n] by (auto simp: ascii_def list_all_iff is_digit_def)
  then show ?case by (simp add: int_text_def)
next
  case (PArr vs)
  then show ?case by (auto simp: list_all_iff intro!: ascii_comma_join)
next
  case (PObj kvs)
  then have "ascii (json_text v)" if "(k, v) \<in> set kvs" for k v
    using that by (metis snds.intros snd_conv)
  then show ?case by (auto simp: list_all_iff ascii_json_str intro!: ascii_comma_join)
qed (simp_all add: lit_def ascii_json_str)

lemma unat_ascii: "ascii s \<Longrightarrow> map unat (map of_nat s :: bytes) = s"
  by (induction s) simp_all

lemma json_read_written:
  assumes "plain_ok v"
  shows "json_loads (map unat (stock_json v)) = Some (jval (psort v))"
proof -
  let ?t = "json_text (psort v)"
  have "ascii (?t @ [10])" by (simp add: ascii_json_text)
  then have "map unat (stock_json v) = ?t @ [10]" unfolding stock_json_def by (rule unat_ascii)
  moreover have "parse_val (?t @ [10]) = Some (jval (psort v), [10])"
    using plain_reads_back [OF plain_ok_psort [OF assms]] by (simp add: reads_back_def num_end_def)
  moreover have "take 1 (?t @ [10]) \<noteq> [0xFEFF]"
    using ascii_json_text [of "psort v"] by (cases ?t) auto
  ultimately show ?thesis
    by (simp add: json_loads_def) (simp add: skip_ws_def is_ws_def)
qed

text \<open>
  The JSON the modem daemon writes means what it should: for every value without floats whose
  strings are well-formed and whose keys are distinct, the bytes are ASCII and reading them gives
  the value back, with the keys of every object sorted.
\<close>

theorem stock_json_roundtrip:
  assumes "plain_ok v"
  shows "json_loads (map unat (stock_json v)) = Some (jval (psort v))"
  using assms by (rule json_read_written)

lemma stock_json_roundtrip_witness:
  "json_loads (map unat (stock_json (PObj [([99], PInt (- 12)), ([97], PArr [PStr [0x20AC, 10, 0x1F600]])]))) =
     Some (JObj [([97], JArr [JStr [0x20AC, 10, 0x1F600]]), ([99], JInt (- 12))])"
  using stock_json_roundtrip [of "PObj [([99], PInt (- 12)), ([97], PArr [PStr [0x20AC, 10, 0x1F600]])]"]
  by (simp add: scalar_def is_high_def is_low_def)

end
