(* ===== verification/Phone_Decoders.thy ===== *)
theory Phone_Decoders
  imports Ipc_Link Json_Wire
begin

text \<open>
  The frame decoders of \<^verbatim>\<open>phoned/s22-phoned.py\<close> (\<open>_json\<close>, \<open>dec_*\<close>, \<open>describe\<close>) and the JSON
  bodies it sends for mobile data. \<open>describe\<close> turns every exception of a decoder into a missing
  result, so a decoder is a function to \<open>option\<close>, with \<open>None\<close> for a raise.

  Values that come from JSON keep the type \<open>json\<close>; a decoder's Python dictionary is a record, or a
  \<open>JObj\<close> where the source passes the decoded object on. \<open>str\<close> of a float or of a container is a
  parameter (\<open>pstr\<close>) where the source calls it.
\<close>

section \<open>UTF-8\<close>

text \<open>
  \<open>bytes.decode("utf-8")\<close>: one entry per character, \<open>None\<close> for each maximal part that is not valid.
  The strict decoder raises on a \<open>None\<close>, \<open>"replace"\<close> writes U+FFFD for it.
\<close>

definition cont :: "byte \<Rightarrow> bool" where
  "cont b \<longleftrightarrow> 0x80 \<le> b \<and> b \<le> 0xBF"

text \<open>The range of the second byte after a first byte, and the number of bytes that follow it.\<close>

definition utf8_lead :: "byte \<Rightarrow> (byte \<times> byte \<times> nat) option" where
  "utf8_lead b =
     (if 0xC2 \<le> b \<and> b \<le> 0xDF then Some (0x80, 0xBF, 1)
      else if b = 0xE0 then Some (0xA0, 0xBF, 2)
      else if b = 0xED then Some (0x80, 0x9F, 2)
      else if 0xE1 \<le> b \<and> b \<le> 0xEF then Some (0x80, 0xBF, 2)
      else if b = 0xF0 then Some (0x90, 0xBF, 3)
      else if b = 0xF4 then Some (0x80, 0x8F, 3)
      else if 0xF1 \<le> b \<and> b \<le> 0xF3 then Some (0x80, 0xBF, 3)
      else None)"

text \<open>The valid continuation bytes at the front, at most \<open>n\<close>, the first in \<open>lo..hi\<close>.\<close>

fun utf8_conts :: "byte \<Rightarrow> byte \<Rightarrow> nat \<Rightarrow> bytes \<Rightarrow> bytes" where
  "utf8_conts lo hi 0 s = []"
| "utf8_conts lo hi (Suc n) [] = []"
| "utf8_conts lo hi (Suc n) (b # s) =
     (if lo \<le> b \<and> b \<le> hi then b # utf8_conts 0x80 0xBF n s else [])"

definition utf8_value :: "byte \<Rightarrow> bytes \<Rightarrow> nat" where
  "utf8_value b cs =
     foldl (\<lambda>v c. v * 64 + unat c mod 64)
       (if length cs = 1 then unat b mod 32 else if length cs = 2 then unat b mod 16 else unat b mod 8) cs"

function utf8_chars :: "bytes \<Rightarrow> nat option list" where
  "utf8_chars s =
     (case s of
        [] \<Rightarrow> []
      | b # r \<Rightarrow>
          if b < 0x80 then Some (unat b) # utf8_chars r
          else (case utf8_lead b of
                  None \<Rightarrow> None # utf8_chars r
                | Some (lo, hi, n) \<Rightarrow>
                    (let cs = utf8_conts lo hi n r in
                     (if length cs = n then Some (utf8_value b cs) else None) #
                       utf8_chars (drop (length cs) r))))"
  by pat_completeness auto
termination by (relation "measure length") auto

declare utf8_chars.simps [simp del]

definition utf8_replace :: "bytes \<Rightarrow> pystr" where
  "utf8_replace s = map (\<lambda>c. case c of Some x \<Rightarrow> x | None \<Rightarrow> 0xFFFD) (utf8_chars s)"

definition utf8_strict :: "bytes \<Rightarrow> pystr option" where
  "utf8_strict s = (if None \<in> set (utf8_chars s) then None else Some (map the (utf8_chars s)))"

section \<open>JSON access\<close>

text \<open>\<open>_json\<close>: only text that starts with a brace, up to the first NUL.\<close>

definition frame_json :: "bytes \<Rightarrow> json option" where
  "frame_json d =
     (if take 1 d = [0x7B] then json_loads (utf8_replace (takeWhile (\<lambda>b. b \<noteq> 0) d)) else None)"

definition jfields :: "json \<Rightarrow> (pystr \<times> json) list" where
  "jfields j = (case j of JObj kvs \<Rightarrow> kvs | _ \<Rightarrow> [])"

definition is_obj :: "json \<Rightarrow> bool" where
  "is_obj j = (case j of JObj _ \<Rightarrow> True | _ \<Rightarrow> False)"

text \<open>\<open>j.get(k, d)\<close> and \<open>j.get(k)\<close>, with \<open>None\<close> as \<open>JNull\<close>.\<close>

definition jget_or :: "json \<Rightarrow> string \<Rightarrow> json \<Rightarrow> json" where
  "jget_or j k d = (case map_of (jfields j) (lit k) of Some v \<Rightarrow> v | None \<Rightarrow> d)"

definition jget :: "json \<Rightarrow> string \<Rightarrow> json" where
  "jget j k = jget_or j k JNull"

text \<open>\<open>isinstance(v, int)\<close> holds for booleans too; \<open>v == n\<close> for numbers of any kind.\<close>

definition as_int :: "json \<Rightarrow> int option" where
  "as_int v = (case v of JInt i \<Rightarrow> Some i | JBool b \<Rightarrow> Some (of_bool b) | _ \<Rightarrow> None)"

definition eq_int :: "json \<Rightarrow> int \<Rightarrow> bool" where
  "eq_int v n = (case v of JInt i \<Rightarrow> i = n | JBool b \<Rightarrow> of_bool b = n | JFloat q \<Rightarrow> q = of_int n | _ \<Rightarrow> False)"

definition as_str :: "json \<Rightarrow> pystr option" where
  "as_str v = (case v of JStr t \<Rightarrow> Some t | _ \<Rightarrow> None)"

text \<open>Python's truth value.\<close>

definition truthy :: "json \<Rightarrow> bool" where
  "truthy v = (case v of JNull \<Rightarrow> False | JBool b \<Rightarrow> b | JInt i \<Rightarrow> i \<noteq> 0 | JFloat q \<Rightarrow> q \<noteq> 0
     | JNaN \<Rightarrow> True | JInf _ \<Rightarrow> True | JStr t \<Rightarrow> t \<noteq> [] | JArr vs \<Rightarrow> vs \<noteq> [] | JObj kvs \<Rightarrow> kvs \<noteq> [])"

definition u8 :: "bytes \<Rightarrow> nat \<Rightarrow> nat option" where
  "u8 d i = (if i < length d then Some (unat (d ! i)) else None)"

definition u16 :: "bytes \<Rightarrow> nat \<Rightarrow> nat" where
  "u16 d i = from_bytes_le (py_slice i (i + 2) d)"

section \<open>The SIM\<close>

record sim_info =
  si_status :: "int option"
  si_fac :: "int option"

definition dec_sim :: "bytes \<Rightarrow> sim_info option" where
  "dec_sim d =
     (case frame_json d of
        Some j \<Rightarrow>
          Some \<lparr>si_status =
                  (case List.map_filter (\<lambda>k. as_int (jget j k)) [''sim_status'', ''status'', ''card_status'', ''pin_status''] of
                     [] \<Rightarrow> None | i # _ \<Rightarrow> Some i),
                si_fac = as_int (jget j ''facility_lock'')\<rparr>
      | None \<Rightarrow>
          (case u8 d 0 of
             None \<Rightarrow> None
           | Some s \<Rightarrow> Some \<lparr>si_status = Some (int s), si_fac = map_option int (u8 d 1)\<rparr>))"

definition SIM_STATUS :: "int \<Rightarrow> string option" where
  "SIM_STATUS = map_of [(0x00, ''READY''), (0x01, ''SIM_LOCK_REQUIRED''), (0x02, ''INSIDE_PF_ERROR''),
     (0x03, ''LOCK_SC(PIN)''), (0x04, ''LOCK_FD''), (0x05, ''LOCK_PN''), (0x06, ''LOCK_PU''),
     (0x07, ''LOCK_PP''), (0x08, ''LOCK_PC''), (0x80, ''CARD_NOT_PRESENT''),
     (0x81, ''CARD_ERROR''), (0x82, ''INIT_COMPLETE''), (0x83, ''PB_INIT_COMPLETE'')]"

definition SIM_USABLE :: "pystr set" where
  "SIM_USABLE = {lit ''READY'', lit ''INIT_COMPLETE'', lit ''PB_INIT_COMPLETE''}"

definition FAC_PIN1 :: int where "FAC_PIN1 = 0x01"
definition FAC_PUK :: int where "FAC_PUK = 0x02"
definition FAC_BLOCKED :: int where "FAC_BLOCKED = 0x05"

text \<open>\<open>f"{i:02x}"\<close>: the sign counts towards the width.\<close>

fun hex_digits :: "nat \<Rightarrow> pystr" where
  "hex_digits n = (if n < 16 then [hex_digit n] else hex_digits (n div 16) @ [hex_digit (n mod 16)])"

declare hex_digits.simps [simp del]

definition hex02 :: "int \<Rightarrow> pystr" where
  "hex02 i = (let ds = hex_digits (nat \<bar>i\<bar>) in
     if i < 0 then 45 # ds else replicate (2 - length ds) 48 @ ds)"

definition sim_name :: "int option \<Rightarrow> int option \<Rightarrow> pystr" where
  "sim_name status fac =
     (case status of
        None \<Rightarrow> lit ''UNKNOWN''
      | Some s \<Rightarrow>
          if s = 0x03 \<and> fac = Some FAC_PUK then lit ''LOCK_SC(PUK)''
          else if s = 0x03 \<and> fac = Some FAC_BLOCKED then lit ''BLOCKED''
          else (case SIM_STATUS s of Some nm \<Rightarrow> lit nm | None \<Rightarrow> lit ''0x'' @ hex02 s))"

section \<open>Network\<close>

definition dec_regist :: "bytes \<Rightarrow> json option" where
  "dec_regist d =
     (case frame_json d of
        Some j \<Rightarrow> Some j
      | None \<Rightarrow>
          if length d < 10 then None
          else
            (let act = unat (d ! 0); dom = unat (d ! 1); st = unat (d ! 2);
                 name = (\<lambda>tab n. case map_of tab n of Some s \<Rightarrow> JStr (lit s) | None \<Rightarrow> JInt (int n))
             in Some (JObj
               [(lit ''act'', name [(0, ''gsm''), (1, ''gsm''), (2, ''gprs''), (3, ''edge''), (4, ''umts''), (0xFF, ''unknown'')] act),
                (lit ''domain'', name [(2, ''cs''), (3, ''ps'')] dom),
                (lit ''reg_status'', name [(1, ''none''), (2, ''home''), (3, ''searching''), (4, ''emergency''), (5, ''unknown''), (6, ''roaming'')] st),
                (lit ''edge'', JInt (int (unat (d ! 3)))),
                (lit ''lac'', JInt (int (u16 d 4))),
                (lit ''cid'', JInt (int (from_bytes_le (py_slice 6 10 d)))),
                (lit ''rej_cause'', case u8 d 10 of Some c \<Rightarrow> JInt (int c) | None \<Rightarrow> JNull)])))"

text \<open>\<open>_find_key\<close>: breadth first; \<open>o.get(k) not in (None, "", 0)\<close>.\<close>

definition nonempty :: "json \<Rightarrow> bool" where
  "nonempty v \<longleftrightarrow> v \<noteq> JNull \<and> v \<noteq> JStr [] \<and> \<not> eq_int v 0"

lemma sum_size_fields: "sum_list (map (\<lambda>v. Suc (size v)) (map snd (jfields j))) < Suc (size j)"
proof -
  have "sum_list (map (\<lambda>v. Suc (size v)) (map snd kvs)) < Suc (size (JObj kvs))" for kvs
    by (induction kvs) auto
  then show ?thesis by (cases j) (simp_all add: jfields_def)
qed

function find_key :: "string list \<Rightarrow> json list \<Rightarrow> json option" where
  "find_key keys [] = None"
| "find_key keys (j # q) =
     (case find nonempty (map (jget j) keys) of
        Some v \<Rightarrow> Some v
      | None \<Rightarrow> find_key keys (q @ map snd (jfields j)))"
  by pat_completeness auto
termination
  by (relation "measure (\<lambda>(keys, q). sum_list (map (\<lambda>v. Suc (size v)) q))")
    (use sum_size_fields in \<open>auto simp: add.commute\<close>)

definition PLMN_NAMES :: "pystr \<Rightarrow> pystr option" where
  "PLMN_NAMES = map_of (map (\<lambda>(p, n). (lit p, lit n))
     [(''20201'', ''Cosmote''), (''20205'', ''Vodafone GR''), (''20209'', ''Nova (Wind)''), (''20210'', ''Nova (Wind)'')])"

record plmn_info =
  pl_operator :: "pystr option"
  pl_plmn :: "pystr option"

definition ascii_digit :: "nat \<Rightarrow> bool" where
  "ascii_digit c \<longleftrightarrow> 48 \<le> c \<and> c \<le> 57"

text \<open>\<open>a or b or c\<close> on optional strings: the first that is neither \<open>None\<close> nor empty, else the last.\<close>

fun first_str :: "pystr option list \<Rightarrow> pystr option" where
  "first_str [] = None"
| "first_str [x] = x"
| "first_str (x # y # xs) = (if x \<noteq> None \<and> x \<noteq> Some [] then x else first_str (y # xs))"

text \<open>\<open>re.search(rb"[0-9]{5,6}", d)\<close>: the first run of five digits, six when there are.\<close>

fun find_plmn :: "pystr \<Rightarrow> pystr option" where
  "find_plmn [] = None"
| "find_plmn (c # s) =
     (if 5 \<le> length (c # s) \<and> list_all ascii_digit (take 5 (c # s))
      then Some (takeWhile ascii_digit (take 6 (c # s)))
      else find_plmn s)"

text \<open>\<open>str(v)\<close>; floats and containers are the parameter's.\<close>

definition py_str :: "(json \<Rightarrow> pystr) \<Rightarrow> json \<Rightarrow> pystr" where
  "py_str pstr v =
     (case v of JNull \<Rightarrow> lit ''None'' | JBool b \<Rightarrow> (if b then lit ''True'' else lit ''False'')
      | JInt i \<Rightarrow> int_text i | JStr t \<Rightarrow> t | JNaN \<Rightarrow> lit ''nan''
      | JInf b \<Rightarrow> (if b then lit ''inf'' else lit ''-inf'') | _ \<Rightarrow> pstr v)"

definition dec_plmn :: "(json \<Rightarrow> pystr) \<Rightarrow> bytes \<Rightarrow> plmn_info option" where
  "dec_plmn pstr d =
     (case frame_json d of
        Some j \<Rightarrow>
          (let name = (case find_key [''long_name'', ''short_name'', ''operator'', ''name'', ''spn''] [j] of
                         Some v \<Rightarrow> as_str v | None \<Rightarrow> None);
               plmn = (case find_key [''plmn'', ''mcc_mnc'', ''mccmnc''] [j] of
                         Some v \<Rightarrow> (let ds = filter ascii_digit (py_str pstr v) in if ds = [] then None else Some ds)
                       | None \<Rightarrow> None)
           in Some \<lparr>pl_operator = first_str [name, Option.bind plmn PLMN_NAMES, plmn], pl_plmn = plmn\<rparr>)
      | None \<Rightarrow>
          (let plmn = find_plmn (map unat d)
           in Some \<lparr>pl_operator = first_str [Option.bind plmn PLMN_NAMES, plmn], pl_plmn = plmn\<rparr>))"

section \<open>Calls\<close>

record call_noti =
  cn_id :: json
  cn_status :: json
  cn_end_cause :: json

definition json_u8 :: "nat option \<Rightarrow> json" where
  "json_u8 x = (case x of Some n \<Rightarrow> JInt (int n) | None \<Rightarrow> JNull)"

definition dec_call_incoming :: "bytes \<Rightarrow> call_noti option" where
  "dec_call_incoming d =
     (case frame_json d of
        Some j \<Rightarrow> Some \<lparr>cn_id = jget_or j ''id'' (jget j ''call_id''), cn_status = JNull, cn_end_cause = JNull\<rparr>
      | None \<Rightarrow>
          (if length d < 3 then None
           else Some \<lparr>cn_id = json_u8 (u8 d 2), cn_status = JNull, cn_end_cause = JNull\<rparr>))"

definition dec_call_status :: "bytes \<Rightarrow> call_noti option" where
  "dec_call_status d =
     (case frame_json d of
        Some j \<Rightarrow> Some \<lparr>cn_id = jget_or j ''id'' (jget j ''call_id''), cn_status = jget j ''status'',
                        cn_end_cause = jget j ''end_cause''\<rparr>
      | None \<Rightarrow>
          (if length d < 4 then None
           else Some \<lparr>cn_id = json_u8 (u8 d 2), cn_status = json_u8 (u8 d 3), cn_end_cause = json_u8 (u8 d 5)\<rparr>))"

definition CALL_LIST_STATE :: "nat \<Rightarrow> string option" where
  "CALL_LIST_STATE = map_of [(1, ''active''), (2, ''holding''), (3, ''dialing''), (4, ''alerting''),
     (5, ''incoming''), (6, ''waiting'')]"

definition ascii_replace :: "bytes \<Rightarrow> pystr" where
  "ascii_replace d = map (\<lambda>b. if b < 0x80 then unat b else 0xFFFD) d"

definition call_entry :: "bytes \<Rightarrow> json" where
  "call_entry e =
     JObj [(lit ''id'', json_u8 (u8 e 2)), (lit ''type'', json_u8 (u8 e 1)),
           (lit ''direction'', JStr (if e ! 3 = 1 then lit ''out'' else lit ''in'')),
           (lit ''state'', JStr (case CALL_LIST_STATE (unat (e ! 4)) of Some s \<Rightarrow> lit s
                                 | None \<Rightarrow> lit ''0x'' @ hex02 (int (unat (e ! 4))))),
           (lit ''mpty'', json_u8 (u8 e 5)),
           (lit ''number'', JStr (ascii_replace (takeWhile (\<lambda>b. b \<noteq> 0) (py_slice 8 (8 + unat (e ! 6)) e))))]"

text \<open>The loop over \<open>count\<close> entries; the unpacking of eight bytes raises when fewer are left.\<close>

fun call_entries :: "nat \<Rightarrow> bytes \<Rightarrow> json list option" where
  "call_entries 0 d = Some []"
| "call_entries (Suc n) d =
     (if length d < 8 then None
      else map_option (\<lambda>cs. call_entry d # cs) (call_entries n (drop (8 + unat (d ! 6)) d)))"

definition dec_call_list :: "bytes \<Rightarrow> json option" where
  "dec_call_list d =
     (case frame_json d of
        Some j \<Rightarrow> Some (jget_or j ''calls'' (JArr []))
      | None \<Rightarrow> (case d of [] \<Rightarrow> None | c # r \<Rightarrow> map_option JArr (call_entries (unat c) r)))"

section \<open>SMS\<close>

record sms_in =
  sn_type :: nat
  sn_sim_index :: nat
  sn_id :: nat
  sn_sms :: "sms option"

definition dec_sms_incoming :: "bytes \<Rightarrow> sms_in option" where
  "dec_sms_incoming d =
     (if length d < 6 then None
      else (let pdu = py_slice 6 (6 + unat (d ! 5)) d in
        Some \<lparr>sn_type = unat (d ! 1), sn_sim_index = u16 d 2, sn_id = unat (d ! 4),
              sn_sms = (case decode_pdu pdu True of
                          Inr m \<Rightarrow> Some m
                        | Inl _ \<Rightarrow> (case decode_pdu pdu False of Inr m \<Rightarrow> Some m | Inl _ \<Rightarrow> None))\<rparr>))"

record sms_ack =
  sa_type :: nat
  sa_ack :: nat
  sa_id :: nat

definition sa_ok :: "sms_ack \<Rightarrow> bool" where
  "sa_ok a \<longleftrightarrow> sa_ack a = 0"

definition dec_sms_send :: "bytes \<Rightarrow> sms_ack option" where
  "dec_sms_send d =
     (if length d < 4 then None
      else Some \<lparr>sa_type = unat (d ! 0), sa_ack = u16 d 1, sa_id = unat (d ! 3)\<rparr>)"

definition dec_sms_stored_slots :: "bytes \<Rightarrow> nat" where
  "dec_sms_stored_slots d = (case u8 d 1 of Some n \<Rightarrow> n | None \<Rightarrow> 0)"

record sms_slot =
  sl_empty :: bool
  sl_sms :: "sms option"

definition dec_sms_read :: "bytes \<Rightarrow> sms_slot option" where
  "dec_sms_read d =
     (if length d < 5 then None
      else (let status = d ! 3; len = d ! 4 in
        if status = 0 \<or> len = 0 then Some \<lparr>sl_empty = True, sl_sms = None\<rparr>
        else Some \<lparr>sl_empty = False,
                   sl_sms = (case decode_pdu (py_slice 5 (5 + unat len) d) True of
                               Inr m \<Rightarrow> Some m | Inl _ \<Rightarrow> None)\<rparr>))"

definition dec_svc_center :: "bytes \<Rightarrow> bytes option" where
  "dec_svc_center d = (case d of [] \<Rightarrow> None | n # r \<Rightarrow> Some (take (unat n) r))"

section \<open>Radio\<close>

definition NR_MODE_BITS :: "(nat \<times> string) list" where
  "NR_MODE_BITS = [(0x01, ''gsm''), (0x02, ''wcdma''), (0x04, ''cdma''), (0x08, ''lte''),
     (0x10, ''tdscdma''), (0x20, ''evdo''), (0x40, ''nr'')]"

text \<open>\<open>value & bit\<close> on Python's integers (two's complement for negative ones).\<close>

definition mode_select_rats :: "json \<Rightarrow> string list option" where
  "mode_select_rats v =
     map_option (\<lambda>i. map snd (filter (\<lambda>(b, _). i AND int b \<noteq> 0) NR_MODE_BITS)) (as_int v)"

record nr_cell =
  nc_act :: json
  nc_band :: json
  nc_conn :: json
  nc_dl :: json

record phys_info =
  ph_cells :: "nr_cell list"
  ph_nr_nsa :: bool

text \<open>Iteration over a value, and whether it can be a dictionary key; both raise \<open>TypeError\<close> otherwise.\<close>

definition iter_json :: "json \<Rightarrow> json list option" where
  "iter_json v =
     (case v of JArr vs \<Rightarrow> Some vs | JObj kvs \<Rightarrow> Some (map (\<lambda>(k, _). JStr k) kvs)
      | JStr t \<Rightarrow> Some (map (\<lambda>c. JStr [c]) t) | _ \<Rightarrow> None)"

definition hashable :: "json \<Rightarrow> bool" where
  "hashable v = (case v of JArr _ \<Rightarrow> False | JObj _ \<Rightarrow> False | _ \<Rightarrow> True)"

definition is_num :: "json \<Rightarrow> bool" where
  "is_num v = (case v of JBool _ \<Rightarrow> True | JInt _ \<Rightarrow> True | JFloat _ \<Rightarrow> True | JNaN \<Rightarrow> True | JInf _ \<Rightarrow> True
     | _ \<Rightarrow> False)"

definition PCH_CONN_STATE :: "json \<Rightarrow> json" where
  "PCH_CONN_STATE v =
     (if eq_int v 0 then JStr (lit ''none'') else if eq_int v 1 then JStr (lit ''primary'')
      else if eq_int v 2 then JStr (lit ''secondary'') else v)"

definition phys_cell :: "json \<Rightarrow> nr_cell" where
  "phys_cell c =
     \<lparr>nc_act = jget c ''act'',
      nc_band = jget (if is_obj (jget c ''band'') then jget c ''band'' else JObj []) ''band'',
      nc_conn = PCH_CONN_STATE (jget c ''conn_state''), nc_dl = jget c ''dlbw''\<rparr>"

text \<open>
  What the summary fields of the result need: the bands of the \<open>nr\<close> cells form a sortable set, the
  bandwidths of the connected cells are numbers.
\<close>

definition phys_summable :: "nr_cell list \<Rightarrow> bool" where
  "phys_summable cells \<longleftrightarrow>
     (let bands = filter (\<lambda>v. v \<noteq> JNull) (map nc_band (filter (\<lambda>c. nc_act c = JStr (lit ''nr'')) cells)) in
      list_all hashable bands \<and>
      (list_all is_num bands \<or> list_all (\<lambda>v. as_str v \<noteq> None) bands)) \<and>
     list_all (\<lambda>c. nc_conn c \<in> {JStr (lit ''primary''), JStr (lit ''secondary'')} \<and> truthy (nc_dl c) \<longrightarrow>
                 is_num (nc_dl c)) cells"

definition dec_phys_channels :: "bytes \<Rightarrow> phys_info option" where
  "dec_phys_channels d =
     (case frame_json d of
        None \<Rightarrow> None
      | Some j \<Rightarrow>
          (case (if truthy (jget j ''pch'') then iter_json (jget j ''pch'') else Some []) of
             None \<Rightarrow> None
           | Some cs \<Rightarrow>
               (let objs = filter is_obj cs; cells = map phys_cell objs in
                if \<not> list_all (\<lambda>c. hashable (jget c ''conn_state'')) objs \<or> \<not> phys_summable cells then None
                else Some \<lparr>ph_cells = cells,
                       ph_nr_nsa = (list_ex (\<lambda>c. nc_act c = JStr (lit ''nr'')) cells \<and>
                                    list_ex (\<lambda>c. nc_act c = JStr (lit ''lte'')) cells)\<rparr>)))"

section \<open>Mobile data bodies\<close>

definition alnum :: "nat \<Rightarrow> bool" where
  "alnum c \<longleftrightarrow> 48 \<le> c \<and> c \<le> 57 \<or> 65 \<le> c \<and> c \<le> 90 \<or> 97 \<le> c \<and> c \<le> 122"

text \<open>\<open>^[A-Za-z0-9][A-Za-z0-9.\-]{0,99}$\<close>: Python's \<open>$\<close> also matches before a final newline.\<close>

definition apn_match :: "pystr \<Rightarrow> bool" where
  "apn_match s =
     (let core = (if s \<noteq> [] \<and> last s = 10 then butlast s else s) in
      core \<noteq> [] \<and> alnum (hd core) \<and> length core \<le> 100 \<and>
      list_all (\<lambda>c. alnum c \<or> c = 46 \<or> c = 45) core)"

definition define_pdp_body :: "int \<Rightarrow> pystr \<Rightarrow> pyerr + bytes" where
  "define_pdp_body cid apn =
     (if \<not> apn_match apn then Inl ValueError
      else Inr (stock_json (PObj [(lit ''ap_pco'', PArr [PInt 0]), (lit ''apn'', PStr apn),
        (lit ''cid'', PInt cid), (lit ''pdp_type'', PInt 2)])))"

definition pdp_state_body :: "int \<Rightarrow> bool \<Rightarrow> bytes" where
  "pdp_state_body cid up =
     stock_json (PObj [(lit ''auth_type'', PInt 0), (lit ''cid'', PInt cid), (lit ''reason'', PInt 0),
       (lit ''state'', PInt (if up then 1 else 0))])"

definition lte_attach_apn_body :: "pystr \<Rightarrow> nat \<Rightarrow> pyerr + bytes" where
  "lte_attach_apn_body apn profile_id =
     (if apn \<noteq> [] \<and> \<not> apn_match apn then Inl ValueError
      else if 255 < profile_id then Inl ValueError
      else Inr ([1, of_nat profile_id, 2] @ map of_nat apn @ replicate (101 - length apn) 0 @
             replicate (16 + 4 + 2 + 1) 0 @ replicate 32 0 @ replicate 32 0 @ [0, 2, 0]))"

definition is_pdp_deactivate :: "bytes \<Rightarrow> bool" where
  "is_pdp_deactivate d =
     (case Option.bind (utf8_strict d) json_loads of
        Some v \<Rightarrow> is_obj v \<and> eq_int (jget v ''state'') 0 \<and> as_int (jget v ''cid'') \<noteq> None
      | None \<Rightarrow> False)"

section \<open>What a frame decodes to\<close>

datatype decoded =
    DGen gen_res | DSim sim_info | DRegist json | DPlmn plmn_info | DCallIncoming call_noti
  | DCallStatus call_noti | DCallList json | DSmsIncoming sms_in | DSmsAck sms_ack | DSmsc bytes
  | DPhys phys_info | DJson json | DOther

definition SEC_PIN_STATUS :: "byte \<times> byte" where "SEC_PIN_STATUS = (5, 1)"
definition NET_CURRENT_PLMN :: "byte \<times> byte" where "NET_CURRENT_PLMN = (8, 3)"
definition NET_REGIST :: "byte \<times> byte" where "NET_REGIST = (8, 5)"
definition NET_SERVING_NETWORK :: "byte \<times> byte" where "NET_SERVING_NETWORK = (8, 8)"
definition NET_MODE_SELECT :: "byte \<times> byte" where "NET_MODE_SELECT = (8, 0x0A)"
definition NET_PHYS_CHANNEL_CONFIG :: "byte \<times> byte" where "NET_PHYS_CHANNEL_CONFIG = (8, 0x3C)"
definition DISP_ICON_INFO :: "byte \<times> byte" where "DISP_ICON_INFO = (7, 1)"
definition DISP_RSSI_INFO :: "byte \<times> byte" where "DISP_RSSI_INFO = (7, 6)"
definition CALL_OUTGOING :: "byte \<times> byte" where "CALL_OUTGOING = (2, 1)"
definition CALL_INCOMING :: "byte \<times> byte" where "CALL_INCOMING = (2, 2)"
definition CALL_RELEASE :: "byte \<times> byte" where "CALL_RELEASE = (2, 3)"
definition CALL_ANSWER :: "byte \<times> byte" where "CALL_ANSWER = (2, 4)"
definition CALL_STATUS :: "byte \<times> byte" where "CALL_STATUS = (2, 5)"
definition CALL_LIST :: "byte \<times> byte" where "CALL_LIST = (2, 6)"
definition CALL_BURST_DTMF :: "byte \<times> byte" where "CALL_BURST_DTMF = (2, 7)"
definition SMS_SEND_MSG :: "byte \<times> byte" where "SMS_SEND_MSG = (4, 1)"
definition SMS_INCOMING_MSG :: "byte \<times> byte" where "SMS_INCOMING_MSG = (4, 2)"
definition SMS_READ_MSG :: "byte \<times> byte" where "SMS_READ_MSG = (4, 3)"
definition SMS_DEL_MSG :: "byte \<times> byte" where "SMS_DEL_MSG = (4, 5)"
definition SMS_DELIVER_REPORT :: "byte \<times> byte" where "SMS_DELIVER_REPORT = (4, 6)"
definition SMS_DEVICE_READY :: "byte \<times> byte" where "SMS_DEVICE_READY = (4, 7)"
definition SMS_STORED_MSG_COUNT :: "byte \<times> byte" where "SMS_STORED_MSG_COUNT = (4, 9)"
definition SMS_SVC_CENTER_ADDR :: "byte \<times> byte" where "SMS_SVC_CENTER_ADDR = (4, 0x0A)"
definition SMS_MEM_STATUS :: "byte \<times> byte" where "SMS_MEM_STATUS = (4, 0x0C)"
definition GPRS_DEFINE_PDP_CONTEXT :: "byte \<times> byte" where "GPRS_DEFINE_PDP_CONTEXT = (0x0D, 0x01)"
definition GPRS_PDP_CONTEXT :: "byte \<times> byte" where "GPRS_PDP_CONTEXT = (0x0D, 0x04)"
definition GPRS_IP_CONFIGURATION :: "byte \<times> byte" where "GPRS_IP_CONFIGURATION = (0x0D, 0x09)"
definition GPRS_CALL_STATUS :: "byte \<times> byte" where "GPRS_CALL_STATUS = (0x0D, 0x10)"
definition GPRS_LTE_ATTACH_APN_INFO :: "byte \<times> byte" where "GPRS_LTE_ATTACH_APN_INFO = (0x0D, 0x14)"
definition CFG_JSON_CMD_LIST :: "byte \<times> byte" where "CFG_JSON_CMD_LIST = (0x0F, 0x3B)"
definition PWR_PHONE_STATE :: "byte \<times> byte" where "PWR_PHONE_STATE = (0x01, 0x08)"

text \<open>
  \<open>describe(frame).get("decoded")\<close>. The decoders whose results only the display reads (signal, icon,
  network mode, stored-message count, slot contents) are \<open>DOther\<close> here.
\<close>

definition frame_decoded :: "(json \<Rightarrow> pystr) \<Rightarrow> frame \<Rightarrow> decoded option" where
  "frame_decoded pstr fr =
     (let d = payload fr; c = cmd fr in
      if d = [] then None
      else if c = GEN_PHONE_RES then (if length d < 5 then None else Some (DGen (dec_gen d)))
      else if c = SEC_PIN_STATUS then map_option DSim (dec_sim d)
      else if c = NET_REGIST then map_option DRegist (dec_regist d)
      else if c = NET_CURRENT_PLMN \<or> c = NET_SERVING_NETWORK then map_option DPlmn (dec_plmn pstr d)
      else if c = CALL_INCOMING then map_option DCallIncoming (dec_call_incoming d)
      else if c = CALL_STATUS then map_option DCallStatus (dec_call_status d)
      else if c = CALL_LIST then map_option DCallList (dec_call_list d)
      else if c = SMS_INCOMING_MSG then map_option DSmsIncoming (dec_sms_incoming d)
      else if c = SMS_SEND_MSG then map_option DSmsAck (dec_sms_send d)
      else if c = SMS_SVC_CENTER_ADDR then map_option DSmsc (dec_svc_center d)
      else if c = NET_PHYS_CHANNEL_CONFIG then map_option DPhys (dec_phys_channels d)
      else if c \<in> {DISP_RSSI_INFO, DISP_ICON_INFO, NET_MODE_SELECT, SMS_STORED_MSG_COUNT, SMS_READ_MSG}
      then Some DOther
      else if take 1 d = [0x7B] then Some (DJson (case frame_json d of Some j \<Rightarrow> j | None \<Rightarrow> JNull))
      else None)"

section \<open>The bodies mean what they should\<close>

lemma utf8_ascii: "list_all (\<lambda>b. b < 0x80) s \<Longrightarrow> utf8_chars s = map (\<lambda>b. Some (unat b)) s"
  by (induction s) (subst utf8_chars.simps; simp)+

lemma utf8_strict_ascii:
  assumes "list_all (\<lambda>b. b < 0x80) s"
  shows "utf8_strict s = Some (map unat s)"
  using utf8_ascii [OF assms] by (auto simp: utf8_strict_def)

lemma stock_json_ascii: "list_all (\<lambda>b. b < 0x80) (stock_json v)"
proof -
  have "ascii s \<Longrightarrow> list_all (\<lambda>b. b < (0x80 :: byte)) (map of_nat s)" for s
    by (induction s) (auto simp: word_less_nat_alt)
  then show ?thesis by (simp only: stock_json_def) (simp add: ascii_json_text)
qed

lemma state_body_reads:
  "json_loads (map unat (pdp_state_body cid up)) = Some (JObj [(lit ''auth_type'', JInt 0), (lit ''cid'', JInt cid),
     (lit ''reason'', JInt 0), (lit ''state'', JInt (if up then 1 else 0))])"
proof -
  let ?v = "PObj [(lit ''auth_type'', PInt 0), (lit ''cid'', PInt cid), (lit ''reason'', PInt 0),
       (lit ''state'', PInt (if up then 1 else 0))]"
  have "plain_ok ?v" by (simp add: lit_def scalar_def is_high_def is_low_def)
  then have r: "json_loads (map unat (stock_json ?v)) = Some (jval (psort ?v))" by (rule json_read_written)
  have "jval (psort ?v) = JObj [(lit ''auth_type'', JInt 0), (lit ''cid'', JInt cid), (lit ''reason'', JInt 0),
       (lit ''state'', JInt (if up then 1 else 0))]"
    by (simp add: lit_def)
  with r show ?thesis by (simp add: pdp_state_body_def)
qed

lemma deactivate_body: "is_pdp_deactivate (pdp_state_body cid up) \<longleftrightarrow> \<not> up"
proof -
  have "utf8_strict (pdp_state_body cid up) = Some (map unat (pdp_state_body cid up))"
    unfolding pdp_state_body_def by (rule utf8_strict_ascii [OF stock_json_ascii])
  then show ?thesis
    by (simp add: is_pdp_deactivate_def state_body_reads is_obj_def jget_def jget_or_def jfields_def eq_int_def as_int_def lit_def)
qed

text \<open>
  The body that deactivates a data connection, and no body that activates one, is recognised as
  a deactivation, for every context id.
\<close>

theorem pdp_deactivate_exact: "is_pdp_deactivate (pdp_state_body cid up) \<longleftrightarrow> \<not> up"
  by (rule deactivate_body)

text \<open>
  The attach profile has its fixed layout: 194 octets, the type, profile and protocol first, and
  the access point name NUL-terminated in its field of 101 octets, for every name without a final
  newline that the check accepts.
\<close>

theorem lte_attach_layout:
  assumes "lte_attach_apn_body apn pid = Inr b" and "apn = [] \<or> last apn \<noteq> 10"
  shows "length b = 194 \<and> b ! 0 = 1 \<and> unat (b ! 1) = pid \<and> b ! 2 = 2 \<and> b ! 103 = 0 \<and>
    map unat (takeWhile (\<lambda>x. x \<noteq> 0) (py_slice 3 104 b)) = apn"
proof -
  have apn: "length apn \<le> 100" "list_all (\<lambda>c. 0 < c \<and> c < 128) apn" and pid: "pid < 256"
    using assms by (auto simp: lte_attach_apn_body_def apn_match_def alnum_def Let_def list_all_iff split: if_splits)
  let ?pad = "replicate (101 - length apn) (0 :: byte)"
  let ?rest = "replicate (16 + 4 + 2 + 1) (0 :: byte) @ replicate 32 0 @ replicate 32 0 @ [0, 2, 0]"
  have b: "b = [1, of_nat pid, 2] @ (map of_nat apn @ ?pad) @ ?rest"
    using assms(1) by (simp add: lte_attach_apn_body_def split: if_splits)
  have field: "py_slice 3 104 b = map of_nat apn @ ?pad"
    unfolding b by (rule py_slice_mid) (use apn in simp_all)
  have nz: "list_all (\<lambda>x. x \<noteq> (0 :: byte)) (map of_nat apn)"
    using apn(2) by (induction apn) (auto simp: word_unat_eq_iff)
  have "takeWhile (\<lambda>x. x \<noteq> (0 :: byte)) (map of_nat apn @ ?pad) = map of_nat apn"
    using nz apn(1) by (subst takeWhile_append2) (auto simp: list_all_iff)
  moreover have "map unat (map of_nat apn :: bytes) = apn"
    using apn(2) by (induction apn) auto
  moreover have "b ! 103 = 0"
    using apn(1) by (simp add: b nth_append)
  moreover have "length b = 194" using apn(1) by (simp add: b)
  ultimately show ?thesis using pid field by (simp add: b)
qed

lemma lte_attach_layout_witness:
  "\<exists>b. lte_attach_apn_body (lit ''a.b'') 1 = Inr b \<and>
     map unat (takeWhile (\<lambda>x. x \<noteq> 0) (py_slice 3 104 b)) = lit ''a.b''"
proof -
  have "\<exists>b. lte_attach_apn_body (lit ''a.b'') 1 = Inr b"
    by (simp add: lte_attach_apn_body_def apn_match_def lit_def alnum_def)
  then obtain b where b: "lte_attach_apn_body (lit ''a.b'') 1 = Inr b" ..
  from lte_attach_layout [OF b] show ?thesis using b by (simp add: lit_def)
qed

text \<open>
  The check of an access point name accepts a final newline, which its error message excludes: a
  name of 100 letters and a newline fills the field and leaves it without a NUL.
\<close>

theorem apn_newline_unterminated:
  "\<exists>b. lte_attach_apn_body (replicate 100 97 @ [10]) 1 = Inr b \<and>
     b ! 103 = 10 \<and> list_all (\<lambda>x. x \<noteq> 0) (py_slice 3 104 b)"
proof -
  have "apn_match (replicate 100 97 @ [10])"
    by (simp add: apn_match_def alnum_def list_all_iff)
  then show ?thesis
    by (simp add: lte_attach_apn_body_def nth_append py_slice_def list_all_iff)
qed

end
