(* ===== verification/Window_Budget.thy ===== *)
theory Window_Budget
  imports S22_Prelude
begin

text \<open>
  The contract two limiters of the repository share: the sliding-window \<open>RateLimit\<close> of the modem
  daemon and the plays and on-time budgets of the haptic daemon. A limiter decides, for a request
  at a time, whether to grant it, and keeps a history of what it granted. Inside the locale the
  guarantee users care about is proved once: the grants of every window fit the budget.
\<close>

text \<open>The grants of a run: the time and the weight of every granted request, oldest first.\<close>

fun granted :: "('s \<Rightarrow> time \<Rightarrow> 'r \<Rightarrow> 's \<times> bool) \<Rightarrow> ('r \<Rightarrow> nat) \<Rightarrow> 's \<Rightarrow> (time \<times> 'r) list \<Rightarrow>
    's \<times> (time \<times> nat) list" where
  "granted step weight s [] = (s, [])"
| "granted step weight s ((t, r) # reqs) =
     (let (s1, ok) = step s t r;
          (s2, gr) = granted step weight s1 reqs
      in (s2, if ok then (t, weight r) # gr else gr))"

definition spent :: "time \<Rightarrow> time \<Rightarrow> (time \<times> nat) list \<Rightarrow> nat" where
  "spent u v gr = sum_list (map snd (filter (\<lambda>(t, w). u \<le> t \<and> t \<le> v) gr))"

lemma spent_Nil [simp]: "spent u v [] = 0"
  by (simp add: spent_def)

lemma spent_append [simp]: "spent u v (xs @ ys) = spent u v xs + spent u v ys"
  by (simp add: spent_def)

lemma spent_Cons: "spent u v ((t, w) # gr) = (if u \<le> t \<and> t \<le> v then w else 0) + spent u v gr"
  by (simp add: spent_def)

lemma spent_le_total: "spent u v gr \<le> sum_list (map snd gr)"
  by (induction gr) (auto simp: spent_Cons)

lemma spent_none: "\<forall>(t, w) \<in> set gr. v < t \<Longrightarrow> spent u v gr = 0"
  by (induction gr) (auto simp: spent_Cons)

lemma spent_cap: "\<forall>(t, w) \<in> set gr. t \<le> v \<Longrightarrow> v \<le> v' \<Longrightarrow> spent u v' gr = spent u v gr"
  by (induction gr) (auto simp: spent_Cons)

lemma granted_times:
  assumes "granted step weight s reqs = (s', gr)" and "sorted (t # map fst reqs)"
  shows "\<forall>(h, w) \<in> set gr. t \<le> h"
  using assms
proof (induction reqs arbitrary: s gr t)
  case Nil
  then show ?case by simp
next
  case (Cons q qs)
  obtain t1 r where q: "q = (t1, r)" by fastforce
  obtain s1 ok where st: "step s t1 r = (s1, ok)" by fastforce
  obtain gr1 where gr1: "granted step weight s1 qs = (s', gr1)"
    and gr: "gr = (if ok then [(t1, weight r)] else []) @ gr1"
    using Cons.prems(1) by (auto simp: q st split: prod.splits if_splits)
  have "\<forall>(h, w) \<in> set gr1. t1 \<le> h"
    using Cons.prems(2) by (intro Cons.IH [OF gr1]) (simp add: q)
  moreover have "t \<le> t1" using Cons.prems(2) by (simp add: q)
  ultimately show ?case by (auto simp: gr)
qed

lemma granted_weights:
  assumes "granted step weight s reqs = (s', gr)" and "\<And>r. weight r = k"
  shows "\<forall>(t, w) \<in> set gr. w = k"
  using assms(1)
proof (induction reqs arbitrary: s gr)
  case Nil
  then show ?case by simp
next
  case (Cons q qs)
  obtain t1 r where q: "q = (t1, r)" by fastforce
  obtain s1 ok where st: "step s t1 r = (s1, ok)" by fastforce
  obtain gr1 where gr1: "granted step weight s1 qs = (s', gr1)"
    and gr: "gr = (if ok then [(t1, weight r)] else []) @ gr1"
    using Cons.prems(1) by (auto simp: q st split: prod.splits if_splits)
  show ?case using Cons.IH [OF gr1] by (auto simp: gr assms(2))
qed

lemma spent_length:
  "\<forall>(t, w) \<in> set gr. w = 1 \<Longrightarrow> spent u v gr = length (filter (\<lambda>(t, w). u \<le> t \<and> t \<le> v) gr)"
  by (induction gr) (auto simp: spent_Cons split: if_splits)

locale window_budget =
  fixes step :: "'s \<Rightarrow> time \<Rightarrow> 'r \<Rightarrow> 's \<times> bool"
    and weight :: "'r \<Rightarrow> nat"
    and hist :: "'s \<Rightarrow> (time \<times> nat) list"
    and recent :: "time \<Rightarrow> time \<Rightarrow> bool"
    and limit :: nat
    and invar :: "'s \<Rightarrow> bool"
  assumes recent_mono: "recent v u \<Longrightarrow> t \<le> v \<Longrightarrow> recent t u"
    and invar_step: "invar s \<Longrightarrow> \<forall>(h, w) \<in> set (hist s). h \<le> t \<Longrightarrow> invar (fst (step s t r))"
    and hist_step: "invar s \<Longrightarrow> \<forall>(h, w) \<in> set (hist s). h \<le> t \<Longrightarrow> step s t r = (s', ok) \<Longrightarrow>
      recent t u \<Longrightarrow> spent u t (hist s') = spent u t (hist s) + (if ok \<and> u \<le> t then weight r else 0)"
    and hist_times: "invar s \<Longrightarrow> step s t r = (s', ok) \<Longrightarrow>
      \<forall>(h, w) \<in> set (hist s). h \<le> t \<Longrightarrow> \<forall>(h, w) \<in> set (hist s'). h \<le> t"
    and within: "invar s \<Longrightarrow> step s t r = (s', True) \<Longrightarrow> sum_list (map snd (hist s')) \<le> limit"
begin

lemma granted_window:
  assumes "invar s" and "\<forall>(h, w) \<in> set (hist s). h \<le> t0" and "sorted (t0 # map fst reqs)"
    and "granted step weight s reqs = (s', gr)" and "recent v u"
    and "\<And>x. t0 \<le> x \<Longrightarrow> x \<le> v \<Longrightarrow> spent u x past \<le> limit"
    and "spent u t0 past \<le> spent u t0 (hist s) \<or> \<not> recent t0 u"
    and "\<forall>(h, w) \<in> set past. h \<le> t0"
  shows "spent u v (past @ gr) \<le> limit \<or> v < t0"
  using assms(1-4,6-8)
proof (induction reqs arbitrary: s t0 past gr)
  case Nil
  then show ?case by (cases "v < t0") auto
next
  case (Cons req reqs)
  obtain t r where req: "req = (t, r)" by fastforce
  obtain s1 ok where st: "step s t r = (s1, ok)" by fastforce
  obtain gr1 where gr1: "granted step weight s1 reqs = (s', gr1)"
    and gr: "gr = (if ok then [(t, weight r)] else []) @ gr1"
    using Cons.prems(4) by (auto simp: req st split: prod.splits if_splits)
  let ?past = "past @ (if ok then [(t, weight r)] else [])"
  have t0: "t0 \<le> t" and srt: "sorted (t # map fst reqs)" using Cons.prems(3) by (simp_all add: req)
  have le: "\<forall>(h, w) \<in> set (hist s). h \<le> t" using Cons.prems(2) t0 by fastforce
  have inv1: "invar s1" using invar_step [OF Cons.prems(1) le, of r] st by simp
  have le1: "\<forall>(h, w) \<in> set (hist s1). h \<le> t" using hist_times [OF Cons.prems(1) st le] .
  have past_le: "\<forall>(h, w) \<in> set ?past. h \<le> t" using Cons.prems(7) t0 by fastforce
  have later: "\<forall>(h, w) \<in> set gr1. t \<le> h" by (rule granted_times [OF gr1 srt])
  have keep: "spent u t ?past \<le> spent u t (hist s1)" if rec: "recent t u"
  proof -
    have "recent t0 u" using recent_mono [OF rec t0] .
    with Cons.prems(6) have "spent u t0 past \<le> spent u t0 (hist s)" by simp
    then have "spent u t past \<le> spent u t (hist s)"
      using spent_cap [OF Cons.prems(7) t0] spent_cap [OF Cons.prems(2) t0] by simp
    then show ?thesis using hist_step [OF Cons.prems(1) le st rec] by (simp add: spent_Cons)
  qed
  have lim: "spent u x ?past \<le> limit" if x: "t \<le> x" "x \<le> v" for x
  proof (cases ok)
    case True
    have rec: "recent t u" using recent_mono [OF assms(5)] x by simp
    have "spent u x ?past = spent u t ?past" using spent_cap [OF past_le x(1)] .
    also have "\<dots> \<le> spent u t (hist s1)" by (rule keep [OF rec])
    also have "\<dots> \<le> limit"
      by (rule le_trans [OF spent_le_total within [OF Cons.prems(1)]]) (use st True in simp)
    finally show ?thesis .
  next
    case False
    have "t0 \<le> x" using t0 x(1) by (rule order_trans)
    then have "spent u x past \<le> limit" using x(2) by (rule Cons.prems(5))
    with False show ?thesis by simp
  qed
  have "spent u v (?past @ gr1) \<le> limit \<or> v < t"
    by (rule Cons.IH [OF inv1 le1 srt gr1 _ _ past_le]) (rule lim, assumption+, use keep in blast)
  then show ?case
  proof
    assume "spent u v (?past @ gr1) \<le> limit"
    then show ?thesis by (simp add: gr)
  next
    assume "v < t"
    moreover have "\<forall>(h, w) \<in> set gr. t \<le> h" using later by (auto simp: gr)
    ultimately have "spent u v gr = 0" by (intro spent_none) fastforce
    moreover have "spent u v past \<le> limit" if "t0 \<le> v" using that by (rule Cons.prems(5)) simp
    ultimately show ?thesis by (cases "v < t0") simp_all
  qed
qed

text \<open>From an empty history, in time order: every window's grants fit the budget.\<close>

theorem window_ok:
  assumes "invar s" and "hist s = []" and "sorted (map fst reqs)"
    and "granted step weight s reqs = (s', gr)" and "recent v u"
  shows "spent u v gr \<le> limit"
proof (cases reqs)
  case Nil
  with assms(4) show ?thesis by simp
next
  case (Cons q qs)
  let ?t0 = "min (fst q) v"
  have "sorted (?t0 # map fst reqs)" using assms(3) Cons by (auto intro: min.coboundedI1)
  then have "spent u v ([] @ gr) \<le> limit \<or> v < ?t0"
    by (intro granted_window [OF assms(1) _ _ assms(4,5)]) (use assms(2) in simp_all)
  then show ?thesis by auto
qed

end

end
