(* ===== verification/Phone_Stores.thy ===== *)
theory Phone_Stores
  imports Window_Budget
begin

text \<open>
  The small stateful utilities of \<^verbatim>\<open>phoned/s22-phoned.py\<close>: \<open>JsonlStore\<close> (an append-only file and
  its in-memory dictionary), \<open>EventBus\<close> (a bounded queue of numbered events read by polling
  clients) and \<open>RateLimit\<close> (a sliding window, an instance of \<open>window_budget\<close>).
\<close>

section \<open>JsonlStore\<close>

text \<open>
  \<open>js_file\<close> is the file as the loader reads it: one entry per line, \<open>None\<close> for a line whose
  parsing raises. \<open>put\<close> gets the outcome of the append as an argument: the dictionary is updated
  and trimmed before the file is opened, so a failing write leaves the record in memory only.
\<close>

record ('i, 'r) jsonl_store =
  js_items :: "('i, 'r) dict"
  js_keep :: nat
  js_file :: "('i \<times> 'r) option list"

definition load_line :: "('i, 'r) dict \<Rightarrow> ('i \<times> 'r) option \<Rightarrow> ('i, 'r) dict" where
  "load_line its l = (case l of None \<Rightarrow> its | Some (i, r) \<Rightarrow> AList.delete i its @ [(i, r)])"

text \<open>\<open>while len(self.items) > self.keep: self.items.popitem(last=False)\<close>\<close>

fun pop_oldest :: "nat \<Rightarrow> ('i, 'r) dict \<Rightarrow> ('i, 'r) dict" where
  "pop_oldest k [] = []"
| "pop_oldest k (kv # its) = (if k < length (kv # its) then pop_oldest k its else kv # its)"

definition js_load :: "nat \<Rightarrow> ('i \<times> 'r) option list \<Rightarrow> ('i, 'r) jsonl_store" where
  "js_load k ls = \<lparr>js_items = pop_oldest k (foldl load_line [] ls), js_keep = k, js_file = ls\<rparr>"

definition js_put :: "bool \<Rightarrow> 'i \<Rightarrow> 'r \<Rightarrow> ('i, 'r) jsonl_store \<Rightarrow> ('i, 'r) jsonl_store \<times> (pyerr + unit)" where
  "js_put write_ok i r s =
     (let s1 = s\<lparr>js_items := pop_oldest (js_keep s) (AList.update i r (js_items s))\<rparr> in
      if write_ok then (s1\<lparr>js_file := js_file s1 @ [Some (i, r)]\<rparr>, Inr ()) else (s1, Inl OSError))"

definition js_values :: "('i, 'r) jsonl_store \<Rightarrow> 'r list" where
  "js_values s = map snd (js_items s)"

lemma pop_oldest_drop: "pop_oldest k its = drop (length its - k) its"
  by (induction its) (auto simp: Suc_diff_le)

lemma length_pop_oldest [simp]: "length (pop_oldest k its) = min k (length its)"
  by (simp add: pop_oldest_drop)

lemma pop_oldest_short [simp]: "length its \<le> k \<Longrightarrow> pop_oldest k its = its"
  by (simp add: pop_oldest_drop)

lemma dict_ok_pop [simp]: "dict_ok its \<Longrightarrow> dict_ok (pop_oldest k its)"
  by (simp add: pop_oldest_drop dict_ok_drop)

lemma map_of_pop_oldest:
  assumes "dict_ok its" and "map_of (pop_oldest k its) i = Some r"
  shows "map_of its i = Some r"
proof -
  have "(i, r) \<in> set (pop_oldest k its)" using assms(2) by (rule map_of_SomeD)
  then have "(i, r) \<in> set its" by (auto simp: pop_oldest_drop dest: in_set_dropD)
  with assms(1) show ?thesis by (simp add: dict_ok_def)
qed

lemma pop_oldest_last: "0 < k \<Longrightarrow> its \<noteq> [] \<Longrightarrow> last its \<in> set (pop_oldest k its)"
proof (induction its)
  case (Cons kv its)
  then show ?case by (cases "its = []") auto
qed simp

section \<open>The interface of a bounded keyed store\<close>

text \<open>
  A store that maps keys to records and drops old ones beyond a bound. The laws: the invariant is
  kept, a lookup after a put answers the old value, the new value or nothing (an eviction), the
  bound is respected, and nothing is evicted while the put key is present or there is room.
\<close>

definition run_puts :: "('i \<Rightarrow> 'r \<Rightarrow> 's \<Rightarrow> 's) \<Rightarrow> ('i \<times> 'r) list \<Rightarrow> 's \<Rightarrow> 's" where
  "run_puts put rs s = foldl (\<lambda>s (i, r). put i r s) s rs"

lemma run_puts_simps [simp]:
  "run_puts put [] s = s"
  "run_puts put ((i, r) # rs) s = run_puts put rs (put i r s)"
  by (simp_all add: run_puts_def)

locale keyed_store =
  fixes put :: "'i \<Rightarrow> 'r \<Rightarrow> 's \<Rightarrow> 's"
    and get :: "'s \<Rightarrow> 'i \<Rightarrow> 'r option"
    and size_of :: "'s \<Rightarrow> nat"
    and invar :: "'s \<Rightarrow> bool"
    and bound :: nat
  assumes invar_put: "invar s \<Longrightarrow> invar (put i r s)"
    and get_put: "invar s \<Longrightarrow> get (put i r s) j = None \<or> get (put i r s) j = ((get s)(i \<mapsto> r)) j"
    and size_bound: "invar s \<Longrightarrow> size_of s \<le> bound"
    and put_room: "invar s \<Longrightarrow> size_of s < bound \<or> get s i \<noteq> None \<Longrightarrow>
      get (put i r s) = (get s)(i \<mapsto> r) \<and>
      size_of (put i r s) = size_of s + (if get s i = None then 1 else 0)"
    and dom_size: "invar s \<Longrightarrow> finite (dom (get s)) \<and> card (dom (get s)) = size_of s"
begin

lemma invar_puts: "invar s \<Longrightarrow> invar (run_puts put rs s)"
  by (induction rs arbitrary: s) (auto simp: invar_put)

text \<open>The bound always holds; what a lookup answers was put (or was there before).\<close>

lemma puts_bound: "invar s \<Longrightarrow> size_of (run_puts put rs s) \<le> bound"
  by (simp add: invar_puts size_bound)

lemma puts_sound: "invar s \<Longrightarrow> get (run_puts put rs s) j = Some r \<Longrightarrow> ((get s) ++ map_of (rev rs)) j = Some r"
proof (induction rs arbitrary: s)
  case Nil
  then show ?case by simp
next
  case (Cons ir rs)
  obtain i v where ir: "ir = (i, v)" by fastforce
  have inv: "invar (put i v s)" using Cons.prems(1) by (rule invar_put)
  have "(get (put i v s) ++ map_of (rev rs)) j = Some r"
    using Cons.IH [OF inv] Cons.prems(2) by (simp add: ir)
  then show ?case
    using get_put [OF Cons.prems(1), of i v j]
    by (auto simp: ir map_add_Some_iff map_of_append map_add_None split: if_splits)
qed

text \<open>While the distinct keys fit the bound, nothing is lost.\<close>

lemma puts_complete:
  assumes "invar s" and "card (dom (get s) \<union> fst ` set rs) \<le> bound"
  shows "get (run_puts put rs s) = get s ++ map_of (rev rs)"
  using assms
proof (induction rs arbitrary: s)
  case Nil
  then show ?case by simp
next
  case (Cons ir rs)
  obtain i v where ir: "ir = (i, v)" by fastforce
  let ?s1 = "put i v s"
  have fin: "finite (dom (get s))" and card: "card (dom (get s)) = size_of s"
    using dom_size [OF Cons.prems(1)] by simp_all
  have "size_of s < bound \<or> get s i \<noteq> None"
  proof (rule disjCI)
    assume "\<not> get s i \<noteq> None"
    then have "i \<notin> dom (get s)" by auto
    then have "card (insert i (dom (get s))) = Suc (size_of s)" using fin card by simp
    moreover have "card (insert i (dom (get s))) \<le> card (dom (get s) \<union> fst ` set (ir # rs))"
      using fin by (intro card_mono) (auto simp: ir)
    ultimately show "size_of s < bound" using Cons.prems(2) by simp
  qed
  then have g: "get ?s1 = (get s)(i \<mapsto> v)" using put_room [OF Cons.prems(1)] by simp
  have "dom (get ?s1) \<union> fst ` set rs = dom (get s) \<union> fst ` set (ir # rs)" by (auto simp: g ir)
  then have "get (run_puts put rs ?s1) = get ?s1 ++ map_of (rev rs)"
    using Cons.IH [OF invar_put [OF Cons.prems(1)]] Cons.prems(2) by simp
  then show ?case by (simp add: ir g)
qed

end

section \<open>JsonlStore implements it\<close>

definition js_inv :: "nat \<Rightarrow> ('i, 'r) jsonl_store \<Rightarrow> bool" where
  "js_inv k s \<longleftrightarrow> dict_ok (js_items s) \<and> length (js_items s) \<le> k \<and> js_keep s = k"

definition js_get :: "('i, 'r) jsonl_store \<Rightarrow> 'i \<Rightarrow> 'r option" where
  "js_get s = map_of (js_items s)"

definition js_write :: "bool \<Rightarrow> 'i \<Rightarrow> 'r \<Rightarrow> ('i, 'r) jsonl_store \<Rightarrow> ('i, 'r) jsonl_store" where
  "js_write ok i r s = fst (js_put ok i r s)"

lemma js_items_put: "js_items (js_write ok i r s) = pop_oldest (js_keep s) (AList.update i r (js_items s))"
  by (simp add: js_write_def js_put_def Let_def)

lemma js_keep_put [simp]: "js_keep (js_write ok i r s) = js_keep s"
  by (simp add: js_write_def js_put_def Let_def)

interpretation jsonl: keyed_store "js_write ok" js_get "\<lambda>s. length (js_items s)"
    "js_inv k" k for k ok
proof (unfold_locales, goal_cases)
  case (1 s i r)
  then show ?case by (auto simp: js_inv_def js_items_put)
next
  case (2 s i r j)
  then have ok: "dict_ok (AList.update i r (js_items s))" by (simp add: js_inv_def)
  show ?case
    using map_of_pop_oldest [OF ok, of "js_keep s" j]
    by (cases "map_of (pop_oldest (js_keep s) (AList.update i r (js_items s))) j")
      (auto simp: js_get_def js_items_put)
next
  case (3 s)
  then show ?case by (simp add: js_inv_def)
next
  case (4 s i r)
  then have "length (AList.update i r (js_items s)) \<le> js_keep s"
    by (auto simp: js_inv_def js_get_def length_dict_update)
  then show ?case by (auto simp: js_get_def js_items_put length_dict_update)
next
  case (5 s)
  then have "distinct (map fst (js_items s))" by (simp add: js_inv_def dict_ok_def)
  then have "card (set (map fst (js_items s))) = length (map fst (js_items s))" by (rule distinct_card)
  then show ?case by (simp add: js_get_def dom_map_of_conv_image_fst)
qed

text \<open>The record just put is there, whether or not its write succeeded.\<close>

lemma js_put_self:
  assumes "js_inv k s" and "0 < k"
  shows "js_get (fst (js_put ok i r s)) i = Some r"
proof -
  have inv: "dict_ok (js_items s)" "length (js_items s) \<le> k" "js_keep s = k" using assms(1) by (simp_all add: js_inv_def)
  have e: "js_items (fst (js_put ok i r s)) = pop_oldest k (AList.update i r (js_items s))"
    by (simp add: js_put_def Let_def inv(3))
  show ?thesis
  proof (cases "map_of (js_items s) i")
    case None
    let ?its = "js_items s @ [(i, r)]"
    have ok: "dict_ok (pop_oldest k ?its)"
      using inv(1) update_new [OF None, of r] dict_ok_update [OF inv(1), of i r] by simp
    have "(i, r) \<in> set (pop_oldest k ?its)" using pop_oldest_last [of k ?its] assms(2) by simp
    then have "map_of (pop_oldest k ?its) i = Some r" using ok by (simp add: dict_ok_def)
    then show ?thesis by (simp add: js_get_def e update_new [OF None])
  next
    case (Some x)
    then have "length (AList.update i r (js_items s)) \<le> k" using inv(2) by (simp add: length_dict_update)
    then show ?thesis by (simp add: js_get_def e)
  qed
qed

section \<open>A reload reads back what was put\<close>

lemma dict_ok_snoc: "dict_ok its \<Longrightarrow> i \<notin> fst ` set its \<Longrightarrow> dict_ok (its @ [(i, r)])"
  by (auto simp: dict_ok_def)

lemma load_line_facts:
  assumes "dict_ok its"
  shows "dict_ok (load_line its l)"
    and "map_of (load_line its l) = (case l of None \<Rightarrow> map_of its | Some (i, r) \<Rightarrow> (map_of its)(i \<mapsto> r))"
proof -
  show "dict_ok (load_line its l)"
    using assms dict_ok_delete [OF assms] by (auto simp: load_line_def dict_ok_def delete_keys split: option.splits)
  have "map_of (AList.delete i its @ [(i, r)]) = (map_of its)(i \<mapsto> r)" for i r
    by (rule ext) (auto simp: map_add_def delete_conv' split: option.splits)
  then show "map_of (load_line its l) =
      (case l of None \<Rightarrow> map_of its | Some (i, r) \<Rightarrow> (map_of its)(i \<mapsto> r))"
    by (auto simp: load_line_def split: option.splits)
qed

definition good_lines :: "'a option list \<Rightarrow> 'a list" where
  "good_lines ls = concat (map (case_option [] (\<lambda>x. [x])) ls)"

lemma good_lines_append [simp]: "good_lines (xs @ ys) = good_lines xs @ good_lines ys"
  by (simp add: good_lines_def)

lemma good_lines_Some [simp]: "good_lines (map Some rs) = rs"
  by (induction rs) (auto simp: good_lines_def)

lemma load_lines:
  assumes "dict_ok its"
  shows "dict_ok (foldl load_line its ls) \<and>
    map_of (foldl load_line its ls) = map_of its ++ map_of (rev (good_lines ls))"
  using assms
proof (induction ls arbitrary: its)
  case Nil
  then show ?case by (simp add: good_lines_def)
next
  case (Cons l ls)
  note IH = Cons.IH [OF load_line_facts(1) [OF Cons.prems, of l]]
  show ?case
  proof (cases l)
    case None
    with IH load_line_facts(2) [OF Cons.prems, of l] show ?thesis by (simp add: good_lines_def)
  next
    case (Some ir)
    obtain i r where ir: "ir = (i, r)" by fastforce
    have "map_of (load_line its l) = map_of its ++ [i \<mapsto> r]"
      using load_line_facts(2) [OF Cons.prems, of l] by (simp add: Some ir)
    moreover have "map_of (rev (good_lines (l # ls))) = [i \<mapsto> r] ++ map_of (rev (good_lines ls))"
      by (simp add: Some ir good_lines_def)
    ultimately show ?thesis using IH by (simp only: foldl_Cons map_add_assoc)
  qed
qed

lemma card_dict: "dict_ok its \<Longrightarrow> card (dom (map_of its)) = length its"
  using distinct_card [of "map fst its"] by (simp add: dict_ok_def dom_map_of_conv_image_fst)

lemma load_facts:
  shows "js_inv k (js_load k ls)"
    and "card (fst ` set (good_lines ls)) \<le> k \<Longrightarrow> js_get (js_load k ls) = map_of (rev (good_lines ls))"
proof -
  have l: "dict_ok (foldl load_line [] ls)" "map_of (foldl load_line [] ls) = map_of (rev (good_lines ls))"
    using load_lines [of "[]" ls] by simp_all
  show "js_inv k (js_load k ls)" using l by (simp add: js_load_def js_inv_def)
  assume "card (fst ` set (good_lines ls)) \<le> k"
  then have "length (foldl load_line [] ls) \<le> k"
    using card_dict [OF l(1)] l(2) by (simp add: dom_map_of_conv_image_fst)
  then show "js_get (js_load k ls) = map_of (rev (good_lines ls))"
    by (simp add: js_load_def js_get_def l(2))
qed

lemma js_file_puts: "js_file (run_puts (js_write True) rs s) = js_file s @ map Some rs"
  by (induction rs arbitrary: s) (auto simp: js_write_def js_put_def Let_def)

text \<open>
  A restart loses nothing: after the store has been loaded from a file (with damaged lines or
  not) and any sequence of successful puts, loading the file again answers every lookup as the
  running store does, as long as the distinct ids fit the bound.
\<close>

theorem jsonl_reload:
  assumes "card (fst ` set (good_lines ls @ rs)) \<le> k"
  shows "js_get (js_load k (js_file (run_puts (js_write True) rs (js_load k ls)))) =
    js_get (run_puts (js_write True) rs (js_load k ls))"
proof -
  have "card (fst ` set (good_lines ls)) \<le> card (fst ` set (good_lines ls @ rs))"
    by (intro card_mono) auto
  then have l: "js_get (js_load k ls) = map_of (rev (good_lines ls))"
    using assms load_facts(2) by (meson le_trans)
  have "js_get (run_puts (js_write True) rs (js_load k ls)) = js_get (js_load k ls) ++ map_of (rev rs)"
    using assms by (intro jsonl.puts_complete [OF load_facts(1)])
      (simp add: l dom_map_of_conv_image_fst image_Un)
  moreover have "js_get (js_load k (js_file (run_puts (js_write True) rs (js_load k ls)))) =
      map_of (rev (good_lines ls @ rs))"
    using assms by (subst load_facts(2)) (simp_all add: js_file_puts js_load_def)
  ultimately show ?thesis by (simp add: l)
qed

lemma jsonl_reload_witness:
  "js_get (js_load 2 (js_file (run_puts (js_write True) [(7 :: nat, ''b''), (9, ''c'')]
       (js_load 2 [Some (7, ''a''), None])))) =
     js_get (run_puts (js_write True) [(7, ''b''), (9, ''c'')] (js_load 2 [Some (7, ''a''), None]))"
  by (rule jsonl_reload) (simp add: good_lines_def)

section \<open>EventBus\<close>

text \<open>
  \<open>emit\<close> numbers the event and appends it to a queue that drops its oldest entry beyond
  \<open>maxlen\<close>. \<open>since\<close> is one evaluation of the loop body under the lock: the events newer than the
  client's cursor, and the sequence number to poll from next. The waiting between two evaluations
  does not change the bus.
\<close>

record 'e event_bus =
  eb_seq :: nat
  eb_events :: "(nat \<times> 'e) list"
  eb_maxlen :: nat

definition eb_init :: "nat \<Rightarrow> 'e event_bus" where
  "eb_init m = \<lparr>eb_seq = 0, eb_events = [], eb_maxlen = m\<rparr>"

definition deque_append :: "nat \<Rightarrow> 'a \<Rightarrow> 'a list \<Rightarrow> 'a list" where
  "deque_append m x q = drop (length q + 1 - m) (q @ [x])"

definition eb_emit :: "'e \<Rightarrow> 'e event_bus \<Rightarrow> 'e event_bus" where
  "eb_emit e b =
     b\<lparr>eb_seq := eb_seq b + 1, eb_events := deque_append (eb_maxlen b) (eb_seq b + 1, e) (eb_events b)\<rparr>"

definition eb_since :: "nat \<Rightarrow> 'e event_bus \<Rightarrow> nat \<times> (nat \<times> 'e) list" where
  "eb_since cur b = (eb_seq b, filter (\<lambda>(n, e). cur < n) (eb_events b))"

text \<open>A client that polls from the number the last poll returned, interleaved with events.\<close>

datatype 'e bus_op = Emit 'e | Poll

fun eb_client :: "'e bus_op list \<Rightarrow> nat \<Rightarrow> 'e event_bus \<Rightarrow> 'e event_bus \<times> nat \<times> 'e list" where
  "eb_client [] cur b = (b, cur, [])"
| "eb_client (Emit e # ops) cur b = eb_client ops cur (eb_emit e b)"
| "eb_client (Poll # ops) cur b =
     (let (cur1, evs) = eb_since cur b; (b2, cur2, rest) = eb_client ops cur1 b
      in (b2, cur2, map snd evs @ rest))"

text \<open>The events emitted so far, of which the bus keeps the last \<open>maxlen\<close>.\<close>

definition numbered :: "'e list \<Rightarrow> (nat \<times> 'e) list" where
  "numbered es = enumerate 1 es"

definition eb_holds :: "'e event_bus \<Rightarrow> 'e list \<Rightarrow> bool" where
  "eb_holds b es \<longleftrightarrow> eb_seq b = length es \<and>
     eb_events b = drop (length es - eb_maxlen b) (numbered es)"

lemma eb_holds_emit: "eb_holds b es \<Longrightarrow> eb_holds (eb_emit e b) (es @ [e])"
proof -
  assume h: "eb_holds b es"
  let ?n = "length es" and ?m = "eb_maxlen b"
  have "numbered (es @ [e]) = numbered es @ [(?n + 1, e)]" by (simp add: numbered_def enumerate_append_eq)
  moreover have "length (drop (?n - ?m) (numbered es)) = min ?n ?m" by (simp add: numbered_def)
  ultimately show ?thesis
    using h by (cases "?n < ?m") (auto simp: eb_holds_def eb_emit_def deque_append_def numbered_def Suc_diff_le)
qed

lemma eb_maxlen_emit [simp]: "eb_maxlen (eb_emit e b) = eb_maxlen b"
  by (simp add: eb_emit_def)

lemma drop_enumerate: "drop n (enumerate m es) = enumerate (m + n) (drop n es)"
proof (induction es arbitrary: m n)
  case (Cons e es)
  then show ?case by (cases n) simp_all
qed simp

lemma filter_enumerate: "filter (\<lambda>(n, e). cur < n) (enumerate m es) = drop (Suc cur - m) (enumerate m es)"
proof (induction es arbitrary: m)
  case (Cons e es)
  show ?case
  proof (cases "cur < m")
    case True
    then show ?thesis using Cons.IH [of "Suc m"] by simp
  next
    case False
    then show ?thesis using Cons.IH [of "Suc m"] by (simp add: Suc_diff_le)
  qed
qed simp

lemma eb_since_holds:
  assumes "eb_holds b es"
  shows "eb_since cur b = (length es, drop (max cur (length es - eb_maxlen b)) (numbered es))"
proof -
  have "drop (length es - eb_maxlen b) (numbered es) =
      enumerate (1 + (length es - eb_maxlen b)) (drop (length es - eb_maxlen b) es)"
    by (simp add: numbered_def drop_enumerate)
  then show ?thesis
    using assms by (simp add: eb_since_def eb_holds_def filter_enumerate numbered_def drop_enumerate max_def)
qed

fun op_events :: "'e bus_op list \<Rightarrow> 'e list" where
  "op_events [] = []"
| "op_events (Emit e # ops) = e # op_events ops"
| "op_events (Poll # ops) = op_events ops"

text \<open>No more than \<open>m\<close> events between two polls, \<open>n\<close> of them already waiting.\<close>

fun polled_in_time :: "nat \<Rightarrow> nat \<Rightarrow> 'e bus_op list \<Rightarrow> bool" where
  "polled_in_time m n [] = True"
| "polled_in_time m n (Emit e # ops) = (n < m \<and> polled_in_time m (n + 1) ops)"
| "polled_in_time m n (Poll # ops) = polled_in_time m 0 ops"

lemma eb_client_loses_nothing:
  assumes "eb_holds b es" and "eb_client ops cur b = (b', cur', evs)"
    and "polled_in_time (eb_maxlen b) (length es - cur) ops"
    and "cur \<le> length es" and "length es - cur \<le> eb_maxlen b"
  shows "\<exists>es'. eb_holds b' es' \<and> es' = es @ op_events ops \<and> cur' \<le> length es' \<and>
    length es' - cur' \<le> eb_maxlen b' \<and>     drop cur es' = evs @ drop cur' es'"
  using assms
proof (induction ops cur b arbitrary: es evs rule: eb_client.induct)
  case (1 cur b)
  then show ?case by simp
next
  case (2 e ops cur b)
  have "eb_holds (eb_emit e b) (es @ [e])" using "2.prems"(1) by (rule eb_holds_emit)
  then have "\<exists>es'. eb_holds b' es' \<and> es' = (es @ [e]) @ op_events ops \<and> cur' \<le> length es' \<and>
    length es' - cur' \<le> eb_maxlen b' \<and>       drop cur es' = evs @ drop cur' es'"
    by (rule "2.IH") (use "2.prems" in \<open>auto simp: Suc_diff_le\<close>)
  then show ?case by simp
next
  case (3 ops cur b)
  have m: "max cur (length es - eb_maxlen b) = cur" using "3.prems"(5) by simp
  have s: "eb_since cur b = (length es, drop cur (numbered es))"
    using eb_since_holds [OF "3.prems"(1), of cur] m by simp
  obtain rest where r: "eb_client ops (length es) b = (b', cur', rest)"
    and evs: "evs = drop cur es @ rest"
    using "3.prems"(2) by (auto simp: s numbered_def drop_enumerate split: prod.splits)
  have "\<exists>es'. eb_holds b' es' \<and> es' = es @ op_events ops \<and> cur' \<le> length es' \<and>
    length es' - cur' \<le> eb_maxlen b' \<and>       drop (length es) es' = rest @ drop cur' es'"
    by (rule "3.IH" [OF s [symmetric] refl "3.prems"(1) r]) (use "3.prems"(3) in simp_all)
  then show ?case using "3.prems"(4) by (auto simp: evs)
qed

text \<open>
  A polling client sees every event exactly once and in order: if at most \<open>maxlen\<close> events are
  emitted between two of its polls, what its polls returned, followed by what the queue still
  holds beyond its cursor, is the sequence of all events emitted.
\<close>

theorem event_bus_complete:
  assumes "eb_client ops 0 (eb_init m) = (b', cur', evs)" and "polled_in_time m 0 ops"
  shows "op_events ops = evs @ map snd (snd (eb_since cur' b'))"
proof -
  have h: "eb_holds (eb_init m) []" by (simp add: eb_holds_def eb_init_def numbered_def)
  have m: "eb_maxlen (eb_init m) = m" by (simp add: eb_init_def)
  have facts: "eb_holds b' (op_events ops)" "op_events ops = evs @ drop cur' (op_events ops)"
      "length (op_events ops) - cur' \<le> eb_maxlen b'"
    using eb_client_loses_nothing [OF h assms(1)] assms(2) by (simp_all add: m)
  then have "max cur' (length (op_events ops) - eb_maxlen b') = cur'" by simp
  then show ?thesis
    using eb_since_holds [OF facts(1), of cur'] facts(2) by (simp add: numbered_def drop_enumerate)
qed

lemma event_bus_complete_witness:
  "op_events [Emit CHR ''a'', Poll, Emit CHR ''b'', Emit CHR ''c'', Poll, Emit CHR ''d''] =
     ''abc'' @ map snd (snd (eb_since 3
       \<lparr>eb_seq = 4, eb_events = [(3, CHR ''c''), (4, CHR ''d'')], eb_maxlen = 2\<rparr>))"
  by (rule event_bus_complete [of _ 2])
    (simp_all add: eb_init_def eb_emit_def eb_since_def deque_append_def)

section \<open>RateLimit\<close>

record rate_limit =
  rl_limit :: nat
  rl_window :: time
  rl_stamps :: "time list"

definition rl_take :: "rate_limit \<Rightarrow> time \<Rightarrow> rate_limit \<times> bool" where
  "rl_take rl t =
     (let st = dropWhile (\<lambda>h. h < t - rl_window rl) (rl_stamps rl) in
      if rl_limit rl \<le> length st then (rl\<lparr>rl_stamps := st\<rparr>, False)
      else (rl\<lparr>rl_stamps := st @ [t]\<rparr>, True))"

definition rl_step :: "rate_limit \<Rightarrow> time \<Rightarrow> unit \<Rightarrow> rate_limit \<times> bool" where
  "rl_step rl t u = rl_take rl t"

definition rl_hist :: "rate_limit \<Rightarrow> (time \<times> nat) list" where
  "rl_hist rl = map (\<lambda>h. (h, 1)) (rl_stamps rl)"

lemma spent_dropWhile:
  "(\<And>h. u \<le> h \<Longrightarrow> \<not> P h) \<Longrightarrow> spent u t (map (\<lambda>h. (h, 1)) (dropWhile P st)) = spent u t (map (\<lambda>h. (h, 1)) st)"
  by (induction st) (auto simp: spent_Cons)

interpretation rate: window_budget rl_step "\<lambda>_. 1" rl_hist "\<lambda>t h. t - win \<le> h" lmt
    "\<lambda>rl. rl_limit rl = lmt \<and> rl_window rl = win" for lmt win
proof (unfold_locales, goal_cases)
  case (1 v u t)
  then show ?case by simp
next
  case (2 s t r)
  then show ?case by (auto simp: rl_step_def rl_take_def Let_def)
next
  case (3 s t r s' ok u)
  have "spent u t (map (\<lambda>h. (h, 1)) (dropWhile (\<lambda>h. h < t - win) (rl_stamps s))) =
      spent u t (map (\<lambda>h. (h, 1)) (rl_stamps s))"
    using 3(4) by (intro spent_dropWhile) simp
  with 3 show ?case
    by (auto simp: rl_step_def rl_take_def rl_hist_def Let_def spent_Cons split: if_splits)
next
  case (4 s t r s' ok)
  then show ?case
    by (auto simp: rl_step_def rl_take_def rl_hist_def Let_def split: if_splits)
      (meson set_dropWhileD)+
next
  case (5 s t r s')
  then show ?case
    by (auto simp: rl_step_def rl_take_def rl_hist_def Let_def comp_def sum_list_triv split: if_splits)
qed

text \<open>
  Whatever the requests and their times (in clock order), a rate limiter with \<open>limit\<close> and
  \<open>window\<close> grants at most \<open>limit\<close> of them in every interval of that length, both ends included.
\<close>

theorem rate_limit_window:
  assumes "sorted (map fst reqs)" and "v - win \<le> u"
    and "granted rl_step (\<lambda>_. 1) \<lparr>rl_limit = lmt, rl_window = win, rl_stamps = []\<rparr> reqs = (s', gr)"
  shows "length (filter (\<lambda>(t, w). u \<le> t \<and> t \<le> v) gr) \<le> lmt"
proof -
  have "spent u v gr \<le> lmt"
    by (rule rate.window_ok [OF _ _ assms(1,3,2)]) (simp_all add: rl_hist_def)
  moreover have "\<forall>(t, w) \<in> set gr. w = 1"
    using assms(3) by (rule granted_weights) simp
  ultimately show ?thesis by (simp add: spent_length)
qed

lemma rate_limit_window_witness:
  "length (filter (\<lambda>(t, w). (1 :: rat) \<le> t \<and> t \<le> 4) [(0, 1 :: nat), (1, 1), (9/2, 1)]) \<le> 2"
  by (rule rate_limit_window [where win = 3 and reqs = "[(0, ()), (1, ()), (2, ()), (9/2, ())]"])
    (simp_all add: rl_step_def rl_take_def)

end
