(* ===== verification/Phone_Gate.thy ===== *)
theory Phone_Gate
  imports Phone_Decoders Phone_Stores
begin

text \<open>
  The safety gates for outbound actions of \<^verbatim>\<open>phoned/s22-phoned.py\<close>: \<open>is_emergency\<close>,
  \<open>Phone.allowlist\<close>, \<open>Phone.take_grant\<close> and \<open>Phone.gate\<close>. The files of the state directory the
  gates read are the record \<open>gate_fs\<close>; consuming a grant removes its file.
\<close>

section \<open>Numbers\<close>

definition EMERGENCY :: "pystr list" where
  "EMERGENCY = map lit [''112'', ''911'', ''999'', ''000'', ''08'', ''100'', ''101'', ''102'', ''103'',
     ''104'', ''108'', ''110'', ''118'', ''119'', ''120'', ''122'', ''15'', ''17'', ''18'', ''166'',
     ''199'', ''197'', ''1033'']"

definition MIN_DIGITS :: nat where
  "MIN_DIGITS = 7"

text \<open>The callers pass a number that matched \<open>[0-9]\<close>, so the digits are the ASCII ones.\<close>

definition is_emergency :: "pystr \<Rightarrow> bool" where
  "is_emergency number =
     (let ds = filter ascii_digit (normalize_number number) in
      ds \<in> set EMERGENCY \<or> length ds < MIN_DIGITS)"

text \<open>\<open>re.fullmatch(r"\+?[0-9]{1,20}", n)\<close>\<close>

definition valid_number :: "pystr \<Rightarrow> bool" where
  "valid_number n =
     (let ds = (if take 1 n = [plus_sign] then drop 1 n else n) in
      1 \<le> length ds \<and> length ds \<le> 20 \<and> list_all ascii_digit ds)"

section \<open>The files of the gate\<close>

text \<open>
  Conversions of the standard library on values the files do not normally hold: \<open>str\<close> of a float or
  a container, \<open>float\<close> of a string (a number, an infinity or NaN; \<open>None\<close> when it raises) and
  \<open>int\<close> of a string.
\<close>

record pylib =
  lib_str :: "json \<Rightarrow> pystr"
  lib_float :: "pystr \<Rightarrow> json option"
  lib_int :: "pystr \<Rightarrow> int option"

record gate_fs =
  gf_tx :: bool
  gf_allow :: "pystr option"
  gf_grants :: "(pystr \<times> pystr, pystr) dict"
  gf_unlink_ok :: bool

definition is_eol :: "nat \<Rightarrow> bool" where
  "is_eol c \<longleftrightarrow> c \<in> {10, 11, 12, 13, 28, 29, 30, 133, 8232, 8233}"

text \<open>
  \<open>splitlines\<close>; the empty lines it and this function differ in (between CR and LF, at the end) are
  dropped by the caller.
\<close>

fun split_lines :: "pystr \<Rightarrow> pystr list" where
  "split_lines [] = [[]]"
| "split_lines (c # s) =
     (if is_eol c then [] # split_lines s
      else (case split_lines s of [] \<Rightarrow> [[c]] | l # ls \<Rightarrow> (c # l) # ls))"

definition before_hash :: "pystr \<Rightarrow> pystr" where
  "before_hash l = takeWhile (\<lambda>c. c \<noteq> 35) l"

definition allowlist :: "gate_fs \<Rightarrow> pystr list" where
  "allowlist fs =
     (case gf_allow fs of
        None \<Rightarrow> []
      | Some t \<Rightarrow> map (\<lambda>l. normalize_number (before_hash l))
                   (filter (\<lambda>l. \<not> list_all is_space (before_hash l)) (split_lines t)))"

text \<open>\<open>normalize_number(v)\<close> of a JSON value, and \<open>float(v) >= t\<close>, false where \<open>float\<close> raises.\<close>

definition number_of :: "pylib \<Rightarrow> json \<Rightarrow> pystr" where
  "number_of lib v = normalize_number (if truthy v then py_str (lib_str lib) v else [])"

definition num_ge :: "json \<Rightarrow> time \<Rightarrow> bool" where
  "num_ge v t = (case v of JInt i \<Rightarrow> t \<le> of_int i | JFloat q \<Rightarrow> t \<le> q | JBool b \<Rightarrow> t \<le> of_bool b
     | JInf b \<Rightarrow> b | _ \<Rightarrow> False)"

definition float_ge :: "pylib \<Rightarrow> json \<Rightarrow> time \<Rightarrow> bool" where
  "float_ge lib v t =
     (case v of JStr s \<Rightarrow> (case lib_float lib s of Some w \<Rightarrow> num_ge w t | None \<Rightarrow> False) | _ \<Rightarrow> num_ge v t)"

definition grant_fresh :: "pylib \<Rightarrow> time \<Rightarrow> pystr \<Rightarrow> pystr \<Rightarrow> json \<Rightarrow> bool" where
  "grant_fresh lib now n kind g \<longleftrightarrow>
     is_obj g \<and> number_of lib (jget g ''number'') = n \<and> jget g ''kind'' = JStr kind \<and>
     float_ge lib (jget_or g ''expires'' (JInt 0)) now"

definition take_grant :: "pylib \<Rightarrow> time \<Rightarrow> pystr \<Rightarrow> pystr \<Rightarrow> gate_fs \<Rightarrow> bool \<times> gate_fs" where
  "take_grant lib now n kind fs =
     (if kind \<noteq> lit ''sms'' \<and> kind \<noteq> lit ''dial'' then (False, fs)
      else (case Option.bind (map_of (gf_grants fs) (n, kind)) json_loads of
              None \<Rightarrow> (False, fs)
            | Some g \<Rightarrow>
                if \<not> gf_unlink_ok fs then (False, fs)
                else (grant_fresh lib now n kind g, fs\<lparr>gf_grants := AList.delete (n, kind) (gf_grants fs)\<rparr>)))"

definition gate :: "pylib \<Rightarrow> time \<Rightarrow> pystr \<Rightarrow> pystr \<Rightarrow> gate_fs \<Rightarrow> pystr \<times> pystr option \<times> gate_fs" where
  "gate lib now number kind fs =
     (let n = normalize_number number in
      if \<not> valid_number n then (n, Some (lit ''invalid number''), fs)
      else if is_emergency n then (n, Some (lit ''refused: emergency or short number''), fs)
      else if \<not> gf_tx fs then (n, Some (lit ''refused: tx disabled (no tx_enabled file)''), fs)
      else if n \<in> set (allowlist fs) then (n, None, fs)
      else (let (ok, fs1) = take_grant lib now n kind fs in
            if ok then (n, None, fs1)
            else (n, Some (lit ''refused: number not in allowlist''), fs1)))"

section \<open>What passes the gate\<close>

text \<open>The permission the gate relies on: an allowlist line, or a fresh grant for this number and kind.\<close>

definition permitted :: "pylib \<Rightarrow> time \<Rightarrow> pystr \<Rightarrow> pystr \<Rightarrow> gate_fs \<Rightarrow> bool" where
  "permitted lib now n kind fs \<longleftrightarrow>
     n \<in> set (allowlist fs) \<or>
     (\<exists>txt g. map_of (gf_grants fs) (n, kind) = Some txt \<and> json_loads txt = Some g \<and>
        grant_fresh lib now n kind g)"

lemma take_grant_facts:
  assumes "take_grant lib now n kind fs = (ok, fs')"
  shows "gf_tx fs' = gf_tx fs" and "gf_allow fs' = gf_allow fs"
    and "ok \<Longrightarrow> permitted lib now n kind fs \<and> map_of (gf_grants fs') (n, kind) = None"
    and "map_of (gf_grants fs') \<subseteq>\<^sub>m map_of (gf_grants fs)"
  using assms by (auto simp: take_grant_def permitted_def bind_eq_Some_conv map_le_def split: if_splits option.splits)

lemma gate_passes:
  assumes "gate lib now number kind fs = (n, None, fs')"
  shows "n = normalize_number number" and "valid_number n" and "\<not> is_emergency n" and "gf_tx fs"
    and "n \<notin> set (allowlist fs) \<Longrightarrow> take_grant lib now n kind fs = (True, fs')"
    and "permitted lib now n kind fs"
    and "n \<notin> set (allowlist fs) \<Longrightarrow> map_of (gf_grants fs') (n, kind) = None"
proof -
  show n: "n = normalize_number number" "valid_number n" "\<not> is_emergency n" "gf_tx fs"
    using assms by (auto simp: gate_def Let_def split: if_splits prod.splits)
  show tg: "take_grant lib now n kind fs = (True, fs')" if "n \<notin> set (allowlist fs)"
    using assms n that by (auto simp: gate_def Let_def split: if_splits prod.splits)
  show "permitted lib now n kind fs"
    using take_grant_facts(3) [OF tg] by (cases "n \<in> set (allowlist fs)") (auto simp: permitted_def)
  show "map_of (gf_grants fs') (n, kind) = None" if "n \<notin> set (allowlist fs)"
    using take_grant_facts(3) [OF tg [OF that]] by simp
qed

lemma normalize_idem: "normalize_number (normalize_number x) = normalize_number x"
proof -
  let ?P = "\<lambda>c. \<not> (is_space c \<or> c \<in> set (lit ''-().''))"
  let ?f = "filter ?P x"
  have plus: "?P 43" by (simp add: is_space_def lit_def)
  show ?thesis
  proof (cases "take 2 ?f = lit ''00'' \<and> 4 < length ?f")
    case True
    have "normalize_number x = 43 # drop 2 ?f"
      using True by (simp add: normalize_number_def Let_def) (simp add: lit_def)
    moreover have "filter ?P (43 # drop 2 ?f) = 43 # drop 2 ?f"
      using plus by (simp add: filter_id_conv) (auto dest: in_set_dropD)
    moreover have "take 2 (43 # drop 2 ?f) \<noteq> lit ''00''" by (simp add: lit_def)
    ultimately show ?thesis by (simp only: normalize_number_def [of "43 # drop 2 ?f"] Let_def) simp
  next
    case False
    have ff: "filter ?P ?f = ?f" by simp
    have "normalize_number x = ?f"
      unfolding normalize_number_def Let_def using False by (rule if_not_P)
    moreover have "normalize_number ?f = ?f"
      unfolding normalize_number_def Let_def ff using False by (rule if_not_P)
    ultimately show ?thesis by simp
  qed
qed

text \<open>
  C5. Nothing leaves without permission: a number that passes the gate is well-formed, has at least
  seven digits and is no emergency number, transmission is switched on, and the number is on the
  allowlist or a fresh grant for exactly this number and kind of action existed, which is then gone.
\<close>

theorem gate_safe:
  assumes "gate lib now number kind fs = (n, None, fs')"
  shows "valid_number n \<and> filter ascii_digit n \<notin> set EMERGENCY \<and> MIN_DIGITS \<le> length (filter ascii_digit n) \<and> gf_tx fs \<and>
    permitted lib now n kind fs \<and>
    (n \<notin> set (allowlist fs) \<longrightarrow> map_of (gf_grants fs') (n, kind) = None)"
proof -
  note g = gate_passes [OF assms]
  have "normalize_number n = n" using g(1) normalize_idem [of number] by simp
  with g(2-7) show ?thesis by (simp add: is_emergency_def Let_def)
qed

definition demo_fs :: gate_fs where
  "demo_fs = \<lparr>gf_tx = True, gf_allow = Some (lit ''+30 690 000 0000 # me''), gf_grants = [], gf_unlink_ok = True\<rparr>"

definition demo_lib :: pylib where
  "demo_lib = \<lparr>lib_str = \<lambda>_. [], lib_float = \<lambda>_. None, lib_int = \<lambda>_. None\<rparr>"

lemmas gate_eval = gate_def Let_def valid_number_def is_emergency_def normalize_number_def lit_def is_space_def
  plus_sign_def ascii_digit_def EMERGENCY_def MIN_DIGITS_def allowlist_def before_hash_def is_eol_def

lemma demo_gate: "gate demo_lib 0 (lit ''+306900000000'') (lit ''sms'') demo_fs = (lit ''+306900000000'', None, demo_fs)"
  by (simp add: gate_eval demo_fs_def)

lemma gate_safe_witness:
  "valid_number (lit ''+306900000000'') \<and> gf_tx demo_fs \<and>
    permitted demo_lib 0 (lit ''+306900000000'') (lit ''sms'') demo_fs"
  using gate_safe [OF demo_gate] by blast

text \<open>
  A grant works once: after a number has passed the gate on a grant, the same request is refused
  until a new grant file is written.
\<close>

theorem grant_single_use:
  assumes "gate lib now number kind fs = (n, None, fs')" and "n \<notin> set (allowlist fs)"
  shows "gate lib now' number kind fs' = (n, Some (lit ''refused: number not in allowlist''), fs')"
proof -
  note g = gate_passes [OF assms(1)]
  note f = take_grant_facts [OF g(5) [OF assms(2)]]
  have "allowlist fs' = allowlist fs" using f(2) by (simp add: allowlist_def)
  moreover have "take_grant lib now' n kind fs' = (False, fs')"
  proof -
    have "map_of (gf_grants fs') (n, kind) = None" using g(7) assms(2) by blast
    then show ?thesis by (simp only: take_grant_def bind.bind_lzero option.case if_cancel)
  qed
  ultimately show ?thesis
    using g(2-4) assms(2) f(1) unfolding gate_def Let_def g(1) [symmetric] by simp
qed

definition demo_grant :: gate_fs where
  "demo_grant = demo_fs\<lparr>gf_grants := [((lit ''6900000001'', lit ''dial''),
     map unat (stock_json (PObj [(lit ''number'', PStr (lit ''6900000001'')), (lit ''kind'', PStr (lit ''dial'')),
       (lit ''expires'', PInt 60)])))]\<rparr>"

lemma demo_grant_passes:
  "gate demo_lib 59 (lit ''6900000001'') (lit ''dial'') demo_grant =
     (lit ''6900000001'', None, demo_grant\<lparr>gf_grants := []\<rparr>)"
proof -
  let ?v = "PObj [(lit ''number'', PStr (lit ''6900000001'')), (lit ''kind'', PStr (lit ''dial'')),
       (lit ''expires'', PInt 60)]"
  have "json_loads (map unat (stock_json ?v)) = Some (jval (psort ?v))"
    by (rule json_read_written) (simp add: lit_def scalar_def is_high_def is_low_def)
  moreover have "grant_fresh demo_lib 59 (lit ''6900000001'') (lit ''dial'') (jval (psort ?v))"
    by (simp add: grant_fresh_def is_obj_def jget_def jget_or_def jfields_def number_of_def truthy_def
        py_str_def float_ge_def num_ge_def normalize_number_def is_space_def lit_def)
  ultimately have "take_grant demo_lib 59 (lit ''6900000001'') (lit ''dial'') demo_grant =
      (True, demo_grant\<lparr>gf_grants := []\<rparr>)"
    by (simp add: take_grant_def demo_grant_def demo_fs_def)
  moreover have "normalize_number (lit ''6900000001'') = lit ''6900000001''" "valid_number (lit ''6900000001'')"
    "\<not> is_emergency (lit ''6900000001'')" "lit ''6900000001'' \<notin> set (allowlist demo_grant)" "gf_tx demo_grant"
    by (simp_all add: gate_eval demo_grant_def demo_fs_def)
  ultimately show ?thesis by (simp add: gate_def Let_def)
qed

lemma grant_single_use_witness:
  "gate demo_lib 59 (lit ''6900000001'') (lit ''dial'') (demo_grant\<lparr>gf_grants := []\<rparr>) =
     (lit ''6900000001'', Some (lit ''refused: number not in allowlist''), demo_grant\<lparr>gf_grants := []\<rparr>)"
  by (rule grant_single_use [OF demo_grant_passes]) (simp add: gate_eval demo_grant_def demo_fs_def)

end
