(* ===== verification/Phone_Sim.thy ===== *)
theory Phone_Sim
  imports Phone_Gate
begin

text \<open>
  The SIM side of \<open>Phone\<close> in \<^verbatim>\<open>phoned/s22-phoned.py\<close>: SIM status, PIN entry, the SMS start-up
  sequence, the memory report and the LTE attach profile. API threads, the worker and the reader share
  the state under a lock; what runs under one lock acquisition is one step here. \<open>enter_pin\<close>
  releases the lock while it waits for the modem, so it is two steps.
\<close>

section \<open>Outcomes of a request, deferred work\<close>

text \<open>What \<open>_req\<close> returns or raises: \<open>LinkDown\<close>, \<open>None\<close>, or the pending object.\<close>

datatype req_out = Down pystr | NoReply | Reply pending_req

definition req_ok :: "req_out \<Rightarrow> bool" where
  "req_ok out = (case out of Reply p \<Rightarrow> p_ok p | _ \<Rightarrow> False)"

definition req_gen :: "req_out \<Rightarrow> gen_res option" where
  "req_gen out = (case out of Reply p \<Rightarrow> p_gen p | _ \<Rightarrow> None)"

datatype job = JStartup | JDeviceReady | JAutoPin | JQuerySim | JMemAvail | JLteAttach
  | JSweep | JAckSms bytes | JRefreshCalls | JNetDown int

record sim_st =
  ss_sim :: pystr
  ss_pin_attempted :: bool
  ss_auto_done :: bool
  ss_failures :: nat
  ss_sms_ready :: bool
  ss_mem_reported :: time
  ss_lte_done :: bool
  ss_work :: "job list"

definition sim_init :: sim_st where
  "sim_init = \<lparr>ss_sim = lit ''UNKNOWN'', ss_pin_attempted = False, ss_auto_done = False, ss_failures = 0,
     ss_sms_ready = False, ss_mem_reported = 0, ss_lte_done = False, ss_work = []\<rparr>"

definition defer_job :: "job \<Rightarrow> sim_st \<Rightarrow> sim_st" where
  "defer_job j st = st\<lparr>ss_work := ss_work st @ [j]\<rparr>"

definition usable :: "pystr \<Rightarrow> bool" where
  "usable s \<longleftrightarrow> s \<in> SIM_USABLE"

definition PIN_LOCK :: pystr where
  "PIN_LOCK = lit ''LOCK_SC(PIN)''"

section \<open>SIM status and link changes\<close>

definition on_sim :: "byte \<Rightarrow> sim_info \<Rightarrow> sim_st \<Rightarrow> sim_st" where
  "on_sim ty d st =
     (if ty \<notin> {RESP, NOTI, INDI} then st
      else
        (let name = sim_name (si_status d) (si_fac d);
             changed = (name \<noteq> ss_sim st);
             st1 = st\<lparr>ss_sim := name\<rparr>;
             st2 = (if changed \<and> usable name \<and> \<not> ss_sms_ready st1 then defer_job JDeviceReady st1 else st1)
         in if name = PIN_LOCK \<and> si_fac d \<in> {None, Some 0, Some FAC_PIN1}
            then defer_job JAutoPin st2 else st2))"

definition on_link :: "bool \<Rightarrow> sim_st \<Rightarrow> sim_st" where
  "on_link up st =
     (if up then defer_job JStartup st
      else st\<lparr>ss_sms_ready := False, ss_mem_reported := 0, ss_lte_done := False\<rparr>)"

section \<open>PIN entry\<close>

definition valid_pin :: "pystr \<Rightarrow> bool" where
  "valid_pin pin \<longleftrightarrow> 4 \<le> length pin \<and> length pin \<le> 8 \<and> list_all ascii_digit pin"

definition pin_body :: "pystr \<Rightarrow> bytes" where
  "pin_body pin =
     [0x03, of_nat (length pin), 0] @ map of_nat pin @ replicate (8 - length pin) 0 @ replicate 8 0"

record pin_result =
  pr_ok :: bool
  pr_error :: "pystr option"
  pr_code :: "nat option"

definition pin_error :: "pystr \<Rightarrow> pin_result" where
  "pin_error e = \<lparr>pr_ok = False, pr_error = Some e, pr_code = None\<rparr>"

text \<open>Up to the request: an error, or the body to send.\<close>

definition pin_check :: "pystr \<Rightarrow> sim_st \<Rightarrow> sim_st \<times> (pin_result + bytes)" where
  "pin_check pin st =
     (if \<not> valid_pin pin then (st, Inl (pin_error (lit ''pin must be 4-8 digits'')))
      else if ss_sim st \<noteq> PIN_LOCK
      then (st, Inl (pin_error (lit ''sim is '' @ ss_sim st @ lit '', not waiting for PIN'')))
      else if 2 \<le> ss_failures st
      then (st, Inl (pin_error (lit ''refused: 2 failed PIN attempts this run (PUK protection)'')))
      else (st\<lparr>ss_pin_attempted := True\<rparr>, Inr (pin_body pin)))"

text \<open>After it.\<close>

definition pin_finish :: "req_out \<Rightarrow> sim_st \<Rightarrow> sim_st \<times> pin_result" where
  "pin_finish out st =
     (case out of
        Down e \<Rightarrow> (st, pin_error e)
      | _ \<Rightarrow>
          (if req_ok out then (defer_job JQuerySim st, \<lparr>pr_ok = True, pr_error = None, pr_code = None\<rparr>)
           else
             (st\<lparr>ss_failures := ss_failures st + 1\<rparr>,
              let code = (case req_gen out of Some g \<Rightarrow> if g_code g \<noteq> 0 then Some (g_code g) else None | None \<Rightarrow> None)
              in \<lparr>pr_ok = False,
                  pr_error = Some (if code \<noteq> None then lit ''pin rejected'' else lit ''no reply from modem''),
                  pr_code = code\<rparr>)))"

definition enter_pin :: "pystr \<Rightarrow> req_out \<Rightarrow> sim_st \<Rightarrow> sim_st \<times> pin_result" where
  "enter_pin pin out st =
     (case pin_check pin st of
        (st1, Inl r) \<Rightarrow> (st1, r)
      | (st1, Inr body) \<Rightarrow> pin_finish out st1)"

text \<open>\<open>_read_pin_file\<close> gives the PIN of the file, or \<open>None\<close> when it refuses the file or its text.\<close>

record pin_file =
  pf_regular :: bool
  pf_mode :: nat
  pf_owner_ok :: bool
  pf_text :: pystr

definition strip :: "pystr \<Rightarrow> pystr" where
  "strip s = rev (dropWhile is_space (rev (dropWhile is_space s)))"

definition read_pin_file :: "pin_file option \<Rightarrow> pystr option" where
  "read_pin_file f =
     (case f of
        None \<Rightarrow> None
      | Some p \<Rightarrow>
          (if \<not> pf_regular p \<or> pf_mode p AND 0x3F \<noteq> 0 \<or> \<not> pf_owner_ok p then None
           else if valid_pin (strip (pf_text p)) then Some (strip (pf_text p)) else None))"

definition auto_pin :: "pin_file option \<Rightarrow> req_out \<Rightarrow> sim_st \<Rightarrow> sim_st" where
  "auto_pin f out st =
     (if ss_auto_done st \<or> ss_failures st \<noteq> 0 \<or> ss_sim st \<noteq> PIN_LOCK then st
      else
        (let st1 = st\<lparr>ss_auto_done := True\<rparr> in
         case read_pin_file f of None \<Rightarrow> st1 | Some pin \<Rightarrow> fst (enter_pin pin out st1)))"

section \<open>The SMS start-up and the memory report\<close>

definition MEM_SIM :: byte where "MEM_SIM = 0x02"

text \<open>\<open>None\<close>: not sent; otherwise the body of \<open>SMS_MEM_STATUS\<close>. \<open>now\<close> is the monotonic clock.\<close>

definition report_memory_available :: "bool \<Rightarrow> time \<Rightarrow> sim_st \<Rightarrow> sim_st \<times> bytes option" where
  "report_memory_available force now st =
     (if now - ss_mem_reported st < (if force then 5 else 600) then (st, None)
      else (st\<lparr>ss_mem_reported := now\<rparr>, Some [MEM_SIM, 0x01]))"

text \<open>The second component: whether \<open>sweep_sim\<close> runs next.\<close>

definition sms_device_ready :: "req_out \<Rightarrow> time \<Rightarrow> sim_st \<Rightarrow> sim_st \<times> bool \<times> bytes option" where
  "sms_device_ready out now st =
     (if req_ok out then
        (let first = (\<not> ss_sms_ready st);
             (st2, rep) = report_memory_available False now (st\<lparr>ss_sms_ready := True\<rparr>)
         in (st2, first, rep))
      else (st, False, None))"

text \<open>The requests of one \<open>poll\<close> on an open link that stays up, and the work it queues.\<close>

definition poll :: "bool \<Rightarrow> sim_st \<Rightarrow> sim_st \<times> ((byte \<times> byte) \<times> byte \<times> bytes) list" where
  "poll link_open st =
     (if \<not> link_open then (st, [])
      else
        (if usable (ss_sim st) \<and> \<not> ss_lte_done st then defer_job JLteAttach st else st,
         (if \<not> usable (ss_sim st) then [(SEC_PIN_STATUS, GET, [])] else []) @
         [(NET_REGIST, GET, [0xFF, 2]), (NET_REGIST, GET, [0xFF, 3]),
          (NET_CURRENT_PLMN, GET, []), (DISP_RSSI_INFO, GET, [])] @
         (if usable (ss_sim st) \<and> \<not> ss_sms_ready st then [(SMS_DEVICE_READY, SETT, [])] else [])))"

section \<open>The LTE attach profile\<close>

record lte_config =
  lc_enabled :: bool
  lc_apn :: pystr

definition DEFAULT_APN :: pystr where
  "DEFAULT_APN = lit ''internet.vodafone.gr''"

text \<open>\<open>raw\<close>: the parsed file, \<open>None\<close> when it is missing or unreadable; then the command line.\<close>

definition lte_attach_config :: "json option \<Rightarrow> bool option \<Rightarrow> pystr option \<Rightarrow> lte_config" where
  "lte_attach_config raw enabled apn =
     (let c0 = \<lparr>lc_enabled = True, lc_apn = DEFAULT_APN\<rparr>;
          c1 = (case raw of
                  None \<Rightarrow> c0
                | Some j \<Rightarrow>
                    (let a = (case jget j ''enabled'' of JBool b \<Rightarrow> c0\<lparr>lc_enabled := b\<rparr> | _ \<Rightarrow> c0)
                     in case jget j ''apn'' of JStr t \<Rightarrow> a\<lparr>lc_apn := t\<rparr> | _ \<Rightarrow> a));
          c2 = (case enabled of Some b \<Rightarrow> c1\<lparr>lc_enabled := b\<rparr> | None \<Rightarrow> c1)
      in case apn of Some t \<Rightarrow> c2\<lparr>lc_apn := t\<rparr> | None \<Rightarrow> c2)"

text \<open>The body to send, if any: the guards and the flag are one step under the lock.\<close>

definition send_lte_attach :: "bool \<Rightarrow> lte_config \<Rightarrow> sim_st \<Rightarrow> sim_st \<times> bytes option" where
  "send_lte_attach online cfg st =
     (if ss_lte_done st \<or> \<not> usable (ss_sim st) \<or> \<not> online then (st, None)
      else
        (st\<lparr>ss_lte_done := True\<rparr>,
         if lc_enabled cfg
         then (case lte_attach_apn_body (lc_apn cfg) 1 of Inr b \<Rightarrow> Some b | Inl _ \<Rightarrow> None)
         else None))"

section \<open>Runs, one operation at a time\<close>

datatype sim_ev =
    EvPin pystr req_out | EvAutoPin "pin_file option" req_out | EvSim byte sim_info | EvLink bool
  | EvReady req_out time | EvMem bool time | EvPoll bool | EvLte bool lte_config

datatype sim_sent = SPin bytes req_out | SMem bytes | SLte bytes | SReq "(byte \<times> byte) \<times> byte \<times> bytes"

definition pin_sent :: "pystr \<Rightarrow> req_out \<Rightarrow> sim_st \<Rightarrow> sim_sent list" where
  "pin_sent pin out st = (case snd (pin_check pin st) of Inr b \<Rightarrow> [SPin b out] | Inl _ \<Rightarrow> [])"

fun sim_step :: "sim_st \<Rightarrow> sim_ev \<Rightarrow> sim_st \<times> sim_sent list" where
  "sim_step st (EvPin pin out) = (fst (enter_pin pin out st), pin_sent pin out st)"
| "sim_step st (EvAutoPin f out) =
     (auto_pin f out st,
      if ss_auto_done st \<or> ss_failures st \<noteq> 0 \<or> ss_sim st \<noteq> PIN_LOCK then []
      else (case read_pin_file f of None \<Rightarrow> [] | Some pin \<Rightarrow> pin_sent pin out (st\<lparr>ss_auto_done := True\<rparr>)))"
| "sim_step st (EvSim ty d) = (on_sim ty d st, [])"
| "sim_step st (EvLink up) = (on_link up st, [])"
| "sim_step st (EvReady out now) =
     (let (st1, _, rep) = sms_device_ready out now st
      in (st1, case rep of Some b \<Rightarrow> [SMem b] | None \<Rightarrow> []))"
| "sim_step st (EvMem force now) =
     (let (st1, rep) = report_memory_available force now st
      in (st1, case rep of Some b \<Rightarrow> [SMem b] | None \<Rightarrow> []))"
| "sim_step st (EvPoll up) = (let (st1, rs) = poll up st in (st1, map SReq rs))"
| "sim_step st (EvLte online cfg) =
     (let (st1, b) = send_lte_attach online cfg st
      in (st1, case b of Some b \<Rightarrow> [SLte b] | None \<Rightarrow> []))"

text \<open>A PIN attempt the modem rejected or left unanswered.\<close>

definition pin_failed :: "sim_sent \<Rightarrow> bool" where
  "pin_failed s = (case s of SPin _ (Down _) \<Rightarrow> False | SPin _ out \<Rightarrow> \<not> req_ok out | _ \<Rightarrow> False)"

lemma pin_check_fields:
  assumes "pin_check pin st = (st1, r)"
  shows "ss_failures st1 = ss_failures st" and "r = Inr b \<Longrightarrow> ss_failures st < 2"
  using assms by (auto simp: pin_check_def split: if_splits)

lemma enter_pin_failures:
  "ss_failures (fst (enter_pin pin out st)) =
     ss_failures st + length (filter pin_failed (pin_sent pin out st))"
proof -
  obtain st1 r where c: "pin_check pin st = (st1, r)" by fastforce
  show ?thesis
    using pin_check_fields(1) [OF c] c
    by (cases r; cases out)
      (auto simp: enter_pin_def pin_sent_def pin_finish_def pin_failed_def defer_job_def req_ok_def Let_def)
qed

lemma pin_sent_bound: "ss_failures st \<le> 2 \<Longrightarrow> ss_failures (fst (enter_pin pin out st)) \<le> 2"
proof -
  assume le: "ss_failures st \<le> 2"
  obtain st1 r where c: "pin_check pin st = (st1, r)" by fastforce
  have "length (filter pin_failed (pin_sent pin out st)) \<le> (if ss_failures st < 2 then 1 else 0)"
    using pin_check_fields(2) [OF c] c by (cases r) (auto simp: pin_sent_def)
  with le show ?thesis by (simp add: enter_pin_failures split: if_splits)
qed

lemma sim_step_failures:
  assumes "sim_step st ev = (st', sent)" and "ss_failures st \<le> 2"
  shows "ss_failures st' = ss_failures st + length (filter pin_failed sent) \<and> ss_failures st' \<le> 2"
proof (cases ev)
  case (EvPin pin out)
  with assms enter_pin_failures [of pin out st] pin_sent_bound [of st pin out] show ?thesis by auto
next
  case (EvAutoPin f out)
  show ?thesis
  proof (cases "ss_auto_done st \<or> ss_failures st \<noteq> 0 \<or> ss_sim st \<noteq> PIN_LOCK")
    case True
    then show ?thesis using assms EvAutoPin by (auto simp: auto_pin_def)
  next
    case False
    then show ?thesis
      using assms EvAutoPin enter_pin_failures [of _ out "st\<lparr>ss_auto_done := True\<rparr>"]
        pin_sent_bound [of "st\<lparr>ss_auto_done := True\<rparr>" _ out]
      by (auto simp: auto_pin_def Let_def split: option.splits)
  qed
next
  case (EvSim ty d)
  with assms show ?thesis by (auto simp: on_sim_def defer_job_def Let_def)
next
  case (EvLink up)
  with assms show ?thesis by (auto simp: on_link_def defer_job_def)
next
  case (EvReady out now)
  with assms show ?thesis
    by (auto simp: sms_device_ready_def report_memory_available_def pin_failed_def Let_def split: if_splits)
next
  case (EvMem force now)
  with assms show ?thesis by (auto simp: report_memory_available_def pin_failed_def split: if_splits)
next
  case (EvPoll up)
  with assms show ?thesis by (auto simp: poll_def pin_failed_def defer_job_def comp_def split: if_splits)
next
  case (EvLte online cfg)
  with assms show ?thesis
    by (auto simp: send_lte_attach_def pin_failed_def split: if_splits option.splits sum.splits)
qed

text \<open>
  C24. PUK protection, one request at a time: whatever the daemon is asked and told, as long as PIN
  requests do not overlap, at most two PINs that the SIM rejects or leaves unanswered are ever sent,
  so that the third attempt that would lock the SIM is never made.
\<close>

theorem pin_attempts_bounded:
  assumes "run_chunks sim_step sim_init evs = (st', sent)"
  shows "length (filter pin_failed sent) \<le> 2"
proof -
  have "ss_failures st' = ss_failures st + length (filter pin_failed sent) \<and> ss_failures st' \<le> 2"
    if "run_chunks sim_step st evs = (st', sent)" "ss_failures st \<le> 2" for st
    using that
  proof (induction evs arbitrary: st sent)
    case Nil
    then show ?case by simp
  next
    case (Cons ev evs)
    obtain st1 out1 where s: "sim_step st ev = (st1, out1)" by fastforce
    obtain out2 where r: "run_chunks sim_step st1 evs = (st', out2)" "sent = out1 @ out2"
      using Cons.prems(1) s by (auto split: prod.splits)
    show ?case using sim_step_failures [OF s Cons.prems(2)] Cons.IH [OF r(1)] r(2) by simp
  qed
  from this [OF assms] show ?thesis by (simp add: sim_init_def)
qed

definition pin_locked_info :: sim_info where
  "pin_locked_info = \<lparr>si_status = Some 3, si_fac = Some 1\<rparr>"

lemma pin_attempts_bounded_witness:
  "length (filter pin_failed [SPin (pin_body (lit ''1234'')) NoReply, SPin (pin_body (lit ''4321'')) NoReply]) \<le> 2"
  by (rule pin_attempts_bounded [where evs = "[EvSim RESP pin_locked_info, EvPin (lit ''1234'') NoReply,
      EvPin (lit ''4321'') NoReply, EvPin (lit ''1111'') NoReply]"])
    (simp add: pin_locked_info_def on_sim_def sim_name_def SIM_STATUS_def PIN_LOCK_def sim_init_def defer_job_def
      enter_pin_def pin_sent_def pin_check_def pin_finish_def valid_pin_def ascii_digit_def lit_def
      FAC_PUK_def FAC_BLOCKED_def FAC_PIN1_def req_ok_def req_gen_def RESP_def NOTI_def INDI_def usable_def
      SIM_USABLE_def Let_def)

section \<open>Overlapping PIN requests\<close>

text \<open>
  The HTTP server runs every request in its own thread, and \<open>enter_pin\<close> does not hold the lock from
  its check to the count of its failure. A schedule of checks and replies of concurrent requests:
\<close>

datatype pin_op = PinCheck pystr | PinReply req_out

fun pin_sched :: "pin_op list \<Rightarrow> sim_st \<times> nat \<Rightarrow> sim_st \<times> nat" where
  "pin_sched [] s = s"
| "pin_sched (PinCheck pin # ops) (st, flying) =
     (case pin_check pin st of
        (st1, Inl _) \<Rightarrow> pin_sched ops (st1, flying)
      | (st1, Inr _) \<Rightarrow> pin_sched ops (st1, flying + 1))"
| "pin_sched (PinReply out # ops) (st, flying) =
     (if flying = 0 then pin_sched ops (st, flying)
      else pin_sched ops (fst (pin_finish out st), flying - 1))"

lemma pin_sched_checks:
  assumes "valid_pin pin" and "ss_sim st = PIN_LOCK" and "ss_failures st < 2"
  shows "pin_sched (replicate n (PinCheck pin) @ ops) (st, k) =
    pin_sched ops (if n = 0 then st else st\<lparr>ss_pin_attempted := True\<rparr>, k + n)"
  using assms
proof (induction n arbitrary: st k)
  case (Suc n)
  then have "pin_check pin st = (st\<lparr>ss_pin_attempted := True\<rparr>, Inr (pin_body pin))" by (simp add: pin_check_def)
  then show ?case using Suc.IH [of "st\<lparr>ss_pin_attempted := True\<rparr>" "k + 1"] Suc.prems by simp
qed simp

lemma pin_sched_replies:
  "ss_failures (fst (pin_sched (replicate n (PinReply NoReply)) (st, n))) = ss_failures st + n"
  by (induction n arbitrary: st) (auto simp: pin_finish_def req_ok_def)

text \<open>
  The limit does not survive concurrency: when \<open>n\<close> PIN requests arrive before the first is
  answered, all of them pass the check and all are sent, so the count of failures reaches \<open>n\<close>,
  for every \<open>n\<close>, although the code means to stop at two.
\<close>

theorem pin_race:
  assumes "valid_pin pin" and "ss_sim st = PIN_LOCK" and "ss_failures st = 0"
  shows "ss_failures (fst (pin_sched (replicate n (PinCheck pin) @ replicate n (PinReply NoReply)) (st, 0))) = n"
  using pin_sched_checks [OF assms(1,2), of n "replicate n (PinReply NoReply)" 0] assms(3)
    pin_sched_replies [of n st] pin_sched_replies [of n "st\<lparr>ss_pin_attempted := True\<rparr>"]
  by (cases "n = 0") simp_all

lemma pin_race_witness:
  "ss_failures (fst (pin_sched (replicate 3 (PinCheck (lit ''1234'')) @ replicate 3 (PinReply NoReply))
     (sim_init\<lparr>ss_sim := PIN_LOCK\<rparr>, 0))) = 3"
  by (rule pin_race) (simp_all add: sim_init_def valid_pin_def lit_def ascii_digit_def)

section \<open>The attach profile and the memory report\<close>

definition is_lte :: "sim_sent \<Rightarrow> bool" where
  "is_lte s = (case s of SLte _ \<Rightarrow> True | _ \<Rightarrow> False)"

lemma enter_pin_lte: "ss_lte_done (fst (enter_pin pin out st)) = ss_lte_done st"
  by (auto simp: enter_pin_def pin_check_def pin_finish_def defer_job_def Let_def split: req_out.splits)

lemma pin_sent_lte: "filter is_lte (pin_sent pin out st) = []"
  by (auto simp: pin_sent_def is_lte_def split: sum.splits)

lemma lte_step:
  assumes "sim_step st ev = (st', sent)" and "ev \<noteq> EvLink False"
  shows "length (filter is_lte sent) \<le> (if ss_lte_done st then 0 else if ss_lte_done st' then 1 else 0) \<and>
    (ss_lte_done st \<longrightarrow> ss_lte_done st')"
proof (cases ev)
  case (EvPin pin out)
  then show ?thesis using assms enter_pin_lte [of pin out st] pin_sent_lte [of pin out st] by auto
next
  case (EvAutoPin f out)
  then show ?thesis
    using assms enter_pin_lte [of _ out "st\<lparr>ss_auto_done := True\<rparr>"] pin_sent_lte
    by (auto simp: auto_pin_def Let_def split: option.splits if_splits)
next
  case (EvSim ty d)
  with assms show ?thesis by (auto simp: on_sim_def defer_job_def Let_def)
next
  case (EvLink up)
  with assms show ?thesis by (auto simp: on_link_def defer_job_def)
next
  case (EvReady out now)
  with assms show ?thesis
    by (auto simp: sms_device_ready_def report_memory_available_def is_lte_def Let_def split: if_splits)
next
  case (EvMem force now)
  with assms show ?thesis by (auto simp: report_memory_available_def is_lte_def split: if_splits)
next
  case (EvPoll up)
  with assms show ?thesis by (auto simp: poll_def is_lte_def defer_job_def comp_def split: if_splits)
next
  case (EvLte online cfg)
  with assms show ?thesis
    by (auto simp: send_lte_attach_def is_lte_def split: if_splits option.splits sum.splits)
qed

text \<open>
  One attach profile per modem start: between two losses of the link, whatever else happens, at
  most one LTE attach profile is sent.
\<close>

theorem lte_attach_once:
  assumes "run_chunks sim_step st evs = (st', sent)" and "EvLink False \<notin> set evs"
  shows "length (filter is_lte sent) \<le> 1"
proof -
  have "length (filter is_lte sent) \<le> (if ss_lte_done st then 0 else 1)"
    using assms
  proof (induction evs arbitrary: st sent)
    case Nil
    then show ?case by simp
  next
    case (Cons ev evs)
    obtain st1 out1 where s: "sim_step st ev = (st1, out1)" by fastforce
    obtain out2 where r: "run_chunks sim_step st1 evs = (st', out2)" "sent = out1 @ out2"
      using Cons.prems(1) s by (auto split: prod.splits)
    have "ev \<noteq> EvLink False" "EvLink False \<notin> set evs" using Cons.prems(2) by auto
    then show ?case using lte_step [OF s] Cons.IH [OF r(1)] r(2) by (auto split: if_splits)
  qed
  then show ?thesis by (simp split: if_splits)
qed

lemma lte_attach_once_witness:
  "length (filter is_lte (snd (run_chunks sim_step (sim_init\<lparr>ss_sim := lit ''READY''\<rparr>)
     [EvPoll True, EvLte True \<lparr>lc_enabled = True, lc_apn = DEFAULT_APN\<rparr>, EvLte True \<lparr>lc_enabled = True, lc_apn = DEFAULT_APN\<rparr>]))) \<le> 1"
  by (rule lte_attach_once [where evs = "[EvPoll True, EvLte True \<lparr>lc_enabled = True, lc_apn = DEFAULT_APN\<rparr>,
      EvLte True \<lparr>lc_enabled = True, lc_apn = DEFAULT_APN\<rparr>]", OF surjective_pairing]) simp

text \<open>
  The start-up report of free SMS memory is not sent while the monotonic clock, which counts from
  boot, is below 600 seconds: the initial stamp is zero, not minus infinity.
\<close>

lemma mem_report_suppressed:
  assumes "now < 600" and "req_ok out"
  shows "snd (snd (sms_device_ready out now sim_init)) = None"
  using assms by (simp add: sms_device_ready_def report_memory_available_def sim_init_def)

end
