(* ===== verification/Phone_Outbox.thy ===== *)
theory Phone_Outbox
  imports Phone_Sim
begin

text \<open>
  Outbound SMS of \<open>Phone\<close> in \<^verbatim>\<open>phoned/s22-phoned.py\<close>: \<open>send_sms\<close>, \<open>_send_parts\<close> and the
  status reports that come back (\<open>_on_status_report\<close>). The replies of the modem, the clock and the
  outcome of the file writes are arguments; the bodies handed to the modem are a result.
\<close>

section \<open>Outbox records and ids\<close>

datatype out_status = Refused | Failed | Queued | Sent

record out_rec =
  o_id :: pystr
  o_to :: pystr
  o_text :: pystr
  o_ts :: time
  o_parts :: nat
  o_status :: out_status
  o_delivered :: "bool option"
  o_mrs :: "nat option list"
  o_error :: "pystr option"
  o_reports :: "(nat option, bool option) dict"

datatype phone_event =
    SmsSent pystr pystr nat out_status
  | SmsReceived pystr pystr pystr nat
  | SmsDelivered pystr pystr "bool option"

text \<open>\<open>f"{prefix}-{int(time.time() * 1000)}-{self.counter}"\<close>\<close>

definition new_id :: "string \<Rightarrow> time \<Rightarrow> nat \<Rightarrow> pystr" where
  "new_id prefix now counter =
     lit prefix @ [45] @ dec_digits (nat \<lfloor>now * 1000\<rfloor>) @ [45] @ dec_digits counter"

record sms_st =
  sm_outbox :: "(pystr, out_rec) jsonl_store"
  sm_counter :: nat
  sm_ref :: nat
  sm_rate :: rate_limit
  sm_smsc :: "bytes option"
  sm_fs :: gate_fs
  sm_sim :: pystr
  sm_open :: bool
  sm_events :: "phone_event event_bus"

definition outbox_put :: "bool \<Rightarrow> out_rec \<Rightarrow> sms_st \<Rightarrow> sms_st \<times> (pyerr + unit)" where
  "outbox_put ok r st =
     (let (s, e) = js_put ok (o_id r) r (sm_outbox st) in (st\<lparr>sm_outbox := s\<rparr>, e))"

definition emit :: "phone_event \<Rightarrow> sms_st \<Rightarrow> sms_st" where
  "emit e st = st\<lparr>sm_events := eb_emit e (sm_events st)\<rparr>"

section \<open>The parts of a message\<close>

text \<open>\<open>f"0x{code:04x}"\<close>\<close>

definition hex04 :: "nat \<Rightarrow> pystr" where
  "hex04 n = (let ds = hex_digits n in lit ''0x'' @ replicate (4 - length ds) 48 @ ds)"

text \<open>\<open>bytes([...])\<close> raises for a length above 255.\<close>

definition part_body :: "bytes \<Rightarrow> nat \<Rightarrow> nat \<Rightarrow> bytes \<Rightarrow> pyerr + bytes" where
  "part_body smsc tot k pdu =
     (let body = [of_nat (length smsc)] @ smsc @ pdu in
      if 255 < length smsc \<or> 255 < length body then Inl ValueError
      else Inr ([0x02, if k + 1 < tot then 0x01 else 0x02, 0x00, of_nat (length body)] @ body))"

definition ack_result :: "(nat \<times> nat option) option \<Rightarrow> (out_status \<times> pystr) + nat option" where
  "ack_result r =
     (case r of
        None \<Rightarrow> Inl (Queued, lit ''no send confirmation yet'')
      | Some (code, i) \<Rightarrow> if code \<noteq> 0 then Inl (Failed, lit ''network ack '' @ hex04 code) else Inr i)"

text \<open>
  What one part comes to, from the outcome of its request and the acknowledgement that arrived in the
  queue afterwards (\<open>None\<close>: the wait timed out): a final status, or the reference of the sent part.
\<close>

definition part_result :: "nat \<Rightarrow> req_out \<Rightarrow> sms_ack option \<Rightarrow> (out_status \<times> pystr) + nat option" where
  "part_result k out ack =
     (case out of
        Down e \<Rightarrow> Inl (if k \<noteq> 0 then Queued else Failed, e)
      | NoReply \<Rightarrow> Inl (Queued, lit ''no send confirmation yet'')
      | Reply p \<Rightarrow>
          (let r = (case p_resp p of
                      Some fr \<Rightarrow>
                        Some (case dec_sms_send (payload fr) of Some a \<Rightarrow> (sa_ack a, Some (sa_id a)) | None \<Rightarrow> (0, None))
                    | None \<Rightarrow> map_option (\<lambda>a. (sa_ack a, Some (sa_id a))) ack)
           in case p_gen p of
                Some g \<Rightarrow>
                  if \<not> g_ok g then Inl (Failed, lit ''modem error '' @ hex04 (g_code g)) else ack_result r
              | None \<Rightarrow> ack_result r))"

type_synonym part_env = "nat \<Rightarrow> req_out \<times> sms_ack option"

text \<open>
  The loop of \<open>_send_parts\<close>: the bodies sent, the references recorded in \<open>rec["mrs"]\<close>, and the
  final status. \<open>rec["mrs"]\<close> keeps the references of the parts before a failure.
\<close>

fun send_loop :: "bytes \<Rightarrow> nat \<Rightarrow> part_env \<Rightarrow> nat \<Rightarrow> bytes list \<Rightarrow>
    pyerr + bytes list \<times> nat option list \<times> out_status \<times> pystr option" where
  "send_loop smsc tot env k [] = Inr ([], [], Sent, None)"
| "send_loop smsc tot env k (pdu # pdus) =
     try_r (part_body smsc tot k pdu) (\<lambda>body.
       (case part_result k (fst (env k)) (snd (env k)) of
          Inl (status, e) \<Rightarrow> Inr ([body], [], status, Some e)
        | Inr i \<Rightarrow>
            try_r (send_loop smsc tot env (k + 1) pdus) (\<lambda>(bodies, mrs, r).
              Inr (body # bodies, i # mrs, r))))"

text \<open>
  \<open>_send_parts\<close>: \<open>smsc_req\<close> is the outcome of the request for the service centre and what the
  reader thread has stored of it, when it is not known yet.
\<close>

definition send_parts :: "bytes option \<Rightarrow> req_out \<times> bytes option \<Rightarrow> part_env \<Rightarrow> bytes list \<Rightarrow>
    pyerr + bytes list \<times> nat option list \<times> out_status \<times> pystr option" where
  "send_parts smsc smsc_req env pdus =
     (case (smsc, fst smsc_req) of
        (None, Down e) \<Rightarrow> Inr ([], [], Failed, Some e)
      | _ \<Rightarrow>
          (let known = (case smsc of Some b \<Rightarrow> Some b | None \<Rightarrow> snd smsc_req)
           in send_loop (case known of Some b \<Rightarrow> b | None \<Rightarrow> []) (length pdus) env 0 pdus))"

section \<open>send_sms\<close>

record send_env =
  se_lib :: pylib
  se_now :: time
  se_write_ok :: bool
  se_smsc :: "req_out \<times> bytes option"
  se_parts :: part_env

record send_reply =
  sr_code :: nat
  sr_ok :: bool
  sr_id :: "pystr option"
  sr_parts :: nat
  sr_status :: pystr
  sr_error :: "pystr option"

definition status_name :: "out_status \<Rightarrow> pystr" where
  "status_name s = (case s of Refused \<Rightarrow> lit ''refused'' | Failed \<Rightarrow> lit ''failed''
     | Queued \<Rightarrow> lit ''queued'' | Sent \<Rightarrow> lit ''sent'')"

definition contains :: "pystr \<Rightarrow> pystr \<Rightarrow> bool" where
  "contains sub s \<longleftrightarrow> list_ex (\<lambda>i. take (length sub) (drop i s) = sub) [0..<length s + 1]"

definition starts_with :: "pystr \<Rightarrow> pystr \<Rightarrow> bool" where
  "starts_with pre s \<longleftrightarrow> take (length pre) s = pre"

text \<open>
  The text of the \<open>ValueError\<close> of \<open>build_submit_pdus\<close>. The number passed the gate, so what can go
  wrong is the length of the text, or a lone surrogate (whose long message starts as given here).
\<close>

definition part_count :: "pystr \<Rightarrow> nat" where
  "part_count t = (case split_text t (2 * length t + 1) of Inr (_, cs) \<Rightarrow> length cs | Inl _ \<Rightarrow> 0)"

definition build_error :: "pystr \<Rightarrow> pystr" where
  "build_error t =
     (if gsm7_septets t = None \<and> \<not> list_all scalar t then [39] @ lit ''utf-16-be'' @ [39] @ lit '' codec can'' @ [39] @ lit ''t encode character''
      else lit ''message too long ('' @ dec_digits (part_count t) @ lit '' parts)'')"

definition refusal_code :: "pystr \<Rightarrow> nat" where
  "refusal_code err =
     (if starts_with (lit ''modem'') err \<or> starts_with (lit ''sim'') err then 503
      else if contains (lit ''rate'') err then 429
      else if contains (lit ''invalid'') err \<or> contains (lit ''long'') err \<or> contains (lit ''empty'') err then 400
      else 403)"

text \<open>The part before the transmission: the gate and the other checks, up to the PDUs to send.\<close>

definition send_checks :: "send_env \<Rightarrow> pystr \<Rightarrow> pystr \<Rightarrow> sms_st \<Rightarrow> sms_st \<times> pystr \<times> (pystr + bytes list)" where
  "send_checks env to t st =
     (let (n, err, fs) = gate (se_lib env) (se_now env) to (lit ''sms'') (sm_fs st);
          st1 = st\<lparr>sm_fs := fs, sm_counter := sm_counter st + 1\<rparr>
      in case err of
           Some e \<Rightarrow> (st1, n, Inl e)
         | None \<Rightarrow>
             (let ref = (sm_ref st1 + 1) mod 256; st2 = st1\<lparr>sm_ref := ref\<rparr> in
              case build_submit_pdus n t ref True 10 of
                Inl _ \<Rightarrow> (st2, n, Inl (build_error t))
              | Inr pdus \<Rightarrow>
                  if \<not> sm_open st2 then (st2, n, Inl (lit ''modem not open''))
                  else if \<not> usable (sm_sim st2) then (st2, n, Inl (lit ''sim not ready ('' @ sm_sim st2 @ lit '')''))
                  else (let (rl, ok) = rl_take (sm_rate st2) (se_now env); st3 = st2\<lparr>sm_rate := rl\<rparr> in
                        if ok then (st3, n, Inr pdus) else (st3, n, Inl (lit ''refused: rate limit'')))))"

definition out_record :: "pystr \<Rightarrow> pystr \<Rightarrow> pystr \<Rightarrow> time \<Rightarrow> out_rec" where
  "out_record mid n t now =
     \<lparr>o_id = mid, o_to = n, o_text = t, o_ts = now, o_parts = 0, o_status = Refused, o_delivered = None,
      o_mrs = [], o_error = None, o_reports = []\<rparr>"

text \<open>
  \<open>send_sms\<close>: the new state, the SMS bodies handed to the modem, and the reply, or the exception of
  a failing write of the outbox file.
\<close>

definition send_sms :: "send_env \<Rightarrow> pystr \<Rightarrow> pystr \<Rightarrow> sms_st \<Rightarrow> sms_st \<times> bytes list \<times> (pyerr + send_reply)" where
  "send_sms env to t st =
     (if t = [] then
        (st, [], Inr \<lparr>sr_code = 400, sr_ok = False, sr_id = None, sr_parts = 0, sr_status = lit ''refused'',
                      sr_error = Some (lit ''empty text'')\<rparr>)
      else
        let mid = new_id ''out'' (se_now env) (sm_counter st + 1);
            (st1, n, r) = send_checks env to t st;
            rec = out_record mid n t (se_now env)
        in case r of
             Inl err \<Rightarrow>
               (let (st2, w) = outbox_put (se_write_ok env) (rec\<lparr>o_error := Some err\<rparr>) st1 in
                (st2, [], try_r w (\<lambda>_. Inr \<lparr>sr_code = refusal_code err, sr_ok = False, sr_id = Some mid, sr_parts = 0,
                   sr_status = lit ''refused'', sr_error = Some err\<rparr>)))
           | Inr pdus \<Rightarrow>
               (case send_parts (sm_smsc st1) (se_smsc env) (se_parts env) pdus of
                  Inl e \<Rightarrow> (st1, [], Inl e)
                | Inr (bodies, mrs, status, err) \<Rightarrow>
                    (let good = (status = Sent \<or> status = Queued);
                         (st2, w) = outbox_put (se_write_ok env)
                           (rec\<lparr>o_parts := length pdus, o_mrs := mrs, o_status := status, o_error := err\<rparr>) st1
                     in case w of
                          Inl e \<Rightarrow> (st2, bodies, Inl e)
                        | Inr _ \<Rightarrow>
                            (if good then emit (SmsSent mid n (length pdus) status) st2 else st2, bodies,
                             Inr \<lparr>sr_code = (if good then 200 else 502), sr_ok = good, sr_id = Some mid,
                                  sr_parts = length pdus,
                                  sr_status = (if good then status_name status else lit ''refused''),
                                  sr_error = err\<rparr>))))"

section \<open>What is sent\<close>

lemma send_loop_bodies:
  assumes "send_loop smsc tot env k pdus = Inr (bodies, mrs, status, err)"
  shows "length bodies \<le> length pdus \<and> length mrs \<le> length bodies \<and>
    map Inr bodies = map (\<lambda>(i, p). part_body smsc tot i p) (enumerate k (take (length bodies) pdus)) \<and>
    (status = Sent \<longleftrightarrow> err = None) \<and>
    (err = None \<longrightarrow> length bodies = length pdus \<and> length mrs = length pdus)"
  using assms
proof (induction pdus arbitrary: k bodies mrs)
  case Nil
  then show ?case by simp
next
  case (Cons pdu pdus)
  obtain body where b: "part_body smsc tot k pdu = Inr body"
    using Cons.prems by (auto simp: try_r_Inr_iff)
  show ?case
  proof (cases "part_result k (fst (env k)) (snd (env k))")
    case (Inl x)
    obtain s e where x: "x = (s, e)" by fastforce
    have "s \<noteq> Sent"
      using Inl unfolding x part_result_def ack_result_def
      by (auto simp: Let_def split: req_out.splits option.splits if_splits prod.splits)
    then show ?thesis using Cons.prems b Inl by (auto simp: x)
  next
    case (Inr i)
    then obtain bodies' mrs' where r: "send_loop smsc tot env (Suc k) pdus = Inr (bodies', mrs', status, err)"
        "bodies = body # bodies'" "mrs = i # mrs'"
      using Cons.prems b by (auto simp: try_r_Inr_iff)
    from Cons.IH [OF r(1)] show ?thesis using b by (simp add: r(2,3))
  qed
qed

lemma send_checks_Inr:
  assumes "send_checks env to t st = (st1, n, Inr pdus)"
  obtains fs rl where "gate (se_lib env) (se_now env) to (lit ''sms'') (sm_fs st) = (n, None, fs)"
    and "build_submit_pdus n t ((sm_ref st + 1) mod 256) True 10 = Inr pdus"
    and "sm_open st" and "usable (sm_sim st)" and "rl_take (sm_rate st) (se_now env) = (rl, True)"
    and "st1 = st\<lparr>sm_fs := fs, sm_counter := sm_counter st + 1, sm_ref := (sm_ref st + 1) mod 256, sm_rate := rl\<rparr>"
  using assms
  by (auto simp: send_checks_def Let_def split: prod.splits option.splits sum.splits if_splits)

lemma send_checks_outbox:
  assumes "send_checks env to t st = (st1, n, r)"
  shows "sm_outbox st1 = sm_outbox st"
  using assms
  by (auto simp: send_checks_def Let_def split: prod.splits option.splits sum.splits if_splits)

lemma send_sms_bodies:
  assumes "send_sms env to t st = (st', bodies, r)" and "bodies \<noteq> []"
  obtains st1 n pdus mrs status err where "send_checks env to t st = (st1, n, Inr pdus)"
    and "send_parts (sm_smsc st1) (se_smsc env) (se_parts env) pdus = Inr (bodies, mrs, status, err)"
  using assms
  by (auto simp: send_sms_def Let_def split: if_splits prod.splits sum.splits)

lemma send_parts_bodies:
  assumes "send_parts smsc req env pdus = Inr (bodies, mrs, status, err)"
  shows "length bodies \<le> length pdus \<and>
    (\<exists>sc. \<forall>i < length bodies. part_body sc (length pdus) i (pdus ! i) = Inr (bodies ! i)) \<and>
    (status = Sent \<longrightarrow> length bodies = length pdus \<and> length mrs = length pdus)"
proof (cases "\<exists>e. smsc = None \<and> fst req = Down e")
  case True
  then show ?thesis using assms by (auto simp: send_parts_def)
next
  case False
  then obtain sc where l: "send_loop sc (length pdus) env 0 pdus = Inr (bodies, mrs, status, err)"
    using assms by (auto simp: send_parts_def Let_def split: option.splits req_out.splits)
  note b = send_loop_bodies [OF l]
  have "part_body sc (length pdus) i (pdus ! i) = Inr (bodies ! i)" if "i < length bodies" for i
  proof -
    have m: "map Inr bodies = map (\<lambda>(i, p). part_body sc (length pdus) i p) (enumerate 0 (take (length bodies) pdus))"
      and le: "length bodies \<le> length pdus" using b by blast+
    from arg_cong [OF m, of "\<lambda>xs. xs ! i"] show ?thesis using that le by (simp add: nth_enumerate_eq)
  qed
  then show ?thesis using b by blast
qed

text \<open>
  C20. No SMS without permission: whenever \<open>send_sms\<close> hands a body to the modem, the number passed
  the gate, is permitted and no emergency number, transmission is on, the SIM is usable, the link is
  open and the rate limiter granted the message; and what is handed over is, in order and without
  repetition, the PDUs of exactly this text for exactly this number.
\<close>

theorem send_sms_safe:
  assumes "send_sms env to t st = (st', bodies, r)" and "bodies \<noteq> []"
  shows "\<exists>n pdus sc. n = normalize_number to \<and> valid_number n \<and> \<not> is_emergency n \<and> gf_tx (sm_fs st) \<and>
    permitted (se_lib env) (se_now env) n (lit ''sms'') (sm_fs st) \<and>
    sm_open st \<and> usable (sm_sim st) \<and> snd (rl_take (sm_rate st) (se_now env)) \<and>
    build_submit_pdus n t ((sm_ref st + 1) mod 256) True 10 = Inr pdus \<and> length bodies \<le> length pdus \<and>
    (\<forall>i < length bodies. part_body sc (length pdus) i (pdus ! i) = Inr (bodies ! i))"
proof -
  obtain st1 n pdus mrs status err where c: "send_checks env to t st = (st1, n, Inr pdus)"
    and p: "send_parts (sm_smsc st1) (se_smsc env) (se_parts env) pdus = Inr (bodies, mrs, status, err)"
    using send_sms_bodies [OF assms] .
  obtain fs rl where s: "gate (se_lib env) (se_now env) to (lit ''sms'') (sm_fs st) = (n, None, fs)"
    "build_submit_pdus n t ((sm_ref st + 1) mod 256) True 10 = Inr pdus" "sm_open st" "usable (sm_sim st)"
    "rl_take (sm_rate st) (se_now env) = (rl, True)"
    using send_checks_Inr [OF c] .
  from gate_passes [OF s(1)] s(2-5) send_parts_bodies [OF p] show ?thesis by auto
qed

text \<open>
  The reply tells the truth: it has code 200 exactly when it says ok; when it says \<open>sent\<close>,
  every part was handed to the modem and positively acknowledged, and the outbox holds the message with
  one reference per part; a refusal by the checks hands over nothing.
\<close>

theorem send_sms_reply:
  assumes "send_sms env to t st = (st', bodies, Inr rep)" and "js_inv k (sm_outbox st)" and "0 < k"
  shows "(sr_ok rep \<longleftrightarrow> sr_code rep = 200) \<and> (sr_code rep \<notin> {200, 502} \<longrightarrow> bodies = []) \<and>
    (sr_ok rep \<and> sr_status rep = lit ''sent'' \<longrightarrow>
       length bodies = sr_parts rep \<and>
       (\<exists>mid rec. sr_id rep = Some mid \<and> js_get (sm_outbox st') mid = Some rec \<and> o_status rec = Sent \<and>
          o_text rec = t \<and> o_to rec = normalize_number to \<and> length (o_mrs rec) = sr_parts rep))"
proof -
  have codes: "refusal_code e \<notin> {200, 502}" for e by (simp add: refusal_code_def)
  show ?thesis
  proof (cases "t = []")
    case True
    then show ?thesis using assms(1) by (auto simp: send_sms_def)
  next
    case False
    let ?mid = "new_id ''out'' (se_now env) (sm_counter st + 1)"
    obtain st1 n c where c: "send_checks env to t st = (st1, n, c)" using prod_cases3 by blast
    show ?thesis
    proof (cases c)
      case (Inl e)
      then show ?thesis using assms(1) False c codes [of e]
        by (auto simp: send_sms_def Let_def try_r_Inr_iff split: prod.splits)
    next
      case (Inr pdus)
      obtain mrs status err where p: "send_parts (sm_smsc st1) (se_smsc env) (se_parts env) pdus = Inr (bodies, mrs, status, err)"
        using assms(1) False c Inr by (auto simp: send_sms_def Let_def split: sum.splits prod.splits)
      let ?rec = "(out_record ?mid n t (se_now env))\<lparr>o_parts := length pdus, o_mrs := mrs, o_status := status, o_error := err\<rparr>"
      let ?good = "status = Sent \<or> status = Queued"
      obtain s w where w: "js_put (se_write_ok env) ?mid ?rec (sm_outbox st1) = (s, w)" by fastforce
      have o: "outbox_put (se_write_ok env) ?rec st1 = (st1\<lparr>sm_outbox := s\<rparr>, w)"
        using w by (simp add: outbox_put_def out_record_def)
      have eq: "send_sms env to t st =
          (case w of
             Inl e \<Rightarrow> (st1\<lparr>sm_outbox := s\<rparr>, bodies, Inl e)
           | Inr _ \<Rightarrow>
               (if ?good then emit (SmsSent ?mid n (length pdus) status) (st1\<lparr>sm_outbox := s\<rparr>) else st1\<lparr>sm_outbox := s\<rparr>,
                bodies,
                Inr \<lparr>sr_code = (if ?good then 200 else 502), sr_ok = ?good, sr_id = Some ?mid, sr_parts = length pdus,
                     sr_status = (if ?good then status_name status else lit ''refused''), sr_error = err\<rparr>))"
        unfolding send_sms_def Let_def c Inr prod.case sum.case p o using False by simp
      have saved: "js_get s ?mid = Some ?rec"
        using js_put_self [OF assms(2,3), of "se_write_ok env" ?mid ?rec] w send_checks_outbox [OF c] by simp
      have w1: "w = Inr ()" using eq assms(1) by (cases w) simp_all
      define rp where "rp = \<lparr>sr_code = (if ?good then 200 else 502), sr_ok = ?good, sr_id = Some ?mid,
        sr_parts = length pdus, sr_status = (if ?good then status_name status else lit ''refused''), sr_error = err\<rparr>"
      have "rep = rp" and st': "sm_outbox st' = s"
        using eq assms(1) unfolding w1 rp_def by (simp_all add: emit_def split: if_splits)
      then have r: "sr_ok rep = ?good" "sr_code rep = (if ?good then 200 else 502)" "sr_parts rep = length pdus"
          "sr_id rep = Some ?mid" "sr_status rep = (if ?good then status_name status else lit ''refused'')"
        by (simp_all add: rp_def)
      have n: "n = normalize_number to"
        using send_checks_Inr [OF c [unfolded Inr]] gate_passes(1) by metis
      have "sr_status rep = lit ''sent'' \<Longrightarrow> ?good \<Longrightarrow> status = Sent"
        using r(5) by (cases status) (auto simp: status_name_def lit_def)
      then show ?thesis
        using send_parts_bodies [OF p] saved st' r n by (auto simp: out_record_def)
    qed
  qed
qed

text \<open>A concrete message: one part, acknowledged by a response with reference 11.\<close>

definition demo_sms :: sms_st where
  "demo_sms = \<lparr>sm_outbox = js_load 1000 [], sm_counter = 0, sm_ref = 6,
     sm_rate = \<lparr>rl_limit = 10, rl_window = 3600, rl_stamps = []\<rparr>, sm_smsc = Some [0x91, 0x03],
     sm_fs = demo_fs, sm_sim = lit ''READY'', sm_open = True, sm_events = eb_init 2000\<rparr>"

definition demo_ack :: pending_req where
  "demo_ack = take_resp \<lparr>mseq = 0, aseq = 1, grp = 4, idx = 1, ftyp = 2, payload = [2, 0, 0, 11]\<rparr>
     (new_pending SMS_SEND_MSG EXEC False False)"

definition demo_env :: send_env where
  "demo_env = \<lparr>se_lib = demo_lib, se_now = 0, se_write_ok = True, se_smsc = (NoReply, None),
     se_parts = (\<lambda>_. (Reply demo_ack, None))\<rparr>"

definition demo_pdu :: bytes where
  "demo_pdu = submit_pdu [12, 0x91, 0x03, 0x96, 0, 0, 0, 0] 0 7 True 1 (1, Septets [104, 105, 27, 60])"

lemma demo_build: "build_submit_pdus (lit ''+306900000000'') [104, 105, 91] 7 True 10 = Inr [demo_pdu]"
proof -
  have "encode_address (lit ''+306900000000'') = Inr [12, 0x91, 0x03, 0x96, 0, 0, 0, 0]"
    by (simp add: encode_address_def normalize_number_def lit_def is_space_def plus_sign_def
        is_dial_digit_def bcd_encode_def star_hash_def hexval_def Let_def push_bit_eq_mult)
  then show ?thesis by (simp add: build_submit_pdus_def split_text_demo demo_pdu_def)
qed

lemma demo_pdu_length: "length demo_pdu = 18"
  by (simp add: demo_pdu_def submit_pdu_def submit_udh_def pack7_def)

lemma demo_send_eval:
  "\<exists>st' body rep. send_sms demo_env (lit ''+306900000000'') [104, 105, 91] demo_sms = (st', [body], Inr rep)"
proof -
  have "send_checks demo_env (lit ''+306900000000'') [104, 105, 91] demo_sms =
      (demo_sms\<lparr>sm_counter := 1, sm_ref := 7, sm_rate := fst (rl_take (sm_rate demo_sms) 0)\<rparr>,
       lit ''+306900000000'', Inr [demo_pdu])"
    using demo_gate demo_build
    by (simp add: send_checks_def demo_env_def demo_sms_def rl_take_def usable_def SIM_USABLE_def)
  moreover have "part_result 0 (Reply demo_ack) None = Inr (Some 11)"
    by (simp add: part_result_def ack_result_def demo_ack_def take_resp_def new_pending_def dec_sms_send_def
        u16_def py_slice_def Let_def)
  moreover have "\<exists>b. part_body [0x91, 0x03] (Suc 0) 0 demo_pdu = Inr b"
    by (simp add: part_body_def demo_pdu_length)
  ultimately show ?thesis
    by (elim exE) (simp add: send_sms_def send_parts_def outbox_put_def js_put_def Let_def demo_env_def demo_sms_def)
qed

lemma send_sms_safe_witness:
  "\<exists>n. n = normalize_number (lit ''+306900000000'') \<and> valid_number n \<and> permitted demo_lib 0 n (lit ''sms'') demo_fs"
proof -
  obtain st' body rep where
    "send_sms demo_env (lit ''+306900000000'') [104, 105, 91] demo_sms = (st', [body], Inr rep)"
    using demo_send_eval by blast
  from send_sms_safe [OF this] show ?thesis by (auto simp: demo_env_def demo_sms_def)
qed

lemma send_sms_reply_witness:
  "\<exists>st' body rep. send_sms demo_env (lit ''+306900000000'') [104, 105, 91] demo_sms = (st', [body], Inr rep) \<and>
     (sr_ok rep \<longleftrightarrow> sr_code rep = 200)"
proof -
  obtain st' body rep where s:
    "send_sms demo_env (lit ''+306900000000'') [104, 105, 91] demo_sms = (st', [body], Inr rep)"
    using demo_send_eval by blast
  have "js_inv 1000 (sm_outbox demo_sms)" using load_facts(1) by (simp add: demo_sms_def)
  from send_sms_reply [OF s this zero_less_numeral] s show ?thesis by blast
qed

section \<open>Delivery reports\<close>

definition is_open :: "out_rec \<Rightarrow> bool" where
  "is_open rec \<longleftrightarrow> o_status rec = Sent \<or> o_status rec = Queued"

definition report_of :: "out_rec \<Rightarrow> nat option \<Rightarrow> bool option" where
  "report_of rec m = (case map_of (o_reports rec) m of Some v \<Rightarrow> v | None \<Rightarrow> None)"

text \<open>The report of one part, and what it makes of \<open>delivered\<close>.\<close>

definition add_report :: "status_sms \<Rightarrow> out_rec \<Rightarrow> out_rec" where
  "add_report sr rec =
     (let rec1 = rec\<lparr>o_reports := AList.update (Some (r_mr sr)) (r_delivered sr) (o_reports rec)\<rparr>;
          vals = map (report_of rec1) (o_mrs rec1)
      in if Some False \<in> set vals then rec1\<lparr>o_delivered := Some False\<rparr>
         else if length (o_mrs rec1) = o_parts rec1 \<and> list_all (\<lambda>v. v = Some True) vals
         then rec1\<lparr>o_delivered := Some True\<rparr>
         else rec1)"

text \<open>A report for a message whose reference never arrived.\<close>

definition adoptable :: "time \<Rightarrow> status_sms \<Rightarrow> out_rec \<Rightarrow> bool" where
  "adoptable now sr rec \<longleftrightarrow> is_open rec \<and> o_mrs rec = [] \<and> o_parts rec = 1 \<and> o_delivered rec = None \<and>
     o_to rec = r_recipient sr \<and> now - o_ts rec < 86400"

definition adopt_report :: "status_sms \<Rightarrow> out_rec \<Rightarrow> out_rec" where
  "adopt_report sr rec =
     rec\<lparr>o_mrs := [Some (r_mr sr)], o_reports := [(Some (r_mr sr), r_delivered sr)],
         o_delivered := r_delivered sr, o_status := Sent, o_error := None\<rparr>"

text \<open>The record the report is for, as it will be stored; \<open>True\<close>: the event is sent in any case.\<close>

definition report_target :: "time \<Rightarrow> status_sms \<Rightarrow> out_rec list \<Rightarrow> (out_rec \<times> bool) option" where
  "report_target now sr recs =
     (case find (\<lambda>rec. Some (r_mr sr) \<in> set (o_mrs rec) \<and> is_open rec) (rev recs) of
        Some rec \<Rightarrow> (let rec1 = add_report sr rec in Some (rec1, o_delivered rec1 \<noteq> None))
      | None \<Rightarrow> map_option (\<lambda>rec. (adopt_report sr rec, True)) (find (adoptable now sr) (rev recs)))"

text \<open>The event carries \<open>delivered\<close>, which may be \<open>None\<close> for an adopted report still pending.\<close>

definition on_status_report :: "bool \<Rightarrow> time \<Rightarrow> status_sms \<Rightarrow> sms_st \<Rightarrow> sms_st \<times> (pyerr + bool)" where
  "on_status_report ok now sr st =
     (case report_target now sr (js_values (sm_outbox st)) of
        None \<Rightarrow> (st, Inr False)
      | Some (rec, tell) \<Rightarrow>
          (let (st1, w) = outbox_put ok rec st in
           case w of
             Inl e \<Rightarrow> (st1, Inl e)
           | Inr _ \<Rightarrow> (if tell then emit (SmsDelivered (o_id rec) (o_to rec) (o_delivered rec)) st1 else st1, Inr True)))"

lemma report_target_cases:
  assumes "report_target now sr recs = Some (rec', tell)"
  obtains (known) rec where "rec \<in> set recs" "is_open rec" "Some (r_mr sr) \<in> set (o_mrs rec)" "rec' = add_report sr rec"
  | (adopted) rec where "rec \<in> set recs" "adoptable now sr rec" "rec' = adopt_report sr rec"
      "\<forall>r \<in> set recs. is_open r \<longrightarrow> Some (r_mr sr) \<notin> set (o_mrs r)"
proof (cases "find (\<lambda>rec. Some (r_mr sr) \<in> set (o_mrs rec) \<and> is_open rec) (rev recs)")
  case None
  then have none: "\<forall>r \<in> set recs. is_open r \<longrightarrow> Some (r_mr sr) \<notin> set (o_mrs r)"
    by (auto simp: find_None_iff)
  obtain rec where f: "find (adoptable now sr) (rev recs) = Some rec" "rec' = adopt_report sr rec"
    using assms None by (auto simp: report_target_def)
  from f(1) have "rec \<in> set recs" "adoptable now sr rec"
    unfolding find_Some_iff by (metis length_rev nth_mem set_rev, metis)
  then show ?thesis using f(2) none by (rule adopted)
next
  case (Some rec)
  then have "rec \<in> set recs" "Some (r_mr sr) \<in> set (o_mrs rec)" "is_open rec"
    unfolding find_Some_iff by (metis length_rev nth_mem set_rev, metis+)
  then show ?thesis using assms Some by (auto simp: report_target_def Let_def intro: known)
qed

text \<open>What a stored verdict is worth.\<close>

definition verdict_ok :: "status_sms \<Rightarrow> out_rec \<Rightarrow> out_rec \<Rightarrow> bool" where
  "verdict_ok sr rec rec' \<longleftrightarrow>
     (o_delivered rec' = Some False \<longleftrightarrow>
        Some False \<in> set (map (report_of rec') (o_mrs rec')) \<or>
        o_delivered rec = Some False \<and> \<not> (length (o_mrs rec') = o_parts rec' \<and> (\<forall>m \<in> set (o_mrs rec'). report_of rec' m = Some True))) \<and>
     (o_delivered rec' = Some True \<and> o_delivered rec \<noteq> Some True \<longrightarrow>
        length (o_mrs rec') = o_parts rec' \<and> (\<forall>m \<in> set (o_mrs rec'). report_of rec' m = Some True))"

lemma add_report_ok:
  shows "verdict_ok sr rec (add_report sr rec)"
    and "o_id (add_report sr rec) = o_id rec \<and> o_to (add_report sr rec) = o_to rec \<and>
      o_text (add_report sr rec) = o_text rec \<and> o_mrs (add_report sr rec) = o_mrs rec \<and>
      o_parts (add_report sr rec) = o_parts rec \<and> o_status (add_report sr rec) = o_status rec \<and>
      report_of (add_report sr rec) (Some (r_mr sr)) = r_delivered sr"
proof -
  have r: "report_of (rec1\<lparr>o_delivered := x\<rparr>) = report_of rec1" for rec1 x by (simp add: report_of_def fun_eq_iff)
  show "verdict_ok sr rec (add_report sr rec)"
    unfolding verdict_ok_def add_report_def Let_def by (auto simp: r list_all_iff)
  show "o_id (add_report sr rec) = o_id rec \<and> o_to (add_report sr rec) = o_to rec \<and>
      o_text (add_report sr rec) = o_text rec \<and> o_mrs (add_report sr rec) = o_mrs rec \<and>
      o_parts (add_report sr rec) = o_parts rec \<and> o_status (add_report sr rec) = o_status rec \<and>
      report_of (add_report sr rec) (Some (r_mr sr)) = r_delivered sr"
    by (simp add: add_report_def Let_def r) (simp add: report_of_def)
qed

text \<open>Records of the outbox stand under their own ids.\<close>

definition ids_ok :: "(pystr, out_rec) jsonl_store \<Rightarrow> bool" where
  "ids_ok s \<longleftrightarrow> (\<forall>(i, r) \<in> set (js_items s). o_id r = i)"

lemma ids_ok_put: "ids_ok s \<Longrightarrow> ids_ok (fst (js_put ok (o_id r) r s))"
proof -
  have "set (pop_oldest k its) \<subseteq> set its" for k and its :: "('a, 'b) dict"
    by (simp add: pop_oldest_drop set_drop_subset)
  moreover have "set (AList.update i v its) \<subseteq> insert (i, v) (set its)" for i v and its :: "('a, 'b) dict"
    by (induction its) auto
  ultimately show "ids_ok s \<Longrightarrow> ids_ok (fst (js_put ok (o_id r) r s))"
    unfolding ids_ok_def js_put_def Let_def by (simp split: if_splits) fastforce+
qed

text \<open>
  A delivery report changes at most one record: an open one that carries its reference, or, when
  no open record does, the open one-part record without references to the same recipient of the last
  day. The message itself is untouched, and the verdict is sound: it becomes \<open>delivered\<close> only when
  every part has been reported delivered, and \<open>not delivered\<close> as soon as one part failed.
\<close>

theorem status_report_sound:
  assumes "on_status_report ok now sr st = (st', r)" and "js_inv k (sm_outbox st)" and "0 < k" and "ids_ok (sm_outbox st)"
  shows "st' = st \<and> r = Inr False \<or>
    (\<exists>rec rec'. js_get (sm_outbox st) (o_id rec) = Some rec \<and> is_open rec \<and>
       (Some (r_mr sr) \<in> set (o_mrs rec) \<or> adoptable now sr rec) \<and>
       o_id rec' = o_id rec \<and> o_to rec' = o_to rec \<and> o_text rec' = o_text rec \<and> o_parts rec' = o_parts rec \<and>
       Some (r_mr sr) \<in> set (o_mrs rec') \<and> report_of rec' (Some (r_mr sr)) = r_delivered sr \<and> verdict_ok sr rec rec' \<and>
       js_get (sm_outbox st') = (js_get (sm_outbox st))(o_id rec \<mapsto> rec') \<and> ids_ok (sm_outbox st'))"
proof (cases "report_target now sr (js_values (sm_outbox st))")
  case None
  then show ?thesis using assms(1) by (simp add: on_status_report_def)
next
  case (Some t)
  obtain rec' tell where t: "t = (rec', tell)" by fastforce
  obtain s w where w: "js_put ok (o_id rec') rec' (sm_outbox st) = (s, w)" by fastforce
  have s: "sm_outbox st' = s"
    using assms(1) Some t w
    by (auto simp: on_status_report_def outbox_put_def emit_def Let_def split: sum.splits if_splits)
  have found: "js_get (sm_outbox st) (o_id rec) = Some rec" if "rec \<in> set (js_values (sm_outbox st))" for rec
    using that assms(2,4) by (auto simp: js_values_def ids_ok_def js_get_def js_inv_def dict_ok_def)
  have get: "js_get s = (js_get (sm_outbox st))(o_id rec' \<mapsto> rec')" if "js_get (sm_outbox st) (o_id rec') \<noteq> None"
    using jsonl.put_room [OF assms(2), of "o_id rec'" ok rec'] that w by (simp add: js_write_def)
  have ids: "ids_ok s" using ids_ok_put [OF assms(4), of ok rec'] w by simp
  from Some [unfolded t] show ?thesis
  proof (cases rule: report_target_cases)
    case (known rec)
    note a = add_report_ok [of sr rec]
    have "js_get (sm_outbox st) (o_id rec) = Some rec" using found known(1) .
    then show ?thesis using a known get ids s by (intro disjI2 exI [of _ rec] exI [of _ "add_report sr rec"]) auto
  next
    case (adopted rec)
    have "js_get (sm_outbox st) (o_id rec) = Some rec" using found adopted(1) .
    moreover have "verdict_ok sr rec (adopt_report sr rec)" using adopted(2)
      by (auto simp: verdict_ok_def adopt_report_def report_of_def adoptable_def)
    moreover have "is_open rec" using adopted(2) by (simp add: adoptable_def)
    ultimately show ?thesis using adopted get ids s
      by (intro disjI2 exI [of _ rec] exI [of _ "adopt_report sr rec"]) (auto simp: adopt_report_def report_of_def)
  qed
qed


definition demo_rec :: out_rec where
  "demo_rec = (out_record (lit ''m'') (lit ''+30'') [104] 0)\<lparr>o_parts := 1, o_status := Sent, o_mrs := [Some 11]\<rparr>"

definition demo_out :: sms_st where
  "demo_out = demo_sms\<lparr>sm_outbox := \<lparr>js_items = [(lit ''m'', demo_rec)], js_keep = 1000, js_file = []\<rparr>\<rparr>"

definition demo_report :: status_sms where
  "demo_report = \<lparr>r_smsc = None, r_mr = 11, r_recipient = lit ''+30'', r_scts = [], r_discharge = [], r_st = 0,
     r_delivered = Some True\<rparr>"

lemma status_report_sound_witness:
  "\<exists>rec'. js_get (sm_outbox (fst (on_status_report True 0 demo_report demo_out))) (lit ''m'') = Some rec' \<and>
     report_of rec' (Some 11) = Some True"
proof -
  obtain st' r where s: "on_status_report True 0 demo_report demo_out = (st', r)" by fastforce
  have r: "r \<noteq> Inr False"
    using s by (auto simp: on_status_report_def report_target_def demo_out_def demo_rec_def demo_report_def js_values_def
      out_record_def is_open_def Let_def outbox_put_def js_put_def split: prod.splits sum.splits if_splits)
  have inv: "js_inv 1000 (sm_outbox demo_out)" and ids: "ids_ok (sm_outbox demo_out)"
    by (simp_all add: demo_out_def js_inv_def ids_ok_def demo_rec_def out_record_def dict_ok_def)
  obtain rec rec' where "js_get (sm_outbox demo_out) (o_id rec) = Some rec"
      "report_of rec' (Some 11) = Some True" "js_get (sm_outbox st') = (js_get (sm_outbox demo_out))(o_id rec \<mapsto> rec')"
    using status_report_sound [OF s inv zero_less_numeral ids] r by (auto simp: demo_report_def)
  moreover from this(1) have "o_id rec = lit ''m''"
    by (simp add: js_get_def demo_out_def split: if_splits)
  ultimately show ?thesis using s by auto
qed

end
