(* ===== verification/Phone_Inbox.thy ===== *)
theory Phone_Inbox
  imports Phone_Outbox
begin

text \<open>
  Inbound SMS of \<open>Phone\<close> in \<^verbatim>\<open>phoned/s22-phoned.py\<close>: messages pushed by the modem
  (\<open>_on_sms_incoming\<close>, \<open>_on_deliver\<close>), the reassembly of long messages and its time-out, and
  \<open>sweep_sim\<close>, which moves what is stored on the SIM into the inbox. The outcomes of file writes and
  modem requests are arguments; one sweep reads the clock once.
\<close>

section \<open>State\<close>

record in_rec =
  i_id :: pystr
  i_from :: pystr
  i_text :: pystr
  i_ts :: time
  i_parts :: nat
  i_smsc :: "pystr option"
  i_scts :: pystr
  i_incomplete :: bool

type_synonym part_key = "pystr \<times> nat \<times> nat"

record partial_sms =
  pa_parts :: "(nat, pystr) dict"
  pa_first :: time
  pa_sms :: deliver_sms

record inbox_st =
  ib_sms :: sms_st
  ib_inbox :: "(pystr, in_rec) jsonl_store"
  ib_partials :: "(part_key, partial_sms) dict"
  ib_work :: "job list"

section \<open>Storing a message\<close>

definition in_record :: "pystr \<Rightarrow> time \<Rightarrow> pystr \<Rightarrow> pystr \<Rightarrow> nat \<Rightarrow> deliver_sms \<Rightarrow> bool \<Rightarrow> in_rec" where
  "in_record mid now sender t n m inc =
     \<lparr>i_id = mid, i_from = sender, i_text = t, i_ts = now, i_parts = n, i_smsc = d_smsc m, i_scts = d_scts m,
      i_incomplete = inc\<rparr>"

text \<open>\<open>ok\<close> answers for the write of the record numbered by the id counter.\<close>

definition store_inbox ::
  "(nat \<Rightarrow> bool) \<Rightarrow> time \<Rightarrow> pystr \<Rightarrow> pystr \<Rightarrow> nat \<Rightarrow> deliver_sms \<Rightarrow> bool \<Rightarrow> inbox_st \<Rightarrow> inbox_st \<times> (pyerr + unit)" where
  "store_inbox ok now sender t n m inc st =
     (let c = sm_counter (ib_sms st) + 1;
          rec = in_record (new_id ''in'' now c) now sender t n m inc;
          (box, w) = js_put (ok c) (i_id rec) rec (ib_inbox st);
          st1 = st\<lparr>ib_sms := (ib_sms st)\<lparr>sm_counter := c\<rparr>, ib_inbox := box\<rparr>
      in case w of
           Inl e \<Rightarrow> (st1, Inl e)
         | Inr _ \<Rightarrow> (st1\<lparr>ib_sms := emit (SmsReceived (i_id rec) sender t n) (ib_sms st1)\<rparr>, Inr ()))"

definition inbox_has :: "pystr \<Rightarrow> pystr \<Rightarrow> pystr \<Rightarrow> inbox_st \<Rightarrow> bool" where
  "inbox_has sender t scts st \<longleftrightarrow>
     list_ex (\<lambda>m. i_from m = sender \<and> i_text m = t \<and> i_scts m = scts) (js_values (ib_inbox st))"

section \<open>Reassembly\<close>

text \<open>\<open>"".join(parts[k] for k in sorted(parts))\<close>\<close>

definition join_parts :: "(nat, pystr) dict \<Rightarrow> pystr" where
  "join_parts d = concat (map snd (sort_key fst d))"

text \<open>
  One deliver message against the table of partial messages: the new table and, when a message is
  complete, its text, its number of parts and the deliver message it is stored under (for a long
  message, the first part that arrived).
\<close>

definition take_part :: "time \<Rightarrow> deliver_sms \<Rightarrow> (part_key, partial_sms) dict \<Rightarrow>
    (part_key, partial_sms) dict \<times> (pystr \<times> nat \<times> deliver_sms) option" where
  "take_part now m ps =
     (case d_concat m of
        None \<Rightarrow> (ps, Some (d_text m, 1, m))
      | Some c \<Rightarrow>
          if c_total c \<le> 1 then (ps, Some (d_text m, 1, m))
          else
            (let key = (d_sender m, c_ref c, c_total c);
                 e0 = (case map_of ps key of Some e \<Rightarrow> e | None \<Rightarrow> \<lparr>pa_parts = [], pa_first = now, pa_sms = m\<rparr>);
                 e = e0\<lparr>pa_parts := AList.update (c_seq c) (d_text m) (pa_parts e0)\<rparr>
             in if c_total c \<le> length (pa_parts e)
                then (AList.delete key ps, Some (join_parts (pa_parts e), c_total c, pa_sms e))
                else (AList.update key e ps, None)))"

definition on_deliver :: "(nat \<Rightarrow> bool) \<Rightarrow> time \<Rightarrow> deliver_sms \<Rightarrow> inbox_st \<Rightarrow> inbox_st \<times> (pyerr + unit)" where
  "on_deliver ok now m st =
     (let (ps, full) = take_part now m (ib_partials st); st1 = st\<lparr>ib_partials := ps\<rparr> in
      case full of
        None \<Rightarrow> (st1, Inr ())
      | Some (t, n, m1) \<Rightarrow> store_inbox ok now (d_sender m) t n m1 False st1)"

text \<open>\<open>_on_sms_incoming\<close>; the result of the status report is what \<open>on_status_report\<close> gave.\<close>

definition ack_body :: "sms_in \<Rightarrow> bytes" where
  "ack_body d = [of_nat (if sn_type d = 0 then 1 else sn_type d), 0, 0, of_nat (sn_id d), 0]"

definition defer_in :: "job \<Rightarrow> inbox_st \<Rightarrow> inbox_st" where
  "defer_in j st = st\<lparr>ib_work := ib_work st @ [j]\<rparr>"

definition on_sms_incoming :: "(nat \<Rightarrow> bool) \<Rightarrow> time \<Rightarrow> byte \<Rightarrow> sms_in \<Rightarrow> inbox_st \<Rightarrow> inbox_st \<times> (pyerr + unit)" where
  "on_sms_incoming ok now ty d st =
     (if ty \<notin> {NOTI, INDI} then (st, Inr ())
      else
        (let st1 = defer_in (JAckSms (ack_body d)) st in
         case sn_sms d of
           None \<Rightarrow> (st1, Inr ())
         | Some (StatusReport sr) \<Rightarrow>
             (let (sms, r) = on_status_report (ok 0) now sr (ib_sms st1) in
              (st1\<lparr>ib_sms := sms\<rparr>, map_sum id (\<lambda>_. ()) r))
         | Some (Deliver m) \<Rightarrow>
             (case on_deliver ok now m st1 of
                (st2, Inl e) \<Rightarrow> (st2, Inl e)
              | (st2, Inr _) \<Rightarrow> (if sn_sim_index d \<notin> {0x00FF, 0xFFFF} then defer_in JSweep st2 else st2, Inr ()))
         | Some (Submit _) \<Rightarrow> (st1, Inr ())))"

text \<open>
  \<open>expire_partials\<close>: all expired entries leave the table first, then they are stored one by one;
  the first failing write ends the loop.
\<close>

definition fill_missing :: "nat \<Rightarrow> (nat, pystr) dict \<Rightarrow> pystr" where
  "fill_missing n d =
     concat (map (\<lambda>i. case map_of d i of Some t \<Rightarrow> t | None \<Rightarrow> lit ''[missing part '' @ dec_digits i @ lit '']'') [1..<n + 1])"

fun store_expired :: "(nat \<Rightarrow> bool) \<Rightarrow> time \<Rightarrow> (part_key \<times> partial_sms) list \<Rightarrow> inbox_st \<Rightarrow> inbox_st \<times> (pyerr + unit)" where
  "store_expired ok now [] st = (st, Inr ())"
| "store_expired ok now (((sender, r, n), e) # old) st =
     (case store_inbox ok now sender (fill_missing n (pa_parts e)) n (pa_sms e) True st of
        (st1, Inl err) \<Rightarrow> (st1, Inl err)
      | (st1, Inr _) \<Rightarrow> store_expired ok now old st1)"

definition expire_partials :: "(nat \<Rightarrow> bool) \<Rightarrow> time \<Rightarrow> time \<Rightarrow> inbox_st \<Rightarrow> inbox_st \<times> (pyerr + unit)" where
  "expire_partials ok timeout now st =
     (let old = filter (\<lambda>(k, e). pa_first e < now - timeout) (ib_partials st) in
      store_expired ok now old
        (st\<lparr>ib_partials := filter (\<lambda>(k, e). \<not> pa_first e < now - timeout) (ib_partials st)\<rparr>))"

section \<open>The SIM sweep\<close>

definition SIM_SLOT_MAX :: nat where "SIM_SLOT_MAX = 255"

definition read_slot :: "req_out \<Rightarrow> pyerr + sms option" where
  "read_slot out =
     (case out of
        Down e \<Rightarrow> Inl (LinkDown e)
      | NoReply \<Rightarrow> Inr None
      | Reply p \<Rightarrow>
          (case p_resp p of
             None \<Rightarrow> Inr None
           | Some fr \<Rightarrow>
               (case dec_sms_read (payload fr) of
                  None \<Rightarrow> Inr None
                | Some s \<Rightarrow> Inr (if sl_empty s then None else sl_sms s))))"

definition delete_slot :: "req_out \<Rightarrow> pyerr + bool" where
  "delete_slot out =
     (case out of
        Down e \<Rightarrow> Inl (LinkDown e)
      | NoReply \<Rightarrow> Inr False
      | Reply p \<Rightarrow>
          Inr (p_ok p \<and> (case p_resp p of
                           Some fr \<Rightarrow> \<not> (3 \<le> length (payload fr) \<and> u16 (payload fr) 1 \<noteq> 0)
                         | None \<Rightarrow> True)))"

record sweep_env =
  sv_now :: time
  sv_ok :: "nat \<Rightarrow> bool"
  sv_count :: req_out
  sv_read :: "nat \<Rightarrow> req_out"
  sv_del :: "nat \<Rightarrow> req_out"

text \<open>The running sweep: \<open>sw_dels\<close> lists the slots a deletion was sent for.\<close>

record sweep =
  sw_st :: inbox_st
  sw_dels :: "nat list"
  sw_stored :: nat
  sw_deleted :: nat
  sw_kept :: nat

fun read_slots :: "(nat \<Rightarrow> req_out) \<Rightarrow> nat list \<Rightarrow> pyerr + (nat \<times> sms) list" where
  "read_slots rd [] = Inr []"
| "read_slots rd (i # is) =
     try_r (read_slot (rd i)) (\<lambda>r. try_r (read_slots rd is) (\<lambda>found.
       Inr (case r of Some m \<Rightarrow> (i, m) # found | None \<Rightarrow> found)))"

definition group_key :: "sms \<Rightarrow> part_key option" where
  "group_key m =
     (case m of
        Deliver d \<Rightarrow>
          (case d_concat d of
             Some c \<Rightarrow> if 1 < c_total c then Some (d_sender d, c_ref c, c_total c) else None
           | None \<Rightarrow> None)
      | _ \<Rightarrow> None)"

fun group_slots :: "(nat \<times> sms) list \<Rightarrow> (part_key, (nat \<times> deliver_sms) list) dict \<Rightarrow>
    (part_key, (nat \<times> deliver_sms) list) dict" where
  "group_slots [] gs = gs"
| "group_slots ((i, m) # found) gs =
     (case (group_key m, m) of
        (Some k, Deliver d) \<Rightarrow>
          group_slots found
            (AList.update k ((case map_of gs k of Some ps \<Rightarrow> ps | None \<Rightarrow> []) @ [(i, d)]) gs)
      | _ \<Rightarrow> group_slots found gs)"

definition seq_of :: "deliver_sms \<Rightarrow> nat" where
  "seq_of d = (case d_concat d of Some c \<Rightarrow> c_seq c | None \<Rightarrow> 0)"

definition seq_texts :: "(nat \<times> deliver_sms) list \<Rightarrow> (nat, pystr) dict" where
  "seq_texts ps = foldl (\<lambda>d (i, m). AList.update (seq_of m) (d_text m) d) [] ps"

definition min_seq :: "(nat \<times> deliver_sms) list \<Rightarrow> deliver_sms" where
  "min_seq ps = snd (hd (sort_key (seq_of \<circ> snd) ps))"

text \<open>\<open>_sweep_store\<close>: whether the message may be deleted, and how many were stored.\<close>

definition sweep_store :: "sweep_env \<Rightarrow> pystr \<Rightarrow> pystr \<Rightarrow> nat \<Rightarrow> deliver_sms \<Rightarrow> inbox_st \<Rightarrow> inbox_st \<times> bool \<times> nat" where
  "sweep_store env sender t n m st =
     (if inbox_has sender t (d_scts m) st then (st, True, 0)
      else (case store_inbox (sv_ok env) (sv_now env) sender t n m False st of
              (st1, Inr _) \<Rightarrow> (st1, True, 1)
            | (st1, Inl _) \<Rightarrow> (st1, False, 0)))"

definition send_delete :: "sweep_env \<Rightarrow> nat \<Rightarrow> sweep \<Rightarrow> sweep \<times> (pyerr + bool)" where
  "send_delete env i s = (s\<lparr>sw_dels := sw_dels s @ [i]\<rparr>, delete_slot (sv_del env i))"

fun delete_parts :: "sweep_env \<Rightarrow> nat list \<Rightarrow> sweep \<Rightarrow> sweep \<times> (pyerr + unit)" where
  "delete_parts env [] s = (s, Inr ())"
| "delete_parts env (i # is) s =
     (case send_delete env i s of
        (s1, Inl e) \<Rightarrow> (s1, Inl e)
      | (s1, Inr b) \<Rightarrow> delete_parts env is (s1\<lparr>sw_deleted := sw_deleted s1 + of_bool b\<rparr>))"

fun sweep_groups :: "sweep_env \<Rightarrow> (part_key \<times> (nat \<times> deliver_sms) list) list \<Rightarrow> sweep \<Rightarrow> sweep \<times> (pyerr + unit)" where
  "sweep_groups env [] s = (s, Inr ())"
| "sweep_groups env (((sender, r, n), parts) # gs) s =
     (if length (seq_texts parts) < n then sweep_groups env gs (s\<lparr>sw_kept := sw_kept s + length parts\<rparr>)
      else
        (let (st1, ok, new) = sweep_store env sender (join_parts (seq_texts parts)) n (min_seq parts) (sw_st s);
             s1 = s\<lparr>sw_st := st1\<rparr>
         in if ok then
              (case delete_parts env (map fst parts) (s1\<lparr>sw_stored := sw_stored s1 + new\<rparr>) of
                 (s2, Inl e) \<Rightarrow> (s2, Inl e)
               | (s2, Inr _) \<Rightarrow> sweep_groups env gs s2)
            else sweep_groups env gs (s1\<lparr>sw_kept := sw_kept s1 + length parts\<rparr>)))"

text \<open>The slots that are in no group.\<close>

definition delete_single :: "sweep_env \<Rightarrow> nat \<Rightarrow> bool \<Rightarrow> sweep \<Rightarrow> sweep \<times> (pyerr + unit)" where
  "delete_single env i ok s =
     (if \<not> ok then (s\<lparr>sw_kept := sw_kept s + 1\<rparr>, Inr ())
      else (case send_delete env i s of
              (s1, Inl e) \<Rightarrow> (s1, Inl e)
            | (s1, Inr b) \<Rightarrow>
                ((if b then s1\<lparr>sw_deleted := sw_deleted s1 + 1\<rparr> else s1\<lparr>sw_kept := sw_kept s1 + 1\<rparr>), Inr ())))"

definition sweep_single :: "sweep_env \<Rightarrow> nat \<Rightarrow> sms \<Rightarrow> sweep \<Rightarrow> sweep \<times> (pyerr + unit)" where
  "sweep_single env i m s =
     (if group_key m \<noteq> None then (s, Inr ())
      else
        (case m of
           StatusReport sr \<Rightarrow>
             (let (sms, r) = on_status_report (sv_ok env 0) (sv_now env) sr (ib_sms (sw_st s));
                  s1 = s\<lparr>sw_st := (sw_st s)\<lparr>ib_sms := sms\<rparr>\<rparr>
              in case r of Inl e \<Rightarrow> (s1, Inl e) | Inr _ \<Rightarrow> delete_single env i True s1)
         | Deliver d \<Rightarrow>
             (let (st1, ok, new) = sweep_store env (d_sender d) (d_text d) 1 d (sw_st s)
              in delete_single env i ok (s\<lparr>sw_st := st1, sw_stored := sw_stored s + new\<rparr>))
         | Submit _ \<Rightarrow> (s\<lparr>sw_kept := sw_kept s + 1\<rparr>, Inr ())))"

fun sweep_rest :: "sweep_env \<Rightarrow> (nat \<times> sms) list \<Rightarrow> sweep \<Rightarrow> sweep \<times> (pyerr + unit)" where
  "sweep_rest env [] s = (s, Inr ())"
| "sweep_rest env ((i, m) # found) s =
     (case sweep_single env i m s of
        (s1, Inl e) \<Rightarrow> (s1, Inl e)
      | (s1, Inr _) \<Rightarrow> sweep_rest env found s1)"

text \<open>
  \<open>sweep_sim\<close> with the sweep lock free: \<open>None\<close> when the stored count could not be read, otherwise
  how many messages were found, and the sweep as it ended (also when an exception ended it).
\<close>

definition slot_count :: "req_out \<Rightarrow> pyerr + nat option" where
  "slot_count out =
     (case out of
        Down e \<Rightarrow> Inl (LinkDown e)
      | NoReply \<Rightarrow> Inr None
      | Reply p \<Rightarrow>
          (case p_resp p of
             None \<Rightarrow> Inr None
           | Some fr \<Rightarrow> Inr (if length (payload fr) < 2 then None else Some (dec_sms_stored_slots (payload fr)))))"

definition sweep_sim :: "sweep_env \<Rightarrow> inbox_st \<Rightarrow> sweep \<times> (pyerr + nat option)" where
  "sweep_sim env st =
     (let s0 = \<lparr>sw_st = st, sw_dels = [], sw_stored = 0, sw_deleted = 0, sw_kept = 0\<rparr> in
      case slot_count (sv_count env) of
        Inl e \<Rightarrow> (s0, Inl e)
      | Inr None \<Rightarrow> (s0, Inr None)
      | Inr (Some n) \<Rightarrow>
          (case read_slots (sv_read env) [0..<min n SIM_SLOT_MAX] of
             Inl e \<Rightarrow> (s0, Inl e)
           | Inr found \<Rightarrow>
               (case sweep_groups env (group_slots found []) s0 of
                  (s1, Inl e) \<Rightarrow> (s1, Inl e)
                | (s1, Inr _) \<Rightarrow>
                    (case sweep_rest env found s1 of
                       (s2, Inl e) \<Rightarrow> (s2, Inl e)
                     | (s2, Inr _) \<Rightarrow> (s2, Inr (Some (length found)))))))"

section \<open>Reassembly in any order\<close>

definition part_key_of :: "deliver_sms \<Rightarrow> part_key option" where
  "part_key_of m = group_key (Deliver m)"

definition parts_at :: "(part_key, partial_sms) dict \<Rightarrow> part_key \<Rightarrow> (nat, pystr) dict" where
  "parts_at ps k = (case map_of ps k of Some e \<Rightarrow> pa_parts e | None \<Rightarrow> [])"

lemma part_key_of_Some:
  assumes "part_key_of m = Some (s, r, n)"
  obtains c where "d_concat m = Some c" "1 < c_total c" "d_sender m = s" "c_ref c = r" "c_total c = n" "seq_of m = c_seq c"
  using assms by (auto simp: part_key_of_def group_key_def seq_of_def split: option.splits if_splits)

lemma take_part_other:
  assumes "part_key_of m \<noteq> Some k"
  shows "parts_at (fst (take_part now m ps)) k = parts_at ps k"
  using assms
  by (auto simp: take_part_def part_key_of_def group_key_def parts_at_def Let_def split: option.splits if_splits)

lemma take_part_key:
  assumes "part_key_of m = Some (s, r, n)" and d: "d = AList.update (seq_of m) (d_text m) (parts_at ps (s, r, n))"
  shows "length d < n \<Longrightarrow> snd (take_part now m ps) = None \<and> parts_at (fst (take_part now m ps)) (s, r, n) = d"
    and "n \<le> length d \<Longrightarrow> \<exists>m1. snd (take_part now m ps) = Some (join_parts d, n, m1) \<and>
      parts_at (fst (take_part now m ps)) (s, r, n) = []"
proof -
  obtain c where c: "d_concat m = Some c" "1 < c_total c" "d_sender m = s" "c_ref c = r" "c_total c = n" "seq_of m = c_seq c"
    using part_key_of_Some [OF assms(1)] .
  obtain e where e: "pa_parts e = d" and
    t: "take_part now m ps = (if n \<le> length d then (AList.delete (s, r, n) ps, Some (join_parts d, n, pa_sms e))
      else (AList.update (s, r, n) e ps, None))"
  proof
    let ?e0 = "case map_of ps (s, r, n) of Some e \<Rightarrow> e | None \<Rightarrow> \<lparr>pa_parts = [], pa_first = now, pa_sms = m\<rparr>"
    have "pa_parts ?e0 = parts_at ps (s, r, n)" by (simp add: parts_at_def split: option.split)
    then show "pa_parts (?e0\<lparr>pa_parts := AList.update (c_seq c) (d_text m) (pa_parts ?e0)\<rparr>) = d"
      using d c(6) by simp
    then show "take_part now m ps = (if n \<le> length d then (AList.delete (s, r, n) ps,
        Some (join_parts d, n, pa_sms (?e0\<lparr>pa_parts := AList.update (c_seq c) (d_text m) (pa_parts ?e0)\<rparr>)))
      else (AList.update (s, r, n) (?e0\<lparr>pa_parts := AList.update (c_seq c) (d_text m) (pa_parts ?e0)\<rparr>) ps, None))"
      using c by (simp add: take_part_def Let_def)
  qed
  show "length d < n \<Longrightarrow> snd (take_part now m ps) = None \<and> parts_at (fst (take_part now m ps)) (s, r, n) = d"
    using t e by (simp add: parts_at_def)
  show "n \<le> length d \<Longrightarrow> \<exists>m1. snd (take_part now m ps) = Some (join_parts d, n, m1) \<and>
      parts_at (fst (take_part now m ps)) (s, r, n) = []"
    using t by (simp add: parts_at_def)
qed

lemma join_parts_complete:
  assumes "dict_ok d" and "fst ` set d = {1..n}" and "\<And>i t. (i, t) \<in> set d \<Longrightarrow> t = T ! (i - 1)" and "n = length T"
  shows "join_parts d = concat T"
proof -
  let ?s = "sort_key fst d"
  have keys: "map fst ?s = [1..<n + 1]"
  proof (rule sorted_distinct_set_unique)
    show "sorted (map fst ?s)" by simp
    show "distinct (map fst ?s)"
      using assms(1) unfolding dict_ok_def distinct_map by simp
    show "set (map fst ?s) = set [1..<n + 1]" using assms(2) by auto
  qed (simp_all del: upt_Suc)
  have len: "length ?s = n" using arg_cong [OF keys, of length] by simp
  have "map snd ?s = T"
  proof (rule nth_equalityI)
    show "length (map snd ?s) = length T" using len assms(4) by simp
    fix i assume "i < length (map snd ?s)"
    then have i: "i < n" using len by simp
    have "fst (?s ! i) = i + 1"
      using arg_cong [OF keys, of "\<lambda>xs. xs ! i"] i len by (simp del: upt_Suc)
    moreover have "?s ! i \<in> set d" using i len by (metis nth_mem set_sort)
    ultimately show "map snd ?s ! i = T ! i"
      using assms(3) [of "fst (?s ! i)" "snd (?s ! i)"] i len by (metis diff_add_inverse2 nth_map prod.collapse)
  qed
  then show ?thesis by (simp add: join_parts_def)
qed

text \<open>Messages arriving one after the other; a failed write is logged and the next one is handled.\<close>

definition deliver_all :: "(nat \<Rightarrow> bool) \<Rightarrow> (time \<times> deliver_sms) list \<Rightarrow> inbox_st \<Rightarrow> inbox_st" where
  "deliver_all ok ms st = foldl (\<lambda>st (now, m). fst (on_deliver ok now m st)) st ms"

lemma deliver_all_snoc:
  "deliver_all ok (ms @ [(now, m)]) st = fst (on_deliver ok now m (deliver_all ok ms st))"
  by (simp add: deliver_all_def)

lemma store_inbox_partials: "ib_partials (fst (store_inbox ok now s t n m inc st)) = ib_partials st"
  by (simp add: store_inbox_def Let_def split: prod.splits sum.splits)

lemma on_deliver_partials:
  "ib_partials (fst (on_deliver ok now m st)) = fst (take_part now m (ib_partials st))"
  by (simp add: on_deliver_def Let_def store_inbox_partials split: prod.splits option.splits)

lemma on_deliver_kept:
  "snd (take_part now m (ib_partials st)) = None \<Longrightarrow> ib_inbox (fst (on_deliver ok now m st)) = ib_inbox st"
  by (auto simp: on_deliver_def split: prod.splits option.splits)

definition key_parts :: "part_key \<Rightarrow> (time \<times> deliver_sms) list \<Rightarrow> deliver_sms list" where
  "key_parts k ms = filter (\<lambda>m. part_key_of m = Some k) (map snd ms)"

lemma parts_pending:
  fixes ok :: "nat \<Rightarrow> bool" and ms :: "(time \<times> deliver_sms) list" and st :: inbox_st
  assumes "parts_at (ib_partials st) (s, r, n) = []" and "card (seq_of ` set (key_parts (s, r, n) ms)) < n"
    and "\<And>m. m \<in> set (key_parts (s, r, n) ms) \<Longrightarrow> d_text m = T ! (seq_of m - 1)"
  defines "d \<equiv> parts_at (ib_partials (deliver_all ok ms st)) (s, r, n)"
  shows "dict_ok d \<and> fst ` set d = seq_of ` set (key_parts (s, r, n) ms) \<and> (\<forall>(i, t) \<in> set d. t = T ! (i - 1))"
  using assms(2,3) unfolding d_def
proof (induction ms rule: rev_induct)
  case Nil
  then show ?case using assms(1) by (simp add: deliver_all_def key_parts_def)
next
  case (snoc x ms)
  obtain now m where x: "x = (now, m)" by fastforce
  let ?k = "(s, r, n)" and ?d = "parts_at (ib_partials (deliver_all ok ms st)) (s, r, n)"
  have sub: "set (key_parts ?k ms) \<subseteq> set (key_parts ?k (ms @ [x]))" by (auto simp: key_parts_def)
  then have "card (seq_of ` set (key_parts ?k ms)) < n"
    using snoc.prems(1) by (meson card_mono finite_imageI image_mono le_less_trans List.finite_set)
  with snoc.IH snoc.prems(2) sub
  have ih: "dict_ok ?d" "fst ` set ?d = seq_of ` set (key_parts ?k ms)" "\<forall>(i, t) \<in> set ?d. t = T ! (i - 1)" by blast+
  show ?case
  proof (cases "part_key_of m = Some ?k")
    case False
    then have "key_parts ?k (ms @ [x]) = key_parts ?k ms" by (simp add: key_parts_def x)
    then show ?thesis using ih False unfolding x deliver_all_snoc on_deliver_partials take_part_other [OF False] by simp
  next
    case True
    let ?u = "AList.update (seq_of m) (d_text m) ?d"
    have kp: "set (key_parts ?k (ms @ [x])) = insert m (set (key_parts ?k ms))" using True by (simp add: key_parts_def x)
    have ok: "dict_ok ?u" using ih(1) by simp
    have keys: "fst ` set ?u = seq_of ` set (key_parts ?k (ms @ [x]))"
      using ih(2) unfolding kp by (simp add: keys_dict_update)
    have "length ?u = card (fst ` set ?u)"
      using ok by (simp add: dict_ok_def distinct_card flip: set_map)
    then have "length ?u < n" using snoc.prems(1) keys by simp
    from take_part_key(1) [OF True refl this] have "parts_at (ib_partials (deliver_all ok (ms @ [x]) st)) ?k = ?u"
      unfolding x deliver_all_snoc on_deliver_partials by blast
    moreover have "\<forall>(i, t) \<in> set ?u. t = T ! (i - 1)"
    proof -
      have "d_text m = T ! (seq_of m - 1)" using snoc.prems(2) kp by simp
      then show ?thesis using ih(3) set_dict_update [of "seq_of m" "d_text m" ?d] by fastforce
    qed
    ultimately show ?thesis using ok keys by simp
  qed
qed


lemma store_inbox_file:
  assumes "\<And>c. ok c"
  shows "\<exists>i rec. store_inbox ok now s t n m inc st = (fst (store_inbox ok now s t n m inc st), Inr ()) \<and>
    js_file (ib_inbox (fst (store_inbox ok now s t n m inc st))) = js_file (ib_inbox st) @ [Some (i, rec)] \<and>
    i_from rec = s \<and> i_text rec = t \<and> i_parts rec = n \<and> i_scts rec = d_scts m \<and> i_incomplete rec = inc"
  using assms by (simp add: store_inbox_def js_put_def Let_def in_record_def)



definition demo_part :: "nat \<Rightarrow> pystr \<Rightarrow> deliver_sms" where
  "demo_part i t = \<lparr>d_smsc = None, d_sender = lit ''+30'', d_pid = 0, d_dcs = 0, d_scts = lit ''now'', d_text = t,
     d_concat = Some \<lparr>c_ref = 5, c_total = 2, c_seq = i\<rparr>, d_alphabet = Gsm7, d_status_report = False\<rparr>"

definition demo_box :: inbox_st where
  "demo_box = \<lparr>ib_sms = demo_sms, ib_inbox = js_load 1000 [], ib_partials = [], ib_work = []\<rparr>"

lemma demo_part_key: "part_key_of (demo_part i t) = Some (lit ''+30'', 5, 2)" "seq_of (demo_part i t) = i"
    "d_text (demo_part i t) = t"
  by (simp_all add: part_key_of_def group_key_def demo_part_def seq_of_def)


section \<open>The sweep deletes only what is in the inbox file\<close>

definition in_file :: "inbox_st \<Rightarrow> pystr \<Rightarrow> pystr \<Rightarrow> pystr \<Rightarrow> bool" where
  "in_file st sender t scts \<longleftrightarrow>
     (\<exists>i r. Some (i, r) \<in> set (js_file (ib_inbox st)) \<and> i_from r = sender \<and> i_text r = t \<and> i_scts r = scts)"

text \<open>Every record held in memory is in the file: true after loading, kept while no write fails.\<close>

definition durable :: "inbox_st \<Rightarrow> bool" where
  "durable st \<longleftrightarrow> (\<forall>(i, r) \<in> set (js_items (ib_inbox st)). Some (i, r) \<in> set (js_file (ib_inbox st)))"

fun group_parts :: "part_key \<Rightarrow> (nat \<times> sms) list \<Rightarrow> (nat \<times> deliver_sms) list" where
  "group_parts k [] = []"
| "group_parts k ((i, m) # found) =
     (case m of
        Deliver d \<Rightarrow> if group_key m = Some k then (i, d) # group_parts k found else group_parts k found
      | _ \<Rightarrow> group_parts k found)"

text \<open>What must be in the file before slot contents \<open>m\<close> may go.\<close>

definition accounted :: "(nat \<times> sms) list \<Rightarrow> sms \<Rightarrow> inbox_st \<Rightarrow> bool" where
  "accounted found m st =
     (case m of
        StatusReport _ \<Rightarrow> True
      | Submit _ \<Rightarrow> False
      | Deliver d \<Rightarrow>
          (case group_key m of
             None \<Rightarrow> in_file st (d_sender d) (d_text d) (d_scts d)
           | Some (s, r, n) \<Rightarrow>
               (let ps = group_parts (s, r, n) found in
                n \<le> length (seq_texts ps) \<and> in_file st s (join_parts (seq_texts ps)) (d_scts (min_seq ps)))))"

definition file_grows :: "inbox_st \<Rightarrow> inbox_st \<Rightarrow> bool" where
  "file_grows st st' \<longleftrightarrow> set (js_file (ib_inbox st)) \<subseteq> set (js_file (ib_inbox st'))"

lemma file_grows_refl [simp]: "file_grows st st"
  by (simp add: file_grows_def)

lemma file_grows_trans: "file_grows a b \<Longrightarrow> file_grows b c \<Longrightarrow> file_grows a c"
  by (auto simp: file_grows_def)

lemma accounted_grows: "accounted found m st \<Longrightarrow> file_grows st st' \<Longrightarrow> accounted found m st'"
  by (auto simp: accounted_def in_file_def file_grows_def Let_def split: sms.splits option.splits)

lemma store_inbox_durable:
  assumes "\<And>c. ok c" and "durable st" and "store_inbox ok now s t n m inc st = (st', w)"
  shows "w = Inr () \<and> durable st' \<and> file_grows st st' \<and> in_file st' s t (d_scts m)"
proof -
  define c where "c = sm_counter (ib_sms st) + 1"
  define rec where "rec = in_record (new_id ''in'' now c) now s t n m inc"
  let ?box = "(ib_inbox st)\<lparr>js_items := pop_oldest (js_keep (ib_inbox st)) (AList.update (i_id rec) rec (js_items (ib_inbox st))),
      js_file := js_file (ib_inbox st) @ [Some (i_id rec, rec)]\<rparr>"
  have st': "w = Inr ()" "ib_inbox st' = ?box"
    using assms(1,3) by (auto simp: store_inbox_def js_put_def Let_def rec_def c_def split: if_splits)
  have "set (js_items ?box) \<subseteq> insert (i_id rec, rec) (set (js_items (ib_inbox st)))"
    using set_dict_update [of "i_id rec" rec "js_items (ib_inbox st)"]
    by (auto simp: pop_oldest_drop dest: in_set_dropD)
  then have "durable st'" using assms(2) by (auto simp: durable_def st'(2))
  moreover have "in_file st' s t (d_scts m)" 
    unfolding in_file_def st'(2) by (intro exI [of _ "i_id rec"] exI [of _ rec]) (simp add: rec_def in_record_def)
  ultimately show ?thesis using st' by (auto simp: file_grows_def)
qed

lemma sweep_store_durable:
  assumes "\<And>c. sv_ok env c" and "durable st" and "sweep_store env s t n m st = (st', ok, new)"
  shows "ok \<and> durable st' \<and> file_grows st st' \<and> in_file st' s t (d_scts m)"
proof (cases "inbox_has s t (d_scts m) st")
  case True
  then obtain i r where "(i, r) \<in> set (js_items (ib_inbox st))" "i_from r = s" "i_text r = t" "i_scts r = d_scts m"
    by (auto simp: inbox_has_def list_ex_iff js_values_def)
  then have "in_file st s t (d_scts m)" using assms(2) by (fastforce simp: durable_def in_file_def)
  then show ?thesis using assms(2,3) True by (simp add: sweep_store_def)
next
  case False
  obtain st1 w where w: "store_inbox (sv_ok env) (sv_now env) s t n m False st = (st1, w)" by fastforce
  from store_inbox_durable [OF assms(1,2) w] show ?thesis using assms(3) False w by (auto simp: sweep_store_def)
qed

text \<open>The invariant of a sweep.\<close>

definition sweep_ok :: "(nat \<times> sms) list \<Rightarrow> sweep \<Rightarrow> bool" where
  "sweep_ok found s \<longleftrightarrow> durable (sw_st s) \<and>
     (\<forall>i \<in> set (sw_dels s). \<exists>m. (i, m) \<in> set found \<and> accounted found m (sw_st s))"

lemma sweep_ok_step:
  assumes "sweep_ok found s" and "durable st'" and "file_grows (sw_st s) st'"
    and "\<And>i. i \<in> set is \<Longrightarrow> \<exists>m. (i, m) \<in> set found \<and> accounted found m st'"
    and "sw_st s' = st'" and "set (sw_dels s') \<subseteq> set (sw_dels s) \<union> set is"
  shows "sweep_ok found s'"
  using assms accounted_grows unfolding sweep_ok_def by blast

lemma delete_parts_dels:
  "delete_parts env is s = (s', w) \<Longrightarrow> sw_st s' = sw_st s \<and> set (sw_dels s') \<subseteq> set (sw_dels s) \<union> set is"
proof (induction "is" arbitrary: s)
  case (Cons i "is")
  then show ?case by (fastforce simp: send_delete_def split: sum.splits)
qed simp

lemma delete_single_dels:
  "delete_single env i ok s = (s', w) \<Longrightarrow>
   sw_st s' = sw_st s \<and> set (sw_dels s') \<subseteq> set (sw_dels s) \<union> (if ok then {i} else {})"
  by (auto simp: delete_single_def send_delete_def split: sum.splits if_splits)

lemma group_parts_found:
  "(i, d) \<in> set (group_parts k found) \<Longrightarrow> (i, Deliver d) \<in> set found \<and> group_key (Deliver d) = Some k"
  by (induction found) (auto split: sms.splits if_splits)

lemma group_slots_parts:
  shows "map_of (group_slots found gs) k =
     (if group_parts k found = [] then map_of gs k
      else Some ((case map_of gs k of Some ps \<Rightarrow> ps | None \<Rightarrow> []) @ group_parts k found))"
  and "dict_ok gs \<Longrightarrow> dict_ok (group_slots found gs)"
proof (induction found arbitrary: gs)
  case (Cons im found)
  obtain i m where im: "im = (i, m)" by fastforce
  { case 1 show ?case using Cons.IH(1)
      by (auto simp: im group_key_def split: sms.splits option.splits prod.splits) }
  { case 2 then show ?case using Cons.IH(2) by (auto simp: im split: sms.splits option.splits) }
qed simp_all

lemma sweep_groups_ok:
  assumes "\<And>c. sv_ok env c" and "sweep_ok found s" and "sweep_groups env gs s = (s', w)"
    and "\<And>k ps. (k, ps) \<in> set gs \<Longrightarrow> ps = group_parts k found"
  shows "sweep_ok found s'"
  using assms(2-)
proof (induction gs arbitrary: s)
  case Nil
  then show ?case by simp
next
  case (Cons g gs)
  obtain sd r n parts where g: "g = ((sd, r, n), parts)" by (metis prod_cases4 prod.exhaust)
  have parts: "parts = group_parts (sd, r, n) found" and rest: "\<And>k ps. (k, ps) \<in> set gs \<Longrightarrow> ps = group_parts k found"
    using Cons.prems(3) by (auto simp: g)
  have same: "sweep_ok found (s\<lparr>sw_kept := x\<rparr>)" for x using Cons.prems(1) by (simp add: sweep_ok_def)
  show ?case
  proof (cases "length (seq_texts parts) < n")
    case True
    then show ?thesis using Cons.IH [OF same _ rest] Cons.prems(2) by (simp add: g)
  next
    case False
    obtain st1 ok new where ss: "sweep_store env sd (join_parts (seq_texts parts)) n (min_seq parts) (sw_st s) = (st1, ok, new)"
      using prod_cases3 by blast
    have "durable (sw_st s)" using Cons.prems(1) by (simp add: sweep_ok_def)
    from sweep_store_durable [OF assms(1) this ss]
    have st1: "ok" "durable st1" "file_grows (sw_st s) st1" "in_file st1 sd (join_parts (seq_texts parts)) (d_scts (min_seq parts))"
      by blast+
    let ?s1 = "s\<lparr>sw_st := st1, sw_stored := sw_stored s + new\<rparr>"
    obtain s2 w2 where d: "delete_parts env (map fst parts) ?s1 = (s2, w2)" by fastforce
    have acc: "\<exists>m. (i, m) \<in> set found \<and> accounted found m st1" if "i \<in> set (map fst parts)" for i
    proof -
      from that obtain x where "(i, x) \<in> set parts" by auto
      then have "(i, Deliver x) \<in> set found" "group_key (Deliver x) = Some (sd, r, n)"
        using group_parts_found unfolding parts by blast+
      then show ?thesis using st1(4) False by (auto simp: accounted_def parts Let_def)
    qed
    have "sweep_ok found s2"
      using delete_parts_dels [OF d] by (intro sweep_ok_step [OF Cons.prems(1) st1(2,3), of "map fst parts"] acc) auto
    then show ?thesis
      using Cons.IH [OF _ _ rest] Cons.prems(2) False ss st1(1) d by (auto simp: g split: sum.splits)
  qed
qed

lemma sweep_rest_ok:
  assumes "\<And>c. sv_ok env c" and "sweep_ok found s" and "sweep_rest env ms s = (s', w)" and "set ms \<subseteq> set found"
  shows "sweep_ok found s'"
  using assms(2-)
proof (induction ms arbitrary: s)
  case Nil
  then show ?case by simp
next
  case (Cons im ms)
  obtain i m where im: "im = (i, m)" by fastforce
  obtain s1 w1 where one: "sweep_single env i m s = (s1, w1)" by fastforce
  have found: "(i, m) \<in> set found" using Cons.prems(3) by (simp add: im)
  have dur: "durable (sw_st s)" using Cons.prems(1) by (simp add: sweep_ok_def)
  have "sweep_ok found s1"
  proof (cases m)
    case (Deliver d)
    show ?thesis
    proof (cases "group_key m")
      case (Some k)
      then show ?thesis using one Cons.prems(1) by (simp add: sweep_single_def)
    next
      case None
      obtain st1 ok new where ss: "sweep_store env (d_sender d) (d_text d) 1 d (sw_st s) = (st1, ok, new)"
        using prod_cases3 by blast
      from sweep_store_durable [OF assms(1) dur ss] have st1: "ok" "durable st1" "file_grows (sw_st s) st1"
        "in_file st1 (d_sender d) (d_text d) (d_scts d)" by blast+
      have "delete_single env i ok (s\<lparr>sw_st := st1, sw_stored := sw_stored s + new\<rparr>) = (s1, w1)"
        using one None Deliver ss by (simp add: sweep_single_def)
      from delete_single_dels [OF this] show ?thesis
        using found st1(4) None Deliver
        by (intro sweep_ok_step [OF Cons.prems(1) st1(2,3), of "[i]"]) (auto simp: accounted_def split: if_splits)
    qed
  next
    case (StatusReport sr)
    obtain sms r where sr: "on_status_report (sv_ok env 0) (sv_now env) sr (ib_sms (sw_st s)) = (sms, r)" by fastforce
    let ?st1 = "(sw_st s)\<lparr>ib_sms := sms\<rparr>"
    have st1: "durable ?st1" "file_grows (sw_st s) ?st1" using dur by (simp_all add: durable_def file_grows_def)
    have "sw_st s1 = ?st1 \<and> set (sw_dels s1) \<subseteq> set (sw_dels s) \<union> {i}"
    proof (cases r)
      case (Inl e)
      then show ?thesis using one StatusReport sr by (auto simp: sweep_single_def group_key_def)
    next
      case (Inr b)
      then have "delete_single env i True (s\<lparr>sw_st := ?st1\<rparr>) = (s1, w1)"
        using one StatusReport sr by (simp add: sweep_single_def group_key_def)
      from delete_single_dels [OF this] show ?thesis by simp
    qed
    then show ?thesis
      using found StatusReport by (intro sweep_ok_step [OF Cons.prems(1) st1, of "[i]"]) (auto simp: accounted_def)
  next
    case (Submit x)
    then show ?thesis using one Cons.prems(1) by (auto simp: sweep_single_def group_key_def sweep_ok_def)
  qed
  then show ?case using Cons.IH Cons.prems(2,3) one by (auto simp: im split: sum.splits)
qed



text \<open>
  The hypothesis on the writes is needed: \<open>JsonlStore.put\<close> adds the record to memory before it
  opens the file, so after a failed write the next sweep finds the message in memory, stores nothing and
  lets the SIM copy be deleted. The message is then in no file.
\<close>

lemma failed_write_then_deleted:
  assumes "\<not> sv_ok env (sm_counter (ib_sms st) + 1)" and "\<not> inbox_has sender t (d_scts m) st" 
    and inv: "js_inv k (ib_inbox st)" and "0 < k"
  shows "\<exists>st1. sweep_store env sender t n m st = (st1, False, 0) \<and>
    sweep_store env2 sender t n m st1 = (st1, True, 0) \<and> js_file (ib_inbox st1) = js_file (ib_inbox st)"
proof -
  define rec where "rec = in_record (new_id ''in'' (sv_now env) (Suc (sm_counter (ib_sms st)))) (sv_now env) sender t n m False"
  let ?u = "AList.update (i_id rec) rec (js_items (ib_inbox st))"
  let ?st1 = "st\<lparr>ib_sms := (ib_sms st)\<lparr>sm_counter := Suc (sm_counter (ib_sms st))\<rparr>,
      ib_inbox := (ib_inbox st)\<lparr>js_items := pop_oldest (js_keep (ib_inbox st)) ?u\<rparr>\<rparr>"
  have one: "sweep_store env sender t n m st = (?st1, False, 0)"
    using assms(1,2) by (simp add: sweep_store_def store_inbox_def js_put_def Let_def rec_def)
  have "\<exists>i. (i, rec) \<in> set (pop_oldest (js_keep (ib_inbox st)) ?u)"
    using js_put_self [OF inv assms(4), of False "i_id rec" rec]
    by (auto simp: js_put_def Let_def js_get_def dest!: map_of_SomeD)
  then have "inbox_has sender t (d_scts m) ?st1"
    by (force simp: inbox_has_def list_ex_iff js_values_def rec_def in_record_def)
  then show ?thesis using one by (intro exI [of _ ?st1]) (simp add: sweep_store_def)
qed

text \<open>One short message in the first slot.\<close>

definition demo_deliver :: deliver_sms where
  "demo_deliver = \<lparr>d_smsc = None, d_sender = [43], d_pid = 0, d_dcs = 0,
     d_scts = scts_text (2026, 1, 22, 0, 0, 0), d_text = [], d_concat = None, d_alphabet = Gsm7, d_status_report = False\<rparr>"

definition demo_reply :: "bytes \<Rightarrow> req_out" where
  "demo_reply d = Reply (take_resp \<lparr>mseq = 0, aseq = 1, grp = 4, idx = 3, ftyp = 2, payload = d\<rparr>
     (new_pending SMS_READ_MSG GET True False))"

definition demo_sweep :: sweep_env where
  "demo_sweep = \<lparr>sv_now = 0, sv_ok = (\<lambda>_. True), sv_count = demo_reply [2, 1],
     sv_read = (\<lambda>_. demo_reply [2, 0, 0, 1, 14, 0, 0x04, 0, 0x91, 0, 0, 0x62, 0x10, 0x22, 0, 0, 0, 0, 0]),
     sv_del = (\<lambda>_. NoReply)\<rparr>"

lemma demo_scts: "decode_scts [0x62, 0x10, 0x22, 0, 0, 0, 0] = Inr (scts_text (2026, 1, 22, 0, 0, 0))"
proof -
  have "encode_scts (2026, 1, 22, 0, 0, 0) = [0x62, 0x10, 0x22, 0, 0, 0, 0]"
    by (simp add: encode_scts_def push_bit_eq_mult)
  then show ?thesis using decode_encode_scts [of "(2026, 1, 22, 0, 0, 0)"] by (simp add: tm_ok_def)
qed

lemma demo_read: "read_slot (sv_read demo_sweep i) = Inr (Some (Deliver demo_deliver))"
  by (simp add: demo_sweep_def demo_reply_def read_slot_def take_resp_def dec_sms_read_def Let_def py_slice_def
    decode_pdu_def decode_smsc_def item_def decode_deliver_def decode_address_def bcd_decode_def demo_scts
    decode_ud_def dcs_alphabet_def unpack7_def demo_deliver_def lit_def gsm7_text_def)

lemma demo_count: "slot_count (sv_count demo_sweep) = Inr (Some 1)"
  by (simp add: demo_sweep_def demo_reply_def slot_count_def take_resp_def dec_sms_stored_slots_def u8_def)


end
