(* ===== verification/Phone_Calls.thy ===== *)
theory Phone_Calls
  imports Phone_Inbox
begin

text \<open>
  Calls of \<open>Phone\<close> in \<^verbatim>\<open>phoned/s22-phoned.py\<close>: the table of calls kept from the modem's
  notifications (\<open>_call\<close>, \<open>_on_call_incoming\<close>, \<open>_on_call_status\<close>, \<open>_on_call_list\<close>) and the
  commands of the API (\<open>dial\<close>, \<open>answer\<close>, \<open>hangup\<close>, \<open>dtmf\<close>). The fields of a call come from
  decoded JSON, so they are JSON values. Events and deferred work are collected in the state.
\<close>

section \<open>The table of calls\<close>

record call =
  c_id :: json
  c_number :: json
  c_dir :: json
  c_state :: json
  c_started :: "time option"
  c_ts :: time
  c_cause :: "json option"

text \<open>\<open>CallDialled n\<close>: the event of a dial whose call is nowhere on file, which has just the number.\<close>

datatype call_event = CallIncoming call | CallState call | CallDialled pystr

record calls_st =
  cs_calls :: "(json, call) dict"
  cs_pending :: "call option"
  cs_events :: "call_event list"
  cs_work :: "job list"

abbreviation jstr :: "string \<Rightarrow> json" where
  "jstr s \<equiv> JStr (lit s)"

text \<open>
  A value as a dictionary key: equal numbers are the same key, arrays and objects raise
  \<open>TypeError\<close>. The parser returns one and the same object for every \<open>NaN\<close>, so it is a key like others.
\<close>

definition hash_key :: "json \<Rightarrow> json option" where
  "hash_key v =
     (case v of
        JArr _ \<Rightarrow> None
      | JObj _ \<Rightarrow> None
      | JBool b \<Rightarrow> Some (JInt (of_bool b))
      | JFloat q \<Rightarrow> Some (if q \<in> \<int> then JInt \<lfloor>q\<rfloor> else v)
      | _ \<Rightarrow> Some v)"

definition call_put :: "json \<Rightarrow> call \<Rightarrow> (json, call) dict \<Rightarrow> (json, call) dict" where
  "call_put k c cs = pop_oldest 50 (AList.update k c cs)"

definition calls_ok :: "(json, call) dict \<Rightarrow> bool" where
  "calls_ok cs \<longleftrightarrow> dict_ok cs \<and> length cs \<le> 50"

definition new_call :: "json \<Rightarrow> time \<Rightarrow> call" where
  "new_call cid now =
     \<lparr>c_id = cid, c_number = JNull, c_dir = jstr ''in'', c_state = jstr ''incoming'', c_started = None, c_ts = now,
      c_cause = None\<rparr>"

text \<open>\<open>_call\<close>: \<open>f\<close> is the update by the keyword arguments; \<open>k\<close> the key of \<open>cid\<close>.\<close>

definition touch_call :: "time \<Rightarrow> json \<Rightarrow> json \<Rightarrow> (call \<Rightarrow> call) \<Rightarrow> calls_st \<Rightarrow> calls_st \<times> call" where
  "touch_call now k cid f st =
     (let c0 = (case map_of (cs_calls st) k of Some c \<Rightarrow> c | None \<Rightarrow> new_call cid now);
          c1 = (f c0)\<lparr>c_ts := now\<rparr>;
          c2 = (if c_state c1 = jstr ''active'' \<and> c_started c1 = None then c1\<lparr>c_started := Some now\<rparr> else c1)
      in (st\<lparr>cs_calls := call_put k c2 (cs_calls st)\<rparr>, c2))"

definition call_event :: "call_event \<Rightarrow> calls_st \<Rightarrow> calls_st" where
  "call_event e st = st\<lparr>cs_events := cs_events st @ [e]\<rparr>"

definition call_job :: "job \<Rightarrow> calls_st \<Rightarrow> calls_st" where
  "call_job j st = st\<lparr>cs_work := cs_work st @ [j]\<rparr>"

section \<open>Notifications\<close>

definition on_call_incoming :: "time \<Rightarrow> call_noti \<Rightarrow> calls_st \<Rightarrow> pyerr + calls_st" where
  "on_call_incoming now d st =
     (case hash_key (cn_id d) of
        None \<Rightarrow> Inl TypeError
      | Some k \<Rightarrow>
          (let (st1, c) = touch_call now k (cn_id d) (\<lambda>c. c\<lparr>c_dir := jstr ''in'', c_state := jstr ''incoming''\<rparr>) st
           in Inr (call_job JRefreshCalls (call_event (CallIncoming c) st1))))"

text \<open>\<open>CALL_STATUS_STATE.get(st, ...)\<close>; \<open>None\<close>: an unhashable status.\<close>

definition status_state :: "json \<Rightarrow> json option" where
  "status_state v =
     (if hash_key v = None then None
      else Some (if eq_int v 1 then jstr ''dialing'' else if eq_int v 2 then jstr ''released''
        else if eq_int v 3 then jstr ''active'' else if eq_int v 4 then jstr ''released''
        else if eq_int v 5 then jstr ''alerting''
        else (case v of
                JStr s \<Rightarrow> JStr s
              | _ \<Rightarrow> (case as_int v of Some i \<Rightarrow> JStr (lit ''0x'' @ hex02 i) | None \<Rightarrow> jstr ''unknown''))))"

text \<open>A dialled call without an id takes the id of the first unknown call the modem reports.\<close>

definition adopt_pending :: "json \<Rightarrow> json \<Rightarrow> calls_st \<Rightarrow> calls_st" where
  "adopt_pending k cid st =
     (case (map_of (cs_calls st) k, cs_pending st) of
        (None, Some p) \<Rightarrow> st\<lparr>cs_calls := cs_calls st @ [(k, p\<lparr>c_id := cid\<rparr>)], cs_pending := None\<rparr>
      | _ \<Rightarrow> st)"

definition on_call_status :: "time \<Rightarrow> call_noti \<Rightarrow> calls_st \<Rightarrow> pyerr + calls_st" where
  "on_call_status now d st =
     (case (status_state (cn_status d), hash_key (cn_id d)) of
        (Some s, Some k) \<Rightarrow>
          (let st1 = adopt_pending k (cn_id d) st;
               (st2, c) = touch_call now k (cn_id d)
                 (\<lambda>c. let c1 = c\<lparr>c_state := s\<rparr> in
                      if s = jstr ''released'' then c1\<lparr>c_cause := Some (cn_end_cause d)\<rparr> else c1) st1;
               st3 = call_event (CallState c) st2
           in Inr (if s = jstr ''dialing'' \<or> s = jstr ''active'' then call_job JRefreshCalls st3 else st3))
      | _ \<Rightarrow> Inl TypeError)"

text \<open>\<open>{c["id"]: c for c in d.get("calls", []) if isinstance(c, dict)}\<close>\<close>

fun listed_loop :: "json list \<Rightarrow> (json, json) dict \<Rightarrow> pyerr + (json, json) dict" where
  "listed_loop [] m = Inr m"
| "listed_loop (c # cs) m =
     (if \<not> is_obj c then listed_loop cs m
      else (case map_of (jfields c) (lit ''id'') of
              None \<Rightarrow> Inl KeyError
            | Some i \<Rightarrow>
                (case hash_key i of
                   None \<Rightarrow> Inl TypeError
                 | Some k \<Rightarrow> listed_loop cs (AList.update k c m))))"

definition listed_calls :: "json \<Rightarrow> pyerr + (json, json) dict" where
  "listed_calls calls = (case iter_json calls of None \<Rightarrow> Inl TypeError | Some cs \<Rightarrow> listed_loop cs [])"

text \<open>One listed call; the second component: it is new or changed.\<close>

definition old_state :: "call option \<Rightarrow> json" where
  "old_state old = (case old of Some c \<Rightarrow> c_state c | None \<Rightarrow> JNull)"

definition old_number :: "call option \<Rightarrow> json" where
  "old_number old = (case old of Some c \<Rightarrow> c_number c | None \<Rightarrow> JNull)"

definition list_update_call :: "call option \<Rightarrow> json \<Rightarrow> call \<Rightarrow> call" where
  "list_update_call old j c =
     c\<lparr>c_number := (if truthy (jget j ''number'') then jget j ''number'' else old_number old),
       c_dir := jget_or j ''direction'' (case old of Some c \<Rightarrow> c_dir c | None \<Rightarrow> jstr ''in''),
       c_state := jget_or j ''state'' (old_state old)\<rparr>"

definition list_call :: "time \<Rightarrow> json \<Rightarrow> json \<Rightarrow> calls_st \<Rightarrow> calls_st \<times> call option" where
  "list_call now k j st =
     (let old = map_of (cs_calls st) k;
          (st1, c1) = touch_call now k (jget j ''id'') (list_update_call old j) st
      in (st1, if old_state old \<noteq> c_state c1 \<or> old_number old \<noteq> c_number c1 then Some c1 else None))"

fun list_calls :: "time \<Rightarrow> (json, json) dict \<Rightarrow> calls_st \<Rightarrow> calls_st \<times> call list" where
  "list_calls now [] st = (st, [])"
| "list_calls now ((k, j) # ls) st =
     (let (st1, ch) = list_call now k j st; (st2, chs) = list_calls now ls st1
      in (st2, (case ch of Some c \<Rightarrow> [c] | None \<Rightarrow> []) @ chs))"

fun release_calls :: "time \<Rightarrow> json list \<Rightarrow> calls_st \<Rightarrow> calls_st \<times> call list" where
  "release_calls now [] st = (st, [])"
| "release_calls now (k # ks) st =
     (let (st1, c) = touch_call now k k (\<lambda>c. c\<lparr>c_state := jstr ''released''\<rparr>) st;
          (st2, cs) = release_calls now ks st1
      in (st2, c # cs))"

definition gone_calls :: "(json, json) dict \<Rightarrow> (json, call) dict \<Rightarrow> json list" where
  "gone_calls listed cs =
     map fst (filter (\<lambda>(k, c). map_of listed k = None \<and> c_state c \<noteq> jstr ''released'' \<and> c_state c \<noteq> jstr ''dialing'') cs)"

definition on_call_list :: "time \<Rightarrow> byte \<Rightarrow> json \<Rightarrow> calls_st \<Rightarrow> pyerr + calls_st" where
  "on_call_list now ty calls st =
     (if ty \<noteq> RESP then Inr st
      else try_r (listed_calls calls) (\<lambda>listed.
        let (st1, ch1) = list_calls now listed st;
            (st2, ch2) = release_calls now (gone_calls listed (cs_calls st1)) st1
        in Inr (st2\<lparr>cs_events := cs_events st2 @ map CallState (ch1 @ ch2)\<rparr>)))"

text \<open>\<open>current_calls\<close>\<close>

definition current_calls :: "bool \<Rightarrow> calls_st \<Rightarrow> call list" where
  "current_calls include_recent st =
     (let cs = map snd (cs_calls st) in
      filter (\<lambda>c. c_state c \<noteq> jstr ''released'') cs @
      (if include_recent then filter (\<lambda>c. c_state c = jstr ''released'') (drop (length cs - 10) cs) else []) @
      (case cs_pending st of Some p \<Rightarrow> [p] | None \<Rightarrow> []))"

section \<open>Commands\<close>

type_synonym reply = "nat \<times> pystr option"

text \<open>\<open>_simple\<close>; the last case is \<open>p.gen["code"]\<close> with no acknowledgement on file.\<close>

definition simple_reply :: "req_out \<Rightarrow> pyerr + reply" where
  "simple_reply out =
     (case out of
        Down e \<Rightarrow> Inr (503, Some e)
      | NoReply \<Rightarrow> Inr (504, Some (lit ''no reply from modem''))
      | Reply p \<Rightarrow>
          if p_ok p then Inr (200, None)
          else (case p_gen p of
                  Some g \<Rightarrow> Inr (502, Some (lit ''modem error '' @ hex04 (g_code g)))
                | None \<Rightarrow> Inl TypeError))"

text \<open>What a command sends (\<open>None\<close>: nothing) and what it answers for the outcome of the request.\<close>

type_synonym command = "((byte \<times> byte) \<times> bytes) option \<times> (req_out \<Rightarrow> pyerr + reply)"

definition answer_call :: "calls_st \<Rightarrow> command" where
  "answer_call st =
     (if list_ex (\<lambda>c. c_state c = jstr ''incoming'' \<or> c_state c = jstr ''waiting'') (current_calls False st)
      then (Some (CALL_ANSWER, []), simple_reply)
      else (None, \<lambda>_. Inr (409, Some (lit ''no incoming call''))))"

definition hangup_call :: "calls_st \<Rightarrow> command" where
  "hangup_call st =
     (if current_calls False st = [] then (None, \<lambda>_. Inr (409, Some (lit ''no call'')))
      else (Some (CALL_RELEASE, []), simple_reply))"

text \<open>The pending dial is dropped after the reply, unless building the reply raised.\<close>

definition hangup_end :: "req_out \<Rightarrow> calls_st \<Rightarrow> calls_st" where
  "hangup_end out st =
     (case simple_reply out of Inl _ \<Rightarrow> st | Inr _ \<Rightarrow> st\<lparr>cs_pending := None\<rparr>)"

definition dtmf_char :: "nat \<Rightarrow> bool" where
  "dtmf_char c \<longleftrightarrow> ascii_digit c \<or> c = 42 \<or> c = 35 \<or> 65 \<le> c \<and> c \<le> 68"

definition dtmf_body :: "pystr \<Rightarrow> bytes" where
  "dtmf_body ds = of_nat (length ds) # concat (map (\<lambda>c. [1, of_nat c]) ds)"

definition dtmf :: "pystr \<Rightarrow> calls_st \<Rightarrow> command" where
  "dtmf ds st =
     (if \<not> (list_all dtmf_char ds \<and> 1 \<le> length ds \<and> length ds \<le> 32)
      then (None, \<lambda>_. Inr (400, Some (lit ''digits must match [0-9*#A-D]{1,32}'')))
      else if \<not> list_ex (\<lambda>c. c_state c = jstr ''active'') (current_calls False st)
      then (None, \<lambda>_. Inr (409, Some (lit ''no active call'')))
      else (Some (CALL_BURST_DTMF, dtmf_body ds), simple_reply))"

text \<open>
  \<open>dial\<close> up to the request: the reply of a refusal, or the body. The reader thread may handle
  notifications before \<open>dial_end\<close>, which runs when the request has ended.
\<close>

definition dial_body :: "pystr \<Rightarrow> bytes" where
  "dial_body n =
     (let digits = map of_nat (take 86 n) :: bytes in
      [0, 0x01, 0x00, of_nat (length digits), if take 1 n = [43] then 0x11 else 0x00] @ digits @
      replicate (86 - length digits) 0)"

definition dial_code :: "pystr \<Rightarrow> nat" where
  "dial_code err =
     (if contains (lit ''rate'') err then 429 else if contains (lit ''invalid'') err then 400
      else if contains (lit ''modem'') err then 503 else 403)"

definition pending_call :: "pystr \<Rightarrow> time \<Rightarrow> call" where
  "pending_call n now =
     \<lparr>c_id = JNull, c_number = JStr n, c_dir = jstr ''out'', c_state = jstr ''dialing'', c_started = None,
      c_ts = now, c_cause = None\<rparr>"

record dial_gate =
  dg_fs :: gate_fs
  dg_rate :: rate_limit
  dg_open :: bool

definition dial_begin :: "pylib \<Rightarrow> time \<Rightarrow> pystr \<Rightarrow> dial_gate \<Rightarrow> calls_st \<Rightarrow>
    dial_gate \<times> calls_st \<times> (reply + pystr \<times> bytes)" where
  "dial_begin lib now number dg st =
     (let (n, err, fs) = gate lib now number (lit ''dial'') (dg_fs dg);
          dg1 = dg\<lparr>dg_fs := fs\<rparr>
      in case err of
           Some e \<Rightarrow> (dg1, st, Inl (dial_code e, Some e))
         | None \<Rightarrow>
             if \<not> dg_open dg then (dg1, st, Inl (dial_code (lit ''modem not open''), Some (lit ''modem not open'')))
             else (let (rl, ok) = rl_take (dg_rate dg) now; dg2 = dg1\<lparr>dg_rate := rl\<rparr> in
                   if \<not> ok then (dg2, st, Inl (dial_code (lit ''refused: rate limit''), Some (lit ''refused: rate limit'')))
                   else (dg2, st\<lparr>cs_pending := Some (pending_call n now)\<rparr>, Inr (n, dial_body n))))"

definition dial_end :: "pystr \<Rightarrow> req_out \<Rightarrow> calls_st \<Rightarrow> calls_st \<times> reply" where
  "dial_end n out st =
     (if req_ok out then
        (let e = (case find (\<lambda>c. c_number c = JStr n \<and> c_dir c = jstr ''out'' \<and> c_state c \<noteq> jstr ''released'')
                         (rev (map snd (cs_calls st))) of
                    Some c \<Rightarrow> CallState c
                  | None \<Rightarrow> (case cs_pending st of Some p \<Rightarrow> CallState (p\<lparr>c_number := JStr n\<rparr>) | None \<Rightarrow> CallDialled n))
         in (call_event e st, 200, None))
      else
        (st\<lparr>cs_pending := None\<rparr>, 502,
         Some (case out of
                 Down e \<Rightarrow> e
               | _ \<Rightarrow> (case req_gen out of
                         Some g \<Rightarrow> lit ''modem error '' @ hex04 (g_code g)
                       | None \<Rightarrow> lit ''no reply from modem''))))"

section \<open>The table as a bounded store\<close>

interpretation call_table: keyed_store call_put map_of length calls_ok 50
proof (unfold_locales, goal_cases)
  case (1 s i r)
  then show ?case by (simp add: calls_ok_def call_put_def)
next
  case (2 s i r j)
  then have ok: "dict_ok (AList.update i r s)" by (simp add: calls_ok_def)
  show ?case
    using map_of_pop_oldest [OF ok, of 50 j]
    by (cases "map_of (pop_oldest 50 (AList.update i r s)) j") (auto simp: call_put_def)
next
  case (3 s)
  then show ?case by (simp add: calls_ok_def)
next
  case (4 s i r)
  then have "length (AList.update i r s) \<le> 50" by (auto simp: calls_ok_def length_dict_update)
  then show ?case by (auto simp: call_put_def length_dict_update)
next
  case (5 s)
  then show ?case by (simp add: calls_ok_def card_dict finite_dom_map_of)
qed

lemma call_put_map:
  assumes "calls_ok cs" and "length cs < 50 \<or> map_of cs k \<noteq> None"
  shows "map_of (call_put k c cs) = (map_of cs)(k \<mapsto> c)"
  using call_table.put_room [OF assms] by blast

lemma set_call_put: "set (call_put k c cs) \<subseteq> insert (k, c) (set cs)"
  using set_dict_update [of k c cs] by (auto simp: call_put_def pop_oldest_drop dest: in_set_dropD)

lemma calls_ok_put: "dict_ok cs \<Longrightarrow> calls_ok (call_put k c cs)"
  by (simp add: calls_ok_def call_put_def)

section \<open>The invariant of the table\<close>

definition call_good :: "json \<Rightarrow> call \<Rightarrow> bool" where
  "call_good k c \<longleftrightarrow> hash_key (c_id c) = Some k \<and> (c_state c = jstr ''active'' \<longrightarrow> c_started c \<noteq> None)"

definition calls_inv :: "calls_st \<Rightarrow> bool" where
  "calls_inv st \<longleftrightarrow> calls_ok (cs_calls st) \<and> (\<forall>(k, c) \<in> set (cs_calls st). call_good k c) \<and>
     (\<forall>p. cs_pending st = Some p \<longrightarrow> c_state p = jstr ''dialing'')"

lemma hash_key_idem: "hash_key v = Some k \<Longrightarrow> hash_key k = Some k"
  by (auto simp: hash_key_def split: json.splits if_splits)

lemma touch_call_inv:
  assumes "dict_ok (cs_calls st)" and "\<And>k c. (k, c) \<in> set (cs_calls st) \<Longrightarrow> call_good k c"
    and "\<And>p. cs_pending st = Some p \<Longrightarrow> c_state p = jstr ''dialing''"
    and "hash_key cid = Some k" and "\<And>c. c_id (f c) = c_id c" and "touch_call now k cid f st = (st', c)"
  shows "calls_inv st' \<and> call_good k c"
proof -
  define c0 where "c0 = (case map_of (cs_calls st) k of Some c \<Rightarrow> c | None \<Rightarrow> new_call cid now)"
  have id: "hash_key (c_id c0) = Some k"
    using assms(2) [of k] assms(4) by (auto simp: c0_def call_good_def new_call_def split: option.splits dest!: map_of_SomeD)
  have c: "c = (let c1 = (f c0)\<lparr>c_ts := now\<rparr> in
      if c_state c1 = jstr ''active'' \<and> c_started c1 = None then c1\<lparr>c_started := Some now\<rparr> else c1)"
    and st': "st' = st\<lparr>cs_calls := call_put k c (cs_calls st)\<rparr>"
    using assms(6) by (auto simp: touch_call_def Let_def c0_def)
  have good: "call_good k c" using id assms(5) by (auto simp: c call_good_def Let_def)
  then have "\<forall>(i, x) \<in> set (cs_calls st'). call_good i x"
    using set_call_put [of k c "cs_calls st"] assms(2) by (fastforce simp: st')
  then show ?thesis using calls_ok_put [OF assms(1)] assms(3) good by (simp add: calls_inv_def st')
qed

lemma touch_call_keeps:
  assumes "calls_inv st" and "hash_key cid = Some k" and "\<And>c. c_id (f c) = c_id c" and "touch_call now k cid f st = (st', c)"
  shows "calls_inv st'"
  using touch_call_inv [OF _ _ _ assms(2-4)] assms(1) by (fastforce simp: calls_inv_def calls_ok_def)

lemma calls_inv_out [simp]:
  "calls_inv (call_event e st) \<longleftrightarrow> calls_inv st" "calls_inv (call_job j st) \<longleftrightarrow> calls_inv st"
  "calls_inv (st\<lparr>cs_events := es\<rparr>) \<longleftrightarrow> calls_inv st"
  by (simp_all add: calls_inv_def call_event_def call_job_def)

lemma listed_loop_keys:
  "listed_loop cs m = Inr m' \<Longrightarrow> (\<forall>(k, j) \<in> set m. hash_key (jget j ''id'') = Some k) \<Longrightarrow> dict_ok m \<Longrightarrow>
   (\<forall>(k, j) \<in> set m'. hash_key (jget j ''id'') = Some k) \<and> dict_ok m'"
proof (induction cs arbitrary: m)
  case (Cons c cs)
  show ?case
  proof (cases "is_obj c")
    case False
    then show ?thesis using Cons by simp
  next
    case True
    then obtain i k where i: "map_of (jfields c) (lit ''id'') = Some i" "hash_key i = Some k"
        "listed_loop cs (AList.update k c m) = Inr m'"
      using Cons.prems(1) by (auto split: option.splits)
    have "\<forall>(k, j) \<in> set (AList.update k c m). hash_key (jget j ''id'') = Some k"
      using Cons.prems(2) set_dict_update [of k c m] i(1,2) by (fastforce simp: jget_def jget_or_def)
    then show ?thesis using Cons.IH [OF i(3)] Cons.prems(3) by simp
  qed
qed simp

lemma list_calls_inv:
  "calls_inv st \<Longrightarrow> \<forall>(k, j) \<in> set ls. hash_key (jget j ''id'') = Some k \<Longrightarrow> calls_inv (fst (list_calls now ls st))"
proof (induction ls arbitrary: st)
  case (Cons kj ls)
  obtain k j where kj: "kj = (k, j)" by fastforce
  obtain st1 ch where one: "list_call now k j st = (st1, ch)" by fastforce
  obtain c where t: "touch_call now k (jget j ''id'') (list_update_call (map_of (cs_calls st) k) j) st = (st1, c)"
    using one by (auto simp: list_call_def Let_def split: prod.splits)
  have "calls_inv st1"
    by (rule touch_call_keeps [OF Cons.prems(1) _ _ t]) (use Cons.prems(2) in \<open>auto simp: kj list_update_call_def\<close>)
  from Cons.IH [OF this] show ?case using Cons.prems(2) one by (auto simp: kj split: prod.splits)
qed simp

lemma release_calls_inv:
  "calls_inv st \<Longrightarrow> \<forall>k \<in> set ks. hash_key k = Some k \<Longrightarrow> calls_inv (fst (release_calls now ks st))"
proof (induction ks arbitrary: st)
  case (Cons k ks)
  obtain st1 c where one: "touch_call now k k (\<lambda>c. c\<lparr>c_state := jstr ''released''\<rparr>) st = (st1, c)" by fastforce
  have "calls_inv st1" by (rule touch_call_keeps [OF Cons.prems(1) _ _ one]) (use Cons.prems(2) in auto)
  from Cons.IH [OF this] show ?case using Cons.prems(2) one by (auto split: prod.splits)
qed simp

text \<open>Everything that changes the table: notifications, and the two halves of a dial and of a hang-up.\<close>

datatype call_op = OpIncoming call_noti | OpStatus call_noti | OpList byte json
  | OpDialSent pystr | OpDialDone pystr req_out | OpHangup req_out

definition call_step :: "call_op \<times> time \<Rightarrow> calls_st \<Rightarrow> calls_st" where
  "call_step x st =
     (case x of (op, now) \<Rightarrow>
       (case op of
          OpIncoming d \<Rightarrow> case_sum (\<lambda>_. st) id (on_call_incoming now d st)
        | OpStatus d \<Rightarrow> case_sum (\<lambda>_. st) id (on_call_status now d st)
        | OpList ty j \<Rightarrow> case_sum (\<lambda>_. st) id (on_call_list now ty j st)
        | OpDialSent n \<Rightarrow> st\<lparr>cs_pending := Some (pending_call n now)\<rparr>
        | OpDialDone n out \<Rightarrow> fst (dial_end n out st)
        | OpHangup out \<Rightarrow> hangup_end out st))"

definition calls_init :: calls_st where
  "calls_init = \<lparr>cs_calls = [], cs_pending = None, cs_events = [], cs_work = []\<rparr>"

lemma on_call_incoming_inv:
  assumes "calls_inv st" and "on_call_incoming now d st = Inr st'"
  shows "calls_inv st'"
proof -
  obtain k where k: "hash_key (cn_id d) = Some k"
    using assms(2) by (auto simp: on_call_incoming_def split: option.splits)
  obtain st1 c where t: "touch_call now k (cn_id d) (\<lambda>c. c\<lparr>c_dir := jstr ''in'', c_state := jstr ''incoming''\<rparr>) st = (st1, c)"
    by fastforce
  have "calls_inv st1" by (rule touch_call_keeps [OF assms(1) k _ t]) simp
  then show ?thesis using assms(2) k t by (auto simp: on_call_incoming_def)
qed

lemma adopt_pending_good:
  assumes "calls_inv st" and "hash_key cid = Some k"
  shows "dict_ok (cs_calls (adopt_pending k cid st))"
    and "(i, c) \<in> set (cs_calls (adopt_pending k cid st)) \<Longrightarrow> call_good i c"
    and "cs_pending (adopt_pending k cid st) = Some p \<Longrightarrow> c_state p = jstr ''dialing''"
proof -
  have "lit ''dialing'' \<noteq> lit ''active''" by (simp add: lit_def)
  then show "dict_ok (cs_calls (adopt_pending k cid st))"
    and "(i, c) \<in> set (cs_calls (adopt_pending k cid st)) \<Longrightarrow> call_good i c"
    and "cs_pending (adopt_pending k cid st) = Some p \<Longrightarrow> c_state p = jstr ''dialing''"
    using assms
    by (auto simp: adopt_pending_def calls_inv_def calls_ok_def call_good_def dict_ok_def map_of_eq_None_iff split: option.splits)
qed

lemma on_call_status_inv:
  assumes "calls_inv st" and "on_call_status now d st = Inr st'"
  shows "calls_inv st'"
proof -
  obtain s k where k: "status_state (cn_status d) = Some s" "hash_key (cn_id d) = Some k"
    using assms(2) by (auto simp: on_call_status_def split: option.splits)
  let ?f = "\<lambda>c. let c1 = c\<lparr>c_state := s\<rparr> in if s = jstr ''released'' then c1\<lparr>c_cause := Some (cn_end_cause d)\<rparr> else c1"
  obtain st2 c where t: "touch_call now k (cn_id d) ?f (adopt_pending k (cn_id d) st) = (st2, c)" by fastforce
  have "calls_inv st2"
    using touch_call_inv [OF adopt_pending_good [OF assms(1) k(2)] k(2) _ t] by (simp add: Let_def)
  then show ?thesis using assms(2) k t by (auto simp: on_call_status_def Let_def split: if_splits)
qed

lemma gone_keys:
  assumes "calls_inv st" and "k \<in> set (gone_calls listed (cs_calls st))"
  shows "hash_key k = Some k"
  using assms hash_key_idem by (fastforce simp: gone_calls_def calls_inv_def call_good_def)

lemma on_call_list_cases:
  assumes "on_call_list now ty calls st = Inr st'"
  obtains (other) "ty \<noteq> RESP" "st' = st"
  | (list) listed st1 ch1 st2 ch2 es where "ty = RESP" "listed_calls calls = Inr listed" "list_calls now listed st = (st1, ch1)"
      "release_calls now (gone_calls listed (cs_calls st1)) st1 = (st2, ch2)" "st' = st2\<lparr>cs_events := es\<rparr>"
proof (cases "ty = RESP")
  case True
  obtain listed where l: "listed_calls calls = Inr listed"
    using assms True by (auto simp: on_call_list_def try_r_Inr_iff)
  obtain st1 ch1 where a: "list_calls now listed st = (st1, ch1)" by fastforce
  obtain st2 ch2 where b: "release_calls now (gone_calls listed (cs_calls st1)) st1 = (st2, ch2)" by fastforce
  have "st' = st2\<lparr>cs_events := cs_events st2 @ map CallState (ch1 @ ch2)\<rparr>"
    using assms True l a b by (simp add: on_call_list_def)
  then show thesis using that(2) True l a b by blast
qed (use assms that(1) in \<open>auto simp: on_call_list_def\<close>)

lemma listed_calls_keys:
  "listed_calls calls = Inr listed \<Longrightarrow> (\<forall>(k, j) \<in> set listed. hash_key (jget j ''id'') = Some k) \<and> dict_ok listed"
  using listed_loop_keys [of _ "[]" listed] by (auto simp: listed_calls_def split: option.splits)

lemma on_call_list_inv:
  assumes "calls_inv st" and "on_call_list now ty calls st = Inr st'"
  shows "calls_inv st'"
  using assms(2)
proof (cases rule: on_call_list_cases)
  case other
  then show ?thesis using assms(1) by simp
next
  case (list listed st1 ch1 st2 ch2 es)
  have "calls_inv st1" using list_calls_inv [OF assms(1)] listed_calls_keys [OF list(2)] list(3) by (metis fst_conv)
  then have "calls_inv st2" using release_calls_inv gone_keys list(4) by (metis fst_conv)
  then show ?thesis by (simp add: list(5))
qed

text \<open>
  C25. Whatever the modem reports and in whatever order, malformed reports included, the table holds
  at most 50 calls, each under its own id, and a call that is active has a start time.
\<close>

theorem call_table_invariant:
  "length (cs_calls (fold call_step ops calls_init)) \<le> 50 \<and>
   distinct (map fst (cs_calls (fold call_step ops calls_init))) \<and>
   (\<forall>(k, c) \<in> set (cs_calls (fold call_step ops calls_init)).
      hash_key (c_id c) = Some k \<and> (c_state c \<noteq> jstr ''active'' \<or> c_started c \<noteq> None))"
proof -
  have step: "calls_inv st \<Longrightarrow> calls_inv (call_step x st)" for x st
  proof (cases x)
    case (Pair op now)
    assume inv: "calls_inv st"
    have pend: "calls_inv (st\<lparr>cs_pending := p\<rparr>)" if "\<forall>c. p = Some c \<longrightarrow> c_state c = jstr ''dialing''" for p
      using inv that by (simp add: calls_inv_def)
    show ?thesis
    proof (cases op)
      case (OpDialDone n out)
      then show ?thesis using inv pend [of None] by (auto simp: Pair call_step_def dial_end_def)
    qed (use inv pend in \<open>auto simp: Pair call_step_def pending_call_def hangup_end_def
        intro: on_call_incoming_inv on_call_status_inv on_call_list_inv split: sum.splits\<close>)
  qed
  have "calls_inv (fold call_step ops st)" if "calls_inv st" for st
    using that by (induction ops arbitrary: st) (simp_all add: step)
  moreover have "calls_inv calls_init" by (simp add: calls_inv_def calls_init_def calls_ok_def)
  ultimately have "calls_inv (fold call_step ops calls_init)" .
  then show ?thesis by (auto simp: calls_inv_def calls_ok_def dict_ok_def call_good_def)
qed

section \<open>The list of calls is authoritative\<close>

lemma touch_call_map:
  assumes "calls_ok (cs_calls st)" and "length (cs_calls st) < 50 \<or> map_of (cs_calls st) k \<noteq> None"
    and "touch_call now k cid f st = (st', c)"
  shows "map_of (cs_calls st') = (map_of (cs_calls st))(k \<mapsto> c) \<and>
    c_state c = c_state (f (case map_of (cs_calls st) k of Some c \<Rightarrow> c | None \<Rightarrow> new_call cid now)) \<and>
    c_number c = c_number (f (case map_of (cs_calls st) k of Some c \<Rightarrow> c | None \<Rightarrow> new_call cid now))"
  using assms by (auto simp: touch_call_def Let_def call_put_map split: if_splits)

lemma release_calls_map:
  assumes "calls_inv st" and "set ks \<subseteq> dom (map_of (cs_calls st))" and "\<forall>k \<in> set ks. hash_key k = Some k"
    and "release_calls now ks st = (st', cs)"
  shows "(k \<in> set ks \<longrightarrow> (\<exists>c. map_of (cs_calls st') k = Some c \<and> c_state c = jstr ''released'')) \<and>
    (k \<notin> set ks \<longrightarrow> map_of (cs_calls st') k = map_of (cs_calls st) k)"
  using assms
proof (induction ks arbitrary: st cs)
  case (Cons i ks)
  obtain st1 c where one: "touch_call now i i (\<lambda>c. c\<lparr>c_state := jstr ''released''\<rparr>) st = (st1, c)" by fastforce
  obtain cs1 where rest: "release_calls now ks st1 = (st', cs1)"
    using Cons.prems(4) one by (auto split: prod.splits)
  have ok: "calls_ok (cs_calls st)" using Cons.prems(1) by (simp add: calls_inv_def)
  have m: "map_of (cs_calls st1) = (map_of (cs_calls st))(i \<mapsto> c)" "c_state c = jstr ''released''"
    using touch_call_map [OF ok _ one] Cons.prems(2) by auto
  have inv1: "calls_inv st1" by (rule touch_call_keeps [OF Cons.prems(1) _ _ one]) (use Cons.prems(3) in auto)
  have sub: "set ks \<subseteq> dom (map_of (cs_calls st1))" using Cons.prems(2) by (auto simp: m(1))
  have hk: "\<forall>k \<in> set ks. hash_key k = Some k" using Cons.prems(3) by simp
  from Cons.IH [OF inv1 sub hk rest] show ?case by (auto simp: m)
qed simp

lemma list_calls_map:
  assumes "calls_inv st" and "\<forall>(k, j) \<in> set ls. hash_key (jget j ''id'') = Some k" and "dict_ok ls"
    and "card (dom (map_of (cs_calls st)) \<union> fst ` set ls) \<le> 50" and "list_calls now ls st = (st', cs)"
  shows "(k \<notin> fst ` set ls \<longrightarrow> map_of (cs_calls st') k = map_of (cs_calls st) k) \<and>
    (\<forall>j. (k, j) \<in> set ls \<longrightarrow> (\<exists>c. map_of (cs_calls st') k = Some c \<and>
       c_state c = jget_or j ''state'' (old_state (map_of (cs_calls st) k)) \<and>
       (truthy (jget j ''number'') \<longrightarrow> c_number c = jget j ''number'')))"
  using assms
proof (induction ls arbitrary: st cs)
  case (Cons ij ls)
  obtain i j where ij: "ij = (i, j)" by fastforce
  obtain st1 ch where one: "list_call now i j st = (st1, ch)" by fastforce
  obtain c where t: "touch_call now i (jget j ''id'') (list_update_call (map_of (cs_calls st) i) j) st = (st1, c)"
    using one by (auto simp: list_call_def Let_def split: prod.splits)
  obtain cs1 where rest: "list_calls now ls st1 = (st', cs1)"
    using Cons.prems(5) one by (auto simp: ij split: prod.splits)
  have ok: "calls_ok (cs_calls st)" using Cons.prems(1) by (simp add: calls_inv_def)
  have room: "length (cs_calls st) < 50 \<or> map_of (cs_calls st) i \<noteq> None"
  proof (rule ccontr)
    assume n: "\<not> ?thesis"
    have "card (insert i (dom (map_of (cs_calls st)))) \<le> 50"
      using Cons.prems(4) card_mono [of "dom (map_of (cs_calls st)) \<union> fst ` set (ij # ls)" "insert i (dom (map_of (cs_calls st)))"]
      by (force simp: ij finite_dom_map_of)
    then show False using n call_table.dom_size [OF ok] by (auto simp: domIff)
  qed
  note m = touch_call_map [OF ok room t]
  have inv1: "calls_inv st1"
    by (rule touch_call_keeps [OF Cons.prems(1) _ _ t]) (use Cons.prems(2) in \<open>auto simp: ij list_update_call_def\<close>)
  have "dom (map_of (cs_calls st1)) \<union> fst ` set ls = dom (map_of (cs_calls st)) \<union> fst ` set (ij # ls)"
    using m by (auto simp: ij)
  then have "card (dom (map_of (cs_calls st1)) \<union> fst ` set ls) \<le> 50" using Cons.prems(4) by simp
  note ih = Cons.IH [OF inv1 _ _ this rest]
  have "(i, x) \<notin> set ls" for x using Cons.prems(3) by (force simp: ij dict_ok_def)
  with ih show ?case
    using Cons.prems(2,3) m by (auto simp: ij dict_ok_def list_update_call_def split: if_splits)
qed simp

text \<open>
  After a list of calls from the modem, the table agrees with it: a call that is not listed is
  released, or a dial the modem does not list yet; and, as long as the table has room for all of them,
  every listed call is there with the listed state and number.
\<close>

theorem call_list_sync:
  assumes "calls_inv st" and "listed_calls calls = Inr listed" and "on_call_list now RESP calls st = Inr st'"
    and "card (dom (map_of (cs_calls st)) \<union> fst ` set listed) \<le> 50"
  shows "(\<forall>k c. map_of (cs_calls st') k = Some c \<and> map_of listed k = None \<longrightarrow>
       c_state c \<in> {jstr ''released'', jstr ''dialing''}) \<and>
    (\<forall>k j. map_of listed k = Some j \<longrightarrow> (\<exists>c. map_of (cs_calls st') k = Some c \<and>
       c_state c = jget_or j ''state'' (old_state (map_of (cs_calls st) k)) \<and>
       (truthy (jget j ''number'') \<longrightarrow> c_number c = jget j ''number'')))"
proof -
  obtain st1 ch1 st2 ch2 es where l: "list_calls now listed st = (st1, ch1)"
    and r: "release_calls now (gone_calls listed (cs_calls st1)) st1 = (st2, ch2)" and st': "st' = st2\<lparr>cs_events := es\<rparr>"
    using assms(3,2) by (cases rule: on_call_list_cases) auto
  note keys = listed_calls_keys [OF assms(2)]
  have inv1: "calls_inv st1" using list_calls_inv [OF assms(1)] keys l by (metis fst_conv)
  let ?gone = "gone_calls listed (cs_calls st1)"
  have d1: "distinct (map fst (cs_calls st1))" using inv1 by (simp add: calls_inv_def calls_ok_def dict_ok_def)
  have gone: "k \<in> set ?gone \<longleftrightarrow> (\<exists>c. map_of (cs_calls st1) k = Some c \<and> map_of listed k = None \<and>
      c_state c \<noteq> jstr ''released'' \<and> c_state c \<noteq> jstr ''dialing'')" for k
    using d1 by (force simp: gone_calls_def)
  have "set ?gone \<subseteq> dom (map_of (cs_calls st1))" using gone by blast
  note rel = release_calls_map [OF inv1 this _ r]
  note rel1 = rel [OF ballI [OF gone_keys [OF inv1]]]
  note lst = list_calls_map [OF assms(1) _ _ assms(4) l]
  show ?thesis
  proof (intro conjI allI impI, goal_cases)
    case (1 k c)
    then show ?case using rel1 [where k = k] gone [of k] by (cases "k \<in> set ?gone") (auto simp: st')
  next
    case (2 k j)
    then have "k \<notin> set ?gone" "(k, j) \<in> set listed" using gone by (auto dest: map_of_SomeD)
    then show ?case using rel1 [where k = k] lst [where k = k] keys by (simp add: st')
  qed
qed

section \<open>What the commands send\<close>

lemma length_dial_body: "length n \<le> 86 \<Longrightarrow> length (dial_body n) = 91"
  by (simp add: dial_body_def Let_def)

lemma valid_number_length: "valid_number n \<Longrightarrow> length n \<le> 21"
  by (auto simp: valid_number_def Let_def split: if_splits)

text \<open>
  C27. No call without permission: \<open>dial\<close> sends a body only for a valid, permitted number that is no
  emergency number, while transmission is on, the link is open and the rate limiter grants it; the body
  has the fixed 91 bytes, the digits of exactly this number and zeros behind them.
\<close>

theorem dial_safe:
  assumes "dial_begin lib now number dg st = (dg', st', Inr (n, body))"
  shows "n = normalize_number number \<and> valid_number n \<and> \<not> is_emergency n \<and> gf_tx (dg_fs dg) \<and>
    permitted lib now n (lit ''dial'') (dg_fs dg) \<and> dg_open dg \<and> snd (rl_take (dg_rate dg) now) \<and>
    length body = 91 \<and> unat (body ! 3) = length n \<and> body ! 4 = (if take 1 n = [43] then 0x11 else 0) \<and>
    drop 5 body = map of_nat n @ replicate (86 - length n) 0"
proof -
  obtain fs where g: "gate lib now number (lit ''dial'') (dg_fs dg) = (n, None, fs)" and body: "body = dial_body n"
    and o: "dg_open dg" and r: "snd (rl_take (dg_rate dg) now)"
    using assms by (auto simp: dial_begin_def Let_def split: prod.splits option.splits if_splits)
  note p = gate_passes [OF g]
  have len: "length n \<le> 21" using valid_number_length [OF p(2)] .
  then have "unat (body ! 3) = length n" and "body ! 4 = (if take 1 n = [43] then 0x11 else 0)"
    and "drop 5 body = map of_nat n @ replicate (86 - length n) 0" and "length body = 91"
    by (simp_all add: body dial_body_def Let_def)
  then show ?thesis using p o r by simp
qed

definition demo_dial :: dial_gate where
  "demo_dial = \<lparr>dg_fs = demo_fs, dg_rate = \<lparr>rl_limit = 5, rl_window = 3600, rl_stamps = []\<rparr>, dg_open = True\<rparr>"

lemma dial_safe_witness:
  "\<exists>dg' st' body. dial_begin demo_lib 0 (lit ''+306900000000'') demo_dial calls_init =
      (dg', st', Inr (lit ''+306900000000'', body)) \<and> length body = 91"
proof -
  have "gate demo_lib 0 (lit ''+306900000000'') (lit ''dial'') demo_fs = (lit ''+306900000000'', None, demo_fs)"
    by (simp add: gate_eval demo_fs_def)
  then obtain dg' st' body where
    d: "dial_begin demo_lib 0 (lit ''+306900000000'') demo_dial calls_init = (dg', st', Inr (lit ''+306900000000'', body))"
    by (simp add: dial_begin_def demo_dial_def rl_take_def)
  from dial_safe [OF d] d show ?thesis by blast
qed

text \<open>
  The tones sent are the digits asked for, one by one: \<open>dtmf\<close> sends a body only while a call is
  active and for 1 to 32 valid digits, and the body is their number followed by one tone per digit.
\<close>

theorem dtmf_exact:
  assumes "fst (dtmf ds st) = Some (c, body)"
  shows "c = CALL_BURST_DTMF \<and> (\<exists>x \<in> set (current_calls False st). c_state x = jstr ''active'') \<and>
    length body = 1 + 2 * length ds \<and> unat (body ! 0) = length ds \<and> length ds \<in> {1..32} \<and>
    (\<forall>i < length ds. body ! (1 + 2 * i) = 1 \<and> unat (body ! (2 + 2 * i)) = ds ! i)"
proof -
  have b: "c = CALL_BURST_DTMF" "body = dtmf_body ds" and ds: "list_all dtmf_char ds" "1 \<le> length ds" "length ds \<le> 32"
    and act: "\<exists>x \<in> set (current_calls False st). c_state x = jstr ''active''"
    using assms by (auto simp: dtmf_def list_ex_iff split: if_splits)
  have tones: "length (concat (map (\<lambda>c. [1, of_nat c] :: bytes) xs)) = 2 * length xs \<and>
      (\<forall>i < length xs. concat (map (\<lambda>c. [1, of_nat c]) xs) ! (2 * i) = (1 :: byte) \<and>
         concat (map (\<lambda>c. [1, of_nat c]) xs) ! (1 + 2 * i) = (of_nat (xs ! i) :: byte))" for xs :: pystr
    by (induction xs) (auto simp: nth_Cons' less_Suc_eq_0_disj)
  have "unat (of_nat (ds ! i) :: byte) = ds ! i" if "i < length ds" for i
    using ds(1) that by (fastforce simp: list_all_length dtmf_char_def ascii_digit_def)
  then show ?thesis using b ds act tones [of ds] by (simp add: dtmf_body_def)
qed

definition demo_active :: calls_st where
  "demo_active = calls_init\<lparr>cs_calls := [(JInt 1, (new_call (JInt 1) 0)\<lparr>c_state := jstr ''active'', c_started := Some 0\<rparr>)]\<rparr>"

lemma dtmf_exact_witness:
  "\<exists>c body. fst (dtmf [49, 35] demo_active) = Some (c, body) \<and> length body = 5 \<and> unat (body ! 2) = 49 \<and> unat (body ! 4) = 35"
proof -
  have "fst (dtmf [49, 35] demo_active) = Some (CALL_BURST_DTMF, dtmf_body [49, 35])"
    by (simp add: dtmf_def dtmf_char_def ascii_digit_def current_calls_def demo_active_def calls_init_def lit_def)
  moreover note x = dtmf_exact [OF this]
  from x have "\<forall>i < length [49, 35::nat]. unat (dtmf_body [49, 35] ! (2 + 2 * i)) = [49, 35] ! i" by blast
  from this [rule_format, of 0] this [rule_format, of 1] x
  have "unat (dtmf_body [49, 35] ! 2) = 49 \<and> unat (dtmf_body [49, 35] ! 4) = 35 \<and> length (dtmf_body [49, 35]) = 5"
    by simp
  ultimately show ?thesis by blast
qed

text \<open>One incoming call, listed as active.\<close>

definition demo_noti :: call_noti where
  "demo_noti = \<lparr>cn_id = JInt 1, cn_status = JInt 3, cn_end_cause = JNull\<rparr>"

lemma call_table_invariant_witness:
  "\<exists>c. cs_calls (fold call_step [(OpStatus demo_noti, 5)] calls_init) = [(JInt 1, c)] \<and>
     (c_state c = jstr ''active'' \<and> c_started c \<noteq> None)"
proof -
  have e: "\<exists>c. cs_calls (fold call_step [(OpStatus demo_noti, 5)] calls_init) = [(JInt 1, c)] \<and> c_state c = jstr ''active''"
    by (simp add: call_step_def on_call_status_def demo_noti_def status_state_def hash_key_def eq_int_def calls_init_def
        adopt_pending_def touch_call_def call_put_def call_event_def call_job_def new_call_def Let_def lit_def)
  then show ?thesis using call_table_invariant [of "[(OpStatus demo_noti, 5)]"] by auto
qed

lemma call_list_sync_witness:
  "\<exists>st' c. on_call_list 7 RESP (JArr []) demo_active = Inr st' \<and> map_of (cs_calls st') (JInt 1) = Some c \<and>
     c_state c \<in> {jstr ''released'', jstr ''dialing''}"
proof -
  have inv: "calls_inv demo_active"
    by (simp add: calls_inv_def demo_active_def calls_init_def calls_ok_def dict_ok_def call_good_def new_call_def hash_key_def)
  have l: "listed_calls (JArr []) = Inr []" by (simp add: listed_calls_def iter_json_def)
  obtain st' where s: "on_call_list 7 RESP (JArr []) demo_active = Inr st'" and m: "map_of (cs_calls st') (JInt 1) \<noteq> None"
    by (auto simp: on_call_list_def l demo_active_def calls_init_def gone_calls_def touch_call_def call_put_def new_call_def Let_def lit_def)
  have "card (dom (map_of (cs_calls demo_active)) \<union> fst ` set []) \<le> 50" by (simp add: demo_active_def)
  from call_list_sync [OF inv l s this] s m show ?thesis by auto
qed

end
