(* ===== verification/Phone_Data.thy ===== *)
theory Phone_Data
  imports Phone_Calls
begin

text \<open>
  Mobile data and raw modem commands of \<open>Phone\<close> in \<^verbatim>\<open>phoned/s22-phoned.py\<close>: \<open>ipc_get\<close>,
  \<open>ipc_send\<close>, the data contexts fed by the modem's notifications (\<open>_on_data_noti\<close>) and
  \<open>mobile_data_up\<close>, \<open>mobile_data_down\<close>, \<open>mobile_data_status\<close>. The modem's replies, the outcomes
  of the \<open>ip\<close> commands and the notifications that arrive in the meantime are arguments.
\<close>

section \<open>Conversions\<close>

definition py_int :: "pylib \<Rightarrow> json \<Rightarrow> pyerr + int" where
  "py_int lib v =
     (case v of
        JInt i \<Rightarrow> Inr i
      | JBool b \<Rightarrow> Inr (of_bool b)
      | JFloat q \<Rightarrow> Inr (if q < 0 then - \<lfloor>- q\<rfloor> else \<lfloor>q\<rfloor>)
      | JNaN \<Rightarrow> Inl ValueError
      | JInf _ \<Rightarrow> Inl OverflowError
      | JStr t \<Rightarrow> (case lib_int lib t of Some i \<Rightarrow> Inr i | None \<Rightarrow> Inl ValueError)
      | _ \<Rightarrow> Inl TypeError)"

text \<open>\<open>s.encode("utf-8")\<close>: a lone surrogate raises a \<open>ValueError\<close>.\<close>

definition utf8_char :: "nat \<Rightarrow> bytes" where
  "utf8_char c =
     (if c < 0x80 then [of_nat c]
      else if c < 0x800 then [of_nat (0xC0 + c div 64), of_nat (0x80 + c mod 64)]
      else if c < 0x10000 then [of_nat (0xE0 + c div 4096), of_nat (0x80 + c div 64 mod 64), of_nat (0x80 + c mod 64)]
      else [of_nat (0xF0 + c div 262144), of_nat (0x80 + c div 4096 mod 64), of_nat (0x80 + c div 64 mod 64),
            of_nat (0x80 + c mod 64)])"

definition utf8_encode :: "pystr \<Rightarrow> pyerr + bytes" where
  "utf8_encode s = (if list_all scalar s then Inr (concat (map utf8_char s)) else Inl ValueError)"

text \<open>\<open>bytes.fromhex\<close>: ASCII white space may stand between the pairs of digits.\<close>

definition hex_space :: "nat \<Rightarrow> bool" where
  "hex_space c \<longleftrightarrow> c = 32 \<or> 9 \<le> c \<and> c \<le> 13"

definition hex_nibble :: "nat \<Rightarrow> nat option" where
  "hex_nibble c =
     (if 48 \<le> c \<and> c \<le> 57 then Some (c - 48)
      else if 97 \<le> c \<and> c \<le> 102 then Some (c - 87)
      else if 65 \<le> c \<and> c \<le> 70 then Some (c - 55) else None)"

fun from_hex :: "pystr \<Rightarrow> pyerr + bytes" where
  "from_hex [] = Inr []"
| "from_hex [c] = (if hex_space c then Inr [] else Inl ValueError)"
| "from_hex (c # d # s) =
     (if hex_space c then from_hex (d # s)
      else (case (hex_nibble c, hex_nibble d) of
              (Some a, Some b) \<Rightarrow> try_r (from_hex s) (\<lambda>r. Inr (of_nat (16 * a + b) # r))
            | _ \<Rightarrow> Inl ValueError))"

section \<open>Raw commands\<close>

definition DATA_SET_ALLOWLIST :: "(byte \<times> byte) set" where
  "DATA_SET_ALLOWLIST = {(0x0D, 0x01), (0x0D, 0x03), (0x0D, 0x04), (0x0D, 0x14), (0x0D, 0x1B), (0x0D, 0x1D)}"

definition IPC_GET_ALLOWLIST :: "(byte \<times> byte) set" where
  "IPC_GET_ALLOWLIST = {(0x08, 0x0A), (0x0D, 0x04)}"

definition CFG_JSON_CMD_LIST_BODY :: bytes where
  "CFG_JSON_CMD_LIST_BODY = map of_nat (lit ''{\"jver\":\"1.0\"}'') @ [10]"

definition is_lstrip_brace :: "pystr \<Rightarrow> bool" where
  "is_lstrip_brace s \<longleftrightarrow> take 1 (dropWhile is_space s) = [123]"

text \<open>The checks of \<open>ipc_send\<close> on its arguments: the group, index and type, and the payload.\<close>

definition ipc_payload :: "json \<Rightarrow> pyerr + bytes" where
  "ipc_payload v =
     (case as_str v of
        None \<Rightarrow> Inl ValueError
      | Some t \<Rightarrow>
          try_r
            (if is_lstrip_brace t then
               (case json_loads t of
                  Some j \<Rightarrow> if is_obj j then utf8_encode t else Inl ValueError
                | None \<Rightarrow> Inl ValueError)
             else from_hex t)
            (\<lambda>d. if 4096 < length d then Inl ValueError else Inr d))"

definition ipc_args :: "pylib \<Rightarrow> json \<Rightarrow> json \<Rightarrow> json \<Rightarrow> json \<Rightarrow> pyerr + (byte \<times> byte) \<times> byte \<times> bytes" where
  "ipc_args lib g i t v =
     try_r (py_int lib g) (\<lambda>g. try_r (py_int lib i) (\<lambda>i. try_r (py_int lib t) (\<lambda>t.
       if \<not> (0 \<le> g \<and> g \<le> 255 \<and> 0 \<le> i \<and> i \<le> 255 \<and> 0 \<le> t \<and> t \<le> 255) then Inl ValueError
       else try_r (ipc_payload v) (\<lambda>d. Inr ((of_int g, of_int i), of_int t, d)))))"

definition ipc_allowed :: "byte \<times> byte \<Rightarrow> byte \<Rightarrow> bytes \<Rightarrow> bool" where
  "ipc_allowed c ty d \<longleftrightarrow>
     c \<in> DATA_SET_ALLOWLIST \<and> ty = SETT \<or>
     c = CFG_JSON_CMD_LIST \<and> ty = GET \<and> d = CFG_JSON_CMD_LIST_BODY \<or>
     c \<in> IPC_GET_ALLOWLIST \<and> ty = GET \<and> d = []"

definition is_data_off :: "byte \<times> byte \<Rightarrow> byte \<Rightarrow> bytes \<Rightarrow> bool" where
  "is_data_off c ty d \<longleftrightarrow> c = GPRS_PDP_CONTEXT \<and> ty = SETT \<and> is_pdp_deactivate d"

text \<open>
  \<open>ipc_send\<close> with the experiment lock free, up to the request: a refusal, or the frame to send.
  \<open>prev\<close> is the monotonic time of the last send. An \<open>OverflowError\<close> (infinity as a number) leaves
  the function.
\<close>

definition ipc_send :: "pylib \<Rightarrow> time \<Rightarrow> pystr \<Rightarrow> bool \<Rightarrow> json \<times> json \<times> json \<times> json \<Rightarrow> time option \<Rightarrow>
    time option \<times> (pyerr + reply + (byte \<times> byte) \<times> byte \<times> bytes)" where
  "ipc_send lib now modem lopen args prev =
     (case args of (g, i, t, v) \<Rightarrow>
       (case ipc_args lib g i t v of
          Inl e \<Rightarrow> (prev, if e = ValueError \<or> e = TypeError then Inr (Inl (400, None)) else Inl e)
        | Inr (c, ty, d) \<Rightarrow>
            if \<not> ipc_allowed c ty d
            then (prev, Inr (Inl (403, Some (lit ''not an experimental data command; SMS/call gates cannot be bypassed''))))
            else if \<not> is_data_off c ty d \<and> (case prev of Some l \<Rightarrow> now - l < 30 | None \<Rightarrow> False)
            then (prev, Inr (Inl (429, Some (lit ''wait at least 30s between experiments''))))
            else if modem \<noteq> lit ''ONLINE'' \<and> \<not> is_data_off c ty d
            then (prev, Inr (Inl (409, Some (lit ''modem is not ONLINE''))))
            else if \<not> lopen then (prev, Inr (Inl (503, Some (lit ''IPC link is down''))))
            else (Some now, Inr (Inr (c, ty, d)))))"

text \<open>\<open>ipc_get\<close>: the checks before the request, and the PDP contexts of the reply.\<close>

definition ipc_get :: "pylib \<Rightarrow> pystr \<Rightarrow> bool \<Rightarrow> json \<Rightarrow> json \<Rightarrow> pyerr + reply + byte \<times> byte" where
  "ipc_get lib modem lopen g i =
     try_r (py_int lib g) (\<lambda>g. try_r (py_int lib i) (\<lambda>i.
       if (g, i) \<notin> {(0x08, 0x0A), (0x0D, 0x04)} then Inr (Inl (400, Some (lit ''GET command not allow-listed'')))
       else if modem \<noteq> lit ''ONLINE'' then Inr (Inl (409, Some (lit ''modem is not ONLINE'')))
       else if \<not> lopen then Inr (Inl (503, Some (lit ''IPC link is down'')))
       else Inr (Inr (of_int g, of_int i))))"

fun pdp_contexts :: "nat \<Rightarrow> bytes \<Rightarrow> pyerr + (byte \<times> byte) list" where
  "pdp_contexts 0 d = Inr []"
| "pdp_contexts (Suc n) d =
     (case d of
        [] \<Rightarrow> Inr []
      | [_] \<Rightarrow> Inl IndexError
      | cid # act # r \<Rightarrow> try_r (pdp_contexts n r) (\<lambda>cs. Inr ((cid, act) # cs)))"

definition ipc_get_contexts :: "bytes \<Rightarrow> pyerr + (byte \<times> byte) list" where
  "ipc_get_contexts d = (case d of [] \<Rightarrow> Inr [] | n # r \<Rightarrow> pdp_contexts (unat n) (drop 1 r))"

section \<open>Data contexts\<close>

record pdp_ctx =
  pc_state :: pystr
  pc_apn :: "pystr option"
  pc_ipv4 :: json
  pc_dns :: "json list"
  pc_mtu :: json
  pc_call :: json
  pc_reason :: json
  pc_error :: "pystr option"
  pc_up :: "time option"

definition new_ctx :: "string \<Rightarrow> pdp_ctx" where
  "new_ctx s = \<lparr>pc_state = lit s, pc_apn = None, pc_ipv4 = JNull, pc_dns = [], pc_mtu = JNull, pc_call = JNull,
     pc_reason = JNull, pc_error = None, pc_up = None\<rparr>"

text \<open>\<open>dt_ip\<close> and \<open>dt_sent\<close> record the \<open>ip\<close> commands run and the bodies sent to the modem.\<close>

record data_st =
  dt_ctx :: "(int, pdp_ctx) dict"
  dt_ip :: "pystr list list"
  dt_sent :: "((byte \<times> byte) \<times> bytes) list"
  dt_work :: "job list"

definition ctx_of :: "int \<Rightarrow> data_st \<Rightarrow> pdp_ctx" where
  "ctx_of cid st = (case map_of (dt_ctx st) cid of Some c \<Rightarrow> c | None \<Rightarrow> new_ctx ''down'')"

definition set_ctx :: "int \<Rightarrow> pdp_ctx \<Rightarrow> data_st \<Rightarrow> data_st" where
  "set_ctx cid c st = st\<lparr>dt_ctx := AList.update cid c (dt_ctx st)\<rparr>"

text \<open>\<open>v or d\<close> of a JSON value.\<close>

definition or_else :: "json \<Rightarrow> json \<Rightarrow> json" where
  "or_else v d = (if truthy v then v else d)"

definition ip_config :: "json \<Rightarrow> pdp_ctx \<Rightarrow> pyerr + pdp_ctx" where
  "ip_config j c =
     (let v4 = or_else (jget j ''ipv4_info'') (JObj []) in
      if \<not> is_obj v4 then Inl AttributeError
      else (case iter_json (or_else (jget v4 ''dns'') (JArr [])) of
              None \<Rightarrow> Inl TypeError
            | Some ds \<Rightarrow> Inr (c\<lparr>pc_ipv4 := or_else (jget v4 ''addr'') JNull, pc_dns := ds,
                              pc_mtu := or_else (jget j ''ipv4_mtu'') (JInt 1500)\<rparr>)))"

definition DATA_CALL_RELEASED :: int where "DATA_CALL_RELEASED = 3"

definition on_data_noti :: "byte \<times> byte \<Rightarrow> json \<Rightarrow> data_st \<Rightarrow> data_st \<times> (pyerr + unit)" where
  "on_data_noti cm j st =
     (case (if is_obj j then as_int (jget j ''cid'') else None) of
        None \<Rightarrow> (st, Inr ())
      | Some cid \<Rightarrow>
          (let c = ctx_of cid st; st0 = set_ctx cid c st in
           if cm = GPRS_IP_CONFIGURATION then
             (case ip_config j c of Inl e \<Rightarrow> (st0, Inl e) | Inr c1 \<Rightarrow> (set_ctx cid c1 st0, Inr ()))
           else if cm = GPRS_CALL_STATUS then
             (let c1 = c\<lparr>pc_call := jget j ''data_call_state'', pc_reason := jget j ''data_callstate_rsn''\<rparr> in
              if eq_int (pc_call c1) DATA_CALL_RELEASED \<and> pc_state c1 = lit ''up''
              then ((set_ctx cid (c1\<lparr>pc_state := lit ''released_by_network''\<rparr>) st0)\<lparr>dt_work := dt_work st @ [JNetDown cid]\<rparr>, Inr ())
              else (set_ctx cid c1 st0, Inr ()))
           else (st0, Inr ())))"

definition handle_notis :: "((byte \<times> byte) \<times> json) list \<Rightarrow> data_st \<Rightarrow> data_st" where
  "handle_notis ns st = foldl (\<lambda>st (c, j). fst (on_data_noti c j st)) st ns"

text \<open>\<open>_wait_data\<close>: the predicate is tested before and after every notification, until the time-out.\<close>

fun wait_data :: "(data_st \<Rightarrow> bool) \<Rightarrow> ((byte \<times> byte) \<times> json) list \<Rightarrow> data_st \<Rightarrow> data_st \<times> bool" where
  "wait_data p [] st = (st, p st)"
| "wait_data p (n # ns) st =
     (if p st then (st, True) else wait_data p ns (fst (on_data_noti (fst n) (snd n) st)))"

section \<open>The interface\<close>

text \<open>An outcome per \<open>ip\<close> command: whether it succeeded, and its output.\<close>

type_synonym ip_out = "pystr list \<Rightarrow> bool \<times> pystr"

definition data_ifname :: "int \<Rightarrow> pystr" where
  "data_ifname cid = lit ''rmnet'' @ int_text (cid - 1)"

definition net_up_steps :: "pylib \<Rightarrow> int \<Rightarrow> pdp_ctx \<Rightarrow> pyerr + pystr list list" where
  "net_up_steps lib cid c =
     (let dev = data_ifname cid in
      try_r (py_int lib (or_else (pc_mtu c) (JInt 1500))) (\<lambda>mtu.
        Inr [[lit ''addr'', lit ''flush'', lit ''dev'', dev],
             [lit ''addr'', lit ''add'', py_str (lib_str lib) (pc_ipv4 c) @ lit ''/32'', lit ''dev'', dev],
             [lit ''link'', lit ''set'', dev, lit ''mtu'', int_text mtu, lit ''up''],
             [lit ''route'', lit ''replace'', lit ''default'', lit ''dev'', dev, lit ''metric'', lit ''9000'']]))"

definition net_down_steps :: "int \<Rightarrow> pystr list list" where
  "net_down_steps cid =
     (let dev = data_ifname cid in
      [[lit ''route'', lit ''del'', lit ''default'', lit ''dev'', dev, lit ''metric'', lit ''9000''],
       [lit ''addr'', lit ''flush'', lit ''dev'', dev],
       [lit ''link'', lit ''set'', dev, lit ''down'']])"

fun join_words :: "pystr list \<Rightarrow> pystr" where
  "join_words [] = []"
| "join_words [w] = w"
| "join_words (w # ws) = w @ 32 # join_words ws"

fun run_up :: "ip_out \<Rightarrow> pystr list list \<Rightarrow> data_st \<Rightarrow> data_st \<times> pystr option" where
  "run_up ip [] st = (st, None)"
| "run_up ip (a # as) st =
     (let st1 = st\<lparr>dt_ip := dt_ip st @ [a]\<rparr> in
      if fst (ip a) then run_up ip as st1
      else (st1, Some (lit ''ip '' @ join_words a @ lit '': '' @ snd (ip a))))"

definition net_up :: "pylib \<Rightarrow> ip_out \<Rightarrow> int \<Rightarrow> data_st \<Rightarrow> data_st \<times> (pyerr + pystr option)" where
  "net_up lib ip cid st =
     (case net_up_steps lib cid (ctx_of cid st) of
        Inl e \<Rightarrow> (st, Inl e)
      | Inr as \<Rightarrow> (let (st1, err) = run_up ip as st in (st1, Inr err)))"

definition net_down :: "int \<Rightarrow> data_st \<Rightarrow> data_st" where
  "net_down cid st = st\<lparr>dt_ip := dt_ip st @ net_down_steps cid\<rparr>"

text \<open>\<open>_data_send\<close>: \<open>Inl e\<close> is a \<open>LinkDown\<close> with the text \<open>e\<close>; \<open>Inr err\<close> the result.\<close>

definition data_send :: "byte \<times> byte \<Rightarrow> bytes \<Rightarrow> req_out \<Rightarrow> data_st \<Rightarrow> data_st \<times> (pystr + pystr option)" where
  "data_send cm body out st =
     (st\<lparr>dt_sent := dt_sent st @ [(cm, body)]\<rparr>,
      let nm = (if cm = GPRS_PDP_CONTEXT then lit ''GPRS_PDP_CONTEXT'' else lit ''GPRS_DEFINE_PDP_CONTEXT'') in
      case out of
        Down e \<Rightarrow> Inl e
      | _ \<Rightarrow> Inr (case req_gen out of
                   Some g \<Rightarrow> if g_ok g then None else Some (nm @ lit '' refused, code '' @ hex04 (g_code g))
                 | None \<Rightarrow> Some (nm @ lit '' timed out'')))"

section \<open>Up, down and status\<close>

record data_env =
  de_now :: time
  de_modem :: pystr
  de_open :: bool
  de_define :: req_out
  de_early :: "((byte \<times> byte) \<times> json) list"
  de_activate :: req_out
  de_notis :: "((byte \<times> byte) \<times> json) list"
  de_ip :: ip_out
  de_late :: "((byte \<times> byte) \<times> json) list"
  de_release :: req_out

definition has_address :: "int \<Rightarrow> data_st \<Rightarrow> bool" where
  "has_address cid st \<longleftrightarrow> truthy (pc_ipv4 (ctx_of cid st))"

text \<open>
  The four stages of the bring-up, each run only when the one before gave no error: define the context,
  activate it, wait for the address, configure the interface. The notifications \<open>de_early\<close> arrive
  before the wait, \<open>de_notis\<close> during it and \<open>de_late\<close> while the \<open>ip\<close> commands run. The result
  is the text of the error, if any; \<open>Inl\<close>: an exception other than \<open>LinkDown\<close>.
\<close>

definition link_error :: "pystr \<Rightarrow> pystr option" where
  "link_error e = Some (lit ''IPC link: '' @ e)"

definition up_stages :: "pylib \<Rightarrow> data_env \<Rightarrow> int \<Rightarrow> bytes \<Rightarrow> data_st \<Rightarrow> data_st \<times> (pyerr + pystr option)" where
  "up_stages lib env cid define_body st =
     (case data_send GPRS_DEFINE_PDP_CONTEXT define_body (de_define env) st of
        (st1, Inl e) \<Rightarrow> (st1, Inr (link_error e))
      | (st1, Inr (Some err)) \<Rightarrow> (st1, Inr (Some err))
      | (st1, Inr None) \<Rightarrow>
          (case data_send GPRS_PDP_CONTEXT (pdp_state_body cid True) (de_activate env) (handle_notis (de_early env) st1) of
             (st2, Inl e) \<Rightarrow> (st2, Inr (link_error e))
           | (st2, Inr (Some err)) \<Rightarrow> (st2, Inr (Some err))
           | (st2, Inr None) \<Rightarrow>
               (case wait_data (has_address cid) (de_notis env) st2 of
                  (st3, False) \<Rightarrow> (st3, Inr (Some (lit ''no IP configuration from the modem'')))
                | (st3, True) \<Rightarrow>
                    (let (st4, r) = net_up lib (de_ip env) cid st3 in (handle_notis (de_late env) st4, r)))))"

definition data_args :: "pylib \<Rightarrow> json \<Rightarrow> pyerr + int" where
  "data_args lib cidj =
     try_r (py_int lib cidj) (\<lambda>cid. if 1 \<le> cid \<and> cid \<le> 8 then Inr cid else Inl ValueError)"

definition bad_args :: "pyerr \<Rightarrow> pyerr + reply" where
  "bad_args e = (if e = ValueError \<or> e = TypeError then Inr (400, None) else Inl e)"

definition mobile_data_up :: "pylib \<Rightarrow> data_env \<Rightarrow> pystr \<Rightarrow> json \<Rightarrow> data_st \<Rightarrow> data_st \<times> (pyerr + reply)" where
  "mobile_data_up lib env apn cidj st =
     (let apn1 = (if apn = [] then DEFAULT_APN else apn) in
      case try_r (data_args lib cidj) (\<lambda>cid. try_r (define_pdp_body cid apn1) (\<lambda>d. Inr (cid, d))) of
        Inl e \<Rightarrow> (st, bad_args e)
      | Inr (cid, define_body) \<Rightarrow>
          if pc_state (ctx_of cid st) = lit ''up'' then (st, Inr (200, None))
          else if de_modem env \<noteq> lit ''ONLINE'' then (st, Inr (409, Some (lit ''modem is not ONLINE'')))
          else if \<not> de_open env then (st, Inr (503, Some (lit ''IPC link is down'')))
          else
            (case up_stages lib env cid define_body
                    (set_ctx cid ((new_ctx ''activating'')\<lparr>pc_apn := Some apn1\<rparr>) st) of
               (st1, Inl e) \<Rightarrow> (st1, Inl e)
             | (st1, Inr (Some err)) \<Rightarrow>
                 (let (st2, _) = data_send GPRS_PDP_CONTEXT (pdp_state_body cid False) (de_release env) (net_down cid st1)
                  in (set_ctx cid ((ctx_of cid st2)\<lparr>pc_state := lit ''down'', pc_error := Some err\<rparr>) st2,
                      Inr (502, Some err)))
             | (st1, Inr None) \<Rightarrow>
                 (set_ctx cid ((ctx_of cid st1)\<lparr>pc_state := lit ''up'', pc_up := Some (de_now env), pc_error := None\<rparr>) st1,
                  Inr (200, None))))"

text \<open>The interface goes down first, whatever the state of the link.\<close>

definition mobile_data_down :: "pylib \<Rightarrow> data_env \<Rightarrow> json \<Rightarrow> data_st \<Rightarrow> data_st \<times> (pyerr + reply)" where
  "mobile_data_down lib env cidj st =
     (case data_args lib cidj of
        Inl e \<Rightarrow> (st, bad_args e)
      | Inr cid \<Rightarrow>
          (let st1 = net_down cid st in
           if \<not> de_open env then (st1, Inr (503, Some (lit ''IPC link is down'')))
           else
             (let (st2, r) = data_send GPRS_PDP_CONTEXT (pdp_state_body cid False) (de_release env) st1;
                  err = (case r of Inl e \<Rightarrow> link_error e | Inr err \<Rightarrow> err);
                  st3 = (if err = None
                         then fst (wait_data (\<lambda>s. eq_int (pc_call (ctx_of cid s)) DATA_CALL_RELEASED) (de_notis env) st2)
                         else st2)
              in (set_ctx cid ((ctx_of cid st3)\<lparr>pc_state := lit ''down'', pc_ipv4 := JNull, pc_dns := [], pc_error := err\<rparr>) st3,
                  Inr (if err = None then 200 else 502, err)))))"

text \<open>\<open>mobile_data_status\<close>: the fields of the reply that come from the data context.\<close>

record data_status =
  ds_state :: pystr
  ds_apn :: "pystr option"
  ds_interface :: pystr
  ds_ipv4 :: json
  ds_dns :: "json list"
  ds_mtu :: json
  ds_call :: json
  ds_error :: "pystr option"
  ds_since :: "time option"

definition mobile_data_status :: "int \<Rightarrow> data_st \<Rightarrow> data_status" where
  "mobile_data_status cid st =
     (let c = ctx_of cid st in
      \<lparr>ds_state = pc_state c, ds_apn = pc_apn c, ds_interface = data_ifname cid, ds_ipv4 = pc_ipv4 c,
       ds_dns = pc_dns c, ds_mtu = pc_mtu c, ds_call = pc_call c, ds_error = pc_error c, ds_since = pc_up c\<rparr>)"

section \<open>Raw commands cannot reach calls or messages\<close>

text \<open>A session of \<open>ipc_send\<close> calls: the times and frames of those that were sent.\<close>

fun ipc_session :: "pylib \<Rightarrow> (time \<times> pystr \<times> bool \<times> json \<times> json \<times> json \<times> json) list \<Rightarrow> time option \<Rightarrow>
    (time \<times> (byte \<times> byte) \<times> byte \<times> bytes) list" where
  "ipc_session lib [] prev = []"
| "ipc_session lib ((now, modem, lopen, args) # rs) prev =
     (case ipc_send lib now modem lopen args prev of
        (prev1, Inr (Inr fr)) \<Rightarrow> (now, fr) # ipc_session lib rs prev1
      | (prev1, _) \<Rightarrow> ipc_session lib rs prev1)"

definition off_frame :: "time \<times> (byte \<times> byte) \<times> byte \<times> bytes \<Rightarrow> bool" where
  "off_frame x = (case x of (_, c, ty, d) \<Rightarrow> is_data_off c ty d)"

lemma ipc_send_sent:
  assumes "ipc_send lib now modem lopen args prev = (prev', Inr (Inr (c, ty, d)))"
  shows "ipc_allowed c ty d \<and> lopen \<and> prev' = Some now \<and>
    (is_data_off c ty d \<or> modem = lit ''ONLINE'' \<and> (\<forall>l. prev = Some l \<longrightarrow> l + 30 \<le> now))"
  using assms
  by (auto simp: ipc_send_def algebra_simps not_less split: prod.splits sum.splits if_splits option.splits)

lemma ipc_send_refused:
  assumes "ipc_send lib now modem lopen args prev = (prev', r)" and "\<forall>x. r \<noteq> Inr (Inr x)"
  shows "prev' = prev"
  using assms by (auto simp: ipc_send_def split: prod.splits sum.splits if_splits)

definition spaced :: "(time \<times> (byte \<times> byte) \<times> byte \<times> bytes) list \<Rightarrow> bool" where
  "spaced out \<longleftrightarrow> sorted_wrt (\<lambda>x y. fst x \<le> fst y \<and> (off_frame y \<or> fst x + 30 \<le> fst y)) out"

lemma ipc_session_facts:
  assumes "sorted (map fst rs)" and "\<forall>r \<in> set rs. \<forall>l. prev = Some l \<longrightarrow> l \<le> fst r"
  shows "(\<forall>(t, c, ty, d) \<in> set (ipc_session lib rs prev). ipc_allowed c ty d) \<and> spaced (ipc_session lib rs prev) \<and>
    (\<forall>x \<in> set (ipc_session lib rs prev). \<forall>l. prev = Some l \<longrightarrow> l \<le> fst x \<and> (off_frame x \<or> l + 30 \<le> fst x))"
  using assms
proof (induction rs arbitrary: prev)
  case Nil
  then show ?case by (simp add: spaced_def)
next
  case (Cons r rs)
  obtain now modem lopen args where r: "r = (now, modem, lopen, args)" by (metis prod_cases4)
  obtain prev1 res where s: "ipc_send lib now modem lopen args prev = (prev1, res)" by fastforce
  have srt: "sorted (map fst rs)" and later: "\<forall>x \<in> set rs. now \<le> fst x" and le: "\<forall>l. prev = Some l \<longrightarrow> l \<le> now"
    using Cons.prems by (auto simp: r)
  show ?case
  proof (cases "\<exists>x. res = Inr (Inr x)")
    case True
    then obtain c ty d where res: "res = Inr (Inr (c, ty, d))" by (metis prod_cases3)
    note f = ipc_send_sent [OF s [unfolded res]]
    have "\<forall>r \<in> set rs. \<forall>l. prev1 = Some l \<longrightarrow> l \<le> fst r" using later f by auto
    from Cons.IH [OF srt this] have ih:
      "\<forall>(t, c, ty, d) \<in> set (ipc_session lib rs prev1). ipc_allowed c ty d" "spaced (ipc_session lib rs prev1)"
      "\<forall>x \<in> set (ipc_session lib rs prev1). now \<le> fst x \<and> (off_frame x \<or> now + 30 \<le> fst x)"
      using f by auto
    have out: "ipc_session lib (r # rs) prev = (now, c, ty, d) # ipc_session lib rs prev1"
      by (simp add: r s res)
    have "spaced (ipc_session lib (r # rs) prev)" using ih(2,3) by (simp add: spaced_def out)
    moreover have "off_frame x \<or> l + 30 \<le> fst x" if "x \<in> set (ipc_session lib rs prev1)" "prev = Some l" for x l
      using ih(3) that le by force
    moreover have "off_frame (now, c, ty, d) \<or> l + 30 \<le> now" if "prev = Some l" for l
      using f that by (auto simp: off_frame_def)
    moreover have "l \<le> fst x" if "x \<in> set (ipc_session lib rs prev1)" "prev = Some l" for x l
      using ih(3) that le by force
    ultimately show ?thesis using ih(1) f le unfolding out by (intro conjI) auto
  next
    case False
    then have "prev1 = prev" using ipc_send_refused [OF s] by blast
    then have eq: "ipc_session lib (r # rs) prev = ipc_session lib rs prev"
      using False s by (auto simp: r split: sum.splits)
    have "\<forall>x \<in> set rs. \<forall>l. prev = Some l \<longrightarrow> l \<le> fst x" using Cons.prems(2) by simp
    then show ?thesis unfolding eq by (rule Cons.IH [OF srt])
  qed
qed

text \<open>
  C29. The raw command interface cannot reach calls or messages: whatever is asked of \<open>ipc_send\<close>,
  each frame it sends is on the allowlist, so it is none of the call, message or SIM commands, and two frames
  are at least 30 s apart unless the later one switches data off.
\<close>

theorem ipc_send_confined:
  assumes "sorted (map fst rs)" and out: "out = ipc_session lib rs None"
  shows "(\<forall>(t, c, ty, d) \<in> set out. ipc_allowed c ty d \<and> fst c \<in> {0x08, 0x0D, 0x0F}) \<and>
    (\<forall>i j. i < j \<and> j < length out \<longrightarrow> off_frame (out ! j) \<or> fst (out ! i) + 30 \<le> fst (out ! j))"
proof -
  note f = ipc_session_facts [OF assms(1), of None lib]
  have "ipc_allowed c ty d \<Longrightarrow> fst c \<in> {0x08, 0x0D, 0x0F}" for c ty d
    by (auto simp: ipc_allowed_def DATA_SET_ALLOWLIST_def IPC_GET_ALLOWLIST_def CFG_JSON_CMD_LIST_def)
  then show ?thesis using f by (fastforce simp: out spaced_def sorted_wrt_iff_nth_less)
qed

lemma utf8_encode_ascii:
  assumes "list_all (\<lambda>b. b < 0x80) d"
  shows "utf8_encode (map unat d) = Inr d"
proof -
  have *: "unat b < 128" if "b \<in> set d" for b using that assms by (auto simp: list_all_iff word_less_nat_alt)
  then have "concat (map utf8_char (map unat d)) = d"
    by (induction d) (simp_all add: utf8_char_def)
  then show ?thesis using * by (fastforce simp: utf8_encode_def list_all_iff scalar_def is_high_def is_low_def)
qed

lemma off_payload:
  assumes "1 \<le> cid" and "cid \<le> 8"
  shows "ipc_payload (JStr (map unat (pdp_state_body cid False))) = Inr (pdp_state_body cid False)"
proof -
  have d: "dec_digits (nat cid) = [48 + nat cid]" using assms by (subst dec_digits.simps) (simp add: nat_less_iff)
  have len: "length (pdp_state_body cid False) \<le> 4096" and brace: "take 1 (map unat (pdp_state_body cid False)) = [123]"
    using assms
    by (simp_all add: pdp_state_body_def stock_json_def json_str_def esc_char_def int_text_def d dec_digits.simps [of 0] lit_def)
  have "is_lstrip_brace (map unat (pdp_state_body cid False))"
    using brace by (cases "map unat (pdp_state_body cid False)") (simp_all add: is_lstrip_brace_def is_space_def)
  moreover have "utf8_encode (map unat (pdp_state_body cid False)) = Inr (pdp_state_body cid False)"
    unfolding pdp_state_body_def by (rule utf8_encode_ascii [OF stock_json_ascii])
  ultimately show ?thesis using len by (simp add: ipc_payload_def as_str_def state_body_reads is_obj_def)
qed

text \<open>
  Switching data off is always possible: with the link open, the deactivation of a data context goes
  out at any time, however recently something was sent and whatever state the modem reports.
\<close>

theorem data_off_always:
  assumes "1 \<le> cid" and "cid \<le> 8"
  shows "ipc_send lib now modem True (JInt 0x0D, JInt 0x04, JInt 3, JStr (map unat (pdp_state_body cid False))) prev =
    (Some now, Inr (Inr (GPRS_PDP_CONTEXT, SETT, pdp_state_body cid False)))"
  using deactivate_body [of cid False]
  by (simp add: ipc_send_def ipc_args_def py_int_def off_payload [OF assms] ipc_allowed_def DATA_SET_ALLOWLIST_def
      GPRS_PDP_CONTEXT_def SETT_def is_data_off_def)

lemma data_off_always_witness:
  "ipc_send demo_lib 1 (lit ''OFFLINE'') True (JInt 0x0D, JInt 0x04, JInt 3, JStr (map unat (pdp_state_body 1 False))) (Some 0) =
     (Some 1, Inr (Inr (GPRS_PDP_CONTEXT, SETT, pdp_state_body 1 False)))"
  by (rule data_off_always) simp_all

lemma ipc_send_confined_witness:
  "\<exists>x. ipc_session demo_lib [(0, lit ''ONLINE'', True, JInt 8, JInt 10, JInt 2, JStr []), (1, lit ''ONLINE'', True, JInt 8, JInt 10, JInt 2, JStr [])] None = [x] \<and>
     fst (fst (snd x)) \<in> {0x08, 0x0D, 0x0F}"
proof -
  let ?rs = "[(0, lit ''ONLINE'', True, JInt 8, JInt 10, JInt 2, JStr []), (1, lit ''ONLINE'', True, JInt 8, JInt 10, JInt 2, JStr [])] ::
      (time \<times> pystr \<times> bool \<times> json \<times> json \<times> json \<times> json) list"
  have "ipc_session demo_lib ?rs None = [(0, (8, 10), GET, [])]"
    by (simp add: ipc_send_def ipc_args_def py_int_def ipc_payload_def as_str_def is_lstrip_brace_def ipc_allowed_def
        IPC_GET_ALLOWLIST_def DATA_SET_ALLOWLIST_def GET_def SETT_def is_data_off_def GPRS_PDP_CONTEXT_def)
  with ipc_send_confined [OF _ refl, of ?rs demo_lib] show ?thesis by simp
qed

section \<open>Bringing the connection up\<close>

lemma set_ctx_simps [simp]:
  "dt_ip (set_ctx cid c st) = dt_ip st" "dt_sent (set_ctx cid c st) = dt_sent st"
  "ctx_of cid (set_ctx cid c st) = c"
  by (simp_all add: set_ctx_def ctx_of_def)

lemma on_data_noti_log [simp]:
  "dt_ip (fst (on_data_noti c j st)) = dt_ip st" "dt_sent (fst (on_data_noti c j st)) = dt_sent st"
  by (simp_all add: on_data_noti_def Let_def split: option.splits sum.splits)

lemma handle_notis_log [simp]:
  "dt_ip (handle_notis ns st) = dt_ip st" "dt_sent (handle_notis ns st) = dt_sent st"
  unfolding handle_notis_def by (induction ns arbitrary: st) (simp_all split: prod.splits)

lemma wait_data_log: "dt_ip (fst (wait_data p ns st)) = dt_ip st \<and> dt_sent (fst (wait_data p ns st)) = dt_sent st"
  by (induction ns arbitrary: st) simp_all

lemma wait_data_true: "wait_data p ns st = (st', True) \<Longrightarrow> p st'"
  by (induction ns arbitrary: st) (auto split: if_splits)

lemma run_up_log:
  "run_up ip as st = (st', err) \<Longrightarrow> dt_sent st' = dt_sent st \<and> (\<exists>n. dt_ip st' = dt_ip st @ take n as) \<and>
   (err = None \<longrightarrow> dt_ip st' = dt_ip st @ as \<and> (\<forall>a \<in> set as. fst (ip a)))"
proof (induction as arbitrary: st)
  case (Cons a as)
  show ?case
  proof (cases "fst (ip a)")
    case True
    then have "run_up ip as (st\<lparr>dt_ip := dt_ip st @ [a]\<rparr>) = (st', err)" using Cons.prems by simp
    from Cons.IH [OF this] show ?thesis using True by (auto intro: exI [of _ "Suc n" for n])
  next
    case False
    then show ?thesis using Cons.prems by (auto intro: exI [of _ 1])
  qed
qed auto

lemma data_send_log: "fst (data_send c b out st) = st\<lparr>dt_sent := dt_sent st @ [(c, b)]\<rparr>"
  by (simp add: data_send_def)

text \<open>The stages only add to the logs; without an error they ran to the end.\<close>

lemma up_stages_log:
  assumes "up_stages lib env cid d st = (st', Inr err)"
  shows "(\<exists>ips bodies. dt_ip st' = dt_ip st @ ips \<and> dt_sent st' = dt_sent st @ bodies) \<and>
    (err = None \<longrightarrow> dt_sent st' = dt_sent st @ [(GPRS_DEFINE_PDP_CONTEXT, d), (GPRS_PDP_CONTEXT, pdp_state_body cid True)] \<and>
       (\<exists>c steps. truthy (pc_ipv4 c) \<and> net_up_steps lib cid c = Inr steps \<and> dt_ip st' = dt_ip st @ steps \<and>
          (\<forall>a \<in> set steps. fst (de_ip env a))))"
proof -
  obtain r1 where s1: "data_send GPRS_DEFINE_PDP_CONTEXT d (de_define env) st =
      (st\<lparr>dt_sent := dt_sent st @ [(GPRS_DEFINE_PDP_CONTEXT, d)]\<rparr>, r1)" (is "_ = (?s1, _)")
    using data_send_log by (metis prod.collapse)
  show ?thesis
  proof (cases "r1 = Inr None")
    case False
    then have "st' = ?s1" "err \<noteq> None"
      using assms s1 by (auto simp: up_stages_def link_error_def split: sum.splits option.splits)
    then show ?thesis by auto
  next
    case True
    let ?s1' = "handle_notis (de_early env) ?s1"
    obtain r2 where s2: "data_send GPRS_PDP_CONTEXT (pdp_state_body cid True) (de_activate env) ?s1' =
        (?s1'\<lparr>dt_sent := dt_sent ?s1' @ [(GPRS_PDP_CONTEXT, pdp_state_body cid True)]\<rparr>, r2)" (is "_ = (?s2, _)")
      using data_send_log by (metis prod.collapse)
    show ?thesis
    proof (cases "r2 = Inr None")
      case False
      then have "st' = ?s2" "err \<noteq> None"
        using assms s1 True s2 by (auto simp: up_stages_def link_error_def split: sum.splits option.splits)
      then show ?thesis by auto
    next
      case True
      obtain s3 got where s3: "wait_data (has_address cid) (de_notis env) ?s2 = (s3, got)" by fastforce
      have log3: "dt_ip s3 = dt_ip st" "dt_sent s3 = dt_sent st @ [(GPRS_DEFINE_PDP_CONTEXT, d), (GPRS_PDP_CONTEXT, pdp_state_body cid True)]"
        using wait_data_log [of "has_address cid" "de_notis env" ?s2] s3 by simp_all
      show ?thesis
      proof (cases got)
        case False
        then have "st' = s3" "err \<noteq> None" using assms s1 \<open>r1 = Inr None\<close> s2 True s3 by (auto simp: up_stages_def)
        then show ?thesis using log3 by auto
      next
        case got: True
        then have addr: "truthy (pc_ipv4 (ctx_of cid s3))"
          using wait_data_true [OF s3 [unfolded eqTrueI [OF got]]] by (simp add: has_address_def)
        have "(let (st4, r) = net_up lib (de_ip env) cid s3 in (handle_notis (de_late env) st4, r)) = (st', Inr err)"
          using assms s1 \<open>r1 = Inr None\<close> s2 True s3 got by (simp add: up_stages_def)
        then obtain steps s4 where st: "net_up_steps lib cid (ctx_of cid s3) = Inr steps" "run_up (de_ip env) steps s3 = (s4, err)"
            "st' = handle_notis (de_late env) s4"
          by (auto simp: net_up_def split: sum.splits prod.splits)
        from run_up_log [OF st(2)] show ?thesis using st(1) addr log3 by (auto simp: st(3))
      qed
    qed
  qed
qed



definition demo_data_env :: data_env where
  "demo_data_env = \<lparr>de_now = 0, de_modem = lit ''ONLINE'', de_open = True, de_define = NoReply, de_early = [],
     de_activate = NoReply, de_notis = [], de_ip = (\<lambda>_. (True, [])), de_late = [], de_release = NoReply\<rparr>"

definition demo_data :: data_st where
  "demo_data = \<lparr>dt_ctx = [], dt_ip = [], dt_sent = [], dt_work = []\<rparr>"


text \<open>
  A tear-down while the link is closed takes the interface down but leaves the context \<open>up\<close>: from then
  on, bringing the connection up answers 200 and does nothing, although the interface is gone.
\<close>

lemma down_link_closed_sticks:
  assumes "data_args lib cidj = Inr cid" and "pc_state (ctx_of cid st) = lit ''up''" and "\<not> de_open env"
    and "define_pdp_body cid (if apn = [] then DEFAULT_APN else apn) = Inr d"
  shows "\<exists>st'. mobile_data_down lib env cidj st = (st', Inr (503, Some (lit ''IPC link is down''))) \<and>
    dt_ip st' = dt_ip st @ net_down_steps cid \<and> pc_state (ctx_of cid st') = lit ''up'' \<and>
    mobile_data_up lib env2 apn cidj st' = (st', Inr (200, None))"
proof -
  have "ctx_of cid (net_down cid st) = ctx_of cid st" by (simp add: ctx_of_def net_down_def)
  then show ?thesis
    using assms by (intro exI [of _ "net_down cid st"])
      (simp add: mobile_data_down_def mobile_data_up_def Let_def net_down_def split del: if_split)
qed

text \<open>
  A release by the network while the interface is being configured is not noticed: the context is not
  \<open>up\<close> yet, so nothing is torn down, and then it is set to \<open>up\<close> with a released call.
\<close>

lemma release_during_setup_lost:
  assumes "up_stages lib env cid d st = (st1, Inr None)" and "de_late env = []" and "pc_state (ctx_of cid st1) \<noteq> lit ''up''"
  shows "\<exists>st2. up_stages lib (env\<lparr>de_late := [(GPRS_CALL_STATUS, JObj [(lit ''cid'', JInt cid), (lit ''data_call_state'', JInt 3)])]\<rparr>) cid d st =
      (st2, Inr None) \<and> dt_work st2 = dt_work st1 \<and> pc_call (ctx_of cid st2) = JInt 3"
proof -
  let ?n = "JObj [(lit ''cid'', JInt cid), (lit ''data_call_state'', JInt 3)]"
  let ?st2 = "fst (on_data_noti GPRS_CALL_STATUS ?n st1)"
  have "up_stages lib (env\<lparr>de_late := [(GPRS_CALL_STATUS, ?n)]\<rparr>) cid d st = (?st2, Inr None)"
    using assms(1,2) by (auto simp: up_stages_def handle_notis_def link_error_def split: prod.splits sum.splits option.splits bool.splits)
  moreover have "dt_work ?st2 = dt_work st1 \<and> pc_call (ctx_of cid ?st2) = JInt 3"
    using assms(3)
    by (simp add: on_data_noti_def is_obj_def jget_def jget_or_def jfields_def as_int_def lit_def GPRS_CALL_STATUS_def
        GPRS_IP_CONFIGURATION_def Let_def) (simp add: set_ctx_def)
  ultimately show ?thesis by blast
qed

end
