(* ===== verification/Phone_Http.thy ===== *)
theory Phone_Http
  imports Phone_Data
begin

text \<open>
  The HTTP interface of \<^verbatim>\<open>phoned/s22-phoned.py\<close> (\<open>Handler\<close>): reading the body, the routes,
  the listing of messages and the status codes of failures. Request parsing by the standard library is
  an argument: the method, the path, the query as a dictionary and the \<open>Content-Length\<close> header.
\<close>

section \<open>The request\<close>

record http_req =
  hq_post :: bool
  hq_path :: pystr
  hq_query :: "(pystr, pystr) dict"
  hq_length :: "pystr option"
  hq_stream :: bytes

text \<open>
  \<open>_body\<close>. A negative length passes the test for the size, and \<open>rfile.read(n)\<close> then reads to the
  end of the stream. A text that is no JSON and a value that is no object both raise \<open>ValueError\<close>.
\<close>

definition json_of_bytes :: "bytes \<Rightarrow> json option" where
  "json_of_bytes d = Option.bind (utf8_strict d) json_loads"

definition read_body :: "pylib \<Rightarrow> http_req \<Rightarrow> pyerr + json" where
  "read_body lib rq =
     try_r (case hq_length rq of
              None \<Rightarrow> Inr 0
            | Some h \<Rightarrow> if h = [] then Inr 0
                       else (case lib_int lib h of Some n \<Rightarrow> Inr n | None \<Rightarrow> Inl ValueError)) (\<lambda>n.
       if 65536 < n then Inl ValueError
       else (let raw = (if n = 0 then [] else if n < 0 then hq_stream rq else take (nat n) (hq_stream rq)) in
             if list_all (\<lambda>b. is_space (unat b)) raw then Inr (JObj [])
             else (case json_of_bytes raw of
                     Some j \<Rightarrow> if is_obj j then Inr j else Inl ValueError
                   | None \<Rightarrow> Inl ValueError)))"

text \<open>\<open>max(1, min(int(q.get("limit", 50)), 1000))\<close>\<close>

definition query_limit :: "pylib \<Rightarrow> http_req \<Rightarrow> pyerr + nat" where
  "query_limit lib rq =
     (case map_of (hq_query rq) (lit ''limit'') of
        None \<Rightarrow> Inr 50
      | Some t \<Rightarrow> (case lib_int lib t of Some n \<Rightarrow> Inr (nat (max 1 (min n 1000))) | None \<Rightarrow> Inl ValueError))"

section \<open>Routes\<close>

datatype route = RStatus | RIpcSend | RDataStatus | RDataUp | RDataDown | RIpcGet | RCalls | RInbox | ROutbox
  | REvents | RPin | RSend | RDial | RAnswer | RHangup | RDtmf

definition GET_ROUTES :: "(string \<times> route) list" where
  "GET_ROUTES = [(''/status'', RStatus), (''/data/status'', RDataStatus), (''/calls'', RCalls), (''/sms/inbox'', RInbox),
     (''/sms/outbox'', ROutbox), (''/events'', REvents)]"

definition POST_ROUTES :: "(string \<times> route) list" where
  "POST_ROUTES = [(''/ipc/send'', RIpcSend), (''/data/up'', RDataUp), (''/data/down'', RDataDown), (''/ipc/get'', RIpcGet),
     (''/sim/pin'', RPin), (''/sms/send'', RSend), (''/call/dial'', RDial), (''/call/answer'', RAnswer),
     (''/call/hangup'', RHangup), (''/call/dtmf'', RDtmf)]"

text \<open>\<open>u.path.rstrip("/") or "/"\<close>\<close>

definition clean_path :: "pystr \<Rightarrow> pystr" where
  "clean_path p = (let s = rev (dropWhile (\<lambda>c. c = 47) (rev p)) in if s = [] then [47] else s)"

definition find_route :: "bool \<Rightarrow> pystr \<Rightarrow> route option" where
  "find_route post path =
     map_option snd (find (\<lambda>(p, r). lit p = clean_path path) (if post then POST_ROUTES else GET_ROUTES))"

text \<open>Routes that make the modem transmit or change the phone's state.\<close>

definition changes_phone :: "route \<Rightarrow> bool" where
  "changes_phone r \<longleftrightarrow> r \<in> {RIpcSend, RDataUp, RDataDown, RIpcGet, RPin, RSend, RDial, RAnswer, RHangup, RDtmf}"

text \<open>
  What a request comes to: a route with its body and limit, 404, or the code of an exception. The body and
  the limit are read before the route is looked at.
\<close>

definition error_code :: "pyerr \<Rightarrow> nat" where
  "error_code e = (if e = ValueError \<or> e = TypeError then 400 else 500)"

definition dispatch :: "pylib \<Rightarrow> http_req \<Rightarrow> nat + route \<times> json \<times> nat" where
  "dispatch lib rq =
     (case try_r (if hq_post rq then read_body lib rq else Inr (JObj [])) (\<lambda>b.
             try_r (query_limit lib rq) (\<lambda>n. Inr (b, n))) of
        Inl e \<Rightarrow> Inl (error_code e)
      | Inr (b, n) \<Rightarrow> (case find_route (hq_post rq) (hq_path rq) of Some r \<Rightarrow> Inr (r, b, n) | None \<Rightarrow> Inl 404))"

definition pin_code :: "pin_result \<Rightarrow> nat" where
  "pin_code r =
     (if pr_ok r then 200
      else if contains (lit ''digits'') (case pr_error r of Some e \<Rightarrow> e | None \<Rightarrow> []) then 400 else 409)"

section \<open>Listings\<close>

text \<open>\<open>msgs[-limit:]\<close>\<close>

definition newest :: "nat \<Rightarrow> 'a list \<Rightarrow> 'a list" where
  "newest n ms = drop (length ms - n) ms"

definition after_id :: "pystr \<Rightarrow> in_rec list \<Rightarrow> in_rec list" where
  "after_id i ms = drop 1 (dropWhile (\<lambda>m. i_id m \<noteq> i) ms)"

definition float_lt :: "json \<Rightarrow> time \<Rightarrow> bool" where
  "float_lt v t = (case v of JInt i \<Rightarrow> of_int i < t | JFloat q \<Rightarrow> q < t | JBool b \<Rightarrow> of_bool b < t | JInf b \<Rightarrow> \<not> b | _ \<Rightarrow> False)"

text \<open>\<open>GET /sms/inbox\<close>: the time is converted for every message, so an empty inbox never raises.\<close>

definition inbox_list :: "pylib \<Rightarrow> pystr \<Rightarrow> nat \<Rightarrow> in_rec list \<Rightarrow> pyerr + in_rec list" where
  "inbox_list lib since n ms =
     (if since = [] then Inr (newest n ms)
      else if since \<in> set (map i_id ms) then Inr (newest n (after_id since ms))
      else if ms = [] then Inr []
      else (case lib_float lib since of
              None \<Rightarrow> Inl ValueError
            | Some w \<Rightarrow> Inr (newest n (filter (\<lambda>m. float_lt w (i_ts m)) ms))))"

definition outbox_list :: "nat \<Rightarrow> out_rec list \<Rightarrow> out_rec list" where
  "outbox_list n ms = newest n ms"

section \<open>What a request can do\<close>

text \<open>
  A GET request changes nothing: only a POST with a well-formed object as its body, of at most 65536
  octets as announced, reaches a route that transmits or changes the state of the phone.
\<close>

theorem get_is_safe:
  assumes "dispatch lib rq = Inr (r, b, n)" and "changes_phone r"
  shows "hq_post rq \<and> is_obj b \<and> read_body lib rq = Inr b \<and> 1 \<le> n \<and> n \<le> 1000"
proof -
  have post: "hq_post rq"
  proof (rule ccontr)
    assume "\<not> hq_post rq"
    then have "(\<exists>p. (p, r) \<in> set GET_ROUTES)"
      using assms(1) by (auto simp: dispatch_def find_route_def find_Some_iff split: sum.splits option.splits) (metis nth_mem)
    then show False using assms(2) by (auto simp: GET_ROUTES_def changes_phone_def)
  qed
  have b: "read_body lib rq = Inr b" "query_limit lib rq = Inr n"
    using assms(1) post by (auto simp: dispatch_def try_r_Inr_iff split: sum.splits option.splits)
  have "is_obj b"
    using b(1) by (auto simp: read_body_def try_r_Inr_iff Let_def is_obj_def split: if_splits option.splits)
  moreover have "1 \<le> n \<and> n \<le> 1000"
    using b(2) by (auto simp: query_limit_def nat_le_iff le_nat_iff split: option.splits)
  ultimately show ?thesis using post b by blast
qed

lemma get_is_safe_witness:
  "changes_phone RAnswer \<and> dispatch demo_lib \<lparr>hq_post = True, hq_path = lit ''/call/answer/'', hq_query = [], hq_length = None, hq_stream = []\<rparr> =
     Inr (RAnswer, JObj [], 50) \<and> is_obj (JObj [])"
proof -
  let ?rq = "\<lparr>hq_post = True, hq_path = lit ''/call/answer/'', hq_query = [], hq_length = None, hq_stream = []\<rparr>"
  have "dispatch demo_lib ?rq = Inr (RAnswer, JObj [], 50)"
    by (simp add: dispatch_def read_body_def query_limit_def find_route_def POST_ROUTES_def clean_path_def lit_def)
  moreover have "changes_phone RAnswer" by (simp add: changes_phone_def)
  ultimately show ?thesis using get_is_safe [of demo_lib ?rq RAnswer] by blast
qed

lemma after_id_split:
  assumes "distinct (map i_id (pre @ m # post))"
  shows "after_id (i_id m) (pre @ m # post) = post"
proof -
  have "\<forall>x \<in> set pre. i_id x \<noteq> i_id m" using assms by (auto simp: image_iff)
  then have "dropWhile (\<lambda>x. i_id x \<noteq> i_id m) (pre @ m # post) = m # post" by (induction pre) auto
  then show ?thesis by (simp add: after_id_def)
qed

text \<open>
  Following the inbox by id loses nothing while the new messages fit the limit: asking for what came
  after message \<open>m\<close> answers exactly the later messages, in order.
\<close>

theorem inbox_follow:
  assumes "distinct (map i_id (pre @ m # post))" and "i_id m \<noteq> []" and "length post \<le> n"
  shows "inbox_list lib (i_id m) n (pre @ m # post) = Inr post"
  using assms(2,3) by (simp add: inbox_list_def after_id_split [OF assms(1)] newest_def)

text \<open>
  Beyond the limit the newest messages are answered and the ones in between are skipped, so a client that goes
  on from the last message it got never sees them.
\<close>

lemma inbox_follow_skips:
  assumes "distinct (map i_id (pre @ m # skipped @ post @ [m2]))" and "i_id m \<noteq> []" and "i_id m2 \<noteq> []" and "length post + 1 = n"
    and "skipped \<noteq> []"
  shows "inbox_list lib (i_id m) n (pre @ m # skipped @ post @ [m2]) = Inr (post @ [m2]) \<and>
    inbox_list lib (i_id m2) n (pre @ m # skipped @ post @ [m2]) = Inr []"
proof
  show "inbox_list lib (i_id m) n (pre @ m # skipped @ post @ [m2]) = Inr (post @ [m2])"
    using assms(2,4) by (simp add: inbox_list_def after_id_split [OF assms(1)] newest_def)
  have d: "distinct (map i_id ((pre @ m # skipped @ post) @ m2 # []))" using assms(1) by simp
  show "inbox_list lib (i_id m2) n (pre @ m # skipped @ post @ [m2]) = Inr []"
    using after_id_split [OF d] assms(3) by (simp add: inbox_list_def newest_def)
qed

definition demo_in :: "nat \<Rightarrow> in_rec" where
  "demo_in i = in_record [i] (of_nat i) (lit ''+30'') [97] 1 (demo_part 1 [97]) False"

lemma inbox_follow_witness:
  "inbox_list demo_lib [2] 50 [demo_in 1, demo_in 2, demo_in 3] = Inr [demo_in 3]"
  using inbox_follow [of "[demo_in 1]" "demo_in 2" "[demo_in 3]" 50 demo_lib] by (simp add: demo_in_def in_record_def)

end
