(* ===== verification/Py_Text.thy ===== *)
theory Py_Text
  imports Gsm_Codec
begin

text \<open>
  String operations of the standard library that several daemons use: \<open>s.split()\<close>, \<open>s.split(c)\<close>,
  \<open>s.strip()\<close> and \<open>k in s\<close>.
\<close>

fun words_acc :: "pystr \<Rightarrow> pystr \<Rightarrow> pystr list" where
  "words_acc w [] = (if w = [] then [] else [w])"
| "words_acc w (c # s) =
     (if is_space c then (if w = [] then words_acc [] s else w # words_acc [] s) else words_acc (w @ [c]) s)"

definition words :: "pystr \<Rightarrow> pystr list" where
  "words s = words_acc [] s"

fun split_at_char :: "nat \<Rightarrow> pystr \<Rightarrow> pystr list" where
  "split_at_char d [] = [[]]"
| "split_at_char d (c # s) =
     (if c = d then [] # split_at_char d s
      else (case split_at_char d s of [] \<Rightarrow> [[c]] | w # ws \<Rightarrow> (c # w) # ws))"

definition strip_space :: "pystr \<Rightarrow> pystr" where
  "strip_space s = rev (dropWhile is_space (rev (dropWhile is_space s)))"

definition in_str :: "pystr \<Rightarrow> pystr \<Rightarrow> bool" where
  "in_str k s = list_ex (\<lambda>i. take (length k) (drop i s) = k) [0..<Suc (length s)]"

text \<open>Joining with the separator gives the string back, and no piece has the separator in it.\<close>

lemma split_at_char_nonempty [simp]: "split_at_char d s \<noteq> []"
  by (induction s) (auto split: list.split)

lemma split_at_char_join: "concat (map (\<lambda>w. d # w) (split_at_char d s)) = d # s"
proof (induction s)
  case (Cons c s)
  then show ?case by (cases "split_at_char d s") auto
qed simp

lemma split_at_char_pieces: "w \<in> set (split_at_char d s) \<Longrightarrow> d \<notin> set w"
proof (induction s arbitrary: w)
  case (Cons c s)
  then show ?case by (cases "split_at_char d s") (auto split: if_splits)
qed simp

lemma in_str_iff: "in_str k s \<longleftrightarrow> (\<exists>a b. s = a @ k @ b)"
proof
  assume "in_str k s"
  then obtain i where "take (length k) (drop i s) = k" by (auto simp: in_str_def list_ex_iff)
  then have "s = take i s @ k @ drop (length k) (drop i s)" by (metis append_take_drop_id)
  then show "\<exists>a b. s = a @ k @ b" by blast
next
  assume "\<exists>a b. s = a @ k @ b"
  then obtain a b where "s = a @ k @ b" by blast
  then have "length a < Suc (length s) \<and> take (length k) (drop (length a) s) = k" by simp
  then show "in_str k s" unfolding in_str_def list_ex_iff by (metis atLeast0LessThan lessThan_iff set_upt)
qed

end
