(* ===== verification/Net_Policy.thy ===== *)
theory Net_Policy
  imports Phone_Gate Py_Text
begin

text \<open>
  The uplink policy of \<^verbatim>\<open>network/s22-netpolicy.py\<close>: the choice between Wi-Fi, mobile data and
  USB (\<open>choose\<close>), the routing table and the resolver file that follow it (\<open>desired_route\<close>,
  \<open>route_plan\<close>, \<open>resolv_for\<close>), and one tick of the daemon (\<open>Policy.tick\<close>). What the kernel,
  the modem daemon and the probes answer are arguments; what the daemon does is a list of actions. The
  configuration has the types of its default values.
\<close>

section \<open>Configuration\<close>

record policy_cfg =
  cf_mobile_mode :: pystr
  cf_mobile_hold :: time
  cf_mobile_retry :: time
  cf_probe_every :: time
  cf_probe_fail_n :: nat
  cf_redial_after :: nat
  cf_redial_min :: time
  cf_dns_fallback :: "pystr list"
  cf_manage_dns :: bool
  cf_saver :: bool
  cf_saver_method :: pystr
  cf_saver_grace :: time
  cf_discover_every :: time
  cf_discover :: time

definition CONFIG :: policy_cfg where
  "CONFIG = \<lparr>cf_mobile_mode = lit ''failover'', cf_mobile_hold = 120, cf_mobile_retry = 30, cf_probe_every = 30,
     cf_probe_fail_n = 3, cf_redial_after = 3, cf_redial_min = 300, cf_dns_fallback = [lit ''1.1.1.1''],
     cf_manage_dns = True, cf_saver = True, cf_saver_method = lit ''disconnect'', cf_saver_grace = 60,
     cf_discover_every = 900, cf_discover = 15\<rparr>"

definition POLICY_METRIC :: int where "POLICY_METRIC = 50"

definition USB_GW :: pystr where "USB_GW = lit ''10.55.0.1''"

section \<open>Routes and links\<close>

record default_route =
  rt_dev :: "pystr option"
  rt_via :: "pystr option"
  rt_metric :: int

text \<open>\<open>f[f.index(k) + 1] if k in f else None\<close>\<close>

definition word_after :: "pystr \<Rightarrow> pystr list \<Rightarrow> pyerr + pystr option" where
  "word_after k ws =
     (case dropWhile (\<lambda>w. w \<noteq> k) ws of
        [] \<Rightarrow> Inr None
      | [_] \<Rightarrow> Inl IndexError
      | _ # w # _ \<Rightarrow> Inr (Some w))"

definition parse_default :: "pylib \<Rightarrow> pystr \<Rightarrow> pyerr + default_route" where
  "parse_default lib line =
     (let f = words line in
      try_r (word_after (lit ''dev'') f) (\<lambda>dev. try_r (word_after (lit ''via'') f) (\<lambda>via.
      try_r (word_after (lit ''metric'') f) (\<lambda>m.
        case m of
          None \<Rightarrow> Inr \<lparr>rt_dev = dev, rt_via = via, rt_metric = 0\<rparr>
        | Some t \<Rightarrow> (case lib_int lib t of
                       Some i \<Rightarrow> Inr \<lparr>rt_dev = dev, rt_via = via, rt_metric = i\<rparr>
                     | None \<Rightarrow> Inl ValueError)))))"

fun parse_defaults :: "pylib \<Rightarrow> pystr list \<Rightarrow> pyerr + default_route list" where
  "parse_defaults lib [] = Inr []"
| "parse_defaults lib (l # ls) =
     try_r (parse_default lib l) (\<lambda>r. try_r (parse_defaults lib ls) (\<lambda>rs. Inr (r # rs)))"

record link_facts =
  lk_wifi_oper :: pystr
  lk_wifi_gw :: "pystr option"
  lk_wifi_dns :: "pystr list"
  lk_mobile_state :: json
  lk_mobile_ipv4 :: json
  lk_mobile_dns :: "pystr list"
  lk_modem :: json
  lk_usb_oper :: pystr
  lk_usb_carrier :: bool
  lk_defaults :: "default_route list"

text \<open>What \<open>links\<close> reads: sysfs, the lease of this boot, and the output of \<open>ip route show default\<close>.\<close>

record sys_facts =
  sy_wlan_oper :: pystr
  sy_lease_dns :: "pystr list"
  sy_ecm_oper :: pystr
  sy_ecm_carrier :: pystr
  sy_routes_ok :: bool
  sy_routes :: "pystr list"

definition dev :: "string \<Rightarrow> default_route \<Rightarrow> bool" where
  "dev d r \<longleftrightarrow> rt_dev r = Some (lit d)"

definition has_via :: "default_route \<Rightarrow> bool" where
  "has_via r \<longleftrightarrow> rt_via r \<noteq> None \<and> rt_via r \<noteq> Some []"

text \<open>\<open>mobile.get("dns") or []\<close>: the modem daemon sends a list of addresses.\<close>

definition json_strs :: "json \<Rightarrow> pystr list" where
  "json_strs v = (case v of JArr vs \<Rightarrow> List.map_filter as_str vs | _ \<Rightarrow> [])"

definition links :: "pylib \<Rightarrow> sys_facts \<Rightarrow> json \<Rightarrow> pyerr + link_facts" where
  "links lib sy mobile =
     try_r (parse_defaults lib (if sy_routes_ok sy then sy_routes sy else [])) (\<lambda>dflt.
       Inr \<lparr>lk_wifi_oper = sy_wlan_oper sy,
            lk_wifi_gw = (case find (\<lambda>r. dev ''wlan0'' r \<and> rt_metric r \<noteq> POLICY_METRIC \<and> has_via r) dflt of
                            Some r \<Rightarrow> rt_via r | None \<Rightarrow> None),
            lk_wifi_dns = sy_lease_dns sy,
            lk_mobile_state = jget_or mobile ''state'' (JStr (lit ''unknown'')),
            lk_mobile_ipv4 = jget mobile ''ipv4'', lk_mobile_dns = json_strs (jget mobile ''dns''),
            lk_modem = jget mobile ''modem_state'', lk_usb_oper = sy_ecm_oper sy,
            lk_usb_carrier = (sy_ecm_carrier sy = lit ''1''), lk_defaults = dflt\<rparr>)"

definition wifi_present :: "link_facts \<Rightarrow> bool" where
  "wifi_present lk \<longleftrightarrow> lk_wifi_oper lk = lit ''up'' \<and> lk_wifi_gw lk \<noteq> None \<and> lk_wifi_gw lk \<noteq> Some []"

definition mobile_present :: "link_facts \<Rightarrow> bool" where
  "mobile_present lk \<longleftrightarrow> lk_mobile_state lk = JStr (lit ''up'') \<and> truthy (lk_mobile_ipv4 lk)"

definition usb_present :: "link_facts \<Rightarrow> bool" where
  "usb_present lk \<longleftrightarrow> lk_usb_oper lk = lit ''up'' \<and> lk_usb_carrier lk"

section \<open>The decision\<close>

datatype uplink = Wifi | Mobile | Usb

record link_fails =
  fl_wifi :: nat
  fl_mobile :: nat

definition wifi_good :: "link_facts \<Rightarrow> link_fails \<Rightarrow> policy_cfg \<Rightarrow> bool" where
  "wifi_good lk f cfg \<longleftrightarrow> wifi_present lk \<and> fl_wifi f < cf_probe_fail_n cfg"

definition mobile_good :: "link_facts \<Rightarrow> link_fails \<Rightarrow> policy_cfg \<Rightarrow> bool" where
  "mobile_good lk f cfg \<longleftrightarrow> mobile_present lk \<and> fl_mobile f < cf_probe_fail_n cfg"

definition choose_uplink :: "link_facts \<Rightarrow> link_fails \<Rightarrow> policy_cfg \<Rightarrow> uplink option \<times> bool" where
  "choose_uplink lk f cfg =
     ((if wifi_good lk f cfg then Some Wifi
      else if mobile_good lk f cfg then Some Mobile
      else if usb_present lk then Some Usb
      else if wifi_present lk then Some Wifi
      else if mobile_present lk then Some Mobile
      else None),
      cf_mobile_mode cfg = lit ''always'' \<or> cf_mobile_mode cfg = lit ''failover'' \<and> \<not> wifi_good lk f cfg)"

text \<open>The route of the policy: gateway and device.\<close>

record wanted_route =
  wr_via :: "pystr option"
  wr_dev :: pystr

definition desired_route :: "uplink option \<Rightarrow> link_facts \<Rightarrow> wanted_route option" where
  "desired_route up lk =
     (case up of
        Some Wifi \<Rightarrow> (case lk_wifi_gw lk of
                        Some g \<Rightarrow> if g = [] then None else Some \<lparr>wr_via = Some g, wr_dev = lit ''wlan0''\<rparr>
                      | None \<Rightarrow> None)
      | Some Mobile \<Rightarrow> Some \<lparr>wr_via = None, wr_dev = lit ''rmnet0''\<rparr>
      | Some Usb \<Rightarrow> Some \<lparr>wr_via = Some USB_GW, wr_dev = lit ''ecm0''\<rparr>
      | None \<Rightarrow> None)"

text \<open>The commands of the plan; \<open>DelRoute\<close> has the fields its arguments are built from.\<close>

datatype route_cmd = DelRoute default_route | ReplaceRoute wanted_route

definition stray :: "wanted_route option \<Rightarrow> default_route \<Rightarrow> bool" where
  "stray want r \<longleftrightarrow>
     rt_metric r = POLICY_METRIC \<and> rt_dev r \<noteq> map_option wr_dev want \<or> dev ''ecm0'' r \<and> rt_metric r \<noteq> POLICY_METRIC"

definition matches :: "wanted_route \<Rightarrow> default_route \<Rightarrow> bool" where
  "matches w r \<longleftrightarrow> rt_dev r = Some (wr_dev w) \<and> rt_metric r = POLICY_METRIC \<and> (wr_via w = None \<or> rt_via r = wr_via w)"

definition route_plan :: "uplink option \<Rightarrow> link_facts \<Rightarrow> route_cmd list" where
  "route_plan up lk =
     (let want = desired_route up lk in
      map DelRoute (filter (stray want) (lk_defaults lk)) @
      (case want of
         None \<Rightarrow> []
       | Some w \<Rightarrow> if list_ex (matches w) (lk_defaults lk) then [] else [ReplaceRoute w]))"

text \<open>The arguments of \<open>ip\<close>; a route without a device puts \<open>None\<close> among them.\<close>

definition route_args :: "route_cmd \<Rightarrow> pyerr + pystr list" where
  "route_args c =
     (case c of
        DelRoute r \<Rightarrow>
          (case rt_dev r of
             None \<Rightarrow> Inl TypeError
           | Some d \<Rightarrow>
               Inr (map lit [''route'', ''del'', ''default''] @
                 (case rt_via r of Some v \<Rightarrow> if v = [] then [] else [lit ''via'', v] | None \<Rightarrow> []) @ [lit ''dev'', d] @
                 (if rt_metric r = 0 then [] else [lit ''metric'', int_text (rt_metric r)])))
      | ReplaceRoute w \<Rightarrow>
          Inr (map lit [''route'', ''replace'', ''default''] @
            (case wr_via w of Some v \<Rightarrow> [lit ''via'', v] | None \<Rightarrow> []) @
            [lit ''dev'', wr_dev w, lit ''metric'', int_text POLICY_METRIC]))"

fun first_new :: "nat \<Rightarrow> pystr list \<Rightarrow> pystr list \<Rightarrow> pystr list" where
  "first_new n out [] = out"
| "first_new n out (x # xs) =
     first_new n (if x \<noteq> [] \<and> x \<notin> set out \<and> length out < n then out @ [x] else out) xs"

definition uplink_name :: "uplink \<Rightarrow> pystr" where
  "uplink_name u = (case u of Wifi \<Rightarrow> lit ''wifi'' | Mobile \<Rightarrow> lit ''mobile'' | Usb \<Rightarrow> lit ''usb'')"

definition name_servers :: "uplink \<Rightarrow> link_facts \<Rightarrow> policy_cfg \<Rightarrow> pystr list" where
  "name_servers u lk cfg =
     first_new 3 []
       ((case u of
           Wifi \<Rightarrow> (if lk_wifi_dns lk = [] then (case lk_wifi_gw lk of Some g \<Rightarrow> [g] | None \<Rightarrow> []) else lk_wifi_dns lk)
         | Mobile \<Rightarrow> lk_mobile_dns lk
         | Usb \<Rightarrow> [USB_GW]) @ cf_dns_fallback cfg)"

definition resolv_for :: "uplink option \<Rightarrow> link_facts \<Rightarrow> policy_cfg \<Rightarrow> pystr option" where
  "resolv_for up lk cfg =
     map_option (\<lambda>u.
       concat (map (\<lambda>x. lit ''nameserver '' @ x @ [10]) (name_servers u lk cfg)) @
       lit ''options timeout:2 attempts:2'' @ [10] @ lit ''# s22-netpolicy uplink='' @ uplink_name u @ [10]) up"

text \<open>The lease of this boot, if there is one, and the output of \<open>ip -4 addr show dev wlan0\<close>.\<close>

record dhcp_lease =
  le_gateway :: pystr
  le_address :: pystr

definition wifi_route_repair :: "link_facts \<Rightarrow> dhcp_lease option \<Rightarrow> pystr \<Rightarrow> pystr list option" where
  "wifi_route_repair lk le addr_out =
     (if lk_wifi_oper lk \<noteq> lit ''up'' \<or> lk_wifi_gw lk \<noteq> None \<and> lk_wifi_gw lk \<noteq> Some [] then None
      else (case le of
              None \<Rightarrow> None
            | Some l \<Rightarrow>
                if le_gateway l = [] \<or> le_address l = [] then None
                else if \<not> in_str (32 # le_address l @ [47]) addr_out then None
                else Some (map lit [''route'', ''replace'', ''default'', ''via''] @ [le_gateway l] @
                           map lit [''dev'', ''wlan0'', ''metric'', ''600''])))"

text \<open>The two attempts of a probe: which name servers each asks.\<close>

definition probe_servers :: "pystr list \<Rightarrow> policy_cfg \<Rightarrow> pystr list list" where
  "probe_servers dns cfg =
     (let own = filter (\<lambda>s. s \<noteq> []) dns; servers = (if own = [] then cf_dns_fallback cfg else own)
      in [servers, servers @ filter (\<lambda>s. s \<notin> set servers) (cf_dns_fallback cfg)])"

definition probe :: "(pystr list \<Rightarrow> bool) \<Rightarrow> pystr list \<Rightarrow> policy_cfg \<Rightarrow> bool" where
  "probe ok dns cfg = list_ex ok (probe_servers dns cfg)"

section \<open>The decision follows the priorities\<close>

text \<open>The specification: which links can carry traffic, from the best to the worst.\<close>

definition ranked :: "link_facts \<Rightarrow> link_fails \<Rightarrow> policy_cfg \<Rightarrow> uplink list" where
  "ranked lk f cfg =
     map snd (filter fst [(wifi_good lk f cfg, Wifi), (mobile_good lk f cfg, Mobile), (usb_present lk, Usb),
       (wifi_present lk, Wifi), (mobile_present lk, Mobile)])"

text \<open>
  The uplink is the best link there is: Wi-Fi whose probes succeed, then mobile data whose probes
  succeed, then the cable, and only then a link whose probes fail; and no uplink only when no link is present.
  Mobile data is wanted exactly in mode \<open>always\<close>, or in mode \<open>failover\<close> without working Wi-Fi.
\<close>

theorem choose_best:
  shows "fst (choose_uplink lk f cfg) = (case ranked lk f cfg of [] \<Rightarrow> None | u # _ \<Rightarrow> Some u) \<and>
    (fst (choose_uplink lk f cfg) = None \<longleftrightarrow> \<not> wifi_present lk \<and> \<not> mobile_present lk \<and> \<not> usb_present lk) \<and>
    (snd (choose_uplink lk f cfg) \<longleftrightarrow>
       (if cf_mobile_mode cfg = lit ''failover'' then \<not> wifi_good lk f cfg else cf_mobile_mode cfg = lit ''always''))"
proof -
  have "lit ''failover'' \<noteq> lit ''always''" by (simp add: lit_def)
  then show ?thesis by (auto simp: choose_uplink_def ranked_def wifi_good_def mobile_good_def)
qed

lemma first_new_prefix: "\<exists>ys. first_new n out xs = out @ ys"
proof (induction xs arbitrary: out)
  case (Cons x xs)
  from Cons.IH [of "out @ [x]"] Cons.IH [of out] show ?case by auto
qed simp

lemma first_new_facts:
  "distinct out \<Longrightarrow> length out \<le> n \<Longrightarrow> [] \<notin> set out \<Longrightarrow>
   distinct (first_new n out xs) \<and> length (first_new n out xs) \<le> n \<and> [] \<notin> set (first_new n out xs) \<and>
   set (first_new n out xs) \<subseteq> set out \<union> set xs"
proof (induction xs arbitrary: out)
  case (Cons x xs)
  show ?case
  proof (cases "x \<noteq> [] \<and> x \<notin> set out \<and> length out < n")
    case True
    then have "distinct (out @ [x])" "length (out @ [x]) \<le> n" "[] \<notin> set (out @ [x])" using Cons.prems by auto
    from Cons.IH [OF this] show ?thesis using True by auto
  next
    case False
    then have "first_new n out (x # xs) = first_new n out xs" by (simp only: first_new.simps(2) if_False)
    then show ?thesis using Cons.IH [OF Cons.prems] by auto
  qed
qed simp

lemma first_new_head: "x \<noteq> [] \<Longrightarrow> 0 < n \<Longrightarrow> take 1 (first_new n [] (x # xs)) = [x]"
  using first_new_prefix [of n "[x]" xs] by auto

text \<open>
  The resolver file names at most three servers, none of them twice and none empty, all of them from
  the uplink or the fallback list, and the uplink's own first server comes first.
\<close>

theorem resolver_servers:
  "distinct (name_servers u lk cfg) \<and> length (name_servers u lk cfg) \<le> 3 \<and> [] \<notin> set (name_servers u lk cfg) \<and>
   (\<exists>own. own = (case u of Wifi \<Rightarrow> (if lk_wifi_dns lk = [] then (case lk_wifi_gw lk of Some g \<Rightarrow> [g] | None \<Rightarrow> []) else lk_wifi_dns lk)
                | Mobile \<Rightarrow> lk_mobile_dns lk | Usb \<Rightarrow> [USB_GW]) \<and>
      set (name_servers u lk cfg) \<subseteq> set own \<union> set (cf_dns_fallback cfg) \<and>
      (own = [] \<or> hd own = [] \<or> take 1 (name_servers u lk cfg) = [hd own]))"
proof -
  define own where "own = (case u of Wifi \<Rightarrow> (if lk_wifi_dns lk = [] then (case lk_wifi_gw lk of Some g \<Rightarrow> [g] | None \<Rightarrow> []) else lk_wifi_dns lk)
                | Mobile \<Rightarrow> lk_mobile_dns lk | Usb \<Rightarrow> [USB_GW])"
  have n: "name_servers u lk cfg = first_new 3 [] (own @ cf_dns_fallback cfg)"
    by (simp add: name_servers_def own_def)
  have "take 1 (name_servers u lk cfg) = [hd own]" if "own \<noteq> []" "hd own \<noteq> []"
    using that first_new_head [of "hd own" 3 "tl own @ cf_dns_fallback cfg"] unfolding n by (cases own) simp_all
  then show ?thesis using first_new_facts [of "[]" 3 "own @ cf_dns_fallback cfg"]
    unfolding n [symmetric] own_def [symmetric] by auto
qed

text \<open>What the kernel makes of a plan: deleted routes go, a replacing one is there afterwards.\<close>

definition route_row :: "wanted_route \<Rightarrow> default_route" where
  "route_row w = \<lparr>rt_dev = Some (wr_dev w), rt_via = wr_via w, rt_metric = POLICY_METRIC\<rparr>"

fun apply_plan :: "route_cmd list \<Rightarrow> default_route list \<Rightarrow> default_route list" where
  "apply_plan [] rs = rs"
| "apply_plan (DelRoute r # cs) rs = apply_plan cs (removeAll r rs)"
| "apply_plan (ReplaceRoute w # cs) rs = apply_plan cs (rs @ [route_row w])"

lemma apply_dels: "apply_plan (map DelRoute ds @ cs) rs = apply_plan cs (filter (\<lambda>r. r \<notin> set ds) rs)"
proof (induction ds arbitrary: rs)
  case (Cons d ds)
  have "filter (\<lambda>r. r \<notin> set ds) (removeAll d rs) = filter (\<lambda>r. r \<notin> set (d # ds)) rs"
    by (simp add: removeAll_filter_not_eq conj_commute) (metis (mono_tags))
  then show ?case using Cons by simp
qed simp

text \<open>
  C7. The plan converges and touches nothing else: a second plan over the resulting table is empty; a
  deletion concerns a route that is there and is either a policy route of another device or the cable's own
  default route; so the fallback routes of Wi-Fi and mobile data stay; and once it is carried out the only
  policy routes left are those of the uplink's device, with the wanted route among them, and the cable's own default
  route of another metric is gone.
\<close>

theorem route_plan_converges:
  assumes "rs = apply_plan (route_plan up lk) (lk_defaults lk)"
  shows "(\<forall>lk2. lk_defaults lk2 = rs \<and> desired_route up lk2 = desired_route up lk \<longrightarrow> route_plan up lk2 = []) \<and>
    (\<forall>r. DelRoute r \<in> set (route_plan up lk) \<longrightarrow> r \<in> set (lk_defaults lk) \<and>
       (rt_metric r = POLICY_METRIC \<or> dev ''ecm0'' r)) \<and>
    (\<forall>r \<in> set (lk_defaults lk). rt_metric r \<noteq> POLICY_METRIC \<and> \<not> dev ''ecm0'' r \<longrightarrow> r \<in> set rs) \<and>
    (\<forall>r \<in> set rs. rt_metric r = POLICY_METRIC \<longrightarrow> rt_dev r = map_option wr_dev (desired_route up lk)) \<and>
    (\<forall>r \<in> set rs. dev ''ecm0'' r \<longrightarrow> rt_metric r = POLICY_METRIC) \<and>
    (\<forall>w. desired_route up lk = Some w \<longrightarrow> (\<exists>r \<in> set rs. matches w r))"
proof -
  let ?want = "desired_route up lk"
  have mem: "r \<in> set rs \<longleftrightarrow> r \<in> set (lk_defaults lk) \<and> \<not> stray ?want r \<or>
      (\<exists>w. ?want = Some w \<and> \<not> list_ex (matches w) (lk_defaults lk) \<and> r = route_row w)" for r
    by (auto simp: assms apply_dels route_plan_def Let_def split: option.splits if_splits)
  have new: "\<not> stray (Some w) (route_row w)" "matches w (route_row w)" for w
    by (auto simp: stray_def matches_def route_row_def)
  have keep: "matches w r \<Longrightarrow> \<not> stray (Some w) r" for w r by (auto simp: stray_def matches_def)
  have clean: "\<not> stray ?want r" if "r \<in> set rs" for r using that mem new(1) by metis
  have there: "\<exists>r \<in> set rs. matches w r" if "?want = Some w" for w
  proof (cases "list_ex (matches w) (lk_defaults lk)")
    case True
    then show ?thesis using mem keep that by (auto simp: list_ex_iff)
  next
    case False
    then show ?thesis using mem new(2) that by blast
  qed
  show ?thesis
  proof (intro conjI allI impI ballI)
    fix lk2 assume l: "lk_defaults lk2 = rs \<and> desired_route up lk2 = ?want"
    then have "filter (stray ?want) (lk_defaults lk2) = []" using clean by (simp add: filter_empty_conv)
    then show "route_plan up lk2 = []" using l there by (auto simp: route_plan_def Let_def list_ex_iff split: option.splits)
  next
    fix r assume "rt_metric r = POLICY_METRIC" "r \<in> set rs"
    then show "rt_dev r = map_option wr_dev ?want" using clean by (auto simp: stray_def)
  next
    fix r assume "dev ''ecm0'' r" "r \<in> set rs"
    then show "rt_metric r = POLICY_METRIC" using clean by (auto simp: stray_def)
  qed (use mem there in \<open>auto simp: route_plan_def Let_def stray_def split: option.splits if_splits\<close>)
qed

text \<open>Wi-Fi comes up while the cable has the boot-time default route.\<close>

definition demo_links :: link_facts where
  "demo_links = \<lparr>lk_wifi_oper = lit ''up'', lk_wifi_gw = Some (lit ''10.0.0.1''), lk_wifi_dns = [lit ''10.0.0.1''],
     lk_mobile_state = JStr (lit ''down''), lk_mobile_ipv4 = JNull, lk_mobile_dns = [], lk_modem = JNull,
     lk_usb_oper = lit ''up'', lk_usb_carrier = True,
     lk_defaults = [\<lparr>rt_dev = Some (lit ''ecm0''), rt_via = Some USB_GW, rt_metric = 0\<rparr>,
                    \<lparr>rt_dev = Some (lit ''wlan0''), rt_via = Some (lit ''10.0.0.1''), rt_metric = 600\<rparr>]\<rparr>"

lemma choose_best_witness:
  "fst (choose_uplink demo_links \<lparr>fl_wifi = 0, fl_mobile = 0\<rparr> CONFIG) = Some Wifi \<and>
   \<not> snd (choose_uplink demo_links \<lparr>fl_wifi = 0, fl_mobile = 0\<rparr> CONFIG)"
  using choose_best [of demo_links "\<lparr>fl_wifi = 0, fl_mobile = 0\<rparr>" CONFIG]
  by (simp add: ranked_def wifi_good_def wifi_present_def demo_links_def CONFIG_def lit_def)

lemma resolver_servers_witness:
  "take 1 (name_servers Wifi demo_links CONFIG) = [lit ''10.0.0.1''] \<and> length (name_servers Wifi demo_links CONFIG) \<le> 3"
  using resolver_servers [of Wifi demo_links CONFIG] by (auto simp: demo_links_def lit_def)

lemma route_plan_converges_witness:
  "\<exists>r. r \<in> set (apply_plan (route_plan (Some Wifi) demo_links) (lk_defaults demo_links)) \<and>
     matches \<lparr>wr_via = Some (lit ''10.0.0.1''), wr_dev = lit ''wlan0''\<rparr> r"
proof -
  have "desired_route (Some Wifi) demo_links = Some \<lparr>wr_via = Some (lit ''10.0.0.1''), wr_dev = lit ''wlan0''\<rparr>"
    by (simp add: desired_route_def demo_links_def lit_def)
  then show ?thesis using route_plan_converges [OF refl, of "Some Wifi" demo_links] by blast
qed

end
