(* ===== verification/Hold_Timer.thy ===== *)
theory Hold_Timer
  imports S22_Prelude
begin

text \<open>
  The contract of a hold timer: a machine remembers since when a condition has held without a break, and
  acts when it has held long enough. The Wi-Fi saver waits that way before it parks Wi-Fi, the uplink policy
  before it releases mobile data, and the autosleep and charge daemons before they act. Inside the
  locale: whatever the timer says, the history backs it up.
\<close>

fun run_steps :: "('s \<Rightarrow> 'i \<Rightarrow> 's) \<Rightarrow> 's \<Rightarrow> 'i list \<Rightarrow> 's" where
  "run_steps step s [] = s"
| "run_steps step s (i # ins) = run_steps step (step s i) ins"

lemma run_steps_append [simp]: "run_steps step s (xs @ ys) = run_steps step (run_steps step s xs) ys"
  by (induction xs arbitrary: s) simp_all

text \<open>The condition has held in every input since time \<open>t\<close>: the last inputs, from one at \<open>t\<close> on, do not break it.\<close>

definition held_since :: "('i \<Rightarrow> time) \<Rightarrow> ('i \<Rightarrow> bool) \<Rightarrow> 'i list \<Rightarrow> time \<Rightarrow> bool" where
  "held_since clk breaks ins t \<longleftrightarrow>
     (\<exists>pre x suf. ins = pre @ x # suf \<and> clk x = t \<and> list_all (\<lambda>i. \<not> breaks i) (x # suf))"

lemma held_since_start: "\<not> breaks i \<Longrightarrow> clk i = t \<Longrightarrow> held_since clk breaks (ins @ [i]) t"
  unfolding held_since_def by (metis list.pred_inject(1,2))

lemma held_since_next:
  assumes "held_since clk breaks ins t" and "\<not> breaks i"
  shows "held_since clk breaks (ins @ [i]) t"
proof -
  obtain pre x suf where "ins = pre @ x # suf" "clk x = t" "list_all (\<lambda>i. \<not> breaks i) (x # suf)"
    using assms(1) unfolding held_since_def by blast
  then have "ins @ [i] = pre @ x # (suf @ [i]) \<and> clk x = t \<and> list_all (\<lambda>i. \<not> breaks i) (x # suf @ [i])"
    using assms(2) by simp
  then show ?thesis unfolding held_since_def by blast
qed

locale hold_timer =
  fixes step :: "'s \<Rightarrow> 'i \<Rightarrow> 's"
    and since :: "'s \<Rightarrow> time option"
    and clk :: "'i \<Rightarrow> time"
    and breaks :: "'i \<Rightarrow> bool"
    and invar :: "'s \<Rightarrow> bool"
  assumes invar_step: "invar s \<Longrightarrow> invar (step s i)"
    and broken: "invar s \<Longrightarrow> breaks i \<Longrightarrow> since (step s i) = None"
    and kept: "since (step s i) = Some t \<Longrightarrow> since s = Some t \<or> clk i = t"
begin

lemma invar_run: "invar s \<Longrightarrow> invar (run_steps step s ins)"
  by (induction ins arbitrary: s) (simp_all add: invar_step)

lemma since_held:
  assumes "invar s0" and "since s0 = None" and "since (run_steps step s0 ins) = Some t"
  shows "held_since clk breaks ins t"
  using assms(3)
proof (induction ins arbitrary: t rule: rev_induct)
  case Nil
  then show ?case using assms(2) by simp
next
  case (snoc i ins)
  let ?s = "run_steps step s0 ins"
  have s: "since (step ?s i) = Some t" using snoc.prems by simp
  moreover have "invar ?s" using assms(1) by (rule invar_run)
  ultimately have "\<not> breaks i" using broken by fastforce
  moreover have "held_since clk breaks ins t \<or> clk i = t" using kept [OF s] snoc.IH by auto
  ultimately show ?case by (auto intro: held_since_start held_since_next)
qed

end

end
