(* ===== verification/Wifi_Saver.thy ===== *)
theory Wifi_Saver
  imports Net_Policy Hold_Timer
begin

text \<open>
  The Wi-Fi saver of \<^verbatim>\<open>network/s22-netpolicy.py\<close>: \<open>saver_eligible\<close>, the class \<open>WifiSaver\<close> and
  \<open>saver_recover_at_start\<close>. The calls of \<open>wpa_cli\<close> and \<open>ip\<close> and the saves of the state file are a list of
  commands; their exit codes are only logged and are left out. What \<open>wpa_cli\<close> prints and the carrier file
  are arguments.
\<close>

section \<open>Networks\<close>

text \<open>\<open>s.strip().isdigit()\<close>; which code points are digits is the argument \<open>dig\<close>.\<close>

definition strip_isdigit :: "(nat \<Rightarrow> bool) \<Rightarrow> pystr \<Rightarrow> bool" where
  "strip_isdigit dig s =
     (let t = strip_space s in t \<noteq> [] \<and> list_all dig t)"

definition known_ssids :: "(nat \<Rightarrow> bool) \<Rightarrow> pystr \<Rightarrow> pystr set" where
  "known_ssids dig out =
     set (map (\<lambda>f. f ! 1) (filter (\<lambda>f. 2 \<le> length f \<and> strip_isdigit dig (f ! 0) \<and> f ! 1 \<noteq> [])
       (map (split_at_char 9) (drop 1 (split_lines out)))))"

definition seen_ssids :: "pystr \<Rightarrow> pystr set" where
  "seen_ssids out =
     set (map (\<lambda>f. f ! 4) (filter (\<lambda>f. 5 \<le> length f \<and> f ! 4 \<noteq> []) (map (split_at_char 9) (drop 1 (split_lines out)))))"

section \<open>Eligibility\<close>

definition SAVER_HOLD_S :: time where "SAVER_HOLD_S = 3600"

text \<open>The age test of the hold file; \<open>None\<close>: there is no file.\<close>

definition saver_hold_active :: "time \<Rightarrow> time option \<Rightarrow> bool" where
  "saver_hold_active now mtime = (case mtime of None \<Rightarrow> False | Some m \<Rightarrow> now - m < SAVER_HOLD_S)"

definition uplink_str :: "uplink option \<Rightarrow> pystr" where
  "uplink_str up = (case up of None \<Rightarrow> lit ''None'' | Some u \<Rightarrow> uplink_name u)"

definition saver_eligible ::
    "policy_cfg \<Rightarrow> pystr \<Rightarrow> uplink option \<Rightarrow> bool \<Rightarrow> bool \<Rightarrow> bool \<Rightarrow> bool \<Rightarrow> bool \<times> pystr" where
  "saver_eligible cfg display up wifi_up paused killed hold =
     (if \<not> cf_saver cfg \<or> killed then (False, lit ''disabled'')
      else if paused then (False, lit ''paused'')
      else if hold then (False, lit ''deadman_hold'')
      else if display \<noteq> lit ''off'' then (False, lit ''screen_on'')
      else if up \<noteq> Some Mobile then (False, lit ''uplink_'' @ uplink_str up)
      else if wifi_up then (False, lit ''wifi_up'')
      else (True, []))"

section \<open>The saver\<close>

record saver =
  sv_parked :: bool
  sv_method :: "pystr option"
  sv_parked_at :: "time option"
  sv_eligible_since :: "time option"
  sv_next_discover :: time
  sv_discover_until :: "time option"
  sv_discoveries :: nat
  sv_reason :: pystr

definition new_saver :: saver where
  "new_saver = \<lparr>sv_parked = False, sv_method = None, sv_parked_at = None, sv_eligible_since = None,
     sv_next_discover = 0, sv_discover_until = None, sv_discoveries = 0, sv_reason = []\<rparr>"

record saver_snap =
  sn_parked :: bool
  sn_method :: "pystr option"
  sn_parked_at :: "time option"
  sn_next_discover :: "time option"
  sn_discovering :: bool
  sn_discoveries :: nat
  sn_reason :: pystr

text \<open>\<open>round(x, 1)\<close>: half to even.\<close>

definition round1 :: "time \<Rightarrow> time" where
  "round1 x =
     (let y = 10 * x; f = \<lfloor>y\<rfloor>; d = y - of_int f in
      of_int (if d < 1 / 2 \<or> d = 1 / 2 \<and> even f then f else f + 1) / 10)"

definition snapshot :: "saver \<Rightarrow> saver_snap" where
  "snapshot s = \<lparr>sn_parked = sv_parked s, sn_method = sv_method s, sn_parked_at = sv_parked_at s,
     sn_next_discover = (if sv_parked s then Some (round1 (sv_next_discover s)) else None),
     sn_discovering = (sv_discover_until s \<noteq> None), sn_discoveries = sv_discoveries s, sn_reason = sv_reason s\<rparr>"

datatype radio_cmd = WlanDown | WlanUp | WpaDisconnect | WpaReconnect | WpaScan | WpaListNetworks
  | WpaScanResults | SaveState saver_snap

text \<open>What a step reads from outside: the output of the two queries and the carrier file.\<close>

record saver_env =
  se_networks :: pystr
  se_results :: pystr
  se_carrier :: pystr
  se_digit :: "nat \<Rightarrow> bool"

definition park :: "pystr \<Rightarrow> time \<Rightarrow> policy_cfg \<Rightarrow> saver \<Rightarrow> saver \<times> radio_cmd list" where
  "park meth now cfg s =
     (let (m, cmd1) = (if meth = lit ''down'' then (meth, WlanDown) else (lit ''disconnect'', WpaDisconnect));
          s1 = s\<lparr>sv_parked := True, sv_method := Some m, sv_parked_at := Some now,
                 sv_next_discover := now + cf_discover_every cfg, sv_discover_until := None\<rparr>
      in (s1, [cmd1, SaveState (snapshot s1)]))"

definition unpark :: "pystr \<Rightarrow> saver \<Rightarrow> saver \<times> radio_cmd list" where
  "unpark reason s =
     (let s1 = s\<lparr>sv_parked := False, sv_method := None, sv_parked_at := None, sv_discover_until := None,
                 sv_eligible_since := None, sv_reason := reason\<rparr>
      in (s1, [WlanUp, WpaReconnect, SaveState (snapshot s1)]))"

definition start_discovery :: "time \<Rightarrow> policy_cfg \<Rightarrow> saver \<Rightarrow> saver \<times> radio_cmd list" where
  "start_discovery now cfg s =
     (s\<lparr>sv_discoveries := Suc (sv_discoveries s), sv_discover_until := Some (now + cf_discover cfg)\<rparr>,
      [if sv_method s = Some (lit ''down'') then WlanUp else WpaScan])"

definition finish_discovery :: "saver_env \<Rightarrow> time \<Rightarrow> policy_cfg \<Rightarrow> bool \<Rightarrow> saver \<Rightarrow> saver \<times> radio_cmd list" where
  "finish_discovery e now cfg wifi_up s =
     (let s1 = s\<lparr>sv_discover_until := None, sv_next_discover := now + cf_discover_every cfg\<rparr> in
      if sv_method s = Some (lit ''down'') then
        (if wifi_up \<or> se_carrier e = lit ''1'' then unpark (lit ''discovered'') s1
         else (s1, [WlanDown, SaveState (snapshot s1)]))
      else if known_ssids (se_digit e) (se_networks e) \<inter> seen_ssids (se_results e) \<noteq> {} then
        (let (s2, cs) = unpark (lit ''discovered'') s1 in (s2, [WpaListNetworks, WpaScanResults] @ cs))
      else (s1, [WpaListNetworks, WpaScanResults, WpaDisconnect, SaveState (snapshot s1)]))"

definition saver_step ::
    "saver_env \<Rightarrow> time \<Rightarrow> policy_cfg \<Rightarrow> bool \<Rightarrow> pystr \<Rightarrow> bool \<Rightarrow> saver \<Rightarrow> saver \<times> radio_cmd list" where
  "saver_step e now cfg eligible why_not wifi_up s =
     (if \<not> eligible then
        (let s1 = s\<lparr>sv_eligible_since := None\<rparr> in if sv_parked s then unpark why_not s1 else (s1, []))
      else if \<not> sv_parked s then
        (let since = (case sv_eligible_since s of None \<Rightarrow> now | Some t \<Rightarrow> t);
             s1 = s\<lparr>sv_eligible_since := Some since\<rparr>
         in if cf_saver_grace cfg \<le> now - since then park (cf_saver_method cfg) now cfg s1 else (s1, []))
      else if Some (cf_saver_method cfg) \<noteq> sv_method s \<and> sv_discover_until s = None then unpark (lit ''method_change'') s
      else (case sv_discover_until s of
              Some u \<Rightarrow> if u \<le> now then finish_discovery e now cfg wifi_up s else (s, [])
            | None \<Rightarrow> if sv_next_discover s \<le> now then start_discovery now cfg s else (s, [])))"

text \<open>
  The recovery at the start of the daemon: the state file of a daemon that died (\<open>None\<close>: it is not
  readable). A file that is JSON but not an object makes \<open>st.get\<close> raise, which is not caught.
\<close>

definition saver_recover_at_start :: "pystr option \<Rightarrow> pyerr + bool \<times> radio_cmd list" where
  "saver_recover_at_start file =
     (case Option.bind file json_loads of
        None \<Rightarrow> Inr (False, [])
      | Some st \<Rightarrow>
          if \<not> is_obj st then Inl AttributeError
          else if truthy (jget st ''parked'') then Inr (True, snd (unpark (lit ''daemon_start'') new_saver))
          else Inr (False, []))"

section \<open>Runs of the saver\<close>

record saver_in =
  si_env :: saver_env
  si_now :: time
  si_cfg :: policy_cfg
  si_eligible :: bool
  si_why :: pystr
  si_wifi :: bool

definition saver_run_step :: "saver \<Rightarrow> saver_in \<Rightarrow> saver \<times> radio_cmd list" where
  "saver_run_step s i = saver_step (si_env i) (si_now i) (si_cfg i) (si_eligible i) (si_why i) (si_wifi i) s"

definition saver_next :: "saver \<Rightarrow> saver_in \<Rightarrow> saver" where
  "saver_next s i = fst (saver_run_step s i)"

lemmas saver_ops = saver_run_step_def saver_step_def park_def unpark_def start_discovery_def finish_discovery_def Let_def

lemma run_chunks_fst: "fst (run_chunks f s ins) = run_steps (\<lambda>s i. fst (f s i)) s ins"
  by (induction ins arbitrary: s) (simp_all add: case_prod_unfold Let_def)

lemma saver_run_fst: "fst (run_chunks saver_run_step s ins) = run_steps saver_next s ins"
  by (simp add: run_chunks_fst saver_next_def [abs_def])

interpretation saver_timer: hold_timer saver_next sv_eligible_since si_now "\<lambda>i. \<not> si_eligible i" "\<lambda>_. True"
  by unfold_locales (auto simp: saver_next_def saver_ops split: if_splits option.splits)

text \<open>
  What the commands do to the radio: the interface is up or down, and \<^verbatim>\<open>wpa_supplicant\<close> looks for networks
  by itself or does not.
\<close>

record radio =
  ra_link :: bool
  ra_auto :: bool

fun radio_do :: "radio_cmd \<Rightarrow> radio \<Rightarrow> radio" where
  "radio_do WlanDown r = r\<lparr>ra_link := False\<rparr>"
| "radio_do WlanUp r = r\<lparr>ra_link := True\<rparr>"
| "radio_do WpaDisconnect r = r\<lparr>ra_auto := False\<rparr>"
| "radio_do WpaReconnect r = r\<lparr>ra_auto := True\<rparr>"
| "radio_do _ r = r"

definition radio_on :: radio where "radio_on = \<lparr>ra_link = True, ra_auto = True\<rparr>"

text \<open>The state the saver believes in, as a state of the radio.\<close>

definition saver_radio :: "saver \<Rightarrow> radio" where
  "saver_radio s =
     (if \<not> sv_parked s then radio_on
      else if sv_method s = Some (lit ''down'') then \<lparr>ra_link = (sv_discover_until s \<noteq> None), ra_auto = True\<rparr>
      else \<lparr>ra_link = True, ra_auto = False\<rparr>)"

definition saver_ok :: "saver \<Rightarrow> bool" where
  "saver_ok s \<longleftrightarrow>
     (if sv_parked s then sv_method s \<in> {Some (lit ''down''), Some (lit ''disconnect'')} \<and> sv_parked_at s \<noteq> None
      else sv_method s = None \<and> sv_parked_at s = None \<and> sv_discover_until s = None)"

definition last_save :: "radio_cmd list \<Rightarrow> bool \<Rightarrow> bool" where
  "last_save cs p = foldl (\<lambda>p c. case c of SaveState n \<Rightarrow> sn_parked n | _ \<Rightarrow> p) p cs"

lemma lit_methods [simp]: "lit ''disconnect'' \<noteq> lit ''down''" "lit ''down'' \<noteq> lit ''disconnect''"
  by (simp_all add: lit_def)

lemma new_saver_ok: "saver_ok new_saver \<and> saver_radio new_saver = radio_on"
  by (simp add: saver_ok_def new_saver_def saver_radio_def)

text \<open>One operation: the invariant, the radio and the saved flag afterwards.\<close>

definition op_ok :: "saver \<Rightarrow> saver \<times> radio_cmd list \<Rightarrow> bool" where
  "op_ok s out \<longleftrightarrow> saver_ok (fst out) \<and> fold radio_do (snd out) (saver_radio s) = saver_radio (fst out) \<and>
     last_save (snd out) (sv_parked s) = sv_parked (fst out)"

lemma unpark_ok: "op_ok s (unpark why s')"
  by (simp add: op_ok_def unpark_def Let_def saver_ok_def saver_radio_def radio_on_def last_save_def snapshot_def)

lemma park_ok: "saver_ok s \<Longrightarrow> \<not> sv_parked s \<Longrightarrow> op_ok s (park meth now cfg (s\<lparr>sv_eligible_since := x\<rparr>))"
  by (simp add: op_ok_def park_def Let_def saver_ok_def saver_radio_def radio_on_def last_save_def snapshot_def)

lemma start_ok:
  "saver_ok s \<Longrightarrow> sv_parked s \<Longrightarrow> sv_discover_until s = None \<Longrightarrow> op_ok s (start_discovery now cfg s)"
  by (auto simp: op_ok_def start_discovery_def saver_ok_def saver_radio_def last_save_def)

lemma finish_ok:
  assumes "saver_ok s" and "sv_parked s" and "sv_discover_until s = Some u"
  shows "op_ok s (finish_discovery e now cfg w s)"
proof -
  have pre: "op_ok s (s1, cs) \<Longrightarrow> op_ok s (s1, [WpaListNetworks, WpaScanResults] @ cs)" for s1 cs
    by (simp add: op_ok_def last_save_def)
  show ?thesis
  proof (cases "sv_method s = Some (lit ''down'')")
    case True
    then show ?thesis using assms unpark_ok
      by (simp add: finish_discovery_def Let_def)
        (simp add: op_ok_def saver_ok_def saver_radio_def last_save_def snapshot_def)
  next
    case False
    have "op_ok s (s\<lparr>sv_discover_until := None, sv_next_discover := n\<rparr>, [WpaListNetworks, WpaScanResults, WpaDisconnect,
        SaveState (snapshot (s\<lparr>sv_discover_until := None, sv_next_discover := n\<rparr>))])" for n
      using False assms by (simp add: op_ok_def saver_ok_def saver_radio_def last_save_def snapshot_def)
    then show ?thesis using False pre [of "fst (unpark r s')" "snd (unpark r s')" for r s'] unpark_ok
      by (simp add: finish_discovery_def Let_def case_prod_unfold)
  qed
qed

lemma saver_step_ok:
  assumes "saver_ok s"
  shows "op_ok s (saver_run_step s i)"
proof -
  have still: "op_ok s (s\<lparr>sv_eligible_since := x\<rparr>, [])" for x
    using assms by (auto simp: op_ok_def saver_ok_def saver_radio_def last_save_def)
  from still [of "sv_eligible_since s"] have same: "op_ok s (s, [])" by simp
  show ?thesis unfolding saver_run_step_def saver_step_def Let_def
    using assms by (auto simp: still same unpark_ok park_ok start_ok finish_ok split: option.splits)
qed

lemma saver_run_ok:
  assumes "run_chunks saver_run_step s ins = (s', cs)" and "saver_ok s"
  shows "saver_ok s' \<and> fold radio_do cs (saver_radio s) = saver_radio s' \<and> last_save cs (sv_parked s) = sv_parked s'"
  using assms
proof (induction ins arbitrary: s cs)
  case (Cons i ins)
  obtain s1 c1 where st: "saver_run_step s i = (s1, c1)" by fastforce
  obtain c2 where r: "run_chunks saver_run_step s1 ins = (s', c2)" and cs: "cs = c1 @ c2"
    using Cons.prems(1) by (auto simp: st split: prod.splits)
  have "saver_ok s1 \<and> fold radio_do c1 (saver_radio s) = saver_radio s1 \<and> last_save c1 (sv_parked s) = sv_parked s1"
    using saver_step_ok [OF Cons.prems(2), of i] by (simp add: st op_ok_def)
  with Cons.IH [OF r] show ?case by (simp add: cs last_save_def)
qed (auto simp: last_save_def)

text \<open>
  C31. The commands of any run put the radio where the saver believes it to be: whenever Wi-Fi is not parked
  the interface is up and the supplicant connects by itself again; parked, exactly one of the two is
  off (but for a running discovery). The state file last written says whether Wi-Fi is parked, so the
  recovery after a crash gives it back exactly when it has to.
\<close>

theorem saver_radio_refines:
  assumes "run_chunks saver_run_step new_saver ins = (s, cs)"
  shows "fold radio_do cs radio_on = saver_radio s \<and> last_save cs False = sv_parked s \<and>
    (\<not> sv_parked s \<longrightarrow> fold radio_do cs radio_on = radio_on) \<and>
    fold radio_do (cs @ snd (unpark why s)) radio_on = radio_on"
proof -
  have "sv_parked new_saver = False" by (simp add: new_saver_def)
  then have a: "fold radio_do cs radio_on = saver_radio s" "last_save cs False = sv_parked s"
    using saver_run_ok [OF assms] new_saver_ok by simp_all
  moreover have "fold radio_do (snd (unpark why s)) r = radio_on" for r
    by (simp add: unpark_def Let_def radio_on_def)
  ultimately show ?thesis by (simp add: saver_radio_def)
qed

lemma saver_ineligible: "\<not> si_eligible i \<Longrightarrow> \<not> sv_parked (saver_next s i)"
  by (simp add: saver_next_def saver_ops)

lemma saver_parks:
  "\<not> sv_parked s \<Longrightarrow> sv_parked (saver_next s i) \<Longrightarrow>
   \<exists>t. sv_eligible_since (saver_next s i) = Some t \<and> cf_saver_grace (si_cfg i) \<le> si_now i - t"
  by (cases "si_eligible i"; cases "sv_eligible_since s")
    (simp_all add: saver_next_def saver_ops split: if_splits)

lemma finish_unparks:
  "sv_parked s \<Longrightarrow> \<not> sv_parked (fst (finish_discovery e now cfg w s)) \<Longrightarrow>
   w \<or> se_carrier e = lit ''1'' \<or> known_ssids (se_digit e) (se_networks e) \<inter> seen_ssids (se_results e) \<noteq> {}"
  by (auto simp: finish_discovery_def unpark_def Let_def split: if_splits)

lemma saver_unparks:
  assumes "sv_parked s" and "\<not> sv_parked (saver_next s i)" and "si_eligible i"
  shows "Some (cf_saver_method (si_cfg i)) \<noteq> sv_method s \<or>
    \<not> sv_parked (fst (finish_discovery (si_env i) (si_now i) (si_cfg i) (si_wifi i) s))"
  using assms unfolding saver_next_def saver_run_step_def saver_step_def
  by (cases "sv_discover_until s") (auto simp: start_discovery_def split: if_splits)

text \<open>
  Wi-Fi is parked only after the conditions have held for the whole grace period, in every tick of
  it; a tick in which they do not hold leaves Wi-Fi not parked; and a look for networks that
  finds nothing ends with Wi-Fi parked as before.
\<close>

theorem saver_grace:
  assumes "s = run_steps saver_next new_saver ins"
  shows "(\<not> sv_parked s \<and> sv_parked (saver_next s i) \<longrightarrow>
       (\<exists>t. held_since si_now (\<lambda>i. \<not> si_eligible i) (ins @ [i]) t \<and> cf_saver_grace (si_cfg i) \<le> si_now i - t)) \<and>
    (\<not> si_eligible i \<longrightarrow> \<not> sv_parked (saver_next s i)) \<and>
    (sv_parked s \<and> \<not> sv_parked (saver_next s i) \<longrightarrow>
       \<not> si_eligible i \<or> sv_method s \<noteq> Some (cf_saver_method (si_cfg i)) \<or>
       si_wifi i \<or> se_carrier (si_env i) = lit ''1'' \<or>
       known_ssids (se_digit (si_env i)) (se_networks (si_env i)) \<inter> seen_ssids (se_results (si_env i)) \<noteq> {})"
proof -
  have new: "sv_eligible_since new_saver = None" by (simp add: new_saver_def)
  have since: "sv_eligible_since (saver_next s i) = Some t \<Longrightarrow>
      held_since si_now (\<lambda>i. \<not> si_eligible i) (ins @ [i]) t" for t
    using saver_timer.since_held [OF TrueI new, of "ins @ [i]" t] assms by simp
  show ?thesis using since saver_parks [of s i] saver_ineligible [of i s] saver_unparks [of s i]
      finish_unparks [of s "si_env i" "si_now i" "si_cfg i" "si_wifi i"] by metis
qed

text \<open>
  A method that is neither of the two (a typing error in the configuration) is parked as
  \<open>disconnect\<close> but never equal to the configured one, so the next tick gives Wi-Fi back: the saver parks and
  unparks for ever, once per grace period.
\<close>

lemma unknown_method_flaps:
  assumes "cf_saver_method cfg \<notin> {lit ''down'', lit ''disconnect''}" and "sv_eligible_since s = Some t"
    and "\<not> sv_parked s" and "cf_saver_grace cfg \<le> now - t"
  shows "sv_parked (fst (saver_step e now cfg True [] w s))"
    and "\<not> sv_parked (fst (saver_step e2 later cfg True [] w2 (fst (saver_step e now cfg True [] w s))))"
  using assms by (auto simp: saver_step_def park_def unpark_def Let_def)

text \<open>A file saved while Wi-Fi was parked makes the next start give it back; any other object does nothing.\<close>

lemma recover_parked:
  assumes "Option.bind file json_loads = Some (JObj kvs)"
  shows "saver_recover_at_start file =
    Inr (if truthy (jget (JObj kvs) ''parked'') then (True, snd (unpark (lit ''daemon_start'') new_saver)) else (False, []))"
  using assms by (simp add: saver_recover_at_start_def is_obj_def)

definition demo_tick :: "time \<Rightarrow> saver_in" where
  "demo_tick t = \<lparr>si_env = \<lparr>se_networks = [], se_results = [], se_carrier = [], se_digit = is_digit\<rparr>,
     si_now = t, si_cfg = CONFIG, si_eligible = True, si_why = [], si_wifi = False\<rparr>"

lemma saver_radio_refines_witness:
  "fold radio_do (snd (run_chunks saver_run_step new_saver [demo_tick 0, demo_tick 61])) radio_on =
     \<lparr>ra_link = True, ra_auto = False\<rparr>"
proof -
  obtain s cs where r: "run_chunks saver_run_step new_saver [demo_tick 0, demo_tick 61] = (s, cs)" by fastforce
  then have "fst (run_chunks saver_run_step new_saver [demo_tick 0, demo_tick 61]) = s" by simp
  then have "saver_radio s = \<lparr>ra_link = True, ra_auto = False\<rparr>"
    by (auto simp: saver_run_fst saver_next_def saver_ops demo_tick_def new_saver_def CONFIG_def saver_radio_def)
  then show ?thesis using saver_radio_refines [OF r] r by simp
qed

lemma saver_grace_witness:
  "\<exists>t. held_since si_now (\<lambda>i. \<not> si_eligible i) [demo_tick 0, demo_tick 61] t \<and> 60 \<le> 61 - t"
proof -
  have "\<not> sv_parked (run_steps saver_next new_saver [demo_tick 0])"
    "sv_parked (saver_next (run_steps saver_next new_saver [demo_tick 0]) (demo_tick 61))"
    by (simp_all add: saver_next_def saver_ops demo_tick_def new_saver_def CONFIG_def)
  with saver_grace [OF refl, of "[demo_tick 0]" "demo_tick 61"] show ?thesis by (simp add: demo_tick_def CONFIG_def)
qed

end
