(* ===== verification/Policy_Tick.thy ===== *)
theory Policy_Tick
  imports Wifi_Saver
begin

text \<open>
  One tick of the uplink daemon: the class \<open>Policy\<close> of \<^verbatim>\<open>network/s22-netpolicy.py\<close>, and runs of ticks.
  What the tick observes is the record \<open>tick_env\<close>; what it does is a list of actions. A call of \<open>ip\<close> that
  raises (its time limit) ends the tick with the state as it is; the main loop catches it. The modem
  daemon always answers an object. Logging and the status file are left out.
\<close>

section \<open>State, observations and actions\<close>

record policy =
  po_fails :: link_fails
  po_probe_wifi :: "time option"
  po_probe_mobile :: "time option"
  po_uplink :: "uplink option"
  po_since :: time
  po_wifi_ok :: "time option"
  po_last_dial :: time
  po_last_redial :: time
  po_paused_seen :: "bool option"
  po_saver :: saver

definition new_policy :: "time \<Rightarrow> policy" where
  "new_policy now = \<lparr>po_fails = \<lparr>fl_wifi = 0, fl_mobile = 0\<rparr>, po_probe_wifi = None, po_probe_mobile = None,
     po_uplink = None, po_since = now, po_wifi_ok = None, po_last_dial = 0, po_last_redial = 0,
     po_paused_seen = None, po_saver = new_saver\<rparr>"

text \<open>
  \<open>te_sys\<close> is what \<open>links\<close> reads the first time, after a repair and after a dial; \<open>te_ip\<close> says which
  calls of \<open>ip\<close> return.
\<close>

record tick_env =
  te_now :: time
  te_paused :: bool
  te_mobile :: json
  te_mobile2 :: json
  te_sys :: "nat \<Rightarrow> pyerr + sys_facts"
  te_lease :: "dhcp_lease option"
  te_addr :: "pyerr + pystr"
  te_probe :: "uplink \<Rightarrow> pystr list \<Rightarrow> bool"
  te_ip :: "pystr list \<Rightarrow> bool"
  te_resolv :: pystr
  te_display :: pystr
  te_saver_off :: bool
  te_hold :: "time option"
  te_saver :: saver_env
  te_lib :: pylib

datatype policy_act = Probed uplink bool | DataUp | DataDown | IpRun "pystr list" | WriteResolv pystr
  | SaverDo "radio_cmd list"

type_synonym tick_out = "policy \<times> policy_act list \<times> (pyerr + unit)"

definition read_links :: "tick_env \<Rightarrow> nat \<Rightarrow> json \<Rightarrow> pyerr + link_facts" where
  "read_links e k mobile = try_r (te_sys e k) (\<lambda>sy. links (te_lib e) sy mobile)"

section \<open>The stages of a tick\<close>

text \<open>The repair runs \<open>ip addr\<close> only with a lease that has both fields, and then the route command.\<close>

definition repair_reads :: "link_facts \<Rightarrow> dhcp_lease option \<Rightarrow> bool" where
  "repair_reads lk le \<longleftrightarrow>
     lk_wifi_oper lk = lit ''up'' \<and> (lk_wifi_gw lk = None \<or> lk_wifi_gw lk = Some []) \<and>
     (case le of None \<Rightarrow> False | Some l \<Rightarrow> le_gateway l \<noteq> [] \<and> le_address l \<noteq> [])"

definition repair_stage :: "tick_env \<Rightarrow> link_facts \<Rightarrow> policy_act list \<times> (pyerr + link_facts)" where
  "repair_stage e lk =
     (if \<not> repair_reads lk (te_lease e) then ([], Inr lk)
      else (case te_addr e of
              Inl x \<Rightarrow> ([], Inl x)
            | Inr out \<Rightarrow>
                (case wifi_route_repair lk (te_lease e) out of
                   None \<Rightarrow> ([], Inr lk)
                 | Some args \<Rightarrow> ([IpRun args], if te_ip e args then read_links e 1 (te_mobile e) else Inl OSError))))"

definition probe_due :: "time option \<Rightarrow> policy_cfg \<Rightarrow> time \<Rightarrow> bool" where
  "probe_due prev cfg now \<longleftrightarrow> cf_probe_every cfg \<le> now - (case prev of Some t \<Rightarrow> t | None \<Rightarrow> 0)"

text \<open>\<open>probe_due(n) or (fails[n] and now - last_probe[n] >= 8)\<close>\<close>

definition probe_wanted :: "nat \<Rightarrow> time option \<Rightarrow> policy_cfg \<Rightarrow> time \<Rightarrow> pyerr + bool" where
  "probe_wanted fails prev cfg now =
     (if probe_due prev cfg now then Inr True
      else if fails = 0 then Inr False
      else (case prev of None \<Rightarrow> Inl KeyError | Some t \<Rightarrow> Inr (8 \<le> now - t)))"

definition probe_wifi :: "tick_env \<Rightarrow> policy_cfg \<Rightarrow> link_facts \<Rightarrow> policy \<Rightarrow> tick_out" where
  "probe_wifi e cfg lk po =
     (if wifi_present lk then
        (case probe_wanted (fl_wifi (po_fails po)) (po_probe_wifi po) cfg (te_now e) of
           Inl x \<Rightarrow> (po, [], Inl x)
         | Inr False \<Rightarrow> (po, [], Inr ())
         | Inr True \<Rightarrow>
             (let dns = (if lk_wifi_dns lk = [] then (case lk_wifi_gw lk of Some g \<Rightarrow> [g] | None \<Rightarrow> []) else lk_wifi_dns lk);
                  ok = probe (te_probe e Wifi) dns cfg
              in (po\<lparr>po_probe_wifi := Some (te_now e),
                     po_fails := (po_fails po)\<lparr>fl_wifi := (if ok then 0 else fl_wifi (po_fails po) + 1)\<rparr>\<rparr>,
                  [Probed Wifi ok], Inr ())))
      else (po\<lparr>po_probe_wifi := None, po_fails := (po_fails po)\<lparr>fl_wifi := 0\<rparr>\<rparr>, [], Inr ()))"

definition probe_mobile :: "tick_env \<Rightarrow> policy_cfg \<Rightarrow> link_facts \<Rightarrow> policy \<Rightarrow> tick_out" where
  "probe_mobile e cfg lk po =
     (if mobile_present lk \<and> po_uplink po = Some Mobile then
        (case probe_wanted (fl_mobile (po_fails po)) (po_probe_mobile po) cfg (te_now e) of
           Inl x \<Rightarrow> (po, [], Inl x)
         | Inr False \<Rightarrow> (po, [], Inr ())
         | Inr True \<Rightarrow>
             (let ok = probe (te_probe e Mobile) (lk_mobile_dns lk) cfg
              in (po\<lparr>po_probe_mobile := Some (te_now e),
                     po_fails := (po_fails po)\<lparr>fl_mobile := (if ok then 0 else fl_mobile (po_fails po) + 1)\<rparr>\<rparr>,
                  [Probed Mobile ok], Inr ())))
      else if \<not> mobile_present lk then
        (po\<lparr>po_probe_mobile := None, po_fails := (po_fails po)\<lparr>fl_mobile := 0\<rparr>\<rparr>, [], Inr ())
      else (po, [], Inr ()))"

text \<open>\<open>x or now\<close> and the truth of a time: 0.0 counts as unset.\<close>

definition set_time :: "time option \<Rightarrow> time option" where
  "set_time t = (if t = Some 0 then None else t)"

definition note_wifi :: "uplink option \<Rightarrow> tick_env \<Rightarrow> policy_cfg \<Rightarrow> policy \<Rightarrow> policy" where
  "note_wifi up e cfg po =
     po\<lparr>po_wifi_ok :=
       (if up = Some Wifi \<and> fl_wifi (po_fails po) < cf_probe_fail_n cfg
        then Some (case set_time (po_wifi_ok po) of Some t \<Rightarrow> t | None \<Rightarrow> te_now e) else None)\<rparr>"

definition mobile_up :: "link_facts \<Rightarrow> bool" where
  "mobile_up lk \<longleftrightarrow> lk_mobile_state lk = JStr (lit ''up'')"

definition dial_wanted :: "tick_env \<Rightarrow> policy_cfg \<Rightarrow> link_facts \<Rightarrow> bool \<Rightarrow> policy \<Rightarrow> bool" where
  "dial_wanted e cfg lk want po \<longleftrightarrow>
     want \<and> \<not> mobile_up lk \<and> lk_modem lk = JStr (lit ''ONLINE'') \<and> cf_mobile_retry cfg \<le> te_now e - po_last_dial po"

definition release_wanted :: "tick_env \<Rightarrow> policy_cfg \<Rightarrow> link_facts \<Rightarrow> bool \<Rightarrow> policy \<Rightarrow> bool" where
  "release_wanted e cfg lk want po \<longleftrightarrow>
     \<not> want \<and> mobile_up lk \<and> cf_mobile_mode cfg \<noteq> lit ''always'' \<and>
     (case set_time (po_wifi_ok po) of None \<Rightarrow> False | Some t \<Rightarrow> cf_mobile_hold cfg \<le> te_now e - t)"

definition redial_wanted :: "tick_env \<Rightarrow> policy_cfg \<Rightarrow> uplink option \<Rightarrow> policy \<Rightarrow> bool" where
  "redial_wanted e cfg up po \<longleftrightarrow>
     up = Some Mobile \<and> cf_redial_after cfg \<le> fl_mobile (po_fails po) \<and>
     cf_redial_min cfg \<le> te_now e - po_last_redial po"

definition manage_data ::
    "tick_env \<Rightarrow> policy_cfg \<Rightarrow> link_facts \<Rightarrow> uplink option \<Rightarrow> bool \<Rightarrow> policy \<Rightarrow> policy \<times> policy_act list" where
  "manage_data e cfg lk up want po =
     (if dial_wanted e cfg lk want po then (po\<lparr>po_last_dial := te_now e\<rparr>, [DataUp])
      else if release_wanted e cfg lk want po then (po, [DataDown])
      else if redial_wanted e cfg up po then
        (po\<lparr>po_last_redial := te_now e, po_fails := (po_fails po)\<lparr>fl_mobile := 0\<rparr>\<rparr>, [DataDown, DataUp])
      else (po, []))"

text \<open>The commands of the plan in order; one that raises ends the tick.\<close>

fun run_routes :: "tick_env \<Rightarrow> route_cmd list \<Rightarrow> policy_act list \<times> (pyerr + unit)" where
  "run_routes e [] = ([], Inr ())"
| "run_routes e (c # cs) =
     (case route_args c of
        Inl x \<Rightarrow> ([], Inl x)
      | Inr args \<Rightarrow>
          if te_ip e args then (let (acts, r) = run_routes e cs in (IpRun args # acts, r))
          else ([IpRun args], Inl OSError))"

definition write_dns :: "tick_env \<Rightarrow> policy_cfg \<Rightarrow> uplink option \<Rightarrow> link_facts \<Rightarrow> policy_act list" where
  "write_dns e cfg up lk =
     (if cf_manage_dns cfg then
        (case resolv_for up lk cfg of
           Some want \<Rightarrow> if want \<noteq> [] \<and> te_resolv e @ [10] \<noteq> want then [WriteResolv want] else []
         | None \<Rightarrow> [])
      else [])"

definition saver_stage :: "tick_env \<Rightarrow> policy_cfg \<Rightarrow> uplink option \<Rightarrow> link_facts \<Rightarrow> policy \<Rightarrow> policy \<times> policy_act list" where
  "saver_stage e cfg up lk po =
     (let (el, why) = saver_eligible cfg (te_display e) up (wifi_present lk) False (te_saver_off e)
                        (saver_hold_active (te_now e) (te_hold e));
          (s1, cs) = saver_step (te_saver e) (te_now e) cfg el why (wifi_present lk) (po_saver po)
      in (po\<lparr>po_saver := s1\<rparr>, [SaverDo cs]))"

text \<open>From the routes on: routing table, resolver, saver, uplink.\<close>

definition apply_stage :: "tick_env \<Rightarrow> policy_cfg \<Rightarrow> uplink option \<Rightarrow> link_facts \<Rightarrow> policy \<Rightarrow> tick_out" where
  "apply_stage e cfg up lk po =
     (case run_routes e (route_plan up lk) of
        (acts, Inl x) \<Rightarrow> (po, acts, Inl x)
      | (acts, Inr _) \<Rightarrow>
          (let (po1, a1) = saver_stage e cfg up lk po;
               po2 = (if up = po_uplink po1 then po1 else po1\<lparr>po_uplink := up, po_since := te_now e\<rparr>)
           in (po2, acts @ write_dns e cfg up lk @ a1, Inr ())))"

text \<open>The uplink is chosen again from fresh facts when mobile data is wanted but was not up.\<close>

definition dial_stage :: "tick_env \<Rightarrow> policy_cfg \<Rightarrow> link_facts \<Rightarrow> policy \<Rightarrow> tick_out" where
  "dial_stage e cfg lk po =
     (let (up, want) = choose_uplink lk (po_fails po) cfg;
          (po1, acts) = manage_data e cfg lk up want (note_wifi up e cfg po)
      in if \<not> mobile_up lk \<and> (want \<or> jget (te_mobile e) ''state'' = JNull) then
           (case read_links e 2 (te_mobile2 e) of
              Inl x \<Rightarrow> (po1, acts, Inl x)
            | Inr lk2 \<Rightarrow>
                (let (po2, a2, r) = apply_stage e cfg (fst (choose_uplink lk2 (po_fails po1) cfg)) lk2 po1
                 in (po2, acts @ a2, r)))
         else (let (po2, a2, r) = apply_stage e cfg up lk po1 in (po2, acts @ a2, r)))"

definition andThen :: "tick_out \<Rightarrow> (policy \<Rightarrow> tick_out) \<Rightarrow> tick_out" where
  "andThen m f =
     (case m of
        (po, acts, Inl x) \<Rightarrow> (po, acts, Inl x)
      | (po, acts, Inr _) \<Rightarrow> (let (po1, a1, r) = f po in (po1, acts @ a1, r)))"

definition tick :: "tick_env \<Rightarrow> policy_cfg \<Rightarrow> policy \<Rightarrow> tick_out" where
  "tick e cfg po =
     (let po = po\<lparr>po_paused_seen := Some (te_paused e)\<rparr> in
      case read_links e 0 (te_mobile e) of
        Inl x \<Rightarrow> (po, [], Inl x)
      | Inr lk \<Rightarrow>
          if te_paused e then
            (if sv_parked (po_saver po) then
               (let (s1, cs) = unpark (lit ''paused'') (po_saver po) in (po\<lparr>po_saver := s1\<rparr>, [SaverDo cs], Inr ()))
             else (po, [], Inr ()))
          else (case repair_stage e lk of
                  (acts, Inl x) \<Rightarrow> (po, acts, Inl x)
                | (acts, Inr lk1) \<Rightarrow>
                    andThen (po, acts, Inr ()) (\<lambda>po.
                    andThen (probe_wifi e cfg lk1 po) (\<lambda>po.
                    andThen (probe_mobile e cfg lk1 po) (dial_stage e cfg lk1)))))"

section \<open>What a tick does to the mobile data call\<close>

definition is_data :: "policy_act \<Rightarrow> bool" where
  "is_data a \<longleftrightarrow> a = DataUp \<or> a = DataDown"

text \<open>The state the probes and the timers keep; the later stages of a tick leave it alone.\<close>

definition same_timers :: "policy \<Rightarrow> policy \<Rightarrow> bool" where
  "same_timers p q \<longleftrightarrow> po_fails p = po_fails q \<and> po_probe_wifi p = po_probe_wifi q \<and> po_probe_mobile p = po_probe_mobile q \<and>
     po_wifi_ok p = po_wifi_ok q \<and> po_last_dial p = po_last_dial q \<and> po_last_redial p = po_last_redial q"

definition data_acts :: "tick_out \<Rightarrow> policy_act list" where
  "data_acts out = filter is_data (fst (snd out))"

lemma run_routes_acts: "run_routes e cs = (acts, r) \<Longrightarrow> filter is_data acts = []"
  by (induction cs arbitrary: acts r) (auto simp: is_data_def split: sum.splits if_splits prod.splits)

lemma write_dns_acts: "filter is_data (write_dns e cfg up lk) = []"
proof -
  have a: "filter is_data (if b then if c then [WriteResolv w] else [] else []) = []" for b c w by (simp add: is_data_def)
  show ?thesis by (cases "resolv_for up lk cfg") (simp_all only: write_dns_def option.case a if_cancel filter.simps)
qed

lemma saver_stage_same:
  "same_timers (fst (saver_stage e cfg up lk po)) po \<and> filter is_data (snd (saver_stage e cfg up lk po)) = [] \<and>
   po_uplink (fst (saver_stage e cfg up lk po)) = po_uplink po"
  by (simp add: saver_stage_def same_timers_def is_data_def case_prod_unfold Let_def)

lemma apply_stage_data: "data_acts (apply_stage e cfg up lk po) = [] \<and> same_timers (fst (apply_stage e cfg up lk po)) po"
proof -
  obtain acts r where rr: "run_routes e (route_plan up lk) = (acts, r)" by fastforce
  obtain p1 a1 where ss: "saver_stage e cfg up lk po = (p1, a1)" by fastforce
  have same: "same_timers (p1\<lparr>po_uplink := u, po_since := n\<rparr>) po" "same_timers p1 po" "filter is_data a1 = []" for u n
    using saver_stage_same [of e cfg up lk po] by (simp_all add: ss same_timers_def)
  show ?thesis
  proof (cases r)
    case (Inl x)
    then show ?thesis using run_routes_acts [OF rr] by (simp add: apply_stage_def rr data_acts_def same_timers_def)
  next
    case (Inr u)
    then show ?thesis using run_routes_acts [OF rr] same by (simp add: apply_stage_def rr ss data_acts_def write_dns_acts)
  qed
qed

text \<open>One tick's effect on the call, its time stamps and the Wi-Fi timer.\<close>

definition data_effect :: "tick_env \<Rightarrow> policy_cfg \<Rightarrow> policy \<Rightarrow> tick_out \<Rightarrow> bool" where
  "data_effect e cfg po out \<longleftrightarrow>
     (let ds = data_acts out; q = fst out in
      (ds \<noteq> [DataUp] \<longrightarrow> po_last_dial q = po_last_dial po) \<and>
      (ds \<noteq> [DataDown, DataUp] \<longrightarrow> po_last_redial q = po_last_redial po) \<and>
      ds \<in> {[], [DataUp], [DataDown], [DataDown, DataUp]} \<and>
      (ds = [DataUp] \<longrightarrow> cf_mobile_retry cfg \<le> te_now e - po_last_dial po \<and> po_last_dial q = te_now e) \<and>
      (ds = [DataDown] \<longrightarrow> (\<exists>t. po_wifi_ok q = Some t \<and> cf_mobile_hold cfg \<le> te_now e - t)) \<and>
      (ds = [DataDown, DataUp] \<longrightarrow> cf_redial_min cfg \<le> te_now e - po_last_redial po \<and> po_last_redial q = te_now e) \<and>
      (\<forall>t. po_wifi_ok q = Some t \<longrightarrow> po_wifi_ok po = Some t \<or> te_now e = t))"

lemma data_effect_quiet:
  "data_acts out = [] \<Longrightarrow> po_last_dial (fst out) = po_last_dial po \<Longrightarrow> po_last_redial (fst out) = po_last_redial po \<Longrightarrow>
   po_wifi_ok (fst out) = po_wifi_ok po \<Longrightarrow> data_effect e cfg po out"
  by (simp add: data_effect_def)

lemma note_wifi_facts:
  "po_last_dial (note_wifi up e cfg po) = po_last_dial po" "po_last_redial (note_wifi up e cfg po) = po_last_redial po"
  "po_wifi_ok (note_wifi up e cfg po) = Some t \<Longrightarrow> po_wifi_ok po = Some t \<or> te_now e = t"
  by (auto simp: note_wifi_def set_time_def split: if_splits option.splits)

lemma manage_effect:
  assumes "manage_data e cfg lk up want p = (q, acts)" and "p = note_wifi up2 e cfg po"
  shows "data_effect e cfg po (q, acts, r)"
proof -
  note n = note_wifi_facts [of up2 e cfg po, folded assms(2)]
  have w: "\<forall>t. po_wifi_ok p = Some t \<longrightarrow> po_wifi_ok po = Some t \<or> te_now e = t" using n(3) by blast
  consider (dial) "dial_wanted e cfg lk want p" | (release) "\<not> dial_wanted e cfg lk want p" "release_wanted e cfg lk want p"
    | (redial) "\<not> dial_wanted e cfg lk want p" "\<not> release_wanted e cfg lk want p" "redial_wanted e cfg up p"
    | (none) "\<not> dial_wanted e cfg lk want p" "\<not> release_wanted e cfg lk want p" "\<not> redial_wanted e cfg up p" by blast
  then show ?thesis
  proof cases
    case dial
    then show ?thesis using assms(1) w n(1,2)
      by (auto simp: manage_data_def data_effect_def data_acts_def is_data_def dial_wanted_def Let_def)
  next
    case release
    then obtain t where "po_wifi_ok p = Some t" "cf_mobile_hold cfg \<le> te_now e - t"
      by (auto simp: release_wanted_def set_time_def split: option.splits if_splits)
    then show ?thesis using assms(1) release w n(1,2)
      by (auto simp: manage_data_def data_effect_def data_acts_def is_data_def Let_def)
  next
    case redial
    then show ?thesis using assms(1) w n(1,2)
      by (auto simp: manage_data_def data_effect_def data_acts_def is_data_def redial_wanted_def Let_def)
  next
    case none
    then show ?thesis using assms(1) w n(1,2)
      by (auto simp: manage_data_def data_effect_def data_acts_def Let_def)
  qed
qed

lemma data_effect_more:
  assumes "data_effect e cfg po (p, acts, r)" and "filter is_data a2 = []" and "same_timers q p"
  shows "data_effect e cfg po (q, acts @ a2, r2)"
  using assms by (simp add: data_effect_def data_acts_def same_timers_def Let_def)

lemma dial_stage_effect: "data_effect e cfg po (dial_stage e cfg lk po)"
proof -
  obtain up want where c: "choose_uplink lk (po_fails po) cfg = (up, want)" by fastforce
  obtain p acts where m: "manage_data e cfg lk up want (note_wifi up e cfg po) = (p, acts)" by fastforce
  have me: "data_effect e cfg po (p, acts, r)" for r using manage_effect [OF m refl] .
  have more: "data_effect e cfg po (case apply_stage e cfg u l p of (po2, a2, r) \<Rightarrow> (po2, acts @ a2, r))" for u l
    using data_effect_more [OF me] apply_stage_data [of e cfg u l p]
    by (auto simp: data_acts_def split: prod.splits)
  show ?thesis using me more by (auto simp: dial_stage_def c m Let_def split: sum.splits)
qed

lemma probe_stages_quiet:
  assumes "out = probe_wifi e cfg lk po \<or> out = probe_mobile e cfg lk po"
  shows "data_acts out = [] \<and> po_last_dial (fst out) = po_last_dial po \<and> po_last_redial (fst out) = po_last_redial po \<and>
    po_wifi_ok (fst out) = po_wifi_ok po"
  using assms by (auto simp: probe_wifi_def probe_mobile_def data_acts_def is_data_def Let_def split: sum.splits bool.splits)

lemma repair_quiet: "repair_stage e lk = (acts, r) \<Longrightarrow> filter is_data acts = []"
  by (auto simp: repair_stage_def is_data_def split: if_splits sum.splits option.splits)

lemma andThen_effect:
  assumes "data_acts m = [] \<and> po_last_dial (fst m) = po_last_dial po \<and> po_last_redial (fst m) = po_last_redial po \<and>
      po_wifi_ok (fst m) = po_wifi_ok po" and "data_effect e cfg (fst m) (f (fst m))"
  shows "data_effect e cfg po (andThen m f)"
proof -
  obtain p acts r where m: "m = (p, acts, r)" by (cases m)
  obtain p1 a1 r1 where f: "f p = (p1, a1, r1)" by (cases "f p")
  have "data_acts (p1, acts @ a1, r1) = data_acts (p1, a1, r1)" using assms(1) by (simp add: m data_acts_def)
  then have "data_effect e cfg po (p1, acts @ a1, r1)" using assms by (simp add: m f data_effect_def Let_def)
  then show ?thesis using assms(1) data_effect_quiet [of m po e cfg] by (cases r) (simp_all add: m f andThen_def)
qed

lemma tick_effect: "data_effect e cfg po (tick e cfg po)"
proof -
  let ?po = "po\<lparr>po_paused_seen := Some (te_paused e)\<rparr>"
  show ?thesis
  proof (cases "read_links e 0 (te_mobile e)")
    case (Inl x)
    then show ?thesis by (simp add: tick_def data_effect_quiet data_acts_def)
  next
    case (Inr lk)
    obtain acts r where rs: "repair_stage e lk = (acts, r)" by fastforce
    have rest: "data_effect e cfg po (andThen (?po, acts, Inr ()) (\<lambda>po. andThen (probe_wifi e cfg lk1 po) (\<lambda>po.
        andThen (probe_mobile e cfg lk1 po) (dial_stage e cfg lk1))))" for lk1
    proof (intro andThen_effect)
      show "data_acts (?po, acts, Inr ()) = [] \<and> po_last_dial (fst (?po, acts, Inr ())) = po_last_dial po \<and>
          po_last_redial (fst (?po, acts, Inr ())) = po_last_redial po \<and> po_wifi_ok (fst (?po, acts, Inr ())) = po_wifi_ok po"
        using repair_quiet [OF rs] by (simp add: data_acts_def)
    qed (use probe_stages_quiet [OF disjI1 [OF refl]] probe_stages_quiet [OF disjI2 [OF refl]] dial_stage_effect in \<open>simp_all\<close>)
    show ?thesis
    proof (cases "te_paused e")
      case True
      then show ?thesis by (auto simp: tick_def Inr Let_def unpark_def is_data_def data_acts_def intro!: data_effect_quiet)
    next
      case False
      then show ?thesis using rest repair_quiet [OF rs]
        by (cases r) (auto simp: tick_def Inr rs Let_def data_acts_def intro!: data_effect_quiet)
    qed
  qed
qed

section \<open>The invariant of the probes\<close>

text \<open>A link with failed probes has the time of the last one, so \<open>last_probe[name]\<close> is there when it is read.\<close>

definition po_inv :: "policy \<Rightarrow> bool" where
  "po_inv po \<longleftrightarrow> (fl_wifi (po_fails po) = 0 \<or> po_probe_wifi po \<noteq> None) \<and>
     (fl_mobile (po_fails po) = 0 \<or> po_probe_mobile po \<noteq> None)"

definition finished :: "tick_out \<Rightarrow> bool" where
  "finished out \<longleftrightarrow> snd (snd out) = Inr ()"

lemma new_policy_inv [simp]: "po_inv (new_policy t) \<and> po_wifi_ok (new_policy t) = None"
  by (simp add: po_inv_def new_policy_def)

lemma probe_wanted_ok: "fails = 0 \<or> prev \<noteq> None \<Longrightarrow> \<exists>b. probe_wanted fails prev cfg now = Inr b"
  by (auto simp: probe_wanted_def)

lemma po_inv_updates:
  assumes "po_inv po"
  shows "po_inv (po\<lparr>po_probe_wifi := Some t, po_fails := (po_fails po)\<lparr>fl_wifi := n\<rparr>\<rparr>)"
    "po_inv (po\<lparr>po_probe_wifi := p, po_fails := (po_fails po)\<lparr>fl_wifi := 0\<rparr>\<rparr>)"
    "po_inv (po\<lparr>po_probe_mobile := Some t, po_fails := (po_fails po)\<lparr>fl_mobile := n\<rparr>\<rparr>)"
    "po_inv (po\<lparr>po_probe_mobile := p, po_fails := (po_fails po)\<lparr>fl_mobile := 0\<rparr>\<rparr>)"
  using assms by (simp_all add: po_inv_def)

lemma probe_wifi_inv:
  assumes "po_inv po"
  shows "po_inv (fst (probe_wifi e cfg lk po)) \<and> finished (probe_wifi e cfg lk po)"
proof -
  obtain b where "probe_wanted (fl_wifi (po_fails po)) (po_probe_wifi po) cfg (te_now e) = Inr b"
    using probe_wanted_ok [of "fl_wifi (po_fails po)" "po_probe_wifi po" cfg "te_now e"] assms unfolding po_inv_def by blast
  then show ?thesis using assms
    by (cases b; cases "wifi_present lk") (simp_all add: probe_wifi_def finished_def Let_def po_inv_updates)
qed

lemma probe_mobile_inv:
  assumes "po_inv po"
  shows "po_inv (fst (probe_mobile e cfg lk po)) \<and> finished (probe_mobile e cfg lk po)"
proof -
  obtain b where "probe_wanted (fl_mobile (po_fails po)) (po_probe_mobile po) cfg (te_now e) = Inr b"
    using probe_wanted_ok [of "fl_mobile (po_fails po)" "po_probe_mobile po" cfg "te_now e"] assms unfolding po_inv_def by blast
  then show ?thesis using assms
    by (cases b; cases "mobile_present lk"; cases "po_uplink po = Some Mobile")
      (simp_all add: probe_mobile_def finished_def Let_def po_inv_updates)
qed

lemma manage_inv:
  "po_inv po \<Longrightarrow> po_inv (fst (manage_data e cfg lk up want (note_wifi u e cfg po)))"
  by (simp add: po_inv_def manage_data_def note_wifi_def)

lemma same_timers_inv: "same_timers p q \<Longrightarrow> po_inv q \<Longrightarrow> po_inv p"
  by (simp add: same_timers_def po_inv_def)

lemma dial_stage_inv:
  assumes "po_inv po"
  shows "po_inv (fst (dial_stage e cfg lk po)) \<and>
    (\<not> wifi_present lk \<longrightarrow> po_wifi_ok (fst (dial_stage e cfg lk po)) = None)"
proof -
  obtain up want where c: "choose_uplink lk (po_fails po) cfg = (up, want)" by fastforce
  obtain p acts where m: "manage_data e cfg lk up want (note_wifi up e cfg po) = (p, acts)" by fastforce
  have inv: "po_inv p" using manage_inv [OF assms, of e cfg lk up want up] by (simp add: m)
  have up: "\<not> wifi_present lk \<Longrightarrow> up \<noteq> Some Wifi" using c by (auto simp: choose_uplink_def wifi_good_def split: if_splits)
  have "po_wifi_ok p = po_wifi_ok (note_wifi up e cfg po)"
    using m by (auto simp: manage_data_def split: if_splits)
  then have ok: "\<not> wifi_present lk \<Longrightarrow> po_wifi_ok p = None" using up by (simp add: note_wifi_def)
  have ap: "po_inv (fst (apply_stage e cfg u l p)) \<and> po_wifi_ok (fst (apply_stage e cfg u l p)) = po_wifi_ok p" for u l
    using apply_stage_data [of e cfg u l p] same_timers_inv [OF _ inv] by (auto simp: same_timers_def)
  show ?thesis using inv ok ap
    by (cases "read_links e 2 (te_mobile2 e)") (simp_all add: dial_stage_def c m Let_def case_prod_unfold)
qed

lemma andThen_fst: "fst (andThen m f) = (if finished m then fst (f (fst m)) else fst m)"
  by (cases m; cases "snd (snd m)") (auto simp: andThen_def finished_def case_prod_unfold Let_def)

text \<open>The facts the stages of an unpaused tick work on; \<open>None\<close>: paused, or a command failed before.\<close>

definition tick_links :: "tick_env \<Rightarrow> link_facts option" where
  "tick_links e =
     (if te_paused e then None
      else (case read_links e 0 (te_mobile e) of
              Inl _ \<Rightarrow> None
            | Inr lk \<Rightarrow> (case snd (repair_stage e lk) of Inl _ \<Rightarrow> None | Inr lk1 \<Rightarrow> Some lk1)))"

lemma tick_inv:
  assumes "po_inv po"
  shows "po_inv (fst (tick e cfg po)) \<and>
    (case tick_links e of None \<Rightarrow> True
     | Some lk \<Rightarrow> \<not> wifi_present lk \<longrightarrow> po_wifi_ok (fst (tick e cfg po)) = None)"
proof -
  let ?po = "po\<lparr>po_paused_seen := Some (te_paused e)\<rparr>"
  have inv: "po_inv ?po" "po_inv (?po\<lparr>po_saver := s\<rparr>)" for s using assms by (simp_all add: po_inv_def)
  show ?thesis
  proof (cases "read_links e 0 (te_mobile e)")
    case (Inl x)
    then show ?thesis using inv by (simp add: tick_def tick_links_def)
  next
    case (Inr lk)
    obtain acts r where rs: "repair_stage e lk = (acts, r)" by fastforce
    have w: "po_inv (fst (probe_wifi e cfg l ?po))" "finished (probe_wifi e cfg l ?po)" for l
      using probe_wifi_inv [OF inv(1)] by simp_all
    have m: "po_inv (fst (probe_mobile e cfg l (fst (probe_wifi e cfg l ?po))))"
      "finished (probe_mobile e cfg l (fst (probe_wifi e cfg l ?po)))" for l
      using probe_mobile_inv [OF w(1)] by simp_all
    show ?thesis
    proof (cases "te_paused e")
      case True
      then show ?thesis using inv by (simp add: tick_def tick_links_def Inr case_prod_unfold Let_def)
    next
      case False
      then show ?thesis using inv(1) w(2) m dial_stage_inv [OF m(1)]
        by (cases r) (simp_all add: tick_def tick_links_def Inr rs andThen_fst finished_def [of "(_, _, _)"] Let_def)
    qed
  qed
qed

section \<open>Runs of ticks\<close>

type_synonym tick_in = "tick_env \<times> policy_cfg"

definition policy_next :: "policy \<Rightarrow> tick_in \<Rightarrow> policy" where
  "policy_next po i = fst (tick (fst i) (snd i) po)"

definition tick_now :: "tick_in \<Rightarrow> time" where
  "tick_now i = te_now (fst i)"

definition wifi_gone :: "tick_in \<Rightarrow> bool" where
  "wifi_gone i = (case tick_links (fst i) of None \<Rightarrow> False | Some lk \<Rightarrow> \<not> wifi_present lk)"

interpretation release_timer: hold_timer policy_next po_wifi_ok tick_now wifi_gone po_inv
proof (unfold_locales, goal_cases)
  case (1 s i)
  then show ?case using tick_inv by (simp add: policy_next_def)
next
  case (2 s i)
  then show ?case using tick_inv [of s "fst i" "snd i"] by (auto simp: policy_next_def wifi_gone_def split: option.splits)
next
  case (3 s i t)
  then show ?case using tick_effect [of "fst i" "snd i" s]
    by (auto simp: policy_next_def tick_now_def data_effect_def Let_def)
qed

definition data_of :: "tick_in \<Rightarrow> policy \<Rightarrow> policy_act list" where
  "data_of i po = data_acts (tick (fst i) (snd i) po)"

lemma tick_times:
  "po_last_dial (policy_next po i) = po_last_dial po \<or> po_last_dial (policy_next po i) = tick_now i"
  "po_last_redial (policy_next po i) = po_last_redial po \<or> po_last_redial (policy_next po i) = tick_now i"
  using tick_effect [of "fst i" "snd i" po]
  by (auto simp: policy_next_def tick_now_def data_effect_def Let_def)

lemma times_grow:
  assumes "sorted (t # map tick_now ins)" and "t \<le> po_last_dial po \<or> P" and "t \<le> po_last_redial po \<or> Q"
  shows "(t \<le> po_last_dial (run_steps policy_next po ins) \<or> P) \<and> (t \<le> po_last_redial (run_steps policy_next po ins) \<or> Q)"
  using assms
proof (induction ins arbitrary: po)
  case (Cons i ins)
  have "t \<le> tick_now i" "sorted (t # map tick_now ins)" using Cons.prems(1) by auto
  then show ?case using Cons.IH [of "policy_next po i"] Cons.prems(2,3) tick_times [of po i] by auto
qed simp

text \<open>
  C32. Over any run of ticks with a clock that does not go back: two dials of mobile data are the retry
  gap apart, two redials the redial gap apart, and the call is released only after Wi-Fi has been there in
  every tick of the hold time.
\<close>

theorem data_call_paced:
  assumes "s = run_steps policy_next (new_policy t0) ins" and "u = run_steps policy_next s (x # mid)"
    and "sorted (map tick_now (x # mid @ [y]))"
  shows "(data_of x s = [DataUp] \<and> data_of y u = [DataUp] \<longrightarrow> cf_mobile_retry (snd y) \<le> tick_now y - tick_now x) \<and>
    (data_of x s = [DataDown, DataUp] \<and> data_of y u = [DataDown, DataUp] \<longrightarrow>
       cf_redial_min (snd y) \<le> tick_now y - tick_now x) \<and>
    (data_of y u = [DataDown] \<longrightarrow>
       (\<exists>t. held_since tick_now wifi_gone (ins @ x # mid @ [y]) t \<and> cf_mobile_hold (snd y) \<le> tick_now y - t)) \<and>
    data_of y u \<in> {[], [DataUp], [DataDown], [DataDown, DataUp]}"
proof -
  note ex = tick_effect [of "fst x" "snd x" s, unfolded data_effect_def Let_def, folded data_of_def policy_next_def tick_now_def]
  note ey = tick_effect [of "fst y" "snd y" u, unfolded data_effect_def Let_def, folded data_of_def policy_next_def tick_now_def]
  have u: "u = run_steps policy_next (policy_next s x) mid" using assms(2) by simp
  have srt: "sorted (tick_now x # map tick_now mid)" using assms(3) by (simp add: sorted_append)
  have g: "(tick_now x \<le> po_last_dial u \<or> data_of x s \<noteq> [DataUp]) \<and>
      (tick_now x \<le> po_last_redial u \<or> data_of x s \<noteq> [DataDown, DataUp])"
    unfolding u by (rule times_grow [OF srt]) (use ex in auto)
  have run: "policy_next u y = run_steps policy_next (new_policy t0) (ins @ x # mid @ [y])"
    by (simp add: assms(1,2))
  have held: "po_wifi_ok (policy_next u y) = Some t \<Longrightarrow> held_since tick_now wifi_gone (ins @ x # mid @ [y]) t" for t
    unfolding run by (rule release_timer.since_held) simp_all
  show ?thesis
  proof (intro conjI impI)
    assume "data_of x s = [DataUp] \<and> data_of y u = [DataUp]"
    moreover from this have "tick_now x \<le> po_last_dial u" using g by simp
    ultimately show "cf_mobile_retry (snd y) \<le> tick_now y - tick_now x" using ey by simp
  next
    assume "data_of x s = [DataDown, DataUp] \<and> data_of y u = [DataDown, DataUp]"
    moreover from this have "tick_now x \<le> po_last_redial u" using g by simp
    ultimately show "cf_redial_min (snd y) \<le> tick_now y - tick_now x" using ey by simp
  next
    assume "data_of y u = [DataDown]"
    then show "\<exists>t. held_since tick_now wifi_gone (ins @ x # mid @ [y]) t \<and> cf_mobile_hold (snd y) \<le> tick_now y - t"
      using ey held by blast
  qed (use ey in blast)
qed

section \<open>A tick that meets no failing command does all of its work\<close>

definition all_well :: "tick_env \<Rightarrow> bool" where
  "all_well e \<longleftrightarrow>
     (\<forall>k m. \<exists>lk. read_links e k m = Inr lk \<and> (\<forall>r \<in> set (lk_defaults lk). rt_dev r \<noteq> None)) \<and>
     (\<exists>a. te_addr e = Inr a) \<and> (\<forall>args. te_ip e args)"

lemma route_args_ok:
  assumes "\<forall>r \<in> set (lk_defaults lk). rt_dev r \<noteq> None" and "c \<in> set (route_plan up lk)"
  shows "\<exists>args. route_args c = Inr args"
proof (cases c)
  case (DelRoute r)
  then have "r \<in> set (lk_defaults lk)" using assms(2) by (auto simp: route_plan_def Let_def split: option.splits if_splits)
  then show ?thesis using assms(1) by (auto simp: DelRoute route_args_def)
qed (simp add: route_args_def)

lemma run_routes_all:
  assumes "\<forall>c \<in> set cs. \<exists>args. route_args c = Inr args" and "\<forall>args. te_ip e args"
  shows "run_routes e cs = (map (\<lambda>c. IpRun (projr (route_args c))) cs, Inr ())"
  using assms by (induction cs) (auto simp: Let_def)

text \<open>The routes and the resolver file follow the uplink the tick leaves behind, for the link facts \<open>lk\<close>.\<close>

definition follows :: "tick_env \<Rightarrow> policy_cfg \<Rightarrow> link_facts \<Rightarrow> tick_out \<Rightarrow> bool" where
  "follows e cfg lk out \<longleftrightarrow> finished out \<and>
     (\<forall>c \<in> set (route_plan (po_uplink (fst out)) lk). IpRun (projr (route_args c)) \<in> set (fst (snd out))) \<and>
     (\<forall>w. cf_manage_dns cfg \<and> resolv_for (po_uplink (fst out)) lk cfg = Some w \<and> te_resolv e @ [10] \<noteq> w \<longrightarrow>
        WriteResolv w \<in> set (fst (snd out)))"

lemma write_dns_member:
  assumes "cf_manage_dns cfg" and "resolv_for up lk cfg = Some w" and "te_resolv e @ [10] \<noteq> w"
  shows "WriteResolv w \<in> set (write_dns e cfg up lk)"
proof -
  have "w \<noteq> []" using assms(2) by (auto simp: resolv_for_def)
  then have "write_dns e cfg up lk = [WriteResolv w]" unfolding write_dns_def using assms by (simp only: option.case if_True simp_thms)
  then show ?thesis by simp
qed

lemma apply_follows:
  assumes "\<forall>r \<in> set (lk_defaults lk). rt_dev r \<noteq> None" and "\<forall>args. te_ip e args"
  shows "follows e cfg lk (apply_stage e cfg up lk po) \<and> po_uplink (fst (apply_stage e cfg up lk po)) = up"
proof -
  have rr: "run_routes e (route_plan up lk) = (map (\<lambda>c. IpRun (projr (route_args c))) (route_plan up lk), Inr ())"
    by (rule run_routes_all [OF _ assms(2)]) (use route_args_ok [OF assms(1)] in blast)
  obtain p1 a1 where ss: "saver_stage e cfg up lk po = (p1, a1)" by fastforce
  have "po_uplink p1 = po_uplink po" using saver_stage_same [of e cfg up lk po] by (simp add: ss)
  then show ?thesis using write_dns_member [of cfg up lk _ e] by (auto simp: follows_def finished_def apply_stage_def rr ss)
qed

lemma follows_more: "follows e cfg lk (p, acts, r) \<Longrightarrow> follows e cfg lk (p, a0 @ acts, r)"
  by (auto simp: follows_def finished_def)

lemma dial_stage_follows:
  assumes "all_well e" and "read_links e k0 m0 = Inr lk0"
  shows "\<exists>k m lk fails. read_links e k m = Inr lk \<and> follows e cfg lk (dial_stage e cfg lk0 po) \<and>
    po_uplink (fst (dial_stage e cfg lk0 po)) = fst (choose_uplink lk fails cfg)"
proof -
  obtain up want where c: "choose_uplink lk0 (po_fails po) cfg = (up, want)" by fastforce
  obtain p acts where m: "manage_data e cfg lk0 up want (note_wifi up e cfg po) = (p, acts)" by fastforce
  have ip: "\<forall>args. te_ip e args" using assms(1) by (simp add: all_well_def)
  have dev: "read_links e k m = Inr lk \<Longrightarrow> \<forall>r \<in> set (lk_defaults lk). rt_dev r \<noteq> None" for k m lk
    using assms(1) unfolding all_well_def by (metis sum.inject(2))
  have fin: "read_links e k m = Inr lk \<Longrightarrow>
      follows e cfg lk (case apply_stage e cfg u lk p of (po2, a2, r) \<Rightarrow> (po2, acts @ a2, r)) \<and>
      po_uplink (fst (case apply_stage e cfg u lk p of (po2, a2, r) \<Rightarrow> (po2, acts @ a2, r))) = u" for k m lk u
    using apply_follows [OF dev ip, of k m lk cfg u p] by (auto intro: follows_more split: prod.splits)
  obtain lk2 where lk2: "read_links e 2 (te_mobile2 e) = Inr lk2" using assms(1) by (meson all_well_def)
  show ?thesis
  proof (cases "\<not> mobile_up lk0 \<and> (want \<or> jget (te_mobile e) ''state'' = JNull)")
    case True
    then show ?thesis using fin [OF lk2, of "fst (choose_uplink lk2 (po_fails p) cfg)"] lk2
      by (auto simp: dial_stage_def c m Let_def)
  next
    case False
    then have "dial_stage e cfg lk0 po = (case apply_stage e cfg up lk0 p of (po2, a2, r) \<Rightarrow> (po2, acts @ a2, r))"
      by (auto simp: dial_stage_def c m Let_def)
    then show ?thesis using fin [OF assms(2), of up] assms(2) c by (metis fst_conv)
  qed
qed

lemma andThen_follows:
  assumes "finished m" and "\<exists>k m lk fails. read_links e k m = Inr lk \<and> follows e cfg lk (f p) \<and>
    po_uplink (fst (f p)) = fst (choose_uplink lk fails cfg)" and "p = fst m"
  shows "\<exists>k m2 lk fails. read_links e k m2 = Inr lk \<and> follows e cfg lk (andThen m f) \<and>
    po_uplink (fst (andThen m f)) = fst (choose_uplink lk fails cfg)"
proof -
  obtain q acts where m: "m = (q, acts, Inr ())" using assms(1) by (cases m) (auto simp: finished_def)
  obtain q1 a1 r1 where f: "f q = (q1, a1, r1)" by (cases "f q")
  have "andThen m f = (q1, acts @ a1, r1)" by (simp add: m f andThen_def)
  then show ?thesis using assms(2,3) follows_more [of e cfg _ q1 a1 r1 acts] by (simp add: m f) metis
qed

text \<open>
  C33. From every reachable state, a tick during which no command fails runs to its end: it never reads a
  probe time that is not there. Unless paused, it leaves the uplink that \<open>choose\<close> takes from links it has
  read, every command of the route plan for that uplink has been run, and the resolver file that names its
  servers has been written where it differed. Paused, it touches nothing and gives parked Wi-Fi back.
\<close>

theorem tick_follows_uplink:
  assumes "all_well e" and "po = run_steps policy_next (new_policy t0) ins"
  shows "finished (tick e cfg po) \<and>
    (if te_paused e then set (fst (snd (tick e cfg po))) \<subseteq> {SaverDo (snd (unpark (lit ''paused'') (po_saver po)))} \<and>
       \<not> sv_parked (po_saver (fst (tick e cfg po)))
     else (\<exists>k m lk fails. read_links e k m = Inr lk \<and> follows e cfg lk (tick e cfg po) \<and>
       po_uplink (fst (tick e cfg po)) = fst (choose_uplink lk fails cfg)))"
proof -
  let ?po = "po\<lparr>po_paused_seen := Some (te_paused e)\<rparr>"
  have "po_inv po" unfolding assms(2) by (rule release_timer.invar_run) simp
  then have inv: "po_inv ?po" by (simp add: po_inv_def)
  obtain lk where lk: "read_links e 0 (te_mobile e) = Inr lk" using assms(1) by (meson all_well_def)
  show ?thesis
  proof (cases "te_paused e")
    case True
    then show ?thesis by (simp add: tick_def lk Let_def case_prod_unfold finished_def) (simp add: unpark_def Let_def)
  next
    case False
    obtain acts k m lk1 where rs: "repair_stage e lk = (acts, Inr lk1)" "read_links e k m = Inr lk1"
    proof -
      obtain a lk2 where "te_addr e = Inr a" "read_links e 1 (te_mobile e) = Inr lk2" "\<forall>args. te_ip e args"
        using assms(1) by (meson all_well_def)
      then have "\<exists>acts lk1. repair_stage e lk = (acts, Inr lk1) \<and> (lk1 = lk \<or> lk1 = lk2)"
        by (cases "repair_reads lk (te_lease e)"; cases "wifi_route_repair lk (te_lease e) a") (simp_all add: repair_stage_def)
      then show thesis using that lk \<open>read_links e 1 (te_mobile e) = Inr lk2\<close> by blast
    qed
    have w: "po_inv (fst (probe_wifi e cfg lk1 ?po))" "finished (probe_wifi e cfg lk1 ?po)"
      using probe_wifi_inv [OF inv] by simp_all
    have t: "tick e cfg po = andThen (?po, acts, Inr ()) (\<lambda>po. andThen (probe_wifi e cfg lk1 po) (\<lambda>po.
        andThen (probe_mobile e cfg lk1 po) (dial_stage e cfg lk1)))"
      by (simp add: tick_def lk False rs(1))
    have "\<exists>k m lk fails. read_links e k m = Inr lk \<and> follows e cfg lk (tick e cfg po) \<and>
        po_uplink (fst (tick e cfg po)) = fst (choose_uplink lk fails cfg)"
      unfolding t using w(2) probe_mobile_inv [OF w(1)]
      by (intro andThen_follows [OF _ _ refl] dial_stage_follows [OF assms(1) rs(2)]) (simp_all add: finished_def [of "(_, _, _)"])
    then show ?thesis using False by (auto simp: follows_def)
  qed
qed

text \<open>Neither Wi-Fi nor the cable is there; the modem is online and every call succeeds.\<close>

definition demo_env :: "time \<Rightarrow> tick_env" where
  "demo_env t = \<lparr>te_now = t, te_paused = False,
     te_mobile = JObj [(lit ''state'', JStr (lit ''down'')), (lit ''modem_state'', JStr (lit ''ONLINE''))],
     te_mobile2 = JObj [(lit ''state'', JStr (lit ''up'')), (lit ''ipv4'', JStr (lit ''10.1.2.3''))],
     te_sys = (\<lambda>_. Inr \<lparr>sy_wlan_oper = lit ''down'', sy_lease_dns = [], sy_ecm_oper = lit ''down'',
        sy_ecm_carrier = lit ''0'', sy_routes_ok = True, sy_routes = []\<rparr>),
     te_lease = None, te_addr = Inr [], te_probe = (\<lambda>_ _. True), te_ip = (\<lambda>_. True), te_resolv = [],
     te_display = lit ''on'', te_saver_off = False, te_hold = None,
     te_saver = \<lparr>se_networks = [], se_results = [], se_carrier = [], se_digit = is_digit\<rparr>,
     te_lib = \<lparr>lib_str = (\<lambda>_. []), lib_float = (\<lambda>_. None), lib_int = (\<lambda>_. None)\<rparr>\<rparr>"

lemma demo_all_well: "all_well (demo_env t)"
  by (simp add: all_well_def demo_env_def read_links_def links_def)

lemma tick_follows_uplink_witness:
  "finished (tick (demo_env 100) CONFIG (new_policy 0))"
  using tick_follows_uplink [OF demo_all_well, of "new_policy 0" 0 "[]" 100 CONFIG] by simp

lemma data_call_paced_witness:
  "data_of (demo_env 100, CONFIG) (new_policy 0) = [DataUp] \<and>
   data_of (demo_env 110, CONFIG) (policy_next (new_policy 0) (demo_env 100, CONFIG)) \<noteq> [DataUp]"
proof -
  have up: "data_of (demo_env 100, CONFIG) (new_policy 0) = [DataUp]"
    by code_simp
  with data_call_paced [OF refl refl, of "(demo_env 100, CONFIG)" "[]" "(demo_env 110, CONFIG)" 0 "[]"]
  show ?thesis by (simp add: tick_now_def demo_env_def CONFIG_def)
qed

end
