(* ===== verification/Haptic.thy ===== *)
theory Haptic
  imports Phone_Gate Py_Text
begin

text \<open>
  The haptic daemon \<^verbatim>\<open>s22-haptic.py\<close>: configuration, pattern planning, the limiter, the effect block of
  the driver and the class \<open>Player\<close>. The motor is a list of actions; the thread that plays a pattern is the list
  of segments it still has to play, and a new pattern or a stop cancels it (the join of the old thread
  succeeds). Times are milliseconds of the monotonic clock.
\<close>

section \<open>Configuration\<close>

record haptic_cfg =
  hc_enabled :: bool
  hc_tick_index :: nat
  hc_buzz_index :: nat
  hc_long_index :: nat
  hc_tick_ms :: nat
  hc_buzz_ms :: nat
  hc_tick_max_on :: nat
  hc_buzz_max_on :: nat
  hc_max_segment :: nat
  hc_max_pattern :: nat
  hc_max_segments :: nat
  hc_min_interval :: nat
  hc_window :: nat
  hc_max_plays :: nat
  hc_max_on :: nat

definition DEFAULTS :: haptic_cfg where
  "DEFAULTS = \<lparr>hc_enabled = True, hc_tick_index = 39, hc_buzz_index = 3, hc_long_index = 16, hc_tick_ms = 9,
     hc_buzz_ms = 41, hc_tick_max_on = 15, hc_buzz_max_on = 60, hc_max_segment = 500, hc_max_pattern = 3000,
     hc_max_segments = 16, hc_min_interval = 20, hc_window = 10000, hc_max_plays = 150, hc_max_on = 3000\<rparr>"

datatype config_file = NoFile | Unreadable | Content pystr

text \<open>One key: a non-negative integer (not a boolean) replaces the default.\<close>

definition cfg_nat :: "json \<Rightarrow> string \<Rightarrow> nat \<Rightarrow> nat" where
  "cfg_nat j k d = (case jget j k of JInt i \<Rightarrow> if 0 \<le> i then nat i else d | _ \<Rightarrow> d)"

definition load_config :: "config_file \<Rightarrow> haptic_cfg" where
  "load_config f =
     (case f of
        NoFile \<Rightarrow> DEFAULTS
      | Unreadable \<Rightarrow> DEFAULTS\<lparr>hc_enabled := False\<rparr>
      | Content s \<Rightarrow>
          (case json_loads s of
             None \<Rightarrow> DEFAULTS\<lparr>hc_enabled := False\<rparr>
           | Some j \<Rightarrow>
               if \<not> is_obj j then DEFAULTS\<lparr>hc_enabled := False\<rparr>
               else \<lparr>hc_enabled = (case map_of (jfields j) (lit ''enabled'') of Some v \<Rightarrow> v = JBool True | None \<Rightarrow> True),
                     hc_tick_index = cfg_nat j ''tick_index'' 39, hc_buzz_index = cfg_nat j ''buzz_index'' 3,
                     hc_long_index = cfg_nat j ''long_index'' 16, hc_tick_ms = cfg_nat j ''tick_ms'' 9,
                     hc_buzz_ms = cfg_nat j ''buzz_ms'' 41, hc_tick_max_on = cfg_nat j ''tick_max_on_ms'' 15,
                     hc_buzz_max_on = cfg_nat j ''buzz_max_on_ms'' 60, hc_max_segment = cfg_nat j ''max_segment_ms'' 500,
                     hc_max_pattern = cfg_nat j ''max_pattern_ms'' 3000, hc_max_segments = cfg_nat j ''max_segments'' 16,
                     hc_min_interval = cfg_nat j ''min_interval_ms'' 20, hc_window = cfg_nat j ''window_ms'' 10000,
                     hc_max_plays = cfg_nat j ''window_max_plays'' 150, hc_max_on = cfg_nat j ''window_max_on_ms'' 3000\<rparr>))"

section \<open>Patterns\<close>

fun int_list :: "pylib \<Rightarrow> pystr list \<Rightarrow> int list option" where
  "int_list lib [] = Some []"
| "int_list lib (p # ps) =
     (case lib_int lib p of None \<Rightarrow> None | Some i \<Rightarrow> map_option (\<lambda>is. i # is) (int_list lib ps))"

text \<open>The two messages are one \<open>ValueError\<close>.\<close>

definition parse_pattern :: "pylib \<Rightarrow> pystr \<Rightarrow> pyerr + nat list" where
  "parse_pattern lib s =
     (case int_list lib (filter (\<lambda>p. p \<noteq> []) (split_at_char 44 (filter (\<lambda>c. c \<noteq> 32) s))) of
        None \<Rightarrow> Inl ValueError
      | Some vs \<Rightarrow> if vs = [] \<or> (\<exists>v \<in> set vs. v < 0) then Inl ValueError else Inr (map nat vs))"

datatype haptic_kind = TickK | BuzzK | LongK

type_synonym segment = "haptic_kind \<times> nat \<times> nat"

definition add_pause :: "nat \<Rightarrow> segment list \<Rightarrow> segment list" where
  "add_pause off steps =
     (if steps = [] then [] else (let (k, on, d) = List.last steps in butlast steps @ [(k, on, d + off)]))"

definition seg_kind :: "haptic_cfg \<Rightarrow> nat \<Rightarrow> haptic_kind" where
  "seg_kind cfg on = (if on \<le> hc_tick_max_on cfg then TickK else if on \<le> hc_buzz_max_on cfg then BuzzK else LongK)"

text \<open>The loop over the indices 0, 2, ...: the list holds the values from the index on.\<close>

fun plan_loop :: "haptic_cfg \<Rightarrow> nat \<Rightarrow> segment list \<Rightarrow> nat list \<Rightarrow> segment list" where
  "plan_loop cfg used steps [] = steps"
| "plan_loop cfg used steps (v # rest) =
     (let on = min v (hc_max_segment cfg); off = (case rest of [] \<Rightarrow> 0 | w # _ \<Rightarrow> w); rest' = drop 1 rest in
      if on = 0 then plan_loop cfg (used + off) (add_pause off steps) rest'
      else if hc_max_pattern cfg < used + on then steps
      else (let off' = min off (hc_max_pattern cfg - used - on)
            in plan_loop cfg (used + on + off') (steps @ [(seg_kind cfg on, on, off')]) rest'))"

text \<open>
  An index below \<open>2 * max_segments\<close> that is even has its odd neighbour below it too, so cutting the list is
  the bound of the loop; the pause after the last index is still read from the whole list, where it is the
  same element.
\<close>

definition plan_pattern :: "nat list \<Rightarrow> haptic_cfg \<Rightarrow> segment list" where
  "plan_pattern values cfg = plan_loop cfg 0 [] (take (2 * hc_max_segments cfg) values)"

section \<open>Limiter\<close>

text \<open>The history is oldest first.\<close>

definition allow :: "haptic_cfg \<Rightarrow> (time \<times> nat) list \<Rightarrow> time \<Rightarrow> nat \<Rightarrow> (time \<times> nat) list \<times> bool" where
  "allow cfg hist now on =
     (let h = filter (\<lambda>(t, d). now - t < of_nat (hc_window cfg)) hist in
      if h \<noteq> [] \<and> now - fst (List.last h) < of_nat (hc_min_interval cfg) then (h, False)
      else if hc_max_plays cfg \<le> length h then (h, False)
      else if hc_max_on cfg < sum_list (map snd h) + on then (h, False)
      else (h @ [(now, on)], True))"

section \<open>The effect block\<close>

definition FF_PERIODIC :: nat where "FF_PERIODIC = 0x51"
definition FF_CUSTOM :: nat where "FF_CUSTOM = 0x5D"

text \<open>
  \<open>pack_into\<close> of an unsigned field raises out of range; a signed 16-bit field is stored in two's complement.
\<close>

definition pack_u :: "nat \<Rightarrow> int \<Rightarrow> pyerr + bytes" where
  "pack_u n v = (if 0 \<le> v \<and> v < 256 ^ n then Inr (to_bytes_le n (nat v)) else Inl StructError)"

definition pack_h :: "int \<Rightarrow> pyerr + bytes" where
  "pack_h v = (if - 32768 \<le> v \<and> v < 32768 then Inr (to_bytes_le 2 (nat (v mod 65536))) else Inl StructError)"

definition zeros :: "nat \<Rightarrow> bytes" where "zeros n = replicate n 0"

definition pack_effect :: "int \<Rightarrow> int \<Rightarrow> int \<Rightarrow> pyerr + bytes" where
  "pack_effect data_ptr length_ms effect_id =
     try_r (pack_h effect_id) (\<lambda>eid. try_r (pack_u 2 length_ms) (\<lambda>len. try_r (pack_u 8 data_ptr) (\<lambda>ptr.
       Inr (to_bytes_le 2 FF_PERIODIC @ eid @ zeros 6 @ len @ zeros 2 @ zeros 2 @
            to_bytes_le 2 FF_CUSTOM @ zeros 2 @ to_bytes_le 2 0x7FFF @ zeros 12 @ zeros 2 @
            to_bytes_le 4 2 @ ptr))))"

text \<open>The block the driver reads: 48 bytes, with the length and the pointer where \<open>struct ff_effect\<close> has them.\<close>

lemma pack_effect_layout:
  assumes "pack_effect ptr len eid = Inr b"
  shows "length b = 48 \<and> from_bytes_le (py_slice 0 2 b) = FF_PERIODIC \<and> from_bytes_le (py_slice 10 12 b) = nat len \<and>
    from_bytes_le (py_slice 16 18 b) = FF_CUSTOM \<and> from_bytes_le (py_slice 36 40 b) = 2 \<and>
    from_bytes_le (py_slice 40 48 b) = nat ptr"
proof -
  have b: "b = to_bytes_le 2 FF_PERIODIC @ to_bytes_le 2 (nat (eid mod 65536)) @ zeros 6 @ to_bytes_le 2 (nat len) @ zeros 2 @ zeros 2 @
      to_bytes_le 2 FF_CUSTOM @ zeros 2 @ to_bytes_le 2 0x7FFF @ zeros 12 @ zeros 2 @ to_bytes_le 4 2 @ to_bytes_le 8 (nat ptr)"
    and r: "0 \<le> len" "len < 256 ^ 2" "0 \<le> ptr" "ptr < 256 ^ 8"
    using assms by (auto simp: pack_effect_def try_r_def pack_u_def pack_h_def split: sum.splits if_splits)
  have "nat len < 256 ^ 2" "nat ptr < 256 ^ 8" using r by (simp_all add: nat_less_iff)
  then show ?thesis by (simp add: b py_slice_def from_to_bytes_le zeros_def FF_PERIODIC_def FF_CUSTOM_def)
qed

section \<open>The player\<close>

record player =
  pl_cfg :: haptic_cfg
  pl_mtime :: "nat option"
  pl_hist :: "(time \<times> nat) list"
  pl_run :: "segment list"
  pl_played :: nat
  pl_disabled :: nat
  pl_limited :: nat

text \<open>What an operation meets: the time, the configuration file and its time stamp, and the answer of the driver to a start.\<close>

record haptic_env =
  he_now :: time
  he_mtime :: "nat option"
  he_file :: config_file
  he_start :: bool

datatype motor_act = StartM haptic_kind | StopM haptic_kind

definition new_player :: "nat option \<Rightarrow> config_file \<Rightarrow> player" where
  "new_player m f = \<lparr>pl_cfg = load_config f, pl_mtime = m, pl_hist = [], pl_run = [], pl_played = 0,
     pl_disabled = 0, pl_limited = 0\<rparr>"

definition refresh :: "haptic_env \<Rightarrow> player \<Rightarrow> player" where
  "refresh e p =
     (if he_mtime e = pl_mtime p then p else p\<lparr>pl_mtime := he_mtime e, pl_cfg := load_config (he_file e)\<rparr>)"

definition player_gate :: "haptic_env \<Rightarrow> nat \<Rightarrow> player \<Rightarrow> player \<times> bool" where
  "player_gate e on p0 =
     (let p = refresh e p0 in
      if \<not> hc_enabled (pl_cfg p) then (p\<lparr>pl_disabled := Suc (pl_disabled p)\<rparr>, False)
      else (let (h, ok) = allow (pl_cfg p) (pl_hist p) (he_now e) on; p1 = p\<lparr>pl_hist := h\<rparr> in
            if ok then (p1, True) else (p1\<lparr>pl_limited := Suc (pl_limited p1)\<rparr>, False)))"

text \<open>The nominal length is that of the configuration before the refresh.\<close>

definition single :: "haptic_env \<Rightarrow> haptic_kind \<Rightarrow> player \<Rightarrow> player \<times> motor_act list \<times> (pyerr + bool)" where
  "single e k p0 =
     (let (p, ok) = player_gate e (if k = TickK then hc_tick_ms (pl_cfg p0) else hc_buzz_ms (pl_cfg p0)) p0 in
      if \<not> ok then (p, [], Inr False)
      else if \<not> he_start e then (p, [], Inl OSError)
      else (p\<lparr>pl_played := Suc (pl_played p)\<rparr>, [StartM k], Inr True))"

definition stop_all :: "player \<Rightarrow> player \<times> motor_act list" where
  "stop_all p = (p\<lparr>pl_run := []\<rparr>, [StopM LongK, StopM BuzzK, StopM TickK])"

definition pattern :: "haptic_env \<Rightarrow> nat list \<Rightarrow> player \<Rightarrow> player \<times> bool" where
  "pattern e vs p0 =
     (let p = refresh e p0 in
      if \<not> hc_enabled (pl_cfg p) then (p\<lparr>pl_disabled := Suc (pl_disabled p)\<rparr>, False)
      else if plan_pattern vs (pl_cfg p) = [] then (p, False)
      else (p\<lparr>pl_run := plan_pattern vs (pl_cfg p)\<rparr>, True))"

text \<open>One round of the loop of \<open>_run\<close>; a start that fails ends the thread.\<close>

definition run_segment :: "haptic_env \<Rightarrow> player \<Rightarrow> player \<times> motor_act list" where
  "run_segment e p =
     (case pl_run p of
        [] \<Rightarrow> (p, [])
      | (k, on, off) # rest \<Rightarrow>
          (let (p1, ok) = player_gate e on p in
           if \<not> ok \<or> \<not> he_start e then (p1\<lparr>pl_run := []\<rparr>, [])
           else (p1\<lparr>pl_run := rest, pl_played := Suc (pl_played p1)\<rparr>, StartM k # (if k = LongK then [StopM LongK] else []))))"

datatype haptic_reply = OkR | DroppedR | StatusR bool nat nat nat | ErrorR

definition gated_reply :: "bool \<Rightarrow> haptic_reply" where
  "gated_reply ok = (if ok then OkR else DroppedR)"

text \<open>One datagram. A failed start is not caught: it ends the daemon.\<close>

definition handle_line ::
    "pylib \<Rightarrow> haptic_env \<Rightarrow> pystr \<Rightarrow> player \<Rightarrow> player \<times> motor_act list \<times> (pyerr + haptic_reply)" where
  "handle_line lib e line p =
     (let s = strip_space line;
          c = takeWhile (\<lambda>x. \<not> is_space x) s; arg = dropWhile is_space (dropWhile (\<lambda>x. \<not> is_space x) s)
      in if s = [] then (p, [], Inr ErrorR)
         else if c = lit ''tick'' \<or> c = lit ''buzz'' then
           (let (p1, acts, r) = single e (if c = lit ''tick'' then TickK else BuzzK) p
            in (p1, acts, (case r of Inl x \<Rightarrow> Inl x | Inr ok \<Rightarrow> Inr (gated_reply ok))))
         else if c = lit ''pattern'' \<and> arg \<noteq> [] then
           (case parse_pattern lib arg of
              Inl _ \<Rightarrow> (p, [], Inr ErrorR)
            | Inr vs \<Rightarrow> (let (p1, ok) = pattern e vs p in (p1, [], Inr (gated_reply ok))))
         else if c = lit ''stop'' then (let (p1, acts) = stop_all p in (p1, acts, Inr OkR))
         else if c = lit ''status'' then
           (let p1 = refresh e p in (p1, [], Inr (StatusR (hc_enabled (pl_cfg p1)) (pl_played p1) (pl_disabled p1) (pl_limited p1))))
         else (p, [], Inr ErrorR))"

section \<open>Plans\<close>

definition on_sum :: "segment list \<Rightarrow> nat" where
  "on_sum steps = sum_list (map (\<lambda>(k, on, off). on) steps)"

definition off_sum :: "segment list \<Rightarrow> nat" where
  "off_sum steps = sum_list (map (\<lambda>(k, on, off). off) steps)"

definition seg_ok :: "haptic_cfg \<Rightarrow> segment \<Rightarrow> bool" where
  "seg_ok cfg s = (case s of (k, on, off) \<Rightarrow> 0 < on \<and> on \<le> hc_max_segment cfg \<and> k = seg_kind cfg on)"

definition even_ok :: "nat list \<Rightarrow> bool" where
  "even_ok vs \<longleftrightarrow> (\<forall>i < length vs. even i \<longrightarrow> 0 < vs ! i)"

lemma sums_append [simp]:
  "on_sum (xs @ ys) = on_sum xs + on_sum ys" "off_sum (xs @ ys) = off_sum xs + off_sum ys"
  "on_sum [] = 0" "off_sum [] = 0" "on_sum ((k, on, off) # xs) = on + on_sum xs" "off_sum ((k, on, off) # xs) = off + off_sum xs"
  by (simp_all add: on_sum_def off_sum_def)

lemma add_pause_facts:
  "on_sum (add_pause off steps) = on_sum steps" "off_sum (add_pause off steps) \<le> off_sum steps + off"
  "length (add_pause off steps) = length steps" "list_all (seg_ok cfg) steps \<Longrightarrow> list_all (seg_ok cfg) (add_pause off steps)"
  by (cases steps rule: rev_cases; auto simp: add_pause_def seg_ok_def)+

lemma plan_loop_facts:
  assumes "on_sum steps + off_sum steps \<le> used" and "on_sum steps \<le> hc_max_pattern cfg" and "list_all (seg_ok cfg) steps"
  shows "on_sum (plan_loop cfg used steps vs) \<le> hc_max_pattern cfg \<and> list_all (seg_ok cfg) (plan_loop cfg used steps vs) \<and>
    2 * length (plan_loop cfg used steps vs) \<le> 2 * length steps + length vs + 1"
  using assms
proof (induction cfg used steps vs rule: plan_loop.induct)
  case (2 cfg used steps v rest)
  let ?on = "min v (hc_max_segment cfg)"
  let ?off = "case rest of [] \<Rightarrow> 0 | w # _ \<Rightarrow> w"
  let ?off' = "min ?off (hc_max_pattern cfg - used - ?on)"
  show ?case
  proof (cases "?on = 0")
    case True
    have "on_sum (plan_loop cfg (used + ?off) (add_pause ?off steps) (drop 1 rest)) \<le> hc_max_pattern cfg \<and>
        list_all (seg_ok cfg) (plan_loop cfg (used + ?off) (add_pause ?off steps) (drop 1 rest)) \<and>
        2 * length (plan_loop cfg (used + ?off) (add_pause ?off steps) (drop 1 rest)) \<le>
          2 * length (add_pause ?off steps) + length (drop 1 rest) + 1"
      using 2(3-) add_pause_facts(2) [of ?off steps]
      by (intro 2(1) [OF refl refl refl]) (use True in \<open>auto simp: add_pause_facts(1,4)\<close>)
    then show ?thesis using True by (cases rest) (simp_all add: Let_def add_pause_facts(3))
  next
    case on: False
    show ?thesis
    proof (cases "hc_max_pattern cfg < used + ?on")
      case True
      then have "plan_loop cfg used steps (v # rest) = steps"
        using on by (simp only: plan_loop.simps(2) Let_def if_False if_True)
      then show ?thesis using 2(3-) by simp
    next
      case False
      have "on_sum (plan_loop cfg (used + ?on + ?off') (steps @ [(seg_kind cfg ?on, ?on, ?off')]) (drop 1 rest)) \<le> hc_max_pattern cfg \<and>
          list_all (seg_ok cfg) (plan_loop cfg (used + ?on + ?off') (steps @ [(seg_kind cfg ?on, ?on, ?off')]) (drop 1 rest)) \<and>
          2 * length (plan_loop cfg (used + ?on + ?off') (steps @ [(seg_kind cfg ?on, ?on, ?off')]) (drop 1 rest)) \<le>
            2 * length (steps @ [(seg_kind cfg ?on, ?on, ?off')]) + length (drop 1 rest) + 1"
        using 2(3-) on False by (intro 2(2) [OF refl refl refl]) (auto simp: seg_ok_def)
      moreover have eq: "plan_loop cfg used steps (v # rest) =
          plan_loop cfg (used + ?on + ?off') (steps @ [(seg_kind cfg ?on, ?on, ?off')]) (drop 1 rest)"
        using on False by (simp only: plan_loop.simps(2) Let_def if_False)
      ultimately show ?thesis unfolding eq by (cases rest) simp_all
    qed
  qed
qed simp

text \<open>Without an on-time of zero the pauses are capped too.\<close>

lemma plan_loop_total:
  assumes "on_sum steps + off_sum steps = used" and "used \<le> hc_max_pattern cfg" and "even_ok vs" and "0 < hc_max_segment cfg"
  shows "on_sum (plan_loop cfg used steps vs) + off_sum (plan_loop cfg used steps vs) \<le> hc_max_pattern cfg"
  using assms
proof (induction cfg used steps vs rule: plan_loop.induct)
  case (2 cfg used steps v rest)
  let ?on = "min v (hc_max_segment cfg)"
  let ?off' = "min (case rest of [] \<Rightarrow> 0 | w # _ \<Rightarrow> w) (hc_max_pattern cfg - used - ?on)"
  have "0 < v" using 2(5) by (auto simp: even_ok_def)
  then have on: "?on \<noteq> 0" using 2(6) by simp
  have rest: "even_ok (drop 1 rest)"
  proof (unfold even_ok_def, intro allI impI)
    fix i assume "i < length (drop 1 rest)" "even i"
    then have "0 < (v # rest) ! (Suc (Suc i))" using 2(5) unfolding even_ok_def
      by (metis One_nat_def Suc_less_eq even_Suc length_Cons length_drop less_diff_conv add.commute plus_1_eq_Suc)
    then show "0 < drop 1 rest ! i" using \<open>i < length (drop 1 rest)\<close> by simp
  qed
  show ?case
  proof (cases "hc_max_pattern cfg < used + ?on")
    case True
    then have "plan_loop cfg used steps (v # rest) = steps"
      using on by (simp only: plan_loop.simps(2) Let_def if_False if_True)
    then show ?thesis using 2(3,4) by simp
  next
    case False
    have "on_sum (plan_loop cfg (used + ?on + ?off') (steps @ [(seg_kind cfg ?on, ?on, ?off')]) (drop 1 rest)) +
        off_sum (plan_loop cfg (used + ?on + ?off') (steps @ [(seg_kind cfg ?on, ?on, ?off')]) (drop 1 rest)) \<le> hc_max_pattern cfg"
      using 2(3,4,6) on False rest by (intro 2(2) [OF refl refl refl]) auto
    moreover have "plan_loop cfg used steps (v # rest) =
        plan_loop cfg (used + ?on + ?off') (steps @ [(seg_kind cfg ?on, ?on, ?off')]) (drop 1 rest)"
      using on False by (simp only: plan_loop.simps(2) Let_def if_False)
    ultimately show ?thesis by (simp only:)
  qed
qed simp

text \<open>
  A plan never vibrates longer than the cap of a pattern, has at most \<open>max_segments\<close> segments, and each
  is between one millisecond and the cap of a segment, played by the waveform of its length. Where no on-time is
  zero the pauses count too: the whole pattern fits the cap.
\<close>

theorem plan_capped:
  shows "on_sum (plan_pattern vs cfg) \<le> hc_max_pattern cfg \<and> length (plan_pattern vs cfg) \<le> hc_max_segments cfg \<and>
    (\<forall>s \<in> set (plan_pattern vs cfg). seg_ok cfg s) \<and>
    (even_ok vs \<and> 0 < hc_max_segment cfg \<longrightarrow> on_sum (plan_pattern vs cfg) + off_sum (plan_pattern vs cfg) \<le> hc_max_pattern cfg)"
proof -
  let ?vs = "take (2 * hc_max_segments cfg) vs"
  have a: "on_sum (plan_pattern vs cfg) \<le> hc_max_pattern cfg \<and> list_all (seg_ok cfg) (plan_pattern vs cfg) \<and>
      2 * length (plan_pattern vs cfg) \<le> length ?vs + 1"
    using plan_loop_facts [of "[]" 0 cfg ?vs] by (simp add: plan_pattern_def)
  have b: "even_ok vs \<Longrightarrow> even_ok ?vs" by (simp add: even_ok_def)
  have "length ?vs \<le> 2 * hc_max_segments cfg" by simp
  then have "length (plan_pattern vs cfg) \<le> hc_max_segments cfg" using a by linarith
  then show ?thesis using a b plan_loop_total [of "[]" 0 cfg ?vs] by (simp add: plan_pattern_def list_all_iff)
qed

text \<open>A zero on-time in the middle escapes the cap of the whole pattern: its pause is added as it is.\<close>

lemma zero_on_escapes_cap:
  "on_sum (plan_pattern [100, 0, 0, 60000, 100, 0] DEFAULTS) + off_sum (plan_pattern [100, 0, 0, 60000, 100, 0] DEFAULTS) = 60100"
  by (simp add: plan_pattern_def DEFAULTS_def Let_def add_pause_def seg_kind_def)

section \<open>The budgets of the limiter\<close>

definition sane_hist :: "(time \<times> nat) list \<Rightarrow> bool" where
  "sane_hist h \<longleftrightarrow> sorted (map fst h)"

lemma spent_filter:
  assumes "\<And>h. u \<le> h \<Longrightarrow> P h"
  shows "spent u t (filter (\<lambda>(h, d). P h) hist) = spent u t hist"
  using assms by (induction hist) (auto simp: spent_Cons)

definition hist_plays :: "(time \<times> nat) list \<Rightarrow> (time \<times> nat) list" where
  "hist_plays h = map (\<lambda>(t, d). (t, 1)) h"

lemma spent_plays_filter:
  assumes "\<And>h. u \<le> h \<Longrightarrow> P h"
  shows "spent u t (hist_plays (filter (\<lambda>(h, d). P h) hist)) = spent u t (hist_plays hist)"
  using assms by (induction hist) (auto simp: spent_Cons hist_plays_def)

lemma hist_plays_simps [simp]:
  "hist_plays (xs @ ys) = hist_plays xs @ hist_plays ys" "hist_plays [(t, d)] = [(t, 1)]" "hist_plays [] = []"
  by (simp_all add: hist_plays_def)

definition allow_step :: "haptic_cfg \<Rightarrow> (time \<times> nat) list \<Rightarrow> time \<Rightarrow> nat \<Rightarrow> (time \<times> nat) list \<times> bool" where
  "allow_step cfg h t on = allow cfg h t on"

lemma allow_cases:
  assumes "allow cfg h t on = (h', ok)"
  defines "k \<equiv> filter (\<lambda>(s, d). t - s < of_nat (hc_window cfg)) h"
  shows "h' = (if ok then k @ [(t, on)] else k)"
    and "ok \<Longrightarrow> length k < hc_max_plays cfg \<and> sum_list (map snd k) + on \<le> hc_max_on cfg \<and>
      (k = [] \<or> of_nat (hc_min_interval cfg) \<le> t - fst (List.last k))"
  using assms(1) unfolding allow_def k_def Let_def by (auto split: if_splits)

interpretation on_budget: window_budget "allow cfg" "\<lambda>on. on" "\<lambda>h. h" "\<lambda>t u. t - u < of_nat (hc_window cfg)" "hc_max_on cfg"
    "\<lambda>_. True" for cfg
proof (unfold_locales, goal_cases)
  case (3 s t r s' ok u)
  have "spent u t (filter (\<lambda>(h, d). t - h < of_nat (hc_window cfg)) s) = spent u t s"
    using 3(4) by (intro spent_filter) linarith
  then show ?case using allow_cases(1) [OF 3(3)] by (auto simp: spent_Cons)
next
  case (4 s t r s' ok)
  then show ?case using allow_cases(1) [OF 4(2)] by (auto split: if_splits)
next
  case (5 s t r s')
  then show ?case using allow_cases [OF 5(2)] by (auto split: if_splits)
qed auto

interpretation play_budget: window_budget "allow cfg" "\<lambda>_. 1" hist_plays "\<lambda>t u. t - u < of_nat (hc_window cfg)" "hc_max_plays cfg"
    "\<lambda>_. True" for cfg
proof (unfold_locales, goal_cases)
  case (3 s t r s' ok u)
  have "spent u t (hist_plays (filter (\<lambda>(h, d). t - h < of_nat (hc_window cfg)) s)) = spent u t (hist_plays s)"
    using 3(4) by (intro spent_plays_filter) linarith
  then show ?case using allow_cases(1) [OF 3(3)] by (auto simp: spent_Cons)
next
  case (4 s t r s' ok)
  then show ?case using allow_cases(1) [OF 4(2)] by (auto simp: hist_plays_def split: if_splits)
next
  case (5 s t r s')
  have "sum_list (map snd (hist_plays xs)) = length xs" for xs :: "(time \<times> nat) list" by (induction xs) (auto simp: hist_plays_def)
  then show ?case using allow_cases [OF 5(2)] by (auto split: if_splits)
qed auto

section \<open>Runs of the player\<close>

text \<open>An operation is a datagram or a round of the playing thread.\<close>

datatype haptic_op = LineOp haptic_env pystr | SegOp haptic_env

fun op_env :: "haptic_op \<Rightarrow> haptic_env" where
  "op_env (LineOp e l) = e"
| "op_env (SegOp e) = e"

definition player_op :: "pylib \<Rightarrow> player \<Rightarrow> haptic_op \<Rightarrow> player \<times> motor_act list" where
  "player_op lib p op =
     (case op of
        LineOp e l \<Rightarrow> (let (p1, acts, r) = handle_line lib e l p in (p1, acts))
      | SegOp e \<Rightarrow> run_segment e p)"

text \<open>The starts of a run: when, and the on-time the limiter was asked for.\<close>

definition op_charge :: "player \<Rightarrow> haptic_op \<Rightarrow> motor_act list \<Rightarrow> (time \<times> nat) list" where
  "op_charge p op acts =
     (case acts of
        StartM k # _ \<Rightarrow>
          [(he_now (op_env op),
            case op of
              LineOp e l \<Rightarrow> if k = TickK then hc_tick_ms (pl_cfg p) else hc_buzz_ms (pl_cfg p)
            | SegOp e \<Rightarrow> (case pl_run p of (k, on, off) # _ \<Rightarrow> on | [] \<Rightarrow> 0))]
      | _ \<Rightarrow> [])"

fun player_starts :: "pylib \<Rightarrow> player \<Rightarrow> haptic_op list \<Rightarrow> (time \<times> nat) list" where
  "player_starts lib p [] = []"
| "player_starts lib p (op # ops) =
     op_charge p op (snd (player_op lib p op)) @ player_starts lib (fst (player_op lib p op)) ops"

text \<open>What one operation does to the limiter, while the configuration file does not change.\<close>

definition limited :: "player \<Rightarrow> haptic_op \<Rightarrow> player \<times> motor_act list \<Rightarrow> bool" where
  "limited p op out \<longleftrightarrow>
     pl_cfg (fst out) = pl_cfg p \<and> pl_mtime (fst out) = pl_mtime p \<and>
     (pl_hist (fst out) = pl_hist p \<and> op_charge p op (snd out) = [] \<or>
      hc_enabled (pl_cfg p) \<and>
      (\<exists>on ok. allow (pl_cfg p) (pl_hist p) (he_now (op_env op)) on = (pl_hist (fst out), ok) \<and>
         (op_charge p op (snd out) = [] \<or> ok \<and> op_charge p op (snd out) = [(he_now (op_env op), on)])))"

lemma player_gate_limits:
  assumes "player_gate e on p = (q, ok)" and "he_mtime e = pl_mtime p"
  shows "pl_cfg q = pl_cfg p \<and> pl_mtime q = pl_mtime p \<and> pl_run q = pl_run p \<and>
    (if hc_enabled (pl_cfg p) then allow (pl_cfg p) (pl_hist p) (he_now e) on = (pl_hist q, ok)
     else pl_hist q = pl_hist p \<and> \<not> ok)"
  using assms by (auto simp: player_gate_def refresh_def Let_def split: prod.splits if_splits)

lemma segment_limited:
  assumes "he_mtime e = pl_mtime p"
  shows "limited p (SegOp e) (run_segment e p)"
proof (cases "pl_run p")
  case Nil
  then show ?thesis by (simp add: run_segment_def limited_def op_charge_def)
next
  case (Cons s rest)
  obtain k on off where s: "s = (k, on, off)" by (cases s)
  obtain q ok where g: "player_gate e on p = (q, ok)" by fastforce
  show ?thesis using player_gate_limits [OF g assms]
    by (cases ok; cases "he_start e"; cases "hc_enabled (pl_cfg p)")
      (simp_all add: run_segment_def Cons s g limited_def op_charge_def, blast+)
qed

lemma single_limited:
  assumes "he_mtime e = pl_mtime p" and "k \<noteq> LongK" and "single e k p = (q, acts, r)"
  shows "limited p (LineOp e l) (q, acts)"
proof -
  let ?on = "if k = TickK then hc_tick_ms (pl_cfg p) else hc_buzz_ms (pl_cfg p)"
  obtain q1 ok where g: "player_gate e ?on p = (q1, ok)" by fastforce
  show ?thesis using player_gate_limits [OF g assms(1)] assms(3)
    by (cases ok; cases "he_start e"; cases "hc_enabled (pl_cfg p)")
      (auto simp: single_def g limited_def op_charge_def)
qed

lemma line_limited:
  assumes "he_mtime e = pl_mtime p" and "handle_line lib e l p = (q, acts, r)"
  shows "limited p (LineOp e l) (q, acts)"
proof -
  have quiet: "limited p (LineOp e l) (q', [])" if "pl_cfg q' = pl_cfg p" "pl_mtime q' = pl_mtime p" "pl_hist q' = pl_hist p" for q'
    using that by (simp add: limited_def op_charge_def)
  have stops: "limited p (LineOp e l) (q', StopM k # as)" if "pl_cfg q' = pl_cfg p" "pl_mtime q' = pl_mtime p" "pl_hist q' = pl_hist p" for q' k as
    using that by (simp add: limited_def op_charge_def)
  have ref: "refresh e p = p" using assms(1) by (simp add: refresh_def)
  have pat: "limited p (LineOp e l) (fst (pattern e vs p), [])" for vs
    by (rule quiet) (simp_all add: pattern_def ref Let_def)
  have sin: "limited p (LineOp e l) (fst (single e k p), fst (snd (single e k p)))" if "k \<noteq> LongK" for k
    by (cases "single e k p") (use single_limited [OF assms(1) that] in simp)
  define s where "s = strip_space l"
  define c where "c = takeWhile (\<lambda>x. \<not> is_space x) s"
  define arg where "arg = dropWhile is_space (dropWhile (\<lambda>x. \<not> is_space x) s)"
  note hd = handle_line_def [of lib e l p, unfolded Let_def, folded s_def, folded c_def arg_def, unfolded case_prod_unfold]
  consider (empty) "s = []" | (play) "s \<noteq> []" "c = lit ''tick'' \<or> c = lit ''buzz''"
    | (pattern) "s \<noteq> []" "\<not> (c = lit ''tick'' \<or> c = lit ''buzz'')" "c = lit ''pattern'' \<and> arg \<noteq> []"
    | (stop) "s \<noteq> []" "\<not> (c = lit ''tick'' \<or> c = lit ''buzz'')" "\<not> (c = lit ''pattern'' \<and> arg \<noteq> [])" "c = lit ''stop''"
    | (rest) "s \<noteq> []" "\<not> (c = lit ''tick'' \<or> c = lit ''buzz'')" "\<not> (c = lit ''pattern'' \<and> arg \<noteq> [])" "c \<noteq> lit ''stop''" by blast
  then show ?thesis
  proof cases
    case empty
    then show ?thesis using assms(2) quiet [OF refl refl refl] unfolding hd by (simp only: if_True if_False prod.inject) simp
  next
    case play
    define k where "k = (if c = lit ''tick'' then TickK else BuzzK)"
    have "(q, acts) = (fst (single e k p), fst (snd (single e k p)))"
      using assms(2) play unfolding hd k_def [symmetric] by (simp only: if_True if_False prod.inject)
    then show ?thesis using sin [of k] by (simp add: k_def)
  next
    case pattern
    then have "(q, acts) = (case parse_pattern lib arg of Inl _ \<Rightarrow> (p, []) | Inr vs \<Rightarrow> (fst (pattern e vs p), []))"
      using assms(2) unfolding hd
      by (cases "parse_pattern lib arg") (simp_all only: if_True if_False simp_thms sum.case prod.inject)
    then show ?thesis using pat quiet [OF refl refl refl] by (cases "parse_pattern lib arg") simp_all
  next
    case stop
    then have "(q, acts) = stop_all p"
      using assms(2) unfolding hd by (simp only: if_True if_False simp_thms prod.inject) (metis prod.collapse)
    then show ?thesis using stops [of "p\<lparr>pl_run := []\<rparr>"] by (simp add: stop_all_def)
  next
    case rest
    then have "q = p \<and> acts = []" using assms(2) unfolding hd ref
      by (cases "c = lit ''status''") (simp_all only: if_True if_False prod.inject simp_thms)
    then show ?thesis using quiet [OF refl refl refl] by simp
  qed
qed

lemma op_limited:
  assumes "he_mtime (op_env op) = pl_mtime p"
  shows "limited p op (player_op lib p op)"
proof (cases op)
  case (LineOp e l)
  obtain q acts r where "handle_line lib e l p = (q, acts, r)" by (cases "handle_line lib e l p")
  then show ?thesis using line_limited [of e p lib l q acts r] assms by (simp add: LineOp player_op_def)
next
  case (SegOp e)
  then show ?thesis using segment_limited assms by (simp add: player_op_def)
qed

text \<open>The starts of a run are among the grants of the limiter for some requests made in time order.\<close>

lemma starts_granted:
  assumes "\<forall>op \<in> set ops. he_mtime (op_env op) = pl_mtime p" and "sorted (t0 # map (\<lambda>op. he_now (op_env op)) ops)"
  shows "\<exists>reqs. sorted (t0 # map fst reqs) \<and>
    (\<forall>weight. \<exists>gr. snd (granted (allow (pl_cfg p)) weight (pl_hist p) reqs) = gr \<and>
       (\<forall>u v. spent u v (map (\<lambda>(t, on). (t, weight on)) (player_starts lib p ops)) \<le> spent u v gr)) \<and>
    (\<not> hc_enabled (pl_cfg p) \<longrightarrow> player_starts lib p ops = [])"
  using assms
proof (induction ops arbitrary: p t0)
  case Nil
  have "sorted (t0 # map fst ([] :: (time \<times> nat) list))" by simp
  then show ?case by (intro exI [of _ "[]"]) simp
next
  case (Cons op ops)
  let ?t = "he_now (op_env op)"
  obtain q acts where o: "player_op lib p op = (q, acts)" by fastforce
  have lim: "limited p op (q, acts)" using op_limited [of op p lib] Cons.prems(1) by (simp add: o)
  then have same: "pl_cfg q = pl_cfg p" "pl_mtime q = pl_mtime p" by (simp_all add: limited_def)
  have t: "t0 \<le> ?t" and srt: "sorted (?t # map (\<lambda>op. he_now (op_env op)) ops)" using Cons.prems(2) by simp_all
  obtain reqs where reqs: "sorted (?t # map fst reqs)"
    and gr: "\<And>weight u v. spent u v (map (\<lambda>(t, on). (t, weight on)) (player_starts lib q ops)) \<le>
        spent u v (snd (granted (allow (pl_cfg p)) weight (pl_hist q) reqs))"
    and off: "\<not> hc_enabled (pl_cfg p) \<Longrightarrow> player_starts lib q ops = []"
    using Cons.IH [OF _ srt, of q] Cons.prems(1) by (auto simp: same)
  have srt0: "sorted (t0 # map fst reqs)" using reqs t by (auto intro: order_trans)
  from lim consider (quiet) "pl_hist q = pl_hist p" "op_charge p op acts = []"
    | (asked) on ok where "hc_enabled (pl_cfg p)" "allow (pl_cfg p) (pl_hist p) ?t on = (pl_hist q, ok)"
        "op_charge p op acts = [] \<or> ok \<and> op_charge p op acts = [(?t, on)]"
    by (auto simp: limited_def)
  then show ?case
  proof cases
    case quiet
    then show ?thesis using srt0 gr off by (intro exI [of _ reqs]) (simp add: o)
  next
    case asked
    have "sorted (t0 # map fst ((?t, on) # reqs))" using reqs t by auto
    moreover have "spent u v (map (\<lambda>(t, on). (t, weight on)) (player_starts lib p (op # ops))) \<le>
        spent u v (snd (granted (allow (pl_cfg p)) weight (pl_hist p) ((?t, on) # reqs)))" for weight u v
      using gr [of u v weight] asked(2,3) by (auto simp: o case_prod_unfold spent_Cons trans_le_add2 Let_def)
    ultimately show ?thesis using asked(1) by (intro exI [of _ "(?t, on) # reqs"]) simp
  qed
qed

text \<open>
  While the configuration file stays as it is, and however datagrams and playing threads mix: in every
  window shorter than \<open>window_ms\<close> the motor is started at most \<open>window_max_plays\<close> times, for at most
  \<open>window_max_on_ms\<close> in all; and never when haptics are disabled.
\<close>

theorem haptic_budget:
  assumes "sorted (map (\<lambda>op. he_now (op_env op)) ops)" and "\<forall>op \<in> set ops. he_mtime (op_env op) = m"
    and "starts = player_starts lib (new_player m f) ops" and "v - u < of_nat (hc_window (load_config f))"
  shows "length (filter (\<lambda>(t, on). u \<le> t \<and> t \<le> v) starts) \<le> hc_max_plays (load_config f) \<and>
    sum_list (map snd (filter (\<lambda>(t, on). u \<le> t \<and> t \<le> v) starts)) \<le> hc_max_on (load_config f) \<and>
    (\<not> hc_enabled (load_config f) \<longrightarrow> starts = [])"
proof -
  let ?p = "new_player m f"
  have p: "pl_cfg ?p = load_config f" "pl_mtime ?p = m" "pl_hist ?p = []" by (simp_all add: new_player_def)
  obtain t0 where srt: "sorted (t0 # map (\<lambda>op. he_now (op_env op)) ops)"
  proof (cases ops)
    case (Cons op os)
    then show ?thesis using assms(1) that [of "he_now (op_env op)"] by auto
  qed (use that in simp)
  obtain reqs where reqs: "sorted (t0 # map fst reqs)"
    and gr: "\<And>weight. spent u v (map (\<lambda>(t, on). (t, weight on)) starts) \<le>
        spent u v (snd (granted (allow (load_config f)) weight [] reqs))"
    and off: "\<not> hc_enabled (load_config f) \<Longrightarrow> starts = []"
    using starts_granted [OF _ srt, of ?p lib, unfolded p, folded assms(3)] assms(2) by metis
  have sr: "sorted (map fst reqs)" using reqs by simp
  have "spent u v (snd (granted (allow (load_config f)) (\<lambda>_. 1) [] reqs)) \<le> hc_max_plays (load_config f)"
    using play_budget.window_ok [OF TrueI _ sr prod.collapse [symmetric] assms(4)] by simp
  then have "spent u v (map (\<lambda>(t, on). (t, 1)) starts) \<le> hc_max_plays (load_config f)"
    using gr [of "\<lambda>_. 1"] by (rule le_trans [rotated])
  moreover have "spent u v (snd (granted (allow (load_config f)) (\<lambda>on. on) [] reqs)) \<le> hc_max_on (load_config f)"
    using on_budget.window_ok [OF TrueI refl sr prod.collapse [symmetric] assms(4)] by simp
  then have "spent u v (map (\<lambda>(t, on). (t, on)) starts) \<le> hc_max_on (load_config f)"
    using gr [of "\<lambda>on. on"] by (rule le_trans [rotated])
  moreover have "spent u v (map (\<lambda>(t, on). (t, 1)) starts) = length (filter (\<lambda>(t, on). u \<le> t \<and> t \<le> v) starts)"
    by (induct starts) (simp_all add: spent_Cons case_prod_unfold)
  ultimately show ?thesis using off by (simp add: spent_def case_prod_unfold)
qed

text \<open>The numbers below are parsed by a library function that knows one numeral.\<close>

definition haptic_lib :: pylib where
  "haptic_lib = \<lparr>lib_str = (\<lambda>_. []), lib_float = (\<lambda>_. None), lib_int = (\<lambda>s. if s = lit ''400'' then Some 400 else None)\<rparr>"

definition demo_haptic :: "time \<Rightarrow> haptic_env" where
  "demo_haptic t = \<lparr>he_now = t, he_mtime = None, he_file = NoFile, he_start = True\<rparr>"

lemma plan_capped_witness:
  "on_sum (plan_pattern [100, 50, 700] DEFAULTS) + off_sum (plan_pattern [100, 50, 700] DEFAULTS) \<le> 3000"
proof -
  have "even_ok [100, 50, 700]" by (auto simp: even_ok_def less_Suc_eq nth_Cons')
  then show ?thesis using plan_capped [of "[100, 50, 700]" DEFAULTS] by (simp add: DEFAULTS_def)
qed

text \<open>Two ticks ten milliseconds apart: the second comes too soon.\<close>

lemma haptic_budget_witness:
  "player_starts haptic_lib (new_player None NoFile) [LineOp (demo_haptic 0) (lit ''tick''), LineOp (demo_haptic 10) (lit ''tick'')] = [(0, 9)] \<and>
   length (filter (\<lambda>(t, on). (0 :: rat) \<le> t \<and> t \<le> 20) [(0 :: rat, 9 :: nat)]) \<le> 150"
proof -
  have s: "player_starts haptic_lib (new_player None NoFile)
      [LineOp (demo_haptic 0) (lit ''tick''), LineOp (demo_haptic 10) (lit ''tick'')] = [(0, 9)]"
    by (simp add: player_op_def handle_line_def single_def player_gate_def refresh_def allow_def op_charge_def new_player_def
        load_config_def demo_haptic_def DEFAULTS_def Let_def lit_def is_space_def strip_space_def)
  have "load_config NoFile = DEFAULTS" by (simp add: load_config_def)
  with haptic_budget [OF _ _ s [symmetric], where u = 0 and v = 20] s show ?thesis
    by (simp add: demo_haptic_def DEFAULTS_def)
qed

end
