(* ===== verification/Autosleep.thy ===== *)
theory Autosleep
  imports Phone_Gate Py_Text Hold_Timer
begin

text \<open>
  The suspend daemon \<^verbatim>\<open>power/s22-autosleep.py\<close>: the inhibitors, the wakeup-count handshake, one
  suspend and one round of the loop of \<open>run\<close>. What the round reads (clock, display state, flag file,
  process list, sound, USB, wakeup sources, kernel log) is the record \<open>sleep_env\<close>; the governor writes, the
  suspend and the pauses are a list of actions. Logging and the status file are left out. The configuration
  has the types of its default values.
\<close>

section \<open>Configuration\<close>

record sleep_cfg =
  sc_lock_grace :: time
  sc_awake :: time
  sc_net_awake :: time
  sc_max_sleep :: time
  sc_poll :: time
  sc_busy_pct :: time
  sc_busy_window :: time
  sc_ssh_inhibits :: bool
  sc_suspend_on_usb :: bool
  sc_ignore :: "pystr list"
  sc_locked_gov :: pystr
  sc_unlocked_gov :: pystr
  sc_governors :: bool
  sc_max_backoff :: time

definition SLEEP_CONFIG :: sleep_cfg where
  "SLEEP_CONFIG = \<lparr>sc_lock_grace = 30, sc_awake = 6, sc_net_awake = 5 / 2, sc_max_sleep = 900, sc_poll = 2,
     sc_busy_pct = 25, sc_busy_window = 6, sc_ssh_inhibits = True, sc_suspend_on_usb = False,
     sc_ignore = [lit ''dwc3-otg'', lit ''usb_notify''], sc_locked_gov = lit ''powersave'',
     sc_unlocked_gov = lit ''schedutil'', sc_governors = True, sc_max_backoff = 120\<rparr>"

section \<open>Inhibitors\<close>

text \<open>A file of the inhibitor directory: name, stripped content and age.\<close>

record inhibit_file =
  if_name :: pystr
  if_ttl :: pystr
  if_age :: "time option"

text \<open>\<open>age > float(ttl)\<close>; a text that is no number raises, which keeps the file.\<close>

definition ttl_over :: "pylib \<Rightarrow> time \<Rightarrow> pystr \<Rightarrow> bool" where
  "ttl_over lib age ttl =
     (case lib_float lib ttl of
        Some (JFloat q) \<Rightarrow> q < age
      | Some (JInt i) \<Rightarrow> of_int i < age
      | Some (JInf pos) \<Rightarrow> \<not> pos
      | _ \<Rightarrow> False)"

definition expired_file :: "pylib \<Rightarrow> inhibit_file \<Rightarrow> bool" where
  "expired_file lib f \<longleftrightarrow>
     if_ttl f \<noteq> [] \<and> (case if_age f of None \<Rightarrow> False | Some a \<Rightarrow> ttl_over lib a (if_ttl f))"

text \<open>An expired file is removed; when the removal fails it counts.\<close>

definition inhibit_files :: "pylib \<Rightarrow> (pystr \<Rightarrow> bool) \<Rightarrow> inhibit_file list \<Rightarrow> pystr list" where
  "inhibit_files lib unlink_ok fs =
     map if_name (filter (\<lambda>f. \<not> (expired_file lib f \<and> unlink_ok (if_name f))) fs)"

datatype inhibitor = DisabledI | FileI pystr | SshI nat | PcmI pystr | BusyI time | UsbI | WakeupI "pystr list" | CallI

record sleep_facts =
  sf_flag :: bool
  sf_files :: "inhibit_file list"
  sf_unlink_ok :: "pystr \<Rightarrow> bool"
  sf_ssh :: nat
  sf_pcm :: "pystr option"
  sf_usb :: bool
  sf_wakeups :: "pystr list"
  sf_calls :: bool

definition inhibitors :: "pylib \<Rightarrow> sleep_cfg \<Rightarrow> time \<Rightarrow> sleep_facts \<Rightarrow> inhibitor list" where
  "inhibitors lib cfg busy w =
     (let act = filter (\<lambda>x. x \<notin> set (sc_ignore cfg)) (sf_wakeups w);
          why = (if sf_flag w then [DisabledI] else []) @
            map FileI (inhibit_files lib (sf_unlink_ok w) (sf_files w)) @
            (if sc_ssh_inhibits cfg \<and> sf_ssh w \<noteq> 0 then [SshI (sf_ssh w)] else []) @
            (case sf_pcm w of Some p \<Rightarrow> [PcmI p] | None \<Rightarrow> []) @
            (if sc_busy_pct cfg < busy then [BusyI busy] else []) @
            (if sf_usb w \<and> \<not> sc_suspend_on_usb cfg then [UsbI] else []) @
            (if act \<noteq> [] then [WakeupI (take 4 act)] else [])
      in if why = [] \<and> sf_calls w then [CallI] else why)"

section \<open>Handshake and suspend\<close>

text \<open>The read of \<open>wakeup_count\<close> may block (the alarm ends it), and the write may be refused.\<close>

definition wakeup_count_handshake :: "sleep_cfg \<Rightarrow> pystr list \<Rightarrow> bool \<Rightarrow> bool \<Rightarrow> bool option" where
  "wakeup_count_handshake cfg wakeups read_returns write_ok =
     (if list_ex (\<lambda>x. x \<in> set (sc_ignore cfg)) wakeups then None
      else if \<not> read_returns then Some False
      else Some write_ok)"

definition net_only_wake :: "pystr list \<Rightarrow> bool" where
  "net_only_wake reasons =
     (let rs = filter (\<lambda>x. take 5 x \<noteq> lit ''ABORT'') reasons in
      rs \<noteq> [] \<and> list_all (\<lambda>x. in_str (lit ''cp_mbox'') x \<or> in_str (lit ''MAILBOX_CP2AP'') x \<or> in_str (lit ''wlan_pci_wake'') x) rs)"

text \<open>
  What a suspend meets: whether the two writes of the alarm before it succeed (they are not guarded), whether the
  kernel took the request, how far the two clocks went, and the wake reasons of the kernel log.
\<close>

record suspend_env =
  su_rtc_ok :: bool
  su_err :: bool
  su_wall :: time
  su_mono :: time
  su_reasons :: "pystr list"

record cycle =
  cy_slept :: time
  cy_err :: bool
  cy_reasons :: "pystr list"

definition suspend_once :: "suspend_env \<Rightarrow> pyerr + cycle" where
  "suspend_once u =
     (if \<not> su_rtc_ok u then Inl OSError
      else Inr \<lparr>cy_slept = max 0 (su_wall u - su_mono u), cy_err = su_err u, cy_reasons = su_reasons u\<rparr>)"

section \<open>One round of the loop\<close>

datatype gov = LockedG | UnlockedG

record sleeper =
  sl_cfg :: sleep_cfg
  sl_last_cfg :: time
  sl_off_since :: "time option"
  sl_awake_until :: time
  sl_backoff :: time
  sl_hist :: "(time \<times> nat \<times> nat) list"
  sl_cycles :: nat
  sl_slept :: time
  sl_aborts :: nat
  sl_gov :: "gov option"

record sleep_env =
  en_now :: time
  en_cfg :: sleep_cfg
  en_cpu :: "nat \<times> nat"
  en_display :: pystr
  en_facts :: sleep_facts
  en_read_returns :: bool
  en_write_ok :: bool
  en_suspend :: suspend_env
  en_after :: time
  en_lib :: pylib

datatype sleep_act = SetGovernor pystr | Suspend time | Pause time

definition new_sleeper :: "sleep_cfg \<Rightarrow> time \<Rightarrow> sleeper" where
  "new_sleeper cfg now = \<lparr>sl_cfg = cfg, sl_last_cfg = now, sl_off_since = None, sl_awake_until = 0, sl_backoff = 5,
     sl_hist = [], sl_cycles = 0, sl_slept = 0, sl_aborts = 0, sl_gov = None\<rparr>"

text \<open>The mean load of the window, in percent; the newest sample is always in it.\<close>

definition busy_of :: "(time \<times> nat \<times> nat) list \<Rightarrow> time" where
  "busy_of h =
     (let (b0, t0) = snd (hd h); (b1, t1) = snd (List.last h)
      in 100 * (of_nat b1 - of_nat b0) / of_int (max 1 (int t1 - int t0)))"

definition set_gov :: "gov \<Rightarrow> sleeper \<Rightarrow> sleeper \<times> sleep_act list" where
  "set_gov g s =
     (s\<lparr>sl_gov := Some g\<rparr>,
      [SetGovernor (case g of LockedG \<Rightarrow> sc_locked_gov (sl_cfg s) | UnlockedG \<Rightarrow> sc_unlocked_gov (sl_cfg s))])"

text \<open>The governor of the locked phone; a disabled daemon gives it back.\<close>

definition locked_governor :: "bool \<Rightarrow> sleeper \<Rightarrow> sleeper \<times> sleep_act list" where
  "locked_governor flag s =
     (if flag then (if sl_gov s = Some LockedG then set_gov UnlockedG s else (s, []))
      else if sc_governors (sl_cfg s) \<and> sl_gov s \<noteq> Some LockedG then set_gov LockedG s
      else (s, []))"

definition round_tenth :: "time \<Rightarrow> time" where
  "round_tenth x =
     (let y = 10 * x; f = \<lfloor>y\<rfloor>; d = y - of_int f in
      of_int (if d < 1 / 2 \<or> d = 1 / 2 \<and> even f then f else f + 1) / 10)"

definition finish_cycle :: "time \<Rightarrow> cycle \<Rightarrow> sleeper \<Rightarrow> sleeper" where
  "finish_cycle after r s =
     (let cfg = sl_cfg s;
          s1 = s\<lparr>sl_cycles := Suc (sl_cycles s), sl_slept := round_tenth (sl_slept s + round_tenth (cy_slept r)), sl_hist := []\<rparr>
      in if cy_err r then
           s1\<lparr>sl_aborts := Suc (sl_aborts s), sl_awake_until := after + sl_backoff s,
              sl_backoff := min (sc_max_backoff cfg) (sl_backoff s * 2)\<rparr>
         else
           s1\<lparr>sl_backoff := 5,
              sl_awake_until := after + (if net_only_wake (cy_reasons r) then sc_net_awake cfg else sc_awake cfg)\<rparr>)"

text \<open>The start of a round: the configuration is read again every 30 s, the load sample joins its window.\<close>

definition sample :: "sleep_env \<Rightarrow> sleeper \<Rightarrow> sleeper" where
  "sample e s0 =
     (let s = (if 30 < en_now e - sl_last_cfg s0 then s0\<lparr>sl_cfg := en_cfg e, sl_last_cfg := en_now e\<rparr> else s0)
      in s\<lparr>sl_hist := filter (\<lambda>h. en_now e - fst h \<le> sc_busy_window (sl_cfg s) + 1 / 2) (sl_hist s @ [(en_now e, en_cpu e)])\<rparr>)"

definition off_for :: "sleep_env \<Rightarrow> sleeper \<Rightarrow> time" where
  "off_for e s = (case sl_off_since s of Some t \<Rightarrow> en_now e - t | None \<Rightarrow> 0)"

text \<open>
  A round; \<open>Inl\<close> ends the daemon. A window shorter than the half second below zero leaves no sample, and the
  unpacking of \<open>hist[0]\<close> raises.
\<close>

definition sleep_round :: "sleep_env \<Rightarrow> sleeper \<Rightarrow> sleeper \<times> sleep_act list \<times> (pyerr + unit)" where
  "sleep_round e s0 =
     (let s = sample e s0; cfg = sl_cfg s; pause = Pause (sc_poll cfg) in
      if sl_hist s = [] then (s, [], Inl IndexError)
      else if en_display e \<noteq> lit ''off'' then
        (let s1 = s\<lparr>sl_off_since := None\<rparr>;
             (s2, acts) = (if sc_governors cfg \<and> sl_gov s1 \<noteq> Some UnlockedG then set_gov UnlockedG s1 else (s1, []))
         in (s2, acts @ [pause], Inr ()))
      else
        (let s1 = s\<lparr>sl_off_since := Some (case sl_off_since s of Some t \<Rightarrow> t | None \<Rightarrow> en_now e)\<rparr>;
             (s2, acts) = locked_governor (sf_flag (en_facts e)) s1
         in if off_for e s2 < sc_lock_grace cfg \<or> en_now e < sl_awake_until s2 then (s2, acts @ [pause], Inr ())
            else if inhibitors (en_lib e) cfg (busy_of (sl_hist s2)) (en_facts e) \<noteq> [] then (s2, acts @ [pause], Inr ())
            else if wakeup_count_handshake cfg (sf_wakeups (en_facts e)) (en_read_returns e) (en_write_ok e) = Some False then
              (s2\<lparr>sl_awake_until := en_after e + 2\<rparr>, acts, Inr ())
            else (case suspend_once (en_suspend e) of
                    Inl x \<Rightarrow> (s2, acts, Inl x)
                  | Inr r \<Rightarrow> (finish_cycle (en_after e) r s2, acts @ [Suspend (sc_max_sleep cfg)], Inr ()))))"

section \<open>Runs of the daemon\<close>

text \<open>A daemon that ended is started again by the keepalive service.\<close>

definition sleep_next :: "sleeper \<Rightarrow> sleep_env \<Rightarrow> sleeper" where
  "sleep_next s e =
     (case snd (snd (sleep_round e s)) of
        Inl _ \<Rightarrow> new_sleeper (en_cfg e) (en_after e)
      | Inr _ \<Rightarrow> fst (sleep_round e s))"

definition suspends :: "sleep_env \<Rightarrow> sleeper \<Rightarrow> bool" where
  "suspends e s \<longleftrightarrow> (\<exists>n. Suspend n \<in> set (fst (snd (sleep_round e s))))"

definition goes_on :: "sleep_env \<Rightarrow> sleeper \<Rightarrow> bool" where
  "goes_on e s \<longleftrightarrow> snd (snd (sleep_round e s)) = Inr ()"

lemma sample_keeps [simp]:
  "sl_off_since (sample e s) = sl_off_since s" "sl_awake_until (sample e s) = sl_awake_until s"
  "sl_backoff (sample e s) = sl_backoff s" "sl_gov (sample e s) = sl_gov s"
  "sl_cfg (sample e s) \<in> {sl_cfg s, en_cfg e}"
  by (simp_all add: sample_def Let_def)

lemma locked_governor_keeps [simp]:
  "sl_off_since (fst (locked_governor f s)) = sl_off_since s" "sl_awake_until (fst (locked_governor f s)) = sl_awake_until s"
  "sl_backoff (fst (locked_governor f s)) = sl_backoff s" "sl_cfg (fst (locked_governor f s)) = sl_cfg s"
  "sl_hist (fst (locked_governor f s)) = sl_hist s" "Suspend n \<notin> set (snd (locked_governor f s))"
  by (simp_all add: locked_governor_def set_gov_def)

lemma finish_cycle_keeps [simp]: "sl_off_since (finish_cycle a r s) = sl_off_since s" "sl_cfg (finish_cycle a r s) = sl_cfg s"
  by (simp_all add: finish_cycle_def Let_def)

text \<open>The state with which a round on a dark screen goes on to the inhibitors.\<close>

definition dark :: "sleep_env \<Rightarrow> sleeper \<Rightarrow> sleeper" where
  "dark e s = fst (locked_governor (sf_flag (en_facts e))
     ((sample e s)\<lparr>sl_off_since := Some (case sl_off_since s of Some t \<Rightarrow> t | None \<Rightarrow> en_now e)\<rparr>))"

definition clear_to_sleep :: "sleep_env \<Rightarrow> sleeper \<Rightarrow> bool" where
  "clear_to_sleep e s \<longleftrightarrow>
     (let d = dark e s; cfg = sl_cfg d in
      sl_hist d \<noteq> [] \<and> en_display e = lit ''off'' \<and> sc_lock_grace cfg \<le> off_for e d \<and> sl_awake_until d \<le> en_now e \<and>
      inhibitors (en_lib e) cfg (busy_of (sl_hist d)) (en_facts e) = [])"

definition shaken :: "sleep_env \<Rightarrow> sleeper \<Rightarrow> bool" where
  "shaken e s \<longleftrightarrow>
     wakeup_count_handshake (sl_cfg (dark e s)) (sf_wakeups (en_facts e)) (en_read_returns e) (en_write_ok e) \<noteq> Some False"

lemma dark_keeps [simp]:
  "sl_awake_until (dark e s) = sl_awake_until s" "sl_backoff (dark e s) = sl_backoff s"
  "sl_off_since (dark e s) = Some (case sl_off_since s of Some t \<Rightarrow> t | None \<Rightarrow> en_now e)"
  "sl_cfg (dark e s) = sl_cfg (sample e s)" "sl_hist (dark e s) = sl_hist (sample e s)"
  by (simp_all add: dark_def)

text \<open>A round in four cases.\<close>

lemma round_cases:
  obtains (no_sample) "sl_hist (sample e s) = []" "sleep_round e s = (sample e s, [], Inl IndexError)"
    | (lit) s1 acts where "en_display e \<noteq> lit ''off''" "sleep_round e s = (s1, acts, Inr ())" "sl_off_since s1 = None"
        "sl_awake_until s1 = sl_awake_until s" "sl_backoff s1 = sl_backoff s" "sl_cfg s1 = sl_cfg (sample e s)" "\<forall>n. Suspend n \<notin> set acts"
    | (waits) acts where "en_display e = lit ''off''" "sleep_round e s = (dark e s, acts, Inr ())" "\<forall>n. Suspend n \<notin> set acts"
    | (refused) acts where "clear_to_sleep e s" "\<not> shaken e s" "\<forall>n. Suspend n \<notin> set acts"
        "sleep_round e s = ((dark e s)\<lparr>sl_awake_until := en_after e + 2\<rparr>, acts, Inr ())"
    | (broken) acts where "clear_to_sleep e s" "\<not> su_rtc_ok (en_suspend e)" "sleep_round e s = (dark e s, acts, Inl OSError)"
        "\<forall>n. Suspend n \<notin> set acts"
    | (sleeps) r acts where "clear_to_sleep e s" "shaken e s" "suspend_once (en_suspend e) = Inr r"
        "sleep_round e s = (finish_cycle (en_after e) r (dark e s), acts @ [Suspend (sc_max_sleep (sl_cfg (sample e s)))], Inr ())"
proof -
  let ?s = "sample e s"
  let ?la = "snd (locked_governor (sf_flag (en_facts e)) (?s\<lparr>sl_off_since := Some (case sl_off_since s of Some t \<Rightarrow> t | None \<Rightarrow> en_now e)\<rparr>))"
  note rd = sleep_round_def [of e s, unfolded Let_def]
  show thesis
  proof (cases "sl_hist ?s = []")
    case True
    then show ?thesis using no_sample by (simp add: rd)
  next
    case h: False
    show ?thesis
    proof (cases "en_display e = lit ''off''")
      case False
      then show ?thesis using h by (intro lit [of "fst (sleep_round e s)" "fst (snd (sleep_round e s))"]) (auto simp: rd set_gov_def)
    next
      case off: True
      have d: "fst (locked_governor (sf_flag (en_facts e))
          (?s\<lparr>sl_off_since := Some (case sl_off_since s of Some t \<Rightarrow> t | None \<Rightarrow> en_now e)\<rparr>)) = dark e s" by (simp add: dark_def)
      note rd2 = rd [simplified h off simp_thms if_False if_True case_prod_unfold sample_keeps d]
      show ?thesis
      proof (cases "clear_to_sleep e s")
        case False
        then show ?thesis using h off
          by (intro waits [of "?la @ [Pause (sc_poll (sl_cfg ?s))]"]) (auto simp: rd2 clear_to_sleep_def Let_def not_le)
      next
        case True
        then have c: "\<not> off_for e (dark e s) < sc_lock_grace (sl_cfg ?s)" "\<not> en_now e < sl_awake_until s"
          "inhibitors (en_lib e) (sl_cfg ?s) (busy_of (sl_hist ?s)) (en_facts e) = []"
          by (simp_all add: clear_to_sleep_def Let_def)
        show ?thesis
        proof (cases "shaken e s")
          case False
          then show ?thesis using c by (intro refused [of ?la, OF True]) (simp_all add: rd2 shaken_def)
        next
          case sh: True
          then have sh2: "wakeup_count_handshake (sl_cfg ?s) (sf_wakeups (en_facts e)) (en_read_returns e) (en_write_ok e) \<noteq> Some False"
            by (simp add: shaken_def)
          show ?thesis
          proof (cases "suspend_once (en_suspend e)")
            case (Inl x)
            then have "\<not> su_rtc_ok (en_suspend e)" "x = OSError" by (auto simp: suspend_once_def split: if_splits)
            then show ?thesis using c sh2 Inl by (intro broken [of ?la, OF True]) (simp_all add: rd2)
          next
            case (Inr r)
            then show ?thesis using c sh2 by (intro sleeps [of r ?la, OF True sh]) (simp_all add: rd2)
          qed
        qed
      qed
    qed
  qed
qed

lemma sleep_next_off:
  "en_display e \<noteq> lit ''off'' \<Longrightarrow> sl_off_since (sleep_next s e) = None"
  "sl_off_since (sleep_next s e) = Some t \<Longrightarrow> sl_off_since s = Some t \<or> en_now e = t"
proof -
  have new: "sl_off_since (new_sleeper c n) = None" for c n by (simp add: new_sleeper_def)
  show "en_display e \<noteq> lit ''off'' \<Longrightarrow> sl_off_since (sleep_next s e) = None"
    by (cases rule: round_cases [of e s]) (auto simp: sleep_next_def new clear_to_sleep_def Let_def)
  show "sl_off_since (sleep_next s e) = Some t \<Longrightarrow> sl_off_since s = Some t \<or> en_now e = t"
    by (cases rule: round_cases [of e s]) (auto simp: sleep_next_def new split: option.splits)
qed

interpretation dark_timer: hold_timer sleep_next sl_off_since en_now "\<lambda>e. en_display e \<noteq> lit ''off''" "\<lambda>_. True"
  by unfold_locales (auto dest: sleep_next_off)

lemma suspends_clear:
  assumes "suspends e s"
  shows "clear_to_sleep e s \<and> shaken e s \<and> su_rtc_ok (en_suspend e) \<and>
    (\<exists>r. suspend_once (en_suspend e) = Inr r \<and> sleep_next s e = finish_cycle (en_after e) r (dark e s))"
  using assms
  by (cases rule: round_cases [of e s]) (auto simp: suspends_def sleep_next_def suspend_once_def split: if_splits)

lemma dark_held:
  assumes "s = run_steps sleep_next (new_sleeper cfg t0) ins" and "en_display e = lit ''off''"
  shows "held_since en_now (\<lambda>e. en_display e \<noteq> lit ''off'') (ins @ [e]) (case sl_off_since s of Some t \<Rightarrow> t | None \<Rightarrow> en_now e)"
proof (cases "sl_off_since s")
  case None
  then show ?thesis using assms(2) by (simp add: held_since_start)
next
  case (Some t)
  have "sl_off_since (new_sleeper cfg t0) = None" by (simp add: new_sleeper_def)
  then have "held_since en_now (\<lambda>e. en_display e \<noteq> lit ''off'') ins t"
    using dark_timer.since_held [OF TrueI] Some assms(1) by simp
  then show ?thesis using Some assms(2) by (simp add: held_since_next)
qed

text \<open>
  C34. The daemon writes to the power state only on a phone that may sleep: the screen has been off in
  every round of the grace period and the minimum awake time is over; it is not disabled and no inhibitor
  file counts; no SSH session, sound stream or call is active, the load is not above the bound, no USB host is
  attached (unless the configuration says otherwise), every active wakeup source is one to ignore; and the
  wakeup counter was not refused.
\<close>

theorem sleeps_only_when_idle:
  assumes "s = run_steps sleep_next (new_sleeper cfg t0) ins" and "suspends e s" and "c = sl_cfg (sample e s)" and "w = en_facts e"
  shows "(\<exists>t. held_since en_now (\<lambda>e. en_display e \<noteq> lit ''off'') (ins @ [e]) t \<and> sc_lock_grace c \<le> en_now e - t) \<and>
    sl_awake_until s \<le> en_now e \<and>
    \<not> sf_flag w \<and> (\<forall>f \<in> set (sf_files w). expired_file (en_lib e) f \<and> sf_unlink_ok w (if_name f)) \<and>
    \<not> (sc_ssh_inhibits c \<and> sf_ssh w \<noteq> 0) \<and> sf_pcm w = None \<and> busy_of (sl_hist (sample e s)) \<le> sc_busy_pct c \<and>
    (sf_usb w \<longrightarrow> sc_suspend_on_usb c) \<and> set (sf_wakeups w) \<subseteq> set (sc_ignore c) \<and> \<not> sf_calls w \<and>
    ((\<exists>x \<in> set (sf_wakeups w). x \<in> set (sc_ignore c)) \<or> en_read_returns e \<and> en_write_ok e)"
proof -
  have cl: "clear_to_sleep e s" and sh: "shaken e s" using suspends_clear [OF assms(2)] by simp_all
  have off: "en_display e = lit ''off''" "sc_lock_grace c \<le> off_for e (dark e s)" "sl_awake_until s \<le> en_now e"
    and inh: "inhibitors (en_lib e) c (busy_of (sl_hist (sample e s))) w = []"
    using cl by (simp_all add: clear_to_sleep_def Let_def assms(3,4))
  have held: "\<exists>t. held_since en_now (\<lambda>e. en_display e \<noteq> lit ''off'') (ins @ [e]) t \<and> sc_lock_grace c \<le> en_now e - t"
    using dark_held [OF assms(1) off(1)] off(2) unfolding off_for_def by (auto simp: dark_keeps(3) simp del: dark_def)
  have act: "filter (\<lambda>x. x \<notin> set (sc_ignore c)) (sf_wakeups w) = []"
    and rest: "\<not> sf_flag w" "inhibit_files (en_lib e) (sf_unlink_ok w) (sf_files w) = []" "\<not> (sc_ssh_inhibits c \<and> sf_ssh w \<noteq> 0)"
      "sf_pcm w = None" "busy_of (sl_hist (sample e s)) \<le> sc_busy_pct c" "sf_usb w \<longrightarrow> sc_suspend_on_usb c" "\<not> sf_calls w"
    using inh unfolding inhibitors_def Let_def by (auto split: if_splits option.splits)
  have files: "\<forall>f \<in> set (sf_files w). expired_file (en_lib e) f \<and> sf_unlink_ok w (if_name f)"
    using rest(2) by (auto simp: inhibit_files_def filter_empty_conv)
  have wake: "set (sf_wakeups w) \<subseteq> set (sc_ignore c)" using act by (auto simp: filter_empty_conv)
  have "(\<exists>x \<in> set (sf_wakeups w). x \<in> set (sc_ignore c)) \<or> en_read_returns e \<and> en_write_ok e"
    using sh by (auto simp: shaken_def wakeup_count_handshake_def list_ex_iff assms(3,4) split: if_splits)
  then show ?thesis using held off(3) rest files wake by blast
qed

text \<open>The minimum awake time after a cycle.\<close>

definition wait_after :: "sleep_env \<Rightarrow> sleeper \<Rightarrow> time" where
  "wait_after e s =
     (if su_err (en_suspend e) then sl_backoff s
      else if net_only_wake (su_reasons (en_suspend e)) then sc_net_awake (sl_cfg (sample e s)) else sc_awake (sl_cfg (sample e s)))"

definition sane_cfg :: "sleep_cfg \<Rightarrow> bool" where
  "sane_cfg c \<longleftrightarrow> 0 \<le> sc_awake c \<and> 0 \<le> sc_net_awake c \<and> 0 \<le> sc_max_backoff c"

lemma finish_awake:
  "suspend_once (en_suspend e) = Inr r \<Longrightarrow> sl_awake_until (finish_cycle a r (dark e s)) = a + wait_after e s"
  by (auto simp: finish_cycle_def Let_def wait_after_def suspend_once_def split: if_splits)

lemma sample_sane: "sane_cfg (sl_cfg s) \<Longrightarrow> sane_cfg (en_cfg e) \<Longrightarrow> sane_cfg (sl_cfg (sample e s))"
  using sample_keeps(5) [of e s] by (auto simp del: sample_keeps(5))

definition steady :: "sleeper \<Rightarrow> bool" where
  "steady s \<longleftrightarrow> sane_cfg (sl_cfg s) \<and> 0 \<le> sl_backoff s"

lemma sleep_next_steady:
  assumes "steady s" and "sane_cfg (en_cfg e)"
  shows "steady (sleep_next s e)"
proof -
  have sc: "sane_cfg (sl_cfg (sample e s))" using sample_sane assms by (simp add: steady_def)
  show ?thesis using assms sc
    by (cases rule: round_cases [of e s])
      (auto simp: sleep_next_def steady_def new_sleeper_def finish_cycle_def sane_cfg_def Let_def)
qed

lemma awake_until_grows:
  assumes "steady s" and "sane_cfg (en_cfg e)" and "en_now e \<le> en_after e" and "goes_on e s" and "a \<le> sl_awake_until s"
  shows "a \<le> sl_awake_until (sleep_next s e)"
proof -
  have sc: "sane_cfg (sl_cfg (sample e s))" using sample_sane assms(1,2) by (simp add: steady_def)
  then have w: "0 \<le> wait_after e s" using assms(1) by (simp add: wait_after_def steady_def sane_cfg_def)
  show ?thesis
    using assms(3-) w finish_awake [of e _ "en_after e" s]
    by (cases rule: round_cases [of e s]) (auto simp: sleep_next_def goes_on_def clear_to_sleep_def Let_def)
qed

fun all_go_on :: "sleeper \<Rightarrow> sleep_env list \<Rightarrow> bool" where
  "all_go_on s [] = True"
| "all_go_on s (e # es) \<longleftrightarrow> goes_on e s \<and> all_go_on (sleep_next s e) es"

lemma awake_until_run:
  assumes "steady s" and "\<forall>e \<in> set es. sane_cfg (en_cfg e) \<and> en_now e \<le> en_after e" and "all_go_on s es" and "a \<le> sl_awake_until s"
  shows "a \<le> sl_awake_until (run_steps sleep_next s es)"
  using assms
proof (induction es arbitrary: s)
  case (Cons e es)
  then show ?case using awake_until_grows [of s e a] sleep_next_steady [of s e] by simp
qed simp

text \<open>
  Between two suspends without a restart of the daemon the phone is awake for the minimum time:
  \<open>awake_s\<close> after a normal wake, \<open>net_awake_s\<close> after one caused by the modem or Wi-Fi alone, and the
  growing back-off after a suspend the kernel refused.
\<close>

theorem awake_between_sleeps:
  assumes "s = run_steps sleep_next (new_sleeper cfg t0) ins" and "suspends x s"
    and "u = run_steps sleep_next (sleep_next s x) mid" and "all_go_on (sleep_next s x) mid" and "suspends y u"
    and "\<forall>e \<in> set (ins @ x # mid). sane_cfg (en_cfg e) \<and> en_now e \<le> en_after e" and "sane_cfg cfg"
  shows "en_after x + wait_after x s \<le> en_now y \<and> 0 \<le> wait_after x s"
proof -
  have "steady (new_sleeper cfg t0)" using assms(7) by (simp add: steady_def new_sleeper_def)
  then have st: "steady (run_steps sleep_next (new_sleeper cfg t0) es)" if "\<forall>e \<in> set es. sane_cfg (en_cfg e)" for es
    using that by (induction es rule: rev_induct) (simp_all add: sleep_next_steady)
  have ss: "steady s" using st [of ins] assms(1,6) by simp
  obtain r where r: "suspend_once (en_suspend x) = Inr r" "sleep_next s x = finish_cycle (en_after x) r (dark x s)"
    using suspends_clear [OF assms(2)] by blast
  have a: "sl_awake_until (sleep_next s x) = en_after x + wait_after x s" using finish_awake r by simp
  have "steady (sleep_next s x)" using ss assms(6) by (simp add: sleep_next_steady)
  then have "en_after x + wait_after x s \<le> sl_awake_until u"
    unfolding assms(3) using assms(4,6) a by (intro awake_until_run) auto
  moreover have "sl_awake_until u \<le> en_now y"
    using suspends_clear [OF assms(5)] by (simp add: clear_to_sleep_def Let_def)
  moreover have "sane_cfg (sl_cfg (sample x s))" using sample_sane ss assms(6) by (simp add: steady_def)
  then have "0 \<le> wait_after x s" using ss by (simp add: wait_after_def steady_def sane_cfg_def)
  ultimately show ?thesis by simp
qed

text \<open>A phone that lies dark and idle, with two looks a minute apart.\<close>

definition idle_facts :: sleep_facts where
  "idle_facts = \<lparr>sf_flag = False, sf_files = [], sf_unlink_ok = (\<lambda>_. True), sf_ssh = 0, sf_pcm = None, sf_usb = False,
     sf_wakeups = [], sf_calls = False\<rparr>"

definition idle_round :: "time \<Rightarrow> time \<Rightarrow> sleep_env" where
  "idle_round t a = \<lparr>en_now = t, en_cfg = SLEEP_CONFIG, en_cpu = (0, 0), en_display = lit ''off'', en_facts = idle_facts,
     en_read_returns = True, en_write_ok = True,
     en_suspend = \<lparr>su_rtc_ok = True, su_err = False, su_wall = a - t, su_mono = 1, su_reasons = []\<rparr>, en_after = a,
     en_lib = \<lparr>lib_str = (\<lambda>_. []), lib_float = (\<lambda>_. None), lib_int = (\<lambda>_. None)\<rparr>\<rparr>"

lemmas idle_simps = idle_round_def idle_facts_def SLEEP_CONFIG_def new_sleeper_def sleep_round_def sleep_next_def sample_def
  locked_governor_def set_gov_def off_for_def inhibitors_def inhibit_files_def busy_of_def wakeup_count_handshake_def
  suspend_once_def finish_cycle_def net_only_wake_def suspends_def goes_on_def round_tenth_def

lemma demo_suspends:
  "suspends (idle_round 31 40) (run_steps sleep_next (new_sleeper SLEEP_CONFIG 0) [idle_round 0 0])"
  "suspends (idle_round 46 60) (sleep_next (run_steps sleep_next (new_sleeper SLEEP_CONFIG 0) [idle_round 0 0]) (idle_round 31 40))"
  by (simp_all add: idle_simps Let_def)

lemma sleeps_only_when_idle_witness:
  "\<exists>t. held_since en_now (\<lambda>e. en_display e \<noteq> lit ''off'') [idle_round 0 0, idle_round 31 40] t \<and> 30 \<le> 31 - t"
  using sleeps_only_when_idle [OF refl demo_suspends(1) refl refl] by (simp add: idle_simps Let_def)

lemma awake_between_sleeps_witness:
  "\<exists>s. suspends (idle_round 31 40) s \<and> en_after (idle_round 31 40) + wait_after (idle_round 31 40) s \<le> en_now (idle_round 46 60)"
  using awake_between_sleeps [OF refl demo_suspends(1) refl, of "[]" "idle_round 46 60"] demo_suspends
  by (intro exI [of _ "run_steps sleep_next (new_sleeper SLEEP_CONFIG 0) [idle_round 0 0]"])
    (simp add: sane_cfg_def idle_round_def SLEEP_CONFIG_def)

end
