(* ===== verification/Keepalive.thy ===== *)
theory Keepalive
  imports Phone_Gate Py_Text Hold_Timer
begin

text \<open>
  The service supervisor \<^verbatim>\<open>s22-keepalive.py\<close>: which process lines count, which services are managed,
  \<open>Keepalive.decide\<close>, \<open>restart\<close> and \<open>check_once\<close>, the mute guard's readings and the model pin. What the
  process list, the health probes, the hold files and the start commands answer are arguments; stops, starts and
  writes are a list of actions. Logging is left out. The configuration has the types of its default values.
\<close>

section \<open>Processes\<close>

text \<open>\<open>int(line.split()[0])\<close>, where an empty line or no number skips the line.\<close>

definition pid_of :: "pylib \<Rightarrow> pystr \<Rightarrow> int option" where
  "pid_of lib line = (case words line of [] \<Rightarrow> None | w # _ \<Rightarrow> lib_int lib w)"

definition pids_matching :: "pylib \<Rightarrow> pystr \<Rightarrow> pystr list \<Rightarrow> int list" where
  "pids_matching lib needle lines =
     List.map_filter (pid_of lib)
       (filter (\<lambda>l. in_str needle l \<and> \<not> in_str (lit ''grep'') l \<and> \<not> in_str (lit ''s22-keepalive'') l) lines)"

section \<open>The managed services\<close>

datatype managed = OpenUnum | Generic json

text \<open>
  Errors of the constructor of \<open>Generic\<close>: the definition is no object (\<open>spec['argv']\<close> raises), it has no \<open>argv\<close>, its
  \<open>argv\<close> is not iterable, or a \<open>needle\<close> aside, \<open>log\<close> is true but no string.
\<close>

definition generic_error :: "json \<Rightarrow> pyerr option" where
  "generic_error spec =
     (if \<not> is_obj spec then Some TypeError
      else (case map_of (jfields spec) (lit ''argv'') of
              None \<Rightarrow> Some KeyError
            | Some v \<Rightarrow>
                (case v of
                   JArr _ \<Rightarrow> (if truthy (jget spec ''log'') \<and> as_str (jget spec ''log'') = None then Some TypeError else None)
                 | JStr _ \<Rightarrow> (if truthy (jget spec ''log'') \<and> as_str (jget spec ''log'') = None then Some TypeError else None)
                 | JObj _ \<Rightarrow> (if truthy (jget spec ''log'') \<and> as_str (jget spec ''log'') = None then Some TypeError else None)
                 | _ \<Rightarrow> Some TypeError)))"

datatype skip_reason = BadDefinition pyerr | MissingPath pystr | UnknownService

text \<open>A required path that is true but no string makes \<open>Path\<close> raise; that is not caught.\<close>

definition service_of :: "(pystr, json) dict \<Rightarrow> (pystr \<Rightarrow> bool) \<Rightarrow> pystr \<Rightarrow> pyerr + (skip_reason + managed)" where
  "service_of defs path_exists name =
     (if name = lit ''openunum'' then Inr (Inr OpenUnum)
      else (case map_of defs name of
              None \<Rightarrow> Inr (Inl UnknownService)
            | Some spec \<Rightarrow>
                (case generic_error spec of
                   Some x \<Rightarrow> Inr (Inl (BadDefinition x))
                 | None \<Rightarrow>
                     (let req = jget spec ''requires'' in
                      if \<not> truthy req then Inr (Inr (Generic spec))
                      else (case as_str req of
                              None \<Rightarrow> Inl TypeError
                            | Some p \<Rightarrow> Inr (if path_exists p then Inr (Generic spec) else Inl (MissingPath p)))))))"

fun build_services :: "(pystr, json) dict \<Rightarrow> (pystr \<Rightarrow> bool) \<Rightarrow> pystr list \<Rightarrow>
    (pystr, managed) dict \<Rightarrow> (pystr, skip_reason) dict \<Rightarrow> pyerr + (pystr, managed) dict \<times> (pystr, skip_reason) dict" where
  "build_services defs ex [] out skipped = Inr (out, skipped)"
| "build_services defs ex (n # ns) out skipped =
     try_r (service_of defs ex n) (\<lambda>r.
       case r of
         Inl why \<Rightarrow> build_services defs ex ns out (AList.update n why skipped)
       | Inr svc \<Rightarrow> build_services defs ex ns (AList.update n svc out) skipped)"

section \<open>Restart decisions\<close>

text \<open>The limits of a service: the override of its definition, else the global value.\<close>

record limits =
  lm_unhealthy :: time
  lm_window :: time
  lm_max_restarts :: nat
  lm_backoff_start :: time
  lm_backoff_max :: time

record svc_state =
  sv_bad_since :: "time option"
  sv_next_try :: time
  sv_backoff :: time
  sv_history :: "time list"

definition new_svc :: "limits \<Rightarrow> svc_state" where
  "new_svc lm = \<lparr>sv_bad_since = None, sv_next_try = 0, sv_backoff = lm_backoff_start lm, sv_history = []\<rparr>"

datatype decision = OkD | WaitD | RestartD | LimitedD

definition decide :: "limits \<Rightarrow> bool \<Rightarrow> bool \<Rightarrow> time \<Rightarrow> svc_state \<Rightarrow> svc_state \<times> decision" where
  "decide lm running healthy now s =
     (if running \<and> healthy then (s\<lparr>sv_bad_since := None, sv_backoff := lm_backoff_start lm\<rparr>, OkD)
      else (let since = (case sv_bad_since s of None \<Rightarrow> now | Some t \<Rightarrow> t); s1 = s\<lparr>sv_bad_since := Some since\<rparr> in
            if running \<and> now - since < lm_unhealthy lm then (s1, WaitD)
            else if now < sv_next_try s1 then (s1, WaitD)
            else (let s2 = s1\<lparr>sv_history := filter (\<lambda>t. now - t < lm_window lm) (sv_history s1)\<rparr> in
                  if lm_max_restarts lm \<le> length (sv_history s2) then (s2, LimitedD) else (s2, RestartD))))"

definition note_restart :: "limits \<Rightarrow> time \<Rightarrow> svc_state \<Rightarrow> svc_state" where
  "note_restart lm now s =
     s\<lparr>sv_history := sv_history s @ [now], sv_next_try := now + sv_backoff s,
       sv_backoff := min (sv_backoff s * 2) (lm_backoff_max lm)\<rparr>"

datatype keep_act = StopS pystr | PinFile | StartS pystr | SwitchModel pystr pystr

definition restart :: "limits \<Rightarrow> bool \<Rightarrow> pystr \<Rightarrow> bool \<Rightarrow> time \<Rightarrow> svc_state \<Rightarrow> svc_state \<times> keep_act list" where
  "restart lm pin name running now s =
     (note_restart lm now s,
      (if running then [StopS name] else []) @ (if name = lit ''openunum'' \<and> pin then [PinFile] else []) @ [StartS name])"

text \<open>What a check finds about one service.\<close>

record svc_obs =
  ob_hold :: bool
  ob_running :: bool
  ob_healthy :: bool

datatype svc_result = HeldR | CheckedR bool bool decision

record keeper =
  kp_svc :: "pystr \<Rightarrow> svc_state"
  kp_limited :: "pystr set"
  kp_held :: "pystr set"

definition check_service ::
    "(pystr \<Rightarrow> limits) \<Rightarrow> bool \<Rightarrow> bool \<Rightarrow> time \<Rightarrow> (pystr \<Rightarrow> svc_obs) \<Rightarrow> pystr \<Rightarrow> keeper \<Rightarrow>
     keeper \<times> svc_result \<times> keep_act list" where
  "check_service lms pin fix_it now obs name k =
     (let o1 = obs name in
      if ob_hold o1 then (k\<lparr>kp_held := insert name (kp_held k)\<rparr>, HeldR, [])
      else
        (let k1 = k\<lparr>kp_held := kp_held k - {name}\<rparr>; healthy = (ob_running o1 \<and> ob_healthy o1);
             (s1, d) = decide (lms name) (ob_running o1) healthy now (kp_svc k1 name);
             (s2, acts) = (if d = RestartD \<and> fix_it then restart (lms name) pin name (ob_running o1) now s1 else (s1, []));
             lim1 = (if d = LimitedD then insert name (kp_limited k1) else kp_limited k1);
             lim2 = (if d = OkD then lim1 - {name} else lim1)
         in (k1\<lparr>kp_svc := (kp_svc k1)(name := s2), kp_limited := lim2\<rparr>, CheckedR (ob_running o1) healthy d, acts)))"

fun check_services ::
    "(pystr \<Rightarrow> limits) \<Rightarrow> bool \<Rightarrow> bool \<Rightarrow> time \<Rightarrow> (pystr \<Rightarrow> svc_obs) \<Rightarrow> pystr list \<Rightarrow> keeper \<Rightarrow>
     keeper \<times> (pystr \<times> svc_result) list \<times> keep_act list" where
  "check_services lms pin fix_it now obs [] k = (k, [], [])"
| "check_services lms pin fix_it now obs (n # ns) k =
     (let (k1, r, acts) = check_service lms pin fix_it now obs n k;
          (k2, rs, acts2) = check_services lms pin fix_it now obs ns k1
      in (k2, (n, r) # rs, acts @ acts2))"

section \<open>The mute guard\<close>

text \<open>The first line that starts with \<open>: values=\<close>; a text that is no number gives nothing.\<close>

definition cget_prefix :: pystr where "cget_prefix = lit '': values=''"

fun first_values :: "pystr list \<Rightarrow> pystr option" where
  "first_values [] = None"
| "first_values (l # ls) =
     (let s = strip_space l in
      if take (length cget_prefix) s = cget_prefix then Some (hd (split_at_char 44 (drop 1 (dropWhile (\<lambda>c. c \<noteq> 61) s))))
      else first_values ls)"

definition parse_cget :: "pylib \<Rightarrow> pystr \<Rightarrow> int option" where
  "parse_cget lib out = Option.bind (first_values (split_lines out)) (lib_int lib)"

record mute_state =
  mu_level :: "int option"
  mu_amp :: "int option list option"

text \<open>The text of the volume file, whether there is a sound card, and the output per control (\<open>None\<close>: the command failed).\<close>

definition read_mute_state :: "pylib \<Rightarrow> pystr option \<Rightarrow> bool \<Rightarrow> pystr option list \<Rightarrow> mute_state" where
  "read_mute_state lib volume has_card outs =
     \<lparr>mu_level = Option.bind volume (\<lambda>v. lib_int lib (strip_space v)),
      mu_amp = (if has_card then Some (map (\<lambda>x. Option.bind x (parse_cget lib)) outs) else None)\<rparr>"

definition loud :: "int option \<Rightarrow> bool" where
  "loud v \<longleftrightarrow> v \<noteq> Some 0 \<and> v \<noteq> None"

definition needs_mute :: "mute_state \<Rightarrow> bool" where
  "needs_mute s \<longleftrightarrow> loud (mu_level s) \<or> (case mu_amp s of None \<Rightarrow> False | Some a \<Rightarrow> list_ex loud a)"

section \<open>The model pin\<close>

record pin =
  pn_provider :: pystr
  pn_model :: pystr
  pn_routing :: "(pystr, json) dict option"

definition pin_matches :: "json \<Rightarrow> pin \<Rightarrow> bool" where
  "pin_matches m p \<longleftrightarrow> jget m ''provider'' = JStr (pn_provider p) \<and> jget m ''model'' = JStr (pn_model p)"

definition allowed_choice :: "json \<Rightarrow> (pystr \<times> pystr) list \<Rightarrow> bool" where
  "allowed_choice m allow = list_ex (\<lambda>(p, q). pin_matches m \<lparr>pn_provider = p, pn_model = q, pn_routing = None\<rparr>) allow"

text \<open>\<open>dict(x or {})\<close>, and \<open>{**d, **r}\<close>: the keys of \<open>r\<close> replace or follow those of \<open>d\<close>.\<close>

definition obj_or_empty :: "json \<Rightarrow> (pystr, json) dict" where
  "obj_or_empty v = (if truthy v then jfields v else [])"

definition merge_dict :: "(pystr, json) dict \<Rightarrow> (pystr, json) dict \<Rightarrow> (pystr, json) dict" where
  "merge_dict d r = foldl (\<lambda>acc (k, v). AList.update k v acc) d r"

definition pinned_model :: "json \<Rightarrow> pin \<Rightarrow> (pystr, json) dict" where
  "pinned_model m p =
     (let m1 = AList.update (lit ''model'') (JStr (pn_model p))
                 (AList.update (lit ''provider'') (JStr (pn_provider p)) (obj_or_empty m));
          pm = AList.update (pn_provider p) (JStr (pn_model p)) (obj_or_empty (jget (JObj m1) ''providerModels''));
          m2 = AList.update (lit ''providerModels'') (JObj pm) m1
      in case pn_routing p of
           None \<Rightarrow> m2
         | Some r \<Rightarrow> AList.update (lit ''routing'') (JObj (merge_dict (obj_or_empty (jget (JObj m2) ''routing'')) r)) m2)"

definition apply_pin :: "json \<Rightarrow> pin \<Rightarrow> json" where
  "apply_pin doc p = JObj (AList.update (lit ''model'') (JObj (pinned_model (jget doc ''model'') p)) (jfields doc))"

text \<open>
  \<open>pin_config_file\<close> on the parsed document: \<open>None\<close> when it is kept. The values of a pinned routing are strings
  and booleans, whose equality in Python is that of the values here.
\<close>

definition pin_routing_ok :: "json \<Rightarrow> pin \<Rightarrow> bool" where
  "pin_routing_ok m p =
     (case pn_routing p of
        None \<Rightarrow> True
      | Some r \<Rightarrow> list_all (\<lambda>(k, v). map_of (obj_or_empty (jget m ''routing'')) k = Some v) r)"

definition pin_document :: "json \<Rightarrow> pin \<Rightarrow> (pystr \<times> pystr) list \<Rightarrow> json option" where
  "pin_document doc p allow =
     (let m = (if truthy (jget doc ''model'') then jget doc ''model'' else JObj []) in
      if (pin_matches m p \<or> allowed_choice m allow) \<and> pin_routing_ok m p then None else Some (apply_pin doc p))"

datatype pin_api = WaitP | ErrorP | OkP | OwnerP | RestoredP | FailedP

text \<open>
  \<open>pin_via_api\<close>: the current model, which is an object, and the answer of the switch (\<open>None\<close>: the call raised).
\<close>

definition pin_via_api ::
    "pin \<Rightarrow> (pystr \<times> pystr) list \<Rightarrow> time \<Rightarrow> json option \<Rightarrow> json option \<Rightarrow> time \<Rightarrow> time \<Rightarrow> time \<times> pin_api \<times> keep_act list" where
  "pin_via_api p allow retry cur answer now next_try =
     (if now < next_try then (next_try, WaitP, [])
      else (case cur of
              None \<Rightarrow> (next_try, ErrorP, [])
            | Some m \<Rightarrow>
                if pin_matches m p then (next_try, OkP, [])
                else if allowed_choice m allow then (next_try, OwnerP, [])
                else (let ok = (case answer of
                                  None \<Rightarrow> False
                                | Some a \<Rightarrow> jget_or a ''ok'' (JBool True) \<noteq> JBool False \<and> pin_matches a p)
                      in (if ok then next_try else now + retry, if ok then RestoredP else FailedP,
                          [SwitchModel (pn_provider p) (pn_model p)]))))"

section \<open>One service\<close>

text \<open>The view of one service: a check at a time, with what it finds.\<close>

definition svc_check :: "limits \<Rightarrow> svc_state \<Rightarrow> time \<Rightarrow> svc_obs \<Rightarrow> svc_state \<times> bool" where
  "svc_check lm s now ob =
     (if ob_hold ob then (s, False)
      else (let (s1, d) = decide lm (ob_running ob) (ob_running ob \<and> ob_healthy ob) now s in
            if d = RestartD then (note_restart lm now s1, True) else (s1, False)))"

definition svc_next :: "limits \<Rightarrow> svc_state \<Rightarrow> time \<times> svc_obs \<Rightarrow> svc_state" where
  "svc_next lm s i = fst (svc_check lm s (fst i) (snd i))"

lemma check_service_view:
  assumes "check_service lms pin True now obs name k = (k', r, acts)"
  shows "kp_svc k' = (kp_svc k)(name := fst (svc_check (lms name) (kp_svc k name) now (obs name)))"
    and "StartS m \<in> set acts \<longleftrightarrow> m = name \<and> snd (svc_check (lms name) (kp_svc k name) now (obs name))"
    and "StopS m \<in> set acts \<longleftrightarrow> m = name \<and> ob_running (obs name) \<and> snd (svc_check (lms name) (kp_svc k name) now (obs name))"
  using assms
  by (auto simp: check_service_def svc_check_def restart_def Let_def case_prod_unfold split: if_splits)

lemma check_services_view:
  assumes "check_services lms pin True now obs names k = (k', rs, acts)" and "distinct names"
  shows "kp_svc k' n = (if n \<in> set names then fst (svc_check (lms n) (kp_svc k n) now (obs n)) else kp_svc k n)"
    and "StartS n \<in> set acts \<longleftrightarrow> n \<in> set names \<and> snd (svc_check (lms n) (kp_svc k n) now (obs n))"
    and "StopS n \<in> set acts \<longleftrightarrow> n \<in> set names \<and> ob_running (obs n) \<and> snd (svc_check (lms n) (kp_svc k n) now (obs n))"
proof -
  have "kp_svc k' n = (if n \<in> set names then fst (svc_check (lms n) (kp_svc k n) now (obs n)) else kp_svc k n) \<and>
    (StartS n \<in> set acts \<longleftrightarrow> n \<in> set names \<and> snd (svc_check (lms n) (kp_svc k n) now (obs n))) \<and>
    (StopS n \<in> set acts \<longleftrightarrow> n \<in> set names \<and> ob_running (obs n) \<and> snd (svc_check (lms n) (kp_svc k n) now (obs n)))"
    using assms
  proof (induction names arbitrary: k rs acts)
    case (Cons m names)
    obtain k1 r a1 where m: "check_service lms pin True now obs m k = (k1, r, a1)" by (metis prod_cases3)
    obtain rs2 a2 where r: "check_services lms pin True now obs names k1 = (k', rs2, a2)" and acts: "acts = a1 @ a2"
      using Cons.prems(1) by (auto simp: m split: prod.splits)
    note v = check_service_view [OF m]
    have "distinct names" "m \<notin> set names" using Cons.prems(2) by simp_all
    with Cons.IH [OF r] show ?case by (cases "n = m") (auto simp: v acts)
  qed simp
  then show "kp_svc k' n = (if n \<in> set names then fst (svc_check (lms n) (kp_svc k n) now (obs n)) else kp_svc k n)"
    "StartS n \<in> set acts \<longleftrightarrow> n \<in> set names \<and> snd (svc_check (lms n) (kp_svc k n) now (obs n))"
    "StopS n \<in> set acts \<longleftrightarrow> n \<in> set names \<and> ob_running (obs n) \<and> snd (svc_check (lms n) (kp_svc k n) now (obs n))"
    by blast+
qed

text \<open>Runs of \<open>check_once\<close> (with \<open>fix\<close>).\<close>

type_synonym check_in = "time \<times> (pystr \<Rightarrow> svc_obs)"

record keep_cfg =
  kc_limits :: "pystr \<Rightarrow> limits"
  kc_pin :: bool
  kc_services :: "pystr list"

definition check_acts :: "keep_cfg \<Rightarrow> keeper \<Rightarrow> check_in \<Rightarrow> keep_act list" where
  "check_acts c k i = snd (snd (check_services (kc_limits c) (kc_pin c) True (fst i) (snd i) (kc_services c) k))"

definition keep_next :: "keep_cfg \<Rightarrow> keeper \<Rightarrow> check_in \<Rightarrow> keeper" where
  "keep_next c k i = fst (check_services (kc_limits c) (kc_pin c) True (fst i) (snd i) (kc_services c) k)"

definition new_keeper :: "keep_cfg \<Rightarrow> keeper" where
  "new_keeper c = \<lparr>kp_svc = (\<lambda>n. new_svc (kc_limits c n)), kp_limited = {}, kp_held = {}\<rparr>"

definition view :: "pystr \<Rightarrow> check_in \<Rightarrow> time \<times> svc_obs" where
  "view n i = (fst i, snd i n)"

lemma keep_next_view:
  assumes "distinct (kc_services c)" and "n \<in> set (kc_services c)"
  shows "kp_svc (keep_next c k i) n = svc_next (kc_limits c n) (kp_svc k n) (view n i)"
    and "StartS n \<in> set (check_acts c k i) \<longleftrightarrow> snd (svc_check (kc_limits c n) (kp_svc k n) (fst i) (snd i n))"
    and "StopS n \<in> set (check_acts c k i) \<longleftrightarrow> ob_running (snd i n) \<and> snd (svc_check (kc_limits c n) (kp_svc k n) (fst i) (snd i n))"
proof -
  obtain k' rs acts where ch: "check_services (kc_limits c) (kc_pin c) True (fst i) (snd i) (kc_services c) k = (k', rs, acts)"
    by (metis prod_cases3)
  show "kp_svc (keep_next c k i) n = svc_next (kc_limits c n) (kp_svc k n) (view n i)"
    "StartS n \<in> set (check_acts c k i) \<longleftrightarrow> snd (svc_check (kc_limits c n) (kp_svc k n) (fst i) (snd i n))"
    "StopS n \<in> set (check_acts c k i) \<longleftrightarrow> ob_running (snd i n) \<and> snd (svc_check (kc_limits c n) (kp_svc k n) (fst i) (snd i n))"
    using check_services_view [OF ch assms(1), of n] assms(2) by (simp_all add: ch keep_next_def check_acts_def svc_next_def view_def)
qed

lemma keep_run_view:
  assumes "distinct (kc_services c)" and "n \<in> set (kc_services c)"
  shows "kp_svc (run_steps (keep_next c) k ins) n = run_steps (svc_next (kc_limits c n)) (kp_svc k n) (map (view n) ins)"
  by (induction ins arbitrary: k) (simp_all add: keep_next_view(1) [OF assms])

definition fine :: "time \<times> svc_obs \<Rightarrow> bool" where
  "fine i \<longleftrightarrow> \<not> ob_hold (snd i) \<and> ob_running (snd i) \<and> ob_healthy (snd i)"

interpretation bad_timer: hold_timer "svc_next lm" sv_bad_since fst fine "\<lambda>_. True" for lm
  by unfold_locales
    (auto simp: svc_next_def svc_check_def decide_def note_restart_def fine_def Let_def split: if_splits option.splits)

lemma svc_check_cases:
  assumes "svc_check lm s now ob = (s', True)"
  shows "\<not> ob_hold ob \<and> \<not> (ob_running ob \<and> ob_healthy ob) \<and> sv_next_try s \<le> now \<and>
    (ob_running ob \<longrightarrow> lm_unhealthy lm \<le> now - (case sv_bad_since s of None \<Rightarrow> now | Some t \<Rightarrow> t)) \<and>
    sv_history s' = filter (\<lambda>t. now - t < lm_window lm) (sv_history s) @ [now] \<and>
    length (filter (\<lambda>t. now - t < lm_window lm) (sv_history s)) < lm_max_restarts lm \<and>
    sv_next_try s' = now + sv_backoff s \<and> sv_backoff s' = min (sv_backoff s * 2) (lm_backoff_max lm) \<and>
    sv_bad_since s' = Some (case sv_bad_since s of None \<Rightarrow> now | Some t \<Rightarrow> t)"
  using assms by (auto simp: svc_check_def decide_def note_restart_def Let_def split: if_splits)

lemma svc_check_no:
  assumes "svc_check lm s now ob = (s', False)"
  shows "sv_next_try s' = sv_next_try s \<and> sv_backoff s' \<in> {sv_backoff s, lm_backoff_start lm} \<and>
    sv_history s' \<in> {sv_history s, filter (\<lambda>t. now - t < lm_window lm) (sv_history s)}"
  using assms by (auto simp: svc_check_def decide_def Let_def split: if_splits)

lemma spent_recent:
  assumes "t - u < w"
  shows "spent u t (map (\<lambda>h. (h, 1)) (filter (\<lambda>h. t - h < w) hs)) = spent u t (map (\<lambda>h. (h, 1)) hs)"
  using assms by (induction hs) (auto simp: spent_Cons)

interpretation restarts: window_budget "svc_check lm" "\<lambda>_. 1" "\<lambda>s. map (\<lambda>t. (t, 1)) (sv_history s)"
    "\<lambda>t u. t - u < lm_window lm" "lm_max_restarts lm" "\<lambda>_. True" for lm
proof (unfold_locales, goal_cases)
  case (3 s t r s' ok u)
  show ?case
  proof (cases ok)
    case True
    then show ?thesis using svc_check_cases [of lm s t r s'] 3 by (auto simp: spent_recent [simplified] spent_Cons)
  next
    case False
    then show ?thesis using svc_check_no [of lm s t r s'] 3 by (auto simp: spent_recent [simplified])
  qed
next
  case (4 s t r s' ok)
  then show ?case using svc_check_cases [of lm s t r s'] svc_check_no [of lm s t r s'] by (cases ok) fastforce+
next
  case (5 s t r s')
  have "sum_list (map (\<lambda>t. 1 :: nat) xs) = length xs" for xs :: "time list" by (induction xs) auto
  then show ?case using svc_check_cases [OF 5(2)] by (simp add: comp_def)
qed auto

text \<open>The restarts of a service in a run of checks.\<close>

fun restart_times :: "keep_cfg \<Rightarrow> pystr \<Rightarrow> keeper \<Rightarrow> check_in list \<Rightarrow> time list" where
  "restart_times c n k [] = []"
| "restart_times c n k (i # ins) =
     (if StartS n \<in> set (check_acts c k i) then [fst i] else []) @ restart_times c n (keep_next c k i) ins"

lemma restart_times_granted:
  assumes "distinct (kc_services c)" and "n \<in> set (kc_services c)"
  shows "map (\<lambda>t. (t, 1)) (restart_times c n k ins) =
    snd (granted (svc_check (kc_limits c n)) (\<lambda>_. 1) (kp_svc k n) (map (view n) ins))"
proof (induction ins arbitrary: k)
  case (Cons i ins)
  obtain s' ok where sc: "svc_check (kc_limits c n) (kp_svc k n) (fst i) (snd i n) = (s', ok)" by fastforce
  have "kp_svc (keep_next c k i) n = s'" "StartS n \<in> set (check_acts c k i) \<longleftrightarrow> ok"
    using keep_next_view [OF assms, of k i] by (simp_all add: svc_next_def view_def sc)
  then show ?case using Cons.IH [of "keep_next c k i"] by (simp add: view_def sc case_prod_unfold Let_def)
qed simp

text \<open>The back-off never falls below the smaller of its start and its cap, and the next try only moves forward.\<close>

definition min_gap :: "limits \<Rightarrow> time" where
  "min_gap lm = min (lm_backoff_start lm) (lm_backoff_max lm)"

lemma svc_next_gap:
  assumes "min_gap lm \<le> sv_backoff s" and "0 \<le> min_gap lm"
  shows "min_gap lm \<le> sv_backoff (svc_next lm s i) \<and> (t \<le> sv_next_try s \<longrightarrow> t \<le> sv_next_try (svc_next lm s i))"
proof -
  obtain s' ok where sc: "svc_check lm s (fst i) (snd i) = (s', ok)" by fastforce
  have m: "min_gap lm \<le> lm_backoff_start lm" "min_gap lm \<le> lm_backoff_max lm" by (simp_all add: min_gap_def)
  show ?thesis
  proof (cases ok)
    case True
    then show ?thesis using svc_check_cases [of lm s "fst i" "snd i" s'] sc assms m by (auto simp: svc_next_def)
  next
    case False
    then show ?thesis using svc_check_no [of lm s "fst i" "snd i" s'] sc assms m by (auto simp: svc_next_def)
  qed
qed

lemma svc_run_gap:
  assumes "min_gap lm \<le> sv_backoff s" and "0 \<le> min_gap lm"
  shows "min_gap lm \<le> sv_backoff (run_steps (svc_next lm) s ins) \<and> (t \<le> sv_next_try s \<longrightarrow> t \<le> sv_next_try (run_steps (svc_next lm) s ins))"
  using assms(1)
proof (induction ins arbitrary: s)
  case (Cons i ins)
  have g: "min_gap lm \<le> sv_backoff (svc_next lm s i) \<and> (t \<le> sv_next_try s \<longrightarrow> t \<le> sv_next_try (svc_next lm s i))"
    using svc_next_gap [OF Cons.prems assms(2)] .
  then show ?case using Cons.IH [of "svc_next lm s i"] by auto
qed simp

text \<open>
  C10. In every window shorter than \<open>window_s\<close> a service is restarted at most \<open>max_restarts\<close> times, whatever it
  and the other services do.
\<close>

theorem restart_budget:
  assumes "distinct (kc_services c)" and "n \<in> set (kc_services c)" and "sorted (map fst ins)"
    and "v - u < lm_window (kc_limits c n)"
  shows "length (filter (\<lambda>t. u \<le> t \<and> t \<le> v) (restart_times c n (new_keeper c) ins)) \<le> lm_max_restarts (kc_limits c n)"
proof -
  let ?lm = "kc_limits c n"
  let ?gr = "snd (granted (svc_check ?lm) (\<lambda>_. 1) (new_svc ?lm) (map (view n) ins))"
  have sr: "sorted (map fst (map (view n) ins))" using assms(3) by (simp add: view_def comp_def)
  have "spent u v ?gr \<le> lm_max_restarts ?lm"
    by (rule restarts.window_ok [OF TrueI _ sr prod.collapse [symmetric] assms(4)]) (simp add: new_svc_def)
  moreover have "?gr = map (\<lambda>t. (t, 1)) (restart_times c n (new_keeper c) ins)"
    using restart_times_granted [OF assms(1,2), of "new_keeper c" ins] by (simp add: new_keeper_def)
  moreover have "spent u v (map (\<lambda>t. (t, 1)) ts) = length (filter (\<lambda>t. u \<le> t \<and> t \<le> v) ts)" for ts :: "time list"
    by (induction ts) (simp_all add: spent_Cons)
  ultimately show ?thesis by simp
qed

text \<open>
  A service is restarted only when it is not held and not both running and answering; one that is running
  only after no check of the last \<open>unhealthy_s\<close> found it fine, and then it is stopped first; and two restarts of
  a service are at least the back-off apart.
\<close>

theorem restart_patience:
  assumes "distinct (kc_services c)" and "n \<in> set (kc_services c)" and "k = run_steps (keep_next c) (new_keeper c) ins"
    and "StartS n \<in> set (check_acts c k i)" and "0 \<le> min_gap (kc_limits c n)"
  shows "\<not> ob_hold (snd i n) \<and> \<not> (ob_running (snd i n) \<and> ob_healthy (snd i n)) \<and>
    (ob_running (snd i n) \<longrightarrow> StopS n \<in> set (check_acts c k i) \<and>
       (\<exists>t. held_since fst fine (map (view n) (ins @ [i])) t \<and> lm_unhealthy (kc_limits c n) \<le> fst i - t)) \<and>
    (StartS n \<in> set (check_acts c (run_steps (keep_next c) (keep_next c k i) mid) j) \<longrightarrow>
       min_gap (kc_limits c n) \<le> fst j - fst i)"
proof -
  let ?lm = "kc_limits c n"
  have k: "kp_svc k n = run_steps (svc_next ?lm) (new_svc ?lm) (map (view n) ins)"
    using keep_run_view [OF assms(1,2)] assms(3) by (simp add: new_keeper_def)
  obtain s' where sc: "svc_check ?lm (kp_svc k n) (fst i) (snd i n) = (s', True)"
    using assms(4) keep_next_view(2) [OF assms(1,2), of k i] by (cases "svc_check ?lm (kp_svc k n) (fst i) (snd i n)") simp
  note f = svc_check_cases [OF sc]
  have s': "svc_next ?lm (kp_svc k n) (view n i) = s'" by (simp add: svc_next_def view_def sc)
  have stop: "ob_running (snd i n) \<Longrightarrow> StopS n \<in> set (check_acts c k i)"
    using keep_next_view(3) [OF assms(1,2), of k i] sc by simp
  have "sv_bad_since (new_svc ?lm) = None" by (simp add: new_svc_def)
  moreover have "run_steps (svc_next ?lm) (new_svc ?lm) (map (view n) (ins @ [i])) = s'" using k s' by simp
  ultimately have held: "held_since fst fine (map (view n) (ins @ [i])) (case sv_bad_since (kp_svc k n) of None \<Rightarrow> fst i | Some t \<Rightarrow> t)"
    using bad_timer.since_held [OF TrueI, of "new_svc ?lm" ?lm "map (view n) (ins @ [i])"] f by simp
  have gap: "min_gap ?lm \<le> fst j - fst i"
    if js: "StartS n \<in> set (check_acts c (run_steps (keep_next c) (keep_next c k i) mid) j)"
  proof -
    let ?m = "run_steps (keep_next c) (keep_next c k i) mid"
    have "kp_svc (keep_next c k i) n = s'" using keep_next_view(1) [OF assms(1,2), of k i] s' by simp
    then have m: "kp_svc ?m n = run_steps (svc_next ?lm) s' (map (view n) mid)" using keep_run_view [OF assms(1,2)] by simp
    have "min_gap ?lm \<le> sv_backoff (new_svc ?lm)" by (simp add: new_svc_def min_gap_def)
    then have b: "min_gap ?lm \<le> sv_backoff (kp_svc k n)" unfolding k using svc_run_gap [OF _ assms(5)] by blast
    then have "min_gap ?lm \<le> sv_backoff s'" using svc_next_gap [OF _ assms(5)] s' by metis
    then have "fst i + min_gap ?lm \<le> sv_next_try (kp_svc ?m n)"
      unfolding m using svc_run_gap [OF _ assms(5), of s' _ "fst i + min_gap ?lm"] f b by simp
    moreover obtain s2 where "svc_check ?lm (kp_svc ?m n) (fst j) (snd j n) = (s2, True)"
      using js keep_next_view(2) [OF assms(1,2), of ?m j] by (cases "svc_check ?lm (kp_svc ?m n) (fst j) (snd j n)") simp
    then have "sv_next_try (kp_svc ?m n) \<le> fst j" using svc_check_cases by blast
    ultimately show ?thesis by simp
  qed
  show ?thesis using f stop held gap by blast
qed

section \<open>The pin restores the model and nothing else\<close>

lemma map_of_merge: "map_of (merge_dict d r) = map_of d ++ map_of (rev r)"
  unfolding merge_dict_def
proof (induction r arbitrary: d)
  case (Cons kv r)
  obtain k v where kv: "kv = (k, v)" by fastforce
  show ?case using Cons.IH [of "AList.update k v d"] unfolding kv by (auto simp: map_add_def fun_eq_iff split: option.splits)
qed simp

lemma keys_differ [simp]:
  "lit ''model'' \<noteq> lit ''provider''" "lit ''provider'' \<noteq> lit ''model''" "lit ''providerModels'' \<noteq> lit ''model''"
  "lit ''providerModels'' \<noteq> lit ''provider''" "lit ''routing'' \<noteq> lit ''model''" "lit ''routing'' \<noteq> lit ''provider''"
  "lit ''routing'' \<noteq> lit ''providerModels''" "lit ''model'' \<noteq> lit ''providerModels''" "lit ''provider'' \<noteq> lit ''providerModels''"
  "lit ''model'' \<noteq> lit ''routing''" "lit ''provider'' \<noteq> lit ''routing''" "lit ''providerModels'' \<noteq> lit ''routing''"
  by (simp_all add: lit_def)

lemma pinned_model_facts:
  "map_of (pinned_model m p) (lit ''provider'') = Some (JStr (pn_provider p))"
  "map_of (pinned_model m p) (lit ''model'') = Some (JStr (pn_model p))"
  "k \<notin> {lit ''provider'', lit ''model'', lit ''providerModels'', lit ''routing''} \<Longrightarrow>
     map_of (pinned_model m p) k = map_of (obj_or_empty m) k"
  by (auto simp: pinned_model_def Let_def split: option.splits)

lemma pinned_routing:
  assumes "pn_routing p = Some r" and "dict_ok r"
  shows "pin_routing_ok (JObj (pinned_model m p)) p"
proof -
  obtain old where o: "map_of (pinned_model m p) (lit ''routing'') = Some (JObj (merge_dict old r))"
    by (simp add: pinned_model_def Let_def assms(1))
  have "map_of (merge_dict old r) k = Some v" if "(k, v) \<in> set r" for k v
  proof -
    have "distinct (map fst (rev r))" using assms(2) by (simp add: dict_ok_def rev_map [symmetric])
    then have "map_of (rev r) k = Some v" using that by (intro map_of_is_SomeI) simp_all
    then show ?thesis by (simp add: map_of_merge)
  qed
  moreover from this have "r \<noteq> [] \<Longrightarrow> merge_dict old r \<noteq> []" by (cases r) fastforce+
  ultimately show ?thesis
    by (cases "r = []")
      (auto simp: pin_routing_ok_def assms(1) jget_def jget_or_def jfields_def o obj_or_empty_def truthy_def list_all_iff)
qed


text \<open>
  A restart does not clear the time since when the service was bad, and the back-off runs from the start of the
  check: the new process of a service that was restarted because it did not answer is restarted again at the
  first check after the back-off, however young it is, without the \<open>unhealthy_s\<close> a running process gets.
\<close>

lemma young_process_restarted:
  assumes "svc_check lm s now ob = (s', True)" and "ob_running ob" and "now + sv_backoff s \<le> later" and "now \<le> later"
    and "\<not> ob_hold ob2" and "\<not> ob_healthy ob2" and "length (filter (\<lambda>t. later - t < lm_window lm) (sv_history s')) < lm_max_restarts lm"
  shows "snd (svc_check lm s' later ob2)"
proof -
  note f = svc_check_cases [OF assms(1)]
  obtain t where t: "sv_bad_since s' = Some t" "lm_unhealthy lm \<le> later - t" using f assms(2,4) by fastforce
  then have "\<not> later - t < lm_unhealthy lm" "\<not> later < sv_next_try s'" using f assms(3) by simp_all
  then show ?thesis using assms(5-) t by (simp add: svc_check_def decide_def Let_def)
qed

text \<open>A service that is down: restarted at once, then after the back-off.\<close>

definition demo_keep :: keep_cfg where
  "demo_keep = \<lparr>kc_limits = (\<lambda>_. \<lparr>lm_unhealthy = 180, lm_window = 1800, lm_max_restarts = 5, lm_backoff_start = 30, lm_backoff_max = 600\<rparr>),
     kc_pin = False, kc_services = [[1]]\<rparr>"

definition down_at :: "time \<Rightarrow> check_in" where
  "down_at t = (t, \<lambda>_. \<lparr>ob_hold = False, ob_running = False, ob_healthy = False\<rparr>)"

lemmas demo_keep_simps = demo_keep_def down_at_def new_keeper_def new_svc_def check_acts_def keep_next_def check_service_def
  decide_def restart_def note_restart_def

lemma demo_restart: "StartS [1] \<in> set (check_acts demo_keep (run_steps (keep_next demo_keep) (new_keeper demo_keep) []) (down_at 0))"
  by (simp add: demo_keep_simps Let_def)

lemma restart_budget_witness:
  "length (filter (\<lambda>t. 0 \<le> t \<and> t \<le> 60) (restart_times demo_keep [1] (new_keeper demo_keep) [down_at 0, down_at 20, down_at 40])) \<le> 5"
  using restart_budget [of demo_keep "[1]" "[down_at 0, down_at 20, down_at 40]" 60 0] by (simp add: demo_keep_def down_at_def)

lemma restart_patience_witness:
  "StartS [1] \<notin> set (check_acts demo_keep (keep_next demo_keep (new_keeper demo_keep) (down_at 0)) (down_at 20))"
  using restart_patience [OF _ _ refl demo_restart, of "[]" "down_at 20"] by (simp add: demo_keep_def down_at_def min_gap_def)


end
