(* ===== verification/Guardian.thy ===== *)
theory Guardian
  imports Py_Text Hold_Timer
begin

text \<open>
  The thermal, runaway-process and resource guard \<^verbatim>\<open>s22-guardian.py\<close>: the class \<open>Guardian\<close>. A pass reads the
  temperatures, the process table, the memory and the disks; what it does (signals, nice values, hold files,
  alerts) is a list of actions. The directory of hold files is part of the state, with each file's mark whether
  it is the guardian's. The clock is read once per pass; logging and the status files are left out.
\<close>

section \<open>Configuration, processes and state\<close>

record guard_cfg =
  gc_warn :: time
  gc_hot :: time
  gc_critical :: time
  gc_restore :: time
  gc_confirm :: nat
  gc_hot_stop :: "(pystr, pystr) dict"
  gc_critical_stop :: "(pystr, pystr) dict"
  gc_background :: "pystr list"
  gc_runaway_pct :: time
  gc_runaway_s :: time
  gc_orphan_s :: time
  gc_allowlist :: "pystr list"
  gc_mem_alert :: time
  gc_mem_shed :: time
  gc_disk_floors :: "(pystr, time) dict"
  gc_disk_every :: time
  gc_alert_every :: time

definition GUARD_DEFAULTS :: guard_cfg where
  "GUARD_DEFAULTS = \<lparr>gc_warn = 60, gc_hot = 70, gc_critical = 80, gc_restore = 55, gc_confirm = 2,
     gc_hot_stop = [(lit ''llama'', lit ''llama-server -m /models/Qwen3.5-0.8B-Q4_0.gguf'')],
     gc_critical_stop = [(lit ''unumsearch'', lit ''unumsearch --config /srv/s22/unumsearch/config.toml serve'')],
     gc_background = [lit ''unumsearch --config'', lit ''llama-server -m''],
     gc_runaway_pct = 80, gc_runaway_s = 1800, gc_orphan_s = 600,
     gc_allowlist = map lit [''sway'', ''Hyprland'', ''quickshell'', ''squeekboard'', ''node src/server.mjs'',
       ''llama-server'', ''s22-keepalive'', ''s22-guardian'', ''s22-touchd'', ''s22-phoned'', ''s22-buttons'',
       ''s22-converse'', ''s22-assistant'', ''start-persistent-desktop'', ''sshd'', ''tailscaled'', ''cbd'', ''rild'',
       ''unumsearch'', ''seatd'', ''dbus-daemon'', ''native-guardian'', ''foot'', ''pi''],
     gc_mem_alert = 400, gc_mem_shed = 250, gc_disk_floors = [(lit ''/'', 10), (lit ''/srv/s22'', 3072)],
     gc_disk_every = 21600, gc_alert_every = 900\<rparr>"

record proc =
  pr_ppid :: int
  pr_state :: nat
  pr_ticks :: nat
  pr_comm :: pystr
  pr_cmd :: pystr
  pr_kthread :: bool

type_synonym proc_table = "(int \<times> proc) list"

datatype alert_key = ThermalA nat | RunawayA int | StuckA int | MemA | MemShedA | DiskA pystr

record guardian =
  gd_level :: nat
  gd_hist :: "nat list"
  gd_held :: "pystr list"
  gd_dir :: "(pystr, bool) dict"
  gd_reniced :: "(int, int) dict"
  gd_prev :: "int \<Rightarrow> (time \<times> nat) option"
  gd_busy :: "int \<Rightarrow> time option"
  gd_killed :: "int \<Rightarrow> time option"
  gd_stuck :: "int set"
  gd_alerts :: "alert_key \<Rightarrow> time option"
  gd_shed :: bool

record guard_env =
  ge_now :: time
  ge_me :: int
  ge_hz :: nat
  ge_hold_ok :: "pystr \<Rightarrow> bool"
  ge_nice :: "int \<Rightarrow> int option"
  ge_temps :: "time list"
  ge_table :: proc_table
  ge_mem :: "time option"
  ge_disks :: "(pystr \<times> time option) list"

datatype guard_act = TermP int | KillP int | Renice int int | HoldFile pystr | ReleaseFile pystr | Alert alert_key

definition guard_pids :: "int \<Rightarrow> pystr \<Rightarrow> proc_table \<Rightarrow> int list" where
  "guard_pids me needle table =
     map fst (filter (\<lambda>(p, r). in_str needle (pr_cmd r) \<and> p \<noteq> me \<and> \<not> pr_kthread r) table)"

section \<open>Alerts and holds\<close>

definition since_alert :: "time \<Rightarrow> alert_key \<Rightarrow> guardian \<Rightarrow> time" where
  "since_alert now k g = now - (case gd_alerts g k of Some t \<Rightarrow> t | None \<Rightarrow> - 1000000000)"

definition alert :: "guard_cfg \<Rightarrow> time \<Rightarrow> alert_key \<Rightarrow> bool \<Rightarrow> guardian \<Rightarrow> guardian \<times> guard_act list" where
  "alert c now k force g =
     (if \<not> force \<and> since_alert now k g < gc_alert_every c then (g, [])
      else (g\<lparr>gd_alerts := (gd_alerts g)(k \<mapsto> now)\<rparr>, [Alert k]))"

definition hold :: "guard_env \<Rightarrow> pystr \<Rightarrow> pystr \<Rightarrow> guardian \<Rightarrow> guardian \<times> guard_act list" where
  "hold e name needle g =
     (if \<not> ge_hold_ok e name then (g, [])
      else (g\<lparr>gd_dir := AList.update name True (gd_dir g), gd_held := List.insert name (gd_held g)\<rparr>,
            HoldFile name # map TermP (guard_pids (ge_me e) needle (ge_table e))))"

definition ours :: "guardian \<Rightarrow> pystr list" where
  "ours g = map fst (filter snd (gd_dir g))"

text \<open>The files go in the order of their names there; here the order is that of the state.\<close>

definition release_all :: "guardian \<Rightarrow> guardian \<times> guard_act list" where
  "release_all g =
     (let names = remdups (gd_held g @ ours g) in
      (g\<lparr>gd_dir := filter (\<lambda>(n, _). n \<notin> set names) (gd_dir g), gd_held := [], gd_reniced := []\<rparr>,
       map ReleaseFile names @ map (\<lambda>(p, n). Renice p n) (gd_reniced g)))"

section \<open>The thermal level\<close>

definition tmax :: "time list \<Rightarrow> time" where
  "tmax ts = (if ts = [] then 0 else Max (set ts))"

definition heat :: "guard_cfg \<Rightarrow> time \<Rightarrow> nat" where
  "heat c t = (if gc_critical c \<le> t then 3 else if gc_hot c \<le> t then 2 else if gc_warn c \<le> t then 1 else 0)"

text \<open>\<open>xs[-n:]\<close>, which is the whole list for 0.\<close>

definition last_n :: "nat \<Rightarrow> 'a list \<Rightarrow> 'a list" where
  "last_n n xs = (if n = 0 then xs else drop (length xs - n) xs)"

definition wanted_level :: "guard_cfg \<Rightarrow> nat \<Rightarrow> nat list \<Rightarrow> nat" where
  "wanted_level c want hist =
     (if 2 \<le> want \<and> gc_confirm c \<le> length hist then Min (set hist) else if 2 \<le> want then 1 else want)"

fun hold_all :: "guard_env \<Rightarrow> (pystr \<times> pystr) list \<Rightarrow> guardian \<Rightarrow> guardian \<times> guard_act list" where
  "hold_all e [] g = (g, [])"
| "hold_all e ((name, needle) # ns) g =
     (let (g1, a1) = (if name \<notin> set (gd_held g) \<or> guard_pids (ge_me e) needle (ge_table e) \<noteq> []
                      then hold e name needle g else (g, []));
          (g2, a2) = hold_all e ns g1
      in (g2, a1 @ a2))"

fun renice_pids :: "guard_env \<Rightarrow> int list \<Rightarrow> guardian \<Rightarrow> guardian \<times> guard_act list" where
  "renice_pids e [] g = (g, [])"
| "renice_pids e (p # ps) g =
     (let (g1, a1) = (if map_of (gd_reniced g) p \<noteq> None then (g, [])
                      else (case ge_nice e p of
                              None \<Rightarrow> (g, [])
                            | Some old \<Rightarrow> (g\<lparr>gd_reniced := AList.update p old (gd_reniced g)\<rparr>, [Renice p 19])));
          (g2, a2) = renice_pids e ps g1
      in (g2, a1 @ a2))"

definition level_stage :: "guard_env \<Rightarrow> guard_cfg \<Rightarrow> guardian \<Rightarrow> guardian \<times> guard_act list \<times> bool" where
  "level_stage e c g0 =
     (let t = tmax (ge_temps e); hist = last_n (gc_confirm c) (gd_hist g0 @ [heat c t]);
          g = g0\<lparr>gd_hist := hist\<rparr>; want = wanted_level c (heat c t) hist in
      if gd_level g < want then
        (let (g1, a) = alert c (ge_now e) (ThermalA want) True (g\<lparr>gd_level := want\<rparr>) in (g1, a, False))
      else if gd_level g \<noteq> 0 \<and> t < gc_restore c then
        (let (g1, a1) = release_all (g\<lparr>gd_level := 0\<rparr>); (g2, a2) = alert c (ge_now e) (ThermalA 0) True g1
         in (g2, a1 @ a2, True))
      else (g, [], False))"

text \<open>Holds and nice values left by an earlier instance.\<close>

definition stale_stage :: "guard_env \<Rightarrow> guard_cfg \<Rightarrow> guardian \<Rightarrow> guardian \<times> guard_act list" where
  "stale_stage e c g =
     (if gd_level g = 0 \<and> \<not> gd_shed g \<and> tmax (ge_temps e) < gc_restore c \<and> (gd_reniced g \<noteq> [] \<or> ours g \<noteq> [])
      then release_all g else (g, []))"

definition hot_stage :: "guard_env \<Rightarrow> guard_cfg \<Rightarrow> guardian \<Rightarrow> guardian \<times> guard_act list" where
  "hot_stage e c g = (if 2 \<le> gd_level g then hold_all e (gc_hot_stop c) g else (g, []))"

definition background_stage :: "guard_env \<Rightarrow> guard_cfg \<Rightarrow> guardian \<Rightarrow> guardian \<times> guard_act list" where
  "background_stage e c g =
     (if 2 \<le> gd_level g then
        renice_pids e (concat (map (\<lambda>n. guard_pids (ge_me e) n (ge_table e)) (gc_background c))) g
      else (g, []))"

definition critical_stage :: "guard_env \<Rightarrow> guard_cfg \<Rightarrow> guardian \<Rightarrow> guardian \<times> guard_act list" where
  "critical_stage e c g = (if 3 \<le> gd_level g then hold_all e (gc_critical_stop c) g else (g, []))"

definition then_do ::
    "(guardian \<Rightarrow> guardian \<times> guard_act list) \<Rightarrow> (guardian \<Rightarrow> guardian \<times> guard_act list) \<Rightarrow> guardian \<Rightarrow> guardian \<times> guard_act list" where
  "then_do f h g = (let (g1, a1) = f g; (g2, a2) = h g1 in (g2, a1 @ a2))"

definition thermal :: "guard_env \<Rightarrow> guard_cfg \<Rightarrow> guardian \<Rightarrow> guardian \<times> guard_act list" where
  "thermal e c g0 =
     (case level_stage e c g0 of
        (g, a, stop) \<Rightarrow>
          if stop then (g, a)
          else (let (g1, a1) = then_do (stale_stage e c) (then_do (hot_stage e c) (then_do (background_stage e c) (critical_stage e c))) g
                in (g1, a @ a1)))"

section \<open>Runaway processes\<close>

definition sub_or :: "pystr \<Rightarrow> pystr \<Rightarrow> bool" where
  "sub_or a cmd \<longleftrightarrow> in_str (47 # a @ [32]) (cmd @ [32]) \<or> in_str (32 # a @ [32]) (32 # cmd @ [32])"

text \<open>\<open>cmd.split(' ')[0].rsplit('/', 1)[-1]\<close>\<close>

definition cmd_head :: "pystr \<Rightarrow> pystr" where
  "cmd_head cmd = List.last (split_at_char 47 (hd (split_at_char 32 cmd)))"

definition allowed :: "guard_cfg \<Rightarrow> proc \<Rightarrow> bool" where
  "allowed c r =
     list_ex (\<lambda>a. if 32 \<in> set a \<or> 47 \<in> set a then in_str a (pr_cmd r)
                  else cmd_head (pr_cmd r) = a \<or> pr_comm r = a \<or> sub_or a (pr_cmd r)) (gc_allowlist c)"

definition cpu_pct :: "nat \<Rightarrow> nat \<Rightarrow> nat \<Rightarrow> time \<Rightarrow> time" where
  "cpu_pct hz new old dt = (of_nat new - of_nat old) * 100 / of_nat hz / dt"

definition runaway_pid :: "guard_env \<Rightarrow> guard_cfg \<Rightarrow> int \<Rightarrow> proc \<Rightarrow> guardian \<Rightarrow> guardian \<times> guard_act list" where
  "runaway_pid e c pid r g0 =
     (let now = ge_now e; g = g0\<lparr>gd_prev := (gd_prev g0)(pid \<mapsto> (now, pr_ticks r))\<rparr> in
      case gd_prev g0 pid of
        None \<Rightarrow> (g, [])
      | Some (t0, k0) \<Rightarrow>
          if pr_kthread r \<or> pid = 1 \<or> pid = ge_me e then (g, [])
          else if now - t0 \<le> 0 then (g, [])
          else if cpu_pct (ge_hz e) (pr_ticks r) k0 (now - t0) < gc_runaway_pct c \<or> allowed c r then
            (g\<lparr>gd_busy := (gd_busy g)(pid := None)\<rparr>, [])
          else
            (let since = (case gd_busy g pid of Some s \<Rightarrow> s | None \<Rightarrow> t0); g1 = g\<lparr>gd_busy := (gd_busy g)(pid \<mapsto> since)\<rparr> in
             if now - since < (if pr_ppid r = 1 then gc_orphan_s c else gc_runaway_s c) then (g1, [])
             else (case gd_killed g1 pid of
                     Some k \<Rightarrow>
                       if 15 < now - k \<and> pid \<notin> gd_stuck g1 then
                         (if (pr_state r = 82 \<or> pr_state r = 68) \<and> 45 < now - k then
                            (let (g2, a) = alert c now (StuckA pid) True (g1\<lparr>gd_stuck := insert pid (gd_stuck g1)\<rparr>)
                             in (g2, KillP pid # a))
                          else (g1, [KillP pid]))
                       else (g1, [])
                   | None \<Rightarrow>
                       (let (g2, a) = alert c now (RunawayA pid) True (g1\<lparr>gd_killed := (gd_killed g1)(pid \<mapsto> now)\<rparr>)
                        in (g2, TermP pid # a)))))"

fun runaway_loop :: "guard_env \<Rightarrow> guard_cfg \<Rightarrow> proc_table \<Rightarrow> guardian \<Rightarrow> guardian \<times> guard_act list" where
  "runaway_loop e c [] g = (g, [])"
| "runaway_loop e c ((pid, r) # t) g =
     (let (g1, a1) = runaway_pid e c pid r g; (g2, a2) = runaway_loop e c t g1 in (g2, a1 @ a2))"

text \<open>Processes that are gone are forgotten.\<close>

definition forget_gone :: "proc_table \<Rightarrow> guardian \<Rightarrow> guardian" where
  "forget_gone table g =
     (let gone = (\<lambda>p. gd_prev g p \<noteq> None \<and> p \<notin> fst ` set table) in
      g\<lparr>gd_prev := (\<lambda>p. if gone p then None else gd_prev g p), gd_busy := (\<lambda>p. if gone p then None else gd_busy g p),
        gd_killed := (\<lambda>p. if gone p then None else gd_killed g p), gd_stuck := {p \<in> gd_stuck g. \<not> gone p},
        gd_reniced := filter (\<lambda>(p, _). \<not> gone p) (gd_reniced g)\<rparr>)"

definition runaway :: "guard_env \<Rightarrow> guard_cfg \<Rightarrow> guardian \<Rightarrow> guardian \<times> guard_act list" where
  "runaway e c g =
     (let (g1, a) = runaway_loop e c (ge_table e) g in (forget_gone (ge_table e) g1, a))"

section \<open>Floors and one pass\<close>

fun hold_each :: "guard_env \<Rightarrow> (pystr \<times> pystr) list \<Rightarrow> guardian \<Rightarrow> guardian \<times> guard_act list" where
  "hold_each e [] g = (g, [])"
| "hold_each e ((name, needle) # ns) g =
     (let (g1, a1) = hold e name needle g; (g2, a2) = hold_each e ns g1 in (g2, a1 @ a2))"

definition mem_floor :: "guard_env \<Rightarrow> guard_cfg \<Rightarrow> guardian \<Rightarrow> guardian \<times> guard_act list" where
  "mem_floor e c g =
     (case ge_mem e of
        None \<Rightarrow> (g, [])
      | Some m \<Rightarrow>
          if m < gc_mem_shed c \<and> \<not> gd_shed g then
            (let (g1, a1) = hold_each e (gc_hot_stop c) (g\<lparr>gd_shed := True\<rparr>); (g2, a2) = alert c (ge_now e) MemShedA True g1
             in (g2, a1 @ a2))
          else if m < gc_mem_alert c then alert c (ge_now e) MemA False g
          else if gd_shed g \<and> gc_mem_alert c * 2 < m \<and> gd_level g < 2 then release_all (g\<lparr>gd_shed := False\<rparr>)
          else (g, []))"

fun disk_floors :: "guard_env \<Rightarrow> guard_cfg \<Rightarrow> (pystr \<times> time option) list \<Rightarrow> guardian \<Rightarrow> guardian \<times> guard_act list" where
  "disk_floors e c [] g = (g, [])"
| "disk_floors e c ((path, free) # ds) g =
     (let (g1, a1) =
            (case (free, map_of (gc_disk_floors c) path) of
               (Some f, Some fl) \<Rightarrow>
                 if f < fl \<and> gc_disk_every c \<le> since_alert (ge_now e) (DiskA path) g
                 then alert c (ge_now e) (DiskA path) True g else (g, [])
             | _ \<Rightarrow> (g, []));
          (g2, a2) = disk_floors e c ds g1
      in (g2, a1 @ a2))"

definition guard_pass :: "guard_env \<Rightarrow> guard_cfg \<Rightarrow> guardian \<Rightarrow> guardian \<times> guard_act list" where
  "guard_pass e c =
     then_do (thermal e c) (then_do (runaway e c) (then_do (mem_floor e c) (disk_floors e c (ge_disks e))))"

definition new_guardian :: "(pystr, bool) dict \<Rightarrow> (int, int) dict \<Rightarrow> guardian" where
  "new_guardian dir reniced = \<lparr>gd_level = 0, gd_hist = [], gd_held = [], gd_dir = dir, gd_reniced = reniced,
     gd_prev = (\<lambda>_. None), gd_busy = (\<lambda>_. None), gd_killed = (\<lambda>_. None), gd_stuck = {}, gd_alerts = (\<lambda>_. None), gd_shed = False\<rparr>"

section \<open>Which stage changes what\<close>

definition same_heat :: "guardian \<Rightarrow> guardian \<Rightarrow> bool" where
  "same_heat g h \<longleftrightarrow> gd_level g = gd_level h \<and> gd_hist g = gd_hist h"

definition same_procs :: "guardian \<Rightarrow> guardian \<Rightarrow> bool" where
  "same_procs g h \<longleftrightarrow> gd_prev g = gd_prev h \<and> gd_busy g = gd_busy h \<and> gd_killed g = gd_killed h \<and> gd_stuck g = gd_stuck h"

lemma same_refl [simp]: "same_heat g g" "same_procs g g"
  by (simp_all add: same_heat_def same_procs_def)

lemma alert_same: "same_heat (fst (alert c now k f g)) g \<and> same_procs (fst (alert c now k f g)) g"
  by (simp add: alert_def same_heat_def same_procs_def)

lemma hold_same: "same_heat (fst (hold e n x g)) g \<and> same_procs (fst (hold e n x g)) g"
  by (simp add: hold_def same_heat_def same_procs_def)

lemma release_same: "same_heat (fst (release_all g)) g \<and> same_procs (fst (release_all g)) g"
  by (simp add: release_all_def same_heat_def same_procs_def Let_def)

lemma hold_all_same: "same_heat (fst (hold_all e ns g)) g \<and> same_procs (fst (hold_all e ns g)) g"
proof (induction e ns g rule: hold_all.induct)
  case (2 e name needle ns g)
  then show ?case using hold_same [of e name needle g]
    by (cases "hold e name needle g") (auto simp: same_heat_def same_procs_def case_prod_unfold Let_def)
qed simp

lemma hold_each_same: "same_heat (fst (hold_each e ns g)) g \<and> same_procs (fst (hold_each e ns g)) g"
proof (induction e ns g rule: hold_each.induct)
  case (2 e name needle ns g)
  then show ?case using hold_same [of e name needle g]
    by (cases "hold e name needle g") (auto simp: same_heat_def same_procs_def case_prod_unfold Let_def)
qed simp

lemma renice_same: "same_heat (fst (renice_pids e ps g)) g \<and> same_procs (fst (renice_pids e ps g)) g"
proof (induction ps arbitrary: g)
  case (Cons p ps)
  have "same_heat (g\<lparr>gd_reniced := x\<rparr>) g \<and> same_procs (g\<lparr>gd_reniced := x\<rparr>) g" for x by (simp add: same_heat_def same_procs_def)
  then show ?case using Cons.IH [of g] Cons.IH [of "g\<lparr>gd_reniced := x\<rparr>" for x]
    by (cases "ge_nice e p") (auto simp: same_heat_def same_procs_def case_prod_unfold Let_def)
qed simp

lemma disk_floors_same: "same_heat (fst (disk_floors e c ds g)) g \<and> same_procs (fst (disk_floors e c ds g)) g"
proof (induction ds arbitrary: g)
  case (Cons d ds)
  obtain path free where d: "d = (path, free)" by fastforce
  let ?g1 = "fst (alert c (ge_now e) (DiskA path) True g)"
  have a: "same_heat (fst (disk_floors e c ds ?g1)) g \<and> same_procs (fst (disk_floors e c ds ?g1)) g"
    using Cons.IH [of ?g1] alert_same [of c "ge_now e" "DiskA path" True g] by (simp add: same_heat_def same_procs_def)
  show ?case unfolding d disk_floors.simps case_prod_unfold Let_def using a Cons.IH [of g]
    by (simp split: option.splits)
qed simp

lemma mem_floor_same: "same_heat (fst (mem_floor e c g)) g \<and> same_procs (fst (mem_floor e c g)) g"
proof -
  let ?g = "g\<lparr>gd_shed := True\<rparr>"
  let ?h = "fst (hold_each e (gc_hot_stop c) ?g)"
  have a: "same_heat (fst (alert c (ge_now e) MemShedA True ?h)) g \<and> same_procs (fst (alert c (ge_now e) MemShedA True ?h)) g"
    using hold_each_same [of e "gc_hot_stop c" ?g] alert_same [of c "ge_now e" MemShedA True ?h]
    by (simp add: same_heat_def same_procs_def)
  have b: "same_heat (fst (release_all (g\<lparr>gd_shed := False\<rparr>))) g \<and> same_procs (fst (release_all (g\<lparr>gd_shed := False\<rparr>))) g"
    using release_same [of "g\<lparr>gd_shed := False\<rparr>"] by (simp add: same_heat_def same_procs_def)
  show ?thesis unfolding mem_floor_def using a b alert_same [of c "ge_now e" MemA False g]
    by (simp add: case_prod_unfold Let_def split: option.split)
qed

section \<open>The thermal level over a run\<close>

lemma level_stage_facts:
  assumes "level_stage e c g = (g', a, stop)" and "hist = last_n (gc_confirm c) (gd_hist g @ [heat c (tmax (ge_temps e))])"
    and "want = wanted_level c (heat c (tmax (ge_temps e))) hist"
  shows "gd_hist g' = hist \<and> same_procs g' g \<and>
    gd_level g' = (if gd_level g < want then want else if gd_level g \<noteq> 0 \<and> tmax (ge_temps e) < gc_restore c then 0 else gd_level g) \<and>
    (stop \<longleftrightarrow> \<not> gd_level g < want \<and> gd_level g \<noteq> 0 \<and> tmax (ge_temps e) < gc_restore c) \<and>
    (\<forall>n. HoldFile n \<notin> set a)"
  using assms(1) unfolding level_stage_def assms(2,3)
  by (auto simp: Let_def alert_def release_all_def same_procs_def split: if_splits)

lemma then_do_fst: "fst (then_do f h g) = fst (h (fst (f g)))"
  by (simp add: then_do_def case_prod_unfold Let_def)

lemma then_do_acts: "set (snd (then_do f h g)) = set (snd (f g)) \<union> set (snd (h (fst (f g))))"
  by (simp add: then_do_def case_prod_unfold Let_def)

text \<open>The stages after the level leave the level, its history and the processes alone.\<close>

definition keeps :: "(guardian \<Rightarrow> guardian \<times> guard_act list) \<Rightarrow> bool" where
  "keeps f \<longleftrightarrow> (\<forall>g. same_heat (fst (f g)) g \<and> same_procs (fst (f g)) g)"

lemma keeps_then: "keeps f \<Longrightarrow> keeps h \<Longrightarrow> keeps (then_do f h)"
  unfolding keeps_def then_do_fst by (simp add: same_heat_def same_procs_def)

lemma keeps_stages [simp]:
  "keeps (stale_stage e c)" "keeps (hot_stage e c)" "keeps (background_stage e c)" "keeps (critical_stage e c)"
  using release_same hold_all_same renice_same
  by (simp_all add: keeps_def stale_stage_def hot_stage_def background_stage_def critical_stage_def)

lemma thermal_heat:
  assumes "level_stage e c g = (g1, a, stop)"
  shows "same_heat (fst (thermal e c g)) g1 \<and> same_procs (fst (thermal e c g)) g1"
proof -
  have "keeps (then_do (stale_stage e c) (then_do (hot_stage e c) (then_do (background_stage e c) (critical_stage e c))))"
    by (intro keeps_then keeps_stages)
  then show ?thesis by (simp add: thermal_def assms keeps_def case_prod_unfold Let_def)
qed

lemma pid_step_heat: "same_heat (fst (runaway_pid e c pid r g)) g"
proof -
  show ?thesis unfolding runaway_pid_def Let_def case_prod_unfold
    by (cases "gd_prev g pid"; cases "gd_killed g pid") (simp_all add: same_heat_def alert_def split: prod.split)
qed

lemma runaway_heat: "same_heat (fst (runaway e c g)) g"
proof -
  have "same_heat (fst (runaway_loop e c t g)) g" for t
  proof (induction t arbitrary: g)
    case (Cons x t)
    obtain pid r where x: "x = (pid, r)" by fastforce
    show ?case using pid_step_heat [of e c pid r g] Cons.IH [of "fst (runaway_pid e c pid r g)"]
      by (simp add: x case_prod_unfold Let_def same_heat_def)
  qed simp
  then show ?thesis by (simp add: runaway_def forget_gone_def case_prod_unfold Let_def same_heat_def)
qed

definition guard_next :: "guard_cfg \<Rightarrow> guardian \<Rightarrow> guard_env \<Rightarrow> guardian" where
  "guard_next c g e = fst (guard_pass e c g)"

lemma guard_next_split:
  "same_heat (guard_next c g e) (fst (thermal e c g))"
  "same_procs (guard_next c g e) (fst (runaway e c (fst (thermal e c g))))"
proof -
  let ?g1 = "fst (thermal e c g)" let ?g2 = "fst (runaway e c ?g1)"
  have n: "guard_next c g e = fst (disk_floors e c (ge_disks e) (fst (mem_floor e c ?g2)))"
    by (simp add: guard_next_def guard_pass_def then_do_fst)
  show "same_heat (guard_next c g e) ?g1" "same_procs (guard_next c g e) ?g2"
    unfolding n using disk_floors_same [of e c "ge_disks e" "fst (mem_floor e c ?g2)"] mem_floor_same [of e c ?g2] runaway_heat [of e c ?g1]
    by (simp_all add: same_heat_def same_procs_def)
qed

definition heat_of :: "guard_cfg \<Rightarrow> guard_env \<Rightarrow> nat" where
  "heat_of c e = heat c (tmax (ge_temps e))"

lemma last_n_snoc: "last_n n (last_n n xs @ [x]) = last_n n (xs @ [x])"
  by (cases "n = 0"; cases "n \<le> length xs") (auto simp: last_n_def Suc_diff_le)

lemma last_n_map: "last_n n (map f xs) = map f (last_n n xs)"
  by (simp add: last_n_def drop_map)

lemma hist_of_run:
  "gd_hist (run_steps (guard_next c) (new_guardian d r) ins) = last_n (gc_confirm c) (map (heat_of c) ins)"
proof (induction ins rule: rev_induct)
  case Nil
  then show ?case by (simp add: new_guardian_def last_n_def)
next
  case (snoc e ins)
  let ?g = "run_steps (guard_next c) (new_guardian d r) ins"
  obtain g1 a stop where ls: "level_stage e c ?g = (g1, a, stop)" by (metis prod_cases3)
  have "gd_hist (guard_next c ?g e) = gd_hist g1"
    using guard_next_split(1) [of c ?g e] thermal_heat [OF ls] by (simp add: same_heat_def)
  also have "\<dots> = last_n (gc_confirm c) (gd_hist ?g @ [heat_of c e])"
    using level_stage_facts [OF ls refl refl] by (simp add: heat_of_def)
  finally show ?case using snoc by (simp add: last_n_snoc)
qed

lemma hold_all_files: "HoldFile n \<in> set (snd (hold_all e ns g)) \<Longrightarrow> n \<in> fst ` set ns"
  by (induction e ns g rule: hold_all.induct) (auto simp: hold_def case_prod_unfold Let_def split: if_splits)

lemma renice_files: "HoldFile n \<notin> set (snd (renice_pids e ps g))"
  by (induction ps arbitrary: g) (auto simp: case_prod_unfold Let_def split: option.splits if_splits)

lemma release_files: "HoldFile n \<notin> set (snd (release_all g))"
  by (auto simp: release_all_def Let_def)

lemma thermal_holds:
  assumes "HoldFile n \<in> set (snd (thermal e c g))"
  shows "2 \<le> gd_level (fst (thermal e c g)) \<and> n \<in> fst ` set (gc_hot_stop c) \<or>
    3 \<le> gd_level (fst (thermal e c g)) \<and> n \<in> fst ` set (gc_critical_stop c)"
proof -
  obtain g1 a stop where ls: "level_stage e c g = (g1, a, stop)" by (metis prod_cases3)
  note lf = level_stage_facts [OF ls refl refl]
  let ?r = "fst (stale_stage e c g1)" let ?h = "fst (hot_stage e c ?r)" let ?x = "fst (background_stage e c ?h)"
  have lv: "gd_level ?r = gd_level g1" "gd_level ?x = gd_level g1" "gd_level (fst (thermal e c g)) = gd_level g1"
    using keeps_stages [of e c] thermal_heat [OF ls] by (simp_all add: keeps_def same_heat_def)
  have no: "HoldFile n \<notin> set a" "HoldFile n \<notin> set (snd (stale_stage e c g1))" "HoldFile n \<notin> set (snd (background_stage e c ?h))"
    using lf release_files renice_files by (auto simp: stale_stage_def background_stage_def)
  have "HoldFile n \<in> set (snd (hot_stage e c ?r)) \<or> HoldFile n \<in> set (snd (critical_stage e c ?x))"
    using assms no by (auto simp: thermal_def ls then_do_acts case_prod_unfold Let_def split: if_splits)
  then show ?thesis using hold_all_files lv by (auto simp: hot_stage_def critical_stage_def split: if_splits)
qed

text \<open>
  C36. Services are stopped for heat only when it is confirmed: the level rises to 2 or 3 only when the last
  \<open>confirm_passes\<close> passes all were at least that hot; it falls only to 0, and only below the restore temperature;
  and the thermal stage holds a service only at level 2 and only one the configuration names (the critical ones only
  at level 3).
\<close>

theorem thermal_confirmed:
  assumes "g = run_steps (guard_next c) (new_guardian d r) ins" and "g' = guard_next c g e"
  shows "(gd_level g < gd_level g' \<and> 2 \<le> gd_level g' \<longrightarrow>
       gc_confirm c \<le> Suc (length ins) \<and> (\<forall>i \<in> set (last_n (gc_confirm c) (ins @ [e])). gd_level g' \<le> heat_of c i)) \<and>
    (gd_level g' < gd_level g \<longrightarrow> gd_level g' = 0 \<and> tmax (ge_temps e) < gc_restore c) \<and>
    (\<forall>n. HoldFile n \<in> set (snd (thermal e c g)) \<longrightarrow>
       2 \<le> gd_level g' \<and> n \<in> fst ` set (gc_hot_stop c) \<or> 3 \<le> gd_level g' \<and> n \<in> fst ` set (gc_critical_stop c))"
proof -
  obtain g1 a stop where ls: "level_stage e c g = (g1, a, stop)" by (metis prod_cases3)
  let ?hist = "last_n (gc_confirm c) (gd_hist g @ [heat c (tmax (ge_temps e))])"
  let ?w = "wanted_level c (heat c (tmax (ge_temps e))) ?hist"
  note lf = level_stage_facts [OF ls refl refl]
  have lv: "gd_level g' = gd_level g1" "gd_level (fst (thermal e c g)) = gd_level g1"
    using guard_next_split(1) [of c g e] thermal_heat [OF ls] by (simp_all add: assms(2) same_heat_def)
  have hist: "?hist = map (heat_of c) (last_n (gc_confirm c) (ins @ [e]))"
    using hist_of_run [of c d r ins] by (simp add: assms(1) heat_of_def [symmetric] last_n_snoc last_n_map [symmetric])
  have up: "gc_confirm c \<le> Suc (length ins) \<and> (\<forall>i \<in> set (last_n (gc_confirm c) (ins @ [e])). gd_level g' \<le> heat_of c i)"
    if "gd_level g < gd_level g'" "2 \<le> gd_level g'"
  proof -
    have w: "gd_level g' = ?w" using that(1) lf lv by (auto split: if_splits)
    then have c2: "gc_confirm c \<le> length ?hist" "?w = Min (set ?hist)"
      using that(2) by (auto simp: wanted_level_def split: if_splits)
    have "length ?hist \<le> Suc (length ins)" unfolding hist by (simp add: last_n_def)
    moreover have "?w \<le> heat_of c i" if "i \<in> set (last_n (gc_confirm c) (ins @ [e]))" for i
    proof -
      have "heat_of c i \<in> set ?hist" using that unfolding hist by simp
      then show ?thesis unfolding c2(2) by simp
    qed
    ultimately show ?thesis using c2(1) w by simp
  qed
  have down: "gd_level g' < gd_level g \<Longrightarrow> gd_level g' = 0 \<and> tmax (ge_temps e) < gc_restore c"
    using lf lv by (auto split: if_splits)
  show ?thesis using up down thermal_holds [of _ e c g] unfolding lv by blast
qed

section \<open>Runaway processes over a run\<close>

text \<open>What the guard knows about one process.\<close>

definition about :: "int \<Rightarrow> guardian \<Rightarrow> (time \<times> nat) option \<times> time option \<times> time option \<times> bool" where
  "about p g = (gd_prev g p, gd_busy g p, gd_killed g p, p \<in> gd_stuck g)"

lemma about_same: "same_procs g h \<Longrightarrow> about p g = about p h"
  by (simp add: about_def same_procs_def)

lemma pid_other:
  assumes "q \<noteq> p"
  shows "about p (fst (runaway_pid e c q r g)) = about p g" and "TermP p \<notin> set (snd (runaway_pid e c q r g))"
    and "KillP p \<notin> set (snd (runaway_pid e c q r g))"
  using assms unfolding runaway_pid_def Let_def case_prod_unfold
  by (cases "gd_prev g q"; cases "gd_killed g q"; simp add: about_def alert_def split: prod.split)+

lemma pid_depends:
  assumes "about p g = about p h"
  shows "about p (fst (runaway_pid e c p r g)) = about p (fst (runaway_pid e c p r h))"
    and "TermP p \<in> set (snd (runaway_pid e c p r g)) \<longleftrightarrow> TermP p \<in> set (snd (runaway_pid e c p r h))"
    and "KillP p \<in> set (snd (runaway_pid e c p r g)) \<longleftrightarrow> KillP p \<in> set (snd (runaway_pid e c p r h))"
proof -
  have e: "gd_prev h p = gd_prev g p" "gd_busy h p = gd_busy g p" "gd_killed h p = gd_killed g p" "(p \<in> gd_stuck h) = (p \<in> gd_stuck g)"
    using assms by (simp_all add: about_def)
  show "about p (fst (runaway_pid e c p r g)) = about p (fst (runaway_pid e c p r h))"
    "TermP p \<in> set (snd (runaway_pid e c p r g)) \<longleftrightarrow> TermP p \<in> set (snd (runaway_pid e c p r h))"
    "KillP p \<in> set (snd (runaway_pid e c p r g)) \<longleftrightarrow> KillP p \<in> set (snd (runaway_pid e c p r h))"
    unfolding runaway_pid_def Let_def case_prod_unfold
    by (cases "gd_prev g p"; cases "gd_killed g p"; simp add: e about_def alert_def split: prod.split)+
qed

lemma loop_about:
  assumes "distinct (map fst t)"
  shows "about p (fst (runaway_loop e c t g)) =
      (case map_of t p of None \<Rightarrow> about p g | Some r \<Rightarrow> about p (fst (runaway_pid e c p r g)))"
    and "TermP p \<in> set (snd (runaway_loop e c t g)) \<longleftrightarrow> (\<exists>r. map_of t p = Some r \<and> TermP p \<in> set (snd (runaway_pid e c p r g)))"
    and "KillP p \<in> set (snd (runaway_loop e c t g)) \<longleftrightarrow> (\<exists>r. map_of t p = Some r \<and> KillP p \<in> set (snd (runaway_pid e c p r g)))"
proof -
  have "about p (fst (runaway_loop e c t g)) =
      (case map_of t p of None \<Rightarrow> about p g | Some r \<Rightarrow> about p (fst (runaway_pid e c p r g))) \<and>
    (TermP p \<in> set (snd (runaway_loop e c t g)) \<longleftrightarrow> (\<exists>r. map_of t p = Some r \<and> TermP p \<in> set (snd (runaway_pid e c p r g)))) \<and>
    (KillP p \<in> set (snd (runaway_loop e c t g)) \<longleftrightarrow> (\<exists>r. map_of t p = Some r \<and> KillP p \<in> set (snd (runaway_pid e c p r g))))"
    using assms
  proof (induction t arbitrary: g)
    case (Cons x t)
    obtain q r where x: "x = (q, r)" by fastforce
    let ?g1 = "fst (runaway_pid e c q r g)"
    have IH: "about p (fst (runaway_loop e c t ?g1)) =
        (case map_of t p of None \<Rightarrow> about p ?g1 | Some r \<Rightarrow> about p (fst (runaway_pid e c p r ?g1)))"
      "TermP p \<in> set (snd (runaway_loop e c t ?g1)) \<longleftrightarrow> (\<exists>r. map_of t p = Some r \<and> TermP p \<in> set (snd (runaway_pid e c p r ?g1)))"
      "KillP p \<in> set (snd (runaway_loop e c t ?g1)) \<longleftrightarrow> (\<exists>r. map_of t p = Some r \<and> KillP p \<in> set (snd (runaway_pid e c p r ?g1)))"
      using Cons.IH [of ?g1] Cons.prems by simp_all
    have split: "runaway_loop e c (x # t) g =
        (fst (runaway_loop e c t ?g1), snd (runaway_pid e c q r g) @ snd (runaway_loop e c t ?g1))"
      by (simp add: x case_prod_unfold Let_def)
    show ?case
    proof (cases "q = p")
      case True
      then have "map_of t p = None" using Cons.prems by (simp add: x map_of_eq_None_iff)
      then show ?thesis unfolding split using IH True by (simp add: x)
    next
      case False
      note o = pid_other [OF False, of e c r g]
      note d = pid_depends [OF o(1)]
      show ?thesis unfolding split using IH False o d by (auto simp: x split: option.split)
    qed
  qed simp
  then show "about p (fst (runaway_loop e c t g)) =
      (case map_of t p of None \<Rightarrow> about p g | Some r \<Rightarrow> about p (fst (runaway_pid e c p r g)))"
    "TermP p \<in> set (snd (runaway_loop e c t g)) \<longleftrightarrow> (\<exists>r. map_of t p = Some r \<and> TermP p \<in> set (snd (runaway_pid e c p r g)))"
    "KillP p \<in> set (snd (runaway_loop e c t g)) \<longleftrightarrow> (\<exists>r. map_of t p = Some r \<and> KillP p \<in> set (snd (runaway_pid e c p r g)))"
    by blast+
qed

text \<open>
  A record of the past of process \<open>p\<close>: the last look at it, and the look its busy time counts from, with the load
  since then.
\<close>

definition seen_at :: "guard_env list \<Rightarrow> int \<Rightarrow> time \<Rightarrow> nat \<Rightarrow> bool" where
  "seen_at past p t k \<longleftrightarrow> (\<exists>i \<in> set past. \<exists>r. ge_now i = t \<and> map_of (ge_table i) p = Some r \<and> pr_ticks r = k)"

definition load_over :: "guard_cfg \<Rightarrow> nat \<Rightarrow> nat \<Rightarrow> nat \<Rightarrow> time \<Rightarrow> bool" where
  "load_over c hz new old dt \<longleftrightarrow> gc_runaway_pct c * dt \<le> (of_nat new - of_nat old) * 100 / of_nat hz"

definition proc_inv :: "guard_cfg \<Rightarrow> nat \<Rightarrow> int \<Rightarrow> guard_env list \<Rightarrow> guardian \<Rightarrow> bool" where
  "proc_inv c hz p past g \<longleftrightarrow>
     (case gd_prev g p of
        None \<Rightarrow> gd_busy g p = None \<and> gd_killed g p = None
      | Some (t, k) \<Rightarrow> seen_at past p t k \<and>
          (\<forall>s. gd_busy g p = Some s \<longrightarrow> (\<exists>k0. seen_at past p s k0 \<and> s \<le> t \<and> load_over c hz k k0 (t - s))))"

lemma seen_more: "seen_at past p t k \<Longrightarrow> seen_at (past @ [e]) p t k"
  by (auto simp: seen_at_def)

lemma load_step:
  assumes "\<not> cpu_pct hz new old (now - t) < gc_runaway_pct c" and "t < now" and "load_over c hz old k0 (t - s)"
  shows "load_over c hz new k0 (now - s)"
proof -
  define x :: time where "x = (of_nat new - of_nat old) * 100 / of_nat hz"
  have "gc_runaway_pct c \<le> x / (now - t)" using assms(1) by (simp only: cpu_pct_def x_def not_less)
  then have "gc_runaway_pct c * (now - t) \<le> x" using assms(2) by (simp only: pos_le_divide_eq diff_gt_0_iff_gt)
  then have "gc_runaway_pct c * (now - t) \<le> (of_nat new - of_nat old) * 100 / of_nat hz" by (simp only: x_def)
  then show ?thesis using assms(3) unfolding load_over_def by (simp add: algebra_simps diff_divide_distrib add_divide_distrib)
qed

text \<open>One look at a user process, in time order.\<close>

definition user_look :: "int \<Rightarrow> guard_env \<Rightarrow> bool" where
  "user_look p e \<longleftrightarrow> p \<noteq> 1 \<and> p \<noteq> ge_me e \<and> distinct (map fst (ge_table e)) \<and> (\<forall>r. map_of (ge_table e) p = Some r \<longrightarrow> \<not> pr_kthread r)"

lemma pid_step:
  assumes "proc_inv c (ge_hz e) p past g" and "user_look p e" and "map_of (ge_table e) p = Some r"
    and "\<forall>t k. gd_prev g p = Some (t, k) \<longrightarrow> t < ge_now e"
  shows "proc_inv c (ge_hz e) p (past @ [e]) (fst (runaway_pid e c p r g)) \<and>
    gd_prev (fst (runaway_pid e c p r g)) p = Some (ge_now e, pr_ticks r) \<and>
    (TermP p \<in> set (snd (runaway_pid e c p r g)) \<longrightarrow> \<not> allowed c r \<and>
       (\<exists>s k0. seen_at past p s k0 \<and> load_over c (ge_hz e) (pr_ticks r) k0 (ge_now e - s) \<and>
          (if pr_ppid r = 1 then gc_orphan_s c else gc_runaway_s c) \<le> ge_now e - s)) \<and>
    (KillP p \<in> set (snd (runaway_pid e c p r g)) \<longrightarrow> \<not> allowed c r \<and> (\<exists>k. gd_killed g p = Some k \<and> 15 < ge_now e - k))"
proof -
  have new: "seen_at (past @ [e]) p (ge_now e) (pr_ticks r)" using assms(3) by (auto simp: seen_at_def)
  have user: "\<not> (pr_kthread r \<or> p = 1 \<or> p = ge_me e)" using assms(2,3) by (simp add: user_look_def)
  show ?thesis
  proof (cases "gd_prev g p")
    case None
    then show ?thesis using assms(1) new by (simp add: runaway_pid_def proc_inv_def)
  next
    case (Some tk)
    obtain t k where tk: "tk = (t, k)" by fastforce
    have t: "t < ge_now e" using assms(4) Some tk by simp
    have pst: "seen_at past p t k" and busy: "\<And>s. gd_busy g p = Some s \<Longrightarrow>
        \<exists>k0. seen_at past p s k0 \<and> s \<le> t \<and> load_over c (ge_hz e) k k0 (t - s)"
      using assms(1) by (simp_all add: proc_inv_def Some tk)
    show ?thesis
    proof (cases "cpu_pct (ge_hz e) (pr_ticks r) k (ge_now e - t) < gc_runaway_pct c \<or> allowed c r")
      case True
      then show ?thesis using t user new by (simp add: runaway_pid_def Some tk Let_def proc_inv_def)
    next
      case False
      let ?s = "case gd_busy g p of Some s \<Rightarrow> s | None \<Rightarrow> t"
      obtain k0 where k0: "seen_at past p ?s k0" "?s \<le> t" "load_over c (ge_hz e) k k0 (t - ?s)"
      proof (cases "gd_busy g p")
        case None
        have "load_over c (ge_hz e) k k (t - t)" by (simp add: load_over_def)
        then show ?thesis using that [of k] None pst by simp
      next
        case (Some s)
        then show ?thesis using that busy [OF Some] by auto
      qed
      have load: "load_over c (ge_hz e) (pr_ticks r) k0 (ge_now e - ?s)" using load_step [OF _ t k0(3)] False by simp
      have fin: "proc_inv c (ge_hz e) p (past @ [e]) h"
        if "gd_prev h p = Some (ge_now e, pr_ticks r)" "gd_busy h p = Some ?s" for h
        using that new seen_more [OF k0(1)] load k0(2) t unfolding proc_inv_def by auto
      have busyt: "\<not> ge_now e - t \<le> 0" using t by simp
      let ?now = "ge_now e"
      let ?lim = "if pr_ppid r = 1 then gc_orphan_s c else gc_runaway_s c"
      let ?g1 = "g\<lparr>gd_prev := (gd_prev g)(p \<mapsto> (?now, pr_ticks r)), gd_busy := (gd_busy g)(p \<mapsto> ?s)\<rparr>"
      have eq: "runaway_pid e c p r g =
          (if ?now - ?s < ?lim then (?g1, [])
           else (case gd_killed g p of
                   Some d \<Rightarrow>
                     if 15 < ?now - d \<and> p \<notin> gd_stuck g then
                       (if (pr_state r = 82 \<or> pr_state r = 68) \<and> 45 < ?now - d then
                          (?g1\<lparr>gd_stuck := insert p (gd_stuck g), gd_alerts := (gd_alerts g)(StuckA p \<mapsto> ?now)\<rparr>, [KillP p, Alert (StuckA p)])
                        else (?g1, [KillP p]))
                     else (?g1, [])
                 | None \<Rightarrow> (?g1\<lparr>gd_killed := (gd_killed g)(p \<mapsto> ?now), gd_alerts := (gd_alerts g)(RunawayA p \<mapsto> ?now)\<rparr>,
                            [TermP p, Alert (RunawayA p)])))"
        using False user busyt by (cases "gd_killed g p") (simp_all add: runaway_pid_def Some tk Let_def alert_def)
      have g1: "proc_inv c (ge_hz e) p (past @ [e]) h" "gd_prev h p = Some (?now, pr_ticks r)"
        if "gd_prev h = gd_prev ?g1" "gd_busy h = gd_busy ?g1" for h
        using that by (auto intro!: fin)
      show ?thesis
      proof (cases "?now - ?s < ?lim")
        case True
        then show ?thesis unfolding eq using g1 [of ?g1] by simp
      next
        case long: False
        then have lim: "?lim \<le> ?now - ?s" by simp
        show ?thesis
        proof (cases "gd_killed g p")
          case None
          let ?h = "?g1\<lparr>gd_killed := (gd_killed g)(p \<mapsto> ?now), gd_alerts := (gd_alerts g)(RunawayA p \<mapsto> ?now)\<rparr>"
          have x: "runaway_pid e c p r g = (?h, [TermP p, Alert (RunawayA p)])" unfolding eq using long None by simp
          have "\<exists>s k0. seen_at past p s k0 \<and> load_over c (ge_hz e) (pr_ticks r) k0 (?now - s) \<and> ?lim \<le> ?now - s"
            using k0(1) load lim by blast
          then show ?thesis unfolding x using g1 [of ?h] False by simp
        next
          case (Some d)
          then show ?thesis unfolding eq using long g1 False by auto
        qed
      qed
    qed
  qed
qed

lemma thermal_procs: "same_procs (fst (thermal e c g)) g"
proof -
  obtain g1 a stop where ls: "level_stage e c g = (g1, a, stop)" by (metis prod_cases3)
  show ?thesis using thermal_heat [OF ls] level_stage_facts [OF ls refl refl] by (simp add: same_procs_def)
qed

text \<open>A pass over a process table in which \<open>p\<close> is a user process, after the ones of the past.\<close>

definition in_order :: "guard_env list \<Rightarrow> bool" where
  "in_order es \<longleftrightarrow> sorted_wrt (<) (map ge_now es)"

lemma proc_inv_about: "about p g = about p h \<Longrightarrow> proc_inv c hz p past g = proc_inv c hz p past h"
  by (cases "gd_prev h p") (auto simp: about_def proc_inv_def)

lemma runaway_about:
  assumes "distinct (map fst (ge_table e))"
  shows "about p (fst (runaway e c g)) =
    (case map_of (ge_table e) p of
       None \<Rightarrow> (if gd_prev g p = None then about p g else (None, None, None, False))
     | Some r \<Rightarrow> about p (fst (runaway_pid e c p r g)))"
proof -
  let ?l = "fst (runaway_loop e c (ge_table e) g)"
  have r: "fst (runaway e c g) = forget_gone (ge_table e) ?l" by (simp add: runaway_def case_prod_unfold Let_def)
  have f: "about p (forget_gone t h) =
      (if gd_prev h p \<noteq> None \<and> map_of t p = None then (None, None, None, False) else about p h)" for t h
    by (auto simp: about_def forget_gone_def map_of_eq_None_iff Let_def)
  show ?thesis unfolding r f using loop_about(1) [OF assms, of p e c g]
    by (cases "map_of (ge_table e) p") (auto simp: about_def)
qed

lemma runaway_acts:
  assumes "distinct (map fst (ge_table e))"
  shows "TermP p \<in> set (snd (runaway e c g)) \<longleftrightarrow> (\<exists>r. map_of (ge_table e) p = Some r \<and> TermP p \<in> set (snd (runaway_pid e c p r g)))"
    and "KillP p \<in> set (snd (runaway e c g)) \<longleftrightarrow> (\<exists>r. map_of (ge_table e) p = Some r \<and> KillP p \<in> set (snd (runaway_pid e c p r g)))"
  using loop_about(2,3) [OF assms, of p e c g] by (simp_all add: runaway_def case_prod_unfold Let_def)

lemma run_proc_inv:
  assumes "\<forall>e \<in> set ins. ge_hz e = hz \<and> user_look p e" and "in_order ins"
  shows "proc_inv c hz p ins (run_steps (guard_next c) (new_guardian d r) ins)"
  using assms
proof (induction ins rule: rev_induct)
  case Nil
  then show ?case by (simp add: proc_inv_def new_guardian_def)
next
  case (snoc e ins)
  let ?g = "run_steps (guard_next c) (new_guardian d r) ins" let ?h = "fst (thermal e c ?g)"
  have ord: "in_order ins" "\<forall>i \<in> set ins. ge_now i < ge_now e" using snoc.prems(2) by (auto simp: in_order_def sorted_wrt_append)
  have e: "ge_hz e = hz" "user_look p e" "distinct (map fst (ge_table e))" using snoc.prems(1) by (simp_all add: user_look_def)
  have ab: "about p ?h = about p ?g" using about_same [OF thermal_procs] .
  have inv: "proc_inv c (ge_hz e) p ins ?h"
    using snoc ord(1) e(1) proc_inv_about [OF ab, of c hz ins] by simp
  have before: "\<forall>t k. gd_prev ?h p = Some (t, k) \<longrightarrow> t < ge_now e"
    using inv ord(2) by (auto simp: proc_inv_def seen_at_def)
  have "about p (guard_next c ?g e) = about p (fst (runaway e c ?h))" using about_same guard_next_split(2) by blast
  moreover have "proc_inv c hz p (ins @ [e]) (fst (runaway e c ?h))"
  proof (cases "map_of (ge_table e) p")
    case None
    have "proc_inv c hz p (ins @ [e]) ?h" if "gd_prev ?h p = None" using inv that by (simp add: proc_inv_def)
    moreover have "about p (fst (runaway e c ?h)) = (if gd_prev ?h p = None then about p ?h else (None, None, None, False))"
      using runaway_about [OF e(3), of p c ?h] None by simp
    ultimately show ?thesis using proc_inv_about [of p "fst (runaway e c ?h)" ?h c hz "ins @ [e]"]
      by (cases "gd_prev ?h p") (simp_all add: proc_inv_def about_def)
  next
    case (Some rr)
    then have "about p (fst (runaway e c ?h)) = about p (fst (runaway_pid e c p rr ?h))"
      using runaway_about [OF e(3), of p c ?h] by simp
    then show ?thesis using pid_step [OF inv e(2) Some before] e(1)
        proc_inv_about [of p "fst (runaway e c ?h)" "fst (runaway_pid e c p rr ?h)" c hz "ins @ [e]"] by simp
  qed
  ultimately show ?case using proc_inv_about [of p "guard_next c ?g e" "fst (runaway e c ?h)" c hz "ins @ [e]"] by simp
qed

text \<open>The time of a SIGTERM on record is that of a pass that sent one.\<close>

lemma pid_killed:
  assumes "gd_killed (fst (runaway_pid e c p r g)) p = Some k"
  shows "gd_killed g p = Some k \<or> k = ge_now e \<and> TermP p \<in> set (snd (runaway_pid e c p r g))"
  using assms unfolding runaway_pid_def Let_def case_prod_unfold
  by (cases "gd_prev g p"; cases "gd_killed g p") (auto simp: alert_def split: prod.splits if_splits)

lemma pass_acts: "set (snd (runaway e c (fst (thermal e c g)))) \<subseteq> set (snd (guard_pass e c g))"
  by (auto simp: guard_pass_def then_do_acts)

lemma run_killed:
  assumes "\<forall>e \<in> set ins. user_look p e" and "gd_killed (run_steps (guard_next c) (new_guardian d r) ins) p = Some k"
  shows "\<exists>pre i post. ins = pre @ i # post \<and> ge_now i = k \<and>
    TermP p \<in> set (snd (guard_pass i c (run_steps (guard_next c) (new_guardian d r) pre)))"
  using assms
proof (induction ins rule: rev_induct)
  case Nil
  then show ?case by (simp add: new_guardian_def)
next
  case (snoc e ins)
  let ?g = "run_steps (guard_next c) (new_guardian d r) ins" let ?h = "fst (thermal e c ?g)"
  have dist: "distinct (map fst (ge_table e))" using snoc.prems(1) by (simp add: user_look_def)
  have "about p (guard_next c ?g e) = about p (fst (runaway e c ?h))" using about_same guard_next_split(2) by blast
  then have k: "gd_killed (fst (runaway e c ?h)) p = Some k" using snoc.prems(2) by (simp add: about_def)
  have old: "gd_killed ?h p = gd_killed ?g p" using about_same [OF thermal_procs, of p e c ?g] by (simp add: about_def)
  have "gd_killed ?g p = Some k \<or> k = ge_now e \<and> TermP p \<in> set (snd (runaway e c ?h))"
  proof (cases "map_of (ge_table e) p")
    case None
    then show ?thesis using runaway_about [OF dist, of p c ?h] k old by (auto simp: about_def split: if_splits)
  next
    case (Some rr)
    then have "gd_killed (fst (runaway_pid e c p rr ?h)) p = Some k"
      using runaway_about [OF dist, of p c ?h] k by (simp add: about_def)
    then show ?thesis using pid_killed [of e c p rr ?h k] old Some runaway_acts(1) [OF dist, of p c ?h] by auto
  qed
  then show ?case
  proof
    assume "gd_killed ?g p = Some k"
    then obtain pre i post where "ins = pre @ i # post" "ge_now i = k"
        "TermP p \<in> set (snd (guard_pass i c (run_steps (guard_next c) (new_guardian d r) pre)))"
      using snoc by auto
    then show ?thesis by (intro exI [of _ pre] exI [of _ i] exI [of _ "post @ [e]"]) simp
  next
    assume now: "k = ge_now e \<and> TermP p \<in> set (snd (runaway e c ?h))"
    then have "TermP p \<in> set (snd (guard_pass e c ?g))" using pass_acts by blast
    then show ?thesis using now by (intro exI [of _ ins] exI [of _ e] exI [of _ "[]"]) simp
  qed
qed

text \<open>
  The runaway guard sends SIGTERM to a user process only when it is not on the allowlist and has, since
  a look at it at least the limit before (the shorter one for an orphan), used at least the given share of a core
  on average over the whole time; and SIGKILL only to one it sent SIGTERM more than 15 seconds before, and that
  is not on the allowlist.
\<close>

theorem runaway_justified:
  assumes "g = run_steps (guard_next c) (new_guardian d r) ins" and "g1 = fst (thermal e c g)"
    and "\<forall>i \<in> set (ins @ [e]). ge_hz i = hz \<and> user_look p i" and "in_order (ins @ [e])"
    and "TermP p \<in> set (snd (runaway e c g1)) \<or> KillP p \<in> set (snd (runaway e c g1))"
  shows "\<exists>rec. map_of (ge_table e) p = Some rec \<and> \<not> allowed c rec \<and>
    (TermP p \<in> set (snd (runaway e c g1)) \<longrightarrow>
       (\<exists>s k0. seen_at ins p s k0 \<and> load_over c hz (pr_ticks rec) k0 (ge_now e - s) \<and>
          (if pr_ppid rec = 1 then gc_orphan_s c else gc_runaway_s c) \<le> ge_now e - s)) \<and>
    (KillP p \<in> set (snd (runaway e c g1)) \<longrightarrow>
       (\<exists>pre i post. ins = pre @ i # post \<and> 15 < ge_now e - ge_now i \<and>
          TermP p \<in> set (snd (guard_pass i c (run_steps (guard_next c) (new_guardian d r) pre)))))"
proof -
  have ord: "in_order ins" "\<forall>i \<in> set ins. ge_now i < ge_now e" using assms(4) by (auto simp: in_order_def sorted_wrt_append)
  have e: "ge_hz e = hz" "user_look p e" "distinct (map fst (ge_table e))" using assms(3) by (simp_all add: user_look_def)
  have ab: "about p g1 = about p g" unfolding assms(2) using about_same [OF thermal_procs] .
  have "proc_inv c hz p ins g" unfolding assms(1) using run_proc_inv [of ins hz p c d r] assms(3) ord(1) by simp
  then have inv: "proc_inv c (ge_hz e) p ins g1" using proc_inv_about [OF ab] e(1) by simp
  have before: "\<forall>t k. gd_prev g1 p = Some (t, k) \<longrightarrow> t < ge_now e"
    using inv ord(2) by (auto simp: proc_inv_def seen_at_def)
  obtain rec where rec: "map_of (ge_table e) p = Some rec"
    using assms(5) runaway_acts [OF e(3), of p c g1] by auto
  note st = pid_step [OF inv e(2) rec before]
  have k: "gd_killed g1 p = gd_killed g p" using ab by (simp add: about_def)
  have kp: "\<exists>pre i post. ins = pre @ i # post \<and> 15 < ge_now e - ge_now i \<and>
      TermP p \<in> set (snd (guard_pass i c (run_steps (guard_next c) (new_guardian d r) pre)))"
    if "KillP p \<in> set (snd (runaway e c g1))"
  proof -
    have "KillP p \<in> set (snd (runaway_pid e c p rec g1))" using that runaway_acts(2) [OF e(3), of p c g1] rec by simp
    then obtain t where "gd_killed g p = Some t" "15 < ge_now e - t" using st k by auto
    moreover have "\<forall>i \<in> set ins. user_look p i" using assms(3) by simp
    ultimately show ?thesis using run_killed [of ins p c d r t] unfolding assms(1) by blast
  qed
  have al: "\<not> allowed c rec" using st assms(5) runaway_acts [OF e(3), of p c g1] rec by auto
  have tm: "\<exists>s k0. seen_at ins p s k0 \<and> load_over c hz (pr_ticks rec) k0 (ge_now e - s) \<and>
      (if pr_ppid rec = 1 then gc_orphan_s c else gc_runaway_s c) \<le> ge_now e - s"
    if "TermP p \<in> set (snd (runaway e c g1))"
    using st that runaway_acts(1) [OF e(3), of p c g1] rec e(1) by auto
  show ?thesis using rec al tm kp by blast
qed

section \<open>Concrete runs\<close>

definition calm_env :: "time \<Rightarrow> time list \<Rightarrow> proc_table \<Rightarrow> time option \<Rightarrow> guard_env" where
  "calm_env now temps table mem = \<lparr>ge_now = now, ge_me = 5, ge_hz = 100, ge_hold_ok = (\<lambda>_. True), ge_nice = (\<lambda>_. Some 0),
     ge_temps = temps, ge_table = table, ge_mem = mem, ge_disks = []\<rparr>"

definition spinner :: "nat \<Rightarrow> proc" where
  "spinner ticks = \<lparr>pr_ppid = 1, pr_state = 82, pr_ticks = ticks, pr_comm = lit ''x'', pr_cmd = lit ''/bin/x'', pr_kthread = False\<rparr>"

definition ONE_ALLOWED :: guard_cfg where
  "ONE_ALLOWED = GUARD_DEFAULTS\<lparr>gc_allowlist := [lit ''sway'']\<rparr>"

abbreviation first_hot :: guardian where
  "first_hot \<equiv> run_steps (guard_next GUARD_DEFAULTS) (new_guardian [] []) [calm_env 0 [75] [] None]"

lemma first_hot: "gd_level first_hot = 1" "gd_level (guard_next GUARD_DEFAULTS first_hot (calm_env 20 [75] [] None)) = 2"
  by (simp_all add: guard_next_def guard_pass_def then_do_def thermal_def level_stage_def stale_stage_def hot_stage_def
      background_stage_def critical_stage_def runaway_def forget_gone_def mem_floor_def calm_env_def new_guardian_def
      GUARD_DEFAULTS_def tmax_def heat_def last_n_def wanted_level_def alert_def ours_def hold_def guard_pids_def Let_def)

lemma thermal_confirmed_witness:
  "gd_level first_hot = 1 \<and> gd_level (guard_next GUARD_DEFAULTS first_hot (calm_env 20 [75] [] None)) = 2 \<and>
   2 \<le> heat_of GUARD_DEFAULTS (calm_env 0 [75] [] None) \<and> 2 \<le> heat_of GUARD_DEFAULTS (calm_env 20 [75] [] None)"
  using thermal_confirmed [OF refl refl, of GUARD_DEFAULTS "[]" "[]" "[calm_env 0 [75] [] None]" "calm_env 20 [75] [] None"] first_hot
  by (simp add: last_n_def GUARD_DEFAULTS_def)

abbreviation spin_env :: guard_env where
  "spin_env \<equiv> calm_env 620 [] [(9, spinner 62000)] None"

abbreviation spin_run :: guardian where
  "spin_run \<equiv> run_steps (guard_next ONE_ALLOWED) (new_guardian [] []) [calm_env 0 [] [(9, spinner 0)] None]"

lemma spin_allowed: "\<not> allowed ONE_ALLOWED (spinner 62000)"
proof -
  have l: "gc_allowlist ONE_ALLOWED = [lit ''sway'']" by (simp add: ONE_ALLOWED_def)
  have "\<not> (32 \<in> set (lit ''sway'') \<or> 47 \<in> set (lit ''sway''))" "cmd_head (lit ''/bin/x'') \<noteq> lit ''sway''"
    "lit ''x'' \<noteq> lit ''sway''" "\<not> sub_or (lit ''sway'') (lit ''/bin/x'')"
    by code_simp+
  then show ?thesis by (simp add: allowed_def l spinner_def)
qed

lemma spin_term: "TermP 9 \<in> set (snd (runaway spin_env ONE_ALLOWED (fst (thermal spin_env ONE_ALLOWED spin_run))))"
  using spin_allowed
  by (simp add: guard_next_def guard_pass_def then_do_def thermal_def level_stage_def stale_stage_def hot_stage_def
      background_stage_def critical_stage_def runaway_def runaway_pid_def forget_gone_def mem_floor_def calm_env_def new_guardian_def
      spinner_def cpu_pct_def ONE_ALLOWED_def GUARD_DEFAULTS_def tmax_def heat_def last_n_def wanted_level_def alert_def ours_def Let_def)

lemma runaway_justified_witness:
  "TermP 9 \<in> set (snd (runaway spin_env ONE_ALLOWED (fst (thermal spin_env ONE_ALLOWED spin_run)))) \<and>
   (\<exists>s k0. seen_at [calm_env 0 [] [(9, spinner 0)] None] 9 s k0 \<and> load_over ONE_ALLOWED 100 62000 k0 (620 - s) \<and> 600 \<le> 620 - s)"
proof -
  have ok: "\<forall>i \<in> set ([calm_env 0 [] [(9, spinner 0)] None] @ [spin_env]). ge_hz i = 100 \<and> user_look 9 i"
    "in_order ([calm_env 0 [] [(9, spinner 0)] None] @ [spin_env])"
    by (simp_all add: calm_env_def user_look_def spinner_def in_order_def)
  show ?thesis using runaway_justified [OF refl refl ok disjI1, OF spin_term] spin_term
    by (simp add: calm_env_def spinner_def ONE_ALLOWED_def GUARD_DEFAULTS_def load_over_def)
qed

section \<open>Where the guard does not do what its comments say\<close>

text \<open>
  The comment in \<open>thermal\<close> says that logging and alerts do not wait for the confirmation. They do once the history
  is full: a single pass at the critical temperature after a cool one changes nothing at all, not even to level 1.
\<close>

lemma spike_unnoticed:
  assumes "gd_hist g = [0, 0]" and "gd_level g = 0" and "gc_confirm c = 2" and "gc_critical c \<le> tmax (ge_temps e)"
    and "gc_restore c \<le> tmax (ge_temps e)"
  shows "thermal e c g = (g\<lparr>gd_hist := [0, 3]\<rparr>, [])"
  using assms by (simp add: thermal_def level_stage_def heat_def last_n_def wanted_level_def then_do_def stale_stage_def
      hot_stage_def background_stage_def critical_stage_def Let_def)

text \<open>
  Cooling down releases every hold of the guardian, also the ones taken to free memory, although memory is still
  short; \<open>gd_shed\<close> stays on, so they are not taken again.
\<close>

lemma cooling_releases_memory_hold:
  assumes "gd_level g = 1" and "gd_shed g" and "gc_confirm c = 2" and "tmax (ge_temps e) < gc_restore c"
    and "gc_restore c \<le> gc_warn c" "gc_warn c \<le> gc_hot c" "gc_hot c \<le> gc_critical c"
    and "ge_mem e = Some m" and "m < gc_mem_shed c" and "gd_held g = [n]"
  shows "gd_held (fst (mem_floor e c (fst (thermal e c g)))) = [] \<and>
    ReleaseFile n \<in> set (snd (thermal e c g)) \<and> HoldFile n \<notin> set (snd (mem_floor e c (fst (thermal e c g))))"
proof -
  have h: "heat c (tmax (ge_temps e)) = 0" using assms(4-7) by (simp add: heat_def)
  show ?thesis using assms
    by (auto simp: thermal_def level_stage_def h wanted_level_def release_all_def alert_def mem_floor_def Let_def)
qed

end
