(* ===== verification/Buttons.thy ===== *)
theory Buttons
  imports S22_Prelude Hold_Timer
begin

text \<open>
  The key daemon \<^verbatim>\<open>s22-buttons.py\<close>: the class \<open>Buttons\<close> with its handling of one key event and of the tick of the
  hold mode. What the file system says at that moment (executable hooks, the fast shell's marker, the installed
  tools) is the environment of the input; the saved speech level, which the daemon writes back, is part of the
  state. Started programs, written files and log lines are a list of actions. Writing the daemon's own files is
  taken to succeed.
\<close>

section \<open>Keys, levels, state\<close>

datatype key = VolDown | VolUp | Power

definition KEYS :: "nat \<Rightarrow> key option" where
  "KEYS c = (if c = 114 then Some VolDown else if c = 115 then Some VolUp else if c = 116 then Some Power else None)"

definition LONG_MS :: int where "LONG_MS = 1000"
definition POWER_LONG_MS :: int where "POWER_LONG_MS = 3000"
definition LEVELS :: int where "LEVELS = 10"
definition DEFAULT_LEVEL :: int where "DEFAULT_LEVEL = 4"

definition amp_raw :: "int \<Rightarrow> int" where
  "amp_raw n = (if n \<le> 0 then 0 else 817 - (LEVELS - min n LEVELS) * 32)"

datatype hook_name = AssistantH | VoldownLongH | PowerLongH | PowerH | VolupH | VoldownH

record buttons =
  bt_down :: "key \<Rightarrow> time option"
  bt_level :: int
  bt_say :: "int option"
  bt_ptt :: bool
  bt_chord :: bool

record btn_env =
  be_now :: time
  be_owned :: bool
  be_hook :: "hook_name \<Rightarrow> bool"
  be_ptt_file :: bool
  be_say_ok :: bool
  be_say :: bool
  be_display :: bool

datatype speech = Volume int | Mute | NoAssistant

datatype btn_act = LogPress key | LogRelease key int bool bool | RunHook hook_name key int | PttStart int | PttStop int
  | AmpSet int | Speak speech | DisplayToggle | VolumeFile int

definition current_level :: "buttons \<Rightarrow> int" where
  "current_level b = (case bt_say b of Some n \<Rightarrow> max 0 (min LEVELS n) | None \<Rightarrow> DEFAULT_LEVEL)"

definition new_buttons :: "int option \<Rightarrow> buttons" where
  "new_buttons say =
     (let b = \<lparr>bt_down = (\<lambda>_. None), bt_level = 0, bt_say = say, bt_ptt = False, bt_chord = False\<rparr> in
      b\<lparr>bt_level := current_level b\<rparr>)"

definition hold_mode :: "btn_env \<Rightarrow> bool" where
  "hold_mode e \<longleftrightarrow> be_ptt_file e \<and> be_hook e AssistantH"

text \<open>\<open>int((now - start) * 1000)\<close>; \<open>int\<close> rounds towards 0.\<close>

definition millis :: "time \<Rightarrow> int" where
  "millis d = (if d < 0 then \<lceil>d * 1000\<rceil> else \<lfloor>d * 1000\<rfloor>)"

section \<open>Operations\<close>

definition btn_tick :: "btn_env \<Rightarrow> buttons \<Rightarrow> buttons \<times> btn_act list" where
  "btn_tick e b =
     (case bt_down b VolUp of
        None \<Rightarrow> (b, [])
      | Some start \<Rightarrow>
          if bt_ptt b \<or> be_owned e then (b, [])
          else if millis (be_now e - start) < LONG_MS \<or> \<not> hold_mode e then (b, [])
          else (b\<lparr>bt_ptt := True\<rparr>, [PttStart (millis (be_now e - start))]))"

text \<open>\<open>hook\<close>: whether it ran is whether it was there.\<close>

definition run_hook :: "btn_env \<Rightarrow> hook_name \<Rightarrow> key \<Rightarrow> int \<Rightarrow> btn_act list" where
  "run_hook e h k held = (if be_hook e h then [RunHook h k held] else [])"

definition set_volume :: "btn_env \<Rightarrow> int \<Rightarrow> buttons \<Rightarrow> buttons \<times> btn_act list" where
  "set_volume e n b =
     (let l = max 0 (min LEVELS n) in
      (b\<lparr>bt_level := l, bt_say := (if be_say_ok e then Some l else bt_say b)\<rparr>,
       [VolumeFile l, AmpSet (amp_raw l), AmpSet (amp_raw l)] @
       (if be_say e then [Speak (if l = 0 then Mute else Volume l)] else [])))"

definition press :: "btn_env \<Rightarrow> key \<Rightarrow> buttons \<Rightarrow> buttons \<times> btn_act list" where
  "press e k b =
     (let chord = (if k = Power then bt_down b VolUp \<noteq> None \<or> bt_down b VolDown \<noteq> None
                   else if bt_down b Power \<noteq> None then True else bt_chord b) in
      (b\<lparr>bt_chord := chord, bt_down := (bt_down b)(k \<mapsto> be_now e), bt_ptt := (if k = VolUp then False else bt_ptt b)\<rparr>,
       [LogPress k]))"

definition release_power :: "btn_env \<Rightarrow> int \<Rightarrow> btn_act list" where
  "release_power e held =
     (if held < LONG_MS then
        (if be_hook e PowerH then [RunHook PowerH Power held] else if be_display e then [DisplayToggle] else [])
      else [])"

definition release_volup :: "btn_env \<Rightarrow> int \<Rightarrow> buttons \<Rightarrow> buttons \<times> btn_act list" where
  "release_volup e held b =
     (if bt_ptt b then (b\<lparr>bt_ptt := False\<rparr>, [PttStop held])
      else if LONG_MS \<le> held then
        (b, if be_hook e AssistantH then [RunHook AssistantH VolUp held] else if be_say e then [Speak NoAssistant] else [])
      else if be_hook e VolupH then (b, [RunHook VolupH VolUp held])
      else set_volume e (current_level b + 1) b)"

definition release_voldown :: "btn_env \<Rightarrow> int \<Rightarrow> buttons \<Rightarrow> buttons \<times> btn_act list" where
  "release_voldown e held b =
     (if LONG_MS \<le> held then (b, run_hook e VoldownLongH VolDown held)
      else if be_hook e VoldownH then (b, [RunHook VoldownH VolDown held])
      else set_volume e (current_level b - 1) b)"

definition release :: "btn_env \<Rightarrow> key \<Rightarrow> buttons \<Rightarrow> buttons \<times> btn_act list" where
  "release e k b0 =
     (let held = (case bt_down b0 k of Some start \<Rightarrow> millis (be_now e - start) | None \<Rightarrow> 0);
          chord = (k = Power \<and> bt_chord b0);
          b = b0\<lparr>bt_down := (bt_down b0)(k := None), bt_chord := (if k = Power then False else bt_chord b0)\<rparr>;
          entry = LogRelease k held chord (be_owned e) in
      if k = Power \<and> POWER_LONG_MS \<le> held \<and> \<not> chord then (b, entry # run_hook e PowerLongH k held)
      else if be_owned e \<or> chord then (b, [entry])
      else (case k of
              Power \<Rightarrow> (b, entry # release_power e held)
            | VolUp \<Rightarrow> (let (b1, a) = release_volup e held b in (b1, entry # a))
            | VolDown \<Rightarrow> (let (b1, a) = release_voldown e held b in (b1, entry # a))))"

definition handle_key :: "btn_env \<Rightarrow> nat \<Rightarrow> int \<Rightarrow> buttons \<Rightarrow> buttons \<times> btn_act list" where
  "handle_key e code val b =
     (case KEYS code of
        None \<Rightarrow> (b, [])
      | Some k \<Rightarrow> if val = 1 then press e k b else if val = 0 then release e k b else (b, []))"

text \<open>What the main loop feeds it: key events and ticks; and the other daemons write the saved level.\<close>

datatype btn_input = KeyEv btn_env nat int | TickEv btn_env | LevelWritten "int option"

fun btn_step :: "buttons \<Rightarrow> btn_input \<Rightarrow> buttons \<times> btn_act list" where
  "btn_step b (KeyEv e code val) = handle_key e code val b"
| "btn_step b (TickEv e) = btn_tick e b"
| "btn_step b (LevelWritten n) = (b\<lparr>bt_say := n\<rparr>, [])"

abbreviation btn_run :: "buttons \<Rightarrow> btn_input list \<Rightarrow> buttons" where
  "btn_run b ins \<equiv> run_steps (\<lambda>b i. fst (btn_step b i)) b ins"

section \<open>What each step changes\<close>

definition ev_key :: "btn_input \<Rightarrow> (key \<times> bool \<times> time) option" where
  "ev_key i = (case i of KeyEv e code val \<Rightarrow>
       (case KEYS code of Some k \<Rightarrow> if val = 1 then Some (k, True, be_now e) else if val = 0 then Some (k, False, be_now e) else None
        | None \<Rightarrow> None)
     | _ \<Rightarrow> None)"

lemma set_volume_keeps: "bt_down (fst (set_volume e n b)) = bt_down b \<and> bt_chord (fst (set_volume e n b)) = bt_chord b \<and>
    bt_ptt (fst (set_volume e n b)) = bt_ptt b"
  by (simp add: set_volume_def Let_def)

lemma release_downs: "bt_down (fst (release e k b)) = (bt_down b)(k := None) \<and>
    bt_chord (fst (release e k b)) = (if k = Power then False else bt_chord b)"
  by (auto simp: release_def release_volup_def release_voldown_def set_volume_def Let_def split: key.split)

lemma btn_step_downs:
  "bt_down (fst (btn_step b i)) = (case ev_key i of None \<Rightarrow> bt_down b | Some (k, d, t) \<Rightarrow> (bt_down b)(k := if d then Some t else None))"
  "bt_chord (fst (btn_step b i)) = (case ev_key i of None \<Rightarrow> bt_chord b
     | Some (k, d, t) \<Rightarrow> if d then (if k = Power then bt_down b VolUp \<noteq> None \<or> bt_down b VolDown \<noteq> None
                                      else bt_down b Power \<noteq> None \<or> bt_chord b)
                         else k \<noteq> Power \<and> bt_chord b)"
  by (cases i; simp add: ev_key_def handle_key_def press_def release_downs btn_tick_def Let_def split: option.split)+

section \<open>The safety path of the Power key\<close>

text \<open>Which keys are down after a history, and whether the last Power press overlapped a volume key.\<close>

fun down_after :: "(key \<times> bool \<times> time) list \<Rightarrow> key \<Rightarrow> time option" where
  "down_after [] = (\<lambda>_. None)"
| "down_after ((k, d, t) # past) = (down_after past)(k := if d then Some t else None)"

fun overlapped :: "(key \<times> bool \<times> time) list \<Rightarrow> bool" where
  "overlapped [] = False"
| "overlapped ((k, d, t) # past) =
     (if k = Power then d \<and> (down_after past VolUp \<noteq> None \<or> down_after past VolDown \<noteq> None) else d \<or> overlapped past)"

definition key_past :: "btn_input list \<Rightarrow> (key \<times> bool \<times> time) list" where
  "key_past ins = rev (List.map_filter ev_key ins)"

lemma key_past_snoc: "key_past (ins @ [i]) = (case ev_key i of None \<Rightarrow> key_past ins | Some x \<Rightarrow> x # key_past ins)"
  by (simp add: key_past_def List.map_filter_def split: option.split)

lemma buttons_invar:
  "bt_down (btn_run (new_buttons say) ins) = down_after (key_past ins) \<and>
   (down_after (key_past ins) Power \<noteq> None \<longrightarrow> bt_chord (btn_run (new_buttons say) ins) = overlapped (key_past ins))"
proof (induction ins rule: rev_induct)
  case Nil
  then show ?case by (simp add: new_buttons_def key_past_def List.map_filter_def Let_def)
next
  case (snoc i ins)
  show ?case
  proof (cases "ev_key i")
    case None
    then show ?thesis using snoc by (simp add: key_past_snoc btn_step_downs)
  next
    case (Some x)
    obtain k d t where x: "x = (k, d, t)" by (cases x)
    show ?thesis using snoc by (auto simp: key_past_snoc btn_step_downs Some x)
  qed
qed

text \<open>
  C37. The way back to the classic shell: on a release of Power the hook \<open>power-long\<close> runs exactly when it is
  installed, Power was down for at least 3 seconds and no volume key was down at its press or pressed since; whether
  the fast shell owns the keys does not matter.
\<close>

theorem power_long_alone:
  assumes "b = btn_run (new_buttons say) ins" and "down_after (key_past ins) Power = Some start"
  shows "(\<exists>held. RunHook PowerLongH Power held \<in> set (snd (btn_step b (KeyEv e 116 0)))) \<longleftrightarrow>
    be_hook e PowerLongH \<and> 3 \<le> be_now e - start \<and> \<not> overlapped (key_past ins)"
proof -
  have st: "bt_down b Power = Some start" "bt_chord b = overlapped (key_past ins)"
    using buttons_invar [of say ins] assms by simp_all
  have m: "POWER_LONG_MS \<le> millis d \<longleftrightarrow> 3 \<le> d" for d
    by (auto simp: POWER_LONG_MS_def millis_def le_floor_iff ceiling_le_iff not_le)
  show ?thesis using st by (auto simp: handle_key_def KEYS_def release_def run_hook_def release_power_def m Let_def)
qed

text \<open>A Power key held for 4 seconds alone, and the same with Volume down pressed in between.\<close>

definition all_hooks :: "time \<Rightarrow> btn_env" where
  "all_hooks now = \<lparr>be_now = now, be_owned = True, be_hook = (\<lambda>_. True), be_ptt_file = True, be_say_ok = True,
     be_say = True, be_display = True\<rparr>"

lemma power_long_alone_witness:
  "(\<exists>held. RunHook PowerLongH Power held \<in> set (snd (btn_step (btn_run (new_buttons None) [KeyEv (all_hooks 10) 116 1])
      (KeyEv (all_hooks 14) 116 0)))) \<and>
   \<not> (\<exists>held. RunHook PowerLongH Power held \<in> set (snd (btn_step
      (btn_run (new_buttons None) [KeyEv (all_hooks 10) 116 1, KeyEv (all_hooks 11) 114 1]) (KeyEv (all_hooks 14) 116 0))))"
proof -
  have k: "key_past [KeyEv (all_hooks 10) 116 1] = [(Power, True, 10)]"
    "key_past [KeyEv (all_hooks 10) 116 1, KeyEv (all_hooks 11) 114 1] = [(VolDown, True, 11), (Power, True, 10)]"
    by (simp_all add: key_past_def List.map_filter_simps ev_key_def KEYS_def all_hooks_def)
  have d: "down_after (key_past [KeyEv (all_hooks 10) 116 1]) Power = Some 10"
    "down_after (key_past [KeyEv (all_hooks 10) 116 1, KeyEv (all_hooks 11) 114 1]) Power = Some 10" by (simp_all add: k)
  show ?thesis
    unfolding power_long_alone [OF refl d(1)] power_long_alone [OF refl d(2)] k by (simp add: all_hooks_def)
qed

section \<open>Recording while Volume up is held\<close>

definition ptt_starts :: "btn_act list \<Rightarrow> btn_act list" where
  "ptt_starts = filter (\<lambda>a. case a of PttStart _ \<Rightarrow> True | _ \<Rightarrow> False)"

definition volup_ev :: "btn_input \<Rightarrow> bool" where
  "volup_ev i \<longleftrightarrow> (case ev_key i of Some (VolUp, _) \<Rightarrow> True | _ \<Rightarrow> False)"

text \<open>A tick at which the recording is to start when the key went down at \<open>t0\<close>.\<close>

definition start_due :: "time \<Rightarrow> btn_input \<Rightarrow> bool" where
  "start_due t0 i = (case i of TickEv e \<Rightarrow> \<not> be_owned e \<and> LONG_MS \<le> millis (be_now e - t0) \<and> hold_mode e | _ \<Rightarrow> False)"

lemma step_ptt:
  assumes "\<not> volup_ev i" and "bt_down b VolUp = Some t0"
  shows "bt_down (fst (btn_step b i)) VolUp = Some t0 \<and> (\<forall>h. PttStop h \<notin> set (snd (btn_step b i))) \<and>
    bt_ptt (fst (btn_step b i)) = (bt_ptt b \<or> start_due t0 i) \<and>
    (if start_due t0 i \<and> \<not> bt_ptt b then \<exists>h \<ge> LONG_MS. ptt_starts (snd (btn_step b i)) = [PttStart h]
     else ptt_starts (snd (btn_step b i)) = [])"
proof (cases i)
  case (KeyEv e code val)
  show ?thesis
  proof (cases "ev_key i")
    case None
    then show ?thesis using assms(2) by (auto simp: KeyEv ev_key_def handle_key_def start_due_def ptt_starts_def split: option.splits if_splits)
  next
    case (Some x)
    obtain k d t where x: "x = (k, d, t)" by (cases x)
    have k: "KEYS code = Some k" "k \<noteq> VolUp" "val = (if d then 1 else 0)" using Some assms(1)
      by (auto simp: x KeyEv ev_key_def volup_ev_def split: option.splits if_splits key.splits)
      show ?thesis using assms(2) k(2)
      by (cases k; cases d) (auto simp: KeyEv handle_key_def k(1,3) start_due_def press_def release_def run_hook_def release_power_def release_voldown_def
          set_volume_def ptt_starts_def Let_def)
  qed
next
  case (TickEv e)
  then show ?thesis using assms(2) by (auto simp: btn_tick_def start_due_def ptt_starts_def)
next
  case (LevelWritten n)
  then show ?thesis using assms(2) by (simp add: start_due_def ptt_starts_def)
qed

lemma run_ptt:
  assumes "run_chunks btn_step b ins = (b', acts)" and "\<not> list_ex volup_ev ins" and "bt_down b VolUp = Some t0"
  shows "bt_down b' VolUp = Some t0 \<and> (\<forall>h. PttStop h \<notin> set acts) \<and> bt_ptt b' = (bt_ptt b \<or> list_ex (start_due t0) ins) \<and>
    (if list_ex (start_due t0) ins \<and> \<not> bt_ptt b then \<exists>h \<ge> LONG_MS. ptt_starts acts = [PttStart h] else ptt_starts acts = [])"
  using assms
proof (induction ins arbitrary: b b' acts)
  case Nil
  then show ?case by (simp add: ptt_starts_def)
next
  case (Cons i ins)
  obtain b1 a1 where s: "btn_step b i = (b1, a1)" by fastforce
  obtain b2 a2 where r: "run_chunks btn_step b1 ins = (b2, a2)" by fastforce
  have st: "bt_down b1 VolUp = Some t0 \<and> (\<forall>h. PttStop h \<notin> set a1) \<and> bt_ptt b1 = (bt_ptt b \<or> start_due t0 i) \<and>
      (if start_due t0 i \<and> \<not> bt_ptt b then \<exists>h \<ge> LONG_MS. ptt_starts a1 = [PttStart h] else ptt_starts a1 = [])"
    using step_ptt [of i b t0, unfolded s fst_conv snd_conv] Cons.prems(2,3) by simp
  have e: "b' = b2" "acts = a1 @ a2" using Cons.prems(1) by (simp_all add: s r)
  have app: "ptt_starts (a1 @ a2) = ptt_starts a1 @ ptt_starts a2" by (simp add: ptt_starts_def)
  show ?case unfolding e app using Cons.IH [OF r] Cons.prems st by (auto split: if_splits)
qed

text \<open>
  Recording while Volume up is held: whatever else happens between its press and its release, a recording
  starts at most once, and does so exactly when some tick finds the key down for a second, the shell not in charge
  and the hold mode set up. Its release, if the shell is still not in charge, then only writes the stop file with the
  time held; without a recording it writes none.
\<close>

theorem ptt_press:
  assumes "fst (btn_step b (KeyEv ep 115 1)) = b1" and "run_chunks btn_step b1 ins = (b2, acts)" and "\<not> list_ex volup_ev ins"
    and "snd (btn_step b2 (KeyEv e 115 0)) = out" and "\<not> be_owned e"
  shows "(if list_ex (start_due (be_now ep)) ins
     then (\<exists>h \<ge> 1000. ptt_starts acts = [PttStart h]) \<and>
       out = [LogRelease VolUp (millis (be_now e - be_now ep)) False False, PttStop (millis (be_now e - be_now ep))]
     else ptt_starts acts = [] \<and> (\<forall>h. PttStop h \<notin> set out)) \<and> (\<forall>h. PttStop h \<notin> set acts)"
proof -
  have b1: "bt_down b1 VolUp = Some (be_now ep)" "\<not> bt_ptt b1"
    using assms(1) by (auto simp: handle_key_def KEYS_def press_def Let_def)
  note r = run_ptt [OF assms(2,3) b1(1)]
  have out: "out = (if bt_ptt b2 then [LogRelease VolUp (millis (be_now e - be_now ep)) False False, PttStop (millis (be_now e - be_now ep))] else out)"
    and no: "\<not> bt_ptt b2 \<Longrightarrow> PttStop h \<notin> set out" for h
    using assms(4,5) r
    by (auto simp: handle_key_def KEYS_def release_def release_volup_def set_volume_def Let_def split: if_splits)
  show ?thesis using r b1(2) out no by (auto simp: LONG_MS_def split: if_splits)
qed

definition my_hooks :: "time \<Rightarrow> btn_env" where
  "my_hooks now = (all_hooks now)\<lparr>be_owned := False\<rparr>"

lemma ptt_press_witness:
  "snd (btn_step (fst (run_chunks btn_step (fst (btn_step (new_buttons (Some 7)) (KeyEv (my_hooks 10) 115 1)))
      [TickEv (my_hooks (21/2)), TickEv (my_hooks 12)])) (KeyEv (my_hooks 13) 115 0)) = [LogRelease VolUp 3000 False False, PttStop 3000]"
proof -
  let ?ins = "[TickEv (my_hooks (21/2)), TickEv (my_hooks 12)]"
  let ?b1 = "fst (btn_step (new_buttons (Some 7)) (KeyEv (my_hooks 10) 115 1))"
  have s: "\<not> list_ex volup_ev ?ins" by (simp add: volup_ev_def ev_key_def)
  have e: "list_ex (start_due (be_now (my_hooks 10))) ?ins" "millis (be_now (my_hooks 13) - be_now (my_hooks 10)) = 3000" "\<not> be_owned (my_hooks 13)"
    by (simp_all add: my_hooks_def all_hooks_def start_due_def hold_mode_def LONG_MS_def millis_def)
  show ?thesis using ptt_press [OF refl prod.collapse [symmetric] s refl e(3), where b = "new_buttons (Some 7)" and ep = "my_hooks 10"] e(1,2) by simp
qed

text \<open>
  When the fast shell takes over between the start and the release, the stop file is never written: the recording is
  not told that the key was released.
\<close>

lemma ptt_stop_lost_on_handover:
  assumes "bt_ptt b" and "be_owned e"
  shows "PttStop h \<notin> set (snd (btn_step b (KeyEv e 115 0)))"
  using assms by (simp add: handle_key_def KEYS_def release_def Let_def)

section \<open>Volume\<close>

lemma amp_raw_range: "0 \<le> amp_raw n \<and> amp_raw n \<le> 817"
  by (simp add: amp_raw_def LEVELS_def)

lemma amp_raw_step: "0 < n \<Longrightarrow> n < LEVELS \<Longrightarrow> amp_raw (n + 1) = amp_raw n + 32"
  by (simp add: amp_raw_def LEVELS_def)

text \<open>A short press moves the saved level, as another daemon may have left it, by one step inside 0 to 10.\<close>

lemma short_press_level:
  assumes "bt_down b VolUp = Some t0" and "\<not> bt_ptt b" and "millis (be_now e - t0) < LONG_MS" and "\<not> be_owned e"
    and "\<not> be_hook e VolupH" and "be_say_ok e"
  shows "bt_say (fst (btn_step b (KeyEv e 115 0))) = Some (min LEVELS (current_level b + 1))"
proof -
  have c: "current_level (b\<lparr>bt_down := f\<rparr>) = current_level b" for f by (simp add: current_level_def)
  have "0 \<le> current_level b" by (simp add: current_level_def LEVELS_def DEFAULT_LEVEL_def split: option.split)
  then show ?thesis using assms c
    by (simp add: handle_key_def KEYS_def release_def release_volup_def set_volume_def Let_def LEVELS_def)
qed

end
