(* ===== verification/Turnguard.thy ===== *)
theory Turnguard
  imports Py_Text Hold_Timer
begin

text \<open>
  The turn watchdog \<^verbatim>\<open>s22-turnguard.py\<close>: the class \<open>Guard\<close>, whose \<open>step\<close> takes the pending turns OpenUnum reports
  and cancels those that are over the limit of their session's class. The requests it makes are a list of actions;
  a request that fails changes nothing in the guard, so their answers are left out. SHA-256 is a parameter of the
  configuration, like the regular expressions of the classes (None for one that does not compile).
\<close>

section \<open>Configuration, turns and state\<close>

record turn_class =
  tc_name :: pystr
  tc_match :: "pystr \<Rightarrow> bool option"
  tc_limit :: time

record turn_cfg =
  tg_classes :: "turn_class list"
  tg_default :: time
  tg_grace :: time
  tg_tries :: int
  tg_retry_max :: int
  tg_retry_window :: time
  tg_reap :: bool
  tg_hash :: "pystr \<Rightarrow> pystr \<Rightarrow> pystr"

text \<open>\<open>^voice($|-)\<close> and \<open>^touch$\<close>; \<open>$\<close> also matches before a final newline.\<close>

definition voice_match :: "pystr \<Rightarrow> bool" where
  "voice_match s \<longleftrightarrow> s = lit ''voice'' \<or> s = lit ''voice'' @ [10] \<or> take 6 s = lit ''voice-''"

definition touch_match :: "pystr \<Rightarrow> bool" where
  "touch_match s \<longleftrightarrow> s = lit ''touch'' \<or> s = lit ''touch'' @ [10]"

definition TURN_CONFIG :: "(pystr \<Rightarrow> pystr \<Rightarrow> pystr) \<Rightarrow> turn_cfg" where
  "TURN_CONFIG sha = \<lparr>tg_classes = [\<lparr>tc_name = lit ''voice'', tc_match = Some \<circ> voice_match, tc_limit = 300\<rparr>,
       \<lparr>tc_name = lit ''touch'', tc_match = Some \<circ> touch_match, tc_limit = 900\<rparr>],
     tg_default = 0, tg_grace = 20, tg_tries = 3, tg_retry_max = 2, tg_retry_window = 1800, tg_reap = True, tg_hash = sha\<rparr>"

fun classify_in :: "turn_class list \<Rightarrow> pystr \<Rightarrow> time \<Rightarrow> pystr \<times> time" where
  "classify_in [] s d = (lit ''other'', d)"
| "classify_in (c # cs) s d = (if tc_match c s = Some True then (tc_name c, tc_limit c) else classify_in cs s d)"

definition classify :: "pystr \<Rightarrow> turn_cfg \<Rightarrow> pystr \<times> time" where
  "classify s cfg = classify_in (tg_classes cfg) s (tg_default cfg)"

datatype cancel_why = RetryBudget | Timeout | Recancel

record turn =
  tu_session :: pystr
  tu_turn :: pystr
  tu_started :: time
  tu_limit :: time
  tu_class :: pystr
  tu_hash :: pystr
  tu_cancelled :: "time option"
  tu_last :: time
  tu_tries :: int
  tu_why :: "cancel_why option"
  tu_escalated :: bool

text \<open>A pending turn as reported: session and turn id (empty when missing), \<open>parse_iso(startedAt)\<close>, \<open>ageMs\<close> and the preview.\<close>

record pending_turn =
  pe_session :: pystr
  pe_turn :: pystr
  pe_started :: "time option"
  pe_age :: time
  pe_preview :: pystr

text \<open>\<open>session|turn\<close>\<close>

type_synonym turn_key = pystr

record guard =
  tg_turns :: "(turn_key, turn) dict"
  tg_timeouts :: "pystr \<Rightarrow> time list"

datatype turn_act = CancelTurn turn_key cancel_why time | Escalate turn_key | Reap time

section \<open>One poll\<close>

definition cancel_turn :: "turn_key \<Rightarrow> turn \<Rightarrow> time \<Rightarrow> cancel_why \<Rightarrow> turn \<times> turn_act list" where
  "cancel_turn k tr now why =
     (tr\<lparr>tu_cancelled := (case tu_cancelled tr of Some t \<Rightarrow> (if t = 0 then Some now else Some t) | None \<Rightarrow> Some now),
         tu_last := now, tu_tries := tu_tries tr + 1,
         tu_why := (case tu_why tr of Some w \<Rightarrow> Some w | None \<Rightarrow> Some why)\<rparr>,
      [CancelTurn k why now])"

definition msg_hash :: "turn_cfg \<Rightarrow> pending_turn \<Rightarrow> pystr" where
  "msg_hash cfg p = tg_hash cfg (pe_session p) (strip_space (pe_preview p))"

definition new_turn :: "turn_cfg \<Rightarrow> time \<Rightarrow> pending_turn \<Rightarrow> turn" where
  "new_turn cfg now p =
     (let (cls, limit) = classify (pe_session p) cfg in
      \<lparr>tu_session = pe_session p, tu_turn = pe_turn p,
       tu_started = (case pe_started p of Some t \<Rightarrow> t | None \<Rightarrow> now - pe_age p / 1000),
       tu_limit = limit, tu_class = cls, tu_hash = msg_hash cfg p, tu_cancelled = None, tu_last = 0, tu_tries = 0,
       tu_why = None, tu_escalated = False\<rparr>)"

definition pending_key :: "pending_turn \<Rightarrow> turn_key" where
  "pending_key p = pe_session p @ 124 # pe_turn p"

definition is_cancelled :: "turn \<Rightarrow> bool" where
  "is_cancelled tr \<longleftrightarrow> (case tu_cancelled tr of Some t \<Rightarrow> t \<noteq> 0 | None \<Rightarrow> False)"

definition retry_spent :: "turn_cfg \<Rightarrow> turn \<Rightarrow> guard \<Rightarrow> bool" where
  "retry_spent cfg tr g \<longleftrightarrow>
     tu_limit tr \<noteq> 0 \<and> tg_retry_max cfg \<le> int (length (tg_timeouts g (tu_hash tr))) \<and> 0 < tg_retry_max cfg"

definition known_turn :: "turn_cfg \<Rightarrow> time \<Rightarrow> turn_key \<Rightarrow> turn \<Rightarrow> guard \<Rightarrow> guard \<times> turn_act list" where
  "known_turn cfg now k tr g =
     (if is_cancelled tr then
        (if tg_grace cfg \<le> now - tu_last tr then
           (if tu_tries tr < tg_tries cfg then
              (let (tr1, a) = cancel_turn k tr now Recancel in (g\<lparr>tg_turns := AList.update k tr1 (tg_turns g)\<rparr>, a))
            else if \<not> tu_escalated tr then
              (g\<lparr>tg_turns := AList.update k (tr\<lparr>tu_escalated := (now \<noteq> 0)\<rparr>) (tg_turns g)\<rparr>, [Escalate k])
            else (g, []))
         else (g, []))
      else if tu_limit tr \<noteq> 0 \<and> tu_limit tr \<le> now - tu_started tr then
        (let (tr1, a) = cancel_turn k tr now Timeout in
         (g\<lparr>tg_turns := AList.update k tr1 (tg_turns g),
            tg_timeouts := (tg_timeouts g)(tu_hash tr := tg_timeouts g (tu_hash tr) @ [now])\<rparr>, a))
      else (g, []))"

definition pending_step :: "turn_cfg \<Rightarrow> time \<Rightarrow> pending_turn \<Rightarrow> guard \<Rightarrow> guard \<times> turn_act list" where
  "pending_step cfg now p g =
     (let k = pending_key p in
      if pe_session p = [] then (g, [])
      else (case map_of (tg_turns g) k of
              Some tr \<Rightarrow> known_turn cfg now k tr g
            | None \<Rightarrow>
                (let tr = new_turn cfg now p; g1 = g\<lparr>tg_turns := AList.update k tr (tg_turns g)\<rparr> in
                 if retry_spent cfg tr g1 then
                   (let (tr1, a) = cancel_turn k tr now RetryBudget in (g1\<lparr>tg_turns := AList.update k tr1 (tg_turns g1)\<rparr>, a))
                 else known_turn cfg now k tr g1)))"

fun pending_loop :: "turn_cfg \<Rightarrow> time \<Rightarrow> pending_turn list \<Rightarrow> guard \<Rightarrow> guard \<times> turn_act list" where
  "pending_loop cfg now [] g = (g, [])"
| "pending_loop cfg now (p # ps) g =
     (let (g1, a1) = pending_step cfg now p g; (g2, a2) = pending_loop cfg now ps g1 in (g2, a1 @ a2))"

definition fresh_timeouts :: "turn_cfg \<Rightarrow> time \<Rightarrow> guard \<Rightarrow> guard" where
  "fresh_timeouts cfg now g = g\<lparr>tg_timeouts := (\<lambda>h. filter (\<lambda>t. now - t < tg_retry_window cfg) (tg_timeouts g h))\<rparr>"

definition seen_keys :: "pending_turn list \<Rightarrow> turn_key list" where
  "seen_keys ps = map pending_key (filter (\<lambda>p. pe_session p \<noteq> []) ps)"

definition turn_ends :: "turn_cfg \<Rightarrow> pending_turn list \<Rightarrow> guard \<Rightarrow> guard \<times> turn_act list" where
  "turn_ends cfg ps g =
     (let gone = filter (\<lambda>(k, _). k \<notin> set (seen_keys ps)) (tg_turns g) in
      (g\<lparr>tg_turns := filter (\<lambda>(k, _). k \<in> set (seen_keys ps)) (tg_turns g)\<rparr>,
       if tg_reap cfg \<and> seen_keys ps = [] then map (\<lambda>(_, tr). Reap (tu_started tr)) (filter (\<lambda>(_, tr). is_cancelled tr) gone)
       else []))"

definition guard_step :: "turn_cfg \<Rightarrow> pending_turn list \<Rightarrow> time \<Rightarrow> guard \<Rightarrow> guard \<times> turn_act list" where
  "guard_step cfg ps now g =
     (let (g1, a1) = pending_loop cfg now ps (fresh_timeouts cfg now g); (g2, a2) = turn_ends cfg ps g1 in (g2, a1 @ a2))"

definition new_guard :: guard where
  "new_guard = \<lparr>tg_turns = [], tg_timeouts = (\<lambda>_. [])\<rparr>"

section \<open>How one turn moves\<close>

definition same_turn :: "turn \<Rightarrow> turn \<Rightarrow> bool" where
  "same_turn a b \<longleftrightarrow> tu_session a = tu_session b \<and> tu_turn a = tu_turn b \<and> tu_started a = tu_started b \<and>
     tu_limit a = tu_limit b \<and> tu_class a = tu_class b \<and> tu_hash a = tu_hash b"

definition over_limit :: "time \<Rightarrow> turn \<Rightarrow> bool" where
  "over_limit now tr \<longleftrightarrow> tu_limit tr \<noteq> 0 \<and> tu_limit tr \<le> now - tu_started tr"

text \<open>The four things a poll does to a turn: nothing, a first cancel, another cancel, the escalation.\<close>

definition turn_moves :: "turn_cfg \<Rightarrow> time \<Rightarrow> guard \<Rightarrow> turn_key \<Rightarrow> turn \<Rightarrow> turn \<Rightarrow> turn_act list \<Rightarrow> bool" where
  "turn_moves cfg now g k tr tr' a \<longleftrightarrow> same_turn tr' tr \<and>
     (a = [] \<and> tr' = tr \<and> (over_limit now tr \<longrightarrow> is_cancelled tr) \<or>
      (\<exists>why. a = [CancelTurn k why now] \<and> \<not> is_cancelled tr \<and> is_cancelled tr' \<and> tu_limit tr \<noteq> 0 \<and>
         (why = Timeout \<and> over_limit now tr \<or> why = RetryBudget \<and> retry_spent cfg tr g) \<and>
         tu_tries tr' = tu_tries tr + 1 \<and> tu_escalated tr' = tu_escalated tr) \<or>
      a = [CancelTurn k Recancel now] \<and> is_cancelled tr \<and> is_cancelled tr' \<and> tg_grace cfg \<le> now - tu_last tr \<and>
         tu_tries tr < tg_tries cfg \<and> tu_tries tr' = tu_tries tr + 1 \<and> tu_escalated tr' = tu_escalated tr \<or>
      a = [Escalate k] \<and> is_cancelled tr \<and> is_cancelled tr' \<and> tg_tries cfg \<le> tu_tries tr \<and>
         \<not> tu_escalated tr \<and> tu_escalated tr' \<and> tu_tries tr' = tu_tries tr)"

lemma cancel_turn_facts:
  assumes "cancel_turn k tr now why = (tr', a)" and "now \<noteq> 0"
  shows "a = [CancelTurn k why now] \<and> same_turn tr' tr \<and> is_cancelled tr' \<and> tu_tries tr' = tu_tries tr + 1 \<and>
    tu_escalated tr' = tu_escalated tr"
  using assms by (auto simp: cancel_turn_def same_turn_def is_cancelled_def split: option.splits if_splits)

lemma known_turn_moves:
  assumes "known_turn cfg now k tr g = (g', a)" and "map_of (tg_turns g) k = Some tr" and "now \<noteq> 0"
  shows "\<exists>tr'. map_of (tg_turns g') = (map_of (tg_turns g))(k \<mapsto> tr') \<and> turn_moves cfg now h k tr tr' a"
proof -
  have id: "map_of (tg_turns g) = (map_of (tg_turns g))(k \<mapsto> tr)" using assms(2) by auto
  obtain r ra where r: "cancel_turn k tr now Recancel = (r, ra)" by fastforce
  obtain u ua where u: "cancel_turn k tr now Timeout = (u, ua)" by fastforce
  note rf = cancel_turn_facts [OF r assms(3)] and uf = cancel_turn_facts [OF u assms(3)]
  show ?thesis
  proof (cases "is_cancelled tr")
    case True
    let ?e = "tr\<lparr>tu_escalated := True\<rparr>"
    have e: "same_turn ?e tr \<and> is_cancelled ?e" using True by (simp add: same_turn_def is_cancelled_def)
    show ?thesis using assms(1,3) True id rf e
      by (auto simp: known_turn_def r turn_moves_def same_turn_def split: if_splits)
  next
    case False
    show ?thesis using assms(1) False id uf
      by (auto simp: known_turn_def u turn_moves_def same_turn_def over_limit_def split: if_splits)
  qed
qed

lemma pending_step_moves:
  assumes "pending_step cfg now p g = (g', a)" and "pe_session p \<noteq> []" and "now \<noteq> 0"
    and "tr = (case map_of (tg_turns g) (pending_key p) of Some tr \<Rightarrow> tr | None \<Rightarrow> new_turn cfg now p)"
  shows "\<exists>tr'. map_of (tg_turns g') = (map_of (tg_turns g))(pending_key p \<mapsto> tr') \<and> turn_moves cfg now g (pending_key p) tr tr' a"
proof (cases "map_of (tg_turns g) (pending_key p)")
  case (Some x)
  then show ?thesis using known_turn_moves [of cfg now "pending_key p" x g g' a g] assms by (simp add: pending_step_def Let_def)
next
  case None
  let ?k = "pending_key p" let ?g = "g\<lparr>tg_turns := AList.update ?k tr (tg_turns g)\<rparr>"
  have tr: "tr = new_turn cfg now p" "\<not> is_cancelled tr" using assms(4) None
    by (simp_all add: new_turn_def is_cancelled_def case_prod_unfold Let_def)
  have sp: "retry_spent cfg tr ?g = retry_spent cfg tr g" by (simp add: retry_spent_def)
  show ?thesis
  proof (cases "retry_spent cfg tr g")
    case True
    obtain u ua where u: "cancel_turn ?k tr now RetryBudget = (u, ua)" by fastforce
    have "tu_limit tr \<noteq> 0" using True by (simp add: retry_spent_def)
    moreover have "g' = ?g\<lparr>tg_turns := AList.update ?k u (AList.update ?k tr (tg_turns g))\<rparr>" "a = ua"
      using assms(1,2) None True tr(1) u sp by (simp_all add: pending_step_def Let_def)
    ultimately show ?thesis using cancel_turn_facts [OF u assms(3)] True tr(2) by (auto simp: turn_moves_def)
  next
    case False
    then have "known_turn cfg now ?k tr ?g = (g', a)"
      using assms(1,2) None tr(1) sp by (simp add: pending_step_def Let_def)
    then show ?thesis using known_turn_moves [of cfg now ?k tr ?g g' a g] assms(3) by simp
  qed
qed

section \<open>Counting cancels\<close>

definition n_cancel :: "turn_key \<Rightarrow> turn_act list \<Rightarrow> nat" where
  "n_cancel k a = length (filter (\<lambda>x. case x of CancelTurn j _ _ \<Rightarrow> j = k | _ \<Rightarrow> False) a)"

definition n_escalate :: "turn_key \<Rightarrow> turn_act list \<Rightarrow> nat" where
  "n_escalate k a = length (filter (\<lambda>x. x = Escalate k) a)"

definition tries_of :: "guard \<Rightarrow> turn_key \<Rightarrow> int" where
  "tries_of g k = (case map_of (tg_turns g) k of Some tr \<Rightarrow> tu_tries tr | None \<Rightarrow> 0)"

definition escalated_of :: "guard \<Rightarrow> turn_key \<Rightarrow> nat" where
  "escalated_of g k = (case map_of (tg_turns g) k of Some tr \<Rightarrow> of_bool (tu_escalated tr) | None \<Rightarrow> 0)"

lemma n_append: "n_cancel k (a @ b) = n_cancel k a + n_cancel k b" "n_escalate k (a @ b) = n_escalate k a + n_escalate k b"
  by (simp_all add: n_cancel_def n_escalate_def)

text \<open>The turn comes from a report in one of the polls.\<close>

definition reported :: "turn_cfg \<Rightarrow> (pending_turn list \<times> time) set \<Rightarrow> turn_key \<Rightarrow> turn \<Rightarrow> bool" where
  "reported cfg polls k tr \<longleftrightarrow> (\<exists>ps now p. (ps, now) \<in> polls \<and> p \<in> set ps \<and> pending_key p = k \<and> same_turn tr (new_turn cfg now p))"

definition turn_ok :: "turn_cfg \<Rightarrow> turn \<Rightarrow> bool" where
  "turn_ok cfg tr \<longleftrightarrow> 0 \<le> tu_tries tr \<and> tu_tries tr \<le> max 1 (tg_tries cfg) \<and>
     (\<not> is_cancelled tr \<longrightarrow> tu_tries tr = 0 \<and> \<not> tu_escalated tr) \<and> (is_cancelled tr \<longrightarrow> tu_limit tr \<noteq> 0) \<and>
     (tu_escalated tr \<longrightarrow> tg_tries cfg \<le> tu_tries tr)"

definition turns_ok :: "turn_cfg \<Rightarrow> (pending_turn list \<times> time) set \<Rightarrow> guard \<Rightarrow> bool" where
  "turns_ok cfg polls g \<longleftrightarrow> (\<forall>k tr. map_of (tg_turns g) k = Some tr \<longrightarrow> turn_ok cfg tr \<and> reported cfg polls k tr)"

lemma same_turn_trans: "same_turn a b \<Longrightarrow> same_turn b c \<Longrightarrow> same_turn a c"
  by (simp add: same_turn_def)

lemma moves_ok:
  assumes "turn_moves cfg now g k tr tr' a" and "turn_ok cfg tr"
  shows "turn_ok cfg tr' \<and> (is_cancelled tr \<longrightarrow> is_cancelled tr') \<and> (over_limit now tr' \<longrightarrow> is_cancelled tr') \<and>
    tu_tries tr' = tu_tries tr + int (n_cancel k a) \<and> of_bool (tu_escalated tr') = of_bool (tu_escalated tr) + n_escalate k a \<and>
    (j \<noteq> k \<longrightarrow> n_cancel j a = 0 \<and> n_escalate j a = 0)"
  using assms unfolding turn_moves_def
  by (elim conjE disjE exE) (auto simp: turn_ok_def same_turn_def over_limit_def n_cancel_def n_escalate_def)

section \<open>One poll and a run of polls\<close>

text \<open>What one poll or a part of it does: it keeps the invariant, and every cancel and escalation of \<open>k\<close> is counted.\<close>

definition counted :: "turn_cfg \<Rightarrow> (pending_turn list \<times> time) set \<Rightarrow> guard \<Rightarrow> guard \<Rightarrow> turn_act list \<Rightarrow> bool" where
  "counted cfg polls g g' a \<longleftrightarrow> turns_ok cfg polls g' \<and>
     (\<forall>k. tries_of g' k = tries_of g k + int (n_cancel k a) \<and> escalated_of g' k = escalated_of g k + n_escalate k a)"

text \<open>Every cancel is justified by the turn as it is after the poll.\<close>

definition justified :: "turn_cfg \<Rightarrow> pending_turn list \<Rightarrow> time \<Rightarrow> guard \<Rightarrow> turn_act list \<Rightarrow> bool" where
  "justified cfg ps now g a \<longleftrightarrow>
     (\<forall>k why t. CancelTurn k why t \<in> set a \<longrightarrow> t = now \<and> k \<in> set (seen_keys ps) \<and>
        (\<exists>tr. map_of (tg_turns g) k = Some tr \<and> tu_limit tr \<noteq> 0 \<and> (why = Timeout \<longrightarrow> over_limit now tr) \<and>
           (why = RetryBudget \<longrightarrow> 0 < tg_retry_max cfg \<and> tg_retry_max cfg \<le> int (length (tg_timeouts g (tu_hash tr))))))"

definition grows :: "guard \<Rightarrow> guard \<Rightarrow> bool" where
  "grows g g' \<longleftrightarrow>
     (\<forall>k tr. map_of (tg_turns g) k = Some tr \<longrightarrow> (\<exists>tr'. map_of (tg_turns g') k = Some tr' \<and> same_turn tr' tr)) \<and>
     (\<forall>h. length (tg_timeouts g h) \<le> length (tg_timeouts g' h))"

lemma step_timeouts:
  "pending_step cfg now p g = (g', a) \<Longrightarrow> length (tg_timeouts g h) \<le> length (tg_timeouts g' h)"
  by (auto simp: pending_step_def known_turn_def cancel_turn_def Let_def split: option.splits if_splits)

definition turn_cut :: "time \<Rightarrow> guard \<Rightarrow> turn_key \<Rightarrow> bool" where
  "turn_cut now g k \<longleftrightarrow> (\<exists>tr. map_of (tg_turns g) k = Some tr \<and> (over_limit now tr \<longrightarrow> is_cancelled tr))"

lemma pending_step_facts:
  assumes "pending_step cfg now p g = (g', a)" and "now \<noteq> 0" and "turns_ok cfg polls g" and "(ps, now) \<in> polls" and "p \<in> set ps"
  shows "counted cfg polls g g' a \<and> justified cfg ps now g' a \<and> (\<forall>k. turn_cut now g k \<longrightarrow> turn_cut now g' k) \<and>
    (pe_session p \<noteq> [] \<longrightarrow> turn_cut now g' (pending_key p)) \<and>
    grows g g'"
proof (cases "pe_session p = []")
  case True
  then show ?thesis using assms(1,3)
    by (simp add: pending_step_def Let_def counted_def justified_def n_cancel_def n_escalate_def same_turn_def grows_def)
next
  case False
  let ?k = "pending_key p"
  define tr where "tr = (case map_of (tg_turns g) ?k of Some tr \<Rightarrow> tr | None \<Rightarrow> new_turn cfg now p)"
  obtain tr' where m: "map_of (tg_turns g') = (map_of (tg_turns g))(?k \<mapsto> tr')" and mv: "turn_moves cfg now g ?k tr tr' a"
    using pending_step_moves [OF assms(1) False assms(2) tr_def] by blast
  have new: "turn_ok cfg (new_turn cfg now p)" "tu_tries (new_turn cfg now p) = 0" "\<not> tu_escalated (new_turn cfg now p)"
    by (simp_all add: new_turn_def turn_ok_def is_cancelled_def case_prod_unfold Let_def)
  have rep: "reported cfg polls ?k tr" and ok: "turn_ok cfg tr"
  proof -
    show "reported cfg polls ?k tr"
    proof (cases "map_of (tg_turns g) ?k")
      case None
      then have "same_turn tr (new_turn cfg now p)" by (simp add: tr_def same_turn_def)
      then show ?thesis using assms(4,5) unfolding reported_def by blast
    next
      case (Some x)
      then show ?thesis using assms(3) by (simp add: tr_def turns_ok_def)
    qed
    show "turn_ok cfg tr" using assms(3) new by (cases "map_of (tg_turns g) ?k") (auto simp: tr_def turns_ok_def)
  qed
  have c: "turn_ok cfg tr'" "is_cancelled tr \<longrightarrow> is_cancelled tr'" "over_limit now tr' \<longrightarrow> is_cancelled tr'"
    "tu_tries tr' = tu_tries tr + int (n_cancel ?k a)" "of_bool (tu_escalated tr') = of_bool (tu_escalated tr) + n_escalate ?k a"
    "\<And>j. j \<noteq> ?k \<Longrightarrow> n_cancel j a = 0 \<and> n_escalate j a = 0"
    using moves_ok [OF mv ok] by blast+
  have same: "same_turn tr' tr" using mv by (simp add: turn_moves_def)
  then have rep': "reported cfg polls ?k tr'" using rep same_turn_trans unfolding reported_def by blast
  have ok': "turns_ok cfg polls g'" using assms(3) c(1) rep' by (auto simp: turns_ok_def m)
  have t0: "tu_tries tr = tries_of g ?k" "of_bool (tu_escalated tr) = escalated_of g ?k"
    using new(2,3) by (cases "map_of (tg_turns g) ?k"; simp add: tr_def tries_of_def escalated_of_def)+
  have cnt: "tries_of g' k = tries_of g k + int (n_cancel k a) \<and> escalated_of g' k = escalated_of g k + n_escalate k a" for k
    using c(4-6) t0 by (cases "k = ?k") (simp_all add: tries_of_def escalated_of_def m)
  have k: "?k \<in> set (seen_keys ps)" using assms(5) False by (simp add: seen_keys_def)
  have j: "justified cfg ps now g' a"
    using mv c(1) k step_timeouts [OF assms(1)] unfolding turn_moves_def justified_def
    by (elim conjE disjE exE) (auto simp: m retry_spent_def turn_ok_def same_turn_def over_limit_def intro: order_trans)
  have cut: "turn_cut now g k \<longrightarrow> turn_cut now g' k" for k using c(3) by (auto simp: turn_cut_def m)
  have g: "grows g g'" using same step_timeouts [OF assms(1)] by (auto simp: grows_def m tr_def same_turn_def)
  show ?thesis using ok' cnt j cut c(3) g by (auto simp: counted_def m turn_cut_def)
qed

lemma justified_more:
  assumes "justified cfg ps now g a" and "grows g g'"
  shows "justified cfg ps now g' a"
proof -
  have "\<exists>tr'. map_of (tg_turns g') k = Some tr' \<and> tu_limit tr' \<noteq> 0 \<and> (why = Timeout \<longrightarrow> over_limit now tr') \<and>
      (why = RetryBudget \<longrightarrow> 0 < tg_retry_max cfg \<and> tg_retry_max cfg \<le> int (length (tg_timeouts g' (tu_hash tr'))))"
    if "map_of (tg_turns g) k = Some tr \<and> tu_limit tr \<noteq> 0 \<and> (why = Timeout \<longrightarrow> over_limit now tr) \<and>
      (why = RetryBudget \<longrightarrow> 0 < tg_retry_max cfg \<and> tg_retry_max cfg \<le> int (length (tg_timeouts g (tu_hash tr))))" for k tr why
  proof -
    have "map_of (tg_turns g) k = Some tr" using that by blast
    then obtain tr' where "map_of (tg_turns g') k = Some tr'" "same_turn tr' tr" using assms(2) unfolding grows_def by blast
    moreover have "int (length (tg_timeouts g (tu_hash tr))) \<le> int (length (tg_timeouts g' (tu_hash tr)))"
      using assms(2) unfolding grows_def by simp
    ultimately show ?thesis using that by (auto simp: same_turn_def over_limit_def)
  qed
  then show ?thesis using assms(1) unfolding justified_def by blast
qed

lemma pending_loop_facts:
  assumes "pending_loop cfg now qs g = (g', a)" and "now \<noteq> 0" and "turns_ok cfg polls g" and "(ps, now) \<in> polls" and "set qs \<subseteq> set ps"
  shows "counted cfg polls g g' a \<and> justified cfg ps now g' a \<and> (\<forall>k. turn_cut now g k \<longrightarrow> turn_cut now g' k) \<and>
    (\<forall>k \<in> set (seen_keys qs). turn_cut now g' k) \<and>
    grows g g'"
  using assms
proof (induction qs arbitrary: g g' a)
  case Nil
  then show ?case by (simp add: counted_def justified_def n_cancel_def n_escalate_def seen_keys_def same_turn_def grows_def)
next
  case (Cons p qs)
  obtain g1 a1 where s: "pending_step cfg now p g = (g1, a1)" by fastforce
  obtain g2 a2 where l: "pending_loop cfg now qs g1 = (g2, a2)" by fastforce
  have e: "g' = g2" "a = a1 @ a2" using Cons.prems(1) by (simp_all add: s l)
  have st: "counted cfg polls g g1 a1 \<and> justified cfg ps now g1 a1 \<and> (\<forall>k. turn_cut now g k \<longrightarrow> turn_cut now g1 k) \<and>
      (pe_session p \<noteq> [] \<longrightarrow> turn_cut now g1 (pending_key p)) \<and>
      grows g g1"
    using pending_step_facts [OF s Cons.prems(2-4)] Cons.prems(5) by simp
  have ok1: "turns_ok cfg polls g1" using st by (simp add: counted_def)
  have lp: "counted cfg polls g1 g2 a2 \<and> justified cfg ps now g2 a2 \<and> (\<forall>k. turn_cut now g1 k \<longrightarrow> turn_cut now g2 k) \<and>
      (\<forall>k \<in> set (seen_keys qs). turn_cut now g2 k) \<and>
      grows g1 g2"
    using Cons.IH [OF l Cons.prems(2) ok1 Cons.prems(4)] Cons.prems(5) by simp
  have ja: "justified cfg ps now g2 (a1 @ a2)"
    using justified_more [of cfg ps now g1 a1 g2] st lp unfolding justified_def set_append by blast
  have ca: "counted cfg polls g g2 (a1 @ a2)" using st lp by (simp add: counted_def n_append)
  have sk: "set (seen_keys (p # qs)) \<subseteq> (if pe_session p = [] then {} else {pending_key p}) \<union> set (seen_keys qs)"
    by (simp add: seen_keys_def)
  have cut: "\<forall>k \<in> set (seen_keys (p # qs)). turn_cut now g2 k" using sk st lp by (auto split: if_splits)
  have same: "grows g g2" using st lp same_turn_trans unfolding grows_def by (meson order_trans)
  show ?case unfolding e using ca ja cut same st lp by blast
qed

lemma map_of_keep: "map_of (filter (\<lambda>(k, _). P k) d) k = (if P k then map_of d k else None)"
  by (induction d) auto

lemma guard_step_facts:
  assumes "guard_step cfg ps now g = (g', a)" and "now \<noteq> 0" and "turns_ok cfg polls g" and "(ps, now) \<in> polls"
  shows "turns_ok cfg polls g' \<and> justified cfg ps now g' a \<and>
    (\<forall>k \<in> set (seen_keys ps). turn_cut now g' k \<and> tries_of g' k = tries_of g k + int (n_cancel k a) \<and>
       escalated_of g' k = escalated_of g k + n_escalate k a)"
proof -
  let ?f = "fresh_timeouts cfg now g"
  obtain g1 a1 where l: "pending_loop cfg now ps ?f = (g1, a1)" by fastforce
  obtain g2 a2 where e: "turn_ends cfg ps g1 = (g2, a2)" by fastforce
  have r: "g' = g2" "a = a1 @ a2" using assms(1) by (simp_all add: guard_step_def l e)
  have f: "tg_turns ?f = tg_turns g" by (simp add: fresh_timeouts_def)
  have ok: "turns_ok cfg polls ?f" using assms(3) by (simp add: turns_ok_def f)
  note lf = pending_loop_facts [OF l assms(2) ok assms(4) subset_refl]
  have g2: "g2 = g1\<lparr>tg_turns := filter (\<lambda>(k, _). k \<in> set (seen_keys ps)) (tg_turns g1)\<rparr>"
    and a2: "\<forall>x \<in> set a2. \<exists>s. x = Reap s" using e by (auto simp: turn_ends_def Let_def split: if_splits)
  have m: "map_of (tg_turns g2) k = (if k \<in> set (seen_keys ps) then map_of (tg_turns g1) k else None)" for k
    using map_of_keep [of "\<lambda>k. k \<in> set (seen_keys ps)" "tg_turns g1" k] by (simp add: g2)
  have z: "n_cancel k a2 = 0" "n_escalate k a2 = 0" for k using a2 by (force simp: n_cancel_def n_escalate_def filter_empty_conv)+
  have nr: "CancelTurn k why t \<notin> set a2" for k why t using a2 by blast
  have ok2: "turns_ok cfg polls g2" using lf by (auto simp: counted_def turns_ok_def m)
  have j: "justified cfg ps now g2 (a1 @ a2)"
    unfolding justified_def
  proof (intro allI impI)
    fix k why t
    assume "CancelTurn k why t \<in> set (a1 @ a2)"
    then have "CancelTurn k why t \<in> set a1" using nr by auto
    then have "t = now \<and> k \<in> set (seen_keys ps) \<and> (\<exists>tr. map_of (tg_turns g1) k = Some tr \<and> tu_limit tr \<noteq> 0 \<and>
        (why = Timeout \<longrightarrow> over_limit now tr) \<and>
        (why = RetryBudget \<longrightarrow> 0 < tg_retry_max cfg \<and> tg_retry_max cfg \<le> int (length (tg_timeouts g1 (tu_hash tr)))))"
      using lf unfolding justified_def by blast
    then show "t = now \<and> k \<in> set (seen_keys ps) \<and> (\<exists>tr. map_of (tg_turns g2) k = Some tr \<and> tu_limit tr \<noteq> 0 \<and>
        (why = Timeout \<longrightarrow> over_limit now tr) \<and>
        (why = RetryBudget \<longrightarrow> 0 < tg_retry_max cfg \<and> tg_retry_max cfg \<le> int (length (tg_timeouts g2 (tu_hash tr)))))"
      using m by (simp add: g2)
  qed
  have c: "turn_cut now g2 k \<and> tries_of g2 k = tries_of g k + int (n_cancel k (a1 @ a2)) \<and>
      escalated_of g2 k = escalated_of g k + n_escalate k (a1 @ a2)" if "k \<in> set (seen_keys ps)" for k
    using lf that z by (simp add: counted_def turn_cut_def tries_of_def escalated_of_def m f n_append)
  show ?thesis unfolding r using ok2 j c by blast
qed

text \<open>The polls in order, each with what OpenUnum reported and the clock.\<close>

definition poll_step :: "turn_cfg \<Rightarrow> guard \<Rightarrow> pending_turn list \<times> time \<Rightarrow> guard \<times> turn_act list" where
  "poll_step cfg g i = guard_step cfg (fst i) (snd i) g"

lemma run_turns_ok:
  assumes "run_chunks (poll_step cfg) g polls = (g', a)" and "turns_ok cfg P g" and "\<forall>i \<in> set polls. snd i \<noteq> 0" and "set polls \<subseteq> P"
  shows "turns_ok cfg P g'"
  using assms
proof (induction polls arbitrary: g g' a)
  case (Cons i polls)
  obtain g1 a1 where s: "guard_step cfg (fst i) (snd i) g = (g1, a1)" by fastforce
  obtain g2 a2 where r: "run_chunks (poll_step cfg) g1 polls = (g2, a2)" by fastforce
  have ok: "turns_ok cfg P g1" using guard_step_facts [OF s, of P] Cons.prems by simp
  have "poll_step cfg g i = (g1, a1)" by (simp add: poll_step_def s)
  then show ?case using Cons.IH [OF r ok] Cons.prems r by simp
qed simp

lemma turns_ok_new [simp]: "turns_ok cfg P new_guard"
  by (simp add: turns_ok_def new_guard_def)

lemma turns_ok_more: "turns_ok cfg P g \<Longrightarrow> P \<subseteq> Q \<Longrightarrow> turns_ok cfg Q g"
  unfolding turns_ok_def reported_def by blast

lemma reap_only_cancelled:
  assumes "guard_step cfg ps now g = (g', a)" and "Reap s \<in> set a"
  shows "seen_keys ps = [] \<and> (\<exists>k tr. (k, tr) \<in> set (tg_turns g) \<and> is_cancelled tr \<and> tu_started tr = s)"
proof -
  have kn: "Reap s \<notin> set (snd (known_turn cfg now k tr h))" for k tr h
    by (simp add: known_turn_def cancel_turn_def Let_def)
  have ps: "Reap s \<notin> set (snd (pending_step cfg now p h))" for p h
    using kn by (simp add: pending_step_def cancel_turn_def Let_def split: option.split)
  have no: "Reap s \<notin> set (snd (pending_loop cfg now qs h))" for qs h
    using ps by (induction qs arbitrary: h) (auto simp: case_prod_unfold Let_def)
  obtain g1 a1 where l: "pending_loop cfg now ps (fresh_timeouts cfg now g) = (g1, a1)" by fastforce
  obtain g2 a2 where e: "turn_ends cfg ps g1 = (g2, a2)" by fastforce
  have "Reap s \<in> set a2" using assms no [of ps "fresh_timeouts cfg now g"] by (auto simp: guard_step_def l e)
  then have seen: "seen_keys ps = []" and r: "\<exists>k tr. (k, tr) \<in> set (tg_turns g1) \<and> is_cancelled tr \<and> tu_started tr = s"
    using e by (auto simp: turn_ends_def Let_def split: if_splits) blast
  have same: "fst (pending_loop cfg now qs h) = h" if "seen_keys qs = []" for qs h
    using that by (induction qs arbitrary: h) (auto simp: seen_keys_def pending_step_def case_prod_unfold Let_def split: if_splits)
  have "g1 = fresh_timeouts cfg now g" using same [OF seen, of "fresh_timeouts cfg now g"] l by simp
  then show ?thesis using seen r by (simp add: fresh_timeouts_def)
qed


lemma run_counts:
  assumes "run_chunks (poll_step cfg) g polls = (g', a)" and "turns_ok cfg UNIV g"
    and "\<forall>i \<in> set polls. snd i \<noteq> 0 \<and> k \<in> set (seen_keys (fst i))"
  shows "turns_ok cfg UNIV g' \<and> tries_of g' k = tries_of g k + int (n_cancel k a) \<and> escalated_of g' k = escalated_of g k + n_escalate k a"
  using assms
proof (induction polls arbitrary: g g' a)
  case Nil
  then show ?case by (simp add: n_cancel_def n_escalate_def)
next
  case (Cons i polls)
  obtain g1 a1 where s: "guard_step cfg (fst i) (snd i) g = (g1, a1)" by fastforce
  obtain g2 a2 where r: "run_chunks (poll_step cfg) g1 polls = (g2, a2)" by fastforce
  have st: "turns_ok cfg UNIV g1" "tries_of g1 k = tries_of g k + int (n_cancel k a1)" "escalated_of g1 k = escalated_of g k + n_escalate k a1"
    using guard_step_facts [OF s, of UNIV] Cons.prems by simp_all
  have "poll_step cfg g i = (g1, a1)" by (simp add: poll_step_def s)
  then show ?case using Cons.IH [OF r st(1)] st Cons.prems r by (auto simp: n_append)
qed

text \<open>
  A turn is not hammered: from its first report on, as long as it stays pending, it is cancelled at most
  \<open>max_cancel_tries\<close> times (once if that is less) and the local model is told to drop its requests at most once, and
  only after all the cancels.
\<close>

theorem cancels_bounded:
  assumes "run_chunks (poll_step cfg) new_guard polls0 = (g, before)" and "map_of (tg_turns g) k = None"
    and "run_chunks (poll_step cfg) g polls = (g', a)" and "\<forall>i \<in> set polls0. snd i \<noteq> 0"
    and "\<forall>i \<in> set polls. snd i \<noteq> 0 \<and> k \<in> set (seen_keys (fst i))"
  shows "int (n_cancel k a) \<le> max 1 (tg_tries cfg) \<and> n_escalate k a \<le> 1 \<and>
    (n_escalate k a = 1 \<longrightarrow> tg_tries cfg \<le> int (n_cancel k a))"
proof -
  have "turns_ok cfg UNIV g" using run_turns_ok [OF assms(1), of UNIV] assms(4) by simp
  then have r: "turns_ok cfg UNIV g' \<and> tries_of g' k = tries_of g k + int (n_cancel k a) \<and> escalated_of g' k = escalated_of g k + n_escalate k a"
    by (rule run_counts [OF assms(3) _ assms(5)])
  have z: "tries_of g k = 0" "escalated_of g k = 0" using assms(2) by (simp_all add: tries_of_def escalated_of_def)
  show ?thesis
  proof (cases "map_of (tg_turns g') k")
    case None
    then show ?thesis using r z by (simp add: tries_of_def escalated_of_def)
  next
    case (Some tr)
    then have "turn_ok cfg tr" using r by (simp add: turns_ok_def)
    then show ?thesis using r z Some
      by (cases "tu_escalated tr"; cases "map_of (tg_turns g) k") (auto simp: tries_of_def escalated_of_def turn_ok_def)
  qed
qed

section \<open>Concrete polls\<close>

abbreviation VOICE_CFG :: turn_cfg where
  "VOICE_CFG \<equiv> TURN_CONFIG (\<lambda>s m. s @ m)"

definition voice_turn :: pending_turn where
  "voice_turn = \<lparr>pe_session = lit ''voice'', pe_turn = lit ''1'', pe_started = Some 1, pe_age = 0, pe_preview = lit ''hello''\<rparr>"

lemma voice_limit: "snd (classify (lit ''voice'') VOICE_CFG) = 300"
  by (simp add: classify_def TURN_CONFIG_def voice_match_def)


lemma cancels_bounded_witness:
  "n_cancel (pending_key voice_turn) (snd (run_chunks (poll_step VOICE_CFG) new_guard
     [([voice_turn], 100), ([voice_turn], 301), ([voice_turn], 322)])) \<le> 3"
proof -
  let ?polls = "[([voice_turn], 100), ([voice_turn], 301), ([voice_turn], 322)] :: (pending_turn list \<times> time) list"
  have s: "\<forall>i \<in> set ?polls. snd i \<noteq> 0 \<and> pending_key voice_turn \<in> set (seen_keys (fst i))"
    by (simp add: seen_keys_def voice_turn_def lit_def)
  have n: "map_of (tg_turns new_guard) (pending_key voice_turn) = None" by (simp add: new_guard_def)
  have e: "run_chunks (poll_step VOICE_CFG) new_guard [] = (new_guard, [])" by simp
  show ?thesis using cancels_bounded [OF e n prod.collapse [symmetric] _ s] by (simp add: TURN_CONFIG_def)
qed

section \<open>The processes a turn leaves behind\<close>

type_synonym turn_procs = "(int \<times> int \<times> time \<times> pystr) list"

text \<open>
  \<open>tool_children\<close>: a stack of processes still to visit, whose top is the head here. The loop is a partial function;
  that it ends on every table, also one with a cycle of parents, is part of the theorem below.
\<close>

definition children_of :: "turn_procs \<Rightarrow> int \<Rightarrow> int list" where
  "children_of table p = map fst (filter (\<lambda>(_, pp, _). pp = p) table)"

partial_function (option) visit_children :: "turn_procs \<Rightarrow> int list \<Rightarrow> int list \<Rightarrow> int list option" where
  "visit_children table stack order =
     (case stack of
        [] \<Rightarrow> Some order
      | p # st \<Rightarrow>
          visit_children table (rev (filter (\<lambda>c. c \<notin> set (order @ [p])) (children_of table p)) @ st) (order @ [p]))"

declare visit_children.simps [code]

definition tool_roots :: "turn_procs \<Rightarrow> time \<Rightarrow> pystr \<Rightarrow> int list" where
  "tool_roots table since needle =
     (let servers = map fst (filter (\<lambda>(_, _, _, cmd). in_str needle cmd) table) in
      map fst (filter (\<lambda>(_, pp, st, _). pp \<in> set servers \<and> since - 1 \<le> st) table))"

definition tool_children :: "turn_procs \<Rightarrow> time \<Rightarrow> pystr \<Rightarrow> int list option" where
  "tool_children table since needle = map_option rev (visit_children table (rev (tool_roots table since needle)) [])"

definition child_of :: "turn_procs \<Rightarrow> int \<Rightarrow> int \<Rightarrow> bool" where
  "child_of table p c \<longleftrightarrow> c \<in> set (children_of table p)"

lemma visit_children_ends:
  fixes table :: turn_procs and stack order :: "int list"
  assumes "\<forall>p c. p \<in> set order \<and> child_of table p c \<longrightarrow> c \<in> set order \<union> set stack"
  shows "\<exists>out. visit_children table stack order = Some out \<and> set order \<union> set stack \<subseteq> set out \<and>
    set out \<subseteq> {q. \<exists>r \<in> set order \<union> set stack. (child_of table)\<^sup>*\<^sup>* r q} \<and>
    (\<forall>p c. p \<in> set out \<and> child_of table p c \<longrightarrow> c \<in> set out)"
  using assms
proof (induction "(stack, order)" arbitrary: stack order
    rule: wf_induct_rule [OF wf_measures [of "[\<lambda>(st, ord). card (fst ` set table - set ord), \<lambda>(st, ord). length (filter (\<lambda>p. p \<notin> fst ` set table - set ord) st)]"]])
  case 1
  show ?case
  proof (cases stack)
    case Nil
    then show ?thesis using 1(2) by (subst visit_children.simps) auto
  next
    case (Cons p st)
    let ?cs = "rev (filter (\<lambda>c. c \<notin> set (order @ [p])) (children_of table p))"
    let ?U = "fst ` set table - set order" and ?V = "fst ` set table - set (order @ [p])"
    have eq: "visit_children table stack order = visit_children table (?cs @ st) (order @ [p])"
      by (subst visit_children.simps) (simp add: Cons)
    have cs: "set ?cs = {c. child_of table p c \<and> c \<notin> set (order @ [p])}" by (auto simp: child_of_def)
    have less: "((?cs @ st, order @ [p]), (stack, order)) \<in>
        measures [\<lambda>(st, ord). card (fst ` set table - set ord), \<lambda>(st, ord). length (filter (\<lambda>p. p \<notin> fst ` set table - set ord) st)]"
    proof (cases "p \<in> ?U")
      case True
      then have "?V \<subset> ?U" by auto
      then have "card ?V < card ?U" by (intro psubset_card_mono) auto
      then show ?thesis by simp
    next
      case False
      then have vu: "?V = ?U" by auto
      have "filter (\<lambda>c. c \<notin> ?U) ?cs = []" by (auto simp: filter_empty_conv children_of_def)
      then have new: "filter (\<lambda>c. c \<notin> ?U) (?cs @ st) = filter (\<lambda>c. c \<notin> ?U) st" by (simp only: filter_append append_Nil)
      have "filter (\<lambda>c. c \<notin> ?U) stack = p # filter (\<lambda>c. c \<notin> ?U) st" using False by (simp add: Cons)
      then have "length (filter (\<lambda>c. c \<notin> ?V) (?cs @ st)) < length (filter (\<lambda>c. c \<notin> ?U) stack)"
        unfolding vu new by (simp only: list.size less_add_Suc1 add_0_right lessI One_nat_def add_Suc_right)
      then show ?thesis unfolding in_measures prod.case vu by blast
    qed
    have inv: "\<forall>q c. q \<in> set (order @ [p]) \<and> child_of table q c \<longrightarrow> c \<in> set (order @ [p]) \<union> set (?cs @ st)"
      using 1(2) cs by (auto simp: Cons)
    obtain out where o: "visit_children table (?cs @ st) (order @ [p]) = Some out"
        "set (order @ [p]) \<union> set (?cs @ st) \<subseteq> set out"
        "set out \<subseteq> {q. \<exists>r \<in> set (order @ [p]) \<union> set (?cs @ st). (child_of table)\<^sup>*\<^sup>* r q}"
        "\<forall>p c. p \<in> set out \<and> child_of table p c \<longrightarrow> c \<in> set out"
      using 1(1) [OF less inv] by blast
    have "q \<in> {q. \<exists>r \<in> set order \<union> set stack. (child_of table)\<^sup>*\<^sup>* r q}" if "q \<in> set out" for q
    proof -
      obtain r where r: "r \<in> set (order @ [p]) \<union> set (?cs @ st)" "(child_of table)\<^sup>*\<^sup>* r q" using o(3) \<open>q \<in> set out\<close> by blast
      show ?thesis
      proof (cases "r \<in> set ?cs")
        case True
        then have "(child_of table)\<^sup>*\<^sup>* p q" using cs r(2) converse_rtranclp_into_rtranclp [of "child_of table" p r q] by auto
        then show ?thesis by (auto simp: Cons)
      next
        case False
        then show ?thesis using r by (auto simp: Cons)
      qed
    qed
    then show ?thesis using eq o(1,2,4) by (auto simp: Cons)
  qed
qed

text \<open>
  Looking for a turn's left-over processes always ends, and finds exactly the processes started under the server
  since then and everything below them.
\<close>

theorem tool_children_exact:
  "\<exists>out. tool_children table since needle = Some out \<and>
     set out = {q. \<exists>r \<in> set (tool_roots table since needle). (child_of table)\<^sup>*\<^sup>* r q}"
proof -
  let ?r = "tool_roots table since needle"
  obtain out where o: "visit_children table (rev ?r) [] = Some out" "set ?r \<subseteq> set out"
      "set out \<subseteq> {q. \<exists>r \<in> set ?r. (child_of table)\<^sup>*\<^sup>* r q}" "\<forall>p c. p \<in> set out \<and> child_of table p c \<longrightarrow> c \<in> set out"
    using visit_children_ends [of "[]" table "rev ?r"] by auto
  have "q \<in> set out" if "(child_of table)\<^sup>*\<^sup>* r q" "r \<in> set out" for r q
    using that by (induction rule: rtranclp_induct) (use o(4) in auto)
  then have "set out = {q. \<exists>r \<in> set ?r. (child_of table)\<^sup>*\<^sup>* r q}" using o(2,3) by blast
  then show ?thesis using o(1) by (simp add: tool_children_def)
qed

text \<open>
  The comment says descendants come first. When a matching process is itself the child of another one (a shell whose
  command line names the server), its children are roots as well, and it is stopped before them.
\<close>

lemma nested_server_parent_first:
  "tool_children [(10, 1, 0, lit ''node''), (11, 10, 5, lit ''node''), (12, 11, 6, lit ''x'')] 0 (lit ''node'') = Some [11, 12]"
  by code_simp

end
