(* ===== verification/Sip_Audio.thy ===== *)
theory Sip_Audio
  imports S22_Prelude
begin

text \<open>
  The audio codecs of \<^verbatim>\<open>voip/s22-sip.py\<close>: G.711 in both laws. A sample is an integer, as it is in Python; a code is
  an integer from 0 to 255. The shifts and masks are written as the code has them.
\<close>

section \<open>Mu-law\<close>

definition clip16 :: "int \<Rightarrow> int" where
  "clip16 s = max (- 32768) (min 32767 s)"

fun bit_length :: "nat \<Rightarrow> nat" where
  "bit_length n = (if n = 0 then 0 else Suc (bit_length (n div 2)))"

declare bit_length.simps [simp del]

definition ulaw_encode_sample :: "int \<Rightarrow> int" where
  "ulaw_encode_sample s0 =
     (let s1 = clip16 s0;
          (s2, sign) = (if s1 < 0 then (- s1, 0x80) else (s1, 0));
          s = min s2 32635 + 0x84;
          e = bit_length (nat (drop_bit 7 s)) - 1;
          mant = drop_bit (e + 3) s AND 0x0F
      in (NOT (sign OR push_bit 4 (int e) OR mant)) AND 0xFF)"

definition ulaw_decode_sample :: "int \<Rightarrow> int" where
  "ulaw_decode_sample u0 =
     (let u = NOT u0 AND 0xFF;
          e = drop_bit 4 u AND 7;
          mant = u AND 0x0F;
          s = push_bit (nat e) (push_bit 3 mant + 0x84) - 0x84
      in if u AND 0x80 \<noteq> 0 then - s else s)"

section \<open>A-law\<close>

definition A_SEG_END :: "int list" where
  "A_SEG_END = [0x1F, 0x3F, 0x7F, 0xFF, 0x1FF, 0x3FF, 0x7FF, 0xFFF]"

fun first_seg :: "int \<Rightarrow> int list \<Rightarrow> nat \<Rightarrow> nat" where
  "first_seg pcm [] i = 8"
| "first_seg pcm (end # es) i = (if pcm \<le> end then i else first_seg pcm es (Suc i))"

definition alaw_encode_sample :: "int \<Rightarrow> int" where
  "alaw_encode_sample s =
     (let pcm0 = drop_bit 3 (clip16 s);
          (mask, pcm) = (if 0 \<le> pcm0 then (0xD5, pcm0) else (0x55, - pcm0 - 1));
          seg = first_seg pcm A_SEG_END 0
      in if 8 \<le> seg then 0x7F XOR mask
         else (push_bit 4 (int seg) OR (if seg < 2 then drop_bit 1 pcm AND 0x0F else drop_bit seg pcm AND 0x0F)) XOR mask)"

definition alaw_decode_sample :: "int \<Rightarrow> int" where
  "alaw_decode_sample a0 =
     (let a = a0 XOR 0x55;
          t = push_bit 4 (a AND 0x0F);
          seg = drop_bit 4 (a AND 0x70);
          t1 = (if seg = 0 then t + 8 else if seg = 1 then t + 0x108 else push_bit (nat seg - 1) (t + 0x108))
      in if a AND 0x80 \<noteq> 0 then t1 else - t1)"

section \<open>The bit operations as arithmetic\<close>

lemma or_as_sum:
  assumes "0 \<le> b" and "b < 2 ^ n"
  shows "push_bit n a OR b = a * 2 ^ n + (b::int)"
proof -
  have "take_bit n b = b" using assms by (simp add: take_bit_int_eq_self)
  then show ?thesis using concat_bit_eq [of n b a] by (simp add: concat_bit_def or.commute push_bit_eq_mult)
qed

lemma mask_as_mod: "(a::int) AND 15 = a mod 16" "a AND 7 = a mod 8" "a AND 255 = a mod 256"
  using take_bit_eq_mask [of 4 a] take_bit_eq_mask [of 3 a] take_bit_eq_mask [of 8 a]
  by (simp_all add: take_bit_eq_mod mask_eq_exp_minus_1)

lemma not_as_minus:
  assumes "0 \<le> y" and "y < 256"
  shows "NOT (y::int) AND 255 = 255 - y"
proof -
  have "(- y - 1) mod 256 = 255 - y" using assms mod_add_self2 [of "- y - 1" 256] by simp
  then show ?thesis by (simp add: mask_as_mod not_int_def)
qed

lemma bit_length_eq: "2 ^ k \<le> n \<Longrightarrow> n < 2 ^ Suc k \<Longrightarrow> bit_length n = Suc k"
proof (induction k arbitrary: n)
  case 0
  then have "n = 1" by simp
  then show ?case by (simp add: bit_length.simps)
next
  case (Suc k)
  have "bit_length (n div 2) = Suc k" by (rule Suc.IH) (use Suc.prems in auto)
  moreover have "n \<noteq> 0" using Suc.prems by auto
  ultimately show ?case by (simp add: bit_length.simps [of n])
qed

text \<open>Every magnitude from 132 to 32767 lies in one of eight octaves.\<close>

lemma octave:
  assumes "132 \<le> (x::int)" and "x \<le> 32767"
  obtains e where "e \<le> 7" and "2 ^ (e + 7) \<le> x" and "x < 2 ^ (e + 8)"
proof -
  have "x < 256 \<or> 256 \<le> x \<and> x < 512 \<or> 512 \<le> x \<and> x < 1024 \<or> 1024 \<le> x \<and> x < 2048 \<or> 2048 \<le> x \<and> x < 4096 \<or>
      4096 \<le> x \<and> x < 8192 \<or> 8192 \<le> x \<and> x < 16384 \<or> 16384 \<le> x" by linarith
  then show ?thesis
    by (elim disjE) (use that [of 0] that [of 1] that [of 2] that [of 3] that [of 4] that [of 5] that [of 6] that [of 7] assms in auto)
qed

lemma octave_length:
  assumes "2 ^ (e + 7) \<le> (x::int)" and "x < 2 ^ (e + 8)"
  shows "bit_length (nat (drop_bit 7 x)) - 1 = e"
proof -
  have "2 ^ e \<le> x div 128" using assms(1) zdiv_mono1 [of "2 ^ (e + 7)" x 128] by (simp add: power_add)
  moreover have "x div 128 < 2 ^ Suc e" using assms(2) by (simp add: power_add div_less_iff_less_mult)
  ultimately have "2 ^ e \<le> nat (x div 128)" "nat (x div 128) < 2 ^ Suc e"
    by (simp_all add: nat_le_iff le_nat_iff nat_less_iff)
  then show ?thesis using bit_length_eq by (simp add: drop_bit_eq_div)
qed

lemma mod_16:
  assumes "16 \<le> (q::int)" and "q < 32"
  shows "q mod 16 = q - 16"
  using assms minus_mod_self2 [of q 16] mod_pos_pos_trivial [of "q - 16" 16] by linarith

lemma div_mod_16: "0 \<le> m \<Longrightarrow> m < 16 \<Longrightarrow> (16 * a + m) div 16 = a \<and> (16 * a + m) mod 16 = (m::int)"
  by simp

lemma cell:
  assumes "2 ^ (e + 7) \<le> (x::int)" and "x < 2 ^ (e + 8)"
  shows "16 \<le> x div 2 ^ (e + 3)" "x div 2 ^ (e + 3) < 32" "x div 2 ^ (e + 3) mod 16 = x div 2 ^ (e + 3) - 16"
proof -
  have p: "(0::int) < 2 ^ (e + 3)" by simp
  have "16 * 2 ^ (e + 3) \<le> x" "x < 32 * 2 ^ (e + 3)" using assms by (simp_all add: power_add)
  then show a: "16 \<le> x div 2 ^ (e + 3)" using p zdiv_mono1 [of "16 * 2 ^ (e + 3)" x "2 ^ (e + 3)"] by simp
  show b: "x div 2 ^ (e + 3) < 32"
  proof (rule ccontr)
    assume "\<not> x div 2 ^ (e + 3) < 32"
    then have "32 * 2 ^ (e + 3) \<le> x div 2 ^ (e + 3) * 2 ^ (e + 3)" by (intro mult_right_mono) simp_all
    then show False using \<open>x < 32 * 2 ^ (e + 3)\<close> div_mult_mod_eq [of x "2 ^ (e + 3)"] pos_mod_sign [OF p, of x] by linarith
  qed
  show "x div 2 ^ (e + 3) mod 16 = x div 2 ^ (e + 3) - 16" by (rule mod_16 [OF a b])
qed

section \<open>Both laws as arithmetic\<close>

lemma ulaw_encode_eq:
  assumes "s1 = clip16 s" and "x = min \<bar>s1\<bar> 32635 + 132" and "2 ^ (e + 7) \<le> x" and "x < 2 ^ (e + 8)" and "e \<le> 7"
  shows "ulaw_encode_sample s = 255 - ((if s1 < 0 then 128 else 0) + 16 * int e + (x div 2 ^ (e + 3) - 16))"
proof -
  let ?m = "x div 2 ^ (e + 3) - 16" and ?sg = "if s1 < 0 then 128 else (0::int)"
  have m: "0 \<le> ?m" "?m < 16" using cell [OF assms(3,4)] by simp_all
  have mant: "drop_bit (e + 3) x AND 15 = ?m" using cell(3) [OF assms(3,4)] by (simp add: mask_as_mod drop_bit_eq_div)
  have x: "(if s1 < 0 then min (- s1) 32635 else min s1 32635) + 132 = x" using assms(2) by auto
  have lo: "push_bit 4 (int e) OR ?m = 16 * int e + ?m" using or_as_sum [of ?m 4 "int e"] m by simp
  have b: "0 \<le> 16 * int e + ?m" "16 * int e + ?m < 128" using m assms(5) by simp_all
  have hi: "?sg OR (16 * int e + ?m) = ?sg + (16 * int e + ?m)"
    using or_as_sum [of "16 * int e + ?m" 7 1] b by simp
  have "ulaw_encode_sample s = NOT (?sg OR push_bit 4 (int e) OR ?m) AND 255"
  proof (cases "s1 < 0")
    case True
    then have "min (- s1) 32635 + 132 = x" using x by simp
    then show ?thesis using True unfolding ulaw_encode_sample_def assms(1) [symmetric] Let_def
      by (simp only: if_True prod.case octave_length [OF assms(3,4)] mant)
  next
    case False
    then have "min s1 32635 + 132 = x" using x by simp
    then show ?thesis using False unfolding ulaw_encode_sample_def assms(1) [symmetric] Let_def
      by (simp only: if_False prod.case octave_length [OF assms(3,4)] mant)
  qed
  also have "?sg OR push_bit 4 (int e) OR ?m = ?sg + (16 * int e + ?m)" using lo hi by (simp only: or.assoc)
  also have "NOT \<dots> AND 255 = 255 - \<dots>" by (rule not_as_minus) (use b in auto)
  finally show ?thesis by simp
qed

lemma ulaw_decode_eq:
  assumes "0 \<le> m" and "m < 16" and "e \<le> 7"
  shows "ulaw_decode_sample (255 - ((if neg then 128 else 0) + 16 * int e + m)) =
    (if neg then - 1 else 1) * ((m * 8 + 132) * 2 ^ e - 132)"
proof -
  let ?v = "(if neg then 128 else 0) + 16 * int e + m"
  have v: "0 \<le> ?v" "?v < 256" using assms by auto
  have nv: "NOT (255 - ?v) AND 255 = ?v" using not_as_minus [of "255 - ?v"] v by simp
  have d: "?v div 16 mod 8 = int e" "?v mod 16 = m"
  proof -
    have v: "?v = 16 * ((if neg then 8 else 0) + int e) + m" by simp
    have "?v div 16 = (if neg then 8 else 0) + int e" "?v mod 16 = m"
      unfolding v using div_mod_16 [OF assms(1,2)] by blast+
    moreover have "((if neg then 8 else 0) + int e) mod 8 = int e" using assms(3) by (cases neg) simp_all
    ultimately show "?v div 16 mod 8 = int e" "?v mod 16 = m" by simp_all
  qed
  have sg: "(?v AND 128 \<noteq> 0) = neg"
  proof -
    have "(?v AND 128 \<noteq> 0) = bit ?v 7" using bit_iff_and_push_bit_not_eq_0 [of ?v 7] by simp
    also have "\<dots> = odd (?v div 128)" by (simp add: bit_iff_odd)
    also have "?v div 128 = (if neg then 1 else 0)" using assms by auto
    finally show ?thesis by simp
  qed
  have parts: "drop_bit 4 ?v AND 7 = int e" "?v AND 15 = m" unfolding mask_as_mod drop_bit_eq_div using d by simp_all
  show ?thesis unfolding ulaw_decode_sample_def nv Let_def parts sg by (simp add: push_bit_eq_mult)
qed

text \<open>
  Mu-law is accurate to half a step of its octave: decoding the code of a sample gives the sample back up to
  one part in 32 of its magnitude plus 132, for every sample the law can carry.
\<close>

theorem ulaw_error:
  assumes "\<bar>s\<bar> \<le> 32635"
  shows "32 * \<bar>ulaw_decode_sample (ulaw_encode_sample s) - s\<bar> \<le> \<bar>s\<bar> + 132"
proof -
  define x where "x = \<bar>s\<bar> + 132"
  have c: "clip16 s = s" using assms by (simp add: clip16_def)
  obtain e where e: "e \<le> 7" "2 ^ (e + 7) \<le> x" "x < 2 ^ (e + 8)" using octave [of x] assms by (auto simp: x_def)
  let ?q = "x div 2 ^ (e + 3)"
  have q: "16 \<le> ?q" "?q < 32" using cell [OF e(2,3)] by simp_all
  have "ulaw_encode_sample s = 255 - ((if s < 0 then 128 else 0) + 16 * int e + (?q - 16))"
    using ulaw_encode_eq [of s s x e] c e assms by (simp add: x_def)
  then have d: "ulaw_decode_sample (ulaw_encode_sample s) = (if s < 0 then - 1 else 1) * (((?q - 16) * 8 + 132) * 2 ^ e - 132)"
    using ulaw_decode_eq [of "?q - 16" e "s < 0"] q e(1) by simp
  have "((?q - 16) * 8 + 132) * 2 ^ e - 132 - \<bar>s\<bar> = (?q * 8 + 4) * 2 ^ e - x" by (simp add: x_def algebra_simps)
  moreover obtain r where "x = ?q * (8 * 2 ^ e) + r" "0 \<le> r" "r < 8 * 2 ^ e"
    using div_mult_mod_eq [of x "2 ^ (e + 3)"] pos_mod_bound [of "2 ^ (e + 3)" x] pos_mod_sign [of "2 ^ (e + 3)" x]
    by (auto simp: power_add mult.commute intro: that [of "x mod 2 ^ (e + 3)"])
  ultimately have "\<bar>((?q - 16) * 8 + 132) * 2 ^ e - 132 - \<bar>s\<bar>\<bar> \<le> 4 * 2 ^ e" by (simp add: algebra_simps abs_le_iff)
  moreover have "32 * (4 * 2 ^ e) \<le> x" using e(2) by (simp add: power_add)
  moreover have "\<bar>ulaw_decode_sample (ulaw_encode_sample s) - s\<bar> = \<bar>((?q - 16) * 8 + 132) * 2 ^ e - 132 - \<bar>s\<bar>\<bar>"
    unfolding d by (cases "s < 0") simp_all
  ultimately show ?thesis by (simp add: x_def)
qed

text \<open>Every code of the mu-law is stable: decoded and encoded again it is itself, but for the second zero.\<close>

lemma code_parts:
  assumes "0 \<le> c" and "c \<le> (255::int)"
  obtains neg e m where "c = 255 - ((if neg then 128 else 0) + 16 * int e + m)" and "0 \<le> m" and "m < 16" and "e \<le> 7"
proof -
  define v where "v = 255 - c"
  have v: "0 \<le> v" "v < 256" using assms by (simp_all add: v_def)
  let ?w = "if 128 \<le> v then v - 128 else v"
  have w: "0 \<le> ?w" "?w < 128" using v by auto
  have "?w = 16 * (?w div 16) + ?w mod 16" by (simp only: mult_div_mod_eq)
  moreover have "0 \<le> ?w div 16" "?w div 16 < 8" using w by auto
  then have "int (nat (?w div 16)) = ?w div 16" "nat (?w div 16) \<le> 7" by linarith+
  moreover have "c = 255 - ((if 128 \<le> v then 128 else 0) + ?w)" by (simp add: v_def)
  moreover have "0 \<le> ?w mod 16" "?w mod 16 < 16" by simp_all
  ultimately show ?thesis using that [of "128 \<le> v" "nat (?w div 16)" "?w mod 16"] by linarith
qed

theorem ulaw_code_stable:
  assumes "0 \<le> c" and "c \<le> 255"
  shows "ulaw_encode_sample (ulaw_decode_sample c) = (if c = 127 then 255 else c)"
proof -
  obtain neg e m where c: "c = 255 - ((if neg then 128 else 0) + 16 * int e + m)" and b: "0 \<le> m" "m < 16" "e \<le> 7"
    using code_parts assms by metis
  let ?x = "(m * 8 + 132) * 2 ^ e"
  let ?s = "(if neg then - 1 else 1) * (?x - 132)"
  have P: "(1::int) \<le> 2 ^ e" "(2::int) ^ e \<le> 2 ^ 7" using b(3) power_increasing [of e 7 "2::int"] by simp_all
  have lo: "132 \<le> ?x" using mult_mono [of 132 "m * 8 + 132" 1 "2 ^ e"] b P by simp
  have hi: "?x \<le> 32256" using mult_mono [of "m * 8 + 132" 252 "2 ^ e" "2 ^ 7"] b P by simp
  have dec: "ulaw_decode_sample c = ?s" unfolding c by (rule ulaw_decode_eq [OF b])
  have clip: "clip16 ?s = ?s" using lo hi by (cases neg) (simp_all add: clip16_def)
  have x: "?x = min \<bar>?s\<bar> 32635 + 132" using lo hi by (cases neg) simp_all
  have oct: "2 ^ (e + 7) \<le> ?x" "?x < 2 ^ (e + 8)"
    using mult_right_mono [of 128 "m * 8 + 132" "2 ^ e"] mult_strict_right_mono [of "m * 8 + 132" 256 "2 ^ e"] b(1,2)
    by (simp_all add: power_add mult.commute)
  have q: "?x div 2 ^ (e + 3) = m + 16"
  proof (rule int_div_pos_eq [where r = "4 * 2 ^ e"])
    show "?x = 2 ^ (e + 3) * (m + 16) + 4 * 2 ^ e" by (simp add: power_add algebra_simps)
    show "4 * 2 ^ e < (2::int) ^ (e + 3)" by (simp add: power_add)
  qed simp
  have "ulaw_encode_sample ?s = 255 - ((if ?s < 0 then 128 else 0) + 16 * int e + (?x div 2 ^ (e + 3) - 16))"
    by (rule ulaw_encode_eq [OF clip [symmetric] x oct b(3)])
  then have enc: "ulaw_encode_sample ?s = 255 - ((if ?s < 0 then 128 else 0) + 16 * int e + m)" unfolding q by simp
  show ?thesis
  proof (cases "?x = 132")
    case True
    have "e = 0"
    proof (rule ccontr)
      assume "e \<noteq> 0"
      then have "(2::int) ^ 1 \<le> 2 ^ e" by (intro power_increasing) simp_all
      then show False using mult_mono [of 132 "m * 8 + 132" 2 "2 ^ e"] b(1) True by simp
    qed
    then have "e = 0 \<and> m = 0" using True by simp
    then show ?thesis using enc c True dec by auto
  next
    case False
    then have "(?s < 0) = neg" using lo by (cases neg) auto
    moreover have "c \<noteq> 127"
    proof
      assume "c = 127"
      then have "(if neg then 128 else 0) + 16 * int e + m = 128" using c by linarith
      then have "neg \<and> int e = 0 \<and> m = 0" using b by (cases neg) simp_all
      then show False using False by simp
    qed
    ultimately show ?thesis using enc c dec by simp
  qed
qed

section \<open>A-law in arithmetic\<close>

lemma first_seg_eq:
  assumes "0 \<le> p" and "p < 32 * 2 ^ k" and "k = 0 \<or> 16 * 2 ^ k \<le> (p::int)" and "k \<le> 7"
  shows "first_seg p A_SEG_END 0 = k"
proof -
  have "k = 0 \<or> k = 1 \<or> k = 2 \<or> k = 3 \<or> k = 4 \<or> k = 5 \<or> k = 6 \<or> k = 7" using assms(4) by linarith
  then show ?thesis using assms(1-3) by (elim disjE) (simp_all add: A_SEG_END_def)
qed

lemma alaw_octave:
  assumes "0 \<le> (p::int)" and "p < 4096"
  obtains k where "k \<le> 7" and "p < 32 * 2 ^ k" and "k = 0 \<or> 16 * 2 ^ k \<le> p"
proof -
  have "p < 32 \<or> 32 \<le> p \<and> p < 64 \<or> 64 \<le> p \<and> p < 128 \<or> 128 \<le> p \<and> p < 256 \<or> 256 \<le> p \<and> p < 512 \<or>
      512 \<le> p \<and> p < 1024 \<or> 1024 \<le> p \<and> p < 2048 \<or> 2048 \<le> p" by linarith
  then show ?thesis
    by (elim disjE) (use that [of 0] that [of 1] that [of 2] that [of 3] that [of 4] that [of 5] that [of 6] that [of 7] assms in auto)
qed

text \<open>The code before the mask: segment and the four bits of the step in it.\<close>

definition alaw_cell :: "nat \<Rightarrow> int \<Rightarrow> int" where
  "alaw_cell k p = (if k < 2 then p div 2 mod 16 else p div 2 ^ k mod 16)"

lemma alaw_encode_eq:
  assumes "p0 = clip16 s div 8" and "p = (if 0 \<le> p0 then p0 else - p0 - 1)"
    and "p < 32 * 2 ^ k" and "k = 0 \<or> 16 * 2 ^ k \<le> p" and "k \<le> 7"
  shows "alaw_encode_sample s = (16 * int k + alaw_cell k p) XOR (if 0 \<le> p0 then 0xD5 else 0x55)"
proof -
  have p: "0 \<le> p" using assms(2) by auto
  have seg: "first_seg p A_SEG_END 0 = k" by (rule first_seg_eq [OF p assms(3-5)])
  have c: "0 \<le> alaw_cell k p" "alaw_cell k p < 16" by (simp_all add: alaw_cell_def)
  have m: "(if k < 2 then drop_bit 1 p AND 15 else drop_bit k p AND 15) = alaw_cell k p"
    by (simp add: alaw_cell_def mask_as_mod drop_bit_eq_div)
  have o: "push_bit 4 (int k) OR alaw_cell k p = 16 * int k + alaw_cell k p"
    using or_as_sum [of "alaw_cell k p" 4 "int k"] c by simp
  have k8: "\<not> 8 \<le> k" using assms(5) by simp
  show ?thesis
  proof (cases "0 \<le> p0")
    case True
    then have "drop_bit 3 (clip16 s) = p" using assms(1,2) by (simp add: drop_bit_eq_div)
    then have "alaw_encode_sample s =
        (if 8 \<le> first_seg p A_SEG_END 0 then 0x7F XOR 0xD5
         else (push_bit 4 (int (first_seg p A_SEG_END 0)) OR
           (if first_seg p A_SEG_END 0 < 2 then drop_bit 1 p AND 15 else drop_bit (first_seg p A_SEG_END 0) p AND 15)) XOR 0xD5)"
      using p by (simp only: alaw_encode_sample_def Let_def if_True prod.case)
    then show ?thesis using True k8 unfolding seg m o by simp
  next
    case False
    then have d: "drop_bit 3 (clip16 s) = - p - 1" using assms(1,2) by (simp add: drop_bit_eq_div)
    have n: "\<not> 0 \<le> - p - 1" "- (- p - 1) - 1 = p" using p by simp_all
    have "alaw_encode_sample s =
        (if 8 \<le> first_seg p A_SEG_END 0 then 0x7F XOR 0x55
         else (push_bit 4 (int (first_seg p A_SEG_END 0)) OR
           (if first_seg p A_SEG_END 0 < 2 then drop_bit 1 p AND 15 else drop_bit (first_seg p A_SEG_END 0) p AND 15)) XOR 0x55)"
      using n by (simp only: alaw_encode_sample_def Let_def d if_False prod.case)
    then show ?thesis using False k8 unfolding seg m o by simp
  qed
qed

lemma xor_85:
  assumes "0 \<le> v" and "v < 128"
  shows "(v XOR 0xD5) XOR 0x55 = v + 128" "(v XOR 0x55) XOR 0x55 = (v::int)"
proof -
  have "(v XOR 0xD5) XOR 0x55 = v XOR (0xD5 XOR 0x55)" by (simp only: xor.assoc)
  also have "\<dots> = v XOR 128" by simp
  also have "\<dots> = v OR 128"
  proof (rule bit_eqI)
    fix n assume "possible_bit TYPE(int) n"
    have "\<not> bit v 7" using assms by (simp add: bit_iff_odd)
    moreover have "bit (128::int) n \<longleftrightarrow> n = 7" using bit_exp_iff [of 7 n, where 'a = int] by auto
    ultimately show "bit (v XOR 128) n = bit (v OR 128) n" by (auto simp: bit_xor_iff bit_or_iff)
  qed
  also have "\<dots> = v + 128" using or_as_sum [of v 7 1] assms by (simp add: or.commute)
  finally show "(v XOR 0xD5) XOR 0x55 = v + 128" .
  show "(v XOR 0x55) XOR 0x55 = v" by (simp only: xor.assoc) simp
qed

text \<open>\<open>w\<close> is the code after the mask: sign bit, segment, step.\<close>

lemma alaw_decode_eq:
  assumes "c XOR 0x55 = (if pos then 128 else 0) + 16 * int k + m" and "0 \<le> m" and "m < 16" and "k \<le> 7"
  shows "alaw_decode_sample c = (if pos then 1 else - 1) *
    (if k = 0 then m * 16 + 8 else if k = 1 then m * 16 + 264 else (m * 16 + 264) * 2 ^ (k - 1))"
proof -
  let ?v = "(if pos then 128 else 0) + 16 * int k + m"
  have v: "?v = 16 * ((if pos then 8 else 0) + int k) + m" by simp
  have d: "?v div 16 = (if pos then 8 else 0) + int k" "?v mod 16 = m"
    unfolding v using div_mod_16 [OF assms(2,3)] by blast+
  have dk: "((if pos then 8 else 0) + int k) mod 8 = int k" using assms(4) by (cases pos) simp_all
  have seg: "drop_bit 4 (?v AND 0x70) = int k"
  proof -
    have "drop_bit 4 (?v AND 0x70) = drop_bit 4 ?v AND 7" by (simp add: drop_bit_and)
    then show ?thesis using d dk by (simp only: mask_as_mod drop_bit_eq_div) simp
  qed
  have sg: "(?v AND 128 \<noteq> 0) = pos"
  proof -
    have "(?v AND 128 \<noteq> 0) = bit ?v 7" using bit_iff_and_push_bit_not_eq_0 [of ?v 7] by simp
    also have "\<dots> = odd (?v div 128)" by (simp add: bit_iff_odd)
    also have "?v div 128 = (if pos then 1 else 0)" using assms by auto
    finally show ?thesis by simp
  qed
  have m: "?v AND 15 = m" unfolding mask_as_mod by (rule d(2))
  show ?thesis unfolding alaw_decode_sample_def Let_def assms(1) seg m sg
    using assms(4) by (cases "k = 0"; cases "k = 1") (simp_all add: push_bit_eq_mult nat_diff_distrib)
qed

lemma alaw_cell_eq:
  assumes "0 \<le> p" and "p < 32 * 2 ^ k" and "k = 0 \<or> 16 * 2 ^ k \<le> p"
  shows "alaw_cell k p = p div 2 ^ (max 1 k) - (if k = 0 then 0 else 16)"
proof (cases "k = 0")
  case True
  then show ?thesis using assms(1,2) by (simp add: alaw_cell_def)
next
  case False
  have P: "(0::int) < 2 ^ k" by simp
  have lo: "16 \<le> p div 2 ^ k" using assms(3) False zdiv_mono1 [of "16 * 2 ^ k" p "2 ^ k"] P by simp
  have hi: "p div 2 ^ k < 32"
  proof (rule ccontr)
    assume "\<not> p div 2 ^ k < 32"
    then have "32 * 2 ^ k \<le> p div 2 ^ k * 2 ^ k" by (intro mult_right_mono) simp_all
    then show False using assms(2) div_mult_mod_eq [of p "2 ^ k"] pos_mod_sign [OF P, of p] by linarith
  qed
  have "max 1 k = k" using False by simp
  moreover have "alaw_cell k p = p div 2 ^ k mod 16" using False by (cases "k = 1") (simp_all add: alaw_cell_def)
  ultimately show ?thesis using False mod_16 [OF lo hi] by simp
qed

lemma alaw_cell_range: "0 \<le> alaw_cell k p \<and> alaw_cell k p < 16"
  by (simp add: alaw_cell_def)

text \<open>A-law is accurate to half a step: 8 near zero, and one part in 32 of the magnitude above.\<close>

theorem alaw_error:
  assumes "- 32768 \<le> s" and "s \<le> 32767"
  shows "\<bar>alaw_decode_sample (alaw_encode_sample s) - s\<bar> \<le> max 8 (\<bar>s\<bar> div 32)"
proof -
  have c: "clip16 s = s" using assms by (simp add: clip16_def)
  define p where "p = (if 0 \<le> s div 8 then s div 8 else - (s div 8) - 1)"
  obtain r where r: "s = 8 * (s div 8) + r" "0 \<le> r" "r < 8" using mult_div_mod_eq [of 8 s] by (metis pos_mod_bound pos_mod_sign zero_less_numeral)
  have p: "0 \<le> p" "p < 4096" using r assms by (auto simp: p_def)
  obtain k where k: "k \<le> 7" "p < 32 * 2 ^ k" "k = 0 \<or> 16 * 2 ^ k \<le> p" using alaw_octave p by metis
  let ?j = "max 1 k" let ?m = "alaw_cell k p" let ?v = "16 * int k + ?m"
  have v: "0 \<le> ?v" "?v < 128" using alaw_cell_range [of k p] k(1) by simp_all
  have enc: "alaw_encode_sample s = ?v XOR (if 0 \<le> s div 8 then 0xD5 else 0x55)"
    by (rule alaw_encode_eq) (use c k p_def in simp_all)
  have "alaw_encode_sample s XOR 0x55 = (if 0 \<le> s div 8 then 128 else 0) + 16 * int k + ?m"
    unfolding enc using xor_85 [OF v] by simp
  then have "alaw_decode_sample (alaw_encode_sample s) = (if 0 \<le> s div 8 then 1 else - 1) *
      (if k = 0 then ?m * 16 + 8 else if k = 1 then ?m * 16 + 264 else (?m * 16 + 264) * 2 ^ (k - 1))"
    using alaw_decode_eq alaw_cell_range k(1) by blast
  also have "(if k = 0 then ?m * 16 + 8 else if k = 1 then ?m * 16 + 264 else (?m * 16 + 264) * 2 ^ (k - 1)) =
      p div 2 ^ ?j * (8 * 2 ^ ?j) + 4 * 2 ^ ?j"
  proof (cases "k \<le> 1")
    case True
    then show ?thesis using alaw_cell_eq [OF p(1) k(2,3)] by (cases "k = 0") simp_all
  next
    case False
    then have "k = Suc (Suc (k - 2))" by simp
    then obtain i where i: "k = Suc (Suc i)" by blast
    have m: "?m = p div 2 ^ k - 16" using alaw_cell_eq [OF p(1) k(2,3)] by (simp add: i)
    show ?thesis unfolding m by (simp add: i algebra_simps)
  qed
  finally have d: "alaw_decode_sample (alaw_encode_sample s) = (if 0 \<le> s div 8 then 1 else - 1) * (p div 2 ^ ?j * (8 * 2 ^ ?j) + 4 * 2 ^ ?j)" .
  obtain q t where q: "p div 2 ^ ?j = q" "p = q * 2 ^ ?j + t" "0 \<le> t" "t < 2 ^ ?j"
    using div_mult_mod_eq [of p "2 ^ ?j"] pos_mod_bound [of "2 ^ ?j" p] pos_mod_sign [of "2 ^ ?j" p] by (metis zero_less_numeral zero_less_power)
  have err: "\<bar>alaw_decode_sample (alaw_encode_sample s) - s\<bar> \<le> 4 * 2 ^ ?j"
  proof (cases "0 \<le> s div 8")
    case True
    then have "s = 8 * p + r" using r(1) by (simp add: p_def)
    then show ?thesis unfolding d using True q r(2,3) by (simp add: algebra_simps abs_le_iff)
  next
    case False
    then have "s = - 8 * p - 8 + r" using r(1) by (simp add: p_def)
    then show ?thesis unfolding d using False q r(2,3) by (simp add: algebra_simps abs_le_iff)
  qed
  show ?thesis
  proof (cases "k = 0")
    case True
    then show ?thesis using err by simp
  next
    case False
    have "8 * p \<le> \<bar>s\<bar>" using r by (auto simp: p_def split: if_splits)
    moreover have "16 * 2 ^ k \<le> p" using k(3) False by simp
    ultimately have "32 * (4 * 2 ^ k) \<le> \<bar>s\<bar>" by simp
    then have "4 * 2 ^ k \<le> \<bar>s\<bar> div 32" by linarith
    then show ?thesis using err False by (simp add: max_def split: if_splits)
  qed
qed

text \<open>Every code of the A-law is stable.\<close>

theorem alaw_code_stable:
  assumes "0 \<le> c" and "c \<le> 255"
  shows "alaw_encode_sample (alaw_decode_sample c) = c"
proof -
  have x: "0 \<le> c XOR 0x55" "c XOR 0x55 < 256"
  proof -
    have "take_bit 8 (c XOR 0x55) = c XOR 0x55" using assms by (simp add: take_bit_xor take_bit_int_eq_self)
    then show "0 \<le> c XOR 0x55" "c XOR 0x55 < 256" using take_bit_nonnegative [of 8 "c XOR 0x55"] take_bit_int_less_exp [of 8 "c XOR 0x55"] by simp_all
  qed
  have r: "0 \<le> 255 - (c XOR 0x55)" "255 - (c XOR 0x55) \<le> 255" using x by linarith+
  obtain pos k m where v0: "255 - (c XOR 0x55) = 255 - ((if pos then 128 else 0) + 16 * int k + m)" and b: "0 \<le> m" "m < 16" "k \<le> 7"
    using code_parts [OF r] by blast
  have v: "c XOR 0x55 = (if pos then 128 else 0) + 16 * int k + m" using v0 by linarith
  define P :: int where "P = 2 ^ (k - 1)"
  define w where "w = (2 * m + (if k = 0 then 1 else 33)) * P"
  have P: "1 \<le> P" "P \<le> 64" unfolding P_def using b(3) power_increasing [of "k - 1" 6 "2::int"] by simp_all
  have w: "1 \<le> w" "w \<le> 4032" unfolding w_def
    using mult_mono [of 1 "2 * m + (if k = 0 then 1 else 33)" 1 P] mult_mono [of "2 * m + (if k = 0 then 1 else 33)" 63 P 64] b P by simp_all
  have "(if k = 0 then m * 16 + 8 else if k = 1 then m * 16 + 264 else (m * 16 + 264) * 2 ^ (k - 1)) = 8 * w"
    by (simp add: w_def P_def algebra_simps)
  then have dec: "alaw_decode_sample c = (if pos then 1 else - 1) * (8 * w)" using alaw_decode_eq [OF v b] by simp
  define p where "p = (if pos then w else w - 1)"
  have p0: "clip16 (alaw_decode_sample c) div 8 = (if pos then w else - w)" using w unfolding dec by (simp add: clip16_def)
  have pq: "0 \<le> p" "p < 32 * 2 ^ k" "k = 0 \<or> 16 * 2 ^ k \<le> p" "alaw_cell k p = m"
  proof -
    show p: "0 \<le> p" using w by (simp add: p_def)
    have "p < 32 * 2 ^ k \<and> (k = 0 \<or> 16 * 2 ^ k \<le> p) \<and> alaw_cell k p = m"
    proof (cases "k = 0")
      case True
      have "(2 * m + 1) div 2 = m" "m mod 16 = m" using b by simp_all
      then show ?thesis using True b by (simp add: p_def w_def P_def alaw_cell_def)
    next
      case False
      have two: "2 ^ k = 2 * P" using False by (simp add: P_def power_Suc [symmetric])
      have pe: "p = 2 * P * (m + 16) + (if pos then P else P - 1)" using False by (simp add: p_def w_def algebra_simps)
      have d: "p div 2 ^ k = m + 16" unfolding two
        by (rule int_div_pos_eq [OF pe]) (use P in auto)
      have "m * P \<le> 15 * P" using b(2) P(1) by (intro mult_right_mono) simp_all
      moreover have "0 \<le> m * P" using b(1) P(1) by simp
      moreover have "2 * P * (m + 16) = 2 * (m * P) + 32 * P" by (simp add: algebra_simps)
      moreover have "(if pos then P else P - 1) \<le> P" "P - 1 \<le> (if pos then P else P - 1)" by simp_all
      ultimately have hi: "p < 32 * 2 ^ k" and lo: "16 * 2 ^ k \<le> p" unfolding two pe using P(1) by linarith+
      show ?thesis using alaw_cell_eq [OF p hi] lo hi d False by (simp add: max_def)
    qed
    then show "p < 32 * 2 ^ k" "k = 0 \<or> 16 * 2 ^ k \<le> p" "alaw_cell k p = m" by blast+
  qed
  have "alaw_encode_sample (alaw_decode_sample c) = (16 * int k + m) XOR (if pos then 0xD5 else 0x55)"
  proof -
    have pp: "p = (if 0 \<le> (if pos then w else - w) then (if pos then w else - w) else - (if pos then w else - w) - 1)"
      using w by (simp add: p_def)
    show ?thesis using alaw_encode_eq [OF p0 [symmetric] pp pq(2,3) b(3)] pq(4) w by (cases pos) simp_all
  qed
  then have "alaw_encode_sample (alaw_decode_sample c) XOR 0x55 = c XOR 0x55"
    using xor_85 [of "16 * int k + m"] b v by simp
  then have "(alaw_encode_sample (alaw_decode_sample c) XOR 0x55) XOR 0x55 = (c XOR 0x55) XOR 0x55" by simp
  then show ?thesis by (simp only: xor.assoc) simp
qed

section \<open>Tables and sample arrays\<close>

datatype codec = PCMU | PCMA

definition encode_sample :: "codec \<Rightarrow> int \<Rightarrow> int" where
  "encode_sample c s = (case c of PCMU \<Rightarrow> ulaw_encode_sample s | PCMA \<Rightarrow> alaw_encode_sample s)"

definition decode_sample :: "codec \<Rightarrow> int \<Rightarrow> int" where
  "decode_sample c u = (case c of PCMU \<Rightarrow> ulaw_decode_sample u | PCMA \<Rightarrow> alaw_decode_sample u)"

definition SILENCE_BYTE :: "codec \<Rightarrow> byte" where
  "SILENCE_BYTE c = (case c of PCMU \<Rightarrow> 0xFF | PCMA \<Rightarrow> 0xD5)"

text \<open>
  The encoder looks samples up in a table over the 16-bit range; a sample outside it raises (from an array of type
  \<open>h\<close> none can be).
\<close>

definition enc_table :: "codec \<Rightarrow> byte list" where
  "enc_table c = map (\<lambda>i. of_int (encode_sample c (int i - 32768))) [0..<65536]"

definition g711_encode :: "int list \<Rightarrow> codec \<Rightarrow> bytes" where
  "g711_encode samples c = map (\<lambda>s. of_int (encode_sample c s)) samples"

definition g711_decode :: "bytes \<Rightarrow> codec \<Rightarrow> int list" where
  "g711_decode d c = map (\<lambda>b. decode_sample c (uint b)) d"

lemma enc_table_lookup: "- 32768 \<le> s \<Longrightarrow> s \<le> 32767 \<Longrightarrow> enc_table c ! nat (s + 32768) = of_int (encode_sample c s)"
  by (simp add: enc_table_def nat_less_iff)

lemma code_range: "0 \<le> encode_sample c s \<and> encode_sample c s \<le> 255"
proof (cases c)
  case PCMU
  have "0 \<le> ulaw_encode_sample s" "ulaw_encode_sample s < 2 ^ 8"
    using take_bit_int_less_exp [of 8 "ulaw_encode_sample s"] take_bit_nonnegative [of 8 "ulaw_encode_sample s"]
    by (simp_all add: ulaw_encode_sample_def Let_def mask_as_mod split: prod.split)
  then show ?thesis by (simp add: PCMU encode_sample_def)
next
  case PCMA
  define p where "p = (if 0 \<le> clip16 s div 8 then clip16 s div 8 else - (clip16 s div 8) - 1)"
  have p: "0 \<le> p" "p < 4096" by (auto simp: p_def clip16_def)
  obtain k where k: "k \<le> 7" "p < 32 * 2 ^ k" "k = 0 \<or> 16 * 2 ^ k \<le> p" using alaw_octave p by metis
  let ?v = "16 * int k + alaw_cell k p"
  have v: "0 \<le> ?v" "?v < 128" using alaw_cell_range [of k p] k(1) by simp_all
  have "0 \<le> (?v XOR x)" "(?v XOR x) < 256" if "0 \<le> x" "x < 256" for x
  proof -
    have "take_bit 8 (?v XOR x) = ?v XOR x" using that v by (simp add: take_bit_xor take_bit_int_eq_self)
    then show "0 \<le> (?v XOR x)" "(?v XOR x) < 256"
      using take_bit_nonnegative [of 8 "?v XOR x"] take_bit_int_less_exp [of 8 "?v XOR x"] by simp_all
  qed
  then have "0 \<le> (?v XOR (if 0 \<le> clip16 s div 8 then 0xD5 else 0x55))" "(?v XOR (if 0 \<le> clip16 s div 8 then 0xD5 else 0x55)) < 256"
    using v by simp_all
  then show ?thesis using alaw_encode_eq [OF refl p_def k(2,3,1)] by (simp add: PCMA encode_sample_def)
qed

lemma byte_of_code: "uint (of_int (encode_sample c s) :: byte) = encode_sample c s"
  using code_range [of c s] by (simp add: uint_word_of_int_eq take_bit_int_eq_self)

lemma thirty_second: "32 * x \<le> n \<Longrightarrow> x \<le> n div (32::int)"
  by linarith

definition codec_error :: "codec \<Rightarrow> int \<Rightarrow> int" where
  "codec_error c s = (case c of PCMU \<Rightarrow> (\<bar>s\<bar> + 132) div 32 | PCMA \<Rightarrow> max 8 (\<bar>s\<bar> div 32))"

text \<open>
  What one end plays the other hears: encoding and decoding keep the number of samples and change each by at most
  half a step of its law (at most 8 near zero for the A-law, and about 3 percent above).
\<close>

theorem g711_accuracy:
  assumes "\<forall>s \<in> set xs. \<bar>s\<bar> \<le> 32635"
  shows "list_all2 (\<lambda>s t. \<bar>t - s\<bar> \<le> codec_error c s) xs (g711_decode (g711_encode xs c) c)"
proof -
  have "\<bar>decode_sample c (encode_sample c s) - s\<bar> \<le> codec_error c s" if "s \<in> set xs" for s
  proof (cases c)
    case PCMU
    have "32 * \<bar>ulaw_decode_sample (ulaw_encode_sample s) - s\<bar> \<le> \<bar>s\<bar> + 132" using ulaw_error assms that by blast
    then have "\<bar>ulaw_decode_sample (ulaw_encode_sample s) - s\<bar> \<le> (\<bar>s\<bar> + 132) div 32" by (rule thirty_second)
    then show ?thesis by (simp add: PCMU decode_sample_def encode_sample_def codec_error_def)
  next
    case PCMA
    then show ?thesis using alaw_error [of s] assms that
      by (auto simp: decode_sample_def encode_sample_def codec_error_def abs_le_iff)
  qed
  then show ?thesis by (simp add: list_all2_conv_all_nth g711_encode_def g711_decode_def byte_of_code)
qed

lemma g711_accuracy_witness: "\<bar>hd (g711_decode (g711_encode [1000] PCMA) PCMA) - 1000\<bar> \<le> 31"
  using g711_accuracy [of "[1000]" PCMA] by (simp add: codec_error_def g711_encode_def g711_decode_def)

text \<open>
  Audio that has been through the codec is not changed by going through it again: a decoded stream encodes to
  itself, but that the second zero of the mu-law becomes the first.
\<close>

theorem g711_stable:
  "g711_encode (g711_decode d c) c = map (\<lambda>b. if c = PCMU \<and> b = 127 then 255 else b) d"
proof -
  have "of_int (encode_sample c (decode_sample c (uint b))) = (if c = PCMU \<and> b = 127 then 255 else b)" for b :: byte
  proof -
    have r: "0 \<le> uint b" "uint b \<le> 255" using uint_lt2p [of b] by simp_all
    have z: "uint b = 127 \<longleftrightarrow> b = 127" using word_uint_eq_iff [of b 127] by simp
    show ?thesis using ulaw_code_stable [OF r] alaw_code_stable [OF r] z
      by (cases c) (simp_all add: encode_sample_def decode_sample_def)
  qed
  then show ?thesis by (simp add: g711_encode_def g711_decode_def)
qed

end
