(* ===== verification/Sip_Rtp.thy ===== *)
theory Sip_Rtp
  imports S22_Prelude
begin

text \<open>
  RTP in \<^verbatim>\<open>voip/s22-sip.py\<close>: packing and unpacking of packets and the class \<open>JitterBuffer\<close>, which puts packets
  back in order. Sequence numbers, time stamps and sources are words of their width, so the masks of the code are the
  wrap-around of the type.
\<close>

section \<open>Packets\<close>

definition to_bytes_be :: "nat \<Rightarrow> nat \<Rightarrow> bytes" where
  "to_bytes_be n v = rev (to_bytes_le n v)"

definition from_bytes_be :: "bytes \<Rightarrow> nat" where
  "from_bytes_be b = from_bytes_le (rev b)"

lemma from_to_bytes_be: "v < 256 ^ n \<Longrightarrow> from_bytes_be (to_bytes_be n v) = v"
  by (simp add: from_bytes_be_def to_bytes_be_def from_to_bytes_le)

lemma length_to_bytes_be [simp]: "length (to_bytes_be n v) = n"
  by (simp add: to_bytes_be_def)

type_synonym seq_no = "16 word"
type_synonym stamp = "32 word"

record rtp_packet =
  rp_pt :: byte
  rp_marker :: bool
  rp_seq :: seq_no
  rp_ts :: stamp
  rp_ssrc :: stamp
  rp_payload :: bytes

definition rtp_pack :: "int \<Rightarrow> seq_no \<Rightarrow> stamp \<Rightarrow> stamp \<Rightarrow> bytes \<Rightarrow> bool \<Rightarrow> bytes" where
  "rtp_pack pt sq ts ssrc pl marker =
     [0x80, (if marker then 0x80 else 0) OR (of_int pt AND 0x7F)] @ to_bytes_be 2 (unat sq) @ to_bytes_be 4 (unat ts) @
     to_bytes_be 4 (unat ssrc) @ pl"

text \<open>
  An end before the start of the payload answers \<open>None\<close>; the subtraction of the padding may stop at 0 here, as the
  start is at least 12.
\<close>

definition rtp_unpack :: "bytes \<Rightarrow> rtp_packet option" where
  "rtp_unpack d =
     (if length d < 12 \<or> drop_bit 6 (d ! 0) \<noteq> 2 then None
      else
        (let b0 = d ! 0; b1 = d ! 1; off0 = 12 + 4 * unat (b0 AND 0x0F) in
         if b0 AND 0x10 \<noteq> 0 \<and> length d < off0 + 4 then None
         else
           (let off = (if b0 AND 0x10 \<noteq> 0 then off0 + 4 + 4 * from_bytes_be (py_slice (off0 + 2) (off0 + 4) d) else off0);
                stop = (if b0 AND 0x20 \<noteq> 0 \<and> off < length d then length d - unat (List.last d) else length d)
            in if stop < off then None
               else Some \<lparr>rp_pt = b1 AND 0x7F, rp_marker = (b1 AND 0x80 \<noteq> 0), rp_seq = of_nat (from_bytes_be (py_slice 2 4 d)),
                          rp_ts = of_nat (from_bytes_be (py_slice 4 8 d)), rp_ssrc = of_nat (from_bytes_be (py_slice 8 12 d)),
                          rp_payload = py_slice off stop d\<rparr>)))"

text \<open>
  A packet as RFC 3550 lets a sender build it: contributing sources, an extension of whole words, padding that ends
  in its own length.
\<close>

definition rfc_packet :: "rtp_packet \<Rightarrow> stamp list \<Rightarrow> (bytes \<times> bytes) option \<Rightarrow> nat \<Rightarrow> bytes" where
  "rfc_packet p csrcs ext pad =
     [0x80 OR (if pad = 0 then 0 else 0x20) OR (if ext = None then 0 else 0x10) OR of_nat (length csrcs),
      (if rp_marker p then 0x80 else 0) OR rp_pt p] @
     to_bytes_be 2 (unat (rp_seq p)) @ to_bytes_be 4 (unat (rp_ts p)) @ to_bytes_be 4 (unat (rp_ssrc p)) @
     concat (map (\<lambda>s. to_bytes_be 4 (unat s)) csrcs) @
     (case ext of None \<Rightarrow> [] | Some (profile, body) \<Rightarrow> profile @ to_bytes_be 2 (length body div 4) @ body) @
     rp_payload p @ (if pad = 0 then [] else replicate (pad - 1) 0 @ [of_nat pad])"

definition rfc_ok :: "rtp_packet \<Rightarrow> stamp list \<Rightarrow> (bytes \<times> bytes) option \<Rightarrow> nat \<Rightarrow> bool" where
  "rfc_ok p csrcs ext pad \<longleftrightarrow> rp_pt p AND 0x7F = rp_pt p \<and> length csrcs < 16 \<and> pad < 256 \<and>
     (case ext of None \<Rightarrow> True | Some (profile, body) \<Rightarrow> length profile = 2 \<and> length body mod 4 = 0 \<and> length body div 4 < 65536)"

lemma length_csrcs: "length (concat (map (\<lambda>s. to_bytes_be 4 (unat s)) csrcs)) = 4 * length csrcs"
  by (induction csrcs) auto

lemma first_byte:
  assumes "n < 16"
  shows "(0x80 OR (if pad = 0 then 0 else 0x20) OR (if ext = None then 0 else 0x10) OR of_nat n :: byte) AND 0x0F = of_nat n"
    and "drop_bit 6 (0x80 OR (if pad = 0 then 0 else 0x20) OR (if ext = None then 0 else 0x10) OR of_nat n :: byte) = 2"
    and "((0x80 OR (if pad = 0 then 0 else 0x20) OR (if ext = None then 0 else 0x10) OR of_nat n :: byte) AND 0x10 \<noteq> 0) = (ext \<noteq> None)"
    and "((0x80 OR (if pad = 0 then 0 else 0x20) OR (if ext = None then 0 else 0x10) OR of_nat n :: byte) AND 0x20 \<noteq> 0) = (pad \<noteq> 0)"
proof -
  have "15 = n \<or> 11 = n \<or> 7 = n \<or> 3 = n \<or> 14 = n \<or> 10 = n \<or> 6 = n \<or> 2 = n \<or>
      13 = n \<or> 9 = n \<or> 5 = n \<or> 1 = n \<or> 12 = n \<or> 8 = n \<or> 4 = n \<or> 0 = n" using assms by presburger
  then show "(0x80 OR (if pad = 0 then 0 else 0x20) OR (if ext = None then 0 else 0x10) OR of_nat n :: byte) AND 0x0F = of_nat n"
    and "drop_bit 6 (0x80 OR (if pad = 0 then 0 else 0x20) OR (if ext = None then 0 else 0x10) OR of_nat n :: byte) = 2"
    and "((0x80 OR (if pad = 0 then 0 else 0x20) OR (if ext = None then 0 else 0x10) OR of_nat n :: byte) AND 0x10 \<noteq> 0) = (ext \<noteq> None)"
    and "((0x80 OR (if pad = 0 then 0 else 0x20) OR (if ext = None then 0 else 0x10) OR of_nat n :: byte) AND 0x20 \<noteq> 0) = (pad \<noteq> 0)"
    by (elim disjE; hypsubst; cases "pad = 0"; cases "ext = None"; simp)+
qed

lemma marker_byte:
  assumes "pt AND 0x7F = (pt :: byte)"
  shows "((if m then 0x80 else 0) OR pt) AND 0x7F = pt" and "(((if m then 0x80 else 0) OR pt) AND 0x80 \<noteq> 0) = m"
proof -
  have b8: "bit (0x80 :: byte) n \<longleftrightarrow> n = 7" for n
    using bit_exp_iff [of 7 n, where 'a = byte] by (auto simp: possible_bit_word)
  have b7: "bit (0x7F :: byte) n \<longleftrightarrow> n < 7" for n
    using bit_mask_iff [of 7 n, where 'a = byte] by (auto simp: mask_eq_exp_minus_1 possible_bit_word)
  have b: "bit pt n \<Longrightarrow> n < 7" for n using assms b7 bit_and_iff [of pt "0x7F" n] by simp
  show "((if m then 0x80 else 0) OR pt) AND 0x7F = pt"
  proof (rule bit_word_eqI)
    fix n show "bit (((if m then 0x80 else 0) OR pt) AND 0x7F) n = bit pt n"
      using b [of n] b7 [of n] b8 [of n] by (cases m) (auto simp only: bit_and_iff bit_or_iff if_True if_False bit_0_eq bot_apply bot_bool_def)
  qed
  have "((if m then 0x80 else 0) OR pt) AND 0x80 = (if m then 0x80 else 0)"
  proof (rule bit_word_eqI)
    fix n show "bit (((if m then 0x80 else 0) OR pt) AND 0x80) n = bit (if m then 0x80 else 0 :: byte) n"
      using b [of n] b7 [of n] b8 [of n] by (cases m) (auto simp only: bit_and_iff bit_or_iff if_True if_False bit_0_eq bot_apply bot_bool_def)
  qed
  then show "(((if m then 0x80 else 0) OR pt) AND 0x80 \<noteq> 0) = m" by simp
qed

lemma be_word: "of_nat (from_bytes_be (to_bytes_be 2 (unat (s :: seq_no)))) = s" "of_nat (from_bytes_be (to_bytes_be 4 (unat (t :: stamp)))) = t"
proof -
  have "unat s < 256 ^ 2" "unat t < 256 ^ 4" using unsigned_less [of s, where 'a = nat] unsigned_less [of t, where 'a = nat] by simp_all
  then show "of_nat (from_bytes_be (to_bytes_be 2 (unat s))) = s" "of_nat (from_bytes_be (to_bytes_be 4 (unat t))) = t"
    by (simp_all add: from_to_bytes_be)
qed

lemma unpack_rfc:
  assumes "rfc_ok p csrcs ext pad"
  shows "rtp_unpack (rfc_packet p csrcs ext pad) = Some p"
proof -
  let ?b0 = "0x80 OR (if pad = 0 then 0 else 0x20) OR (if ext = None then 0 else 0x10) OR of_nat (length csrcs) :: byte"
  let ?b1 = "(if rp_marker p then 0x80 else 0) OR rp_pt p"
  let ?s = "to_bytes_be 2 (unat (rp_seq p))" let ?t = "to_bytes_be 4 (unat (rp_ts p))" let ?r = "to_bytes_be 4 (unat (rp_ssrc p))"
  let ?c = "concat (map (\<lambda>s. to_bytes_be 4 (unat s)) csrcs)"
  let ?pd = "if pad = 0 then [] else replicate (pad - 1) 0 @ [of_nat pad :: byte]"
  define ex where "ex = (case ext of None \<Rightarrow> [] | Some (profile, body) \<Rightarrow> profile @ to_bytes_be 2 (length body div 4) @ body)"
  define d where "d = rfc_packet p csrcs ext pad"
  have n: "length csrcs < 16" "pad < 256" using assms by (simp_all add: rfc_ok_def)
  have d: "d = [?b0, ?b1] @ ?s @ ?t @ ?r @ ?c @ ex @ rp_payload p @ ?pd" by (simp add: d_def rfc_packet_def ex_def)
  have pdl: "length ?pd = pad" by simp
  have len: "length d = 12 + 4 * length csrcs + length ex + length (rp_payload p) + pad"
    unfolding d length_append length_csrcs pdl by simp
  have hd: "d ! 0 = ?b0" "d ! 1 = ?b1" unfolding d by simp_all
  have sl: "py_slice 2 4 d = ?s" "py_slice 4 8 d = ?t" "py_slice 8 12 d = ?r"
  proof -
    show "py_slice 2 4 d = ?s" unfolding d by (rule py_slice_mid) simp_all
    have "d = ([?b0, ?b1] @ ?s) @ ?t @ ?r @ ?c @ ex @ rp_payload p @ ?pd" by (simp add: d)
    then show "py_slice 4 8 d = ?t" by (simp only: ) (rule py_slice_mid, simp_all)
    have "d = ([?b0, ?b1] @ ?s @ ?t) @ ?r @ ?c @ ex @ rp_payload p @ ?pd" by (simp add: d)
    then show "py_slice 8 12 d = ?r" by (simp only: ) (rule py_slice_mid, simp_all)
  qed
  have c16: "unat (of_nat (length csrcs) :: byte) = length csrcs" using n by simp
  let ?off0 = "12 + 4 * length csrcs"
  have xl: "ext \<noteq> None \<Longrightarrow> from_bytes_be (py_slice (?off0 + 2) (?off0 + 4) d) = (length ex - 4) div 4 \<and> 4 \<le> length ex \<and> (length ex - 4) mod 4 = 0"
  proof -
    assume "ext \<noteq> None"
    then obtain pr body where x: "ext = Some (pr, body)" by auto
    then have o: "length pr = 2" "length body mod 4 = 0" "length body div 4 < 65536" using assms by (simp_all add: rfc_ok_def)
    have "d = ([?b0, ?b1] @ ?s @ ?t @ ?r @ ?c @ pr) @ to_bytes_be 2 (length body div 4) @ (body @ rp_payload p @ ?pd)"
      by (simp add: d ex_def x)
    then have "py_slice (?off0 + 2) (?off0 + 4) d = to_bytes_be 2 (length body div 4)"
      by (simp only: ) (rule py_slice_mid, simp_all add: length_csrcs o)
    then show ?thesis using o by (simp add: ex_def x from_to_bytes_be)
  qed
  define off where "off = (if ?b0 AND 0x10 \<noteq> 0 then ?off0 + 4 + 4 * from_bytes_be (py_slice (?off0 + 2) (?off0 + 4) d) else ?off0)"
  have off: "off = ?off0 + length ex" using xl first_byte(3) [OF n(1), of pad ext]
    by (cases "ext = None") (auto simp: off_def ex_def)
  have room: "\<not> (?b0 AND 0x10 \<noteq> 0 \<and> length d < ?off0 + 4)" using xl first_byte(3) [OF n(1), of pad ext] len by auto
  have last: "0 < pad \<Longrightarrow> unat (List.last d) = pad" using n(2) by (simp add: d)
  have stop: "(if ?b0 AND 0x20 \<noteq> 0 \<and> off < length d then length d - unat (List.last d) else length d) = off + length (rp_payload p)"
    using first_byte(4) [OF n(1), of pad ext] last off len by auto
  have pl: "py_slice off (off + length (rp_payload p)) d = rp_payload p"
  proof -
    have "d = ([?b0, ?b1] @ ?s @ ?t @ ?r @ ?c @ ex) @ rp_payload p @ ?pd" by (simp add: d)
    then show ?thesis by (simp only: ) (rule py_slice_mid, simp_all add: off length_csrcs)
  qed
  have pt: "rp_pt p AND 0x7F = rp_pt p" using assms by (simp add: rfc_ok_def)
  have "\<not> (length d < 12 \<or> drop_bit 6 (d ! 0) \<noteq> 2)" unfolding hd first_byte(2) [OF n(1)] using len by simp
  then show ?thesis using room stop pl marker_byte [OF pt, of "rp_marker p"]
    unfolding d_def [symmetric] rtp_unpack_def hd Let_def first_byte(1) [OF n(1)] c16 sl be_word off_def [symmetric]
    by simp
qed

text \<open>
  The receiver understands every packet RFC 3550 allows: the payload and the fields come back whatever
  contributing sources, extension and padding the packet has.
\<close>

theorem rtp_unpack_rfc:
  assumes "rfc_ok p csrcs ext pad"
  shows "rtp_unpack (rfc_packet p csrcs ext pad) = Some p"
  by (rule unpack_rfc [OF assms])

lemma rtp_unpack_rfc_witness:
  "rtp_unpack (rfc_packet \<lparr>rp_pt = 8, rp_marker = True, rp_seq = 65535, rp_ts = 7, rp_ssrc = 1, rp_payload = [1, 2]\<rparr> [9] (Some ([0xBE, 0xDE], [1, 2, 3, 4])) 2) =
     Some \<lparr>rp_pt = 8, rp_marker = True, rp_seq = 65535, rp_ts = 7, rp_ssrc = 1, rp_payload = [1, 2]\<rparr>"
  by (rule rtp_unpack_rfc) (simp add: rfc_ok_def)

lemma rtp_pack_rfc: "rtp_pack pt sq ts ssrc pl m =
    rfc_packet \<lparr>rp_pt = of_int pt AND 0x7F, rp_marker = m, rp_seq = sq, rp_ts = ts, rp_ssrc = ssrc, rp_payload = pl\<rparr> [] None 0"
  by (simp add: rtp_pack_def rfc_packet_def)

lemma rtp_pack_unpack: "rtp_unpack (rtp_pack pt sq ts ssrc pl m) =
    Some \<lparr>rp_pt = of_int pt AND 0x7F, rp_marker = m, rp_seq = sq, rp_ts = ts, rp_ssrc = ssrc, rp_payload = pl\<rparr>"
  unfolding rtp_pack_rfc by (rule unpack_rfc) (simp add: rfc_ok_def and.assoc)

lemma pt_bits [simp]: "uint (of_int pt AND 0x7F :: byte) = pt mod 128"
proof -
  have m: "(0x7F :: byte) = mask 7" by (simp add: mask_eq_exp_minus_1)
  have "uint (of_int pt AND mask 7 :: byte) = take_bit 7 pt"
    by (simp add: take_bit_eq_mask [symmetric] unsigned_take_bit_eq unsigned_of_int)
  then show ?thesis by (simp add: m take_bit_eq_mod)
qed

section \<open>The jitter buffer\<close>

datatype jb_out = Gap nat | Audio bytes

record jitter =
  jb_depth :: nat
  jb_max_gap :: nat
  jb_pkts :: "(seq_no, stamp \<times> bytes option) dict"
  jb_next :: "seq_no option"
  jb_ts :: stamp
  jb_lost :: nat
  jb_late :: nat

definition new_jitter :: "nat \<Rightarrow> nat \<Rightarrow> jitter" where
  "new_jitter depth max_gap = \<lparr>jb_depth = depth, jb_max_gap = max_gap, jb_pkts = [], jb_next = None, jb_ts = 0, jb_lost = 0, jb_late = 0\<rparr>"

text \<open>The distance from a sequence number to the nearest packet held, counted with the wrap-around.\<close>

definition nearest :: "seq_no \<Rightarrow> (seq_no, 'a) dict \<Rightarrow> nat" where
  "nearest s d = Min ((\<lambda>k. unat (k - s)) ` fst ` set d)"

lemma nearest_step:
  assumes "d \<noteq> []" and "map_of d s = None"
  shows "nearest (s + 1) d < nearest s d"
proof -
  have one: "unat (k - (s + 1)) = unat (k - s) - 1 \<and> 0 < unat (k - s)" if "k \<in> fst ` set d" for k
  proof -
    have "k - s \<noteq> 0" using that assms(2) by (auto simp: map_of_eq_None_iff)
    then show ?thesis using unat_minus_one [of "k - s"] by (simp add: diff_diff_eq unat_gt_0)
  qed
  have fin: "finite ((\<lambda>k. unat (k - s)) ` fst ` set d)" "(\<lambda>k. unat (k - s)) ` fst ` set d \<noteq> {}" using assms(1) by simp_all
  obtain k where k: "k \<in> fst ` set d" "nearest s d = unat (k - s)"
    using Min_in [OF fin] by (auto simp: nearest_def)
  have "nearest (s + 1) d \<le> unat (k - (s + 1))" unfolding nearest_def by (rule Min_le) (use k in auto)
  then show ?thesis using one [OF k(1)] k(2) by linarith
qed

lemma delete_shorter: "map_of d k = Some y \<Longrightarrow> length (AList.delete k d) < length d"
  by (induction d) (auto simp: AList.delete_eq intro: le_imp_less_Suc)

text \<open>
  The loop of \<open>_drain\<close>. It skips to the nearest packet in any case, so it ends: each round drops a packet or comes
  closer to one.
\<close>

function drain_loop ::
    "bool \<Rightarrow> nat \<Rightarrow> nat \<Rightarrow> (seq_no, stamp \<times> bytes option) dict \<Rightarrow> seq_no \<Rightarrow> stamp \<Rightarrow> nat \<Rightarrow>
     (seq_no, stamp \<times> bytes option) dict \<times> seq_no \<times> stamp \<times> nat \<times> jb_out list" where
  "drain_loop force depth max_gap pkts nxt ts lost =
     (if pkts = [] then (pkts, nxt, ts, lost, [])
      else (case map_of pkts nxt of
              Some (t, p) \<Rightarrow>
                (case p of
                   None \<Rightarrow> drain_loop force depth max_gap (AList.delete nxt pkts) (nxt + 1) ts lost
                 | Some pl \<Rightarrow>
                     (let gap = unat (t - ts);
                          (pkts1, nxt1, ts1, lost1, out) =
                            drain_loop force depth max_gap (AList.delete nxt pkts) (nxt + 1) (t + of_nat (length pl)) lost
                      in (pkts1, nxt1, ts1, lost1, (if 0 < gap \<and> gap \<le> max_gap then [Gap gap] else []) @ Audio pl # out)))
            | None \<Rightarrow>
                if force \<or> depth < length pkts then drain_loop force depth max_gap pkts (nxt + 1) ts (lost + 1)
                else (pkts, nxt, ts, lost, [])))"
  by pat_completeness auto
termination
proof (relation "measures [\<lambda>(force, depth, mg, pkts, nxt, ts, lost). length pkts, \<lambda>(force, depth, mg, pkts, nxt, ts, lost). nearest nxt pkts]")
qed (auto simp: delete_shorter nearest_step)

declare drain_loop.simps [simp del]

definition drain :: "bool \<Rightarrow> jitter \<Rightarrow> jitter \<times> jb_out list" where
  "drain force j =
     (case jb_next j of
        None \<Rightarrow> (j, [])
      | Some s \<Rightarrow>
          (case drain_loop force (jb_depth j) (jb_max_gap j) (jb_pkts j) s (jb_ts j) (jb_lost j) of
             (pkts, nxt, ts, lost, out) \<Rightarrow> (j\<lparr>jb_pkts := pkts, jb_next := Some nxt, jb_ts := ts, jb_lost := lost\<rparr>, out)))"

definition jb_flush :: "jitter \<Rightarrow> jitter \<times> jb_out list" where
  "jb_flush j = drain True j"

definition jb_push :: "seq_no \<Rightarrow> stamp \<Rightarrow> bytes option \<Rightarrow> jitter \<Rightarrow> jitter \<times> jb_out list" where
  "jb_push sq ts pl j0 =
     (let j = (if jb_next j0 = None then j0\<lparr>jb_next := Some sq, jb_ts := ts\<rparr> else j0);
          d = unat (sq - the (jb_next j)) in
      if 0x8000 \<le> d \<or> map_of (jb_pkts j) sq \<noteq> None then (j\<lparr>jb_late := jb_late j + 1\<rparr>, [])
      else (let (j1, out1) = (if 1000 < d then (let (j2, o2) = jb_flush j in (j2\<lparr>jb_next := Some sq, jb_ts := ts\<rparr>, o2)) else (j, []));
                (j3, out3) = drain False (j1\<lparr>jb_pkts := AList.update sq (ts, pl) (jb_pkts j1)\<rparr>)
            in (j3, out1 @ out3)))"

section \<open>Packets in reach come out in order\<close>

text \<open>
  A stream: packet \<open>i\<close> has sequence number \<open>s0 + i\<close>, payload \<open>P i\<close>, and a time stamp that goes on where
  the packet before it ended.
\<close>

definition contiguous :: "(nat \<Rightarrow> stamp) \<Rightarrow> (nat \<Rightarrow> bytes) \<Rightarrow> bool" where
  "contiguous T P \<longleftrightarrow> (\<forall>i. T (Suc i) = T i + of_nat (length (P i)))"

definition held_as :: "seq_no \<Rightarrow> (nat \<Rightarrow> stamp) \<Rightarrow> (nat \<Rightarrow> bytes) \<Rightarrow> nat set \<Rightarrow> nat \<Rightarrow> (seq_no, stamp \<times> bytes option) dict \<Rightarrow> bool" where
  "held_as s0 T P R m pkts \<longleftrightarrow> dict_ok pkts \<and>
     (\<forall>w. map_of pkts w = (let i = m + unat (w - (s0 + of_nat m)) in if i \<in> R then Some (T i, Some (P i)) else None)) \<and>
     length pkts = card {i \<in> R. m \<le> i}"

lemma length_delete: "dict_ok d \<Longrightarrow> map_of d k = Some y \<Longrightarrow> Suc (length (AList.delete k d)) = length d"
proof (induction d)
  case (Cons x d)
  obtain j v where x: "x = (j, v)" by fastforce
  show ?case
  proof (cases "j = k")
    case True
    then have "k \<notin> fst ` set d" using Cons.prems(1) by (simp add: x dict_ok_def)
    then have "AList.delete k d = d" by (rule AList.delete_id)
    then show ?thesis using True by (simp add: x)
  next
    case False
    then show ?thesis using Cons by (simp add: x dict_ok_def)
  qed
qed simp

lemma held_as_next:
  assumes "held_as s0 T P R m pkts" and "m \<in> R" and "finite R" and "\<forall>i \<in> R. i < m + 32768"
  shows "held_as s0 T P R (Suc m) (AList.delete (s0 + of_nat m) pkts)"
proof -
  let ?b = "s0 + of_nat m :: seq_no"
  have ok: "dict_ok pkts" and at: "map_of pkts w = (let i = m + unat (w - ?b) in if i \<in> R then Some (T i, Some (P i)) else None)"
    and len: "length pkts = card {i \<in> R. m \<le> i}" for w
    using assms(1) by (simp_all add: held_as_def)
  have "map_of (AList.delete ?b pkts) w = (let i = Suc m + unat (w - (s0 + of_nat (Suc m))) in if i \<in> R then Some (T i, Some (P i)) else None)" for w
  proof (cases "w = ?b")
    case True
    have "w - (s0 + of_nat (Suc m)) = - 1" by (simp add: True)
    then have "unat (w - (s0 + of_nat (Suc m))) = 65535"
      by (simp only: ) (simp add: unsigned_minus_1_eq_mask mask_eq_exp_minus_1)
    then have "Suc m + unat (w - (s0 + of_nat (Suc m))) \<notin> R" using assms(4) by auto
    then show ?thesis by (simp add: True Let_def)
  next
    case False
    have e: "w - (s0 + of_nat (Suc m)) = (w - ?b) - 1" by simp
    have "w - ?b \<noteq> 0" using False by simp
    then have e2: "Suc m + unat (w - (s0 + of_nat (Suc m))) = m + unat (w - ?b)"
      using unat_minus_one [of "w - ?b"] unat_gt_0 [of "w - ?b"] by (simp only: e) simp
    show ?thesis unfolding e2 using at [of w] False by simp
  qed
  moreover have "Suc (length (AList.delete ?b pkts)) = card {i \<in> R. m \<le> i}"
    using length_delete [OF ok, of ?b] at [of ?b] assms(2) len by simp
  moreover have "{i \<in> R. m \<le> i} = insert m {i \<in> R. Suc m \<le> i}" using assms(2) by auto
  then have "card {i \<in> R. m \<le> i} = Suc (card {i \<in> R. Suc m \<le> i})" using assms(3) by simp
  ultimately show ?thesis using ok by (simp add: held_as_def)
qed

lemma drain_in_order:
  assumes "contiguous T P" and "held_as s0 T P R m pkts" and "finite R" and "\<forall>i \<in> R. i < m + 32768"
    and "m \<le> m'" and "{m..<m'} \<subseteq> R" and "m' \<notin> R" and "card {i \<in> R. m' \<le> i} \<le> depth"
  shows "\<exists>pkts'. drain_loop False depth mg pkts (s0 + of_nat m) (T m) lost =
      (pkts', s0 + of_nat m', T m', lost, map (\<lambda>i. Audio (P i)) [m..<m']) \<and> held_as s0 T P R m' pkts'"
  using assms(2,4,5,6)
proof (induction "m' - m" arbitrary: m pkts)
  case 0
  then have m: "m = m'" by simp
  have at: "map_of pkts (s0 + of_nat m) = None" and len: "length pkts \<le> depth"
    using 0 assms(7,8) by (simp_all add: held_as_def m)
  show ?case using at len 0(2) by (subst drain_loop.simps) (auto simp: m)
next
  case (Suc n)
  then have m: "m < m'" "m \<in> R" by auto
  have at: "map_of pkts (s0 + of_nat m) = Some (T m, Some (P m))" using Suc.prems(1) m(2) by (simp add: held_as_def)
  have ne: "pkts \<noteq> []" using at by auto
  let ?d = "AList.delete (s0 + of_nat m) pkts"
  have ih: "\<exists>pkts'. drain_loop False depth mg ?d (s0 + of_nat (Suc m)) (T (Suc m)) lost =
      (pkts', s0 + of_nat m', T m', lost, map (\<lambda>i. Audio (P i)) [Suc m..<m']) \<and> held_as s0 T P R m' pkts'"
  proof (rule Suc.hyps(1))
    show "n = m' - Suc m" using Suc.hyps(2) by simp
    show "held_as s0 T P R (Suc m) ?d" by (rule held_as_next [OF Suc.prems(1) m(2) assms(3) Suc.prems(2)])
  qed (use Suc.prems m in auto)
  have nx: "s0 + of_nat m + 1 = (s0 + of_nat (Suc m) :: seq_no)" by simp
  have ts: "T m + of_nat (length (P m)) = T (Suc m)" using assms(1) by (simp add: contiguous_def)
  obtain pkts' where "drain_loop False depth mg ?d (s0 + of_nat m + 1) (T m + of_nat (length (P m))) lost =
      (pkts', s0 + of_nat m', T m', lost, map (\<lambda>i. Audio (P i)) [Suc m..<m'])" "held_as s0 T P R m' pkts'"
    using ih unfolding nx ts by blast
  then show ?case using ne at m(1) by (subst drain_loop.simps) (simp add: upt_conv_Cons)
qed

text \<open>The state of the buffer after the packets \<open>R\<close> of the stream, the first missing one being \<open>m\<close>.\<close>

definition waits_for :: "seq_no \<Rightarrow> (nat \<Rightarrow> stamp) \<Rightarrow> (nat \<Rightarrow> bytes) \<Rightarrow> nat set \<Rightarrow> nat \<Rightarrow> jitter \<Rightarrow> bool" where
  "waits_for s0 T P R m j \<longleftrightarrow> jb_next j = Some (s0 + of_nat m) \<and> jb_ts j = T m \<and> held_as s0 T P R m (jb_pkts j) \<and>
     jb_lost j = 0 \<and> jb_late j = 0 \<and> finite R \<and> {0..<m} \<subseteq> R \<and> m \<notin> R \<and> (\<forall>i \<in> R. i \<le> m + 1000)"

lemma push_in_order:
  assumes "contiguous T P" and "waits_for s0 T P R m j" and "i \<notin> R" and "i \<le> m + 1000"
    and "m \<le> m'" and "{0..<m'} \<subseteq> insert i R" and "m' \<notin> insert i R" and "card {r \<in> insert i R. m' \<le> r} \<le> jb_depth j"
  shows "\<exists>j'. jb_push (s0 + of_nat i) (T i) (Some (P i)) j = (j', map (\<lambda>i. Audio (P i)) [m..<m']) \<and>
    waits_for s0 T P (insert i R) m' j' \<and> jb_depth j' = jb_depth j"
proof -
  note w = assms(2) [unfolded waits_for_def]
  have mi: "m \<le> i" using w assms(3) by (meson atLeastLessThan_iff in_mono le0 not_less)
  define x where "x = i - m"
  have x: "i = m + x" "x \<le> 1000" using mi assms(4) by (simp_all add: x_def)
  have d: "unat ((s0 + of_nat i :: seq_no) - (s0 + of_nat m)) = x"
    using x by (simp add: unat_of_nat take_bit_nat_eq_self)
  let ?pk = "AList.update (s0 + of_nat i) (T i, Some (P i)) (jb_pkts j)"
  have h: "dict_ok (jb_pkts j)" and at: "map_of (jb_pkts j) v = (let r = m + unat (v - (s0 + of_nat m)) in if r \<in> R then Some (T r, Some (P r)) else None)"
    and len: "length (jb_pkts j) = card {r \<in> R. m \<le> r}" for v
    using w by (simp_all add: held_as_def)
  have new: "map_of (jb_pkts j) (s0 + of_nat i) = None" using at [of "s0 + of_nat i"] d x(1) assms(3) by simp
  have held: "held_as s0 T P (insert i R) m ?pk"
  proof -
    have "map_of ?pk v = (let r = m + unat (v - (s0 + of_nat m)) in if r \<in> insert i R then Some (T r, Some (P r)) else None)" for v
    proof (cases "v = s0 + of_nat i")
      case True
      then show ?thesis using d x(1) by (simp add: Let_def)
    next
      case False
      have "m + unat (v - (s0 + of_nat m)) \<noteq> i"
      proof
        assume "m + unat (v - (s0 + of_nat m)) = i"
        then have "unat (v - (s0 + of_nat m)) = unat ((s0 + of_nat i :: seq_no) - (s0 + of_nat m))" using d x(1) by simp
        then have "v - (s0 + of_nat m) = (s0 + of_nat i) - (s0 + of_nat m)" by (simp only: word_unat_eq_iff)
        then have "v = s0 + of_nat i" by (metis diff_add_cancel)
        then show False using False by simp
      qed
      then show ?thesis using at [of v] False by simp
    qed
    moreover have "{r \<in> insert i R. m \<le> r} = insert i {r \<in> R. m \<le> r}" using mi by auto
    then have "card {r \<in> insert i R. m \<le> r} = Suc (card {r \<in> R. m \<le> r})" using assms(3) w by simp
    ultimately show ?thesis using h len new by (simp add: held_as_def length_dict_update)
  qed
  have fin: "finite (insert i R)" and bound: "\<forall>r \<in> insert i R. r < m + 32768" using w assms(4) by auto
  have sub: "{m..<m'} \<subseteq> insert i R" using assms(6) by auto
  obtain pkts' where dr: "drain_loop False (jb_depth j) (jb_max_gap j) ?pk (s0 + of_nat m) (T m) 0 =
      (pkts', s0 + of_nat m', T m', 0, map (\<lambda>i. Audio (P i)) [m..<m'])" and hp: "held_as s0 T P (insert i R) m' pkts'"
    using drain_in_order [OF assms(1) held fin bound assms(5) sub assms(7,8), of "jb_max_gap j" 0] by auto
  let ?j' = "j\<lparr>jb_pkts := pkts', jb_next := Some (s0 + of_nat m'), jb_ts := T m', jb_lost := 0\<rparr>"
  have "jb_push (s0 + of_nat i) (T i) (Some (P i)) j = (?j', map (\<lambda>i. Audio (P i)) [m..<m'])"
    using w d x(2) new dr by (simp add: jb_push_def drain_def Let_def)
  moreover have "waits_for s0 T P (insert i R) m' ?j'" using w hp assms(4-7) by (auto simp: waits_for_def)
  ultimately show ?thesis by auto
qed

section \<open>Whole arrivals\<close>

definition first_missing :: "nat list \<Rightarrow> nat" where
  "first_missing xs = hd (filter (\<lambda>n. n \<notin> set xs) [0..<Suc (length xs)])"

definition waiting :: "nat list \<Rightarrow> nat" where
  "waiting xs = length (filter (\<lambda>i. first_missing xs \<le> i) xs)"

text \<open>
  An order of arrival the buffer is made for: the stream begins with its first packet, nothing comes twice, never more
  than \<open>depth\<close> packets wait for a missing one, and none is more than 1000 ahead.
\<close>

fun in_reach :: "nat \<Rightarrow> nat list \<Rightarrow> nat list \<Rightarrow> bool" where
  "in_reach depth seen [] = True"
| "in_reach depth seen (i # is) \<longleftrightarrow> i \<notin> set seen \<and> (seen = [] \<longrightarrow> i = 0) \<and> i \<le> first_missing seen + 1000 \<and>
     waiting (seen @ [i]) \<le> depth \<and> in_reach depth (seen @ [i]) is"

lemma first_missing_facts: "first_missing xs \<notin> set xs" "{0..<first_missing xs} \<subseteq> set xs"
proof -
  let ?f = "filter (\<lambda>n. n \<notin> set xs) [0..<Suc (length xs)]"
  have "?f \<noteq> []"
  proof
    assume "?f = []"
    then have "{0..<Suc (length xs)} \<subseteq> set xs" by (auto simp: filter_empty_conv simp del: upt_Suc)
    then have "Suc (length xs) \<le> card (set xs)" using card_mono [of "set xs" "{0..<Suc (length xs)}"] by simp
    then show False using card_length [of xs] by simp
  qed
  then obtain m ms where f: "?f = m # ms" by (cases ?f) auto
  have m: "first_missing xs = m" unfolding first_missing_def f by simp
  obtain us vs where u: "[0..<Suc (length xs)] = us @ m # vs" "\<forall>u \<in> set us. \<not> u \<notin> set xs" "m \<notin> set xs"
    using filter_eq_ConsD [OF f] by blast
  show "first_missing xs \<notin> set xs" using u(3) m by simp
  have s: "sorted (us @ m # vs)" "distinct (us @ m # vs)" unfolding u(1) [symmetric] by (simp_all del: upt_Suc)
  have set: "set (us @ m # vs) = {0..<Suc (length xs)}" unfolding u(1) [symmetric] by (simp only: set_upt)
  have "n \<in> set us" if "n < m" for n
  proof -
    have "m \<in> set (us @ m # vs)" by simp
    then have "n \<in> set (us @ m # vs)" using that unfolding set by simp
    moreover have "n \<notin> set vs" using s(1) that by (auto simp: sorted_append)
    ultimately show ?thesis using that by simp
  qed
  then show "{0..<first_missing xs} \<subseteq> set xs" using u(2) m by auto
qed

lemma missing_unique: "m \<notin> R \<Longrightarrow> {0..<m} \<subseteq> R \<Longrightarrow> n \<notin> R \<Longrightarrow> {0..<n} \<subseteq> R \<Longrightarrow> m = (n::nat)"
  by (metis atLeastLessThan_iff in_mono le0 linorder_neqE_nat)

lemma missing_mono: "{0..<m} \<subseteq> R \<Longrightarrow> R \<subseteq> S \<Longrightarrow> n \<notin> S \<Longrightarrow> m \<le> (n::nat)"
  by (meson atLeastLessThan_iff in_mono le0 not_less subset_trans)

lemma waiting_card: "distinct xs \<Longrightarrow> waiting xs = card {r \<in> set xs. first_missing xs \<le> r}"
  by (simp add: waiting_def distinct_card [symmetric] Collect_conj_eq Int_commute)

definition stream_push :: "seq_no \<Rightarrow> (nat \<Rightarrow> stamp) \<Rightarrow> (nat \<Rightarrow> bytes) \<Rightarrow> jitter \<Rightarrow> nat \<Rightarrow> jitter \<times> jb_out list" where
  "stream_push s0 T P j i = jb_push (s0 + of_nat i) (T i) (Some (P i)) j"

lemma arrivals_in_order:
  assumes "contiguous T P" and "waits_for s0 T P (set seen) (first_missing seen) j" and "distinct seen"
    and "in_reach (jb_depth j) seen arr" and "seen \<noteq> []" and "run_chunks (stream_push s0 T P) j arr = (j', out)"
  shows "out = map (\<lambda>i. Audio (P i)) [first_missing seen..<first_missing (seen @ arr)] \<and> first_missing seen \<le> first_missing (seen @ arr) \<and>
    jb_lost j' = 0 \<and> jb_late j' = 0"
  using assms(2-)
proof (induction arr arbitrary: seen j out)
  case Nil
  then show ?case by (simp add: waits_for_def)
next
  case (Cons i arr)
  let ?m = "first_missing seen" and ?m' = "first_missing (seen @ [i])"
  have i: "i \<notin> set seen" "i \<le> ?m + 1000" "waiting (seen @ [i]) \<le> jb_depth j" using Cons.prems(3) by simp_all
  have s: "set (seen @ [i]) = insert i (set seen)" by simp
  note fm = first_missing_facts [of "seen @ [i]", unfolded s] and fs = first_missing_facts [of seen]
  have mm: "?m \<le> ?m'" using missing_mono [OF fs(2) _ fm(1)] by auto
  have d: "distinct (seen @ [i])" using Cons.prems(2) i(1) by simp
  have w: "card {r \<in> insert i (set seen). ?m' \<le> r} \<le> jb_depth j" using waiting_card [OF d] i(3) s by simp
  obtain j1 where p: "stream_push s0 T P j i = (j1, map (\<lambda>i. Audio (P i)) [?m..<?m'])"
      "waits_for s0 T P (set (seen @ [i])) ?m' j1" "jb_depth j1 = jb_depth j"
    using push_in_order [OF assms(1) Cons.prems(1) i(1,2) mm fm(2,1) w] unfolding s stream_push_def by blast
  obtain out2 where r: "run_chunks (stream_push s0 T P) j1 arr = (j', out2)" "out = map (\<lambda>i. Audio (P i)) [?m..<?m'] @ out2"
    using Cons.prems(5) p(1) by (auto split: prod.splits)
  have ir: "in_reach (jb_depth j1) (seen @ [i]) arr" using Cons.prems(3) p(3) by simp
  have ih: "out2 = map (\<lambda>i. Audio (P i)) [?m'..<first_missing ((seen @ [i]) @ arr)] \<and> ?m' \<le> first_missing ((seen @ [i]) @ arr) \<and>
      jb_lost j' = 0 \<and> jb_late j' = 0"
    using Cons.IH [OF p(2) d ir _ r(1)] by simp
  have "[?m..<?m'] @ [?m'..<first_missing (seen @ i # arr)] = [?m..<first_missing (seen @ i # arr)]"
    using upt_add_eq_append [OF mm, of "first_missing (seen @ i # arr) - ?m'"] ih by simp
  then show ?case using ih mm r(2) by (simp flip: map_append)
qed

lemma stream_in_order:
  assumes "contiguous T P" and "in_reach depth [] arr" and "run_chunks (stream_push s0 T P) (new_jitter depth max_gap) arr = (j, out)"
  shows "out = map (\<lambda>i. Audio (P i)) [0..<first_missing arr] \<and> jb_lost j = 0 \<and> jb_late j = 0"
proof (cases arr)
  case Nil
  then show ?thesis using assms(3) by (auto simp: first_missing_def new_jitter_def)
next
  case (Cons i rest)
  let ?j0 = "(new_jitter depth max_gap)\<lparr>jb_next := Some s0, jb_ts := T 0\<rparr>"
  have i: "i = 0" "waiting [0] \<le> depth" "in_reach depth [0] rest" using assms(2) by (auto simp: Cons)
  have fm: "first_missing [0] = 1" by (simp add: first_missing_def)
  have w0: "waits_for s0 T P {} 0 ?j0"
    by (simp add: waits_for_def held_as_def new_jitter_def)
  have e0: "{r \<in> insert 0 {}. 1 \<le> r} = ({} :: nat set)" by auto
  have c0: "card {r \<in> insert 0 {}. 1 \<le> (r :: nat)} \<le> jb_depth ?j0" unfolding e0 by simp
  obtain j1 where p: "jb_push s0 (T 0) (Some (P 0)) ?j0 = (j1, [Audio (P 0)])" "waits_for s0 T P {0} 1 j1" "jb_depth j1 = depth"
    using push_in_order [OF assms(1) w0 _ _ _ _ _ c0] by (auto simp: new_jitter_def)
  have "jb_push s0 (T 0) (Some (P 0)) (new_jitter depth max_gap) = jb_push s0 (T 0) (Some (P 0)) ?j0"
    by (simp add: jb_push_def new_jitter_def Let_def)
  then have sp: "stream_push s0 T P (new_jitter depth max_gap) 0 = (j1, [Audio (P 0)])" using p(1) by (simp add: stream_push_def)
  obtain out2 where r: "run_chunks (stream_push s0 T P) j1 rest = (j, out2)" "out = Audio (P 0) # out2"
    using assms(3) sp by (auto simp: Cons i(1) split: prod.splits)
  have "out2 = map (\<lambda>i. Audio (P i)) [1..<first_missing ([0] @ rest)] \<and> 1 \<le> first_missing ([0] @ rest) \<and> jb_lost j = 0 \<and> jb_late j = 0"
    using arrivals_in_order [OF assms(1), of s0 "[0]" j1 rest j out2] p(2,3) i(3) r(1) fm by simp
  then show ?thesis using r(2) by (simp add: Cons i(1) upt_conv_Cons)
qed

text \<open>
  C4. The jitter buffer puts a stream back in order: whatever the order in which packets in reach arrive, it hands out the
  payloads of the first ones up to the first still missing, each once, in their order and without gaps, and counts
  nothing as lost or late; also where the sequence numbers or the time stamps wrap around.
\<close>

theorem jitter_reorders:
  assumes "contiguous T P" and "in_reach depth [] arr" and "run_chunks (stream_push s0 T P) (new_jitter depth max_gap) arr = (j, out)"
  shows "out = map (\<lambda>i. Audio (P i)) [0..<first_missing arr] \<and> jb_lost j = 0 \<and> jb_late j = 0"
  by (rule stream_in_order [OF assms])

lemma jitter_reorders_witness:
  "snd (run_chunks (stream_push 65534 (\<lambda>i. of_nat (2 * i)) (\<lambda>i. [of_nat i, 0])) (new_jitter 3 40000) [0, 2, 3, 1]) =
     [Audio [0, 0], Audio [1, 0], Audio [2, 0], Audio [3, 0]]"
proof -
  let ?T = "\<lambda>i. of_nat (2 * i) :: stamp" and ?P = "\<lambda>i. [of_nat i, 0] :: bytes"
  have c: "contiguous ?T ?P" by (simp add: contiguous_def)
  have r: "in_reach 3 [] [0, 2, 3, 1]" by (simp add: first_missing_def waiting_def)
  have "first_missing [0, 2, 3, 1] = 4" by (simp add: first_missing_def)
  then show ?thesis using jitter_reorders [OF c r prod.collapse [symmetric], of 65534 40000]
    by (simp add: upt_conv_Cons)
qed

section \<open>What becomes of every packet\<close>

definition audio_out :: "jb_out list \<Rightarrow> nat" where
  "audio_out out = length (filter (\<lambda>x. case x of Audio _ \<Rightarrow> True | Gap _ \<Rightarrow> False) out)"

definition audio_held :: "(seq_no, stamp \<times> bytes option) dict \<Rightarrow> nat" where
  "audio_held d = length (filter (\<lambda>(_, _, p). p \<noteq> None) d)"

lemma audio_held_delete:
  "dict_ok d \<Longrightarrow> map_of d k = Some (t, p) \<Longrightarrow> audio_held d = audio_held (AList.delete k d) + (if p = None then 0 else 1)"
proof (induction d)
  case (Cons x d)
  obtain j v q where x: "x = (j, v, q)" by (cases x) auto
  show ?case
  proof (cases "j = k")
    case True
    then have "k \<notin> fst ` set d" using Cons.prems(1) by (simp add: x dict_ok_def)
    then have "AList.delete k d = d" by (rule AList.delete_id)
    then show ?thesis using True Cons.prems(2) by (auto simp: x audio_held_def)
  next
    case False
    then show ?thesis using Cons by (simp add: x dict_ok_def audio_held_def)
  qed
qed simp

lemma audio_held_new: "map_of d k = None \<Longrightarrow> audio_held (AList.update k (t, p) d) = audio_held d + (if p = None then 0 else 1)"
  by (simp add: update_new audio_held_def)

lemma drain_counts:
  assumes "drain_loop force depth mg pkts nxt ts lost = (pkts', nxt', ts', lost', out)" and "dict_ok pkts"
  shows "dict_ok pkts' \<and> audio_out out + audio_held pkts' = audio_held pkts \<and> (length pkts' \<le> depth \<or> pkts' = []) \<and> (force \<longrightarrow> pkts' = [])"
  using assms
proof (induction force depth mg pkts nxt ts lost arbitrary: pkts' nxt' ts' lost' out rule: drain_loop.induct)
  case (1 force depth mg pkts nxt ts lost)
  show ?case
  proof (cases "pkts = []")
    case True
    then show ?thesis using "1.prems" by (subst (asm) drain_loop.simps) (auto simp: audio_out_def)
  next
    case ne: False
    show ?thesis
    proof (cases "map_of pkts nxt")
      case None
      show ?thesis
      proof (cases "force \<or> depth < length pkts")
        case True
        then have "drain_loop force depth mg pkts (nxt + 1) ts (lost + 1) = (pkts', nxt', ts', lost', out)"
          using "1.prems"(1) ne None by (subst (asm) drain_loop.simps) simp
        then show ?thesis using "1.IH"(1) [OF ne None True] "1.prems"(2) by blast
      next
        case False
        then show ?thesis using "1.prems" ne None by (subst (asm) drain_loop.simps) (auto simp: audio_out_def)
      qed
    next
      case (Some tp)
      obtain t p where tp: "tp = (t, p)" by fastforce
      have ok: "dict_ok (AList.delete nxt pkts)" using "1.prems"(2) by simp
      have h: "audio_held pkts = audio_held (AList.delete nxt pkts) + (if p = None then 0 else 1)"
        by (rule audio_held_delete) (use "1.prems"(2) Some tp in simp_all)
      show ?thesis
      proof (cases p)
        case None
        then have "drain_loop force depth mg (AList.delete nxt pkts) (nxt + 1) ts lost = (pkts', nxt', ts', lost', out)"
          using "1.prems"(1) ne Some tp by (subst (asm) drain_loop.simps) simp
        then show ?thesis using "1.IH"(2) [OF ne Some tp [symmetric] None] ok h None by simp
      next
        case (Some pl)
        obtain a b c d out2 where r: "drain_loop force depth mg (AList.delete nxt pkts) (nxt + 1) (t + of_nat (length pl)) lost = (a, b, c, d, out2)"
          by (metis prod_cases5)
        have e: "pkts' = a" "audio_out out = Suc (audio_out out2)"
          using "1.prems"(1) ne \<open>map_of pkts nxt = Some tp\<close> tp Some r
          by (subst (asm) drain_loop.simps, auto simp: audio_out_def Let_def)+
        show ?thesis using "1.IH"(3) [OF ne \<open>map_of pkts nxt = Some tp\<close> tp [symmetric] Some refl r ok] h e Some by simp
      qed
    qed
  qed
qed

definition jb_ok :: "jitter \<Rightarrow> bool" where
  "jb_ok j \<longleftrightarrow> dict_ok (jb_pkts j) \<and> (length (jb_pkts j) \<le> jb_depth j \<or> jb_pkts j = []) \<and> (jb_next j = None \<longrightarrow> jb_pkts j = [])"

lemma drain_facts:
  assumes "drain force j = (j', out)" and "dict_ok (jb_pkts j)" and "jb_next j \<noteq> None"
  shows "jb_ok j' \<and> audio_out out + audio_held (jb_pkts j') = audio_held (jb_pkts j) \<and> (force \<longrightarrow> jb_pkts j' = []) \<and>
    jb_depth j' = jb_depth j \<and> jb_late j' = jb_late j \<and> jb_next j' \<noteq> None"
proof -
  obtain s where s: "jb_next j = Some s" using assms(3) by auto
  obtain pk n t l o2 where r: "drain_loop force (jb_depth j) (jb_max_gap j) (jb_pkts j) s (jb_ts j) (jb_lost j) = (pk, n, t, l, o2)"
    by (metis prod_cases5)
  have "j' = j\<lparr>jb_pkts := pk, jb_next := Some n, jb_ts := t, jb_lost := l\<rparr>" "out = o2"
    using assms(1) by (simp_all add: drain_def s r)
  then show ?thesis using drain_counts [OF r assms(2)] by (auto simp: jb_ok_def)
qed

lemma push_facts:
  assumes "jb_push sq ts pl j = (j', out)" and "jb_ok j"
  shows "jb_ok j' \<and> jb_depth j' = jb_depth j \<and>
    (audio_out out + audio_held (jb_pkts j') = audio_held (jb_pkts j) + (if pl = None then 0 else 1) \<and> jb_late j' = jb_late j \<or>
     out = [] \<and> audio_held (jb_pkts j') = audio_held (jb_pkts j) \<and> jb_late j' = Suc (jb_late j))"
proof -
  define j1 where "j1 = (if jb_next j = None then j\<lparr>jb_next := Some sq, jb_ts := ts\<rparr> else j)"
  have j1: "jb_ok j1" "jb_pkts j1 = jb_pkts j" "jb_depth j1 = jb_depth j" "jb_late j1 = jb_late j" "jb_next j1 \<noteq> None"
    using assms(2) by (auto simp: j1_def jb_ok_def)
  let ?d = "unat (sq - the (jb_next j1))"
  have p: "jb_push sq ts pl j =
      (if 0x8000 \<le> ?d \<or> map_of (jb_pkts j1) sq \<noteq> None then (j1\<lparr>jb_late := jb_late j1 + 1\<rparr>, [])
       else (let (j2, out1) = (if 1000 < ?d then (let (j2, o2) = jb_flush j1 in (j2\<lparr>jb_next := Some sq, jb_ts := ts\<rparr>, o2)) else (j1, []));
                 (j3, out3) = drain False (j2\<lparr>jb_pkts := AList.update sq (ts, pl) (jb_pkts j2)\<rparr>)
             in (j3, out1 @ out3)))"
    by (simp add: jb_push_def j1_def)
  show ?thesis
  proof (cases "0x8000 \<le> ?d \<or> map_of (jb_pkts j1) sq \<noteq> None")
    case True
    then have "j' = j1\<lparr>jb_late := jb_late j1 + 1\<rparr>" "out = []" using assms(1) unfolding p by simp_all
    then show ?thesis using j1 by (auto simp: jb_ok_def)
  next
    case False
    define jo where "jo = (if 1000 < ?d then (let (j2, o2) = jb_flush j1 in (j2\<lparr>jb_next := Some sq, jb_ts := ts\<rparr>, o2)) else (j1, []))"
    obtain j2 out1 where jo: "jo = (j2, out1)" by fastforce
    have j2: "jb_ok j2 \<and> audio_out out1 + audio_held (jb_pkts j2) = audio_held (jb_pkts j) \<and> jb_depth j2 = jb_depth j \<and>
        jb_late j2 = jb_late j \<and> jb_next j2 \<noteq> None \<and> map_of (jb_pkts j2) sq = None"
    proof (cases "1000 < ?d")
      case True
      obtain j3 o3 where f: "drain True j1 = (j3, o3)" by fastforce
      have "j2 = j3\<lparr>jb_next := Some sq, jb_ts := ts\<rparr>" "out1 = o3" using jo True f by (simp_all add: jo_def jb_flush_def)
      then show ?thesis using drain_facts [OF f] j1 by (auto simp: jb_ok_def)
    next
      case near: False
      have "map_of (jb_pkts j1) sq = None" using False by blast
      then show ?thesis using jo j1 near by (auto simp: jo_def audio_out_def)
    qed
    obtain j3 out3 where d: "drain False (j2\<lparr>jb_pkts := AList.update sq (ts, pl) (jb_pkts j2)\<rparr>) = (j3, out3)" by fastforce
    have r: "j' = j3" "out = out1 @ out3" using assms(1) False jo d unfolding p jo_def [symmetric] by simp_all
    have "jb_ok j3 \<and> audio_out out3 + audio_held (jb_pkts j3) = audio_held (AList.update sq (ts, pl) (jb_pkts j2)) \<and>
        jb_depth j3 = jb_depth j2 \<and> jb_late j3 = jb_late j2"
      using drain_facts [OF d] j2 by (auto simp: jb_ok_def)
    moreover have "audio_out (out1 @ out3) = audio_out out1 + audio_out out3" by (simp add: audio_out_def)
    ultimately show ?thesis using r j2 audio_held_new [of "jb_pkts j2" sq ts pl] by simp
  qed
qed

text \<open>One packet of a session: its sequence number, time stamp, and payload if it is audio.\<close>

definition push_one :: "jitter \<Rightarrow> seq_no \<times> stamp \<times> bytes option \<Rightarrow> jitter \<times> jb_out list" where
  "push_one j i = (case i of (sq, ts, pl) \<Rightarrow> jb_push sq ts pl j)"

text \<open>
  Whatever packets arrive, in whatever order, with losses, repetitions and restarts: the buffer never holds more than
  \<open>depth\<close> packets, never hands out more audio packets than it got, and those it has not handed out are held or were
  counted as late.
\<close>

theorem jitter_accounts:
  assumes "run_chunks push_one (new_jitter depth max_gap) ins = (j, out)"
  shows "length (jb_pkts j) \<le> depth \<and>
    audio_out out + audio_held (jb_pkts j) \<le> length (filter (\<lambda>(_, _, pl). pl \<noteq> None) ins) \<and>
    length (filter (\<lambda>(_, _, pl). pl \<noteq> None) ins) \<le> audio_out out + audio_held (jb_pkts j) + jb_late j"
proof -
  let ?n = "\<lambda>ins. length (filter (\<lambda>(_, _, pl :: bytes option). pl \<noteq> None) ins)"
  have "jb_ok j' \<and> jb_depth j' = jb_depth j0 \<and> jb_late j0 \<le> jb_late j' \<and>
      audio_out o' + audio_held (jb_pkts j') \<le> audio_held (jb_pkts j0) + ?n ins \<and>
      audio_held (jb_pkts j0) + ?n ins \<le> audio_out o' + audio_held (jb_pkts j') + (jb_late j' - jb_late j0)"
    if "run_chunks push_one j0 ins = (j', o')" "jb_ok j0" for j0 j' o'
    using that
  proof (induction ins arbitrary: j0 o')
    case Nil
    then show ?case by (simp add: audio_out_def)
  next
    case (Cons i ins)
    obtain sq ts pl where i: "i = (sq, ts, pl)" by (cases i)
    obtain j1 o1 where p: "jb_push sq ts pl j0 = (j1, o1)" by fastforce
    have "push_one j0 i = (j1, o1)" by (simp add: i push_one_def p)
    then obtain o2 where r: "run_chunks push_one j1 ins = (j', o2)" "o' = o1 @ o2"
      using Cons.prems(1) by (auto split: prod.splits)
    note pf = push_facts [OF p Cons.prems(2)]
    have ap: "audio_out (o1 @ o2) = audio_out o1 + audio_out o2" "audio_out [] = 0" by (simp_all add: audio_out_def)
    show ?case using Cons.IH [OF r(1)] pf ap by (auto simp: i r(2))
  qed
  from this [OF assms] show ?thesis by (auto simp: jb_ok_def new_jitter_def audio_held_def)
qed

lemma jitter_accounts_witness:
  "audio_out (snd (run_chunks push_one (new_jitter 3 40000) [(1, 0, Some [1]), (1, 0, Some [1]), (5, 9, None)])) \<le> 2"
  using jitter_accounts [OF prod.collapse [symmetric], of 3 40000 "[(1, 0, Some [1]), (1, 0, Some [1]), (5, 9, None)]"] by simp

end
