(* ===== verification/Sip_Session.thy ===== *)
theory Sip_Session
  imports Sip_Audio Sip_Rtp
begin

text \<open>
  The class \<open>RtpSession\<close> of \<^verbatim>\<open>voip/s22-sip.py\<close>: the queue of frames and telephone events, one round of the
  sending loop, and the handling of one received datagram. The pacing by the clock is left out; a send that fails loses
  the packet. What the consumers are given is a list of samples and digits.
\<close>

section \<open>State\<close>

definition FRAME :: nat where "FRAME = 160"

definition DTMF_EVENTS :: pystr where
  "DTMF_EVENTS = lit ''0123456789*#ABCD''"

datatype out_item = AudioFrame "int list" | EventItem nat nat bool bool

type_synonym net_addr = "pystr \<times> nat"

record rtp_session =
  rs_remote :: net_addr
  rs_pt :: int
  rs_codec :: codec
  rs_dtmf_pt :: "int option"
  rs_latch :: bool
  rs_ssrc :: stamp
  rs_seq :: seq_no
  rs_ts :: stamp
  rs_out :: "out_item list"
  rs_jb :: jitter
  rs_latched :: bool
  rs_rx :: nat
  rs_tx :: nat
  rs_last_ev :: "stamp option"
  rs_ev_ts :: "stamp option"

definition new_session ::
    "net_addr \<Rightarrow> int \<Rightarrow> codec \<Rightarrow> int option \<Rightarrow> bool \<Rightarrow> stamp \<Rightarrow> seq_no \<Rightarrow> stamp \<Rightarrow> rtp_session" where
  "new_session remote pt c dtmf latch ssrc sq ts =
     \<lparr>rs_remote = remote, rs_pt = pt, rs_codec = c, rs_dtmf_pt = dtmf, rs_latch = latch, rs_ssrc = ssrc, rs_seq = sq, rs_ts = ts,
      rs_out = [], rs_jb = new_jitter 3 40000, rs_latched = False, rs_rx = 0, rs_tx = 0, rs_last_ev = None, rs_ev_ts = None\<rparr>"

section \<open>Sending\<close>

function frames_of :: "int list \<Rightarrow> int list list" where
  "frames_of s =
     (if s = [] then []
      else (let fr = take FRAME s in (fr @ replicate (FRAME - length fr) 0) # frames_of (drop FRAME s)))"
  by pat_completeness auto
termination
  by (relation "measure length") (auto simp: FRAME_def)

declare frames_of.simps [simp del]

definition play :: "int list \<Rightarrow> rtp_session \<Rightarrow> rtp_session" where
  "play samples s = s\<lparr>rs_out := rs_out s @ map AudioFrame (frames_of samples)\<rparr>"

definition rs_flush :: "rtp_session \<Rightarrow> rtp_session" where
  "rs_flush s = s\<lparr>rs_out := []\<rparr>"

text \<open>\<open>d.upper()\<close> for the letters that are events, and \<open>_DTMF_EVENTS.index(d)\<close>.\<close>

definition dtmf_event :: "nat \<Rightarrow> nat option" where
  "dtmf_event d =
     (let u = (if 97 \<le> d \<and> d \<le> 122 then d - 32 else d) in
      case filter (\<lambda>i. DTMF_EVENTS ! i = u) [0..<16] of [] \<Rightarrow> None | i # _ \<Rightarrow> Some i)"

definition event_items :: "nat \<Rightarrow> nat \<Rightarrow> out_item list" where
  "event_items ev n =
     map (\<lambda>i. EventItem ev ((i + 1) * FRAME) False (i = 0)) [0..<n] @ replicate 3 (EventItem ev (n * FRAME) True False) @
     replicate 3 (AudioFrame (replicate FRAME 0))"

text \<open>The digits before a bad one are in the queue when it raises.\<close>

fun queue_digits :: "pystr \<Rightarrow> nat \<Rightarrow> rtp_session \<Rightarrow> rtp_session \<times> pyerr option" where
  "queue_digits [] n s = (s, None)"
| "queue_digits (d # ds) n s =
     (case dtmf_event d of
        None \<Rightarrow> (s, Some ValueError)
      | Some ev \<Rightarrow> queue_digits ds n (s\<lparr>rs_out := rs_out s @ event_items ev n\<rparr>))"

datatype dtmf_error = NotNegotiated | BadDigit pyerr

definition send_dtmf :: "pystr \<Rightarrow> nat \<Rightarrow> rtp_session \<Rightarrow> rtp_session \<times> dtmf_error option" where
  "send_dtmf digits ms s =
     (if rs_dtmf_pt s = None then (s, Some NotNegotiated)
      else (let (s1, e) = queue_digits digits (max 1 (ms div 20)) s in (s1, map_option BadDigit e)))"

text \<open>One round of \<open>_send_loop\<close>; \<open>ok\<close> is whether the datagram went out. A duration over 16 bits ends the loop.\<close>

definition send_step :: "bool \<Rightarrow> rtp_session \<Rightarrow> pyerr + rtp_session \<times> bytes" where
  "send_step ok s =
     (let (item, rest) = (case rs_out s of [] \<Rightarrow> (None, []) | i # r \<Rightarrow> (Some i, r));
          next = (\<lambda>ev_ts pkt. Inr (s\<lparr>rs_out := rest, rs_ev_ts := ev_ts, rs_tx := rs_tx s + (if ok then 1 else 0),
                                    rs_seq := rs_seq s + 1, rs_ts := rs_ts s + of_nat FRAME\<rparr>, pkt))
      in case item of
           Some (EventItem ev dur fin first) \<Rightarrow>
             (let t = (if first then rs_ts s else case rs_ev_ts s of Some t \<Rightarrow> t | None \<Rightarrow> rs_ts s) in
              if 65536 \<le> dur then Inl StructError
              else (case rs_dtmf_pt s of
                      None \<Rightarrow> Inl TypeError
                    | Some dpt \<Rightarrow>
                        next (Some t) (rtp_pack dpt (rs_seq s) t (rs_ssrc s)
                          ([of_nat ev, (if fin then 0x80 else 0) OR 10] @ to_bytes_be 2 dur) first)))
         | Some (AudioFrame fr) \<Rightarrow> next None (rtp_pack (rs_pt s) (rs_seq s) (rs_ts s) (rs_ssrc s) (g711_encode fr (rs_codec s)) False)
         | None \<Rightarrow> next None (rtp_pack (rs_pt s) (rs_seq s) (rs_ts s) (rs_ssrc s) (replicate FRAME (SILENCE_BYTE (rs_codec s))) False))"

section \<open>Receiving\<close>

datatype heard = Samples "int list" | Digit nat

definition emit_item :: "codec \<Rightarrow> jb_out \<Rightarrow> heard" where
  "emit_item c it = Samples (case it of Gap n \<Rightarrow> replicate n 0 | Audio b \<Rightarrow> g711_decode b c)"

definition static_codec :: "int \<Rightarrow> codec" where
  "static_codec pt = (if pt = 0 then PCMU else PCMA)"

definition recv_packet :: "net_addr \<Rightarrow> rtp_packet \<Rightarrow> rtp_session \<Rightarrow> rtp_session \<times> heard list" where
  "recv_packet addr p s0 =
     (let s = s0\<lparr>rs_remote := (if rs_latch s0 \<and> \<not> rs_latched s0 then addr else rs_remote s0), rs_latched := True, rs_rx := rs_rx s0 + 1\<rparr> in
      if rs_dtmf_pt s = Some (uint (rp_pt p)) then
        (let pl = rp_payload p;
             fresh = (4 \<le> length pl \<and> pl ! 1 AND 0x80 \<noteq> 0 \<and> Some (rp_ts p) \<noteq> rs_last_ev s);
             s1 = (if fresh then s\<lparr>rs_last_ev := Some (rp_ts p)\<rparr> else s);
             digits = (if fresh \<and> unat (pl ! 0) < 16 then [Digit (unat (pl ! 0))] else []);
             (jb, items) = jb_push (rp_seq p) (rp_ts p) None (rs_jb s1)
         in (s1\<lparr>rs_jb := jb\<rparr>, digits @ map (emit_item (rs_codec s1)) items))
      else if uint (rp_pt p) \<noteq> rs_pt s \<and> rp_pt p \<noteq> 0 \<and> rp_pt p \<noteq> 8 then (s, [])
      else
        (let s1 = (if uint (rp_pt p) \<noteq> rs_pt s then s\<lparr>rs_pt := uint (rp_pt p), rs_codec := static_codec (uint (rp_pt p))\<rparr> else s);
             (jb, items) = jb_push (rp_seq p) (rp_ts p) (Some (rp_payload p)) (rs_jb s1)
         in (s1\<lparr>rs_jb := jb\<rparr>, map (emit_item (rs_codec s1)) items)))"

definition recv_datagram :: "rtp_session \<Rightarrow> net_addr \<times> bytes \<Rightarrow> rtp_session \<times> heard list" where
  "recv_datagram s i = (case rtp_unpack (snd i) of None \<Rightarrow> (s, []) | Some p \<Rightarrow> recv_packet (fst i) p s)"

text \<open>\<open>stop\<close> hands out what the jitter buffer still holds.\<close>

definition rs_stop :: "rtp_session \<Rightarrow> rtp_session \<times> heard list" where
  "rs_stop s = (let (jb, items) = jb_flush (rs_jb s) in (s\<lparr>rs_jb := jb\<rparr>, map (emit_item (rs_codec s)) items))"

section \<open>A run of the sender\<close>

fun send_run :: "nat \<Rightarrow> rtp_session \<Rightarrow> pyerr + rtp_session \<times> bytes list" where
  "send_run 0 s = Inr (s, [])"
| "send_run (Suc n) s =
     try_r (send_step True s) (\<lambda>(s1, p). try_r (send_run n s1) (\<lambda>(s2, ps). Inr (s2, p # ps)))"

lemma send_audio_run:
  assumes "rs_out s = map AudioFrame frs @ rest"
  shows "\<exists>s'. send_run (length frs) s = Inr (s', map (\<lambda>i. rtp_pack (rs_pt s) (rs_seq s + of_nat i) (rs_ts s + of_nat (FRAME * i))
      (rs_ssrc s) (g711_encode (frs ! i) (rs_codec s)) False) [0..<length frs]) \<and> rs_out s' = rest"
  using assms
proof (induction frs arbitrary: s)
  case (Cons fr frs)
  let ?s1 = "s\<lparr>rs_out := map AudioFrame frs @ rest, rs_ev_ts := None, rs_tx := rs_tx s + 1, rs_seq := rs_seq s + 1, rs_ts := rs_ts s + of_nat FRAME\<rparr>"
  let ?p = "rtp_pack (rs_pt s) (rs_seq s) (rs_ts s) (rs_ssrc s) (g711_encode fr (rs_codec s)) False"
  have st: "send_step True s = Inr (?s1, ?p)" using Cons.prems by (simp add: send_step_def Let_def)
  obtain s' where r: "send_run (length frs) ?s1 = Inr (s', map (\<lambda>i. rtp_pack (rs_pt s) (rs_seq s + 1 + of_nat i)
      (rs_ts s + of_nat FRAME + of_nat (FRAME * i)) (rs_ssrc s) (g711_encode (frs ! i) (rs_codec s)) False) [0..<length frs])" "rs_out s' = rest"
    using Cons.IH [of ?s1] by auto
  have up: "[0..<Suc (length frs)] = 0 # map Suc [0..<length frs]" by (simp add: map_Suc_upt upt_conv_Cons del: upt_Suc)
  show ?case using st r up by (simp add: o_def algebra_simps del: upt_Suc)
qed simp

section \<open>From one end to the other\<close>

lemma frames_full: "f \<in> set (frames_of xs) \<Longrightarrow> length f = FRAME"
proof (induction xs rule: frames_of.induct)
  case (1 s)
  show ?case
  proof (cases "s = []")
    case True
    then show ?thesis using "1.prems" by (subst (asm) frames_of.simps) simp
  next
    case False
    have "f = take FRAME s @ replicate (FRAME - length (take FRAME s)) 0 \<or> f \<in> set (frames_of (drop FRAME s))"
      using "1.prems" False by (subst (asm) frames_of.simps) (simp add: Let_def)
    then show ?thesis using "1.IH" [OF False refl] by (auto simp: min_def)
  qed
qed

text \<open>The frames are the samples, the last frame filled up with silence.\<close>

lemma concat_frames: "concat (frames_of xs) = xs @ replicate (FRAME * length (frames_of xs) - length xs) 0"
proof (induction xs rule: frames_of.induct)
  case (1 s)
  have F: "0 < FRAME" by (simp add: FRAME_def)
  show ?case
  proof (cases "s = [] \<or> length s \<le> FRAME")
    case True
    then show ?thesis using F
      by (subst (1 2) frames_of.simps, cases "s = []") (simp_all add: Let_def frames_of.simps [of "[]"])
  next
    case False
    have "frames_of s = take FRAME s # frames_of (drop FRAME s)" using False by (subst frames_of.simps) auto
    moreover have "s \<noteq> []" using False by blast
    ultimately show ?thesis using "1.IH" [OF _ refl] False
      by (simp add: diff_diff_left flip: append_assoc)
  qed
qed

lemma recv_audio:
  assumes "rtp_unpack d = Some \<lparr>rp_pt = w, rp_marker = m, rp_seq = q, rp_ts = t, rp_ssrc = c, rp_payload = p\<rparr>"
    and "uint w = rs_pt r" and "rs_dtmf_pt r \<noteq> Some (rs_pt r)" and "jb_push q t (Some p) (rs_jb r) = (jb, items)"
  shows "\<exists>r'. recv_datagram r (addr, d) = (r', map (emit_item (rs_codec r)) items) \<and> rs_jb r' = jb \<and> rs_pt r' = rs_pt r \<and>
    rs_codec r' = rs_codec r \<and> rs_dtmf_pt r' = rs_dtmf_pt r"
  using assms by (simp add: recv_datagram_def recv_packet_def Let_def)

lemma recv_stream:
  assumes "\<forall>i \<in> set arr. rtp_unpack (pkts ! i) =
      Some \<lparr>rp_pt = w, rp_marker = False, rp_seq = s0 + of_nat i, rp_ts = T i, rp_ssrc = c, rp_payload = P i\<rparr>"
    and "uint w = rs_pt r" and "rs_dtmf_pt r \<noteq> Some (rs_pt r)" and "run_chunks (stream_push s0 T P) (rs_jb r) arr = (j, items)"
  shows "snd (run_chunks recv_datagram r (map (\<lambda>i. (addr, pkts ! i)) arr)) = map (emit_item (rs_codec r)) items"
  using assms
proof (induction arr arbitrary: r items)
  case (Cons i arr)
  obtain j1 o1 where p: "jb_push (s0 + of_nat i) (T i) (Some (P i)) (rs_jb r) = (j1, o1)" by fastforce
  obtain r1 where r: "recv_datagram r (addr, pkts ! i) = (r1, map (emit_item (rs_codec r)) o1)" "rs_jb r1 = j1"
      "rs_pt r1 = rs_pt r" "rs_codec r1 = rs_codec r" "rs_dtmf_pt r1 = rs_dtmf_pt r"
    using recv_audio [OF _ Cons.prems(2,3) p, of "pkts ! i" False c addr] Cons.prems(1) by auto
  obtain o2 where o: "run_chunks (stream_push s0 T P) j1 arr = (j, o2)" "items = o1 @ o2"
    using Cons.prems(4) p by (auto simp: stream_push_def [of _ _ _ _ i] split: prod.splits)
  have "snd (run_chunks recv_datagram r1 (map (\<lambda>i. (addr, pkts ! i)) arr)) = map (emit_item (rs_codec r1)) o2"
    by (rule Cons.IH) (use Cons.prems r o in simp_all)
  then show ?case using r o by (simp add: case_prod_beta Let_def)
qed simp

lemma all_arrived: "set arr = {0..<n} \<Longrightarrow> first_missing arr = n"
  by (rule missing_unique [OF first_missing_facts]) auto

lemma voice_arrives:
  assumes "rs_out s = []" and "0 \<le> rs_pt s \<and> rs_pt s < 128" and "rs_pt r = rs_pt s" and "rs_codec r = rs_codec s"
    and "rs_dtmf_pt r \<noteq> Some (rs_pt r)" and "rs_jb r = new_jitter 3 40000"
    and "in_reach 3 [] arr" and "set arr = {0..<length (frames_of xs)}"
  shows "\<exists>s' pkts. send_run (length (frames_of xs)) (play xs s) = Inr (s', pkts) \<and> rs_out s' = [] \<and>
    snd (run_chunks recv_datagram r (map (\<lambda>i. (addr, pkts ! i)) arr)) =
      map (\<lambda>f. Samples (g711_decode (g711_encode f (rs_codec s)) (rs_codec s))) (frames_of xs)"
proof -
  let ?fs = "frames_of xs" and ?c = "rs_codec s"
  let ?n = "length ?fs"
  define T where "T i = rs_ts s + of_nat (FRAME * i)" for i :: nat
  define P where "P i = g711_encode (if i < ?n then ?fs ! i else replicate FRAME 0) ?c" for i :: nat
  define pkts where "pkts = map (\<lambda>i. rtp_pack (rs_pt s) (rs_seq s + of_nat i) (T i) (rs_ssrc s) (g711_encode (?fs ! i) ?c) False) [0..<?n]"
  obtain s' where s': "send_run ?n (play xs s) = Inr (s', pkts)" "rs_out s' = []"
    using send_audio_run [of "play xs s" ?fs "[]"] assms(1) by (auto simp: play_def pkts_def T_def)
  have c: "contiguous T P" using frames_full [of "?fs ! _" xs]
    by (simp add: contiguous_def T_def P_def g711_encode_def algebra_simps)
  obtain j items where r: "run_chunks (stream_push (rs_seq s) T P) (new_jitter 3 40000) arr = (j, items)" by fastforce
  have items: "items = map (\<lambda>i. Audio (P i)) [0..<?n]"
    using stream_in_order [OF c assms(7) r] all_arrived [OF assms(8)] by simp
  have "snd (run_chunks recv_datagram r (map (\<lambda>i. (addr, pkts ! i)) arr)) = map (emit_item (rs_codec r)) items"
  proof (rule recv_stream [where w = "of_int (rs_pt s) AND 0x7F"])
    show "\<forall>i \<in> set arr. rtp_unpack (pkts ! i) =
      Some \<lparr>rp_pt = of_int (rs_pt s) AND 0x7F, rp_marker = False, rp_seq = rs_seq s + of_nat i, rp_ts = T i, rp_ssrc = rs_ssrc s, rp_payload = P i\<rparr>"
      using assms(2,3,8) by (auto simp: pkts_def rtp_pack_unpack P_def)
    show "run_chunks (stream_push (rs_seq s) T P) (rs_jb r) arr = (j, items)" using r assms(6) by simp
  qed (use assms in simp_all)
  moreover have "map (emit_item (rs_codec r)) items = map (\<lambda>f. Samples (g711_decode (g711_encode f ?c) ?c)) ?fs"
    by (rule nth_equalityI) (simp_all add: items assms(4) emit_item_def P_def)
  ultimately show ?thesis using s' by auto
qed

text \<open>
  C6. One end plays samples, the other hears them: the sender queues the frames and its rounds pack them all; when the
  packets arrive in any order within the reach of the jitter buffer, the receiver hears the frames in their order,
  each sample within the error of the codec, and nothing else.
\<close>

theorem voice_path:
  assumes "rs_out s = []" and "0 \<le> rs_pt s \<and> rs_pt s < 128" and "rs_pt r = rs_pt s" and "rs_codec r = rs_codec s"
    and "rs_dtmf_pt r \<noteq> Some (rs_pt r)" and "rs_jb r = new_jitter 3 40000"
    and "in_reach 3 [] arr" and "set arr = {0..<length (frames_of xs)}"
  shows "\<exists>s' pkts. send_run (length (frames_of xs)) (play xs s) = Inr (s', pkts) \<and> rs_out s' = [] \<and>
    snd (run_chunks recv_datagram r (map (\<lambda>i. (addr, pkts ! i)) arr)) =
      map (\<lambda>f. Samples (g711_decode (g711_encode f (rs_codec s)) (rs_codec s))) (frames_of xs)"
  by (rule voice_arrives [OF assms])

lemma voice_path_witness:
  "\<exists>pkts. snd (run_chunks recv_datagram (new_session (lit ''10.0.0.2'', 4000) 8 PCMA (Some 101) True 7 65535 9)
      (map (\<lambda>i. ((lit ''10.0.0.1'', 4002), pkts ! i)) [0, 2, 1])) =
    map (\<lambda>f. Samples (g711_decode (g711_encode f PCMA) PCMA)) (frames_of (replicate 330 5000))"
proof -
  let ?s = "new_session (lit ''10.0.0.1'', 4002) 8 PCMA (Some 101) True 1 65534 2"
  let ?r = "new_session (lit ''10.0.0.2'', 4000) 8 PCMA (Some 101) True 7 65535 9"
  have n: "length (frames_of (replicate 330 5000)) = 3"
    by (simp add: frames_of.simps [of "replicate _ _"] frames_of.simps [of "[]"] FRAME_def Let_def)
  have "in_reach 3 [] [0, 2, 1]" by (simp add: first_missing_def waiting_def)
  moreover have "set [0, 2, 1] = {0..<length (frames_of (replicate 330 5000))}" unfolding n by auto
  ultimately show ?thesis
    using voice_path [of ?s ?r "[0, 2, 1]" "replicate 330 5000" "(lit ''10.0.0.1'', 4002)"] by (auto simp: new_session_def)
qed

section \<open>Telephone events over a lossy path\<close>

text \<open>The end packet of an event: its time stamp and its number.\<close>

definition end_of :: "int \<Rightarrow> bytes \<Rightarrow> (stamp \<times> nat) option" where
  "end_of d b = (case rtp_unpack b of None \<Rightarrow> None | Some p \<Rightarrow>
     if uint (rp_pt p) = d \<and> 4 \<le> length (rp_payload p) \<and> rp_payload p ! 1 AND 0x80 \<noteq> 0 then Some (rp_ts p, unat (rp_payload p ! 0)) else None)"

fun digits_of :: "heard list \<Rightarrow> nat list" where
  "digits_of [] = []"
| "digits_of (Digit n # hs) = n # digits_of hs"
| "digits_of (Samples s # hs) = digits_of hs"

lemma digits_of_append: "digits_of (xs @ ys) = digits_of xs @ digits_of ys"
  by (induction xs rule: digits_of.induct) auto

lemma digits_of_audio [simp]: "digits_of (map (emit_item c) items) = []"
  by (induction items) (auto simp: emit_item_def)

lemma recv_event:
  assumes "rs_dtmf_pt r = Some d"
  shows "rs_dtmf_pt (fst (recv_datagram r (a, b))) = Some d"
    and "rs_last_ev (fst (recv_datagram r (a, b))) = (case end_of d b of None \<Rightarrow> rs_last_ev r | Some (t, e) \<Rightarrow> Some t)"
    and "digits_of (snd (recv_datagram r (a, b))) =
      (case end_of d b of None \<Rightarrow> [] | Some (t, e) \<Rightarrow> if rs_last_ev r = Some t \<or> 16 \<le> e then [] else [e])"
proof -
  have "rs_dtmf_pt (fst (recv_datagram r (a, b))) = Some d \<and>
    rs_last_ev (fst (recv_datagram r (a, b))) = (case end_of d b of None \<Rightarrow> rs_last_ev r | Some (t, e) \<Rightarrow> Some t) \<and>
    digits_of (snd (recv_datagram r (a, b))) =
      (case end_of d b of None \<Rightarrow> [] | Some (t, e) \<Rightarrow> if rs_last_ev r = Some t \<or> 16 \<le> e then [] else [e])"
  proof (cases "rtp_unpack b")
    case (Some p)
    show ?thesis
    proof (cases "uint (rp_pt p) = d")
      case True
      then show ?thesis using assms Some
        by (auto simp: recv_datagram_def recv_packet_def end_of_def Let_def digits_of_append split: prod.splits)
    next
      case False
      then show ?thesis using assms Some
        by (auto simp: recv_datagram_def recv_packet_def end_of_def Let_def digits_of_append split: prod.splits)
    qed
  qed (simp add: recv_datagram_def end_of_def assms)
  then show "rs_dtmf_pt (fst (recv_datagram r (a, b))) = Some d"
    and "rs_last_ev (fst (recv_datagram r (a, b))) = (case end_of d b of None \<Rightarrow> rs_last_ev r | Some (t, e) \<Rightarrow> Some t)"
    and "digits_of (snd (recv_datagram r (a, b))) =
      (case end_of d b of None \<Rightarrow> [] | Some (t, e) \<Rightarrow> if rs_last_ev r = Some t \<or> 16 \<le> e then [] else [e])" by blast+
qed

text \<open>All packets of one event that arrive are heard as one digit, when an end packet is among them.\<close>

lemma recv_block:
  assumes "rs_dtmf_pt r = Some d" and "\<forall>b \<in> set ps. end_of d b \<in> {None, Some (t, e)}" and "e < 16"
  shows "rs_dtmf_pt (fst (run_chunks recv_datagram r (map (Pair a) ps))) = Some d \<and>
    rs_last_ev (fst (run_chunks recv_datagram r (map (Pair a) ps))) = (if \<exists>b \<in> set ps. end_of d b \<noteq> None then Some t else rs_last_ev r) \<and>
    digits_of (snd (run_chunks recv_datagram r (map (Pair a) ps))) =
      (if rs_last_ev r \<noteq> Some t \<and> (\<exists>b \<in> set ps. end_of d b \<noteq> None) then [e] else [])"
  using assms
proof (induction ps arbitrary: r)
  case (Cons b ps)
  let ?r = "fst (recv_datagram r (a, b))"
  note re = recv_event [OF Cons.prems(1), of a b]
  have ih: "rs_dtmf_pt (fst (run_chunks recv_datagram ?r (map (Pair a) ps))) = Some d \<and>
    rs_last_ev (fst (run_chunks recv_datagram ?r (map (Pair a) ps))) = (if \<exists>b \<in> set ps. end_of d b \<noteq> None then Some t else rs_last_ev ?r) \<and>
    digits_of (snd (run_chunks recv_datagram ?r (map (Pair a) ps))) =
      (if rs_last_ev ?r \<noteq> Some t \<and> (\<exists>b \<in> set ps. end_of d b \<noteq> None) then [e] else [])"
    by (rule Cons.IH) (use Cons.prems re in simp_all)
  have b: "end_of d b = None \<or> end_of d b = Some (t, e)" using Cons.prems(2) by simp
  have st: "fst (run_chunks recv_datagram r (map (Pair a) (b # ps))) = fst (run_chunks recv_datagram ?r (map (Pair a) ps))"
    "digits_of (snd (run_chunks recv_datagram r (map (Pair a) (b # ps)))) =
      digits_of (snd (recv_datagram r (a, b))) @ digits_of (snd (run_chunks recv_datagram ?r (map (Pair a) ps)))"
    by (simp_all add: case_prod_beta Let_def digits_of_append)
  show ?case
  proof (cases "end_of d b")
    case None
    then show ?thesis using ih re unfolding st by auto
  next
    case (Some x)
    then have "x = (t, e)" using b by simp
    then show ?thesis using ih re Some Cons.prems(3) unfolding st by auto
  qed
qed simp

lemma send_run_add:
  "send_run (m + n) s = try_r (send_run m s) (\<lambda>(s1, ps). try_r (send_run n s1) (\<lambda>(s2, qs). Inr (s2, ps @ qs)))"
proof (induction m arbitrary: s)
  case 0
  show ?case by (cases "send_run n s") (auto simp: split: prod.splits)
next
  case (Suc m)
  show ?case
  proof (cases "send_step True s")
    case (Inr x)
    obtain s1 p where x: "x = (s1, p)" by fastforce
    show ?thesis
    proof (cases "send_run m s1")
      case (Inr y)
      obtain s2 ps where y: "y = (s2, ps)" by fastforce
      show ?thesis using Suc [of s1] Inr \<open>send_step True s = Inr x\<close> x y by (cases "send_run n s2") auto
    qed (use Suc [of s1] Inr x in auto)
  qed simp
qed

definition sends :: "int \<Rightarrow> rtp_session \<Rightarrow> out_item list \<Rightarrow> (stamp \<times> nat) option list \<Rightarrow> rtp_session \<Rightarrow> bytes list \<Rightarrow> bool" where
  "sends d s rest ends s' ps \<longleftrightarrow> send_run (length ends) s = Inr (s', ps) \<and> rs_out s' = rest \<and> map (end_of d) ps = ends \<and>
     rs_dtmf_pt s' = rs_dtmf_pt s \<and> rs_pt s' = rs_pt s \<and> rs_ts s' = rs_ts s + of_nat (FRAME * length ends)"

lemma sends_Nil: "sends d s (rs_out s) [] s []"
  by (simp add: sends_def)

lemma sends_append:
  assumes "sends d s rest1 es s1 ps" and "sends d s1 rest fs s2 qs"
  shows "sends d s rest (es @ fs) s2 (ps @ qs)"
  using assms by (auto simp: sends_def send_run_add algebra_simps)

lemma send_event_step:
  assumes "rs_out s = EventItem ev dur fin first # rest" and "rs_dtmf_pt s = Some d" and "0 \<le> d \<and> d < 128" and "dur < 65536" and "ev < 16"
    and "t = (if first then rs_ts s else case rs_ev_ts s of Some t \<Rightarrow> t | None \<Rightarrow> rs_ts s)"
  shows "\<exists>s' p. sends d s rest [if fin then Some (t, ev) else None] s' [p] \<and> rs_ev_ts s' = Some t"
proof -
  let ?s = "s\<lparr>rs_out := rest, rs_ev_ts := Some t, rs_tx := rs_tx s + 1, rs_seq := rs_seq s + 1, rs_ts := rs_ts s + of_nat FRAME\<rparr>"
  let ?p = "rtp_pack d (rs_seq s) t (rs_ssrc s) ([of_nat ev, (if fin then 0x80 else 0) OR 10] @ to_bytes_be 2 dur) first"
  have st: "send_step True s = Inr (?s, ?p)" using assms(1,2,4) by (simp add: send_step_def assms(6) Let_def)
  have "end_of d ?p = (if fin then Some (t, ev) else None)"
    using assms(3,5) by (simp add: end_of_def rtp_pack_unpack)
  then have "sends d s rest [if fin then Some (t, ev) else None] ?s [?p]" using st by (simp add: sends_def)
  then show ?thesis by (intro exI [of _ ?s] exI [of _ ?p]) simp
qed

lemma send_events:
  assumes "rs_out s = map (\<lambda>(dur, fin). EventItem ev dur fin False) l @ rest" and "rs_dtmf_pt s = Some d" and "0 \<le> d \<and> d < 128"
    and "\<forall>x \<in> set l. fst x < 65536" and "ev < 16" and "rs_ev_ts s = Some t"
  shows "\<exists>s' ps. sends d s rest (map (\<lambda>(dur, fin). if fin then Some (t, ev) else None) l) s' ps \<and> rs_ev_ts s' = Some t"
  using assms
proof (induction l arbitrary: s)
  case Nil
  then show ?case using sends_Nil [of d s] by auto
next
  case (Cons x l)
  obtain dur fin where x: "x = (dur, fin)" by fastforce
  let ?r = "map (\<lambda>(dur, fin). EventItem ev dur fin False) l @ rest"
  obtain s1 p where s1: "sends d s ?r [if fin then Some (t, ev) else None] s1 [p]" "rs_ev_ts s1 = Some t"
    using send_event_step [of s ev dur fin False ?r d t] Cons.prems by (auto simp: x)
  have o: "rs_out s1 = ?r" "rs_dtmf_pt s1 = Some d" using s1(1) Cons.prems(2) by (simp_all add: sends_def)
  obtain s2 ps where "sends d s1 rest (map (\<lambda>(dur, fin). if fin then Some (t, ev) else None) l) s2 ps" "rs_ev_ts s2 = Some t"
    using Cons.IH [OF o Cons.prems(3) _ Cons.prems(5) s1(2)] Cons.prems(4) by auto
  then show ?case using sends_append [OF s1(1)] by (fastforce simp: x)
qed

lemma send_silence:
  assumes "rs_out s = replicate k (AudioFrame f) @ rest" and "rs_pt s mod 128 \<noteq> d"
  shows "\<exists>s' ps. sends d s rest (replicate k None) s' ps"
  using assms
proof (induction k arbitrary: s)
  case 0
  then show ?case using sends_Nil [of d s] by auto
next
  case (Suc k)
  let ?s = "s\<lparr>rs_out := replicate k (AudioFrame f) @ rest, rs_ev_ts := None, rs_tx := rs_tx s + 1, rs_seq := rs_seq s + 1, rs_ts := rs_ts s + of_nat FRAME\<rparr>"
  let ?p = "rtp_pack (rs_pt s) (rs_seq s) (rs_ts s) (rs_ssrc s) (g711_encode f (rs_codec s)) False"
  have st: "send_step True s = Inr (?s, ?p)" using Suc.prems by (simp add: send_step_def Let_def)
  have "end_of d ?p = None" using Suc.prems(2) by (simp add: end_of_def rtp_pack_unpack)
  then have one: "sends d s (replicate k (AudioFrame f) @ rest) [None] ?s [?p]" using st by (simp add: sends_def)
  obtain s' ps where "sends d ?s rest (replicate k None) s' ps" using Suc.IH [of ?s] Suc.prems(2) by auto
  then show ?case using sends_append [OF one] by fastforce
qed

text \<open>One digit: its packets carry the time stamp of the first, and the last three of them are end packets.\<close>

definition block_ends :: "nat \<Rightarrow> stamp \<Rightarrow> nat \<Rightarrow> (stamp \<times> nat) option list" where
  "block_ends n t ev = replicate n None @ replicate 3 (Some (t, ev)) @ replicate 3 None"

lemma send_block:
  assumes "rs_out s = event_items ev n @ rest" and "rs_dtmf_pt s = Some d" and "0 \<le> d \<and> d < 128" and "rs_pt s mod 128 \<noteq> d"
    and "0 < n" and "n < 410" and "ev < 16"
  shows "\<exists>s' ps. sends d s rest (block_ends n (rs_ts s) ev) s' ps"
proof -
  obtain m where n: "n = Suc m" using assms(5) by (cases n) auto
  let ?l = "map (\<lambda>i. ((i + 2) * FRAME, False)) [0..<m] @ replicate 3 (n * FRAME, True)"
  let ?sil = "replicate 3 (AudioFrame (replicate FRAME 0)) @ rest"
  have up: "[0..<n] = 0 # map Suc [0..<m]" by (simp add: n map_Suc_upt upt_conv_Cons del: upt_Suc)
  have out: "rs_out s = EventItem ev FRAME False True # map (\<lambda>(dur, fin). EventItem ev dur fin False) ?l @ ?sil"
    by (simp add: assms(1) event_items_def up o_def)
  have F: "FRAME < 65536" by (simp add: FRAME_def)
  obtain s1 p where s1: "sends d s (map (\<lambda>(dur, fin). EventItem ev dur fin False) ?l @ ?sil) [None] s1 [p]" "rs_ev_ts s1 = Some (rs_ts s)"
    using send_event_step [OF out assms(2,3) F assms(7) refl] by auto
  have o1: "rs_out s1 = map (\<lambda>(dur, fin). EventItem ev dur fin False) ?l @ ?sil" "rs_dtmf_pt s1 = Some d" "rs_pt s1 = rs_pt s"
    using s1(1) assms(2) by (simp_all add: sends_def)
  have small: "\<forall>x \<in> set ?l. fst x < 65536" using assms(6) by (auto simp: FRAME_def n)
  obtain s2 ps where s2: "sends d s1 ?sil (map (\<lambda>(dur, fin). if fin then Some (rs_ts s, ev) else None) ?l) s2 ps"
    using send_events [OF o1(1,2) assms(3) small assms(7) s1(2)] by blast
  have o2: "rs_out s2 = ?sil" "rs_pt s2 mod 128 \<noteq> d" using s2 o1 assms(4) by (simp_all add: sends_def)
  obtain s3 qs where s3: "sends d s2 rest (replicate 3 None) s3 qs" using send_silence [OF o2] by blast
  have "[None] @ map (\<lambda>(dur, fin). if fin then Some (rs_ts s, ev) else None) ?l @ replicate 3 None = block_ends n (rs_ts s) ev"
    by (simp add: block_ends_def n o_def map_replicate_const)
  then show ?thesis using sends_append [OF s1(1) sends_append [OF s2 s3]] by auto
qed

lemma queue_all:
  assumes "queue_digits ds n s = (s1, None)"
  shows "s1 = s\<lparr>rs_out := rs_out s @ concat (map (\<lambda>d. event_items (the (dtmf_event d)) n) ds)\<rparr> \<and> (\<forall>d \<in> set ds. dtmf_event d \<noteq> None)"
  using assms
proof (induction ds arbitrary: s)
  case (Cons d ds)
  then obtain e where e: "dtmf_event d = Some e" by (cases "dtmf_event d") auto
  then have "queue_digits ds n (s\<lparr>rs_out := rs_out s @ event_items e n\<rparr>) = (s1, None)" using Cons.prems by simp
  from Cons.IH [OF this] show ?case using e by auto
qed simp

lemma dtmf_event_small: "dtmf_event d = Some e \<Longrightarrow> e < 16"
proof -
  assume a: "dtmf_event d = Some e"
  let ?u = "if 97 \<le> d \<and> d \<le> 122 then d - 32 else d"
  have "e \<in> set (filter (\<lambda>i. DTMF_EVENTS ! i = ?u) [0..<16])"
    using a unfolding dtmf_event_def Let_def by (cases "filter (\<lambda>i. DTMF_EVENTS ! i = ?u) [0..<16]") auto
  then show "e < 16" by auto
qed

lemma nths_ends: "map f (nths xs A) = nths (map f xs) A"
  by (simp add: nths_map)

lemma block_kept:
  assumes "map (end_of d) ps = block_ends n t e"
  shows "\<forall>b \<in> set (nths ps A). end_of d b \<in> {None, Some (t, e)}"
    and "(\<exists>j < 3. n + j \<in> A) \<Longrightarrow> \<exists>b \<in> set (nths ps A). end_of d b \<noteq> None"
proof -
  have "end_of d ` set ps \<subseteq> {None, Some (t, e)}"
    using arg_cong [OF assms, of set] by (auto simp: block_ends_def)
  then show "\<forall>b \<in> set (nths ps A). end_of d b \<in> {None, Some (t, e)}" using set_nths_subset [of ps A] by auto
  assume "\<exists>j < 3. n + j \<in> A"
  then obtain j where j: "j < 3" "n + j \<in> A" by blast
  have l: "length ps = n + 6" using arg_cong [OF assms, of length] by (simp add: block_ends_def)
  have "end_of d (ps ! (n + j)) = map (end_of d) ps ! (n + j)" using j(1) l by simp
  also have "\<dots> = Some (t, e)" using j(1) unfolding assms by (auto simp: block_ends_def nth_append)
  finally have "end_of d (ps ! (n + j)) \<noteq> None" by simp
  moreover have "ps ! (n + j) \<in> set (nths ps A)" using j l by (auto simp: set_nths)
  ultimately show "\<exists>b \<in> set (nths ps A). end_of d b \<noteq> None" by blast
qed

lemma digits_arrive:
  assumes "rs_out s = concat (map (\<lambda>e. event_items e n) es)" and "\<forall>e \<in> set es. e < 16" and "rs_dtmf_pt s = Some d"
    and "0 \<le> d \<and> d < 128" and "rs_pt s mod 128 \<noteq> d" and "0 < n" and "n < 410"
    and "rs_dtmf_pt r = Some d" and "rs_last_ev r \<noteq> Some (rs_ts s)"
    and "\<forall>k < length es. \<exists>j < 3. k * (n + 6) + n + j \<in> A"
  shows "\<exists>s' ps. send_run (length es * (n + 6)) s = Inr (s', ps) \<and> rs_out s' = [] \<and>
    digits_of (snd (run_chunks recv_datagram r (map (Pair a) (nths ps A)))) = es"
  using assms(1-3,5,8-)
proof (induction es arbitrary: s r A)
  case (Cons e es)
  have o: "rs_out s = event_items e n @ concat (map (\<lambda>e. event_items e n) es)" "e < 16" using Cons.prems(1,2) by simp_all
  obtain s1 ps where b: "sends d s (concat (map (\<lambda>e. event_items e n) es)) (block_ends n (rs_ts s) e) s1 ps"
    using send_block [OF o(1) Cons.prems(3) assms(4) Cons.prems(4) assms(6,7) o(2)] by blast
  have len: "length (block_ends n (rs_ts s) e) = n + 6" by (simp add: block_ends_def)
  have ends: "map (end_of d) ps = block_ends n (rs_ts s) e" and run1: "send_run (n + 6) s = Inr (s1, ps)"
    and s1: "rs_out s1 = concat (map (\<lambda>e. event_items e n) es)" "rs_dtmf_pt s1 = Some d" "rs_pt s1 = rs_pt s"
      "rs_ts s1 = rs_ts s + of_nat (FRAME * (n + 6))"
    using b Cons.prems(3) unfolding sends_def len by simp_all
  have plen: "length ps = n + 6" using arg_cong [OF ends, of length] len by simp
  let ?A = "{j. j + length ps \<in> A}"
  let ?r = "fst (run_chunks recv_datagram r (map (Pair a) (nths ps A)))"
  have z: "\<exists>j < 3. n + j \<in> A" using Cons.prems(7) by force
  note kept = block_kept [OF ends]
  have rb: "rs_dtmf_pt ?r = Some d" "rs_last_ev ?r = Some (rs_ts s)"
    "digits_of (snd (run_chunks recv_datagram r (map (Pair a) (nths ps A)))) = [e]"
    using recv_block [OF Cons.prems(5) kept(1) o(2), of a] kept(2) [OF z] Cons.prems(6) by auto
  have moved: "(of_nat k :: stamp) \<noteq> 0" if "0 < k" "k < 2 ^ 32" for k :: nat
  proof -
    have "unat (of_nat k :: stamp) = k" using that(2) by (simp add: unat_of_nat take_bit_eq_mod)
    then show ?thesis using that(1) by auto
  qed
  have "(of_nat (FRAME * (n + 6)) :: stamp) \<noteq> 0" by (rule moved) (use assms(7) in \<open>simp_all add: FRAME_def\<close>)
  then have fresh: "rs_last_ev ?r \<noteq> Some (rs_ts s1)" by (simp add: rb(2) s1(4))
  have A: "\<forall>k < length es. \<exists>j < 3. k * (n + 6) + n + j \<in> ?A"
  proof (intro allI impI)
    fix k assume "k < length es"
    then obtain j where "j < 3" "Suc k * (n + 6) + n + j \<in> A" using Cons.prems(7) by (metis Suc_less_eq length_Cons)
    then show "\<exists>j < 3. k * (n + 6) + n + j \<in> ?A" by (intro exI [of _ j]) (simp add: plen algebra_simps)
  qed
  obtain s2 qs where i: "send_run (length es * (n + 6)) s1 = Inr (s2, qs)" "rs_out s2 = []"
    "digits_of (snd (run_chunks recv_datagram ?r (map (Pair a) (nths qs ?A)))) = es"
    using Cons.IH [OF s1(1) _ s1(2) _ rb(1) fresh A] Cons.prems(2,4) s1(3) by auto
  have "length (e # es) * (n + 6) = (n + 6) + length es * (n + 6)" by simp
  then have "send_run (length (e # es) * (n + 6)) s = Inr (s2, ps @ qs)" using run1 i(1) by (simp only: send_run_add) simp
  moreover have "digits_of (snd (run_chunks recv_datagram r (map (Pair a) (nths (ps @ qs) A)))) = e # es"
    using rb(3) i(3) by (simp add: nths_append run_chunks_append case_prod_beta Let_def digits_of_append)
  ultimately show ?case using i(2) by blast
qed simp

lemma dtmf_arrives:
  assumes "rs_out s = []" and "rs_dtmf_pt s = Some d" and "0 \<le> d \<and> d < 128" and "rs_pt s mod 128 \<noteq> d" and "ms < 8200"
    and "send_dtmf digits ms s = (s1, None)" and "rs_dtmf_pt r = Some d" and "rs_last_ev r \<noteq> Some (rs_ts s)"
    and "n = max 1 (ms div 20)" and "\<forall>k < length digits. \<exists>j < 3. k * (n + 6) + n + j \<in> A"
  shows "\<exists>s2 ps. send_run (length digits * (n + 6)) s1 = Inr (s2, ps) \<and> rs_out s2 = [] \<and>
    map Some (digits_of (snd (run_chunks recv_datagram r (map (Pair a) (nths ps A))))) = map dtmf_event digits"
proof -
  let ?es = "map (the \<circ> dtmf_event) digits"
  have q: "queue_digits digits n s = (s1, None)" using assms(2,6) by (auto simp: send_dtmf_def assms(9) split: prod.splits)
  have all: "\<forall>x \<in> set digits. dtmf_event x \<noteq> None" and s1: "s1 = s\<lparr>rs_out := concat (map (\<lambda>e. event_items e n) ?es)\<rparr>"
    using queue_all [OF q] assms(1) by (auto simp: o_def)
  have small: "\<forall>e \<in> set ?es. e < 16" using all dtmf_event_small by fastforce
  have n: "0 < n" "n < 410" using assms(5,9) by auto
  have A: "\<forall>k < length (?es). \<exists>j < 3. k * (n + 6) + n + j \<in> A" using assms(10) by simp
  have cover: "map Some ?es = map dtmf_event digits" using all by auto
  obtain s2 ps where "send_run (length (?es) * (n + 6)) s1 = Inr (s2, ps)" "rs_out s2 = []"
    "digits_of (snd (run_chunks recv_datagram r (map (Pair a) (nths ps A)))) = ?es"
    using digits_arrive [of s1 n ?es d r A a] small n A assms(2-4,7,8) by (auto simp: s1)
  then have "send_run (length digits * (n + 6)) s1 = Inr (s2, ps)" "rs_out s2 = []"
    "map Some (digits_of (snd (run_chunks recv_datagram r (map (Pair a) (nths ps A))))) = map dtmf_event digits"
    using cover by simp_all
  then show ?thesis by blast
qed

text \<open>
  C16. Dialled digits survive a lossy path: of all the packets the sender makes for a string of digits any may be lost, as
  long as one of the three end packets of each digit arrives; the receiver then hears every digit, once, in their order.
\<close>

theorem dtmf_heard_once:
  assumes "rs_out s = []" and "rs_dtmf_pt s = Some d" and "0 \<le> d \<and> d < 128" and "rs_pt s mod 128 \<noteq> d" and "ms < 8200"
    and "send_dtmf digits ms s = (s1, None)" and "rs_dtmf_pt r = Some d" and "rs_last_ev r \<noteq> Some (rs_ts s)"
    and "n = max 1 (ms div 20)" and "\<forall>k < length digits. \<exists>j < 3. k * (n + 6) + n + j \<in> A"
  shows "\<exists>s2 ps. send_run (length digits * (n + 6)) s1 = Inr (s2, ps) \<and> rs_out s2 = [] \<and>
    map Some (digits_of (snd (run_chunks recv_datagram r (map (Pair a) (nths ps A))))) = map dtmf_event digits"
  by (rule dtmf_arrives [OF assms])

lemma dtmf_heard_once_witness:
  "\<exists>ps. digits_of (snd (run_chunks recv_datagram (new_session (lit ''10.0.0.2'', 4000) 8 PCMA (Some 101) True 7 65535 9)
      (map (Pair (lit ''10.0.0.1'', 4002)) (nths ps {8, 24})))) = [4, 11]"
proof -
  let ?s = "new_session (lit ''10.0.0.1'', 4002) 8 PCMA (Some 101) True 1 65534 2"
  let ?r = "new_session (lit ''10.0.0.2'', 4000) 8 PCMA (Some 101) True 7 65535 9"
  have ev: "dtmf_event 52 = Some 4" "dtmf_event 35 = Some 11" by code_simp+
  obtain s1 where s1: "send_dtmf [52, 35] 160 ?s = (s1, None)" by (auto simp: send_dtmf_def ev new_session_def)
  have A: "\<forall>k < length [52, 35 :: nat]. \<exists>j < 3. k * (8 + 6) + 8 + j \<in> {8, 24 :: nat}" by (auto simp: less_Suc_eq numeral_3_eq_3)
  let ?h = "\<lambda>ps. digits_of (snd (run_chunks recv_datagram ?r (map (Pair (lit ''10.0.0.1'', 4002)) (nths ps {8, 24}))))"
  have f: "rs_out ?s = []" "rs_dtmf_pt ?s = Some 101" "rs_pt ?s = 8" "rs_dtmf_pt ?r = Some 101" "rs_last_ev ?r = None"
    by (simp_all add: new_session_def)
  have "\<exists>s2 ps. send_run (length [52, 35 :: nat] * (8 + 6)) s1 = Inr (s2, ps) \<and> rs_out s2 = [] \<and>
      map Some (?h ps) = map dtmf_event [52, 35]"
    by (rule dtmf_heard_once [OF f(1,2) _ _ _ s1 f(4) _ _ A]) (simp_all add: f(3,5))
  then obtain ps where "map Some (?h ps) = map dtmf_event [52, 35]" by blast
  then have "map Some (?h ps) = map Some [4, 11]" by (simp only: list.map ev)
  then have "?h ps = [4, 11]" by (simp only: inj_map_eq_map inj_Some)
  then show ?thesis by blast
qed

text \<open>
  The duration of an event is packed in 16 bits: digits asked for longer than 8199 ms stop the sender at the first
  packet beyond, with an exception in its thread.
\<close>

lemma long_event_stops:
  assumes "rs_out s = EventItem ev (410 * FRAME) fin first # rest"
  shows "send_step ok s = Inl StructError"
  using assms by (simp add: send_step_def FRAME_def Let_def)

end
