(* ===== verification/Py_Unicode.thy ===== *)
theory Py_Unicode
  imports Phone_Data Py_Text
begin

text \<open>
  Unicode in the string operations of the standard library: \<open>str.isdigit\<close>, \<open>int(str)\<close>, and the part of \<open>lower\<close> and
  \<open>upper\<close> that can produce ASCII letters; the pieces of a string around a separator; and the UTF-8 encoder against the
  decoder. The tables are those of Unicode 15.0, which CPython 3.12 has.
\<close>

section \<open>Digits\<close>

text \<open>The first code points of the runs of ten decimal digits.\<close>

definition ND_ZEROS :: "nat list" where
  "ND_ZEROS =
    [48, 1632, 1776, 1984, 2406, 2534, 2662, 2790, 2918, 3046, 3174, 3302, 3430, 3558, 3664, 3792, 3872, 4160, 4240, 6112,
     6160, 6470, 6608, 6784, 6800, 6992, 7088, 7232, 7248, 42528, 43216, 43264, 43472, 43504, 43600, 44016, 65296, 66720,
     68912, 69734, 69872, 69942, 70096, 70384, 70736, 70864, 71248, 71360, 71472, 71904, 72016, 72784, 73040, 73120, 73552,
     92768, 92864, 93008, 120782, 120792, 120802, 120812, 120822, 123200, 123632, 124144, 125264, 130032]"

text \<open>The other characters \<open>isdigit\<close> accepts: superscripts, circled digits and the like.\<close>

definition OTHER_DIGITS :: "(nat \<times> nat) list" where
  "OTHER_DIGITS =
    [(178, 179), (185, 185), (4969, 4977), (6618, 6618), (8304, 8304), (8308, 8313), (8320, 8329), (9312, 9320), (9332, 9340),
     (9352, 9360), (9450, 9450), (9461, 9469), (9471, 9471), (10102, 10110), (10112, 10120), (10122, 10130), (68160, 68163),
     (69216, 69224), (69714, 69722), (127232, 127242)]"

definition digit_value :: "nat \<Rightarrow> nat option" where
  "digit_value c = map_option (\<lambda>z. c - z) (find (\<lambda>z. z \<le> c \<and> c \<le> z + 9) ND_ZEROS)"

definition py_isdigit :: "pystr \<Rightarrow> bool" where
  "py_isdigit s \<longleftrightarrow> s \<noteq> [] \<and> list_all (\<lambda>c. digit_value c \<noteq> None \<or> list_ex (\<lambda>(a, b). a \<le> c \<and> c \<le> b) OTHER_DIGITS) s"

lemma digit_value_ascii: "is_digit c \<Longrightarrow> digit_value c = Some (c - 48)"
  by (simp add: digit_value_def ND_ZEROS_def is_digit_def)

section \<open>Numbers\<close>

text \<open>
  \<open>int(s)\<close>: white space around, a sign, decimal digits of any script, single underscores between digits, and at most
  4300 digits.
\<close>

fun int_tail :: "nat \<Rightarrow> nat \<Rightarrow> pystr \<Rightarrow> (nat \<times> nat) option" where
  "int_tail v n [] = Some (v, n)"
| "int_tail v n (c # s) =
     (case digit_value c of
        Some d \<Rightarrow> int_tail (10 * v + d) (Suc n) s
      | None \<Rightarrow>
          if c \<noteq> 95 then None
          else (case s of
                  [] \<Rightarrow> None
                | c2 # s2 \<Rightarrow> (case digit_value c2 of None \<Rightarrow> None | Some d \<Rightarrow> int_tail (10 * v + d) (Suc n) s2)))"

definition int_of_str :: "pystr \<Rightarrow> pyerr + int" where
  "int_of_str s =
     (let t = strip_space s;
          (neg, u) = (case t of [] \<Rightarrow> (False, []) | c # r \<Rightarrow> if c = 45 then (True, r) else if c = 43 then (False, r) else (False, t))
      in case u of
           [] \<Rightarrow> Inl ValueError
         | c # r \<Rightarrow>
             (case digit_value c of
                None \<Rightarrow> Inl ValueError
              | Some d \<Rightarrow>
                  (case int_tail d 1 r of
                     None \<Rightarrow> Inl ValueError
                   | Some (v, n) \<Rightarrow> if 4300 < n then Inl ValueError else Inr (sign_of neg (int v)))))"

lemma int_tail_digits:
  assumes "list_all is_digit s"
  shows "int_tail v n s = Some (foldl (\<lambda>v c. 10 * v + (c - 48)) v s, n + length s)"
  using assms by (induction s arbitrary: v n) (auto simp: digit_value_ascii)

lemma strip_digits:
  assumes "list_all (\<lambda>c. \<not> is_space c) s"
  shows "strip_space s = s"
proof -
  have "dropWhile is_space t = t" if "list_all (\<lambda>c. \<not> is_space c) t" for t using that by (cases t) auto
  then show ?thesis using assms by (simp add: strip_space_def list_all_rev)
qed

lemma digit_not_space: "is_digit c \<Longrightarrow> \<not> is_space c"
  by (auto simp: is_digit_def is_space_def)

lemma int_of_digits:
  assumes "list_all is_digit s" and "s \<noteq> []" and "length s \<le> 4300"
  shows "int_of_str s = Inr (int (digits_val s))"
proof -
  obtain c r where s: "s = c # r" using assms(2) by (cases s) auto
  have c: "is_digit c" "c \<noteq> 45" "c \<noteq> 43" using assms(1) by (auto simp: s is_digit_def)
  have "list_all (\<lambda>c. \<not> is_space c) s" using assms(1) by (auto simp: list_all_iff digit_not_space)
  then have "strip_space s = s" by (rule strip_digits)
  then show ?thesis using c assms by (simp add: int_of_str_def s digit_value_ascii int_tail_digits digits_val_def sign_of_def)
qed

lemma length_dec_digits: "n < 10 ^ k \<Longrightarrow> 0 < k \<Longrightarrow> length (dec_digits n) \<le> k"
proof (induction n arbitrary: k rule: dec_digits.induct)
  case (1 n)
  show ?case
  proof (cases "n < 10")
    case True
    then show ?thesis using "1.prems"(2) by (subst dec_digits.simps) simp
  next
    case False
    obtain j where k: "k = Suc j" using "1.prems"(2) by (cases k) auto
    have j: "0 < j" using False "1.prems"(1) by (cases j) (auto simp: k)
    have "n div 10 < 10 ^ j" using "1.prems"(1) by (simp add: k less_mult_imp_div_less mult.commute)
    then show ?thesis using "1.IH" [OF False _ j] False by (subst dec_digits.simps) (simp add: k)
  qed
qed

lemma int_of_dec:
  assumes "n < 10 ^ k" and "0 < k" and "k \<le> 4300"
  shows "int_of_str (dec_digits n) = Inr (int n)"
  using int_of_digits [of "dec_digits n"] dec_digits_digits [of n] digits_val_dec [of n] length_dec_digits [OF assms(1,2)] assms(3) by simp

lemma isdigit_dec: "py_isdigit (dec_digits n)"
  using dec_digits_digits [of n] by (auto simp: py_isdigit_def list_all_iff digit_value_ascii)

section \<open>Stripped strings\<close>

definition trimmed :: "pystr \<Rightarrow> bool" where
  "trimmed t \<longleftrightarrow> t = [] \<or> \<not> is_space (hd t) \<and> \<not> is_space (List.last t)"

lemma strip_pad:
  assumes "list_all is_space a" and "list_all is_space b" and "trimmed t"
  shows "strip_space (a @ t @ b) = t"
proof -
  have drop: "dropWhile is_space (x @ y) = dropWhile is_space y" if "list_all is_space x" for x y
    using that by (induction x) auto
  have keep: "dropWhile is_space (x @ y) = x @ y" if "x \<noteq> []" "\<not> is_space (hd x)" for x y using that by (cases x) auto
  show ?thesis
  proof (cases "t = []")
    case True
    have none: "dropWhile is_space x = []" if "list_all is_space x" for x using that by (induction x) auto
    show ?thesis unfolding strip_space_def True append_Nil drop [OF assms(1)] none [OF assms(2)] by simp
  next
    case False
    then have t: "\<not> is_space (hd t)" "\<not> is_space (hd (rev t))" using assms(3) by (simp_all add: trimmed_def hd_rev)
    have "list_all is_space (rev b)" using assms(2) by simp
    then show ?thesis using drop [OF assms(1), of "t @ b"] keep [OF False t(1), of b] drop [of "rev b" "rev t"] keep [of "rev t" "[]"] False t(2)
      by (simp add: strip_space_def)
  qed
qed

lemma strip_shape: "\<exists>a b. s = a @ strip_space s @ b \<and> list_all is_space a \<and> list_all is_space b \<and> trimmed (strip_space s)"
proof -
  let ?d = "dropWhile is_space s"
  let ?e = "dropWhile is_space (rev ?d)"
  have st: "strip_space s = rev ?e" by (simp add: strip_space_def)
  have s: "s = takeWhile is_space s @ ?d" by simp
  have "rev ?d = takeWhile is_space (rev ?d) @ ?e" by simp
  then have d: "?d = rev ?e @ rev (takeWhile is_space (rev ?d))" by (metis rev_append rev_rev_ident)
  have e: "?e = [] \<or> \<not> is_space (hd ?e)" using hd_dropWhile [of is_space "rev ?d"] dropWhile_eq_Nil_conv [of is_space "rev ?d"] by blast
  have h: "?d = [] \<or> \<not> is_space (hd ?d)" using hd_dropWhile [of is_space s] dropWhile_eq_Nil_conv [of is_space s] by blast
  have hd: "hd ?d = hd (rev ?e)" if "rev ?e \<noteq> []" using that d hd_append2 by metis
  have "trimmed (strip_space s)" unfolding st trimmed_def using e h hd d by (metis Nil_is_append_conv last_rev rev_is_Nil_conv)
  moreover have "list_all is_space (takeWhile is_space x)" for x by (induction x) auto
  ultimately show ?thesis using s d st by (metis list_all_rev)
qed

lemma strip_trimmed: "trimmed (strip_space s)"
  using strip_shape [of s] by blast

lemma trimmed_strip [simp]: "trimmed s \<Longrightarrow> strip_space s = s"
  using strip_pad [of "[]" "[]" s] by simp

lemma strip_idem [simp]: "strip_space (strip_space s) = strip_space s"
  by (simp add: strip_trimmed)

lemma set_strip: "set (strip_space s) \<subseteq> set s"
  using strip_shape [of s] by (metis set_append sup.coboundedI1 sup.coboundedI2 sup_ge1 sup_ge2 order_refl)

section \<open>Case\<close>

text \<open>
  Names are compared with ASCII names, so of the characters outside ASCII only those matter whose lower or upper case
  has an ASCII letter in it; the others are left as they are.
\<close>

definition lower_char :: "nat \<Rightarrow> pystr" where
  "lower_char c = (if 65 \<le> c \<and> c \<le> 90 then [c + 32] else if c = 0x212A then [107] else if c = 0x130 then [105, 0x307] else [c])"

definition UPPER_SPECIAL :: "(nat \<times> pystr) list" where
  "UPPER_SPECIAL =
    [(0xDF, lit ''SS''), (0x131, lit ''I''), (0x149, 0x2BC # lit ''N''), (0x17F, lit ''S''), (0x1F0, lit ''J'' @ [0x30C]),
     (0x1E96, lit ''H'' @ [0x331]), (0x1E97, lit ''T'' @ [0x308]), (0x1E98, lit ''W'' @ [0x30A]), (0x1E99, lit ''Y'' @ [0x30A]),
     (0x1E9A, lit ''A'' @ [0x2BE]), (0xFB00, lit ''FF''), (0xFB01, lit ''FI''), (0xFB02, lit ''FL''), (0xFB03, lit ''FFI''),
     (0xFB04, lit ''FFL''), (0xFB05, lit ''ST''), (0xFB06, lit ''ST'')]"

definition upper_char :: "nat \<Rightarrow> pystr" where
  "upper_char c = (if 97 \<le> c \<and> c \<le> 122 then [c - 32] else case map_of UPPER_SPECIAL c of Some u \<Rightarrow> u | None \<Rightarrow> [c])"

definition py_lower :: "pystr \<Rightarrow> pystr" where
  "py_lower s = concat (map lower_char s)"

definition py_upper :: "pystr \<Rightarrow> pystr" where
  "py_upper s = concat (map upper_char s)"

section \<open>Cutting strings\<close>

text \<open>\<open>s.partition(sep)\<close>, \<open>None\<close> where the separator is missing; \<open>s.startswith(p)\<close>; \<open>sep.join(parts)\<close>; \<open>s.replace("\r\n", "\n")\<close>.\<close>

fun cut_at :: "'a list \<Rightarrow> 'a list \<Rightarrow> ('a list \<times> 'a list) option" where
  "cut_at p [] = (if p = [] then Some ([], []) else None)"
| "cut_at p (c # s) =
     (if take (length p) (c # s) = p then Some ([], drop (length p) (c # s))
      else map_option (\<lambda>(a, b). (c # a, b)) (cut_at p s))"

definition partition_at :: "pystr \<Rightarrow> nat \<Rightarrow> pystr \<times> pystr" where
  "partition_at s c = (takeWhile (\<lambda>x. x \<noteq> c) s, drop 1 (dropWhile (\<lambda>x. x \<noteq> c) s))"

definition starts_with :: "'a list \<Rightarrow> 'a list \<Rightarrow> bool" where
  "starts_with p s \<longleftrightarrow> take (length p) s = p"

fun join_with :: "'a list \<Rightarrow> 'a list list \<Rightarrow> 'a list" where
  "join_with sep [] = []"
| "join_with sep [x] = x"
| "join_with sep (x # y # xs) = x @ sep @ join_with sep (y # xs)"

fun crlf_lf :: "pystr \<Rightarrow> pystr" where
  "crlf_lf [] = []"
| "crlf_lf [c] = [c]"
| "crlf_lf (c # d # s) = (if c = 13 \<and> d = 10 then 10 # crlf_lf s else c # crlf_lf (d # s))"

lemma cut_at_first:
  assumes "\<forall>i < length h. take (length p) (drop i (h @ p @ b)) \<noteq> p"
  shows "cut_at p (h @ p @ b) = Some (h, b)"
  using assms
proof (induction h)
  case Nil
  then show ?case by (cases "p @ b") (auto dest: sym)
next
  case (Cons c h)
  have "take (length p) ((c # h) @ p @ b) \<noteq> p" using Cons.prems by (metis drop0 length_greater_0_conv list.distinct(1))
  moreover have "cut_at p (h @ p @ b) = Some (h, b)"
  proof (rule Cons.IH, intro allI impI)
    fix i assume "i < length h"
    then show "take (length p) (drop i (h @ p @ b)) \<noteq> p" using Cons.prems [rule_format, of "Suc i"] by simp
  qed
  ultimately show ?case by (simp del: take_Suc_Cons)
qed

lemma partition_at_none: "c \<notin> set s \<Longrightarrow> partition_at s c = (s, [])"
  by (induction s) (auto simp: partition_at_def)

lemma partition_at_cut: "c \<notin> set s \<Longrightarrow> partition_at (s @ c # t) c = (s, t)"
  by (induction s) (auto simp: partition_at_def)

lemma split_join:
  assumes "xs \<noteq> []" and "\<forall>x \<in> set xs. c \<notin> set x"
  shows "split_at_char c (join_with [c] xs) = xs"
  using assms
proof (induction "[c]" xs rule: join_with.induct)
  case (2 x)
  have "split_at_char c x = [x]" if "c \<notin> set x" for x using that by (induction x) auto
  then show ?case using 2 by simp
next
  case (3 x y xs)
  have "split_at_char c (x @ c # t) = x # split_at_char c t" if "c \<notin> set x" for x t using that by (induction x) auto
  then show ?case using 3 by simp
qed simp

lemma crlf_join:
  assumes "\<forall>x \<in> set xs. 10 \<notin> set x"
  shows "crlf_lf (join_with [13, 10] xs) = join_with [10] xs"
proof -
  have keep: "crlf_lf x = x" if "10 \<notin> set x" for x using that by (induction x rule: crlf_lf.induct) auto
  have step: "crlf_lf (x @ 13 # 10 # t) = x @ 10 # crlf_lf t" if "10 \<notin> set x" for x t
    using that
  proof (induction x rule: crlf_lf.induct)
    case (2 c)
    then show ?case by (cases "c = 13") auto
  qed auto
  show ?thesis using assms by (induction "[13, 10 :: nat]" xs rule: join_with.induct) (auto simp: keep step)
qed

lemma lines_join:
  assumes "xs \<noteq> []" and "\<forall>x \<in> set xs. 10 \<notin> set x"
  shows "split_at_char 10 (crlf_lf (join_with [13, 10] xs)) = xs"
  using split_join [OF assms] crlf_join [OF assms(2)] by simp

lemma join_last: "xs \<noteq> [] \<Longrightarrow> List.last xs \<noteq> [] \<Longrightarrow> List.last (join_with sep xs) = List.last (List.last xs)"
proof (induction sep xs rule: join_with.induct)
  case (3 sep x y xs)
  have "join_with sep (y # xs) \<noteq> []" using 3(3) by (induction sep "y # xs" arbitrary: y xs rule: join_with.induct) auto
  then show ?case using 3 by simp
qed auto

lemma lit_eq: "(lit a = lit b) = (a = b)"
proof -
  have "inj (of_char :: char \<Rightarrow> nat)" by (rule injI) simp
  then show ?thesis by (simp add: lit_def inj_map_eq_map)
qed

lemma scalar_lit [simp]: "list_all scalar (lit s)"
  by (auto simp: lit_def list_all_iff scalar_def is_high_def is_low_def of_char_def)

section \<open>UTF-8\<close>

text \<open>What the encoder writes for a character, the decoder reads as that character.\<close>

lemma byte_between: "a + x < 256 \<Longrightarrow> unat (of_nat (a + x) :: byte) = a + x"
  by (rule unat_of_nat_byte)

lemma byte_le: "n < 256 \<Longrightarrow> (numeral k \<le> (of_nat n :: byte)) = (unat (numeral k :: byte) \<le> n)"
  "n < 256 \<Longrightarrow> ((of_nat n :: byte) \<le> numeral k) = (n \<le> unat (numeral k :: byte))"
  "n < 256 \<Longrightarrow> ((of_nat n :: byte) < numeral k) = (n < unat (numeral k :: byte))"
  "n < 256 \<Longrightarrow> ((of_nat n :: byte) = numeral k) = (n = unat (numeral k :: byte))"
  by (simp_all add: word_le_nat_alt word_less_nat_alt word_unat_eq_iff)

lemma cont_bytes:
  fixes x :: nat
  assumes "x < 64"
  shows "(0x80 \<le> (of_nat (0x80 + x) :: byte)) = True" "((of_nat (0x80 + x) :: byte) \<le> 0xBF) = True"
    "unat (of_nat (0x80 + x) :: byte) mod 64 = x"
proof -
  have n: "0x80 + x < 256" using assms by simp
  show "(0x80 \<le> (of_nat (0x80 + x) :: byte)) = True" "((of_nat (0x80 + x) :: byte) \<le> 0xBF) = True"
    using assms n by (simp_all only: byte_le) simp_all
  have "unat (of_nat (0x80 + x) :: byte) = 0x80 + x" by (rule byte_between [OF n])
  then show "unat (of_nat (0x80 + x) :: byte) mod 64 = x" using assms mod_mult_self2 [of x 64 2] by (simp add: add.commute)
qed

lemma lead2:
  assumes "2 \<le> a" and "a < 32"
  shows "utf8_lead (of_nat (0xC0 + a)) = Some (0x80, 0xBF, 1)" "\<not> (of_nat (0xC0 + a) :: byte) < 0x80"
    "unat (of_nat (0xC0 + a) :: byte) mod 32 = a"
proof -
  have n: "0xC0 + a < 256" using assms by simp
  show "utf8_lead (of_nat (0xC0 + a)) = Some (0x80, 0xBF, 1)"
    using assms n by (simp only: utf8_lead_def byte_le) simp
  show "\<not> (of_nat (0xC0 + a) :: byte) < 0x80" using assms n by (simp only: byte_le) simp
  have "unat (of_nat (0xC0 + a) :: byte) = 0xC0 + a" by (rule byte_between [OF n])
  then show "unat (of_nat (0xC0 + a) :: byte) mod 32 = a" using assms mod_mult_self2 [of a 32 6] by (simp add: add.commute)
qed

lemma lead3:
  assumes "a < 16"
  shows "utf8_lead (of_nat (0xE0 + a)) = Some (if a = 0 then 0xA0 else 0x80, if a = 13 then 0x9F else 0xBF, 2)"
    "\<not> (of_nat (0xE0 + a) :: byte) < 0x80" "unat (of_nat (0xE0 + a) :: byte) mod 16 = a"
proof -
  have n: "0xE0 + a < 256" using assms by simp
  show "utf8_lead (of_nat (0xE0 + a)) = Some (if a = 0 then 0xA0 else 0x80, if a = 13 then 0x9F else 0xBF, 2)"
    using assms n by (simp only: utf8_lead_def byte_le) auto
  show "\<not> (of_nat (0xE0 + a) :: byte) < 0x80" using assms n by (simp only: byte_le) simp
  have "unat (of_nat (0xE0 + a) :: byte) = 0xE0 + a" by (rule byte_between [OF n])
  then show "unat (of_nat (0xE0 + a) :: byte) mod 16 = a" using assms mod_mult_self2 [of a 16 14] by (simp add: add.commute)
qed

lemma lead4:
  assumes "a < 5"
  shows "utf8_lead (of_nat (0xF0 + a)) = Some (if a = 0 then 0x90 else 0x80, if a = 4 then 0x8F else 0xBF, 3)"
    "\<not> (of_nat (0xF0 + a) :: byte) < 0x80" "unat (of_nat (0xF0 + a) :: byte) mod 8 = a"
proof -
  have n: "0xF0 + a < 256" using assms by simp
  show "utf8_lead (of_nat (0xF0 + a)) = Some (if a = 0 then 0x90 else 0x80, if a = 4 then 0x8F else 0xBF, 3)"
    using assms n by (simp only: utf8_lead_def byte_le) auto
  show "\<not> (of_nat (0xF0 + a) :: byte) < 0x80" using assms n by (simp only: byte_le) simp
  have "unat (of_nat (0xF0 + a) :: byte) = 0xF0 + a" by (rule byte_between [OF n])
  then show "unat (of_nat (0xF0 + a) :: byte) mod 8 = a" using assms mod_mult_self2 [of a 8 30] by (simp add: add.commute)
qed

lemma cont_range:
  fixes x :: nat
  assumes "x < 64"
  shows "(0xA0 \<le> (of_nat (0x80 + x) :: byte)) = (32 \<le> x)" "((of_nat (0x80 + x) :: byte) \<le> 0x9F) = (x < 32)"
    "(0x90 \<le> (of_nat (0x80 + x) :: byte)) = (16 \<le> x)" "((of_nat (0x80 + x) :: byte) \<le> 0x8F) = (x < 16)"
proof -
  have n: "0x80 + x < 256" using assms by simp
  show "(0xA0 \<le> (of_nat (0x80 + x) :: byte)) = (32 \<le> x)" "((of_nat (0x80 + x) :: byte) \<le> 0x9F) = (x < 32)"
    "(0x90 \<le> (of_nat (0x80 + x) :: byte)) = (16 \<le> x)" "((of_nat (0x80 + x) :: byte) \<le> 0x8F) = (x < 16)"
    using n by (simp_all only: byte_le) auto
qed

lemma utf8_char_read:
  assumes "scalar c"
  shows "utf8_chars (utf8_char c @ r) = Some c # utf8_chars r"
proof -
  have c: "c < 0x110000" "\<not> (0xD800 \<le> c \<and> c \<le> 0xDFFF)" using assms by (auto simp: scalar_def is_high_def is_low_def)
  consider "c < 0x80" | "0x80 \<le> c" "c < 0x800" | "0x800 \<le> c" "c < 0x10000" | "0x10000 \<le> c" by linarith
  then show ?thesis
  proof cases
    case 1
    then have "(of_nat c :: byte) < 0x80" by (simp add: word_less_nat_alt)
    then show ?thesis using 1 by (subst utf8_chars.simps) (simp add: utf8_char_def)
  next
    case 2
    define a b where "a = c div 64" and "b = c mod 64"
    have ab: "2 \<le> a" "a < 32" "b < 64" "c = a * 64 + b" using 2 by (simp_all add: a_def b_def less_mult_imp_div_less)
    define x y :: byte where "x = of_nat (0xC0 + a)" and "y = of_nat (0x80 + b)"
    have u: "utf8_char c = [x, y]" using 2 by (simp add: utf8_char_def a_def b_def x_def y_def)
    have x: "utf8_lead x = Some (0x80, 0xBF, 1)" "\<not> x < 0x80" "unat x mod 32 = a" unfolding x_def by (fact lead2 [OF ab(1,2)])+
    have y: "0x80 \<le> y" "y \<le> 0xBF" "unat y mod 64 = b" using cont_bytes [OF ab(3)] unfolding y_def by blast+
    show ?thesis unfolding u by (subst utf8_chars.simps) (simp add: x y utf8_value_def ab(4))
  next
    case 3
    define a b d where "a = c div 4096" and "b = c div 64 mod 64" and "d = c mod 64"
    have "c = (c div 4096 * 64 + c div 64 mod 64) * 64 + c mod 64"
      using div_mult_mod_eq [of c 64] div_mult_mod_eq [of "c div 64" 64] div_mult2_eq [of c 64 64] by simp
    then have ab: "a < 16" "b < 64" "d < 64" "c = (a * 64 + b) * 64 + d"
      using 3 by (simp_all add: a_def b_def d_def less_mult_imp_div_less)
    have ok: "a = 0 \<Longrightarrow> 32 \<le> b" "a = 13 \<Longrightarrow> b < 32" using 3 c(2) ab by auto
    define x y z :: byte where "x = of_nat (0xE0 + a)" and "y = of_nat (0x80 + b)" and "z = of_nat (0x80 + d)"
    have u: "utf8_char c = [x, y, z]" using 3 by (simp add: utf8_char_def a_def b_def d_def x_def y_def z_def)
    have x: "utf8_lead x = Some (if a = 0 then 0xA0 else 0x80, if a = 13 then 0x9F else 0xBF, 2)" "\<not> x < 0x80" "unat x mod 16 = a"
      unfolding x_def by (fact lead3 [OF ab(1)])+
    have y: "0x80 \<le> y" "y \<le> 0xBF" "unat y mod 64 = b" "(0xA0 \<le> y) = (32 \<le> b)" "(y \<le> 0x9F) = (b < 32)"
      using cont_bytes [OF ab(2)] cont_range [OF ab(2)] unfolding y_def by blast+
    have z: "0x80 \<le> z" "z \<le> 0xBF" "unat z mod 64 = d" using cont_bytes [OF ab(3)] unfolding z_def by blast+
    show ?thesis unfolding u
      using ok by (subst utf8_chars.simps) (simp add: x y z utf8_value_def ab(4) numeral_2_eq_2)
  next
    case 4
    define a b d e where "a = c div 262144" and "b = c div 4096 mod 64" and "d = c div 64 mod 64" and "e = c mod 64"
    have "c = ((c div 262144 * 64 + c div 4096 mod 64) * 64 + c div 64 mod 64) * 64 + c mod 64"
      using div_mult_mod_eq [of c 64] div_mult_mod_eq [of "c div 64" 64] div_mult2_eq [of c 64 64]
        div_mult_mod_eq [of "c div 4096" 64] div_mult2_eq [of c 4096 64] by simp
    then have ab: "a < 5" "b < 64" "d < 64" "e < 64" "c = ((a * 64 + b) * 64 + d) * 64 + e"
      using c(1) by (simp_all add: a_def b_def d_def e_def less_mult_imp_div_less)
    have ok: "a = 0 \<Longrightarrow> 16 \<le> b" "a = 4 \<Longrightarrow> b < 16" using 4 c(1) ab by auto
    define x y z w :: byte where "x = of_nat (0xF0 + a)" and "y = of_nat (0x80 + b)" and "z = of_nat (0x80 + d)" and "w = of_nat (0x80 + e)"
    have u: "utf8_char c = [x, y, z, w]" using 4 by (simp add: utf8_char_def a_def b_def d_def e_def x_def y_def z_def w_def)
    have x: "utf8_lead x = Some (if a = 0 then 0x90 else 0x80, if a = 4 then 0x8F else 0xBF, 3)" "\<not> x < 0x80" "unat x mod 8 = a"
      unfolding x_def by (fact lead4 [OF ab(1)])+
    have y: "0x80 \<le> y" "y \<le> 0xBF" "unat y mod 64 = b" "(0x90 \<le> y) = (16 \<le> b)" "(y \<le> 0x8F) = (b < 16)"
      using cont_bytes [OF ab(2)] cont_range [OF ab(2)] unfolding y_def by blast+
    have z: "0x80 \<le> z" "z \<le> 0xBF" "unat z mod 64 = d" using cont_bytes [OF ab(3)] unfolding z_def by blast+
    have w: "0x80 \<le> w" "w \<le> 0xBF" "unat w mod 64 = e" using cont_bytes [OF ab(4)] unfolding w_def by blast+
    show ?thesis unfolding u
      using ok by (subst utf8_chars.simps) (simp add: x y z w utf8_value_def ab(5) numeral_3_eq_3)
  qed
qed

definition utf8_bytes :: "pystr \<Rightarrow> bytes" where
  "utf8_bytes s = concat (map utf8_char s)"

lemma utf8_read:
  assumes "list_all scalar s"
  shows "utf8_chars (utf8_bytes s) = map Some s"
  using assms by (induction s) (simp_all add: utf8_bytes_def utf8_char_read utf8_chars.simps [of "[]"])

lemma utf8_replace_read: "list_all scalar s \<Longrightarrow> utf8_replace (utf8_bytes s) = s"
  by (simp add: utf8_replace_def utf8_read o_def)

end
