(* ===== verification/Sip_Message.thy ===== *)
theory Sip_Message
  imports Py_Unicode
begin

text \<open>
  SIP messages in \<^verbatim>\<open>voip/s22-sip.py\<close>: header names and their compact forms, the comma lists, the class
  \<open>SipMessage\<close> with its parser and its writer, name-addr values, parameters and \<open>Via\<close> values.
\<close>

section \<open>Headers\<close>

definition COMPACT :: "(pystr \<times> pystr) list" where
  "COMPACT = map (\<lambda>(a, b). (lit a, lit b))
    [(''v'', ''via''), (''f'', ''from''), (''t'', ''to''), (''i'', ''call-id''), (''m'', ''contact''), (''l'', ''content-length''),
     (''c'', ''content-type''), (''k'', ''supported''), (''s'', ''subject''), (''e'', ''content-encoding''), (''o'', ''event''),
     (''r'', ''refer-to'')]"

definition MULTI :: "pystr list" where
  "MULTI = map lit [''via'', ''contact'', ''route'', ''record-route'', ''allow'', ''supported'', ''require'']"

definition canon :: "pystr \<Rightarrow> pystr" where
  "canon name = (let n = py_lower (strip_space name) in case map_of COMPACT n of Some m \<Rightarrow> m | None \<Rightarrow> n)"

fun commas_from :: "pystr \<Rightarrow> bool \<Rightarrow> bool \<Rightarrow> pystr \<Rightarrow> pystr list" where
  "commas_from cur quote angle [] = (if strip_space cur \<noteq> [] then [strip_space cur] else [])"
| "commas_from cur quote angle (c # s) =
     (let quote1 = (if c = 34 then \<not> quote else quote);
          angle1 = (if c = 34 then angle else if c = 60 \<and> \<not> quote then True else if c = 62 \<and> \<not> quote then False else angle)
      in if c = 44 \<and> \<not> quote1 \<and> \<not> angle1 then strip_space cur # commas_from [] quote1 angle1 s
         else commas_from (cur @ [c]) quote1 angle1 s)"

definition split_commas :: "pystr \<Rightarrow> pystr list" where
  "split_commas value = commas_from [] False False value"

section \<open>Messages\<close>

record sip_msg =
  sm_start :: pystr
  sm_headers :: "(pystr \<times> pystr) list"
  sm_body :: bytes

definition new_msg :: "pystr \<Rightarrow> (pystr \<times> pystr) list \<Rightarrow> bytes \<Rightarrow> sip_msg" where
  "new_msg start hs body = \<lparr>sm_start = strip_space start, sm_headers = hs, sm_body = body\<rparr>"

definition is_request :: "sip_msg \<Rightarrow> bool" where
  "is_request m \<longleftrightarrow> \<not> starts_with (lit ''SIP/2.0 '') (sm_start m)"

text \<open>
  A header that is a comma list answers its first element; a value of white space alone has none, and the index raises.
\<close>

definition get_header :: "string \<Rightarrow> sip_msg \<Rightarrow> pyerr + pystr option" where
  "get_header name m =
     (let n = canon (lit name) in
      case find (\<lambda>(k, v). canon k = n) (sm_headers m) of
        None \<Rightarrow> Inr None
      | Some (k, v) \<Rightarrow>
          if n \<in> set MULTI \<and> v \<noteq> [] then try_r (item (split_commas v) 0) (\<lambda>x. Inr (Some x)) else Inr (Some v))"

definition get_all :: "string \<Rightarrow> sip_msg \<Rightarrow> pystr list" where
  "get_all name m =
     (let n = canon (lit name) in
      concat (map (\<lambda>(k, v). if canon k = n then (if n \<in> set MULTI then split_commas v else [v]) else []) (sm_headers m)))"

definition remove_header :: "string \<Rightarrow> sip_msg \<Rightarrow> sip_msg" where
  "remove_header name m = m\<lparr>sm_headers := filter (\<lambda>(k, v). canon k \<noteq> canon (lit name)) (sm_headers m)\<rparr>"

definition add_header :: "string \<Rightarrow> pystr \<Rightarrow> sip_msg \<Rightarrow> sip_msg" where
  "add_header name v m = m\<lparr>sm_headers := sm_headers m @ [(lit name, v)]\<rparr>"

definition set_header :: "string \<Rightarrow> pystr \<Rightarrow> sip_msg \<Rightarrow> sip_msg" where
  "set_header name v m = add_header name v (remove_header name m)"

text \<open>\<open>cseq\<close>: the number and the method; \<open>method\<close>, \<open>uri\<close>, \<open>status\<close> and \<open>reason\<close> of the start line.\<close>

definition cseq :: "sip_msg \<Rightarrow> pyerr + int \<times> pystr" where
  "cseq m =
     try_r (get_header ''cseq'' m) (\<lambda>h.
       let v = (case h of None \<Rightarrow> lit ''0 ?'' | Some v \<Rightarrow> if v = [] then lit ''0 ?'' else v);
           (num, meth) = partition_at v 32
       in try_r (int_of_str num) (\<lambda>n. Inr (n, py_upper (strip_space meth))))"

definition sip_method :: "sip_msg \<Rightarrow> pyerr + pystr" where
  "sip_method m =
     (if is_request m then Inr (py_upper (fst (partition_at (sm_start m) 32))) else try_r (cseq m) (\<lambda>(n, meth). Inr meth))"

definition msg_uri :: "sip_msg \<Rightarrow> pyerr + pystr" where
  "msg_uri m = item (split_at_char 32 (sm_start m)) 1"

definition status :: "sip_msg \<Rightarrow> pyerr + int" where
  "status m = (if is_request m then Inr 0 else try_r (item (split_at_char 32 (sm_start m)) 1) int_of_str)"

definition reason_phrase :: "sip_msg \<Rightarrow> pystr" where
  "reason_phrase m = snd (partition_at (snd (partition_at (sm_start m) 32)) 32)"

text \<open>
  \<open>to_bytes\<close> sets the length of the body in the message itself and writes it; a lone surrogate in a header raises.
\<close>

definition with_length :: "sip_msg \<Rightarrow> sip_msg" where
  "with_length m = set_header ''Content-Length'' (dec_digits (length (sm_body m))) m"

definition header_line :: "pystr \<times> pystr \<Rightarrow> pystr" where
  "header_line h = fst h @ lit '': '' @ snd h"

definition to_bytes :: "sip_msg \<Rightarrow> pyerr + bytes" where
  "to_bytes m =
     try_r (utf8_encode (join_with [13, 10] (sm_start m # map header_line (sm_headers (with_length m)))))
       (\<lambda>head. Inr (head @ [13, 10, 13, 10] @ sm_body m))"

text \<open>The lines below the start line; a line that begins with white space goes on with the header before it.\<close>

definition header_step :: "(pystr \<times> pystr) list \<Rightarrow> pystr \<Rightarrow> (pystr \<times> pystr) list" where
  "header_step hs line =
     (if (take 1 line = [32] \<or> take 1 line = [9]) \<and> hs \<noteq> [] then
        butlast hs @ [(fst (List.last hs), snd (List.last hs) @ [32] @ strip_space line)]
      else if 58 \<in> set line then hs @ [(strip_space (fst (partition_at line 58)), strip_space (snd (partition_at line 58)))]
      else hs)"

definition start_ok :: "pystr \<Rightarrow> bool" where
  "start_ok s \<longleftrightarrow>
     (let parts = split_at_char 32 s in
      starts_with (lit ''SIP/2.0 '') s \<and> 2 \<le> length parts \<and> py_isdigit (parts ! 1) \<or> length parts = 3 \<and> parts ! 2 = lit ''SIP/2.0'')"

definition parse_msg :: "bytes \<Rightarrow> pyerr + sip_msg" where
  "parse_msg data =
     (let (head, body) =
        (case cut_at [13, 10, 13, 10] data of
           Some hb \<Rightarrow> hb
         | None \<Rightarrow> (case cut_at [10, 10] data of Some hb \<Rightarrow> hb | None \<Rightarrow> (data, [])));
          lines = dropWhile (\<lambda>l. strip_space l = []) (split_at_char 10 (crlf_lf (utf8_replace head)))
      in case lines of
           [] \<Rightarrow> Inl ValueError
         | l # rest \<Rightarrow>
             if \<not> start_ok (strip_space l) then Inl ValueError
             else
               (let msg = new_msg (strip_space l) (foldl header_step [] rest) body in
                try_r (get_header ''content-length'' msg) (\<lambda>cl.
                  case cl of
                    None \<Rightarrow> Inr msg
                  | Some n \<Rightarrow>
                      if py_isdigit (strip_space n) then
                        try_r (int_of_str n) (\<lambda>k. Inr (msg\<lparr>sm_body := take (nat k) body\<rparr>))
                      else Inr msg)))"

section \<open>Values\<close>

definition strip_chars :: "nat list \<Rightarrow> pystr \<Rightarrow> pystr" where
  "strip_chars cs s = rev (dropWhile (\<lambda>x. x \<in> set cs) (rev (dropWhile (\<lambda>x. x \<in> set cs) s)))"

definition parse_params :: "pystr \<Rightarrow> (pystr, pystr) dict" where
  "parse_params s =
     foldl (\<lambda>d p. let q = strip_space p in
              if q = [] then d
              else (let (k, v) = partition_at q 61 in AList.update (py_lower (strip_space k)) (strip_chars [34] (strip_space v)) d))
       [] (split_at_char 59 s)"

definition parse_nameaddr :: "pystr \<Rightarrow> pystr \<times> pystr \<times> (pystr, pystr) dict" where
  "parse_nameaddr value =
     (let v = strip_space value in
      if 60 \<in> set v then
        (let (display, rest) = partition_at v 60; (uri, params) = partition_at rest 62
         in (strip_chars [34] (strip_space display), strip_space uri, parse_params params))
      else (let (uri, params) = partition_at v 59 in ([], strip_space uri, parse_params params)))"

definition tag_of :: "pystr option \<Rightarrow> pystr option" where
  "tag_of v = (case v of None \<Rightarrow> None | Some s \<Rightarrow> if s = [] then None else map_of (snd (snd (parse_nameaddr s))) (lit ''tag''))"

record via =
  via_proto :: pystr
  via_host :: pystr
  via_port :: int
  via_params :: "(pystr, pystr) dict"

definition parse_via :: "pystr \<Rightarrow> pyerr + via" where
  "parse_via value =
     (let (proto, rest) = partition_at (strip_space value) 32;
          (sent_by, params) = partition_at (strip_space rest) 59;
          (host, port) = partition_at (strip_space sent_by) 58
      in try_r (if py_isdigit port then int_of_str port else Inr 5060)
           (\<lambda>p. Inr \<lparr>via_proto = proto, via_host = host, via_port = p, via_params = parse_params params\<rparr>))"

section \<open>What is written is what is read\<close>

definition header_ok :: "pystr \<times> pystr \<Rightarrow> bool" where
  "header_ok h \<longleftrightarrow> trimmed (fst h) \<and> trimmed (snd h) \<and> 58 \<notin> set (fst h) \<and> 10 \<notin> set (fst h) \<and>
     10 \<notin> set (snd h) \<and> list_all scalar (fst h) \<and> list_all scalar (snd h)"

definition msg_ok :: "sip_msg \<Rightarrow> bool" where
  "msg_ok m \<longleftrightarrow> start_ok (sm_start m) \<and> trimmed (sm_start m) \<and> 10 \<notin> set (sm_start m) \<and>
     list_all scalar (sm_start m) \<and> list_all header_ok (sm_headers m) \<and> length (sm_body m) < 65536"

text \<open>No line feed is the last character or followed by a carriage return, so the empty line after the head is the first.\<close>

fun lf_inside :: "'a \<Rightarrow> 'a \<Rightarrow> 'a list \<Rightarrow> bool" where
  "lf_inside lf cr [] = True"
| "lf_inside lf cr [c] \<longleftrightarrow> c \<noteq> lf"
| "lf_inside lf cr (c # d # s) \<longleftrightarrow> (c = lf \<longrightarrow> d \<noteq> cr) \<and> lf_inside lf cr (d # s)"

lemma lf_inside_nth: "lf_inside lf cr h \<Longrightarrow> i < length h \<Longrightarrow> h ! i = lf \<Longrightarrow> Suc i < length h \<and> h ! Suc i \<noteq> cr"
proof (induction lf cr h arbitrary: i rule: lf_inside.induct)
  case (3 lf cr c d s)
  then show ?case by (cases i) auto
qed auto

lemma cut_head:
  assumes "lf_inside 10 13 (h :: bytes)"
  shows "cut_at [13, 10, 13, 10] (h @ [13, 10, 13, 10] @ b) = Some (h, b)"
proof (rule cut_at_first, intro allI impI notI)
  fix i assume i: "i < length h" and eq: "take (length [13, 10, 13, 10 :: byte]) (drop i (h @ [13, 10, 13, 10] @ b)) = [13, 10, 13, 10]"
  let ?s = "h @ [13, 10, 13, 10] @ b"
  have nt: "take 4 (drop i s) ! k = s ! (i + k)" if "k < 4" "i < length s" for k and s :: bytes using that by simp
  have four: "length [13, 10, 13, 10 :: byte] = 4" by simp
  have eq4: "take 4 (drop i ?s) = [13, 10, 13, 10]" using eq unfolding four .
  have at: "?s ! (i + k) = [13, 10, 13, 10] ! k" if "k < 4" for k
    using nt [OF that, of ?s] i unfolding eq4 by simp
  show False
  proof (cases "Suc i < length h")
    case True
    have "h ! Suc i = 10" using at [of 1] True by (simp add: nth_append)
    then have "Suc (Suc i) < length h \<and> h ! Suc (Suc i) \<noteq> 13" by (rule lf_inside_nth [OF assms True])
    then show False using at [of 2] by (simp add: nth_append)
  next
    case False
    then have "i + 1 = length h" using i by simp
    then have "?s ! (i + 1) = 13" by (simp add: nth_append)
    then show False using at [of 1] by simp
  qed
qed

lemma lf_inside_append: "lf \<notin> set x \<Longrightarrow> lf_inside lf cr y \<Longrightarrow> lf_inside lf cr (x @ y)"
proof (induction x)
  case (Cons c x)
  then show ?case by (cases "x @ y") auto
qed simp

lemma utf8_char_high: "\<not> c < 0x80 \<Longrightarrow> b \<in> set (utf8_char c) \<Longrightarrow> scalar c \<Longrightarrow> \<not> b < 0x80"
proof -
  assume a: "\<not> c < 0x80" "b \<in> set (utf8_char c)" "scalar c"
  have c: "c < 0x110000" using a(3) by (simp add: scalar_def)
  have n: "c < 0x800 \<Longrightarrow> c div 64 < 32" "c < 0x10000 \<Longrightarrow> c div 4096 < 16" "c div 262144 < 5"
    using c by (simp_all add: less_mult_imp_div_less)
  have hi: "0x80 \<le> k \<Longrightarrow> k < 256 \<Longrightarrow> \<not> (of_nat k :: byte) < 0x80" for k by (simp add: word_less_nat_alt)
  have m: "k mod 64 < 64" for k :: nat by simp
  have "\<forall>b \<in> set (utf8_char c). \<not> b < 0x80"
  proof (cases "c < 0x800")
    case True
    then show ?thesis using a(1) n(1) hi [of "0xC0 + c div 64"] hi [of "0x80 + c mod 64"] m [of c]
      by (simp add: utf8_char_def del: of_nat_add of_nat_numeral)
  next
    case big: False
    show ?thesis
    proof (cases "c < 0x10000")
      case True
      then show ?thesis using a(1) big n(2) hi [of "0xE0 + c div 4096"] hi [of "0x80 + c div 64 mod 64"] hi [of "0x80 + c mod 64"] m [of c] m [of "c div 64"]
        by (simp add: utf8_char_def del: of_nat_add of_nat_numeral)
    next
      case False
      then show ?thesis using a(1) big n(3) hi [of "0xF0 + c div 262144"] hi [of "0x80 + c div 4096 mod 64"] hi [of "0x80 + c div 64 mod 64"]
          hi [of "0x80 + c mod 64"] m [of c] m [of "c div 64"] m [of "c div 4096"]
        by (simp add: utf8_char_def del: of_nat_add of_nat_numeral)
    qed
  qed
  then show "\<not> b < 0x80" using a(2) by blast
qed

lemma utf8_char_low: "c < 0x80 \<Longrightarrow> utf8_char c = [of_nat c]"
  by (simp add: utf8_char_def)

lemma utf8_char_cases:
  assumes "scalar c"
  shows "c < 0x80 \<and> utf8_char c = [of_nat c] \<or> \<not> c < 0x80 \<and> (\<exists>b r. utf8_char c = b # r \<and> (\<forall>x \<in> set (b # r). \<not> x < 0x80))"
proof (cases "c < 0x80")
  case False
  have "utf8_char c \<noteq> []" by (simp add: utf8_char_def)
  then obtain b r where "utf8_char c = b # r" by (cases "utf8_char c") auto
  then show ?thesis using False utf8_char_high [OF False _ assms] by metis
qed (simp add: utf8_char_low)

lemma ascii_byte:
  assumes "c < 0x80" and "k < 0x80"
  shows "((of_nat c :: byte) = of_nat k) = (c = k)"
proof -
  have "unat (of_nat c :: byte) = c" "unat (of_nat k :: byte) = k" using assms by simp_all
  then show ?thesis by metis
qed

lemma utf8_first:
  assumes "list_all scalar (d # s)" and "k < 0x80"
  shows "\<exists>b r. utf8_bytes (d # s) = b # r \<and> (b = of_nat k \<longleftrightarrow> d = k)"
proof -
  have "scalar d" using assms(1) by simp
  from utf8_char_cases [OF this] show ?thesis
  proof (elim disjE conjE exE)
    assume "d < 0x80" "utf8_char d = [of_nat d]"
    then show ?thesis using ascii_byte [OF _ assms(2), of d] by (simp add: utf8_bytes_def)
  next
    fix b r assume h: "\<not> d < 0x80" "utf8_char d = b # r" "\<forall>x \<in> set (b # r). \<not> x < 0x80"
    have "(of_nat k :: byte) < 0x80" using assms(2) by (simp add: word_less_nat_alt)
    then have "b \<noteq> of_nat k" "d \<noteq> k" using h(1,3) assms(2) by auto
    then show ?thesis using h(2) by (simp add: utf8_bytes_def)
  qed
qed

lemma utf8_lf_inside:
  assumes "list_all scalar s" and "lf_inside 10 13 s"
  shows "lf_inside 10 13 (utf8_bytes s)"
  using assms
proof (induction "10 :: nat" "13 :: nat" s rule: lf_inside.induct)
  case (2 c)
  have "scalar c" "c \<noteq> 10" using 2 by simp_all
  then have "10 \<notin> set (utf8_bytes [c])" using utf8_char_cases [of c] ascii_byte [of c 10] by (force simp: utf8_bytes_def)
  then show ?case using lf_inside_append [of 10 "utf8_bytes [c]" 13 "[]"] by simp
next
  case (3 c d s)
  have c: "scalar c" using 3 by simp
  have ih: "lf_inside 10 13 (utf8_bytes (d # s))" using 3 by simp
  obtain b r where b: "utf8_bytes (d # s) = b # r" "b = 13 \<longleftrightarrow> d = 13" using utf8_first [of d s 13] 3 by auto
  have u: "utf8_bytes (c # d # s) = utf8_char c @ utf8_bytes (d # s)" by (simp add: utf8_bytes_def)
  from utf8_char_cases [OF c] show ?case
  proof (elim disjE conjE exE)
    assume "c < 0x80" "utf8_char c = [of_nat c]"
    then show ?thesis using 3 ih b ascii_byte [of c 10] unfolding u by auto
  next
    fix x y assume "utf8_char c = x # y" "\<forall>x \<in> set (x # y). \<not> x < 0x80"
    then have "10 \<notin> set (utf8_char c)" by auto
    then show ?thesis unfolding u by (rule lf_inside_append [OF _ ih])
  qed
qed (simp add: utf8_bytes_def)

lemma head_inside:
  assumes "lf_inside 10 13 (x :: pystr)" "10 \<notin> set x" and "\<forall>l \<in> set ls. 10 \<notin> set l \<and> l \<noteq> [] \<and> hd l \<noteq> 13"
  shows "lf_inside 10 13 (join_with [13, 10] (x # ls))"
  using assms
proof (induction ls arbitrary: x)
  case (Cons l ls)
  obtain c r where l: "l = c # r" "c \<noteq> 13" "10 \<notin> set l" using Cons.prems(3) by (cases l) auto
  have "lf_inside 10 13 (l @ [])" by (rule lf_inside_append [OF l(3)]) simp
  then have "lf_inside 10 13 (join_with [13, 10] (l # ls))" using Cons.IH [of l] Cons.prems(3) by simp
  moreover obtain t where t: "join_with [13, 10] (l # ls) = c # t" using l(1) by (cases ls) auto
  ultimately have "lf_inside 10 13 ([13, 10] @ join_with [13, 10] (l # ls))" using l(2) by simp
  then have "lf_inside 10 13 (x @ [13, 10] @ join_with [13, 10] (l # ls))" by (rule lf_inside_append [OF Cons.prems(2)])
  then show ?case by simp
qed simp

lemma header_line_facts:
  assumes "header_ok h"
  shows "10 \<notin> set (header_line h)" "header_line h \<noteq> []" "hd (header_line h) \<noteq> 13" "list_all scalar (header_line h)"
    "\<not> (take 1 (header_line h) = [32] \<or> take 1 (header_line h) = [9])"
proof -
  obtain k v where h: "h = (k, v)" by fastforce
  have k: "trimmed k" "10 \<notin> set k" "10 \<notin> set v" "list_all scalar k" "list_all scalar v" using assms by (simp_all add: header_ok_def h)
  show "10 \<notin> set (header_line h)" "header_line h \<noteq> []" using k by (simp_all add: header_line_def h lit_def)
  show "list_all scalar (header_line h)" using k by (simp add: header_line_def h lit_def scalar_def is_high_def is_low_def)
  show "hd (header_line h) \<noteq> 13" "\<not> (take 1 (header_line h) = [32] \<or> take 1 (header_line h) = [9])"
    using k(1) by (cases k; auto simp: header_line_def h lit_def trimmed_def is_space_def)+
qed

lemma header_read:
  assumes "header_ok h"
  shows "header_step hs (header_line h) = hs @ [h]"
proof -
  obtain k v where h: "h = (k, v)" by fastforce
  have k: "trimmed k" "trimmed v" "58 \<notin> set k" using assms by (simp_all add: header_ok_def h)
  have l: "header_line h = k @ 58 # 32 # v" by (simp add: header_line_def h lit_def)
  have p: "partition_at (header_line h) 58 = (k, 32 # v)" unfolding l by (rule partition_at_cut [OF k(3)])
  have v: "strip_space (32 # v) = v" using strip_pad [of "[32]" "[]" v] k(2) by (simp add: is_space_def)
  have "58 \<in> set (header_line h)" by (simp add: l)
  then show ?thesis using header_line_facts(5) [OF assms] by (simp add: header_step_def p k(1) v) (simp add: h)
qed

lemma headers_read: "list_all header_ok hs \<Longrightarrow> foldl header_step acc (map header_line hs) = acc @ hs"
  by (induction hs arbitrary: acc) (simp_all add: header_read)

lemma length_header_ok: "header_ok (lit ''Content-Length'', dec_digits n)"
proof -
  have d: "list_all is_digit (dec_digits n)" "dec_digits n \<noteq> []" using dec_digits_digits [of n] by simp_all
  then have sp: "\<forall>c \<in> set (dec_digits n). \<not> is_space c \<and> c \<noteq> 10 \<and> scalar c"
    by (auto simp: list_all_iff is_digit_def is_space_def scalar_def is_high_def is_low_def)
  have t: "trimmed (dec_digits n)" using d(2) sp by (simp add: trimmed_def)
  have k: "trimmed (lit ''Content-Length'')" by (simp add: lit_def trimmed_def is_space_def)
  have c: "58 \<notin> set (lit ''Content-Length'')" "10 \<notin> set (lit ''Content-Length'')" by (simp_all add: lit_def)
  have u: "list_all scalar (lit ''Content-Length'')" by (simp add: lit_def scalar_def is_high_def is_low_def)
  have v: "10 \<notin> set (dec_digits n)" "list_all scalar (dec_digits n)" using sp by (auto simp: list_all_iff)
  show ?thesis using t k c u v by (simp add: header_ok_def)
qed

lemma with_length_ok:
  assumes "list_all header_ok (sm_headers m)"
  shows "list_all header_ok (sm_headers (with_length m))"
  using assms length_header_ok [of "length (sm_body m)"]
  by (auto simp: with_length_def set_header_def add_header_def remove_header_def list_all_iff)

lemma find_length: "find (\<lambda>(k, v). canon k = canon (lit ''Content-Length'')) (sm_headers (with_length m)) =
    Some (lit ''Content-Length'', dec_digits (length (sm_body m)))"
proof -
  let ?P = "\<lambda>(k, v). canon k = canon (lit ''Content-Length'')" and ?y = "(lit ''Content-Length'', dec_digits (length (sm_body m)))"
  have f: "find P (filter (\<lambda>x. \<not> P x) xs @ [y]) = Some y" if "P y" for P and xs :: "(pystr \<times> pystr) list" and y
    using that by (induction xs) auto
  have "sm_headers (with_length m) = filter (\<lambda>x. \<not> ?P x) (sm_headers m) @ [?y]"
    unfolding with_length_def set_header_def add_header_def remove_header_def case_prod_unfold by simp
  then show ?thesis using f [of ?P ?y] by (simp only: ) simp
qed

lemma canon_length: "canon (lit ''Content-Length'') = lit ''content-length''" "canon (lit ''content-length'') = lit ''content-length''"
proof -
  have t: "trimmed (lit ''Content-Length'')" "trimmed (lit ''content-length'')" by (simp_all add: lit_def trimmed_def is_space_def)
  have l: "py_lower (lit ''Content-Length'') = lit ''content-length''" "py_lower (lit ''content-length'') = lit ''content-length''"
    by (simp_all add: lit_def py_lower_def lower_char_def)
  have "map_of COMPACT (lit ''content-length'') = None" by (simp add: COMPACT_def lit_def)
  then show "canon (lit ''Content-Length'') = lit ''content-length''" "canon (lit ''content-length'') = lit ''content-length''"
    by (simp_all add: canon_def t l)
qed

lemma get_length: "get_header ''content-length'' (with_length m) = Inr (Some (dec_digits (length (sm_body m))))"
proof -
  have "lit ''content-length'' \<notin> set MULTI" by (simp add: MULTI_def lit_def)
  then show ?thesis using find_length [of m] by (simp add: get_header_def canon_length)
qed

lemma read_back:
  assumes "msg_ok m"
  shows "try_r (to_bytes m) parse_msg = Inr (with_length m)"
proof -
  let ?m = "with_length m"
  let ?ls = "map header_line (sm_headers ?m)"
  define J where "J = join_with [13, 10] (sm_start m # ?ls)"
  have st: "start_ok (sm_start m)" "trimmed (sm_start m)" "10 \<notin> set (sm_start m)" "list_all scalar (sm_start m)"
    and hs: "list_all header_ok (sm_headers m)" and len: "length (sm_body m) < 65536"
    using assms by (simp_all add: msg_ok_def)
  have hs1: "list_all header_ok (sm_headers ?m)" by (rule with_length_ok [OF hs])
  have lines: "\<forall>l \<in> set ?ls. 10 \<notin> set l \<and> l \<noteq> [] \<and> hd l \<noteq> 13 \<and> list_all scalar l"
    using hs1 header_line_facts by (auto simp: list_all_iff)
  have sc: "list_all scalar J"
  proof -
    have "list_all scalar (join_with [13, 10] ls)" if "\<forall>l \<in> set ls. list_all scalar l" for ls
      using that by (induction "[13, 10 :: nat]" ls rule: join_with.induct) (auto simp: scalar_def is_high_def is_low_def)
    then show ?thesis using st(4) lines by (simp add: J_def)
  qed
  have "lf_inside 10 13 (sm_start m)" using lf_inside_append [OF st(3), of 13 "[]"] by simp
  then have inside: "lf_inside 10 13 J" unfolding J_def by (rule head_inside [OF _ st(3)]) (use lines in blast)
  have w: "to_bytes m = Inr (utf8_bytes J @ [13, 10, 13, 10] @ sm_body m)"
    using sc by (simp add: to_bytes_def J_def utf8_encode_def utf8_bytes_def)
  have cut: "cut_at [13, 10, 13, 10] (utf8_bytes J @ [13, 10, 13, 10] @ sm_body m) = Some (utf8_bytes J, sm_body m)"
    by (rule cut_head [OF utf8_lf_inside [OF sc inside]])
  have sp: "split_at_char 10 (crlf_lf (utf8_replace (utf8_bytes J))) = sm_start m # ?ls"
    unfolding utf8_replace_read [OF sc] unfolding J_def by (rule lines_join) (use st(3) lines in auto)
  have ne: "strip_space (sm_start m) \<noteq> []" using st(1,2) by (auto simp: start_ok_def starts_with_def lit_def)
  have hd: "foldl header_step [] ?ls = sm_headers ?m" using headers_read [OF hs1, of "[]"] by simp
  have msg: "new_msg (sm_start m) (sm_headers ?m) (sm_body m) = ?m"
    using st(2) by (simp add: new_msg_def with_length_def set_header_def add_header_def remove_header_def)
  have n: "int_of_str (dec_digits (length (sm_body m))) = Inr (int (length (sm_body m)))"
    by (rule int_of_dec [where k = 5]) (use len in simp_all)
  have tr: "strip_space (dec_digits (length (sm_body m))) = dec_digits (length (sm_body m))"
    using length_header_ok [of "length (sm_body m)"] by (simp add: header_ok_def)
  have b: "?m\<lparr>sm_body := sm_body m\<rparr> = ?m"
    by (simp add: with_length_def set_header_def add_header_def remove_header_def)
  have "parse_msg (utf8_bytes J @ [13, 10, 13, 10] @ sm_body m) = Inr ?m"
    unfolding parse_msg_def cut option.case Let_def prod.case sp using ne st(1,2)
    by (simp add: hd msg get_length isdigit_dec n tr b)
  then show ?thesis by (simp add: w)
qed



section \<open>Addresses\<close>

text \<open>
  \<open>parse_uri\<close>: the pattern \<open>^(sips?):(?:([^@;]*)@)?(\[[^\]]+\]|[^:;?]+)(?::(\d+))?([^?]*)\<close> without regard to case. The user part is
  given up again when no host follows it.
\<close>

record sip_uri =
  su_scheme :: pystr
  su_user :: pystr
  su_host :: pystr
  su_port :: "int option"
  su_params :: "(pystr, pystr) dict"

definition match_scheme :: "pystr \<Rightarrow> (pystr \<times> pystr) option" where
  "match_scheme s =
     (case s of
        a # b # c # r \<Rightarrow>
          if a \<in> {83, 115, 0x17F} \<and> b \<in> {73, 105, 0x130, 0x131} \<and> c \<in> {80, 112} then
            (case r of
               d # r2 \<Rightarrow>
                 if d = 58 then Some ([a, b, c], r2)
                 else if d \<in> {83, 115, 0x17F} then (case r2 of e # r3 \<Rightarrow> if e = 58 then Some ([a, b, c, d], r3) else None | [] \<Rightarrow> None)
                 else None
             | [] \<Rightarrow> None)
          else None
      | _ \<Rightarrow> None)"

definition match_host :: "pystr \<Rightarrow> (pystr \<times> pystr) option" where
  "match_host s =
     (let inside = takeWhile (\<lambda>c. c \<noteq> 93) (drop 1 s); after = dropWhile (\<lambda>c. c \<noteq> 93) (drop 1 s);
          plain = takeWhile (\<lambda>c. c \<notin> {58, 59, 63}) s
      in if take 1 s = [91] \<and> inside \<noteq> [] \<and> after \<noteq> [] then Some (91 # inside @ [93], drop 1 after)
         else if plain \<noteq> [] then Some (plain, drop (length plain) s)
         else None)"

definition match_user :: "pystr \<Rightarrow> (pystr \<times> pystr) option" where
  "match_user s =
     (let u = takeWhile (\<lambda>c. c \<noteq> 64 \<and> c \<noteq> 59) s in
      if take 1 (drop (length u) s) = [64] then Some (u, drop (Suc (length u)) s) else None)"

definition match_address :: "pystr \<Rightarrow> (pystr \<times> pystr \<times> pystr) option" where
  "match_address s =
     (case (case match_user s of None \<Rightarrow> None | Some (u, r) \<Rightarrow> map_option (\<lambda>(h, t). (u, h, t)) (match_host r)) of
        Some x \<Rightarrow> Some x
      | None \<Rightarrow> map_option (\<lambda>(h, t). ([], h, t)) (match_host s))"

definition parse_uri :: "pystr \<Rightarrow> pyerr + sip_uri" where
  "parse_uri uri =
     (case match_scheme (strip_space uri) of
        None \<Rightarrow> Inl ValueError
      | Some (scheme, r) \<Rightarrow>
          (case match_address r of
             None \<Rightarrow> Inl ValueError
           | Some (user, host, t) \<Rightarrow>
               (let digits = takeWhile (\<lambda>c. digit_value c \<noteq> None) (drop 1 t);
                    has_port = (take 1 t = [58] \<and> digits \<noteq> []);
                    rest = takeWhile (\<lambda>c. c \<noteq> 63) (if has_port then drop (Suc (length digits)) t else t)
                in try_r (if has_port then try_r (int_of_str digits) (\<lambda>n. Inr (Some n)) else Inr None) (\<lambda>port.
                     Inr \<lparr>su_scheme = py_lower scheme, su_user = fst (partition_at user 58),
                          su_host = strip_chars [91, 93] host, su_port = port, su_params = parse_params rest\<rparr>))))"

end
