(* ===== verification/Sip_Sdp.thy ===== *)
theory Sip_Sdp
  imports Sip_Message Sip_Audio
begin

text \<open>
  Session descriptions in \<^verbatim>\<open>voip/s22-sip.py\<close>: \<open>build_sdp\<close>, \<open>parse_sdp\<close> and \<open>negotiate\<close>. The codecs a user agent
  offers are the two it implements.
\<close>

section \<open>Writing\<close>

definition codec_name :: "codec \<Rightarrow> pystr" where
  "codec_name c = (case c of PCMU \<Rightarrow> lit ''PCMU'' | PCMA \<Rightarrow> lit ''PCMA'')"

definition STATIC_PT :: "(int, pystr \<times> int) dict" where
  "STATIC_PT = [(0, codec_name PCMU, 8000), (8, codec_name PCMA, 8000)]"

definition sdp_lines :: "pystr \<Rightarrow> nat \<Rightarrow> (int \<times> codec) list \<Rightarrow> int option \<Rightarrow> nat \<Rightarrow> nat \<Rightarrow> pystr \<Rightarrow> pystr list" where
  "sdp_lines ip port codecs dpt sess ver direction =
     [lit ''v=0'', lit ''o=s22 '' @ dec_digits sess @ [32] @ dec_digits ver @ lit '' IN IP4 '' @ ip, lit ''s=s22-sip'',
      lit ''c=IN IP4 '' @ ip, lit ''t=0 0'',
      lit ''m=audio '' @ dec_digits port @ lit '' RTP/AVP '' @
        join_with [32] (map (\<lambda>(pt, c). int_text pt) codecs @ (case dpt of None \<Rightarrow> [] | Some d \<Rightarrow> [int_text d]))] @
     map (\<lambda>(pt, c). lit ''a=rtpmap:'' @ int_text pt @ [32] @ codec_name c @ lit ''/8000'') codecs @
     (case dpt of
        None \<Rightarrow> []
      | Some d \<Rightarrow> [lit ''a=rtpmap:'' @ int_text d @ lit '' telephone-event/8000'', lit ''a=fmtp:'' @ int_text d @ lit '' 0-15'']) @
     [lit ''a=ptime:20'', lit ''a='' @ direction]"

text \<open>A session number of 0 is replaced by the random number \<open>rand\<close>.\<close>

definition build_sdp :: "nat \<Rightarrow> pystr \<Rightarrow> nat \<Rightarrow> (int \<times> codec) list \<Rightarrow> int option \<Rightarrow> nat \<Rightarrow> nat \<Rightarrow> pystr \<Rightarrow> pystr" where
  "build_sdp rand ip port codecs dpt sess ver direction =
     join_with [13, 10] (sdp_lines ip port codecs dpt (if sess = 0 then rand else sess) ver direction) @ [13, 10]"

section \<open>Reading\<close>

record sdp =
  sdp_ip :: "pystr option"
  sdp_port :: int
  sdp_proto :: "pystr option"
  sdp_payloads :: "int list"
  sdp_rtpmap :: "(int, pystr \<times> int) dict"
  sdp_direction :: pystr
  sdp_ptime :: int

definition new_sdp :: sdp where
  "new_sdp = \<lparr>sdp_ip = None, sdp_port = 0, sdp_proto = None, sdp_payloads = [], sdp_rtpmap = [], sdp_direction = lit ''sendrecv'', sdp_ptime = 20\<rparr>"

fun int_all :: "pystr list \<Rightarrow> pyerr + int list" where
  "int_all [] = Inr []"
| "int_all (p # ps) = try_r (int_of_str p) (\<lambda>n. try_r (int_all ps) (\<lambda>ns. Inr (n # ns)))"

record sdp_state =
  ss_in :: bool
  ss_seen :: bool
  ss_out :: sdp

definition media_line :: "pystr \<Rightarrow> sdp_state \<Rightarrow> pyerr + sdp_state" where
  "media_line v st =
     (let parts = words v in
      try_r (item parts 0) (\<lambda>kind.
        let audio = (kind = lit ''audio'' \<and> \<not> ss_seen st) in
        if \<not> audio then Inr (st\<lparr>ss_in := False\<rparr>)
        else try_r (item parts 1) (\<lambda>p1. try_r (int_of_str (fst (partition_at p1 47))) (\<lambda>port.
             try_r (item parts 2) (\<lambda>proto. try_r (int_all (filter py_isdigit (drop 3 parts))) (\<lambda>pts.
               Inr (st\<lparr>ss_in := True, ss_seen := True,
                       ss_out := (ss_out st)\<lparr>sdp_port := port, sdp_proto := Some proto, sdp_payloads := pts\<rparr>\<rparr>)))))))"

definition connection_line :: "pystr \<Rightarrow> sdp_state \<Rightarrow> pyerr + sdp_state" where
  "connection_line v st =
     (if words v = [] then Inl IndexError
      else Inr (st\<lparr>ss_out := (ss_out st)\<lparr>sdp_ip := Some (fst (partition_at (List.last (words v)) 47))\<rparr>\<rparr>))"

definition attribute_line :: "pystr \<Rightarrow> sdp_state \<Rightarrow> pyerr + sdp_state" where
  "attribute_line v st =
     (if starts_with (lit ''rtpmap:'') v then
        (let (pt, enc) = partition_at (drop 7 v) 32; (name, rate) = partition_at enc 47; r = fst (partition_at rate 47)
         in try_r (int_of_str (if r = [] then lit ''8000'' else r)) (\<lambda>hz. try_r (int_of_str pt) (\<lambda>n.
              Inr (st\<lparr>ss_out := (ss_out st)\<lparr>sdp_rtpmap := AList.update n (py_upper name, hz) (sdp_rtpmap (ss_out st))\<rparr>\<rparr>))))
      else if v \<in> set (map lit [''sendrecv'', ''sendonly'', ''recvonly'', ''inactive'']) then
        Inr (st\<lparr>ss_out := (ss_out st)\<lparr>sdp_direction := v\<rparr>\<rparr>)
      else if starts_with (lit ''ptime:'') v \<and> py_isdigit (strip_space (drop 6 v)) then
        try_r (int_of_str (drop 6 v)) (\<lambda>n. Inr (st\<lparr>ss_out := (ss_out st)\<lparr>sdp_ptime := n\<rparr>\<rparr>))
      else Inr st)"

definition sdp_line :: "pystr \<Rightarrow> sdp_state \<Rightarrow> pyerr + sdp_state" where
  "sdp_line line st =
     (case strip_space line of
        k # e # v \<Rightarrow>
          if e \<noteq> 61 then Inr st
          else if k = 109 then media_line v st
          else if k = 99 \<and> (ss_in st \<or> \<not> ss_seen st) then connection_line v st
          else if k = 97 \<and> (ss_in st \<or> \<not> ss_seen st) then attribute_line v st
          else Inr st
      | _ \<Rightarrow> Inr st)"

fun sdp_loop :: "pystr list \<Rightarrow> sdp_state \<Rightarrow> pyerr + sdp_state" where
  "sdp_loop [] st = Inr st"
| "sdp_loop (l # ls) st = try_r (sdp_line l st) (\<lambda>st1. sdp_loop ls st1)"

definition parse_sdp :: "bytes \<Rightarrow> pyerr + sdp" where
  "parse_sdp d =
     try_r (sdp_loop (split_at_char 10 (crlf_lf (utf8_replace d))) \<lparr>ss_in = False, ss_seen = False, ss_out = new_sdp\<rparr>)
       (\<lambda>st. Inr (ss_out st))"

section \<open>Choosing a codec\<close>

definition pt_name :: "sdp \<Rightarrow> int \<Rightarrow> pystr \<times> int" where
  "pt_name s pt =
     (case map_of (sdp_rtpmap s) pt of Some x \<Rightarrow> x | None \<Rightarrow> (case map_of STATIC_PT pt of Some x \<Rightarrow> x | None \<Rightarrow> ([], 0)))"

definition usable_pt :: "sdp \<Rightarrow> codec list \<Rightarrow> int \<Rightarrow> codec option" where
  "usable_pt s wanted pt = (if snd (pt_name s pt) = 8000 then find (\<lambda>c. codec_name c = fst (pt_name s pt)) wanted else None)"

definition is_event :: "sdp \<Rightarrow> int \<Rightarrow> bool" where
  "is_event s pt \<longleftrightarrow> pt_name s pt = (lit ''TELEPHONE-EVENT'', 8000)"

fun first_codec :: "sdp \<Rightarrow> codec list \<Rightarrow> int list \<Rightarrow> (int \<times> codec) option" where
  "first_codec s wanted [] = None"
| "first_codec s wanted (pt # pts) = (case usable_pt s wanted pt of Some c \<Rightarrow> Some (pt, c) | None \<Rightarrow> first_codec s wanted pts)"

definition negotiate :: "sdp \<Rightarrow> codec list \<Rightarrow> (int \<times> codec \<times> int option) option" where
  "negotiate s wanted =
     (if sdp_port s = 0 then None
      else map_option (\<lambda>(pt, c). (pt, c, find (is_event s) (sdp_payloads s))) (first_codec s wanted (sdp_payloads s)))"

section \<open>Reading what was written\<close>

definition plain_word :: "pystr \<Rightarrow> bool" where
  "plain_word w \<longleftrightarrow> w \<noteq> [] \<and> list_all (\<lambda>c. \<not> is_space c \<and> c \<noteq> 47 \<and> scalar c) w"

lemma words_acc_word: "list_all (\<lambda>c. \<not> is_space c) w \<Longrightarrow> words_acc a (w @ s) = words_acc (a @ w) s"
  by (induction w arbitrary: a) auto

lemma words_join:
  assumes "\<forall>w \<in> set ws. w \<noteq> [] \<and> list_all (\<lambda>c. \<not> is_space c) w"
  shows "words (join_with [32] ws) = ws"
  using assms
proof (induction "[32 :: nat]" ws rule: join_with.induct)
  case (2 w)
  then show ?case using words_acc_word [of w "[]" "[]"] by (simp add: words_def)
next
  case (3 w y ws)
  have "is_space 32" by (simp add: is_space_def)
  then show ?case using 3 words_acc_word [of w "[]" "32 # join_with [32] (y # ws)"] by (simp add: words_def)
qed (simp add: words_def)

lemma digits_word: "list_all (\<lambda>c. \<not> is_space c) (dec_digits n)" "dec_digits n \<noteq> []" "47 \<notin> set (dec_digits n)" "list_all scalar (dec_digits n)"
  "10 \<notin> set (dec_digits n)" "32 \<notin> set (dec_digits n)"
proof -
  have d: "list_all is_digit (dec_digits n)" using dec_digits_digits [of n] by simp
  then have "\<forall>c \<in> set (dec_digits n). \<not> is_space c \<and> c \<noteq> 47 \<and> scalar c \<and> c \<noteq> 10 \<and> c \<noteq> 32"
    by (auto simp: list_all_iff is_digit_def is_space_def scalar_def is_high_def is_low_def)
  then show "list_all (\<lambda>c. \<not> is_space c) (dec_digits n)" "47 \<notin> set (dec_digits n)" "list_all scalar (dec_digits n)"
    "10 \<notin> set (dec_digits n)" "32 \<notin> set (dec_digits n)" by (auto simp: list_all_iff)
  show "dec_digits n \<noteq> []" using dec_digits_digits [of n] by simp
qed

lemma strip_head:
  assumes "\<not> is_space a" and "\<not> is_space b"
  shows "\<exists>r'. strip_space (a # b # r) = a # b # r'"
proof -
  let ?s = "a # b # r"
  obtain x y where s: "?s = x @ strip_space ?s @ y" "list_all is_space x" "list_all is_space y" using strip_shape by blast
  have x: "x = []" using s(1,2) assms(1) by (cases x) auto
  show ?thesis
  proof (cases "strip_space ?s")
    case Nil
    then have "?s = y" using s(1) x by simp
    then show ?thesis using s(3) assms(1) by auto
  next
    case (Cons a' u)
    then have a: "a' = a" "b # r = u @ y" using s(1) x by auto
    show ?thesis using Cons a s(3) assms(2) by (cases u) auto
  qed
qed

lemma other_line:
  assumes "\<not> is_space k" and "k \<notin> {97, 99, 109}"
  shows "sdp_line (k # 61 # r) st = Inr st"
proof -
  have "\<not> is_space 61" by (simp add: is_space_def)
  then obtain r' where "strip_space (k # 61 # r) = k # 61 # r'" using strip_head [OF assms(1)] by blast
  then show ?thesis using assms(2) by (simp add: sdp_line_def)
qed

lemma trimmed_line: "\<not> is_space k \<Longrightarrow> r \<noteq> [] \<Longrightarrow> \<not> is_space (List.last r) \<Longrightarrow> strip_space (k # r) = k # r"
  by (rule trimmed_strip) (simp add: trimmed_def)

lemma last_word: "list_all (\<lambda>c. \<not> is_space c) w \<Longrightarrow> w \<noteq> [] \<Longrightarrow> \<not> is_space (List.last w)"
  by (simp add: list_all_iff)

lemma connection_read:
  assumes "plain_word ip" and "\<not> ss_seen st"
  shows "sdp_line (lit ''c=IN IP4 '' @ ip) st = Inr (st\<lparr>ss_out := (ss_out st)\<lparr>sdp_ip := Some ip\<rparr>\<rparr>)"
proof -
  have w: "ip \<noteq> []" "list_all (\<lambda>c. \<not> is_space c) ip" "47 \<notin> set ip" using assms(1) by (auto simp: plain_word_def list_all_iff)
  have j: "lit ''IN IP4 '' @ ip = join_with [32] [lit ''IN'', lit ''IP4'', ip]" by (simp add: lit_def)
  have "words (lit ''IN IP4 '' @ ip) = [lit ''IN'', lit ''IP4'', ip]"
    unfolding j by (rule words_join) (use w in \<open>simp add: lit_def is_space_def\<close>)
  moreover have "strip_space (lit ''c=IN IP4 '' @ ip) = 99 # 61 # lit ''IN IP4 '' @ ip"
    using trimmed_line [of 99 "61 # lit ''IN IP4 '' @ ip"] w last_word [OF w(2,1)] by (simp add: lit_def is_space_def)
  ultimately show ?thesis using assms(2) by (simp add: sdp_line_def connection_line_def partition_at_none [OF w(3)])
qed

lemma pt_text: "0 \<le> pt \<Longrightarrow> int_text pt = dec_digits (nat pt)"
  by (simp add: int_text_def)

lemma pt_int:
  assumes "0 \<le> pt" and "pt < 65536"
  shows "int_of_str (int_text pt) = Inr pt"
proof -
  have "nat pt < 10 ^ 5" using assms by simp
  then show ?thesis using int_of_dec [of "nat pt" 5] assms by (simp add: pt_text)
qed

lemma int_all_pts:
  assumes "\<forall>pt \<in> set pts. 0 \<le> pt \<and> pt < 65536"
  shows "int_all (filter py_isdigit (map int_text pts)) = Inr pts"
proof -
  have d: "py_isdigit (int_text pt)" if "0 \<le> pt" for pt using that by (simp add: pt_text isdigit_dec)
  show ?thesis using assms by (induction pts) (simp_all add: pt_int d)
qed

lemma media_read:
  assumes "\<forall>pt \<in> set pts. 0 \<le> pt \<and> pt < 65536" and "port < 65536" and "\<not> ss_seen st"
  shows "sdp_line (lit ''m=audio '' @ dec_digits port @ lit '' RTP/AVP '' @ join_with [32] (map int_text pts)) st =
    (if pts = [] then sdp_line (lit ''m=audio '' @ dec_digits port @ lit '' RTP/AVP '') st
     else Inr \<lparr>ss_in = True, ss_seen = True,
       ss_out = (ss_out st)\<lparr>sdp_port := int port, sdp_proto := Some (lit ''RTP/AVP''), sdp_payloads := pts\<rparr>\<rparr>)"
proof (cases "pts = []")
  case False
  let ?ws = "[lit ''audio'', dec_digits port, lit ''RTP/AVP''] @ map int_text pts"
  let ?v = "lit ''audio '' @ dec_digits port @ lit '' RTP/AVP '' @ join_with [32] (map int_text pts)"
  have pw: "int_text pt \<noteq> [] \<and> list_all (\<lambda>c. \<not> is_space c) (int_text pt)" if "pt \<in> set pts" for pt
    using that assms(1) digits_word by (simp add: pt_text)
  have ok: "\<forall>w \<in> set ?ws. w \<noteq> [] \<and> list_all (\<lambda>c. \<not> is_space c) w"
    using pw digits_word by (auto simp: lit_def is_space_def)
  obtain q qs where q: "pts = q # qs" using False by (cases pts) auto
  have j: "?v = join_with [32] ?ws" by (simp add: q lit_def)
  have w: "words ?v = ?ws" unfolding j by (rule words_join [OF ok])
  have l: "\<not> is_space (List.last ?v)"
  proof -
    have "List.last ?ws \<in> set ?ws" by (rule last_in_set) simp
    then have "List.last ?ws \<noteq> [] \<and> list_all (\<lambda>c. \<not> is_space c) (List.last ?ws)" using ok by blast
    then show ?thesis unfolding j using join_last [of ?ws "[32]"] last_word by simp
  qed
  have st: "strip_space (lit ''m='' @ ?v) = lit ''m='' @ ?v"
    using trimmed_line [of 109 "61 # ?v"] l by (simp add: lit_def is_space_def)
  have p: "int_of_str (fst (partition_at (dec_digits port) 47)) = Inr (int port)"
    using int_of_dec [of port 5] assms(2) by (simp add: partition_at_none [OF digits_word(3)])
  have "media_line ?v st = Inr \<lparr>ss_in = True, ss_seen = True,
       ss_out = (ss_out st)\<lparr>sdp_port := int port, sdp_proto := Some (lit ''RTP/AVP''), sdp_payloads := pts\<rparr>\<rparr>"
    using assms(3) p int_all_pts [OF assms(1)] unfolding media_line_def w Let_def by (simp add: item_def)
  moreover have "sdp_line (lit ''m='' @ ?v) st = media_line ?v st" unfolding sdp_line_def st by (simp add: lit_def)
  ultimately show ?thesis using False by (simp add: lit_def)
qed simp

lemma rtpmap_read:
  assumes "0 \<le> pt" and "pt < 65536" and "ss_in st" and "47 \<notin> set name" and "32 \<notin> set name"
  shows "sdp_line (lit ''a=rtpmap:'' @ int_text pt @ [32] @ name @ lit ''/8000'') st =
    Inr (st\<lparr>ss_out := (ss_out st)\<lparr>sdp_rtpmap := AList.update pt (py_upper name, 8000) (sdp_rtpmap (ss_out st))\<rparr>\<rparr>)"
proof -
  let ?v = "lit ''rtpmap:'' @ int_text pt @ 32 # name @ lit ''/8000''"
  have st: "strip_space (lit ''a='' @ ?v) = lit ''a='' @ ?v"
    using trimmed_line [of 97 "61 # ?v"] by (simp add: lit_def is_space_def)
  have "32 \<notin> set (int_text pt)" using digits_word assms(1) by (simp add: pt_text)
  then have p1: "partition_at (drop 7 ?v) 32 = (int_text pt, name @ 47 # lit ''8000'')"
    using partition_at_cut [of 32 "int_text pt" "name @ 47 # lit ''8000''"] by (simp add: lit_def)
  have p2: "partition_at (name @ 47 # lit ''8000'') 47 = (name, lit ''8000'')" by (rule partition_at_cut [OF assms(4)])
  have p3: "fst (partition_at (lit ''8000'') 47) = lit ''8000''" by (simp add: partition_at_def lit_def)
  have "lit ''8000'' = dec_digits 8000" by (simp add: lit_def dec_digits.simps)
  then have hz: "int_of_str (lit ''8000'') = Inr 8000" using int_of_dec [of 8000 5] by simp
  have "attribute_line ?v st = Inr (st\<lparr>ss_out := (ss_out st)\<lparr>sdp_rtpmap := AList.update pt (py_upper name, 8000) (sdp_rtpmap (ss_out st))\<rparr>\<rparr>)"
  proof -
    have s: "starts_with (lit ''rtpmap:'') ?v" "lit ''8000'' \<noteq> []" by (simp_all add: starts_with_def lit_def)
    show ?thesis unfolding attribute_line_def by (simp only: s if_True if_False p1 p2 p3 prod.case Let_def) (simp add: hz pt_int [OF assms(1,2)])
  qed
  moreover have "sdp_line (lit ''a='' @ ?v) st = attribute_line ?v st" using assms(3) unfolding sdp_line_def st by (simp add: lit_def)
  ultimately show ?thesis by (simp add: lit_def)
qed

lemma fmtp_read: "sdp_line (lit ''a=fmtp:'' @ r) st = Inr st"
proof -
  obtain r' where s: "strip_space (97 # 61 # lit ''fmtp:'' @ r) = 97 # 61 # r'" "r' = [] \<or> hd r' = 102"
  proof -
    let ?s = "97 # 61 # lit ''fmtp:'' @ r"
    obtain x y where s: "?s = x @ strip_space ?s @ y" "list_all is_space x" using strip_shape by blast
    have "x = []" using s by (cases x) (auto simp: is_space_def)
    moreover obtain r' where r: "strip_space ?s = 97 # 61 # r'" using strip_head [of 97 61 "lit ''fmtp:'' @ r"] by (auto simp: is_space_def)
    ultimately have "lit ''fmtp:'' @ r = r' @ y" using s(1) by simp
    then have "r' = [] \<or> hd r' = 102" by (cases r') (auto simp: lit_def)
    then show thesis using that r by blast
  qed
  have "attribute_line r' st = Inr st" using s(2) by (cases r') (auto simp: attribute_line_def starts_with_def lit_def)
  then show ?thesis using s(1) by (auto simp: sdp_line_def lit_def)
qed

lemma ptime_read: "ss_in st \<Longrightarrow> sdp_line (lit ''a=ptime:20'') st = Inr (st\<lparr>ss_out := (ss_out st)\<lparr>sdp_ptime := 20\<rparr>\<rparr>)"
proof -
  assume a: "ss_in st"
  have s: "strip_space (lit ''a=ptime:20'') = lit ''a=ptime:20''" "strip_space (lit ''20'') = lit ''20''"
    by (rule trimmed_strip, simp add: trimmed_def lit_def is_space_def)+
  have d: "lit ''20'' = dec_digits 20" by (simp add: lit_def dec_digits.simps)
  have "int_of_str (lit ''20'') = Inr 20" "py_isdigit (lit ''20'')" unfolding d using int_of_dec [of 20 2] isdigit_dec [of 20] by simp_all
  then have "attribute_line (lit ''ptime:20'') st = Inr (st\<lparr>ss_out := (ss_out st)\<lparr>sdp_ptime := 20\<rparr>\<rparr>)"
    using s(2) by (simp add: attribute_line_def starts_with_def lit_def)
  then show ?thesis using a unfolding sdp_line_def s(1) by (simp add: lit_def)
qed

definition DIRECTIONS :: "pystr list" where
  "DIRECTIONS = map lit [''sendrecv'', ''sendonly'', ''recvonly'', ''inactive'']"

lemma direction_read:
  assumes "d \<in> set DIRECTIONS" and "ss_in st"
  shows "sdp_line (lit ''a='' @ d) st = Inr (st\<lparr>ss_out := (ss_out st)\<lparr>sdp_direction := d\<rparr>\<rparr>)"
proof -
  have t: "strip_space (lit ''a='' @ d) = lit ''a='' @ d"
    by (rule trimmed_strip) (use assms(1) in \<open>auto simp: DIRECTIONS_def trimmed_def lit_def is_space_def\<close>)
  have n: "\<not> starts_with (lit ''rtpmap:'') d" using assms(1) by (auto simp: DIRECTIONS_def starts_with_def lit_def)
  have "attribute_line d st = Inr (st\<lparr>ss_out := (ss_out st)\<lparr>sdp_direction := d\<rparr>\<rparr>)"
    unfolding attribute_line_def using assms(1) n by (simp only: if_False DIRECTIONS_def if_True)
  then show ?thesis unfolding sdp_line_def t using assms(2) by (simp add: lit_def)
qed

lemma loop_append: "sdp_loop (xs @ ys) st = try_r (sdp_loop xs st) (sdp_loop ys)"
proof (induction xs arbitrary: st)
  case (Cons x xs)
  then show ?case by (cases "sdp_line x st") simp_all
qed simp

lemma upper_names: "py_upper (codec_name c) = codec_name c" "py_upper (lit ''telephone-event'') = lit ''TELEPHONE-EVENT''"
  "47 \<notin> set (codec_name c)" "32 \<notin> set (codec_name c)"
  by (cases c; simp add: codec_name_def lit_def py_upper_def upper_char_def UPPER_SPECIAL_def)+

definition rtpmap_of :: "(int \<times> codec) list \<Rightarrow> (int, pystr \<times> int) dict" where
  "rtpmap_of codecs = foldl (\<lambda>d (pt, c). AList.update pt (codec_name c, 8000) d) [] codecs"

lemma rtpmaps_read:
  assumes "\<forall>(pt, c) \<in> set codecs. 0 \<le> pt \<and> pt < 65536" and "ss_in st"
  shows "sdp_loop (map (\<lambda>(pt, c). lit ''a=rtpmap:'' @ int_text pt @ [32] @ codec_name c @ lit ''/8000'') codecs) st =
    Inr (st\<lparr>ss_out := (ss_out st)\<lparr>sdp_rtpmap := foldl (\<lambda>d (pt, c). AList.update pt (codec_name c, 8000) d) (sdp_rtpmap (ss_out st)) codecs\<rparr>\<rparr>)"
  using assms
proof (induction codecs arbitrary: st)
  case (Cons x codecs)
  obtain pt c where x: "x = (pt, c)" by fastforce
  let ?st = "st\<lparr>ss_out := (ss_out st)\<lparr>sdp_rtpmap := AList.update pt (codec_name c, 8000) (sdp_rtpmap (ss_out st))\<rparr>\<rparr>"
  have "sdp_line (lit ''a=rtpmap:'' @ int_text pt @ [32] @ codec_name c @ lit ''/8000'') st = Inr ?st"
    using rtpmap_read [OF _ _ Cons.prems(2) upper_names(3,4), of pt] Cons.prems(1) by (simp add: x upper_names(1))
  moreover have "sdp_loop (map (\<lambda>(pt, c). lit ''a=rtpmap:'' @ int_text pt @ [32] @ codec_name c @ lit ''/8000'') codecs) ?st =
      Inr (?st\<lparr>ss_out := (ss_out ?st)\<lparr>sdp_rtpmap := foldl (\<lambda>d (pt, c). AList.update pt (codec_name c, 8000) d) (sdp_rtpmap (ss_out ?st)) codecs\<rparr>\<rparr>)"
    by (rule Cons.IH) (use Cons.prems in auto)
  ultimately show ?case by (simp add: x)
qed simp

definition event_lines :: "int option \<Rightarrow> pystr list" where
  "event_lines dpt = (case dpt of None \<Rightarrow> []
     | Some d \<Rightarrow> [lit ''a=rtpmap:'' @ int_text d @ lit '' telephone-event/8000'', lit ''a=fmtp:'' @ int_text d @ lit '' 0-15''])"

definition add_event :: "int option \<Rightarrow> (int, pystr \<times> int) dict \<Rightarrow> (int, pystr \<times> int) dict" where
  "add_event dpt m = (case dpt of None \<Rightarrow> m | Some d \<Rightarrow> AList.update d (lit ''TELEPHONE-EVENT'', 8000) m)"

lemma events_read:
  assumes "\<forall>d. dpt = Some d \<longrightarrow> 0 \<le> d \<and> d < 65536" and "ss_in st"
  shows "sdp_loop (event_lines dpt) st = Inr (st\<lparr>ss_out := (ss_out st)\<lparr>sdp_rtpmap := add_event dpt (sdp_rtpmap (ss_out st))\<rparr>\<rparr>)"
proof (cases dpt)
  case (Some d)
  have n: "47 \<notin> set (lit ''telephone-event'')" "32 \<notin> set (lit ''telephone-event'')" by (simp_all add: lit_def)
  have l: "lit ''a=rtpmap:'' @ int_text d @ lit '' telephone-event/8000'' = lit ''a=rtpmap:'' @ int_text d @ [32] @ lit ''telephone-event'' @ lit ''/8000''"
    by (simp add: lit_def)
  have "sdp_line (lit ''a=rtpmap:'' @ int_text d @ lit '' telephone-event/8000'') st =
      Inr (st\<lparr>ss_out := (ss_out st)\<lparr>sdp_rtpmap := add_event dpt (sdp_rtpmap (ss_out st))\<rparr>\<rparr>)"
    unfolding l using rtpmap_read [OF _ _ assms(2) n, of d] assms(1) by (simp add: Some upper_names(2) add_event_def)
  then show ?thesis using fmtp_read by (simp add: Some event_lines_def)
qed (simp add: event_lines_def add_event_def)

definition described :: "pystr \<Rightarrow> nat \<Rightarrow> (int \<times> codec) list \<Rightarrow> int option \<Rightarrow> pystr \<Rightarrow> sdp" where
  "described ip port codecs dpt direction =
     \<lparr>sdp_ip = Some ip, sdp_port = int port, sdp_proto = Some (lit ''RTP/AVP''),
      sdp_payloads = map fst codecs @ (case dpt of None \<Rightarrow> [] | Some d \<Rightarrow> [d]),
      sdp_rtpmap = add_event dpt (rtpmap_of codecs), sdp_direction = direction, sdp_ptime = 20\<rparr>"

definition describable :: "pystr \<Rightarrow> nat \<Rightarrow> (int \<times> codec) list \<Rightarrow> int option \<Rightarrow> pystr \<Rightarrow> bool" where
  "describable ip port codecs dpt direction \<longleftrightarrow> plain_word ip \<and> port < 65536 \<and> codecs \<noteq> [] \<and>
     (\<forall>(pt, c) \<in> set codecs. 0 \<le> pt \<and> pt < 65536) \<and> (\<forall>d. dpt = Some d \<longrightarrow> 0 \<le> d \<and> d < 65536) \<and> direction \<in> set DIRECTIONS"

lemma lines_read:
  assumes "describable ip port codecs dpt direction"
  shows "sdp_loop (sdp_lines ip port codecs dpt sess ver direction @ [[]]) \<lparr>ss_in = False, ss_seen = False, ss_out = new_sdp\<rparr> =
    Inr \<lparr>ss_in = True, ss_seen = True, ss_out = described ip port codecs dpt direction\<rparr>"
proof -
  let ?pts = "map fst codecs @ (case dpt of None \<Rightarrow> [] | Some d \<Rightarrow> [d])"
  have a: "plain_word ip" "port < 65536" "codecs \<noteq> []" "\<forall>(pt, c) \<in> set codecs. 0 \<le> pt \<and> pt < 65536"
    "\<forall>d. dpt = Some d \<longrightarrow> 0 \<le> d \<and> d < 65536" "direction \<in> set DIRECTIONS" using assms by (simp_all add: describable_def)
  have pts: "\<forall>pt \<in> set ?pts. 0 \<le> pt \<and> pt < 65536" using a(4,5) by (auto split: option.splits)
  have texts: "map (\<lambda>(pt, c). int_text pt) codecs @ (case dpt of None \<Rightarrow> [] | Some d \<Rightarrow> [int_text d]) = map int_text ?pts"
    by (auto simp: case_prod_unfold split: option.splits)
  define st0 where "st0 = \<lparr>ss_in = False, ss_seen = False, ss_out = new_sdp\<rparr>"
  define st1 where "st1 = st0\<lparr>ss_out := (ss_out st0)\<lparr>sdp_ip := Some ip\<rparr>\<rparr>"
  define st2 where "st2 = \<lparr>ss_in = True, ss_seen = True,
       ss_out = (ss_out st1)\<lparr>sdp_port := int port, sdp_proto := Some (lit ''RTP/AVP''), sdp_payloads := ?pts\<rparr>\<rparr>"
  define st3 where "st3 = st2\<lparr>ss_out := (ss_out st2)\<lparr>sdp_rtpmap := rtpmap_of codecs\<rparr>\<rparr>"
  define st4 where "st4 = st3\<lparr>ss_out := (ss_out st3)\<lparr>sdp_rtpmap := add_event dpt (rtpmap_of codecs)\<rparr>\<rparr>"
  have skip: "sdp_line (lit ''v=0'') st0 = Inr st0" "sdp_line (lit ''o=s22 '' @ r) st0 = Inr st0" "sdp_line (lit ''s=s22-sip'') st0 = Inr st0"
    "sdp_line (lit ''t=0 0'') st1 = Inr st1" for r
    using other_line by (simp_all add: lit_def is_space_def)
  have c: "sdp_line (lit ''c=IN IP4 '' @ ip) st0 = Inr st1" unfolding st1_def by (rule connection_read [OF a(1)]) (simp add: st0_def)
  have m: "sdp_line (lit ''m=audio '' @ dec_digits port @ lit '' RTP/AVP '' @ join_with [32] (map int_text ?pts)) st1 = Inr st2"
    using media_read [OF pts a(2), of st1] a(3) by (simp add: st2_def st1_def st0_def)
  have i: "ss_in st2" "ss_in st3" "ss_in st4" by (simp_all add: st2_def st3_def st4_def)
  have e: "sdp_rtpmap (ss_out st2) = []" "sdp_rtpmap (ss_out st3) = rtpmap_of codecs"
    by (simp_all add: st0_def st1_def st2_def st3_def new_sdp_def)
  have rt: "sdp_loop (map (\<lambda>(pt, c). lit ''a=rtpmap:'' @ int_text pt @ [32] @ codec_name c @ lit ''/8000'') codecs) st2 = Inr st3"
    using rtpmaps_read [OF a(4) i(1)] unfolding e(1) rtpmap_of_def [symmetric] st3_def [symmetric] .
  have ev: "sdp_loop (event_lines dpt) st3 = Inr st4" using events_read [OF a(5) i(2)] unfolding e(2) st4_def [symmetric] .
  have pt: "sdp_line (lit ''a=ptime:20'') st4 = Inr st4" using ptime_read [OF i(3)] by (simp add: st0_def st1_def st2_def st3_def st4_def new_sdp_def)
  have d: "sdp_line (lit ''a='' @ direction) st4 = Inr (st4\<lparr>ss_out := (ss_out st4)\<lparr>sdp_direction := direction\<rparr>\<rparr>)"
    by (rule direction_read [OF a(6) i(3)])
  have end_line: "sdp_line [] st = Inr st" for st by (simp add: sdp_line_def strip_space_def)
  have "sdp_lines ip port codecs dpt sess ver direction @ [[]] =
      [lit ''v=0'', lit ''o=s22 '' @ dec_digits sess @ [32] @ dec_digits ver @ lit '' IN IP4 '' @ ip, lit ''s=s22-sip'',
       lit ''c=IN IP4 '' @ ip, lit ''t=0 0'', lit ''m=audio '' @ dec_digits port @ lit '' RTP/AVP '' @ join_with [32] (map int_text ?pts)] @
      map (\<lambda>(pt, c). lit ''a=rtpmap:'' @ int_text pt @ [32] @ codec_name c @ lit ''/8000'') codecs @ event_lines dpt @
      [lit ''a=ptime:20'', lit ''a='' @ direction, []]"
    unfolding sdp_lines_def event_lines_def texts by simp
  then have "sdp_loop (sdp_lines ip port codecs dpt sess ver direction @ [[]]) st0 =
      Inr (st4\<lparr>ss_out := (ss_out st4)\<lparr>sdp_direction := direction\<rparr>\<rparr>)"
    by (simp only: loop_append sdp_loop.simps skip c m rt ev pt d end_line try_r_simps)
  then show ?thesis by (simp add: st0_def [symmetric]) (simp add: st0_def st1_def st2_def st3_def st4_def described_def new_sdp_def)
qed

lemma clean_pts: "0 \<le> pt \<Longrightarrow> list_all scalar (int_text pt) \<and> 10 \<notin> set (int_text pt)"
  using digits_word by (simp add: pt_text)

lemma lines_clean:
  assumes "describable ip port codecs dpt direction" and "l \<in> set (sdp_lines ip port codecs dpt sess ver direction)"
  shows "list_all scalar l \<and> 10 \<notin> set l"
proof -
  have a: "plain_word ip" "\<forall>(pt, c) \<in> set codecs. 0 \<le> pt \<and> pt < 65536"
    "\<forall>d. dpt = Some d \<longrightarrow> 0 \<le> d \<and> d < 65536" "direction \<in> set DIRECTIONS" using assms(1) by (simp_all add: describable_def)
  have sp: "is_space 10" by (simp add: is_space_def)
  have ip: "list_all scalar ip" "10 \<notin> set ip" using a(1) sp by (auto simp: plain_word_def list_all_iff)
  have no: "10 \<notin> set x" if "x \<in> set DIRECTIONS" for x
  proof -
    have "list_all (\<lambda>x. 10 \<notin> set x) DIRECTIONS" by (simp add: DIRECTIONS_def lit_def)
    then show ?thesis using that by (auto simp: list_all_iff)
  qed
  have "list_all (list_all scalar) DIRECTIONS" by (simp add: DIRECTIONS_def)
  then have dir: "list_all scalar direction" "10 \<notin> set direction" using a(4) no by (auto simp: list_all_iff)
  have pts: "\<forall>x \<in> set codecs. list_all scalar (int_text (fst x)) \<and> 10 \<notin> set (int_text (fst x))" using a(2) clean_pts by fastforce
  have name: "10 \<notin> set (codec_name c)" "list_all scalar (codec_name c)" for c by (cases c; simp add: codec_name_def; simp add: lit_def)+
  have join: "list_all scalar (join_with [32] ws) \<and> 10 \<notin> set (join_with [32] ws)" if "\<forall>w \<in> set ws. list_all scalar w \<and> 10 \<notin> set w" for ws
    using that by (induction "[32 :: nat]" ws rule: join_with.induct) (auto simp: scalar_def is_high_def is_low_def)
  have lf: "10 \<notin> set (lit s)" if "list_all (\<lambda>c. of_char c \<noteq> (10 :: nat)) s" for s using that by (auto simp: lit_def list_all_iff)
  have s32: "scalar 32" by (simp add: scalar_def is_high_def is_low_def)
  have ev: "dpt = Some d \<Longrightarrow> list_all scalar (int_text d) \<and> 10 \<notin> set (int_text d)" for d using a(3) clean_pts by blast
  have pl: "list_all scalar (join_with [32] (map (\<lambda>(pt, c). int_text pt) codecs @ (case dpt of None \<Rightarrow> [] | Some d \<Rightarrow> [int_text d]))) \<and>
      10 \<notin> set (join_with [32] (map (\<lambda>(pt, c). int_text pt) codecs @ (case dpt of None \<Rightarrow> [] | Some d \<Rightarrow> [int_text d])))"
    by (rule join) (use pts ev in \<open>auto split: option.splits\<close>)
  show ?thesis
    using assms(2) ip dir pts pl ev name digits_word(4,5) s32
    by (auto simp: sdp_lines_def lf split: option.splits)
qed

lemma sdp_reads:
  assumes "describable ip port codecs dpt direction"
  shows "parse_sdp (utf8_bytes (build_sdp rand ip port codecs dpt sess ver direction)) = Inr (described ip port codecs dpt direction)"
proof -
  let ?ls = "sdp_lines ip port codecs dpt (if sess = 0 then rand else sess) ver direction"
  have ne: "?ls \<noteq> []" by (simp add: sdp_lines_def)
  have join: "join_with sep xs @ sep = join_with sep (xs @ [[]])" if "xs \<noteq> []" for sep :: pystr and xs
    using that by (induction sep xs rule: join_with.induct) auto
  have b: "build_sdp rand ip port codecs dpt sess ver direction = join_with [13, 10] (?ls @ [[]])"
    by (simp add: build_sdp_def join [OF ne])
  have cl: "list_all scalar (join_with [13, 10] xs)" if "\<forall>l \<in> set xs. list_all scalar l" for xs
    using that by (induction "[13, 10 :: nat]" xs rule: join_with.induct) (auto simp: scalar_def is_high_def is_low_def)
  have sc: "list_all scalar (join_with [13, 10] (?ls @ [[]]))" by (rule cl) (use lines_clean [OF assms] in auto)
  have "split_at_char 10 (crlf_lf (join_with [13, 10] (?ls @ [[]]))) = ?ls @ [[]]"
    by (rule lines_join) (use lines_clean [OF assms] in auto)
  then show ?thesis unfolding parse_sdp_def b utf8_replace_read [OF sc] using lines_read [OF assms] by simp
qed

section \<open>Both ends choose the same\<close>

lemma codec_name_inj: "(codec_name a = codec_name b) = (a = b)"
  by (cases a; cases b; simp add: codec_name_def lit_def)

lemma codec_not_event: "codec_name c \<noteq> lit ''TELEPHONE-EVENT''"
  by (cases c) (simp_all add: codec_name_def lit_def)

lemma find_codec: "find (\<lambda>c'. codec_name c' = codec_name c) wanted = (if c \<in> set wanted then Some c else None)"
  by (induction wanted) (auto simp: codec_name_inj)

lemma first_codec_Some:
  assumes "first_codec s wanted pts = Some (pt, c)"
  shows "pt \<in> set pts \<and> pt_name s pt = (codec_name c, 8000) \<and> c \<in> set wanted"
  using assms
proof (induction pts)
  case (Cons p pts)
  show ?case
  proof (cases "usable_pt s wanted p")
    case None
    then show ?thesis using Cons by simp
  next
    case (Some c')
    then have p: "p = pt" "c' = c" using Cons.prems by simp_all
    have r: "snd (pt_name s pt) = 8000" "find (\<lambda>c. codec_name c = fst (pt_name s pt)) wanted = Some c"
      using Some by (auto simp: usable_pt_def p split: if_splits)
    have "codec_name c = fst (pt_name s pt)" "c \<in> set wanted" using r(2) by (auto simp: find_Some_iff)
    then show ?thesis using r(1) p by (simp add: prod_eq_iff)
  qed
qed simp

lemma negotiate_Some:
  assumes "negotiate s wanted = Some (pt, c, d)"
  shows "pt \<in> set (sdp_payloads s) \<and> pt_name s pt = (codec_name c, 8000) \<and> c \<in> set wanted \<and>
    (\<forall>e. d = Some e \<longrightarrow> e \<in> set (sdp_payloads s) \<and> is_event s e \<and> e \<noteq> pt)"
proof -
  have f: "first_codec s wanted (sdp_payloads s) = Some (pt, c)" "d = find (is_event s) (sdp_payloads s)"
    using assms by (auto simp: negotiate_def split: if_splits)
  note c = first_codec_Some [OF f(1)]
  have "e \<in> set (sdp_payloads s) \<and> is_event s e" if "d = Some e" for e using that f(2) by (auto simp: find_Some_iff)
  moreover have "\<not> is_event s pt" using c codec_not_event [of c] by (simp add: is_event_def)
  ultimately show ?thesis using c by blast
qed

lemma negotiate_described:
  assumes "\<forall>e. d = Some e \<longrightarrow> e \<noteq> pt" and "c \<in> set wanted" and "port \<noteq> 0"
  shows "negotiate (described ip port [(pt, c)] d dir) wanted = Some (pt, c, d)"
proof -
  let ?s = "described ip port [(pt, c)] d dir"
  have n: "pt_name ?s pt = (codec_name c, 8000)"
    using assms(1) by (cases d) (auto simp: pt_name_def described_def rtpmap_of_def add_event_def)
  have u: "usable_pt ?s wanted pt = Some c" using assms(2) by (simp add: usable_pt_def n find_codec)
  have e: "\<not> is_event ?s pt" using codec_not_event [of c] by (simp add: is_event_def n)
  have f: "is_event ?s x" if "d = Some x" for x using that by (simp add: is_event_def pt_name_def described_def rtpmap_of_def add_event_def)
  have "find (is_event ?s) (sdp_payloads ?s) = d" using e f by (cases d) (simp_all add: described_def)
  then show ?thesis using u assms(3) by (simp add: negotiate_def) (simp add: described_def)
qed

lemma answer_agrees:
  assumes "negotiate offer wanted = Some (pt, c, d)" and "describable ip port [(pt, c)] d dir" and "port \<noteq> 0" and "c \<in> set wanted2"
  shows "\<exists>ans. parse_sdp (utf8_bytes (build_sdp rand ip port [(pt, c)] d sess ver dir)) = Inr ans \<and>
    negotiate ans wanted2 = Some (pt, c, d) \<and> d \<noteq> Some pt"
proof -
  have "\<forall>e. d = Some e \<longrightarrow> e \<noteq> pt" using negotiate_Some [OF assms(1)] by blast
  then show ?thesis using sdp_reads [OF assms(2)] negotiate_described [OF _ assms(4,3)] by blast
qed

text \<open>The codecs of a user agent with the payload types it offers them under.\<close>

definition our_pt :: "codec \<Rightarrow> int" where
  "our_pt c = (if c = PCMU then 0 else 8)"

definition our_codecs :: "codec list \<Rightarrow> (int \<times> codec) list" where
  "our_codecs cs = map (\<lambda>c. (our_pt c, c)) cs"

lemma map_of_rtpmap: "map_of (rtpmap_of (our_codecs cs)) pt =
    (if pt = 0 \<and> PCMU \<in> set cs then Some (codec_name PCMU, 8000) else if pt = 8 \<and> PCMA \<in> set cs then Some (codec_name PCMA, 8000) else None)"
proof -
  have "map_of (foldl (\<lambda>d (pt, c). AList.update pt (codec_name c, 8000 :: int) d) m (our_codecs cs)) pt =
    (if pt = 0 \<and> PCMU \<in> set cs then Some (codec_name PCMU, 8000) else if pt = 8 \<and> PCMA \<in> set cs then Some (codec_name PCMA, 8000) else map_of m pt)" for m
  proof (induction cs arbitrary: m)
    case (Cons c cs)
    then show ?case by (cases c) (auto simp: our_codecs_def our_pt_def)
  qed (simp add: our_codecs_def)
  then show ?thesis by (simp add: rtpmap_of_def)
qed

lemma offer_chosen:
  assumes "find (\<lambda>c. c \<in> set wanted) cs = Some c" and "port \<noteq> 0"
  shows "negotiate (described ip port (our_codecs cs) (Some 101) dir) wanted = Some (our_pt c, c, Some 101)"
proof -
  let ?s = "described ip port (our_codecs cs) (Some 101) dir"
  have n: "pt_name ?s (our_pt c') = (codec_name c', 8000)" for c'
    by (cases c') (auto simp: our_pt_def pt_name_def described_def add_event_def map_of_rtpmap STATIC_PT_def)
  have e: "is_event ?s x = (x = 101)" if x: "x \<in> set (map fst (our_codecs cs) @ [101])" for x
  proof (cases "x = 101")
    case True
    then show ?thesis by (simp add: is_event_def pt_name_def described_def add_event_def)
  next
    case False
    then obtain c' where "x = our_pt c'" using x by (auto simp: our_codecs_def)
    then show ?thesis using n [of c'] codec_not_event [of c'] False by (simp add: is_event_def)
  qed
  have u: "usable_pt ?s wanted (our_pt c') = (if c' \<in> set wanted then Some c' else None)" for c' by (simp add: usable_pt_def n find_codec)
  have "first_codec ?s wanted (map fst (our_codecs xs) @ [101]) = Some (our_pt c, c)" if "find (\<lambda>c. c \<in> set wanted) xs = Some c" for xs
    using that
  proof (induction xs)
    case (Cons a xs)
    then show ?case using u [of a] by (auto simp: our_codecs_def split: if_splits)
  qed simp
  from this [OF assms(1)] have fc: "first_codec ?s wanted (sdp_payloads ?s) = Some (our_pt c, c)" by (simp add: described_def)
  have "find (is_event ?s) (map fst (our_codecs xs) @ [101]) = Some 101" if "set xs \<subseteq> set cs" for xs
    using that
  proof (induction xs)
    case Nil
    then show ?case using e [of 101] by (simp add: our_codecs_def)
  next
    case (Cons a xs)
    have "our_pt a \<in> set (map fst (our_codecs cs) @ [101])"
      using Cons.prems by (auto simp: our_codecs_def)
    then have "\<not> is_event ?s (our_pt a)" using e [of "our_pt a"] by (cases a) (auto simp: our_pt_def)
    then show ?case using Cons by (simp add: our_codecs_def)
  qed
  then have "find (is_event ?s) (sdp_payloads ?s) = Some 101" by (simp add: described_def)
  then show ?thesis using fc assms(2) by (simp add: negotiate_def) (simp add: described_def)
qed

text \<open>
  C15. Offer and answer: the caller writes its offer, the callee reads it and chooses, the callee writes its answer, the
  caller reads it and chooses: both have the same payload type, codec and event type, the first codec of the offer that
  the callee has; and it is one the audio path needs, another than the event type.
\<close>

theorem offer_answer_agree:
  assumes "describable ip port (our_codecs cs) (Some 101) dir" and "port \<noteq> 0"
    and "plain_word ip2" and "port2 < 65536" and "port2 \<noteq> 0" and "dir2 \<in> set DIRECTIONS"
    and "find (\<lambda>c. c \<in> set wanted) cs = Some c"
  shows "\<exists>offer ans pt d.
    parse_sdp (utf8_bytes (build_sdp rand ip port (our_codecs cs) (Some 101) sess ver dir)) = Inr offer \<and>
    negotiate offer wanted = Some (pt, c, d) \<and>
    parse_sdp (utf8_bytes (build_sdp rand2 ip2 port2 [(pt, c)] d sess2 ver2 dir2)) = Inr ans \<and>
    negotiate ans cs = Some (pt, c, d) \<and> 0 \<le> pt \<and> pt < 128 \<and> d = Some 101 \<and> d \<noteq> Some pt"
proof -
  let ?pt = "our_pt c"
  have o: "negotiate (described ip port (our_codecs cs) (Some 101) dir) wanted = Some (?pt, c, Some 101)"
    by (rule offer_chosen [OF assms(7,2)])
  have pt: "0 \<le> ?pt \<and> ?pt < 128" by (simp add: our_pt_def)
  have d: "describable ip2 port2 [(?pt, c)] (Some 101) dir2" using assms(3,4,6) pt by (auto simp: describable_def)
  have c: "c \<in> set cs" using assms(7) by (auto simp: find_Some_iff)
  show ?thesis using sdp_reads [OF assms(1)] o answer_agrees [OF o d assms(5) c] pt by blast
qed

lemma offer_answer_agree_witness:
  "\<exists>offer pt d. parse_sdp (utf8_bytes (build_sdp 5 (lit ''100.64.0.1'') 40000 (our_codecs [PCMU, PCMA]) (Some 101) 0 2 (lit ''sendrecv''))) = Inr offer \<and>
    negotiate offer [PCMA] = Some (pt, PCMA, d)"
proof -
  have "describable (lit ''100.64.0.1'') 40000 (our_codecs [PCMU, PCMA]) (Some 101) (lit ''sendrecv'')"
    and "plain_word (lit ''100.64.0.2'')" and "lit ''sendrecv'' \<in> set DIRECTIONS"
    by (simp_all add: describable_def plain_word_def our_codecs_def our_pt_def DIRECTIONS_def lit_def is_space_def scalar_def is_high_def is_low_def)
  then show ?thesis
    using offer_answer_agree [of "lit ''100.64.0.1''" 40000 "[PCMU, PCMA]" "lit ''sendrecv''" "lit ''100.64.0.2''" 40002 "lit ''sendrecv''" "[PCMA]" PCMA 5 0 2]
    by fastforce
qed

end
