(* ===== verification/Sip_Headers.thy ===== *)
theory Sip_Headers
  imports Sip_Message
begin

text \<open>
  Reading headers back from a message that was put together by \<open>add\<close>: the names the user agent writes and asks for, and
  what \<open>get\<close> answers after each \<open>add\<close>.
\<close>

text \<open>A header for each of several values.\<close>

definition add_all :: "string \<Rightarrow> pystr list \<Rightarrow> sip_msg \<Rightarrow> sip_msg" where
  "add_all name vs m = foldl (\<lambda>m v. add_header name v m) m vs"

section \<open>Names\<close>

definition ascii_lower :: "string \<Rightarrow> pystr" where
  "ascii_lower s = map (\<lambda>c. if 65 \<le> c \<and> c \<le> 90 then c + 32 else c) (lit s)"

lemma lower_ascii: "list_all (\<lambda>c. c < 128) (lit s) \<Longrightarrow> py_lower (lit s) = ascii_lower s"
  unfolding ascii_lower_def py_lower_def
  by (induction "lit s" arbitrary: s) (auto simp: lit_def lower_char_def)

lemma canon_lit:
  assumes "list_all (\<lambda>c. c < 128 \<and> \<not> is_space c) (lit s)" and "map_of COMPACT (ascii_lower s) = None"
  shows "canon (lit s) = ascii_lower s"
proof -
  have "trimmed (lit s)" 
    using assms(1) by (auto simp: trimmed_def list_all_iff dest: hd_in_set last_in_set)
  then show ?thesis using assms lower_ascii [of s] by (simp add: canon_def list_all_iff)
qed

lemma canon_names:
  "canon (lit ''Via'') = lit ''via''" "canon (lit ''via'') = lit ''via''"
  "canon (lit ''Max-Forwards'') = lit ''max-forwards''"
  "canon (lit ''Route'') = lit ''route''" "canon (lit ''route'') = lit ''route''"
  "canon (lit ''Record-Route'') = lit ''record-route''" "canon (lit ''record-route'') = lit ''record-route''"
  "canon (lit ''From'') = lit ''from''" "canon (lit ''from'') = lit ''from''"
  "canon (lit ''To'') = lit ''to''" "canon (lit ''to'') = lit ''to''"
  "canon (lit ''Call-ID'') = lit ''call-id''" "canon (lit ''call-id'') = lit ''call-id''"
  "canon (lit ''CSeq'') = lit ''cseq''" "canon (lit ''cseq'') = lit ''cseq''"
  "canon (lit ''Contact'') = lit ''contact''" "canon (lit ''contact'') = lit ''contact''"
  "canon (lit ''User-Agent'') = lit ''user-agent''" "canon (lit ''Allow'') = lit ''allow''"
  "canon (lit ''Content-Type'') = lit ''content-type''" "canon (lit ''Content-Length'') = lit ''content-length''"
  "canon (lit ''content-length'') = lit ''content-length''"
  "canon (lit ''Expires'') = lit ''expires''" "canon (lit ''expires'') = lit ''expires''"
  "canon (lit ''Authorization'') = lit ''authorization''" "canon (lit ''Proxy-Authorization'') = lit ''proxy-authorization''"
  "canon (lit ''WWW-Authenticate'') = lit ''www-authenticate''" "canon (lit ''www-authenticate'') = lit ''www-authenticate''"
  "canon (lit ''Proxy-Authenticate'') = lit ''proxy-authenticate''" "canon (lit ''proxy-authenticate'') = lit ''proxy-authenticate''"
  by (subst canon_lit; simp add: ascii_lower_def lit_def is_space_def COMPACT_def)+

lemma multi_names:
  "lit ''via'' \<in> set MULTI" "lit ''contact'' \<in> set MULTI" "lit ''route'' \<in> set MULTI" "lit ''record-route'' \<in> set MULTI"
  "lit ''from'' \<notin> set MULTI" "lit ''to'' \<notin> set MULTI" "lit ''call-id'' \<notin> set MULTI" "lit ''cseq'' \<notin> set MULTI"
  "lit ''expires'' \<notin> set MULTI" "lit ''content-length'' \<notin> set MULTI"
  "lit ''www-authenticate'' \<notin> set MULTI" "lit ''proxy-authenticate'' \<notin> set MULTI"
  by (simp_all add: MULTI_def lit_eq)

section \<open>Values\<close>

text \<open>The text of the first header of a name, and of all of them.\<close>

definition raw_header :: "pystr \<Rightarrow> sip_msg \<Rightarrow> pystr option" where
  "raw_header n m = map_option snd (find (\<lambda>(k, v). canon k = n) (sm_headers m))"

definition raw_all :: "pystr \<Rightarrow> sip_msg \<Rightarrow> pystr list" where
  "raw_all n m = map snd (filter (\<lambda>(k, v). canon k = n) (sm_headers m))"

lemma get_raw:
  "get_header name m =
     (case raw_header (canon (lit name)) m of
        None \<Rightarrow> Inr None
      | Some v \<Rightarrow> if canon (lit name) \<in> set MULTI \<and> v \<noteq> [] then try_r (item (split_commas v) 0) (\<lambda>x. Inr (Some x)) else Inr (Some v))"
  by (auto simp: get_header_def raw_header_def Let_def split: option.split)

lemma get_all_raw:
  "get_all name m = concat (map (\<lambda>v. if canon (lit name) \<in> set MULTI then split_commas v else [v]) (raw_all (canon (lit name)) m))"
proof -
  have "concat (map (\<lambda>(k, v). if canon k = n then f v else []) hs) = concat (map f (map snd (filter (\<lambda>(k, v). canon k = n) hs)))"
    for n f and hs :: "(pystr \<times> pystr) list" by (induction hs) auto
  then show ?thesis by (simp add: get_all_def raw_all_def Let_def)
qed

lemma find_snoc: "find P (xs @ [y]) = (case find P xs of Some x \<Rightarrow> Some x | None \<Rightarrow> if P y then Some y else None)"
  by (induction xs) auto

lemma raw_add: "raw_header n (add_header k v m) = (case raw_header n m of Some x \<Rightarrow> Some x | None \<Rightarrow> if canon (lit k) = n then Some v else None)"
  by (simp add: raw_header_def add_header_def find_snoc split: option.split)

lemma raw_all_add: "raw_all n (add_header k v m) = raw_all n m @ (if canon (lit k) = n then [v] else [])"
  by (simp add: raw_all_def add_header_def)

lemma raw_new: "raw_header n (new_msg s [] b) = None" "raw_all n (new_msg s [] b) = []"
  by (simp_all add: raw_header_def raw_all_def new_msg_def)

lemma raw_body: "raw_header n (m\<lparr>sm_body := b\<rparr>) = raw_header n m" "raw_all n (m\<lparr>sm_body := b\<rparr>) = raw_all n m"
  by (simp_all add: raw_header_def raw_all_def)

lemma raw_add_all_other: "canon (lit k) \<noteq> n \<Longrightarrow> raw_header n (add_all k vs m) = raw_header n m"
  by (induction vs arbitrary: m) (simp_all add: add_all_def raw_add split: option.split)

lemma raw_all_add_all: "raw_all n (add_all k vs m) = raw_all n m @ (if canon (lit k) = n then vs else [])"
  by (induction vs arbitrary: m) (simp_all add: add_all_def raw_all_add)

lemma raw_add_all: "raw_header n (add_all k vs m) = (case raw_header n m of Some x \<Rightarrow> Some x | None \<Rightarrow> if canon (lit k) = n \<and> vs \<noteq> [] then Some (hd vs) else None)"
  by (induction vs arbitrary: m) (auto simp: add_all_def raw_add split: option.split)

lemma start_add: "sm_start (add_header k v m) = sm_start m" "sm_body (add_header k v m) = sm_body m"
  by (simp_all add: add_header_def)

lemma start_add_all: "sm_start (add_all k vs m) = sm_start m" "sm_body (add_all k vs m) = sm_body m"
  by (induction vs arbitrary: m) (simp_all add: add_all_def start_add)

lemmas header_reads = get_raw canon_names multi_names raw_add raw_new raw_body raw_add_all lit_eq start_add start_add_all

lemmas header_lists = get_all_raw canon_names multi_names raw_all_add raw_new raw_body raw_all_add_all lit_eq

text \<open>A header that is written last and that was not there before is the one that is read.\<close>

lemma raw_length: "raw_header (lit ''content-length'') (with_length m) = Some (dec_digits (length (sm_body m)))"
  using find_length [of m] by (simp add: raw_header_def canon_names)

lemma raw_with_length: "n \<noteq> lit ''content-length'' \<Longrightarrow> raw_header n (with_length m) = raw_header n m"
proof -
  assume n: "n \<noteq> lit ''content-length''"
  have "find (\<lambda>(k, v). canon k = n) (filter (\<lambda>(k, v). canon k \<noteq> lit ''content-length'') hs) = find (\<lambda>(k, v). canon k = n) hs" for hs :: "(pystr \<times> pystr) list"
    using n by (induction hs) auto
  then have "raw_header n (remove_header ''Content-Length'' m) = raw_header n m"
    by (simp add: raw_header_def remove_header_def canon_names)
  then show ?thesis using n by (simp add: with_length_def set_header_def raw_add canon_names split: option.split)
qed

end
