(* ===== verification/Sip_Ua.thy ===== *)
theory Sip_Ua
  imports Sip_Sdp Sip_Headers
begin

text \<open>
  The class \<open>SipUA\<close> of \<^verbatim>\<open>voip/s22-sip.py\<close>, the side that answers: who may call, responses, the calls and
  their states, requests and responses as they arrive, the answering thread. A handler runs to its end before the next; it
  answers the new state, the datagrams it sent, and the exception that ended it, if one did. Addresses are strings and
  ports; random tokens are arguments.
\<close>

section \<open>State\<close>

type_synonym sock_addr = "pystr \<times> nat"

datatype call_state = CInit | CCalling | CRinging | CAnsweringLate | CConfirmed | CEnded

record media =
  md_remote :: "pystr \<times> int"
  md_pt :: int
  md_codec :: codec
  md_dtmf :: "int option"
  md_running :: bool

record dialog =
  dg_id :: "pystr option"
  dg_incoming :: bool
  dg_local_tag :: pystr
  dg_local_hdr :: pystr
  dg_remote_hdr :: pystr
  dg_remote_target :: pystr
  dg_routes :: "pystr list"
  dg_cseq :: int
  dg_state :: call_state
  dg_invite :: "sip_msg option"
  dg_last_response :: "bytes option"
  dg_last_ack :: "(bytes \<times> sock_addr) option"
  dg_acked :: bool
  dg_answering :: bool
  dg_rtp :: "media option"
  dg_rtp_port :: "nat option"
  dg_local_ip :: pystr
  dg_sdp_version :: nat
  dg_sess_id :: nat
  dg_remote_user :: pystr
  dg_source :: "sock_addr option"
  dg_reason :: pystr

definition new_dialog :: "pystr option \<Rightarrow> bool \<Rightarrow> pystr \<Rightarrow> nat \<Rightarrow> dialog" where
  "new_dialog cid incoming tag sess =
     \<lparr>dg_id = cid, dg_incoming = incoming, dg_local_tag = tag, dg_local_hdr = [], dg_remote_hdr = [], dg_remote_target = [],
      dg_routes = [], dg_cseq = 1, dg_state = CInit, dg_invite = None, dg_last_response = None, dg_last_ack = None, dg_acked = False, dg_answering = False,
      dg_rtp = None, dg_rtp_port = None, dg_local_ip = [], dg_sdp_version = 1, dg_sess_id = sess, dg_remote_user = [],
      dg_source = None, dg_reason = []\<rparr>"

text \<open>
  \<open>ua_route\<close> is the address of the interface towards a destination, as a connected socket tells it; \<open>ua_resolve\<close> is
  \<open>resolve\<close>, the look-up of the system.
\<close>

record ua =
  ua_user :: pystr
  ua_domain :: "pystr option"
  ua_bind_ip :: pystr
  ua_port :: nat
  ua_public_ip :: "pystr option"
  ua_route :: "pystr \<Rightarrow> pystr"
  ua_resolve :: "pystr \<Rightarrow> int option \<Rightarrow> pyerr + sock_addr"
  ua_proxy :: "(pystr \<times> int) option"
  ua_codecs :: "codec list"
  ua_allow_from :: "pystr list"
  ua_auto_answer :: bool
  ua_nat :: "sock_addr option"
  ua_calls :: "(pystr option, dialog) dict"
  ua_ended :: "pystr option list"

type_synonym sent = "bytes \<times> sock_addr"

definition UA_NAME :: pystr where
  "UA_NAME = lit ''s22-sip/0.1''"

definition ALLOW :: pystr where
  "ALLOW = lit ''INVITE, ACK, BYE, CANCEL, OPTIONS, INFO, NOTIFY, MESSAGE''"

definition local_ip :: "ua \<Rightarrow> pystr \<Rightarrow> pystr" where
  "local_ip u dest =
     (case ua_public_ip u of
        Some p \<Rightarrow> if p \<noteq> [] then p else (case ua_nat u of Some n \<Rightarrow> fst n | None \<Rightarrow> if ua_bind_ip u \<noteq> lit ''0.0.0.0'' \<and> ua_bind_ip u \<noteq> [] then ua_bind_ip u else ua_route u dest)
      | None \<Rightarrow> (case ua_nat u of Some n \<Rightarrow> fst n | None \<Rightarrow> if ua_bind_ip u \<noteq> lit ''0.0.0.0'' \<and> ua_bind_ip u \<noteq> [] then ua_bind_ip u else ua_route u dest))"

definition contact :: "ua \<Rightarrow> pystr \<Rightarrow> pystr" where
  "contact u dest =
     (let (host, port) = (case ua_nat u of Some n \<Rightarrow> n | None \<Rightarrow> (local_ip u dest, ua_port u))
      in lit ''<sip:'' @ ua_user u @ [64] @ host @ [58] @ dec_digits port @ [62])"

definition aor :: "ua \<Rightarrow> pystr \<Rightarrow> pystr" where
  "aor u dest =
     (case ua_domain u of
        Some d \<Rightarrow> if d \<noteq> [] then lit ''sip:'' @ ua_user u @ [64] @ d else lit ''sip:'' @ ua_user u @ [64] @ local_ip u dest @ [58] @ dec_digits (ua_port u)
      | None \<Rightarrow> lit ''sip:'' @ ua_user u @ [64] @ local_ip u dest @ [58] @ dec_digits (ua_port u))"

section \<open>Who may call\<close>

text \<open>\<open>ipaddress.ip_address\<close> and \<open>ip_network(rule, strict=False)\<close> for IPv4, which the socket is bound to: octets without leading
  zeros, a prefix length, a net mask or a host mask. An IPv6 rule holds no IPv4 address.\<close>

definition octet :: "pystr \<Rightarrow> nat option" where
  "octet s =
     (if s \<noteq> [] \<and> list_all is_digit s \<and> length s \<le> 3 \<and> (length s = 1 \<or> hd s \<noteq> 48) \<and> digits_val s < 256 then Some (digits_val s) else None)"

definition ip4 :: "pystr \<Rightarrow> nat option" where
  "ip4 s =
     (case map octet (split_at_char 46 s) of
        [Some a, Some b, Some c, Some d] \<Rightarrow> Some (((a * 256 + b) * 256 + c) * 256 + d)
      | _ \<Rightarrow> None)"

definition prefix_length :: "pystr \<Rightarrow> nat option" where
  "prefix_length s =
     (if s \<noteq> [] \<and> list_all is_digit s then (if digits_val s \<le> 32 then Some (digits_val s) else None)
      else (case ip4 s of
              None \<Rightarrow> None
            | Some v \<Rightarrow>
                (case find (\<lambda>n. v = 2 ^ 32 - 2 ^ (32 - n)) [0..<33] of
                   Some n \<Rightarrow> Some n
                 | None \<Rightarrow> find (\<lambda>n. v = 2 ^ (32 - n) - 1) [0..<33])))"

definition in_network :: "pystr \<Rightarrow> pystr \<Rightarrow> bool" where
  "in_network addr rule =
     (let (net, mask) = partition_at rule 47 in
      case (ip4 addr, ip4 net, prefix_length mask) of
        (Some a, Some b, Some n) \<Rightarrow> a div 2 ^ (32 - n) = b div 2 ^ (32 - n)
      | _ \<Rightarrow> False)"

definition rule_admits :: "pystr \<Rightarrow> pystr \<Rightarrow> pystr \<Rightarrow> pystr \<Rightarrow> pystr \<Rightarrow> bool" where
  "rule_admits addr user host frm rule \<longleftrightarrow>
     (if 47 \<in> set rule then in_network addr rule
      else rule = addr \<or> rule = user \<or> rule = user @ [64] @ host \<or> rule = frm)"

definition or_empty :: "pystr option \<Rightarrow> pystr" where
  "or_empty v = (case v of None \<Rightarrow> [] | Some s \<Rightarrow> s)"

definition is_allowed :: "ua \<Rightarrow> sip_msg \<Rightarrow> sock_addr \<Rightarrow> pyerr + bool" where
  "is_allowed u m addr =
     (if ua_allow_from u = [] then Inr True
      else try_r (get_header ''from'' m) (\<lambda>h.
        let frm = fst (snd (parse_nameaddr (or_empty h)));
            (user, host) = (case parse_uri frm of Inr x \<Rightarrow> (su_user x, su_host x) | Inl _ \<Rightarrow> ([], []))
        in Inr (list_ex (rule_admits (fst addr) user host frm) (ua_allow_from u))))"

section \<open>Responses\<close>

text \<open>\<open>re.sub(r';rport(?=;|$)', ';rport=N', v)\<close>; the end also matches before a final line feed.\<close>

function fill_rport :: "pystr \<Rightarrow> pystr \<Rightarrow> pystr" where
  "fill_rport n v =
     (if v = [] then []
      else if starts_with (lit '';rport'') v \<and> (drop 6 v = [] \<or> drop 6 v = [10] \<or> take 1 (drop 6 v) = [59])
      then lit '';rport='' @ n @ fill_rport n (drop 6 v)
      else hd v # fill_rport n (tl v))"
  by pat_completeness auto
termination
  by (relation "measure (\<lambda>(n, v). length v)") auto

declare fill_rport.simps [simp del]

definition response_via :: "sock_addr \<Rightarrow> pystr \<Rightarrow> pyerr + pystr" where
  "response_via addr v =
     try_r (parse_via v) (\<lambda>pv.
       let v1 = (if map_of (via_params pv) (lit ''rport'') = Some [] then fill_rport (dec_digits (snd addr)) v else v)
       in Inr (if via_host pv \<noteq> fst addr \<and> \<not> in_str (lit ''received='') v1 then v1 @ lit '';received='' @ fst addr else v1))"

text \<open>A header that is missing is written as \<open>None\<close>.\<close>

definition or_none :: "pystr option \<Rightarrow> pystr" where
  "or_none v = (case v of None \<Rightarrow> lit ''None'' | Some s \<Rightarrow> s)"

definition make_response ::
    "ua \<Rightarrow> sip_msg \<Rightarrow> int \<Rightarrow> string \<Rightarrow> pystr option \<Rightarrow> bytes \<Rightarrow> sock_addr option \<Rightarrow> pystr option \<Rightarrow> pyerr + sip_msg" where
  "make_response u req code reason to_tag body addr contact_ip =
     (let vias = get_all ''via'' req;
          r0 = new_msg (lit ''SIP/2.0 '' @ int_text code @ [32] @ lit reason) [] []
      in
      try_r (case (vias, addr) of (v # vs, Some a) \<Rightarrow> try_r (response_via a v) (\<lambda>v1. Inr (v1 # vs)) | _ \<Rightarrow> Inr vias) (\<lambda>vias1.
      try_r (get_header ''from'' req) (\<lambda>from. try_r (get_header ''to'' req) (\<lambda>to.
      try_r (get_header ''call-id'' req) (\<lambda>cid. try_r (get_header ''cseq'' req) (\<lambda>cs. try_r (sip_method req) (\<lambda>meth.
        let tagged = (case to_tag of
                        None \<Rightarrow> or_empty to
                      | Some t \<Rightarrow> if t \<noteq> [] \<and> (case tag_of (Some (or_empty to)) of None \<Rightarrow> True | Some x \<Rightarrow> x = [])
                                  then or_empty to @ lit '';tag='' @ t else or_empty to);
            r1 = add_header ''CSeq'' (or_none cs) (add_header ''Call-ID'' (or_none cid) (add_header ''To'' tagged
                   (add_header ''From'' (or_none from) (add_all ''Via'' vias1 r0))));
            r2 = (if meth = lit ''INVITE'' \<and> 200 \<le> code \<and> code < 300 then add_all ''Record-Route'' (get_all ''record-route'' req) r1 else r1);
            r3 = (case contact_ip of None \<Rightarrow> r2 | Some ip \<Rightarrow> add_header ''Contact'' (contact u ip) r2);
            r4 = (if meth = lit ''INVITE'' \<or> meth = lit ''OPTIONS'' then add_header ''Allow'' ALLOW r3 else r3);
            r5 = add_header ''User-Agent'' UA_NAME r4
        in Inr (if body = [] then r5 else (add_header ''Content-Type'' (lit ''application/sdp'') r5)\<lparr>sm_body := body\<rparr>))))))))"

section \<open>Calls\<close>

text \<open>A handler: the state it leaves, what it sent, the exception that ended it. \<open>then_do\<close> goes on unless one did.\<close>

type_synonym outcome = "ua \<times> sent list \<times> pyerr option"

definition then_do :: "outcome \<Rightarrow> (ua \<Rightarrow> outcome) \<Rightarrow> outcome" where
  "then_do r f =
     (case r of (u, out, e) \<Rightarrow>
        (case e of Some x \<Rightarrow> (u, out, Some x) | None \<Rightarrow> (case f u of (u2, out2, e2) \<Rightarrow> (u2, out @ out2, e2))))"

definition send_msg :: "pyerr + sip_msg \<Rightarrow> sock_addr \<Rightarrow> ua \<Rightarrow> outcome" where
  "send_msg r addr u =
     (case try_r r to_bytes of Inl e \<Rightarrow> (u, [], Some e) | Inr b \<Rightarrow> (u, [(b, addr)], None))"

definition live :: "dialog \<Rightarrow> bool" where
  "live d \<longleftrightarrow> dg_state d \<noteq> CEnded"

text \<open>A call is stored under the \<open>Call-ID\<close> of its first message, which may be missing.\<close>

definition put_call :: "dialog \<Rightarrow> ua \<Rightarrow> ua" where
  "put_call d u = u\<lparr>ua_calls := AList.update (dg_id d) d (ua_calls u)\<rparr>"

definition end_call :: "dialog \<Rightarrow> string \<Rightarrow> ua \<Rightarrow> ua" where
  "end_call d reason u =
     (if \<not> live d then u
      else (put_call (d\<lparr>dg_state := CEnded, dg_reason := lit reason,
                       dg_rtp := map_option (\<lambda>m. m\<lparr>md_running := False\<rparr>) (dg_rtp d)\<rparr>) u)\<lparr>ua_ended := ua_ended u @ [dg_id d]\<rparr>)"

definition respond_invite :: "dialog \<Rightarrow> int \<Rightarrow> string \<Rightarrow> bytes \<Rightarrow> ua \<Rightarrow> outcome" where
  "respond_invite d code reason body u =
     (case (dg_invite d, dg_source d) of
        (None, _) \<Rightarrow> (u, [], Some AttributeError)
      | (Some req, None) \<Rightarrow> (u, [], Some TypeError)
      | (Some req, Some src) \<Rightarrow>
          (case try_r (make_response u req code reason (Some (dg_local_tag d)) body (Some src) (if code < 300 then Some (fst src) else None)) to_bytes of
             Inl e \<Rightarrow> (u, [], Some e)
           | Inr b \<Rightarrow> (put_call (d\<lparr>dg_last_response := Some b\<rparr>) u, [(b, src)], None)))"

text \<open>\<open>_sdp\<close>: the next version of our description, with our own codecs unless others are given.\<close>

definition call_sdp :: "ua \<Rightarrow> (int \<times> codec) list option \<Rightarrow> int option \<Rightarrow> nat \<Rightarrow> dialog \<Rightarrow> pyerr + dialog \<times> bytes" where
  "call_sdp u cs dpt rand d =
     (case dg_rtp_port d of
        None \<Rightarrow> Inl AttributeError
      | Some port \<Rightarrow>
          (let v = dg_sdp_version d + 1;
               codecs = (case cs of None \<Rightarrow> our_codecs (ua_codecs u) | Some l \<Rightarrow> if l = [] then our_codecs (ua_codecs u) else l)
           in Inr (d\<lparr>dg_sdp_version := v\<rparr>, utf8_bytes (build_sdp rand (dg_local_ip d) port codecs dpt (dg_sess_id d) v (lit ''sendrecv'')))))"

definition media_remote :: "dialog \<Rightarrow> sdp \<Rightarrow> pystr \<times> int" where
  "media_remote d s =
     ((case sdp_ip s of Some ip \<Rightarrow> if ip \<noteq> [] then ip else (case dg_source d of Some a \<Rightarrow> fst a | None \<Rightarrow> lit ''0.0.0.0'')
       | None \<Rightarrow> (case dg_source d of Some a \<Rightarrow> fst a | None \<Rightarrow> lit ''0.0.0.0'')), sdp_port s)"

definition start_media :: "sdp \<Rightarrow> int \<times> codec \<times> int option \<Rightarrow> dialog \<Rightarrow> dialog" where
  "start_media s chosen d =
     (case dg_rtp d of
        Some m \<Rightarrow> d\<lparr>dg_rtp := Some (m\<lparr>md_remote := media_remote d s\<rparr>)\<rparr>
      | None \<Rightarrow>
          (case chosen of (pt, c, dpt) \<Rightarrow>
             d\<lparr>dg_rtp := Some \<lparr>md_remote = media_remote d s, md_pt = pt, md_codec = c, md_dtmf = dpt, md_running = True\<rparr>\<rparr>))"

section \<open>Incoming calls\<close>

text \<open>The random values a handler may draw: a tag for a refusal, and the tag, session number and sequence number of a call.\<close>

record fresh =
  fr_refusal :: pystr
  fr_tag :: pystr
  fr_sess :: nat
  fr_cseq :: int
  fr_rand :: nat

text \<open>\<open>local_ip(addr[0])\<close>, contact and route set, then the call is stored, and only then its name is cut for the log.\<close>

definition incoming_call :: "ua \<Rightarrow> fresh \<Rightarrow> sip_msg \<Rightarrow> sock_addr \<Rightarrow> pyerr + dialog" where
  "incoming_call u fr m addr =
     try_r (get_header ''call-id'' m) (\<lambda>cid. try_r (get_header ''to'' m) (\<lambda>to. try_r (get_header ''from'' m) (\<lambda>from.
     try_r (get_header ''contact'' m) (\<lambda>con.
     try_r (let target = (case con of Some c \<Rightarrow> if c \<noteq> [] then Some c else from | None \<Rightarrow> from)
            in case target of None \<Rightarrow> Inl AttributeError | Some t \<Rightarrow> Inr (fst (snd (parse_nameaddr t)))) (\<lambda>target.
     try_r (case from of None \<Rightarrow> Inr [] | Some f \<Rightarrow> if f = [] then Inr [] else try_r (parse_uri (fst (snd (parse_nameaddr f)))) (\<lambda>x. Inr (su_user x))) (\<lambda>user.
       Inr ((new_dialog cid True (fr_tag fr) (fr_sess fr))
             \<lparr>dg_invite := Some m, dg_source := Some addr, dg_local_ip := local_ip u (fst addr),
              dg_local_hdr := or_empty to @ lit '';tag='' @ fr_tag fr, dg_remote_hdr := or_empty from, dg_remote_target := target,
              dg_routes := get_all ''record-route'' m, dg_cseq := fr_cseq fr, dg_remote_user := user, dg_state := CRinging\<rparr>)))))))"

definition reinvite :: "fresh \<Rightarrow> sip_msg \<Rightarrow> sock_addr \<Rightarrow> dialog \<Rightarrow> ua \<Rightarrow> outcome" where
  "reinvite fr m addr d u =
     (case (if sm_body m = [] then Inr None else try_r (parse_sdp (sm_body m)) (\<lambda>s. Inr (Some s))) of
        Inl e \<Rightarrow> (u, [], Some e)
      | Inr rs \<Rightarrow>
          (let moved = (case rs of None \<Rightarrow> None | Some s \<Rightarrow> if negotiate s (ua_codecs u) = None then None else Some s) in
           if moved \<noteq> None \<and> dg_rtp d = None then (u, [], Some AttributeError)
           else
             (let d1 = (case moved of
                          None \<Rightarrow> d
                        | Some s \<Rightarrow> d\<lparr>dg_rtp := map_option (\<lambda>r. r\<lparr>md_remote :=
                            (case sdp_ip s of Some ip \<Rightarrow> if ip \<noteq> [] then ip else fst addr | None \<Rightarrow> fst addr, sdp_port s)\<rparr>) (dg_rtp d)\<rparr>);
                  u1 = put_call d1 u
              in case call_sdp u1 (map_option (\<lambda>r. [(md_pt r, md_codec r)]) (dg_rtp d1)) (case dg_rtp d1 of None \<Rightarrow> Some 101 | Some r \<Rightarrow> md_dtmf r) (fr_rand fr) d1 of
                   Inl e \<Rightarrow> (u1, [], Some e)
                 | Inr (d2, body) \<Rightarrow>
                     send_msg (make_response u1 m 200 ''OK'' (Some (dg_local_tag d)) body (Some addr) (Some (fst addr))) addr (put_call d2 u1))))"

text \<open>The thread that answers is started last.\<close>

definition start_answering :: "pystr option \<Rightarrow> ua \<Rightarrow> outcome" where
  "start_answering k u =
     (case map_of (ua_calls u) k of None \<Rightarrow> (u, [], None) | Some d \<Rightarrow> (put_call (d\<lparr>dg_answering := True\<rparr>) u, [], None))"

definition on_invite :: "fresh \<Rightarrow> sip_msg \<Rightarrow> sock_addr \<Rightarrow> dialog option \<Rightarrow> ua \<Rightarrow> outcome" where
  "on_invite fr m addr call u =
     (case call of
        Some d \<Rightarrow>
          (case get_header ''to'' m of
             Inl e \<Rightarrow> (u, [], Some e)
           | Inr to \<Rightarrow>
               if (case tag_of to of None \<Rightarrow> False | Some t \<Rightarrow> t \<noteq> []) \<and> dg_state d = CConfirmed then reinvite fr m addr d u
               else (case dg_last_response d of None \<Rightarrow> (u, [], None) | Some b \<Rightarrow> (u, if b = [] then [] else [(b, addr)], None)))
      | None \<Rightarrow>
          (case is_allowed u m addr of
             Inl e \<Rightarrow> (u, [], Some e)
           | Inr False \<Rightarrow> send_msg (make_response u m 403 ''Forbidden'' (Some (fr_refusal fr)) [] (Some addr) None) addr u
           | Inr True \<Rightarrow>
               if list_ex (\<lambda>(k, d). live d) (ua_calls u) \<or> \<not> ua_auto_answer u then
                 send_msg (make_response u m 486 ''Busy Here'' (Some (fr_refusal fr)) [] (Some addr) None) addr u
               else
                 (case incoming_call u fr m addr of
                    Inl e \<Rightarrow> (u, [], Some e)
                  | Inr d \<Rightarrow>
                      (let u1 = put_call d u in
                       if dg_id d = None then (u1, [], Some TypeError)
                       else then_do (then_do (send_msg (make_response u1 m 100 ''Trying'' None [] (Some addr) None) addr u1)
                              (respond_invite d 180 ''Ringing'' []))
                              (start_answering (dg_id d))))))"

section \<open>Requests\<close>

definition end_key :: "pystr option \<Rightarrow> string \<Rightarrow> ua \<Rightarrow> ua" where
  "end_key k reason u = (case map_of (ua_calls u) k of None \<Rightarrow> u | Some d \<Rightarrow> end_call d reason u)"

definition on_ack :: "sip_msg \<Rightarrow> dialog \<Rightarrow> ua \<Rightarrow> outcome" where
  "on_ack m d0 u0 =
     (let d = d0\<lparr>dg_acked := True\<rparr>; u = put_call d u0 in
      if dg_state d = CAnsweringLate \<and> sm_body m \<noteq> [] then
        (case parse_sdp (sm_body m) of
           Inl e \<Rightarrow> (u, [], Some e)
         | Inr s \<Rightarrow>
             (case negotiate s (ua_codecs u) of
                None \<Rightarrow> (u, [], None)
              | Some chosen \<Rightarrow> (put_call (start_media s chosen (d\<lparr>dg_state := CConfirmed\<rparr>)) u, [], None)))
      else (u, [], None))"

definition on_bye :: "sip_msg \<Rightarrow> sock_addr \<Rightarrow> dialog option \<Rightarrow> ua \<Rightarrow> outcome" where
  "on_bye m addr call u =
     (case call of
        Some d \<Rightarrow>
          if live d then
            then_do (send_msg (make_response u m 200 ''OK'' None [] (Some addr) None) addr u)
              (\<lambda>u1. (end_call d ''remote hangup'' u1, [], None))
          else send_msg (make_response u m 481 ''Call/Transaction Does Not Exist'' None [] (Some addr) None) addr u
      | None \<Rightarrow> send_msg (make_response u m 481 ''Call/Transaction Does Not Exist'' None [] (Some addr) None) addr u)"

definition on_cancel :: "sip_msg \<Rightarrow> sock_addr \<Rightarrow> dialog option \<Rightarrow> ua \<Rightarrow> outcome" where
  "on_cancel m addr call u =
     then_do (send_msg (make_response u m 200 ''OK'' None [] (Some addr) None) addr u)
       (\<lambda>u1. case call of
           Some d \<Rightarrow>
             if dg_state d = CRinging \<and> dg_incoming d then
               then_do (respond_invite d 487 ''Request Terminated'' [] u1) (\<lambda>u2. (end_key (dg_id d) ''cancelled by caller'' u2, [], None))
             else (u1, [], None)
         | None \<Rightarrow> (u1, [], None))"

definition register_expires :: "pystr option \<Rightarrow> int" where
  "register_expires h =
     (case (if or_empty h = [] then Inr 3600 else int_of_str (or_empty h)) of Inl _ \<Rightarrow> 3600 | Inr n \<Rightarrow> max 0 (min n 3600))"

definition on_register :: "sip_msg \<Rightarrow> sock_addr \<Rightarrow> ua \<Rightarrow> outcome" where
  "on_register m addr u =
     (case is_allowed u m addr of
        Inl e \<Rightarrow> (u, [], Some e)
      | Inr False \<Rightarrow> send_msg (make_response u m 403 ''Forbidden'' None [] (Some addr) None) addr u
      | Inr True \<Rightarrow>
          send_msg
            (try_r (make_response u m 200 ''OK'' None [] (Some addr) None) (\<lambda>r.
             try_r (get_header ''expires'' m) (\<lambda>h.
               let n = int_text (register_expires h);
                   cs = map (\<lambda>c. if in_str (lit '';expires='') c then c else c @ lit '';expires='' @ n) (get_all ''contact'' m)
               in Inr (add_header ''Expires'' n (add_all ''Contact'' cs r))))) addr u)"

definition handle_request :: "fresh \<Rightarrow> sip_msg \<Rightarrow> sock_addr \<Rightarrow> ua \<Rightarrow> outcome" where
  "handle_request fr m addr u =
     (case try_r (sip_method m) (\<lambda>meth. try_r (get_header ''call-id'' m) (\<lambda>cid. Inr (meth, map_of (ua_calls u) (Some (or_empty cid))))) of
        Inl e \<Rightarrow> (u, [], Some e)
      | Inr (meth, call) \<Rightarrow>
          if meth = lit ''INVITE'' then on_invite fr m addr call u
          else if meth = lit ''ACK'' then (case call of None \<Rightarrow> (u, [], None) | Some d \<Rightarrow> on_ack m d u)
          else if meth = lit ''BYE'' then on_bye m addr call u
          else if meth = lit ''CANCEL'' then on_cancel m addr call u
          else if meth = lit ''REGISTER'' then on_register m addr u
          else if meth \<in> set (map lit [''OPTIONS'', ''INFO'', ''NOTIFY'', ''MESSAGE'']) then
            send_msg (make_response u m 200 ''OK'' None [] (Some addr) None) addr u
          else send_msg (make_response u m 501 ''Not Implemented'' None [] (Some addr) None) addr u)"

section \<open>Responses and datagrams\<close>

text \<open>
  A response goes to the transaction that waits under its branch; a repeated answer to our call makes us repeat the
  acknowledgement.
\<close>

datatype delivery = ToTransaction pystr sip_msg | Repeat "sent list"

definition handle_response :: "pystr list \<Rightarrow> sip_msg \<Rightarrow> ua \<Rightarrow> pyerr + delivery" where
  "handle_response pending m u =
     try_r (get_header ''via'' m) (\<lambda>h.
     try_r (parse_via (if or_empty h = [] then lit ''SIP/2.0/UDP x'' else or_empty h)) (\<lambda>v.
       let branch = (case map_of (via_params v) (lit ''branch'') of None \<Rightarrow> [] | Some b \<Rightarrow> b) in
       if branch \<in> set pending then Inr (ToTransaction branch m)
       else try_r (get_header ''call-id'' m) (\<lambda>cid.
         case map_of (ua_calls u) (Some (or_empty cid)) of
           None \<Rightarrow> Inr (Repeat [])
         | Some d \<Rightarrow>
             try_r (sip_method m) (\<lambda>meth.
               if meth \<noteq> lit ''INVITE'' then Inr (Repeat [])
               else try_r (status m) (\<lambda>code.
                 if 200 \<le> code \<and> code < 300 then Inr (Repeat (case dg_last_ack d of None \<Rightarrow> [] | Some a \<Rightarrow> [a])) else Inr (Repeat []))))))"

definition blank_bytes :: "bytes \<Rightarrow> bool" where
  "blank_bytes b \<longleftrightarrow> list_all (\<lambda>x. x = 32 \<or> 9 \<le> x \<and> x \<le> 13) b"

text \<open>One datagram: keepalives and what cannot be parsed are dropped; an exception of a handler is logged.\<close>

definition ua_receive :: "pystr list \<Rightarrow> fresh \<Rightarrow> bytes \<times> sock_addr \<Rightarrow> ua \<Rightarrow> outcome" where
  "ua_receive pending fr i u =
     (if blank_bytes (fst i) then (u, [], None)
      else
        (case parse_msg (fst i) of
           Inl e \<Rightarrow> (u, [], None)
         | Inr m \<Rightarrow>
             if is_request m then handle_request fr m (snd i) u
             else (case handle_response pending m u of
                     Inl e \<Rightarrow> (u, [], Some e)
                   | Inr (ToTransaction b r) \<Rightarrow> (u, [], None)
                   | Inr (Repeat out) \<Rightarrow> (u, out, None))))"

section \<open>Answering\<close>

text \<open>
  The thread of one call after its delay: the RTP socket is opened on \<open>port\<close>, the offer is answered. An offer that cannot
  be parsed ends the thread with an exception.
\<close>

definition answer_dialog :: "fresh \<Rightarrow> nat \<Rightarrow> pystr option \<Rightarrow> ua \<Rightarrow> outcome" where
  "answer_dialog fr port k u =
     (case map_of (ua_calls u) k of
        None \<Rightarrow> (u, [], None)
      | Some d00 \<Rightarrow>
          if \<not> dg_answering d00 then (u, [], None)
          else
            (let d0 = d00\<lparr>dg_answering := False\<rparr> in
             if dg_state d0 \<noteq> CRinging then (put_call d0 u, [], None)
             else
               (let d = d0\<lparr>dg_rtp_port := Some port\<rparr>; u1 = put_call d u in
                case dg_invite d of
                  None \<Rightarrow> (u1, [], Some AttributeError)
                | Some m \<Rightarrow>
                    if sm_body m \<noteq> [] then
                      (case parse_sdp (sm_body m) of
                         Inl e \<Rightarrow> (u1, [], Some e)
                       | Inr s \<Rightarrow>
                           (case negotiate s (ua_codecs u) of
                              None \<Rightarrow>
                                then_do (respond_invite d 488 ''Not Acceptable Here'' [] u1) (\<lambda>u2. (end_key k ''no common codec'' u2, [], None))
                            | Some (pt, c, dpt) \<Rightarrow>
                                (case call_sdp u1 (Some [(pt, c)]) dpt (fr_rand fr) d of
                                   Inl e \<Rightarrow> (u1, [], Some e)
                                 | Inr (d2, body) \<Rightarrow>
                                     then_do (let d3 = d2\<lparr>dg_state := CConfirmed\<rparr> in respond_invite d3 200 ''OK'' body (put_call d3 u1))
                                       (\<lambda>u2. case map_of (ua_calls u2) k of
                                           None \<Rightarrow> (u2, [], None)
                                         | Some d3 \<Rightarrow> (put_call (start_media s (pt, c, dpt) d3) u2, [], None)))))
                    else
                      (case call_sdp u1 None (Some 101) (fr_rand fr) d of
                         Inl e \<Rightarrow> (u1, [], Some e)
                       | Inr (d2, body) \<Rightarrow>
                           (let d3 = d2\<lparr>dg_state := CAnsweringLate\<rparr> in respond_invite d3 200 ''OK'' body (put_call d3 u1))))))"

text \<open>While it is not acknowledged, the answer is sent again: the intervals double up to 4 s, 32 s after the answer it gives up.\<close>

datatype ack_wait = Resend rat rat | GiveUp

definition ack_round :: "bool \<Rightarrow> rat \<times> rat \<Rightarrow> ack_wait" where
  "ack_round over w =
     (case w of (interval, waited) \<Rightarrow>
        if 32 \<le> waited + interval \<or> over then GiveUp else Resend (min (interval * 2) 4) (waited + interval))"

fun resend_times :: "nat \<Rightarrow> rat \<times> rat \<Rightarrow> rat list" where
  "resend_times 0 w = []"
| "resend_times (Suc n) w = (case ack_round False w of GiveUp \<Rightarrow> [] | Resend i t \<Rightarrow> t # resend_times n (i, t))"

lemma resend_schedule: "resend_times n (1/2, 0) = take n [1/2, 3/2, 7/2, 15/2, 23/2, 31/2, 39/2, 47/2, 55/2, 63/2]"
proof -
  have stop: "resend_times k (4, 63/2) = []" for k by (cases k) (simp_all add: ack_round_def)
  have step: "resend_times k (i, w) = (case k of 0 \<Rightarrow> [] | Suc k \<Rightarrow> (w + i) # resend_times k (min (i * 2) 4, w + i))"
    if "w + i < 32" for k i w using that by (cases k) (simp_all add: ack_round_def)
  show ?thesis by (auto simp: step stop split: nat.split)
qed

section \<open>What may happen to a user agent\<close>

datatype ua_event = Datagram fresh "bytes \<times> sock_addr" | Answer fresh nat "pystr option" | HungUp "pystr option" string

text \<open>
  A datagram, the answering thread of a call, or the end of a call on our side, after what was sent for it.
\<close>

definition ua_step :: "pystr list \<Rightarrow> ua \<Rightarrow> ua_event \<Rightarrow> outcome" where
  "ua_step pending u e =
     (case e of
        Datagram fr i \<Rightarrow> ua_receive pending fr i u
      | Answer fr port k \<Rightarrow> answer_dialog fr port k u
      | HungUp k reason \<Rightarrow> (end_key k reason u, [], None))"

definition ua_run :: "pystr list \<Rightarrow> ua \<Rightarrow> ua_event list \<Rightarrow> ua" where
  "ua_run pending u es = foldl (\<lambda>u e. fst (ua_step pending u e)) u es"

section \<open>How calls change\<close>

definition follows :: "call_state \<Rightarrow> call_state \<Rightarrow> bool" where
  "follows a b \<longleftrightarrow>
     a = b \<or> a = CRinging \<and> b \<in> {CAnsweringLate, CConfirmed, CEnded} \<or> a = CAnsweringLate \<and> b \<in> {CConfirmed, CEnded} \<or>
     b = CEnded"

definition keeps :: "dialog \<Rightarrow> dialog \<Rightarrow> bool" where
  "keeps d d' \<longleftrightarrow> dg_id d' = dg_id d \<and> dg_invite d' = dg_invite d \<and> dg_source d' = dg_source d \<and> dg_incoming d' = dg_incoming d \<and>
     dg_local_tag d' = dg_local_tag d \<and> follows (dg_state d) (dg_state d')"

definition let_in :: "ua \<Rightarrow> dialog \<Rightarrow> bool" where
  "let_in u d \<longleftrightarrow> (\<exists>m a. dg_invite d = Some m \<and> dg_source d = Some a \<and> is_allowed u m a = Inr True)"

definition fresh_call :: "ua \<Rightarrow> dialog \<Rightarrow> bool" where
  "fresh_call u d \<longleftrightarrow> dg_incoming d \<and> dg_state d = CRinging \<and> let_in u d"

text \<open>
  The only ways in which handlers change the state: a call is replaced by one that keeps what makes it that call; the end
  hooks are run; or, when no call is live, an admitted one is stored.
\<close>

inductive moves :: "ua \<Rightarrow> ua \<Rightarrow> bool" where
  moves_refl: "moves u u"
| moves_put: "moves u v \<Longrightarrow> map_of (ua_calls v) (dg_id d') = Some d \<Longrightarrow> keeps d d' \<Longrightarrow> moves u (put_call d' v)"
| moves_hook: "moves u v \<Longrightarrow> moves u (v\<lparr>ua_ended := es\<rparr>)"
| moves_new: "moves u v \<Longrightarrow> \<not> list_ex (\<lambda>(k, d). live d) (ua_calls v) \<Longrightarrow> fresh_call v d \<Longrightarrow>
    dg_id d = None \<or> map_of (ua_calls v) (dg_id d) = None \<Longrightarrow> moves u (put_call d v)"

lemma moves_trans: "moves v w \<Longrightarrow> moves u v \<Longrightarrow> moves u w"
  by (induction rule: moves.induct) (auto intro: moves.intros)

lemma follows_trans: "follows a b \<Longrightarrow> follows b c \<Longrightarrow> follows a c"
  by (auto simp: follows_def)

lemma keeps_refl: "keeps d d"
  by (simp add: keeps_def follows_def)

lemma keeps_trans: "keeps a b \<Longrightarrow> keeps b c \<Longrightarrow> keeps a c"
  by (auto simp: keeps_def intro: follows_trans)

lemma put_get [simp]: "map_of (ua_calls (put_call d u)) = (map_of (ua_calls u))(dg_id d \<mapsto> d)"
  by (simp add: put_call_def)

lemma end_call_moves:
  assumes "map_of (ua_calls u) (dg_id d) = Some d0" and "keeps d0 d"
  shows "moves u (end_call d reason u)"
proof (cases "live d")
  case True
  let ?d = "d\<lparr>dg_state := CEnded, dg_reason := lit reason, dg_rtp := map_option (\<lambda>m. m\<lparr>md_running := False\<rparr>) (dg_rtp d)\<rparr>"
  have "keeps d0 ?d" using assms(2) by (simp add: keeps_def follows_def)
  then have "moves u (put_call ?d u)" using moves_put [OF moves_refl, of u ?d d0] assms(1) by simp
  then show ?thesis using True moves_hook [of u "put_call ?d u"] by (simp add: end_call_def)
qed (simp add: end_call_def moves_refl)

lemma end_key_moves:
  assumes "\<forall>k d. map_of (ua_calls u) k = Some d \<longrightarrow> dg_id d = k"
  shows "moves u (end_key k reason u)"
proof (cases "map_of (ua_calls u) k")
  case (Some d)
  then have "map_of (ua_calls u) (dg_id d) = Some d" using assms by simp
  from end_call_moves [OF this keeps_refl] show ?thesis by (simp add: end_key_def Some)
qed (simp add: end_key_def moves_refl)

lemma send_msg_state [simp]: "fst (send_msg r a u) = u"
  by (simp add: send_msg_def split: sum.splits)

lemma then_do_moves:
  assumes "moves u (fst r)" and "moves u (fst (f (fst r)))"
  shows "moves u (fst (then_do r f))"
proof -
  obtain v out e where r: "r = (v, out, e)" by (cases r)
  obtain v2 out2 e2 where f: "f v = (v2, out2, e2)" by (cases "f v")
  show ?thesis using assms by (cases e) (simp_all add: then_do_def r f)
qed

lemma send_then: "moves u (fst (f u)) \<Longrightarrow> moves u (fst (then_do (send_msg r a u) f))"
  using then_do_moves [of u "send_msg r a u" f] by (simp add: moves_refl)

lemma respond_moves:
  assumes "map_of (ua_calls u) (dg_id d) = Some d0" and "keeps d0 d"
  shows "moves u (fst (respond_invite d code reason body u))"
proof -
  have k: "keeps d0 (d\<lparr>dg_last_response := Some b\<rparr>)" for b using assms(2) by (simp add: keeps_def)
  have "moves u (put_call (d\<lparr>dg_last_response := Some b\<rparr>) u)" for b
    by (rule moves_put [OF moves_refl _ k]) (use assms(1) in simp)
  then show ?thesis by (auto simp: respond_invite_def moves_refl split: option.splits sum.splits)
qed

definition named :: "ua \<Rightarrow> bool" where
  "named u \<longleftrightarrow> (\<forall>k d. map_of (ua_calls u) k = Some d \<longrightarrow> dg_id d = k)"

lemma named_put: "named v \<Longrightarrow> named (put_call d v)"
  by (simp add: named_def)

lemma moves_named: "moves u v \<Longrightarrow> named u \<Longrightarrow> named v"
  by (induction rule: moves.induct) (simp_all add: named_put, simp add: named_def)

lemma named_end: "named u \<Longrightarrow> moves u (end_key k reason u)"
  by (rule end_key_moves) (simp add: named_def)

lemma start_media_keeps: "keeps d d' \<Longrightarrow> keeps d (start_media s c d')"
  by (auto simp: start_media_def keeps_def split: option.splits prod.splits)

lemma call_sdp_keeps: "call_sdp u cs dpt rand d = Inr (d2, body) \<Longrightarrow> keeps d d2 \<and> dg_state d2 = dg_state d \<and> dg_id d2 = dg_id d"
  by (auto simp: call_sdp_def keeps_def follows_def Let_def split: option.splits)

lemma reinvite_moves:
  assumes "map_of (ua_calls u) (dg_id d) = Some d"
  shows "moves u (fst (reinvite fr m addr d u))"
proof -
  have put: "moves u (put_call d' u)" if "keeps d d'" for d'
    by (rule moves_put [OF moves_refl _ that]) (use that assms in \<open>simp add: keeps_def\<close>)
  have put2: "moves u (put_call d'' (put_call d' u))" if "keeps d d'" "keeps d' d''" for d' d''
    by (rule moves_put [OF put [OF that(1)] _ that(2)]) (use that in \<open>simp add: keeps_def\<close>)
  have r: "keeps d (d\<lparr>dg_rtp := x\<rparr>)" for x by (simp add: keeps_def follows_def)
  show ?thesis
    by (auto simp: reinvite_def Let_def moves_refl keeps_refl dest!: call_sdp_keeps intro!: put put2 r split: sum.splits option.splits prod.splits)
qed

lemma incoming_fresh:
  assumes "incoming_call u fr m addr = Inr d" and "is_allowed u m addr = Inr True"
  shows "fresh_call u d"
  using assms by (cases addr) (auto simp: incoming_call_def try_r_Inr_iff fresh_call_def let_in_def new_dialog_def)

lemma incoming_id: "incoming_call u fr m addr = Inr d \<Longrightarrow> get_header ''call-id'' m = Inr (dg_id d)"
  by (auto simp: incoming_call_def try_r_Inr_iff new_dialog_def)

lemma ring_moves:
  assumes "named v" and "map_of (ua_calls v) (dg_id d) = Some d"
  shows "moves v (fst (then_do (then_do (send_msg r a v) (respond_invite d 180 ''Ringing'' [])) (start_answering (dg_id d))))"
proof (rule then_do_moves)
  show s: "moves v (fst (then_do (send_msg r a v) (respond_invite d 180 ''Ringing'' [])))"
    by (rule send_then, rule respond_moves [OF assms(2) keeps_refl])
  let ?w = "fst (then_do (send_msg r a v) (respond_invite d 180 ''Ringing'' []))"
  show "moves v (fst (start_answering (dg_id d) ?w))"
  proof (cases "map_of (ua_calls ?w) (dg_id d)")
    case (Some d2)
    have "dg_id d2 = dg_id d" using moves_named [OF s assms(1)] Some by (simp add: named_def)
    then have "moves v (put_call (d2\<lparr>dg_answering := True\<rparr>) ?w)"
      by (intro moves_put [OF s, where d = d2]) (use Some in \<open>simp_all add: keeps_def follows_def\<close>)
    then show ?thesis by (simp add: start_answering_def Some)
  qed (simp add: start_answering_def s)
qed

lemma on_invite_moves:
  assumes "named u" and "\<And>d. call = Some d \<Longrightarrow> map_of (ua_calls u) (dg_id d) = Some d"
    and "\<And>c. call = None \<Longrightarrow> get_header ''call-id'' m = Inr (Some c) \<Longrightarrow> map_of (ua_calls u) (Some c) = None"
  shows "moves u (fst (on_invite fr m addr call u))"
proof (cases call)
  case (Some d)
  then show ?thesis using reinvite_moves [OF assms(2) [OF Some], of fr m addr]
    by (auto simp: on_invite_def moves_refl split: sum.splits option.splits)
next
  case None
  show ?thesis
  proof (cases "is_allowed u m addr")
    case (Inr ok)
    show ?thesis
    proof (cases "ok \<and> \<not> (list_ex (\<lambda>(k, d). live d) (ua_calls u) \<or> \<not> ua_auto_answer u)")
      case True
      then have free: "ok" "\<not> list_ex (\<lambda>(k, d). live d) (ua_calls u)" by blast+
      show ?thesis
      proof (cases "incoming_call u fr m addr")
        case (Inr d)
        have new: "moves u (put_call d u)"
        proof (rule moves_new [OF moves_refl free(2) incoming_fresh [OF Inr]])
          show "is_allowed u m addr = Inr True" using free(1) \<open>is_allowed u m addr = Inr ok\<close> by simp
          show "dg_id d = None \<or> map_of (ua_calls u) (dg_id d) = None"
            using assms(3) [OF None] incoming_id [OF Inr] by (cases "dg_id d") auto
        qed
        have "moves u (fst (then_do (then_do (send_msg (make_response (put_call d u) m 100 ''Trying'' None [] (Some addr) None) addr (put_call d u))
            (respond_invite d 180 ''Ringing'' [])) (start_answering (dg_id d))))"
          by (rule moves_trans [OF ring_moves new]) (simp_all add: named_put [OF assms(1)])
        then show ?thesis using True \<open>is_allowed u m addr = Inr ok\<close> Inr new by (simp add: on_invite_def None Let_def)
      qed (use True Inr in \<open>simp add: on_invite_def None moves_refl\<close>)
    qed (use Inr in \<open>cases ok; auto simp: on_invite_def None moves_refl\<close>)
  qed (simp add: on_invite_def None moves_refl)
qed

lemma on_ack_moves:
  assumes "map_of (ua_calls u) (dg_id d) = Some d"
  shows "moves u (fst (on_ack m d u))"
proof -
  let ?d = "d\<lparr>dg_acked := True\<rparr>"
  have a: "moves u (put_call ?d u)"
    by (rule moves_put [OF moves_refl, where d = d]) (use assms in \<open>simp_all add: keeps_def follows_def\<close>)
  have b: "moves u (put_call (start_media s c (?d\<lparr>dg_state := CConfirmed\<rparr>)) (put_call ?d u))" if "dg_state d = CAnsweringLate" for s c
  proof (rule moves_put [OF a, where d = ?d])
    show k: "keeps ?d (start_media s c (?d\<lparr>dg_state := CConfirmed\<rparr>))"
      by (rule start_media_keeps) (simp add: keeps_def follows_def that)
    then show "map_of (ua_calls (put_call ?d u)) (dg_id (start_media s c (?d\<lparr>dg_state := CConfirmed\<rparr>))) = Some ?d"
      by (simp add: keeps_def)
  qed
  show ?thesis using a b by (auto simp: on_ack_def Let_def split: sum.splits option.splits)
qed

lemma on_bye_moves:
  assumes "\<And>d. call = Some d \<Longrightarrow> map_of (ua_calls u) (dg_id d) = Some d"
  shows "moves u (fst (on_bye m addr call u))"
proof (cases call)
  case (Some d)
  have "moves u (end_call d ''remote hangup'' u)" by (rule end_call_moves [OF assms [OF Some] keeps_refl])
  then show ?thesis
    using then_do_moves [of u "send_msg (make_response u m 200 ''OK'' None [] (Some addr) None) addr u" "\<lambda>u1. (end_call d ''remote hangup'' u1, [], None)"]
    by (simp add: on_bye_def Some moves_refl)
qed (simp add: on_bye_def moves_refl)

lemma on_cancel_moves:
  assumes "named u" and "\<And>d. call = Some d \<Longrightarrow> map_of (ua_calls u) (dg_id d) = Some d"
  shows "moves u (fst (on_cancel m addr call u))"
proof -
  have "moves u (fst (case call of Some d \<Rightarrow>
             if dg_state d = CRinging \<and> dg_incoming d then
               then_do (respond_invite d 487 ''Request Terminated'' [] u) (\<lambda>u2. (end_key (dg_id d) ''cancelled by caller'' u2, [], None))
             else (u, [], None)
         | None \<Rightarrow> (u, [], None)))"
  proof (cases call)
    case (Some d)
    have r: "moves u (fst (respond_invite d 487 ''Request Terminated'' [] u))" by (rule respond_moves [OF assms(2) [OF Some] keeps_refl])
    have "moves u (fst (then_do (respond_invite d 487 ''Request Terminated'' [] u) (\<lambda>u2. (end_key (dg_id d) ''cancelled by caller'' u2, [], None))))"
      by (rule then_do_moves [OF r]) (simp add: moves_trans [OF named_end [OF moves_named [OF r assms(1)]] r])
    then show ?thesis by (simp add: Some moves_refl)
  qed (simp add: moves_refl)
  then show ?thesis unfolding on_cancel_def by (rule send_then)
qed

lemma on_register_state: "fst (on_register m addr u) = u"
  by (simp add: on_register_def split: sum.splits bool.splits)

lemma handle_request_moves:
  assumes "named u"
  shows "moves u (fst (handle_request fr m addr u))"
proof -
  have self: "map_of (ua_calls u) (dg_id d) = Some d" if "map_of (ua_calls u) k = Some d" for k d
    using assms that by (simp add: named_def)
  show ?thesis
  proof (cases "try_r (sip_method m) (\<lambda>meth. try_r (get_header ''call-id'' m) (\<lambda>cid. Inr (meth, map_of (ua_calls u) (Some (or_empty cid)))))")
    case (Inr x)
    obtain meth call where x: "x = (meth, call)" by fastforce
    obtain k where k: "call = map_of (ua_calls u) k" using Inr by (auto simp: x try_r_Inr_iff)
    have s: "map_of (ua_calls u) (dg_id d) = Some d" if "call = Some d" for d using self that k by simp
    have n: "map_of (ua_calls u) (Some c) = None" if "call = None" "get_header ''call-id'' m = Inr (Some c)" for c
      using Inr that by (auto simp: x try_r_Inr_iff or_empty_def)
    show ?thesis unfolding handle_request_def Inr x sum.case prod.case
      using on_invite_moves [OF assms s n] on_ack_moves [OF s] on_bye_moves [OF s] on_cancel_moves [OF assms s] on_register_state [of m addr u]
      by (auto simp: moves_refl split: option.splits)
  qed (simp add: handle_request_def moves_refl)
qed

lemma put_twice:
  assumes "moves u v" and "map_of (ua_calls v) (dg_id d) = Some d0" and "keeps d0 d"
  shows "moves u (put_call d v)"
  using assms by (rule moves_put)

lemma media_step_moves:
  assumes "moves u v" and "named v"
  shows "moves u (fst (case map_of (ua_calls v) k of None \<Rightarrow> (v, [], None) | Some d3 \<Rightarrow> (put_call (start_media s x d3) v, [], None)))"
proof (cases "map_of (ua_calls v) k")
  case (Some d)
  have k: "keeps d (start_media s x d)" by (rule start_media_keeps [OF keeps_refl])
  have "dg_id d = k" using Some assms(2) by (simp add: named_def)
  then have "moves u (put_call (start_media s x d) v)"
    by (intro moves_put [OF assms(1) _ k]) (use k Some in \<open>simp add: keeps_def\<close>)
  then show ?thesis by (simp add: Some)
qed (simp add: assms(1))

lemma answer_moves:
  assumes "named u"
  shows "moves u (fst (answer_dialog fr port k u))"
proof (cases "map_of (ua_calls u) k")
  case (Some d00)
  have id: "dg_id d00 = k" using Some assms by (simp add: named_def)
  let ?cleared = "d00\<lparr>dg_answering := False\<rparr>"
  let ?d = "?cleared\<lparr>dg_rtp_port := Some port\<rparr>"
  let ?u1 = "put_call ?d u"
  have p0: "moves u (put_call ?cleared u)"
    by (rule moves_put [OF moves_refl, where d = d00]) (use Some id in \<open>simp_all add: keeps_def follows_def\<close>)
  have p1: "moves u ?u1"
    by (rule moves_put [OF moves_refl, where d = d00]) (use Some id in \<open>simp_all add: keeps_def follows_def\<close>)
  have at: "map_of (ua_calls ?u1) k = Some ?d" by (simp add: id)
  have n1: "named ?u1" by (rule named_put [OF assms])
  have stage: "moves u (put_call (d2\<lparr>dg_state := st\<rparr>) ?u1) \<and> moves u (fst (respond_invite (d2\<lparr>dg_state := st\<rparr>) code r body (put_call (d2\<lparr>dg_state := st\<rparr>) ?u1)))"
    if "keeps ?d d2" "dg_state d00 = CRinging" "st \<in> {CConfirmed, CAnsweringLate}" "dg_state d2 = dg_state ?d" for d2 st code r body
  proof
    have k: "keeps ?d (d2\<lparr>dg_state := st\<rparr>)" using that by (auto simp: keeps_def follows_def)
    show m: "moves u (put_call (d2\<lparr>dg_state := st\<rparr>) ?u1)"
      by (rule moves_put [OF p1 _ k]) (use k at id in \<open>simp add: keeps_def\<close>)
    show "moves u (fst (respond_invite (d2\<lparr>dg_state := st\<rparr>) code r body (put_call (d2\<lparr>dg_state := st\<rparr>) ?u1)))"
      by (rule moves_trans [OF respond_moves [OF _ keeps_refl] m]) simp
  qed
  show ?thesis
  proof (cases "dg_answering d00 \<and> dg_state d00 = CRinging")
    case True
    then have st: "dg_state d00 = CRinging" by blast
    have r488: "moves u (fst (respond_invite ?d 488 ''Not Acceptable Here'' [] ?u1))"
      by (rule moves_trans [OF respond_moves p1]) (use at id in \<open>auto intro: keeps_refl\<close>)
    have refuse: "moves u (fst (then_do (respond_invite ?d 488 ''Not Acceptable Here'' [] ?u1) (\<lambda>u2. (end_key k ''no common codec'' u2, [], None))))"
      by (rule then_do_moves [OF r488]) (simp add: moves_trans [OF named_end [OF moves_named [OF r488 assms]] r488])
    have accept: "moves u (fst (then_do (let d3 = d2\<lparr>dg_state := CConfirmed\<rparr> in respond_invite d3 200 ''OK'' body (put_call d3 ?u1))
         (\<lambda>u2. case map_of (ua_calls u2) k of None \<Rightarrow> (u2, [], None) | Some d3 \<Rightarrow> (put_call (start_media s x d3) u2, [], None))))"
      if "call_sdp v cs dpt rd ?d = Inr (d2, body)" for v cs dpt rd d2 body s x
    proof -
      let ?d3 = "d2\<lparr>dg_state := CConfirmed\<rparr>"
      have g: "moves u (fst (respond_invite ?d3 200 ''OK'' body (put_call ?d3 ?u1)))"
        using stage [of d2 CConfirmed] call_sdp_keeps [OF that] st by simp
      show ?thesis unfolding Let_def
        by (rule then_do_moves, rule g, rule media_step_moves [OF g moves_named [OF g assms]])
    qed
    have late: "moves u (fst (let d3 = d2\<lparr>dg_state := CAnsweringLate\<rparr> in respond_invite d3 200 ''OK'' body (put_call d3 ?u1)))"
      if "call_sdp v cs dpt rd ?d = Inr (d2, body)" for v cs dpt rd d2 body
      unfolding Let_def using stage [of d2 CAnsweringLate] call_sdp_keeps [OF that] st by simp
    have ans: "dg_answering d00" using True by blast
    have unf: "answer_dialog fr port k u = (case dg_invite ?d of
                  None \<Rightarrow> (?u1, [], Some AttributeError)
                | Some m \<Rightarrow>
                    if sm_body m \<noteq> [] then
                      (case parse_sdp (sm_body m) of
                         Inl e \<Rightarrow> (?u1, [], Some e)
                       | Inr s \<Rightarrow>
                           (case negotiate s (ua_codecs u) of
                              None \<Rightarrow>
                                then_do (respond_invite ?d 488 ''Not Acceptable Here'' [] ?u1) (\<lambda>u2. (end_key k ''no common codec'' u2, [], None))
                            | Some (pt, c, dpt) \<Rightarrow>
                                (case call_sdp ?u1 (Some [(pt, c)]) dpt (fr_rand fr) ?d of
                                   Inl e \<Rightarrow> (?u1, [], Some e)
                                 | Inr (d2, body) \<Rightarrow>
                                     then_do (let d3 = d2\<lparr>dg_state := CConfirmed\<rparr> in respond_invite d3 200 ''OK'' body (put_call d3 ?u1))
                                       (\<lambda>u2. case map_of (ua_calls u2) k of
                                           None \<Rightarrow> (u2, [], None)
                                         | Some d3 \<Rightarrow> (put_call (start_media s (pt, c, dpt) d3) u2, [], None)))))
                    else
                      (case call_sdp ?u1 None (Some 101) (fr_rand fr) ?d of
                         Inl e \<Rightarrow> (?u1, [], Some e)
                       | Inr (d2, body) \<Rightarrow>
                           (let d3 = d2\<lparr>dg_state := CAnsweringLate\<rparr> in respond_invite d3 200 ''OK'' body (put_call d3 ?u1))))"
      by (simp add: answer_dialog_def Some ans st Let_def)
    show ?thesis unfolding unf using p1 refuse accept late
      by (simp split: option.split sum.split prod.split)
  next
    case False
    then show ?thesis using p0 by (auto simp: answer_dialog_def Some moves_refl Let_def)
  qed
qed (simp add: answer_dialog_def moves_refl)

lemma step_moves:
  assumes "named u"
  shows "moves u (fst (ua_step pending u e))"
proof (cases e)
  case (Datagram fr i)
  have "moves u (fst (ua_receive pending fr i u))" using handle_request_moves [OF assms]
    by (auto simp: ua_receive_def moves_refl split: sum.splits delivery.splits)
  then show ?thesis by (simp add: ua_step_def Datagram)
qed (simp_all add: ua_step_def answer_moves [OF assms] named_end [OF assms])

lemma run_moves: "named u \<Longrightarrow> moves u (ua_run pending u es)"
proof (induction es arbitrary: u)
  case (Cons e es)
  have s: "moves u (fst (ua_step pending u e))" by (rule step_moves [OF Cons.prems])
  have "moves (fst (ua_step pending u e)) (ua_run pending (fst (ua_step pending u e)) es)"
    by (rule Cons.IH [OF moves_named [OF s Cons.prems]])
  then show ?case using moves_trans [OF _ s] by (simp add: ua_run_def)
qed (simp add: ua_run_def moves_refl)

section \<open>What holds at all times\<close>

definition one_live :: "ua \<Rightarrow> bool" where
  "one_live u \<longleftrightarrow> (\<forall>k k' d d'. map_of (ua_calls u) k = Some d \<longrightarrow> map_of (ua_calls u) k' = Some d' \<longrightarrow> live d \<longrightarrow> live d' \<longrightarrow> k = k')"

definition admitted :: "ua \<Rightarrow> bool" where
  "admitted u \<longleftrightarrow> (\<forall>k d. map_of (ua_calls u) k = Some d \<longrightarrow> dg_incoming d \<longrightarrow> let_in u d)"

lemma allowed_same: "ua_allow_from v = ua_allow_from u \<Longrightarrow> is_allowed v = is_allowed u"
  by (simp add: is_allowed_def fun_eq_iff)

lemma moves_config: "moves u v \<Longrightarrow> ua_allow_from v = ua_allow_from u"
  by (induction rule: moves.induct) (simp_all add: put_call_def)

lemma keeps_live: "keeps d d' \<Longrightarrow> live d' \<Longrightarrow> live d"
  by (auto simp: keeps_def follows_def live_def)

lemma moves_one: "moves u v \<Longrightarrow> one_live u \<Longrightarrow> one_live v"
proof (induction rule: moves.induct)
  case (moves_put u v d' d)
  have same: "\<exists>y. map_of (ua_calls v) k = Some y \<and> live y" if "map_of (ua_calls (put_call d' v)) k = Some x" "live x" for k x
    using that moves_put.hyps(2) keeps_live [OF moves_put.hyps(3)] by (auto split: if_splits)
  have "one_live v" using moves_put by blast
  then show ?case using same unfolding one_live_def by blast
next
  case (moves_new u v d)
  have none: "\<not> live x" if "map_of (ua_calls v) k = Some x" for k x using moves_new.hyps(2) map_of_SomeD [OF that] by (auto simp: list_ex_iff)
  have "k = dg_id d" if "map_of (ua_calls (put_call d v)) k = Some x" "live x" for k x
    using that none by (auto split: if_splits)
  then show ?case unfolding one_live_def by metis
qed (simp_all add: one_live_def)

lemma let_in_same: "ua_allow_from v = ua_allow_from u \<Longrightarrow> let_in v = let_in u"
  by (simp add: let_in_def fun_eq_iff allowed_same [of v u])

lemma moves_admitted: "moves u v \<Longrightarrow> admitted u \<Longrightarrow> admitted v"
proof (induction rule: moves.induct)
  case (moves_put u v d' d)
  have a: "let_in (put_call d' v) = let_in v" by (rule let_in_same) (simp add: put_call_def)
  have v: "admitted v" using moves_put by blast
  have "dg_incoming d' \<Longrightarrow> let_in v d'" using v moves_put.hyps(2,3) by (auto simp: admitted_def keeps_def let_in_def)
  then show ?case using v unfolding admitted_def put_get a by (auto split: if_splits)
next
  case (moves_hook u v es)
  have "let_in (v\<lparr>ua_ended := es\<rparr>) = let_in v" by (rule let_in_same) simp
  then show ?case using moves_hook by (simp add: admitted_def)
next
  case (moves_new u v d)
  have a: "let_in (put_call d v) = let_in v" by (rule let_in_same) (simp add: put_call_def)
  have "admitted v" using moves_new by blast
  then show ?case using moves_new.hyps(3) unfolding admitted_def put_get a
    by (auto simp: fresh_call_def split: if_splits)
qed simp

lemma moves_keeps: "moves u v \<Longrightarrow> map_of (ua_calls u) (Some k) = Some d \<Longrightarrow> \<exists>d'. map_of (ua_calls v) (Some k) = Some d' \<and> keeps d d'"
proof (induction arbitrary: d rule: moves.induct)
  case (moves_put u v e' e)
  then obtain d' where d': "map_of (ua_calls v) (Some k) = Some d'" "keeps d d'" by blast
  show ?case
  proof (cases "dg_id e' = Some k")
    case True
    then have "e = d'" using moves_put.hyps(2) d'(1) by simp
    then show ?thesis using True keeps_trans [OF d'(2)] moves_put.hyps(3) by simp
  qed (use d' in simp)
next
  case (moves_new u v e)
  then obtain d' where d': "map_of (ua_calls v) (Some k) = Some d'" "keeps d d'" by blast
  then have "dg_id e \<noteq> Some k" using moves_new.hyps(4) by auto
  then show ?case using d' by simp
qed (auto intro: keeps_refl)

lemma moves_keys: "moves u v \<Longrightarrow> distinct (map fst (ua_calls u)) \<Longrightarrow> distinct (map fst (ua_calls v))"
  by (induction rule: moves.induct) (simp_all add: put_call_def distinct_update)

lemma one_live_length:
  assumes "one_live u" and "distinct (map fst (ua_calls u))"
  shows "length (filter (live \<circ> snd) (ua_calls u)) \<le> 1"
proof (rule ccontr)
  assume "\<not> length (filter (live \<circ> snd) (ua_calls u)) \<le> 1"
  then obtain x y r where f: "filter (live \<circ> snd) (ua_calls u) = x # y # r"
    by (cases "filter (live \<circ> snd) (ua_calls u)" rule: remdups_adj.cases) auto
  have "{x, y} \<subseteq> set (filter (live \<circ> snd) (ua_calls u))" unfolding f by simp
  then have "x \<in> set (ua_calls u)" "y \<in> set (ua_calls u)" "live (snd x)" "live (snd y)" by auto
  then have "fst x = fst y" using assms unfolding one_live_def by (metis map_of_is_SomeI prod.collapse)
  moreover have "distinct (map fst (filter (live \<circ> snd) (ua_calls u)))" using assms(2) by (simp add: distinct_map_filter)
  ultimately show False by (simp add: f)
qed


text \<open>C12. Every call was opened by an INVITE that the allow list admitted, from the address it was admitted for.\<close>

theorem calls_admitted:
  assumes "ua_calls u = []" and "(k, d) \<in> set (ua_calls (ua_run pending u es))" and "dg_incoming d"
  shows "\<exists>m a. dg_invite d = Some m \<and> dg_source d = Some a \<and> is_allowed u m a = Inr True"
proof -
  have m: "moves u (ua_run pending u es)" by (rule run_moves) (simp add: named_def assms(1))
  have "distinct (map fst (ua_calls (ua_run pending u es)))" by (rule moves_keys [OF m]) (simp add: assms(1))
  then have s: "map_of (ua_calls (ua_run pending u es)) k = Some d" using assms(2) by simp
  have "admitted (ua_run pending u es)" by (rule moves_admitted [OF m]) (simp add: admitted_def assms(1))
  then have "let_in (ua_run pending u es) d" using s assms(3) by (simp add: admitted_def)
  then show ?thesis by (simp add: let_in_same [OF moves_config [OF m]] let_in_def)
qed


section \<open>Callers that get stuck\<close>

lemma busy_refuses:
  assumes "map_of (ua_calls u) k = Some d" and "live d" and "is_allowed u m addr = Inr True"
  shows "on_invite fr m addr None u = send_msg (make_response u m 486 ''Busy Here'' (Some (fr_refusal fr)) [] (Some addr) None) addr u"
proof -
  have "list_ex (\<lambda>(k, d). live d) (ua_calls u)" using map_of_SomeD [OF assms(1)] assms(2) by (auto simp: list_ex_iff)
  then show ?thesis using assms(3) by (simp add: on_invite_def)
qed

text \<open>
  An INVITE without a \<open>Call-ID\<close> is stored before its name is cut for the log, which raises: nothing is answered, no
  thread will answer it, and since no request names it, every later caller is told busy.
\<close>

theorem nameless_call_blocks:
  assumes "get_header ''call-id'' m = Inr None" and "is_allowed u m addr = Inr True" and "\<not> list_ex (\<lambda>(k, d). live d) (ua_calls u)"
    and "ua_auto_answer u" and "incoming_call u fr m addr = Inr d"
  shows "on_invite fr m addr None u = (put_call d u, [], Some TypeError) \<and>
    (\<forall>fr2 port. answer_dialog fr2 port None (put_call d u) = (put_call d u, [], None)) \<and>
    (\<forall>fr2 m2 addr2. is_allowed u m2 addr2 = Inr True \<longrightarrow>
       on_invite fr2 m2 addr2 None (put_call d u) =
         send_msg (make_response (put_call d u) m2 486 ''Busy Here'' (Some (fr_refusal fr2)) [] (Some addr2) None) addr2 (put_call d u))"
proof (intro conjI allI impI)
  have id: "dg_id d = None" using incoming_id [OF assms(5)] assms(1) by simp
  have st: "dg_state d = CRinging" "\<not> dg_answering d" using assms(5) by (auto simp: incoming_call_def try_r_Inr_iff new_dialog_def)
  show "on_invite fr m addr None u = (put_call d u, [], Some TypeError)"
    using assms id by (simp add: on_invite_def Let_def)
  fix fr2 port
  show "answer_dialog fr2 port None (put_call d u) = (put_call d u, [], None)" using st by (simp add: answer_dialog_def id)
  fix m2 addr2 assume a: "is_allowed u m2 addr2 = Inr True"
  have "is_allowed (put_call d u) = is_allowed u" by (rule allowed_same) (simp add: put_call_def)
  then show "on_invite fr2 m2 addr2 None (put_call d u) =
         send_msg (make_response (put_call d u) m2 486 ''Busy Here'' (Some (fr_refusal fr2)) [] (Some addr2) None) addr2 (put_call d u)"
    using busy_refuses [of "put_call d u" None d] a id st by (simp add: live_def)
qed

text \<open>
  An offer that cannot be parsed ends the answering thread: the call stays ringing, the caller gets no final answer, and
  every other caller is told busy.
\<close>

theorem bad_offer_blocks:
  assumes "named u" and "map_of (ua_calls u) k = Some d" and "dg_answering d" and "dg_state d = CRinging" and "dg_invite d = Some m"
    and "sm_body m \<noteq> []" and "parse_sdp (sm_body m) = Inl e" and "answer_dialog fr port k u = (v, out, err)"
  shows "out = [] \<and> err = Some e \<and> (\<exists>d'. map_of (ua_calls v) k = Some d' \<and> dg_state d' = CRinging \<and> \<not> dg_answering d') \<and>
    (\<forall>fr2 m2 addr2. is_allowed v m2 addr2 = Inr True \<longrightarrow>
       on_invite fr2 m2 addr2 None v = send_msg (make_response v m2 486 ''Busy Here'' (Some (fr_refusal fr2)) [] (Some addr2) None) addr2 v)"
proof -
  let ?d = "d\<lparr>dg_answering := False, dg_rtp_port := Some port\<rparr>"
  have id: "dg_id d = k" using assms(1,2) by (simp add: named_def)
  have v: "v = put_call ?d u" "out = []" "err = Some e" using assms by (auto simp: answer_dialog_def Let_def)
  have "map_of (ua_calls v) k = Some ?d" by (simp add: v(1) id)
  then show ?thesis using v(2,3) assms(4) busy_refuses [of v k ?d] by (auto simp: live_def)
qed

text \<open>A caller whose address is no SIP address, as behind a telephone gateway, gets no answer at all.\<close>

theorem tel_caller_unanswered:
  assumes "sip_method m = Inr (lit ''INVITE'')" and "get_header ''call-id'' m = Inr cid" and "map_of (ua_calls u) (Some (or_empty cid)) = None"
    and "is_allowed u m addr = Inr True" and "\<not> list_ex (\<lambda>(k, d). live d) (ua_calls u)" and "ua_auto_answer u"
    and "get_header ''from'' m = Inr (Some f)" and "f \<noteq> []" and "parse_uri (fst (snd (parse_nameaddr f))) = Inl e"
    and "get_header ''to'' m = Inr to" and "get_header ''contact'' m = Inr con"
  shows "handle_request fr m addr u = (u, [], Some e)"
  using assms by (cases con) (auto simp: handle_request_def on_invite_def incoming_call_def)

section \<open>An example\<close>

text \<open>A user agent without calls, a caller and its INVITE.\<close>

definition demo_ua :: ua where
  "demo_ua = \<lparr>ua_user = lit ''bob'', ua_domain = None, ua_bind_ip = lit ''10.0.0.2'', ua_port = 5060, ua_public_ip = None,
     ua_route = (\<lambda>_. lit ''10.0.0.2''), ua_resolve = (\<lambda>h p. Inr (h, 5060)), ua_proxy = None, ua_codecs = [PCMU, PCMA], ua_allow_from = [],
     ua_auto_answer = True, ua_nat = None, ua_calls = [], ua_ended = []\<rparr>"

definition demo_peer :: sock_addr where
  "demo_peer = (lit ''10.0.0.1'', 5060)"

definition demo_invite :: sip_msg where
  "demo_invite = new_msg (lit ''INVITE sip:bob@10.0.0.2 SIP/2.0'')
     [(lit ''Via'', lit ''SIP/2.0/UDP 10.0.0.1:5060;branch=z9hG4bKa''), (lit ''From'', lit ''<sip:al@10.0.0.1>;tag=a''),
      (lit ''To'', lit ''<sip:bob@10.0.0.2>''), (lit ''Call-ID'', lit ''c1''), (lit ''CSeq'', lit ''1 INVITE''),
      (lit ''Contact'', lit ''<sip:al@10.0.0.1>'')] []"

definition demo_fresh :: fresh where
  "demo_fresh = \<lparr>fr_refusal = lit ''r'', fr_tag = lit ''t1'', fr_sess = 1, fr_cseq = 7, fr_rand = 5\<rparr>"

lemma demo_reads:
  "raw_header (lit ''call-id'') demo_invite = Some (lit ''c1'')" "raw_header (lit ''to'') demo_invite = Some (lit ''<sip:bob@10.0.0.2>'')"
  "raw_header (lit ''from'') demo_invite = Some (lit ''<sip:al@10.0.0.1>;tag=a'')" "raw_header (lit ''contact'') demo_invite = Some (lit ''<sip:al@10.0.0.1>'')"
  by (simp_all add: raw_header_def demo_invite_def new_msg_def canon_names lit_eq)

lemma demo_address:
  "parse_nameaddr (lit ''<sip:al@10.0.0.1>;tag=a'') = ([], lit ''sip:al@10.0.0.1'', [(lit ''tag'', lit ''a'')])"
  "parse_nameaddr (lit ''<sip:al@10.0.0.1>'') = ([], lit ''sip:al@10.0.0.1'', [])"
  "split_commas (lit ''<sip:al@10.0.0.1>'') = [lit ''<sip:al@10.0.0.1>'']"
  by (simp_all add: parse_nameaddr_def split_commas_def strip_space_def is_space_def lit_def partition_at_def strip_chars_def parse_params_def
      py_lower_def lower_char_def Let_def)

lemma demo_uri: "parse_uri (lit ''sip:al@10.0.0.1'') = Inr \<lparr>su_scheme = lit ''sip'', su_user = lit ''al'', su_host = lit ''10.0.0.1'', su_port = None, su_params = []\<rparr>"
  by (simp add: parse_uri_def lit_def match_scheme_def match_address_def match_user_def match_host_def Let_def
      strip_space_def is_space_def partition_at_def strip_chars_def parse_params_def py_lower_def lower_char_def)


definition demo_call :: dialog where
  "demo_call = (new_dialog (Some (lit ''c1'')) True (lit ''t1'') 1)
     \<lparr>dg_invite := Some (with_length demo_invite), dg_source := Some demo_peer, dg_local_ip := lit ''10.0.0.2'',
      dg_local_hdr := lit ''<sip:bob@10.0.0.2>;tag=t1'', dg_remote_hdr := lit ''<sip:al@10.0.0.1>;tag=a'', dg_remote_target := lit ''sip:al@10.0.0.1'',
      dg_cseq := 7, dg_remote_user := lit ''al'', dg_state := CRinging\<rparr>"

lemma demo_incoming: "incoming_call demo_ua demo_fresh (with_length demo_invite) demo_peer = Inr demo_call"
proof -
  have rr: "get_all ''record-route'' (with_length demo_invite) = []"
    by (simp add: get_all_def with_length_def set_header_def add_header_def remove_header_def demo_invite_def new_msg_def canon_names lit_eq)
  have "lit ''0.0.0.0'' \<noteq> lit ''10.0.0.2''" "lit ''10.0.0.2'' \<noteq> []" "lit ''<sip:al@10.0.0.1>'' \<noteq> []" "lit ''<sip:al@10.0.0.1>;tag=a'' \<noteq> []"
    by (simp_all add: lit_def)
  moreover have "lit ''<sip:bob@10.0.0.2>'' @ lit '';tag='' @ lit ''t1'' = lit ''<sip:bob@10.0.0.2>;tag=t1''" by (simp add: lit_def)
  ultimately show ?thesis
    by (simp add: incoming_call_def get_raw canon_names multi_names raw_with_length lit_eq demo_reads demo_address demo_uri item_def rr
        demo_call_def local_ip_def demo_ua_def demo_fresh_def demo_peer_def or_empty_def new_dialog_def)
qed

lemma demo_facts:
  "ua_allow_from demo_ua = []" "ua_auto_answer demo_ua" "ua_calls demo_ua = []" "named demo_ua" "dg_id demo_call = Some (lit ''c1'')"
  "dg_incoming demo_call" "dg_state demo_call = CRinging"
  by (simp_all add: demo_ua_def demo_call_def new_dialog_def named_def)

lemma demo_line: "is_request (with_length demo_invite)" "sip_method (with_length demo_invite) = Inr (lit ''INVITE'')"
proof -
  have s: "sm_start (with_length demo_invite) = lit ''INVITE sip:bob@10.0.0.2 SIP/2.0''"
    by (simp add: with_length_def set_header_def add_header_def remove_header_def demo_invite_def new_msg_def lit_def strip_space_def is_space_def)
  show "is_request (with_length demo_invite)" by (simp add: is_request_def s) (simp add: lit_def starts_with_def)
  then show "sip_method (with_length demo_invite) = Inr (lit ''INVITE'')"
    by (simp add: sip_method_def s) (simp add: lit_def partition_at_def py_upper_def upper_char_def UPPER_SPECIAL_def)
qed

lemma demo_bytes: "\<exists>b. parse_msg b = Inr (with_length demo_invite) \<and> \<not> blank_bytes b"
proof -
  have ok: "msg_ok demo_invite"
    by (simp add: demo_invite_def new_msg_def msg_ok_def start_ok_def header_ok_def trimmed_def is_space_def lit_def scalar_def is_high_def is_low_def
        starts_with_def strip_space_def)
  obtain b where b: "to_bytes demo_invite = Inr b" "parse_msg b = Inr (with_length demo_invite)"
    using read_back [OF ok] by (auto simp: try_r_Inr_iff)
  have "sm_start demo_invite = 73 # lit ''NVITE sip:bob@10.0.0.2 SIP/2.0''"
    by (simp add: demo_invite_def new_msg_def lit_def strip_space_def is_space_def)
  then have "\<not> blank_bytes b" using b(1)
    by (cases "map header_line (sm_headers (with_length demo_invite))")
      (auto simp: to_bytes_def utf8_encode_def try_r_Inr_iff blank_bytes_def utf8_char_def split: if_split_asm)
  then show ?thesis using b by blast
qed

text \<open>A caller that is let in while no call is live is rung.\<close>

lemma invite_stored:
  assumes "is_allowed u m addr = Inr True" and "\<not> list_ex (\<lambda>(k, d). live d) (ua_calls u)" and "ua_auto_answer u" and "named u"
    and "incoming_call u fr m addr = Inr d" and "dg_id d = Some k" and "map_of (ua_calls u) (Some k) = None"
  shows "\<exists>d'. map_of (ua_calls (fst (on_invite fr m addr None u))) (Some k) = Some d' \<and> keeps d d'"
proof -
  have "moves (put_call d u) (fst (on_invite fr m addr None u))"
    using assms ring_moves [OF named_put [OF assms(4)], of d d "make_response (put_call d u) m 100 ''Trying'' None [] (Some addr) None" addr]
    by (simp add: on_invite_def Let_def)
  then show ?thesis by (rule moves_keeps) (simp add: assms(6))
qed

lemma demo_run:
  "\<exists>b d. map_of (ua_calls (ua_run [] demo_ua [Datagram demo_fresh (b, demo_peer)])) (Some (lit ''c1'')) = Some d \<and> dg_incoming d"
proof -
  obtain b where b: "parse_msg b = Inr (with_length demo_invite)" "\<not> blank_bytes b" using demo_bytes by blast
  have h: "handle_request demo_fresh (with_length demo_invite) demo_peer demo_ua =
      on_invite demo_fresh (with_length demo_invite) demo_peer None demo_ua"
    by (simp add: handle_request_def demo_line get_raw canon_names multi_names raw_with_length lit_eq demo_reads demo_facts)
  have "\<exists>d'. map_of (ua_calls (fst (on_invite demo_fresh (with_length demo_invite) demo_peer None demo_ua))) (Some (lit ''c1'')) = Some d' \<and> keeps demo_call d'"
    by (rule invite_stored [OF _ _ _ _ demo_incoming]) (simp_all add: is_allowed_def demo_facts)
  then show ?thesis using b by (auto simp: ua_run_def ua_step_def ua_receive_def h demo_line keeps_def demo_facts intro!: exI [of _ b])
qed


lemma calls_admitted_witness:
  "\<exists>b d m a. (Some (lit ''c1''), d) \<in> set (ua_calls (ua_run [] demo_ua [Datagram demo_fresh (b, demo_peer)])) \<and>
     dg_invite d = Some m \<and> dg_source d = Some a \<and> is_allowed demo_ua m a = Inr True"
proof -
  obtain b d where b: "map_of (ua_calls (ua_run [] demo_ua [Datagram demo_fresh (b, demo_peer)])) (Some (lit ''c1'')) = Some d" "dg_incoming d"
    using demo_run by blast
  show ?thesis using calls_admitted [OF demo_facts(3) map_of_SomeD [OF b(1)] b(2)] map_of_SomeD [OF b(1)] by blast
qed


end
