(* ===== verification/Sip_Digest.thy ===== *)
theory Sip_Digest
  imports Sip_Message
begin

text \<open>
  Digest authentication in \<^verbatim>\<open>voip/s22-sip.py\<close>: the challenge of a server, the response to it and the header that
  carries it. The hash functions and the letters outside ASCII (\<open>\w\<close> of a regular expression) are parameters.
\<close>

record crypto =
  cr_md5 :: "bytes \<Rightarrow> pystr"
  cr_sha256 :: "bytes \<Rightarrow> pystr"
  cr_alnum :: "nat \<Rightarrow> bool"

section \<open>Challenges\<close>

text \<open>
  \<open>re.finditer(r'([\w-]+)\s*=\s*("(?:[^"\\]|\\.)*"|[^,\s]+)', rest)\<close>: a name, an equals sign, and a quoted string or a token; a
  quote that is never closed begins a token.
\<close>

definition name_char :: "crypto \<Rightarrow> nat \<Rightarrow> bool" where
  "name_char cr c \<longleftrightarrow>
     48 \<le> c \<and> c \<le> 57 \<or> 65 \<le> c \<and> c \<le> 90 \<or> 97 \<le> c \<and> c \<le> 122 \<or> c = 95 \<or> c = 45 \<or> 128 \<le> c \<and> cr_alnum cr c"

fun quoted_rest :: "pystr \<Rightarrow> (pystr \<times> pystr) option" where
  "quoted_rest [] = None"
| "quoted_rest (c # s) =
     (if c = 34 then Some ([], s)
      else if c = 92 then
        (case s of
           [] \<Rightarrow> None
         | e # t \<Rightarrow> if e = 10 then None else map_option (\<lambda>(v, r). (c # e # v, r)) (quoted_rest t))
      else map_option (\<lambda>(v, r). (c # v, r)) (quoted_rest s))"

definition token_end :: "nat \<Rightarrow> bool" where
  "token_end c \<longleftrightarrow> c = 44 \<or> is_space c"

definition field_value :: "pystr \<Rightarrow> (pystr \<times> pystr) option" where
  "field_value s =
     (case (if take 1 s = [34] then quoted_rest (drop 1 s) else None) of
        Some vr \<Rightarrow> Some vr
      | None \<Rightarrow>
          (let t = takeWhile (\<lambda>c. \<not> token_end c) s in
           if t = [] then None
           else Some (if hd t = 34 then butlast (tl t) else t, drop (length t) s)))"

lemma quoted_rest_shorter: "quoted_rest s = Some (v, r) \<Longrightarrow> length r < length s"
  by (induction s arbitrary: v r rule: quoted_rest.induct) (auto split: if_splits list.splits simp: less_Suc_eq)

lemma field_value_shorter: "field_value s = Some (v, r) \<Longrightarrow> length r < length s"
proof -
  assume a: "field_value s = Some (v, r)"
  show ?thesis
  proof (cases "if take 1 s = [34] then quoted_rest (drop 1 s) else None")
    case None
    then have "r = drop (length (takeWhile (\<lambda>c. \<not> token_end c) s)) s" "takeWhile (\<lambda>c. \<not> token_end c) s \<noteq> []"
      using a unfolding field_value_def None by (auto simp: Let_def split: if_splits)
    then show ?thesis by (cases s) (auto simp: length_takeWhile_le split: if_splits)
  next
    case (Some x)
    then have "x = (v, r)" using a unfolding field_value_def Some by simp
    then have "quoted_rest (drop 1 s) = Some (v, r)" using Some by (auto split: if_splits)
    from quoted_rest_shorter [OF this] show ?thesis by simp
  qed
qed

function scan_fields :: "crypto \<Rightarrow> pystr \<Rightarrow> (pystr \<times> pystr) list" where
  "scan_fields cr s =
     (let name = takeWhile (name_char cr) s;
          r = dropWhile is_space (drop (length name) s)
      in if s = [] then []
         else if name \<noteq> [] \<and> take 1 r = [61] then
           (case field_value (dropWhile is_space (drop 1 r)) of
              Some (v, r2) \<Rightarrow> (name, v) # scan_fields cr r2
            | None \<Rightarrow> scan_fields cr (tl s))
         else scan_fields cr (tl s))"
  by pat_completeness auto
termination
proof (relation "measure (\<lambda>(cr, s). length s)")
  fix cr s name r x v r2
  assume "name = takeWhile (name_char cr) s" and r: "r = dropWhile is_space (drop (length name) s)"
    and "field_value (dropWhile is_space (drop 1 r)) = Some x" "(v, r2) = x"
  then have "length r2 < length (dropWhile is_space (drop 1 r))" using field_value_shorter by blast
  also have "\<dots> \<le> length (drop 1 r)" by (rule length_dropWhile_le)
  also have "\<dots> \<le> length r" by simp
  also have "\<dots> \<le> length (drop (length name) s)" unfolding r by (rule length_dropWhile_le)
  also have "\<dots> \<le> length s" by simp
  finally show "((cr, r2), (cr, s)) \<in> measure (\<lambda>(cr, s). length s)" by simp
qed auto

declare scan_fields.simps [simp del]

definition parse_challenge :: "crypto \<Rightarrow> pystr \<Rightarrow> pystr \<times> (pystr, pystr) dict" where
  "parse_challenge cr value =
     (let (scheme, rest) = partition_at (strip_space value) 32
      in (scheme, foldl (\<lambda>d (k, v). AList.update (py_lower k) v d) [] (scan_fields cr rest)))"

section \<open>Responses\<close>

fun remove_all :: "pystr \<Rightarrow> pystr \<Rightarrow> pystr" where
  "remove_all p [] = []"
| "remove_all p (c # s) = (if p \<noteq> [] \<and> starts_with p (c # s) then remove_all p (drop (length p - 1) s) else c # remove_all p s)"

definition digest_hash :: "crypto \<Rightarrow> pystr \<Rightarrow> pystr \<Rightarrow> pyerr + pystr" where
  "digest_hash cr alg s =
     (let base = remove_all (lit ''-SESS'') (py_upper alg) in
      if base = [] \<or> base = lit ''MD5'' then try_r (utf8_encode s) (\<lambda>b. Inr (cr_md5 cr b))
      else if base = lit ''SHA-256'' then try_r (utf8_encode s) (\<lambda>b. Inr (cr_sha256 cr b))
      else Inl ValueError)"

definition ends_with :: "pystr \<Rightarrow> pystr \<Rightarrow> bool" where
  "ends_with p s \<longleftrightarrow> starts_with (rev p) (rev s)"

definition colons :: "pystr list \<Rightarrow> pystr" where
  "colons parts = join_with [58] parts"

definition digest_response ::
    "crypto \<Rightarrow> pystr \<Rightarrow> pystr \<Rightarrow> pystr \<Rightarrow> pystr \<Rightarrow> pystr \<Rightarrow> pystr \<Rightarrow> pystr option \<Rightarrow> pystr \<Rightarrow> pystr \<Rightarrow> pystr \<Rightarrow> pyerr + pystr" where
  "digest_response cr username password realm nonce meth uri qop nc cnonce alg =
     try_r (digest_hash cr alg (colons [username, realm, password])) (\<lambda>h.
     try_r (if ends_with (lit ''-SESS'') (py_upper alg) then digest_hash cr alg (colons [h, nonce, cnonce]) else Inr h) (\<lambda>ha1.
     try_r (digest_hash cr alg (colons [meth, uri])) (\<lambda>ha2.
       case qop of
         Some q \<Rightarrow> if q = [] then digest_hash cr alg (colons [ha1, nonce, ha2]) else digest_hash cr alg (colons [ha1, nonce, nc, cnonce, q, ha2])
       | None \<Rightarrow> digest_hash cr alg (colons [ha1, nonce, ha2]))))"

text \<open>\<open>f'{nc:08x}'\<close>.\<close>

definition nc_text :: "nat \<Rightarrow> pystr" where
  "nc_text n = replicate (8 - length (hex_digits n)) 48 @ hex_digits n"

definition field :: "string \<Rightarrow> (pystr, pystr) dict \<Rightarrow> pystr \<Rightarrow> pystr" where
  "field k d dflt = (case map_of d (lit k) of None \<Rightarrow> dflt | Some v \<Rightarrow> v)"

definition quoted_field :: "string \<Rightarrow> pystr \<Rightarrow> pystr" where
  "quoted_field k v = lit k @ [61, 34] @ v @ [34]"

definition token_field :: "string \<Rightarrow> pystr \<Rightarrow> pystr" where
  "token_field k v = lit k @ [61] @ v"

text \<open>\<open>secret\<close> is the random client nonce, used unless one is given.\<close>

definition authorization_value ::
    "crypto \<Rightarrow> (pystr, pystr) dict \<Rightarrow> pystr \<Rightarrow> pystr \<Rightarrow> pystr \<Rightarrow> pystr \<Rightarrow> nat \<Rightarrow> pystr option \<Rightarrow> pystr \<Rightarrow> pyerr + pystr" where
  "authorization_value cr chal username password meth uri nc given secret =
     (let alg = field ''algorithm'' chal (lit ''MD5'');
          qops = filter (\<lambda>q. q \<noteq> []) (map strip_space (split_at_char 44 (field ''qop'' chal [])));
          qop = (if lit ''auth'' \<in> set qops then Some (lit ''auth'') else None);
          cnonce = (case given of Some c \<Rightarrow> if c \<noteq> [] then c else secret | None \<Rightarrow> secret);
          realm = field ''realm'' chal []; nonce = field ''nonce'' chal []
      in try_r (digest_response cr username password realm nonce meth uri qop (nc_text nc) cnonce alg) (\<lambda>resp.
           Inr (lit ''Digest '' @ join_with (lit '', '')
             ([quoted_field ''username'' username, quoted_field ''realm'' realm, quoted_field ''nonce'' nonce, quoted_field ''uri'' uri,
               quoted_field ''response'' resp, token_field ''algorithm'' alg] @
              (case qop of None \<Rightarrow> [] | Some q \<Rightarrow> [token_field ''qop'' q, token_field ''nc'' (nc_text nc), quoted_field ''cnonce'' cnonce]) @
              (case map_of chal (lit ''opaque'') of None \<Rightarrow> [] | Some o' \<Rightarrow> [quoted_field ''opaque'' o'])))))"

section \<open>A server reads what we answer\<close>

datatype auth_field = Quoted string pystr | Token string pystr

fun field_text :: "auth_field \<Rightarrow> pystr" where
  "field_text (Quoted k v) = quoted_field k v"
| "field_text (Token k v) = token_field k v"

fun field_pair :: "auth_field \<Rightarrow> pystr \<times> pystr" where
  "field_pair (Quoted k v) = (lit k, v)"
| "field_pair (Token k v) = (lit k, v)"

definition field_name_ok :: "string \<Rightarrow> bool" where
  "field_name_ok k \<longleftrightarrow> k \<noteq> [] \<and> list_all (\<lambda>c. 97 \<le> (of_char c :: nat) \<and> (of_char c :: nat) \<le> 122) k"

fun field_ok :: "auth_field \<Rightarrow> bool" where
  "field_ok (Quoted k v) \<longleftrightarrow> field_name_ok k \<and> 34 \<notin> set v \<and> 92 \<notin> set v"
| "field_ok (Token k v) \<longleftrightarrow> field_name_ok k \<and> v \<noteq> [] \<and> hd v \<noteq> 34 \<and> list_all (\<lambda>c. \<not> token_end c) v"

lemma take_name:
  assumes "field_name_ok k"
  shows "takeWhile (name_char cr) (lit k @ 61 # r) = lit k" "lit k \<noteq> []"
proof -
  have "\<forall>c \<in> set (lit k). name_char cr c" using assms by (auto simp: field_name_ok_def lit_def name_char_def list_all_iff)
  moreover have "\<not> name_char cr 61" by (simp add: name_char_def)
  ultimately show "takeWhile (name_char cr) (lit k @ 61 # r) = lit k" by (simp add: takeWhile_append2)
  show "lit k \<noteq> []" using assms by (simp add: field_name_ok_def lit_def)
qed

lemma quoted_read: "34 \<notin> set v \<Longrightarrow> 92 \<notin> set v \<Longrightarrow> quoted_rest (v @ 34 # r) = Some (v, r)"
  by (induction v) auto

lemma token_read:
  assumes "v \<noteq> []" and "hd v \<noteq> 34" and "list_all (\<lambda>c. \<not> token_end c) v" and "r = [] \<or> token_end (hd r)"
  shows "field_value (v @ r) = Some (v, r)"
proof -
  have "takeWhile (\<lambda>c. \<not> token_end c) (v @ r) = v"
    using assms(3,4) by (cases r) (auto simp: list_all_iff takeWhile_append2 takeWhile_eq_all_conv)
  then show ?thesis using assms(1,2) by (cases v) (simp_all add: field_value_def)
qed

lemma field_read:
  assumes "field_ok f" and "r = [] \<or> hd r = 44"
  shows "scan_fields cr (field_text f @ r) = field_pair f # scan_fields cr r"
proof -
  have eq: "\<not> is_space 61" "\<not> is_space 34" by (simp_all add: is_space_def)
  show ?thesis
  proof (cases f)
    case (Quoted k v)
    then have k: "field_name_ok k" "34 \<notin> set v" "92 \<notin> set v" using assms(1) by simp_all
    have fv: "field_value (34 # v @ 34 # r) = Some (v, r)" using quoted_read [OF k(2,3)] by (simp add: field_value_def)
    show ?thesis using take_name(1) [OF k(1), of cr "34 # v @ 34 # r"] take_name(2) [OF k(1)] fv eq
      by (subst scan_fields.simps) (simp add: Quoted quoted_field_def)
  next
    case (Token k v)
    then have k: "field_name_ok k" "v \<noteq> []" "hd v \<noteq> 34" "list_all (\<lambda>c. \<not> token_end c) v" using assms(1) by simp_all
    have fv: "field_value (v @ r) = Some (v, r)" by (rule token_read [OF k(2-4)]) (use assms(2) in \<open>auto simp: token_end_def\<close>)
    have "\<not> is_space (hd v)" using k(2,4) by (cases v) (auto simp: token_end_def)
    then have "dropWhile is_space (v @ r) = v @ r" using k(2) by (cases v) auto
    then show ?thesis using take_name(1) [OF k(1), of cr "v @ r"] take_name(2) [OF k(1)] fv eq k(2)
      by (subst scan_fields.simps) (simp add: Token token_field_def)
  qed
qed

lemma fields_read:
  assumes "list_all field_ok fs"
  shows "scan_fields cr (join_with (lit '', '') (map field_text fs)) = map field_pair fs"
  using assms
proof (induction fs)
  case (Cons f fs)
  have sep: "scan_fields cr (lit '', '' @ r) = scan_fields cr r" for r
  proof -
    have n: "\<not> name_char cr 44" "\<not> name_char cr 32" by (simp_all add: name_char_def)
    show ?thesis by (subst scan_fields.simps, subst scan_fields.simps) (use n in \<open>simp add: lit_def\<close>)
  qed
  show ?case
  proof (cases fs)
    case Nil
    then show ?thesis using field_read [of f "[]" cr] Cons.prems by (simp add: scan_fields.simps [where s = "[]"])
  next
    case (Cons g gs)
    have "hd (lit '', '' @ r) = 44" for r by (simp add: lit_def)
    then show ?thesis using field_read [of f _ cr] Cons.prems Cons.IH sep by (simp add: Cons)
  qed
qed (simp add: scan_fields.simps)

definition quotable :: "pystr \<Rightarrow> bool" where
  "quotable v \<longleftrightarrow> 34 \<notin> set v \<and> 92 \<notin> set v"

definition token_ok :: "pystr \<Rightarrow> bool" where
  "token_ok v \<longleftrightarrow> v \<noteq> [] \<and> hd v \<noteq> 34 \<and> list_all (\<lambda>c. \<not> token_end c) v"

lemma hex_digits_shape: "hex_digits n \<noteq> [] \<and> (\<forall>c \<in> set (hex_digits n). 48 \<le> c \<and> c \<le> 102)"
proof (induction n rule: hex_digits.induct)
  case (1 n)
  have d: "48 \<le> hex_digit k \<and> hex_digit k \<le> 102" if "k < 16" for k using that by (auto simp: hex_digit_def)
  show ?case using 1 d [of n] d [of "n mod 16"] by (subst (1 2) hex_digits.simps) auto
qed

lemma nc_token: "token_ok (nc_text n)"
proof -
  have s: "\<forall>c \<in> set (nc_text n). 48 \<le> c \<and> c \<le> 102" "nc_text n \<noteq> []" using hex_digits_shape [of n] by (auto simp: nc_text_def)
  have e: "\<not> token_end c \<and> c \<noteq> 34" if "48 \<le> c \<and> c \<le> 102" for c using that by (auto simp: token_end_def is_space_def)
  have "hd (nc_text n) \<in> set (nc_text n)" using s(2) by simp
  then have "hd (nc_text n) \<noteq> 34" using s(1) e by blast
  moreover have "list_all (\<lambda>c. \<not> token_end c) (nc_text n)" using s(1) e by (simp add: list_all_iff)
  ultimately show ?thesis using s(2) by (simp add: token_ok_def)
qed

definition auth_fields ::
    "(pystr, pystr) dict \<Rightarrow> pystr \<Rightarrow> pystr \<Rightarrow> nat \<Rightarrow> pystr \<Rightarrow> pystr \<Rightarrow> pystr \<Rightarrow> pystr option \<Rightarrow> auth_field list" where
  "auth_fields chal username uri nc cnonce alg resp qop =
     [Quoted ''username'' username, Quoted ''realm'' (field ''realm'' chal []), Quoted ''nonce'' (field ''nonce'' chal []),
      Quoted ''uri'' uri, Quoted ''response'' resp, Token ''algorithm'' alg] @
     (case qop of None \<Rightarrow> [] | Some q \<Rightarrow> [Token ''qop'' q, Token ''nc'' (nc_text nc), Quoted ''cnonce'' cnonce]) @
     (case map_of chal (lit ''opaque'') of None \<Rightarrow> [] | Some x \<Rightarrow> [Quoted ''opaque'' x])"

lemma lower_fields:
  assumes "field_name_ok k"
  shows "py_lower (lit k) = lit k"
proof -
  have "py_lower (lit k) = lit k" if "list_all (\<lambda>c. 97 \<le> (of_char c :: nat) \<and> (of_char c :: nat) \<le> 122) k" for k
    using that by (induction k) (auto simp: py_lower_def lit_def lower_char_def)
  then show ?thesis using assms by (simp add: field_name_ok_def)
qed

lemma challenge_fields:
  assumes "list_all field_ok fs" and "fs \<noteq> []" and "\<not> is_space (List.last (join_with (lit '', '') (map field_text fs)))"
  shows "parse_challenge cr (lit ''Digest '' @ join_with (lit '', '') (map field_text fs)) =
    (lit ''Digest'', foldl (\<lambda>d (k, v). AList.update k v d) [] (map field_pair fs))"
proof -
  let ?j = "join_with (lit '', '') (map field_text fs)"
  have ne: "?j \<noteq> []"
  proof (cases fs)
    case (Cons f gs)
    have "field_text f \<noteq> []" by (cases f) (simp_all add: quoted_field_def token_field_def)
    then show ?thesis using Cons by (cases gs) simp_all
  qed (use assms(2) in simp)
  have t: "strip_space (lit ''Digest '' @ ?j) = lit ''Digest '' @ ?j"
    by (rule trimmed_strip) (use ne assms(3) in \<open>simp add: trimmed_def lit_def is_space_def\<close>)
  have p: "partition_at (lit ''Digest '' @ ?j) 32 = (lit ''Digest'', ?j)"
    using partition_at_cut [of 32 "lit ''Digest''" ?j] by (simp add: lit_def)
  have low: "foldl (\<lambda>d (k, v). AList.update (py_lower k) v d) m (map field_pair fs) = foldl (\<lambda>d (k, v). AList.update k v d) m (map field_pair fs)"
    if "list_all field_ok fs" for m and fs :: "auth_field list"
    using that
  proof (induction fs arbitrary: m)
    case (Cons f fs)
    then show ?case by (cases f) (auto simp: lower_fields)
  qed simp
  show ?thesis unfolding parse_challenge_def t p by (simp add: fields_read [OF assms(1)] low [OF assms(1)])
qed

lemma answer_read:
  assumes "authorization_value cr chal username password meth uri nc given secret = Inr v"
    and "\<forall>b. quotable (cr_md5 cr b) \<and> quotable (cr_sha256 cr b)"
    and "quotable username" and "quotable uri" and "quotable secret" and "given = None"
    and "quotable (field ''realm'' chal [])" and "quotable (field ''nonce'' chal [])" and "quotable (field ''opaque'' chal [])"
    and "token_ok (field ''algorithm'' chal (lit ''MD5''))"
    and "map_of chal (lit ''qop'') = Some (lit ''auth'') \<or> \<not> ends_with (lit ''-SESS'') (py_upper (field ''algorithm'' chal (lit ''MD5'')))"
  shows "\<exists>f. parse_challenge cr v = (lit ''Digest'', f) \<and>
    map_of f (lit ''username'') = Some username \<and> map_of f (lit ''uri'') = Some uri \<and>
    map_of f (lit ''nonce'') = Some (field ''nonce'' chal []) \<and>
    digest_response cr (field ''username'' f []) password (field ''realm'' f []) (field ''nonce'' f []) meth (field ''uri'' f [])
      (map_of f (lit ''qop'')) (field ''nc'' f []) (field ''cnonce'' f []) (field ''algorithm'' f []) = Inr (field ''response'' f [])"
proof -
  define alg where "alg = field ''algorithm'' chal (lit ''MD5'')"
  define realm where "realm = field ''realm'' chal []"
  define nonce where "nonce = field ''nonce'' chal []"
  define qop where "qop = (if lit ''auth'' \<in> set (filter (\<lambda>q. q \<noteq> []) (map strip_space (split_at_char 44 (field ''qop'' chal [])))) then Some (lit ''auth'') else None)"
  obtain resp where resp: "digest_response cr username password realm nonce meth uri qop (nc_text nc) secret alg = Inr resp"
    and v: "v = lit ''Digest '' @ join_with (lit '', '') (map field_text (auth_fields chal username uri nc secret alg resp qop))"
    using assms(1) unfolding authorization_value_def assms(6) option.case Let_def alg_def [symmetric] realm_def [symmetric] nonce_def [symmetric] qop_def [symmetric]
    by (auto simp: try_r_Inr_iff auth_fields_def realm_def nonce_def split: option.splits)
  let ?fs = "auth_fields chal username uri nc secret alg resp qop"
  have q: "qop = None \<or> qop = Some (lit ''auth'')" by (simp add: qop_def)
  have hash: "quotable h" if "digest_hash cr a s = Inr h" for a s h
    using that assms(2) by (auto simp: digest_hash_def Let_def try_r_Inr_iff split: if_splits)
  have rq: "quotable resp" using resp hash by (auto simp: digest_response_def try_r_Inr_iff split: option.splits if_splits)
  have names: "field_name_ok ''username''" "field_name_ok ''realm''" "field_name_ok ''nonce''" "field_name_ok ''uri''" "field_name_ok ''response''"
    "field_name_ok ''algorithm''" "field_name_ok ''qop''" "field_name_ok ''nc''" "field_name_ok ''cnonce''" "field_name_ok ''opaque''"
    by (simp_all add: field_name_ok_def)
  have auth: "token_ok (lit ''auth'')" by (simp add: token_ok_def token_end_def lit_def is_space_def)
  have opq: "quotable x" if "map_of chal (lit ''opaque'') = Some x" for x using that assms(9) by (simp add: field_def)
  have ok: "list_all field_ok ?fs"
    using names q auth opq rq assms(3-5,7,8,10) nc_token [of nc]
    by (auto simp: auth_fields_def quotable_def token_ok_def alg_def realm_def nonce_def split: option.splits)
  have last: "\<not> is_space (List.last (join_with (lit '', '') (map field_text ?fs)))"
  proof -
    have ne: "?fs \<noteq> []" by (simp add: auth_fields_def)
    have t: "field_text g \<noteq> [] \<and> \<not> is_space (List.last (field_text g))" if "field_ok g" for g
    proof (cases g)
      case (Token k w)
      then have "w \<noteq> []" "list_all (\<lambda>c. \<not> token_end c) w" using that by simp_all
      then have "\<not> token_end (List.last w)" by (simp add: list_all_iff)
      then show ?thesis using Token \<open>w \<noteq> []\<close> by (simp add: token_field_def token_end_def)
    qed (simp add: quoted_field_def is_space_def)
    have "field_ok (List.last ?fs)" using ok ne by (simp add: list_all_iff)
    then have "field_text (List.last ?fs) \<noteq> []" "\<not> is_space (List.last (field_text (List.last ?fs)))" using t by blast+
    then show ?thesis using ne join_last [of "map field_text ?fs"] by (simp add: last_map)
  qed
  define f where "f = foldl (\<lambda>d (k, v). AList.update k v d) [] (map field_pair ?fs)"
  have p: "parse_challenge cr v = (lit ''Digest'', f)" unfolding v f_def
    by (rule challenge_fields [OF ok _ last]) (simp add: auth_fields_def)
  have vals: "map_of f (lit ''username'') = Some username" "map_of f (lit ''uri'') = Some uri" "map_of f (lit ''nonce'') = Some nonce"
    "map_of f (lit ''realm'') = Some realm" "map_of f (lit ''algorithm'') = Some alg" "map_of f (lit ''response'') = Some resp"
    "map_of f (lit ''qop'') = qop"
    using q by (auto simp: f_def auth_fields_def lit_eq realm_def nonce_def split: option.splits)
  have qv: "qop \<noteq> None \<Longrightarrow> map_of f (lit ''nc'') = Some (nc_text nc) \<and> map_of f (lit ''cnonce'') = Some secret"
    using q by (auto simp: f_def auth_fields_def lit_eq split: option.splits)
  have fv: "field k f [] = x" if "map_of f (lit k) = Some x" for k x using that by (simp add: field_def)
  have "digest_response cr username password realm nonce meth uri qop (field ''nc'' f []) (field ''cnonce'' f []) alg = Inr resp"
  proof (cases qop)
    case None
    have "map_of chal (lit ''qop'') \<noteq> Some (lit ''auth'')"
    proof
      assume "map_of chal (lit ''qop'') = Some (lit ''auth'')"
      then have "lit ''auth'' \<in> set (filter (\<lambda>q. q \<noteq> []) (map strip_space (split_at_char 44 (field ''qop'' chal []))))"
        by (simp add: field_def lit_def strip_space_def is_space_def)
      then show False using None by (simp add: qop_def)
    qed
    then have "\<not> ends_with (lit ''-SESS'') (py_upper alg)" using assms(11) by (simp add: alg_def)
    then show ?thesis using resp None by (simp add: digest_response_def)
  next
    case (Some x)
    then show ?thesis using resp qv by (simp add: fv)
  qed
  then show ?thesis using p vals by (auto simp: fv realm_def nonce_def)
qed



end
