(* ===== verification/Sip_Client.thy ===== *)
theory Sip_Client
  imports Sip_Ua Sip_Digest
begin

text \<open>
  The class \<open>SipUA\<close> of \<^verbatim>\<open>voip/s22-sip.py\<close>, the side that asks: requests and their retransmission,
  registration, outgoing calls, hanging up. What a transaction brings back (no answer, or a final response, and whether it
  rang before) is an argument, as are the random tokens.
\<close>

section \<open>Requests\<close>

definition build_request ::
    "ua \<Rightarrow> string \<Rightarrow> pystr \<Rightarrow> sock_addr \<Rightarrow> pystr \<Rightarrow> pystr \<Rightarrow> pystr \<Rightarrow> int \<Rightarrow> bytes \<Rightarrow> pystr list \<Rightarrow> pystr \<Rightarrow> sip_msg" where
  "build_request u meth ruri dest from_hdr to_hdr cid n body routes branch =
     (let (via_ip, via_port) = (case ua_nat u of Some a \<Rightarrow> a | None \<Rightarrow> (local_ip u (fst dest), ua_port u));
          m0 = new_msg (lit meth @ [32] @ ruri @ lit '' SIP/2.0'') [] [];
          m1 = add_header ''Max-Forwards'' (lit ''70'')
                 (add_header ''Via'' (lit ''SIP/2.0/UDP '' @ via_ip @ [58] @ dec_digits via_port @ lit '';branch='' @ branch @ lit '';rport'') m0);
          m2 = add_header ''CSeq'' (int_text n @ [32] @ lit meth) (add_header ''Call-ID'' cid (add_header ''To'' to_hdr
                 (add_header ''From'' from_hdr (add_all ''Route'' routes m1))));
          m3 = (if meth \<in> {''ACK'', ''CANCEL'', ''BYE''} then m2 else add_header ''Contact'' (contact u (fst dest)) m2);
          m4 = add_header ''User-Agent'' UA_NAME m3;
          m5 = (if meth \<in> {''INVITE'', ''OPTIONS''} then add_header ''Allow'' ALLOW m4 else m4);
          m6 = (if body = [] then m5 else add_header ''Content-Type'' (lit ''application/sdp'') m5)
      in m6\<lparr>sm_body := body\<rparr>)"

section \<open>Transactions\<close>

text \<open>
  The loop of \<open>transact\<close> over what it sees: the clock at the top of a round, what the queue gave, the clock after the
  wait, and the clock when the next transmission is set. It answers the times of the retransmissions, and the result,
  \<open>None\<close> while the rounds seen do not end it.
\<close>

record tx =
  tx_interval :: time
  tx_provisional :: bool
  tx_next :: time
  tx_deadline :: time

type_synonym tx_seen = "time \<times> sip_msg option \<times> time \<times> time"

fun transact_loop :: "bool \<Rightarrow> time option \<Rightarrow> tx \<Rightarrow> tx_seen list \<Rightarrow> time list \<times> (pyerr + sip_msg option) option" where
  "transact_loop invite prov x [] = ([], None)"
| "transact_loop invite prov x ((now, got, after, set_at) # seen) =
     (if tx_deadline x \<le> now then ([], Some (Inr None))
      else (case got of
              Some r \<Rightarrow>
                (case status r of
                   Inl e \<Rightarrow> ([], Some (Inl e))
                 | Inr code \<Rightarrow>
                     if code < 200 then
                       transact_loop invite prov
                         (x\<lparr>tx_deadline := (case prov of Some p \<Rightarrow> if tx_provisional x then tx_deadline x else after + p | None \<Rightarrow> tx_deadline x),
                            tx_provisional := True\<rparr>) seen
                     else ([], Some (Inr (Some r))))
            | None \<Rightarrow>
                if \<not> (invite \<and> tx_provisional x) \<and> tx_next x \<le> after then
                  (let i1 = (if invite then tx_interval x * 2 else min (tx_interval x * 2) 4);
                       i2 = (if tx_provisional x then 4 else i1);
                       (sends, res) = transact_loop invite prov (x\<lparr>tx_interval := i2, tx_next := set_at + i2\<rparr>) seen
                   in (after # sends, res))
                else transact_loop invite prov x seen))"

definition transact_start :: "time \<Rightarrow> time \<Rightarrow> tx" where
  "transact_start t0 limit = \<lparr>tx_interval = 1 / 2, tx_provisional = False, tx_next = t0 + 1 / 2, tx_deadline = t0 + limit\<rparr>"

section \<open>Authentication\<close>

record creds =
  cd_password :: "pystr option"
  cd_user :: pystr

definition auth_header :: "crypto \<Rightarrow> creds \<Rightarrow> sip_msg \<Rightarrow> pystr \<Rightarrow> pystr \<Rightarrow> nat \<Rightarrow> pystr \<Rightarrow> pyerr + (string \<times> pystr) option" where
  "auth_header cr cd resp meth uri nc secret =
     try_r (status resp) (\<lambda>code.
     try_r (get_header (if code = 401 then ''WWW-Authenticate'' else ''Proxy-Authenticate'') resp) (\<lambda>h.
       case cd_password cd of
         None \<Rightarrow> Inr None
       | Some pw \<Rightarrow>
           if or_empty h = [] then Inr None
           else
             (let (scheme, chal) = parse_challenge cr (or_empty h) in
              if py_lower scheme \<noteq> lit ''digest'' then Inr None
              else (case authorization_value cr chal (cd_user cd) pw meth uri nc None secret of
                      Inr v \<Rightarrow> Inr (Some (if code = 401 then ''Authorization'' else ''Proxy-Authorization'', v))
                    | Inl e \<Rightarrow> if e = ValueError then Inr None else Inl e))))"

section \<open>Registration\<close>

record reg =
  rg_call_id :: pystr
  rg_tag :: pystr
  rg_cseq :: int
  rg_registered :: bool
  rg_interval :: int

text \<open>What one attempt brings: the response, if one came; the branch of the request and the random nonce are given.\<close>

record attempt =
  at_resp :: "sip_msg option"
  at_branch :: pystr
  at_secret :: pystr

datatype reg_end = RegOk | RegFailed | RegRaised pyerr

definition register_request :: "ua \<Rightarrow> reg \<Rightarrow> sock_addr \<Rightarrow> int \<Rightarrow> (string \<times> pystr) option \<Rightarrow> pystr \<Rightarrow> sip_msg" where
  "register_request u g addr expires auth branch =
     (let domain = or_none (ua_domain u);
          address = lit ''<sip:'' @ ua_user u @ [64] @ domain @ [62];
          m = add_header ''Expires'' (int_text expires)
                (build_request u ''REGISTER'' (lit ''sip:'' @ domain) addr (address @ lit '';tag='' @ rg_tag g) address (rg_call_id g) (rg_cseq g) [] [] branch)
      in case auth of None \<Rightarrow> m | Some (k, v) \<Rightarrow> add_header k v m)"

definition granted_time :: "int \<Rightarrow> sip_msg \<Rightarrow> pyerr + int" where
  "granted_time expires resp =
     (let es = map (\<lambda>c. or_empty (map_of (snd (snd (parse_nameaddr c))) (lit ''expires''))) (get_all ''contact'' resp) in
      try_r (int_all (filter py_isdigit es)) (\<lambda>l.
      try_r (get_header ''expires'' resp) (\<lambda>h.
        if py_isdigit (or_empty h) then int_of_str (or_empty h) else Inr (if l = [] then expires else List.last l))))"

text \<open>
  The response tells the address we are seen under; when it is another than ours, and none was known, it becomes our
  contact and we register again.
\<close>

definition seen_address :: "ua \<Rightarrow> sock_addr \<Rightarrow> sip_msg \<Rightarrow> pyerr + sock_addr option" where
  "seen_address u addr resp =
     try_r (get_header ''via'' resp) (\<lambda>h.
     case h of
       None \<Rightarrow> Inl AttributeError
     | Some v \<Rightarrow>
         try_r (parse_via v) (\<lambda>pv.
           let rec = or_empty (map_of (via_params pv) (lit ''received'')); rport = or_empty (map_of (via_params pv) (lit ''rport'')) in
           if rec \<noteq> [] \<and> py_isdigit rport \<and> ua_nat u = None \<and> or_empty (ua_public_ip u) = [] then
             try_r (int_of_str rport) (\<lambda>p. Inr (if (rec, p) \<noteq> (local_ip u (fst addr), int (ua_port u)) then Some (rec, nat p) else None))
           else Inr None))"

definition is_stale :: "sip_msg \<Rightarrow> pyerr + bool" where
  "is_stale resp =
     try_r (get_header ''www-authenticate'' resp) (\<lambda>w. try_r (get_header ''proxy-authenticate'' resp) (\<lambda>p.
       Inr (in_str (lit ''stale=true'') (py_lower (if or_empty w \<noteq> [] then or_empty w else or_empty p)))))"

text \<open>The next step after a response: over, or another attempt with these credentials and this state.\<close>

datatype reg_next = RegDone ua reg reg_end | RegAgain "(string \<times> pystr) option" nat ua

definition register_answer ::
    "crypto \<Rightarrow> creds \<Rightarrow> sock_addr \<Rightarrow> int \<Rightarrow> (string \<times> pystr) option \<Rightarrow> nat \<Rightarrow> attempt \<Rightarrow> ua \<Rightarrow> reg \<Rightarrow> reg_next" where
  "register_answer cr cd addr expires auth nc a u g =
     (case at_resp a of
        None \<Rightarrow> RegDone u g RegFailed
      | Some resp \<Rightarrow>
          (case status resp of
             Inl e \<Rightarrow> RegDone u g (RegRaised e)
           | Inr code \<Rightarrow>
               if code = 401 \<or> code = 407 then
                 (case is_stale resp of
                    Inl e \<Rightarrow> RegDone u g (RegRaised e)
                  | Inr stale \<Rightarrow>
                      if auth \<noteq> None \<and> \<not> stale then RegDone u g RegFailed
                      else (case auth_header cr cd resp (lit ''REGISTER'') (lit ''sip:'' @ or_none (ua_domain u)) (Suc nc) (at_secret a) of
                              Inl e \<Rightarrow> RegDone u g (RegRaised e)
                            | Inr None \<Rightarrow> RegDone u g RegFailed
                            | Inr (Some h) \<Rightarrow> RegAgain (Some h) (Suc nc) u))
               else if 200 \<le> code \<and> code < 300 then
                 (if expires = 0 then RegDone u (g\<lparr>rg_registered := False\<rparr>) RegOk
                  else (case seen_address u addr resp of
                          Inl e \<Rightarrow> RegDone u g (RegRaised e)
                        | Inr (Some n) \<Rightarrow> RegAgain auth nc (u\<lparr>ua_nat := Some n\<rparr>)
                        | Inr None \<Rightarrow>
                            (case granted_time expires resp of
                               Inl e \<Rightarrow> RegDone u g (RegRaised e)
                             | Inr s \<Rightarrow> RegDone u (g\<lparr>rg_interval := max 30 s, rg_registered := True\<rparr>) RegOk)))
               else RegDone u g RegFailed))"

fun register_loop ::
    "crypto \<Rightarrow> creds \<Rightarrow> sock_addr \<Rightarrow> int \<Rightarrow> (string \<times> pystr) option \<Rightarrow> nat \<Rightarrow> attempt list \<Rightarrow> ua \<Rightarrow> reg \<Rightarrow>
     ua \<times> reg \<times> sip_msg list \<times> reg_end" where
  "register_loop cr cd addr expires auth nc [] u g = (u, g, [], RegFailed)"
| "register_loop cr cd addr expires auth nc (a # as) u g0 =
     (let g = g0\<lparr>rg_cseq := rg_cseq g0 + 1\<rparr>; m = register_request u g addr expires auth (at_branch a) in
      case register_answer cr cd addr expires auth nc a u g of
        RegDone u1 g1 e \<Rightarrow> (u1, g1, [m], e)
      | RegAgain auth1 nc1 u1 \<Rightarrow>
          (case register_loop cr cd addr expires auth1 nc1 as u1 g of (u2, g2, ms, e) \<Rightarrow> (u2, g2, m # ms, e)))"

definition register :: "crypto \<Rightarrow> creds \<Rightarrow> sock_addr \<Rightarrow> int \<Rightarrow> attempt list \<Rightarrow> ua \<Rightarrow> reg \<Rightarrow> ua \<times> reg \<times> sip_msg list \<times> reg_end" where
  "register cr cd addr expires as u g = register_loop cr cd addr expires None 0 (take 5 as) u g"

section \<open>Staying registered\<close>

text \<open>\<open>_hostport\<close>: the proxy of the command line.\<close>

definition hostport :: "pystr \<Rightarrow> pyerr + pystr \<times> int" where
  "hostport s0 =
     (let s = strip_space s0 in
      if starts_with (lit ''sip:'') s then
        try_r (parse_uri s) (\<lambda>x. Inr (su_host x, case su_port x of None \<Rightarrow> 5060 | Some p \<Rightarrow> if p = 0 then 5060 else p))
      else
        (let (host, port) = (if length (filter (\<lambda>c. c = 58) s) = 1 then partition_at s 58 else (s, []))
         in if port \<noteq> [] then try_r (int_of_str port) (\<lambda>n. Inr (host, n)) else Inr (s, 5060)))"

datatype no_registrar = NoRegistrar | LookupFailed pyerr

definition registrar :: "ua \<Rightarrow> no_registrar + sock_addr" where
  "registrar u =
     (let found = (\<lambda>r. case r of Inl e \<Rightarrow> Inl (LookupFailed e) | Inr a \<Rightarrow> Inr a) in
      case ua_proxy u of
        Some (h, p) \<Rightarrow> found (ua_resolve u h (Some p))
      | None \<Rightarrow> if or_empty (ua_domain u) = [] then Inl NoRegistrar else found (ua_resolve u (or_empty (ua_domain u)) (Some 5060)))"

text \<open>
  One round of the thread of \<open>keep_registered\<close>, a second after the one before: it registers again when half of the granted
  time is over, or sends a keepalive. Only the keepalive guards against a registrar that cannot be looked up.
\<close>

datatype renew_act = Renewed "sip_msg list" reg_end | Pinged sock_addr | Quiet | Died no_registrar

definition keep_round :: "crypto \<Rightarrow> creds \<Rightarrow> int \<Rightarrow> int \<Rightarrow> time \<Rightarrow> attempt list \<Rightarrow> time \<times> ua \<times> reg \<Rightarrow> (time \<times> ua \<times> reg) \<times> renew_act" where
  "keep_round cr cd expires keepalive now as k =
     (case k of (since, u, g) \<Rightarrow>
        let half = of_int (rg_interval g) / 2 in
        if half \<le> now - since then
          (case registrar u of
             Inl e \<Rightarrow> ((now, u, g), Died e)
           | Inr addr \<Rightarrow>
               (case register cr cd addr expires as u g of
                  (u1, g1, ms, e) \<Rightarrow>
                    (case e of
                       RegOk \<Rightarrow> ((now, u1, g1), Renewed ms e)
                     | RegFailed \<Rightarrow> ((now - of_int (rg_interval g1) / 2 + 30, u1, g1), Renewed ms e)
                     | RegRaised x \<Rightarrow> ((now, u1, g1), Died (LookupFailed x)))))
        else if keepalive \<noteq> 0 \<and> \<lfloor>now - since\<rfloor> mod keepalive = 0 then
          (case registrar u of Inl e \<Rightarrow> ((since, u, g), Quiet) | Inr addr \<Rightarrow> ((since, u, g), Pinged addr))
        else ((since, u, g), Quiet))"

text \<open>When a registration is due and the name of the registrar cannot be looked up, the thread ends: nothing registers again.\<close>

lemma lookup_failure_ends_renewal:
  assumes "of_int (rg_interval g) / 2 \<le> now - since" and "ua_proxy u = None" and "or_empty (ua_domain u) \<noteq> []"
    and "ua_resolve u (or_empty (ua_domain u)) (Some 5060) = Inl OSError"
  shows "keep_round cr cd expires keepalive now as (since, u, g) = ((now, u, g), Died (LookupFailed OSError))"
  using assms by (simp add: keep_round_def registrar_def Let_def)

text \<open>A refused registration is tried again half a minute later, not before.\<close>

lemma retry_after_refusal:
  assumes "keep_round cr cd expires keepalive now as k = ((since, u, g), Renewed ms RegFailed)" and "rg_interval g = rg_interval (snd (snd k))"
  shows "of_int (rg_interval g) / 2 \<le> t - since \<longleftrightarrow> now + 30 \<le> t"
  using assms by (auto simp: keep_round_def Let_def split: prod.splits if_split_asm sum.splits reg_end.splits)

section \<open>Outgoing calls\<close>

definition dialog_dest :: "ua \<Rightarrow> dialog \<Rightarrow> pyerr + sock_addr" where
  "dialog_dest u d =
     (case dg_routes d of
        r # _ \<Rightarrow> try_r (parse_uri (fst (snd (parse_nameaddr r)))) (\<lambda>x. ua_resolve u (su_host x) (su_port x))
      | [] \<Rightarrow>
          (case (ua_proxy u, dg_incoming d, dg_source d) of
             (Some (h, p), _, _) \<Rightarrow> ua_resolve u h (Some p)
           | (None, True, Some src) \<Rightarrow> Inr src
           | _ \<Rightarrow> try_r (parse_uri (dg_remote_target d)) (\<lambda>x. ua_resolve u (su_host x) (su_port x))))"

text \<open>\<open>re.match(r'^sip:[\d.]+(:\d+)?$', t)\<close>.\<close>

definition numeric_target :: "pystr \<Rightarrow> bool" where
  "numeric_target t =
     (let digit = (\<lambda>c. digit_value c \<noteq> None);
          r = drop 4 t; host = takeWhile (\<lambda>c. digit c \<or> c = 46) r; rest = drop (length host) r;
          port = takeWhile digit (drop 1 rest); end1 = drop (length port) (drop 1 rest)
      in starts_with (lit ''sip:'') t \<and> host \<noteq> [] \<and>
         (rest = [] \<or> rest = [10] \<or> take 1 rest = [58] \<and> port \<noteq> [] \<and> (end1 = [] \<or> end1 = [10])))"

definition normalize_target :: "ua \<Rightarrow> pystr \<Rightarrow> pystr" where
  "normalize_target u target =
     (let t0 = strip_space target;
          t = (if starts_with (lit ''sip:'') (py_lower t0) \<or> starts_with (lit ''sips:'') (py_lower t0) then t0 else lit ''sip:'' @ t0)
      in if 64 \<notin> set t \<and> or_empty (ua_domain u) \<noteq> [] \<and> \<not> numeric_target t then t @ [64] @ or_empty (ua_domain u) else t)"

text \<open>The acknowledgement of a refusal goes with the headers of the request itself.\<close>

definition ack_refusal :: "sip_msg \<Rightarrow> sip_msg \<Rightarrow> pyerr + sip_msg" where
  "ack_refusal req resp =
     try_r (msg_uri req) (\<lambda>uri. try_r (get_header ''via'' req) (\<lambda>via. try_r (get_header ''from'' req) (\<lambda>from.
     try_r (get_header ''to'' resp) (\<lambda>to. try_r (get_header ''call-id'' req) (\<lambda>cid. try_r (cseq req) (\<lambda>(n, _).
       Inr (add_header ''CSeq'' (int_text n @ lit '' ACK'') (add_header ''Call-ID'' (or_none cid) (add_header ''To'' (or_none to)
             (add_header ''From'' (or_none from) (add_all ''Route'' (get_all ''route'' req) (add_header ''Max-Forwards'' (lit ''70'')
               (add_header ''Via'' (or_none via) (new_msg (lit ''ACK '' @ uri @ lit '' SIP/2.0'') [] []))))))))))))))"

definition cancel_request :: "sip_msg \<Rightarrow> pyerr + sip_msg" where
  "cancel_request req =
     try_r (msg_uri req) (\<lambda>uri. try_r (get_header ''via'' req) (\<lambda>via. try_r (get_header ''from'' req) (\<lambda>from.
     try_r (get_header ''to'' req) (\<lambda>to. try_r (get_header ''call-id'' req) (\<lambda>cid. try_r (cseq req) (\<lambda>(n, _).
       Inr (add_header ''CSeq'' (int_text n @ lit '' CANCEL'') (add_header ''Call-ID'' (or_none cid) (add_header ''To'' (or_none to)
             (add_header ''From'' (or_none from) (add_header ''Max-Forwards'' (lit ''70'')
               (add_header ''Via'' (or_none via) (new_msg (lit ''CANCEL '' @ uri @ lit '' SIP/2.0'') [] [])))))))))))))"

definition send_ack :: "pystr \<Rightarrow> dialog \<Rightarrow> ua \<Rightarrow> outcome" where
  "send_ack branch d u =
     (case dialog_dest u d of
        Inl e \<Rightarrow> (u, [], Some e)
      | Inr dest \<Rightarrow>
          (case to_bytes (build_request u ''ACK'' (dg_remote_target d) dest (dg_local_hdr d) (dg_remote_hdr d) (or_none (dg_id d)) (dg_cseq d) []
                  (dg_routes d) branch) of
             Inl e \<Rightarrow> (u, [], Some e)
           | Inr b \<Rightarrow> (put_call (d\<lparr>dg_last_ack := Some (b, dest)\<rparr>) u, [(b, dest)], None)))"

definition cancel_call :: "sock_addr \<Rightarrow> dialog \<Rightarrow> ua \<Rightarrow> outcome" where
  "cancel_call dest d u = (case dg_invite d of None \<Rightarrow> (u, [], None) | Some req \<Rightarrow> send_msg (cancel_request req) dest u)"

text \<open>The two rounds of the BYE of \<open>hangup\<close>: the second only with credentials.\<close>

fun bye_loop :: "crypto \<Rightarrow> creds \<Rightarrow> sock_addr \<Rightarrow> (string \<times> pystr) option \<Rightarrow> attempt list \<Rightarrow> dialog \<Rightarrow> ua \<Rightarrow> outcome" where
  "bye_loop cr cd dest auth [] d u = (u, [], None)"
| "bye_loop cr cd dest auth (a # as) d0 u0 =
     (let d = d0\<lparr>dg_cseq := dg_cseq d0 + 1\<rparr>; u = put_call d u0;
          m = build_request u ''BYE'' (dg_remote_target d) dest (dg_local_hdr d) (dg_remote_hdr d) (or_none (dg_id d)) (dg_cseq d) [] (dg_routes d) (at_branch a);
          m1 = (case auth of None \<Rightarrow> m | Some (k, v) \<Rightarrow> add_header k v m)
      in then_do (send_msg (Inr m1) dest u)
           (\<lambda>u1. case at_resp a of
                   None \<Rightarrow> (u1, [], None)
                 | Some r \<Rightarrow>
                     (case status r of
                        Inl e \<Rightarrow> (u1, [], Some e)
                      | Inr code \<Rightarrow>
                          if (code = 401 \<or> code = 407) \<and> auth = None then
                            (case auth_header cr cd r (lit ''BYE'') (dg_remote_target d) 1 (at_secret a) of
                               Inl e \<Rightarrow> (u1, [], Some e)
                             | Inr None \<Rightarrow> (u1, [], None)
                             | Inr (Some h) \<Rightarrow> bye_loop cr cd dest (Some h) as d u1)
                          else (u1, [], None))))"

definition hangup :: "crypto \<Rightarrow> creds \<Rightarrow> sock_addr \<Rightarrow> string \<Rightarrow> attempt list \<Rightarrow> dialog \<Rightarrow> ua \<Rightarrow> outcome" where
  "hangup cr cd first_dest reason as d u =
     (if \<not> live d then (u, [], None)
      else if \<not> dg_incoming d \<and> dg_state d \<in> {CCalling, CRinging} then
        then_do (cancel_call first_dest d u) (\<lambda>u1. (end_key (dg_id d) ''cancelled'' u1, [], None))
      else if dg_incoming d \<and> dg_state d = CRinging then
        then_do (respond_invite d 486 ''Busy Here'' [] u) (\<lambda>u1. (end_key (dg_id d) reason u1, [], None))
      else
        (case dialog_dest u d of
           Inl e \<Rightarrow> (u, [], Some e)
         | Inr dest \<Rightarrow> then_do (bye_loop cr cd dest None (take 2 as) d u) (\<lambda>u1. (end_key (dg_id d) reason u1, [], None))))"

text \<open>A call that is refused ends with the status as its reason.\<close>

definition code_reason :: "int \<Rightarrow> string" where
  "code_reason code = map char_of (int_text code)"

text \<open>One attempt of \<open>call\<close>: whether it rang, the final response, and the tokens it draws.\<close>

record call_attempt = attempt +
  ca_rang :: bool
  ca_ack_branch :: pystr

text \<open>An answer with a 2xx: the dialog is completed, the acknowledgement sent, the media started with what the answer chose.\<close>

definition call_answered :: "crypto \<Rightarrow> creds \<Rightarrow> sock_addr \<Rightarrow> attempt list \<Rightarrow> call_attempt \<Rightarrow> sip_msg \<Rightarrow> dialog \<Rightarrow> ua \<Rightarrow> outcome \<times> bool" where
  "call_answered cr cd dest byes a resp d0 u0 =
     (case try_r (get_header ''to'' resp) (\<lambda>to. try_r (get_header ''contact'' resp) (\<lambda>con. Inr (to, con))) of
        Inl e \<Rightarrow> ((u0, [], Some e), False)
      | Inr (to, con) \<Rightarrow>
          (let d1 = d0\<lparr>dg_remote_hdr := or_none to,
                       dg_remote_target := (if or_empty con \<noteq> [] then fst (snd (parse_nameaddr (or_empty con))) else dg_remote_target d0),
                       dg_routes := rev (get_all ''record-route'' resp)\<rparr>
           in case send_ack (ca_ack_branch a) d1 (put_call d1 u0) of
                (u1, out, Some e) \<Rightarrow> ((u1, out, Some e), False)
              | (u1, out, None) \<Rightarrow>
                  (case map_of (ua_calls u1) (dg_id d1) of
                     None \<Rightarrow> ((u1, out, None), False)
                   | Some d2 \<Rightarrow>
                       (let d3 = d2\<lparr>dg_state := CConfirmed\<rparr>; u3 = put_call d3 u1 in
                        case parse_sdp (sm_body resp) of
                          Inl e \<Rightarrow> ((u3, out, Some e), False)
                        | Inr s \<Rightarrow>
                            (case negotiate s (ua_codecs u3) of
                               None \<Rightarrow> (then_do (u3, out, None) (hangup cr cd dest ''local hangup'' byes d3), False)
                             | Some chosen \<Rightarrow> ((put_call (start_media s chosen d3) u3, out, None), True))))))"

fun call_loop ::
    "crypto \<Rightarrow> creds \<Rightarrow> sock_addr \<Rightarrow> pystr \<Rightarrow> bytes \<Rightarrow> attempt list \<Rightarrow> (string \<times> pystr) option \<Rightarrow> nat \<Rightarrow> call_attempt list \<Rightarrow> dialog \<Rightarrow> ua \<Rightarrow>
     outcome \<times> bool" where
  "call_loop cr cd dest ruri offer byes auth nc [] d u = ((end_key (dg_id d) ''auth'' u, [], None), False)"
| "call_loop cr cd dest ruri offer byes auth nc (a # as) d u =
     (let m = build_request u ''INVITE'' ruri dest (dg_local_hdr d) (dg_remote_hdr d) (or_none (dg_id d)) (dg_cseq d) offer [] (at_branch a);
          req = (case auth of None \<Rightarrow> m | Some (k, v) \<Rightarrow> add_header k v m);
          d1 = d\<lparr>dg_invite := Some req, dg_state := (if ca_rang a then CRinging else dg_state d)\<rparr>;
          u1 = put_call d1 u;
          failed = (\<lambda>reason r. then_do r (\<lambda>v. (end_key (dg_id d) reason v, [], None)))
      in case send_msg (Inr req) dest u1 of
           (u2, out, Some e) \<Rightarrow> ((u2, out, Some e), False)
         | (u2, out, None) \<Rightarrow>
             (case at_resp a of
                None \<Rightarrow>
                  (failed ''timeout'' (then_do (u2, out, None) (\<lambda>v. if dg_state d1 = CRinging then cancel_call dest d1 v else (v, [], None))), False)
              | Some resp \<Rightarrow>
                  (case status resp of
                     Inl e \<Rightarrow> ((u2, out, Some e), False)
                   | Inr code \<Rightarrow>
                       (case (if 300 \<le> code then then_do (u2, out, None) (send_msg (ack_refusal req resp) dest) else (u2, out, None)) of
                          (u3, out3, Some e) \<Rightarrow> ((u3, out3, Some e), False)
                        | (u3, out3, None) \<Rightarrow>
                            if 200 \<le> code \<and> code < 300 then
                              (case call_answered cr cd dest byes a resp d1 u3 of ((u4, out4, e4), ok) \<Rightarrow> ((u4, out3 @ out4, e4), ok))
                            else if (code = 401 \<or> code = 407) \<and> auth = None then
                              (case auth_header cr cd resp (lit ''INVITE'') ruri (Suc nc) (at_secret a) of
                                 Inl e \<Rightarrow> ((u3, out3, Some e), False)
                               | Inr None \<Rightarrow> (failed (code_reason code) (u3, out3, None), False)
                               | Inr (Some h) \<Rightarrow>
                                   (let d2 = d1\<lparr>dg_cseq := dg_cseq d1 + 1\<rparr> in
                                    case call_loop cr cd dest ruri offer byes (Some h) (Suc nc) as d2 (put_call d2 u3) of
                                      ((u4, out4, e4), ok) \<Rightarrow> ((u4, out3 @ out4, e4), ok)))
                            else (failed (code_reason code) (u3, out3, None), False)))))"

text \<open>\<open>call\<close>: the address is looked up, the RTP socket is opened on \<open>port\<close>, and at most three times the INVITE is sent.\<close>

definition place_call ::
    "crypto \<Rightarrow> creds \<Rightarrow> fresh \<Rightarrow> pystr \<Rightarrow> nat \<Rightarrow> attempt list \<Rightarrow> call_attempt list \<Rightarrow> pystr \<Rightarrow> ua \<Rightarrow> outcome \<times> bool" where
  "place_call cr cd fr cid port byes as target u =
     (let ruri = normalize_target u target in
      case try_r (parse_uri ruri) (\<lambda>x. try_r (case ua_proxy u of Some (h, p) \<Rightarrow> ua_resolve u h (Some p) | None \<Rightarrow> ua_resolve u (su_host x) (su_port x))
             (\<lambda>dest. Inr (x, dest))) of
        Inl e \<Rightarrow> ((u, [], Some e), False)
      | Inr (x, dest) \<Rightarrow>
          (let d = (new_dialog (Some cid) False (fr_tag fr) (fr_sess fr))
                     \<lparr>dg_local_ip := local_ip u (fst dest), dg_rtp_port := Some port,
                      dg_local_hdr := [60] @ aor u (fst dest) @ lit ''>;tag='' @ fr_tag fr, dg_remote_hdr := [60] @ ruri @ [62],
                      dg_remote_target := ruri, dg_source := Some dest, dg_remote_user := su_user x\<rparr>
           in case call_sdp u None (Some 101) (fr_rand fr) d of
                Inl e \<Rightarrow> ((put_call d u, [], Some e), False)
              | Inr (d2, offer) \<Rightarrow>
                  (let d3 = d2\<lparr>dg_state := CCalling\<rparr> in call_loop cr cd dest ruri offer byes None 0 (take 3 as) d3 (put_call d3 u))))"

section \<open>Registration ends\<close>

lemma int_of_text: "0 \<le> n \<Longrightarrow> n < 10 ^ 20 \<Longrightarrow> int_of_str (int_text n) = Inr n"
  using int_of_dec [of "nat n" 20] by (simp add: int_text_def nat_less_iff)

lemma text_no_space: "0 \<le> n \<Longrightarrow> 32 \<notin> set (int_text n)"
  using dec_digits_digits [of "nat n"] by (auto simp: int_text_def list_all_iff is_digit_def)

lemma request_cseq:
  "raw_header (lit ''cseq'') (build_request u meth ruri dest f t cid n body routes branch) = Some (int_text n @ [32] @ lit meth)"
proof -
  have pick: "raw_header k (if c then a else b) = (if c then raw_header k a else raw_header k b)" for k c a b by simp
  show ?thesis by (simp add: build_request_def Let_def pick raw_add raw_body raw_new raw_add_all canon_names lit_eq split: prod.split del: if_split cong: if_cong)
qed

lemma register_cseq:
  assumes "0 \<le> rg_cseq g" and "rg_cseq g < 10 ^ 20"
  shows "cseq (register_request u g addr expires auth branch) = Inr (rg_cseq g, lit ''REGISTER'')"
proof -
  have r: "raw_header (lit ''cseq'') (register_request u g addr expires auth branch) = Some (int_text (rg_cseq g) @ [32] @ lit ''REGISTER'')"
    by (simp add: register_request_def Let_def raw_add request_cseq split: option.split)
  have up: "py_upper (strip_space (lit ''REGISTER'')) = lit ''REGISTER''"
    by (simp add: lit_def strip_space_def is_space_def py_upper_def upper_char_def UPPER_SPECIAL_def)
  have "partition_at (int_text (rg_cseq g) @ 32 # lit ''REGISTER'') 32 = (int_text (rg_cseq g), lit ''REGISTER'')"
    using text_no_space [OF assms(1)] by (rule partition_at_cut)
  then show ?thesis using up int_of_text [OF assms] by (simp add: cseq_def get_raw canon_names multi_names r)
qed

lemma seen_some: "seen_address u addr r = Inr (Some n) \<Longrightarrow> ua_nat u = None"
  by (cases "ua_nat u") (auto simp: seen_address_def try_r_Inr_iff Let_def split: option.splits if_split_asm)

lemma answer_again:
  assumes "register_answer cr cd addr expires auth nc a u g = RegAgain auth1 nc1 u1"
  shows "(\<exists>r. at_resp a = Some r \<and> is_stale r = Inr True) \<or> auth = None \<and> auth1 \<noteq> None \<and> u1 = u \<or>
    auth1 = auth \<and> ua_nat u = None \<and> ua_nat u1 \<noteq> None"
proof (cases "at_resp a")
  case None
  then show ?thesis using assms by (simp add: register_answer_def)
next
  case (Some r)
  show ?thesis
  proof (cases "status r")
    case (Inr code)
    show ?thesis
    proof (cases "code = 401 \<or> code = 407")
      case True
      then show ?thesis using assms Some Inr
        by (cases auth) (auto simp: register_answer_def split: sum.split_asm option.split_asm if_split_asm)
    next
      case False
      then have "\<exists>n. seen_address u addr r = Inr (Some n) \<and> auth1 = auth \<and> u1 = u\<lparr>ua_nat := Some n\<rparr>" using assms Some Inr
        by (cases "seen_address u addr r") (auto simp: register_answer_def split: sum.split_asm option.split_asm if_split_asm)
      then obtain n where "seen_address u addr r = Inr (Some n)" "auth1 = auth" "u1 = u\<lparr>ua_nat := Some n\<rparr>" by blast
      then show ?thesis using seen_some [of u addr r n] by simp
    qed
  qed (use assms Some in \<open>simp add: register_answer_def\<close>)
qed

lemma answer_done:
  assumes "register_answer cr cd addr expires auth nc a u g = RegDone u1 g1 e"
  shows "rg_cseq g1 = rg_cseq g \<and> rg_call_id g1 = rg_call_id g \<and> rg_tag g1 = rg_tag g \<and>
    (e = RegOk \<longrightarrow> (rg_registered g1 \<longleftrightarrow> expires \<noteq> 0) \<and> (expires \<noteq> 0 \<longrightarrow> 30 \<le> rg_interval g1)) \<and> (e \<noteq> RegOk \<longrightarrow> g1 = g)"
  using assms
  by (auto simp: register_answer_def split: option.splits sum.splits if_splits)

definition never_stale :: "attempt list \<Rightarrow> bool" where
  "never_stale as \<longleftrightarrow> list_all (\<lambda>a. \<forall>r. at_resp a = Some r \<longrightarrow> is_stale r \<noteq> Inr True) as"

lemma register_loop_bounds:
  assumes "register_loop cr cd addr expires auth nc as u g = (u', g', ms, e)" and "0 \<le> rg_cseq g" and "rg_cseq g + int (length as) < 10 ^ 20"
  shows "length ms \<le> length as \<and> rg_cseq g' = rg_cseq g + int (length ms) \<and> rg_call_id g' = rg_call_id g \<and>
    map cseq ms = map (\<lambda>i. Inr (rg_cseq g + 1 + int i, lit ''REGISTER'')) [0..<length ms] \<and>
    (e = RegOk \<longrightarrow> (rg_registered g' \<longleftrightarrow> expires \<noteq> 0) \<and> (expires \<noteq> 0 \<longrightarrow> 30 \<le> rg_interval g')) \<and>
    (never_stale as \<longrightarrow> length ms \<le> 1 + (if auth = None then 1 else 0) + (if ua_nat u = None then 1 else 0))"
  using assms
proof (induction as arbitrary: auth nc u g ms)
  case (Cons a as)
  let ?g = "g\<lparr>rg_cseq := rg_cseq g + 1\<rparr>"
  let ?m = "register_request u ?g addr expires auth (at_branch a)"
  have cs: "cseq ?m = Inr (rg_cseq g + 1, lit ''REGISTER'')" using register_cseq [of ?g] Cons.prems by simp
  show ?case
  proof (cases "register_answer cr cd addr expires auth nc a u ?g")
    case (RegDone u1 g1 e1)
    then show ?thesis using Cons.prems(1) answer_done [OF RegDone] cs by auto
  next
    case (RegAgain auth1 nc1 u1)
    obtain ms2 where r: "register_loop cr cd addr expires auth1 nc1 as u1 ?g = (u', g', ms2, e)" and ms: "ms = ?m # ms2"
      using Cons.prems(1) RegAgain by (auto simp: Let_def split: prod.splits)
    have up: "map f [0..<Suc n] = f 0 # map (\<lambda>i. f (Suc i)) [0..<n]" for f :: "nat \<Rightarrow> pyerr + int \<times> pystr" and n
      by (rule nth_equalityI) (auto simp: nth_Cons split: nat.split simp del: upt_Suc)
    show ?thesis using Cons.IH [OF r] Cons.prems(2,3) answer_again [OF RegAgain] cs
      by (auto simp: ms up never_stale_def add.assoc algebra_simps simp del: upt_Suc split: if_splits)
  qed
qed (auto simp: never_stale_def)

text \<open>
  C21. Registering ends after at most five requests, each with the next sequence number under the same Call-ID; unless the
  registrar calls a nonce stale, after at most three: a password that is refused is not tried again. It succeeds with the
  registration on and its renewal at least half a minute away, or, when it was asked to expire, with it off.
\<close>

theorem register_bounded:
  assumes "register cr cd addr expires as u g = (u', g', ms, e)" and "0 \<le> rg_cseq g" and "rg_cseq g < 2 ^ 31"
  shows "length ms \<le> 5 \<and> rg_cseq g' = rg_cseq g + int (length ms) \<and> rg_call_id g' = rg_call_id g \<and>
    map cseq ms = map (\<lambda>i. Inr (rg_cseq g + 1 + int i, lit ''REGISTER'')) [0..<length ms] \<and>
    (e = RegOk \<longrightarrow> (rg_registered g' \<longleftrightarrow> expires \<noteq> 0) \<and> (expires \<noteq> 0 \<longrightarrow> 30 \<le> rg_interval g')) \<and>
    (never_stale as \<longrightarrow> length ms \<le> 3)"
proof -
  have "never_stale as \<Longrightarrow> never_stale (take 5 as)" by (auto simp: never_stale_def list_all_iff dest: in_set_takeD)
  moreover have "rg_cseq g + int (length (take 5 as)) < 10 ^ 20" using assms(3) by simp
  ultimately show ?thesis using register_loop_bounds [OF assms(1) [unfolded register_def] assms(2)]
    by (auto split: if_split_asm)
qed

definition demo_reg :: reg where
  "demo_reg = \<lparr>rg_call_id = lit ''r1'', rg_tag = lit ''t'', rg_cseq = 41, rg_registered = False, rg_interval = 300\<rparr>"

definition demo_ok :: sip_msg where
  "demo_ok = new_msg (lit ''SIP/2.0 200 OK'') [(lit ''Via'', lit ''SIP/2.0/UDP 10.0.0.2:5060;branch=z''), (lit ''Expires'', lit ''60'')] []"

lemma demo_granted: "status demo_ok = Inr 200" "seen_address demo_ua demo_peer demo_ok = Inr None" "granted_time 300 demo_ok = Inr 60"
proof -
  have s: "sm_start demo_ok = lit ''SIP/2.0 200 OK''" by (simp add: demo_ok_def new_msg_def lit_def strip_space_def is_space_def)
  have t: "int_of_str [50, 48, 48] = Inr 200" "int_of_str (lit ''60'') = Inr 60"
    using int_of_digits [of "[50, 48, 48]"] int_of_digits [of "lit ''60''"] by (simp_all add: is_digit_def digits_val_def lit_def)
  show "status demo_ok = Inr 200"
    by (simp add: status_def is_request_def s) (simp add: lit_def starts_with_def item_def t)
  have raw: "raw_header (lit ''via'') demo_ok = Some (lit ''SIP/2.0/UDP 10.0.0.2:5060;branch=z'')" "raw_header (lit ''expires'') demo_ok = Some (lit ''60'')"
    "raw_all (lit ''contact'') demo_ok = []"
    by (simp_all add: raw_header_def raw_all_def demo_ok_def new_msg_def canon_names lit_eq)
  have one: "split_commas (lit ''SIP/2.0/UDP 10.0.0.2:5060;branch=z'') = [lit ''SIP/2.0/UDP 10.0.0.2:5060;branch=z'']"
    by (simp add: split_commas_def lit_def strip_space_def is_space_def)
  have via: "\<exists>v. parse_via (lit ''SIP/2.0/UDP 10.0.0.2:5060;branch=z'') = Inr v \<and> map_of (via_params v) (lit ''received'') = None"
    using int_of_digits [of "[53, 48, 54, 48]"]
    by (simp add: parse_via_def lit_def strip_space_def is_space_def partition_at_def py_isdigit_def digit_value_ascii is_digit_def parse_params_def
        py_lower_def lower_char_def strip_chars_def Let_def)
  then show "seen_address demo_ua demo_peer demo_ok = Inr None"
    by (auto simp: seen_address_def get_raw canon_names multi_names raw one item_def or_empty_def)
  show "granted_time 300 demo_ok = Inr 60"
    by (simp add: granted_time_def get_all_raw get_raw canon_names multi_names raw or_empty_def t)
      (simp add: lit_def py_isdigit_def digit_value_ascii is_digit_def)
qed

definition demo_crypto :: crypto where
  "demo_crypto = \<lparr>cr_md5 = (\<lambda>b. []), cr_sha256 = (\<lambda>b. []), cr_alnum = (\<lambda>n. n < 128)\<rparr>"

lemma register_bounded_witness:
  "\<exists>u g ms. register demo_crypto \<lparr>cd_password = None, cd_user = lit ''bob''\<rparr> demo_peer 300
       [\<lparr>at_resp = Some demo_ok, at_branch = lit ''z'', at_secret = []\<rparr>] demo_ua demo_reg = (u, g, ms, RegOk) \<and>
     length ms \<le> 5 \<and> rg_cseq g = 42 \<and> rg_registered g \<and> 30 \<le> rg_interval g \<and> map cseq ms = [Inr (42, lit ''REGISTER'')]"
proof -
  obtain g m where r: "register demo_crypto \<lparr>cd_password = None, cd_user = lit ''bob''\<rparr> demo_peer 300
      [\<lparr>at_resp = Some demo_ok, at_branch = lit ''z'', at_secret = []\<rparr>] demo_ua demo_reg = (demo_ua, g, [m], RegOk)"
    by (simp add: register_def register_answer_def demo_granted Let_def)
  show ?thesis using register_bounded [OF r] r by (auto simp: demo_reg_def)
qed

section \<open>Retransmission backs off\<close>

fun honest :: "time \<Rightarrow> tx_seen list \<Rightarrow> bool" where
  "honest t [] \<longleftrightarrow> True"
| "honest t ((now, got, after, set_at) # seen) \<longleftrightarrow> t \<le> now \<and> now \<le> after \<and> after \<le> set_at \<and> honest set_at seen"

lemma provisional_quiet: "tx_provisional x \<Longrightarrow> fst (transact_loop True prov x seen) = []"
  by (induction "True" prov x seen rule: transact_loop.induct) (auto split: option.split sum.split)

lemma late_quiet: "tx_deadline x \<le> t \<Longrightarrow> honest t seen \<Longrightarrow> fst (transact_loop invite prov x seen) = []"
  by (cases seen) auto

lemma transact_backs_off:
  assumes "transact_loop True prov x seen = (sends, res)" and "honest t seen" and "0 \<le> tx_interval x" and "\<not> tx_provisional x"
  shows "(\<forall>k < length sends. tx_next x + tx_interval x * (2 ^ Suc k - 2) \<le> sends ! k) \<and>
    (\<forall>k. Suc k < length sends \<longrightarrow> sends ! k < tx_deadline x)"
  using assms
proof (induction seen arbitrary: x sends t)
  case (Cons y seen)
  obtain now got after sa where y: "y = (now, got, after, sa)" by (cases y)
  show ?case
  proof (cases "tx_deadline x \<le> now")
    case live: False
    show ?thesis
    proof (cases got)
      case (Some r)
      show ?thesis
      proof (cases "\<exists>code. status r = Inr code \<and> code < 200")
        case True
        then have "sends = []" using Cons.prems(1) live Some provisional_quiet by (auto simp: y prod_eq_iff)
        then show ?thesis by simp
      next
        case False
        then have "sends = []" using Cons.prems(1) live Some by (auto simp: y split: sum.splits)
        then show ?thesis by simp
      qed
    next
      case None
      show ?thesis
      proof (cases "tx_next x \<le> after")
        case False
        then show ?thesis using Cons.IH [of x sends sa] Cons.prems live None by (simp add: y)
      next
        case due: True
        let ?x = "x\<lparr>tx_interval := tx_interval x * 2, tx_next := sa + tx_interval x * 2\<rparr>"
        obtain more where r: "transact_loop True prov ?x seen = (more, res)" and s: "sends = after # more"
          using Cons.prems(1,4) live None due by (auto simp: y Let_def split: prod.splits)
        have ih: "(\<forall>k < length more. sa + tx_interval x * 2 + tx_interval x * 2 * (2 ^ Suc k - 2) \<le> more ! k)"
          "\<And>k. Suc k < length more \<Longrightarrow> more ! k < tx_deadline x"
          using Cons.IH [OF r, of sa] Cons.prems by (auto simp: y)
        have le: "tx_next x + tx_interval x * (2 ^ Suc (Suc k) - 2) \<le> more ! k" if "k < length more" for k
        proof -
          have "tx_next x \<le> sa" using due Cons.prems(2) by (simp add: y)
          moreover have "tx_interval x * 2 + tx_interval x * 2 * (2 ^ Suc k - 2) = tx_interval x * (2 ^ Suc (Suc k) - 2)" by (simp add: algebra_simps)
          ultimately show ?thesis using ih(1) that by fastforce
        qed
        have first: "after < tx_deadline x" if "more \<noteq> []"
        proof (rule ccontr)
          assume "\<not> after < tx_deadline x"
          then have "tx_deadline ?x \<le> sa" "honest sa seen" using Cons.prems(2) by (simp_all add: y)
          then show False using late_quiet [of ?x sa seen True prov] r that by simp
        qed
        show ?thesis using le first ih(2) due by (auto simp: s nth_Cons split: nat.split)
      qed
    qed
  qed (use Cons.prems in \<open>simp add: y\<close>)
qed simp

lemma provisional_stops:
  assumes "status r = Inr code" and "code < 200"
  shows "fst (transact_loop True prov x (s1 @ (now, Some r, after, sa) # s2)) = fst (transact_loop True prov x s1)"
proof (induction "True" prov x s1 rule: transact_loop.induct)
  case (1 prov x)
  then show ?case using assms provisional_quiet by simp
qed (auto simp: Let_def split: option.split sum.split prod.split)

lemma backoff_bound:
  assumes "transact_loop True prov (transact_start t0 32) seen = (sends, res)" and "honest t0 seen"
  shows "length sends \<le> 7 \<and> (\<forall>k < length sends. t0 + 2 ^ k - 1 / 2 \<le> sends ! k)"
proof -
  have b: "t0 + 2 ^ k - 1 / 2 \<le> sends ! k" if "k < length sends" for k
  proof -
    have "t0 + 1 / 2 + 1 / 2 * (2 ^ Suc k - 2) \<le> sends ! k"
      using conjunct1 [OF transact_backs_off [OF assms]] that by (simp add: transact_start_def)
    then show ?thesis by (simp add: algebra_simps)
  qed
  have "\<not> 7 < length sends"
  proof
    assume "7 < length sends"
    then have "sends ! 6 < t0 + 32" "t0 + 2 ^ 6 - 1 / 2 \<le> sends ! 6"
      using conjunct2 [OF transact_backs_off [OF assms]] b [of 6] by (simp_all add: transact_start_def)
    then show False by simp
  qed
  then show ?thesis using b by simp
qed

text \<open>
  The retransmissions of an INVITE back off: the times double from half a second, so that within its 32 seconds it is sent
  again at most seven times, however the clock runs; and not once more after a provisional response.
\<close>

theorem invite_backs_off:
  assumes "honest t0 seen"
  shows "length (fst (transact_loop True prov (transact_start t0 32) seen)) \<le> 7 \<and>
    (\<forall>k < length (fst (transact_loop True prov (transact_start t0 32) seen)).
       t0 + 2 ^ k - 1 / 2 \<le> fst (transact_loop True prov (transact_start t0 32) seen) ! k) \<and>
    (\<forall>s1 s2 now r after sa code. seen = s1 @ (now, Some r, after, sa) # s2 \<longrightarrow> status r = Inr code \<longrightarrow> code < 200 \<longrightarrow>
       fst (transact_loop True prov (transact_start t0 32) seen) = fst (transact_loop True prov (transact_start t0 32) s1))"
proof -
  obtain sends res where r: "transact_loop True prov (transact_start t0 32) seen = (sends, res)" by fastforce
  show ?thesis using backoff_bound [OF r assms] provisional_stops [of _ _ prov "transact_start t0 32"] r by auto
qed

lemma invite_backs_off_witness:
  "length (fst (transact_loop True (Some 60) (transact_start 100 32) [(100, None, 100.5, 101), (101, None, 102, 102)])) \<le> 7 \<and>
   fst (transact_loop True (Some 60) (transact_start 100 32) [(100, None, 100.5, 101), (101, None, 102, 102)]) = [100.5, 102]"
proof -
  have "honest 100 [(100, None, 100.5, 101), (101, None, 102, 102)]" by simp
  from invite_backs_off [OF this, of "Some 60"] show ?thesis by (simp add: transact_start_def Let_def)
qed

end
