(* ===== verification/Llama_Lean.thy ===== *)
theory Llama_Lean
  imports Py_Unicode Phone_Gate
begin

text \<open>
  \<^verbatim>\<open>s22-llama-ondemand.py\<close>, what it does to a request: the lean rewrite and its append-only window, the cached prefix of
  a prompt, the command line of the server, and the HTTP heads it edits. Hashes, \<open>json.dumps\<close> and \<open>str\<close> of JSON values are
  parameters.
\<close>

section \<open>Texts\<close>

text \<open>\<open>s.split(sep)\<close> for a separator of several characters; it is not empty.\<close>

lemma cut_at_parts: "cut_at p s = Some (a, b) \<Longrightarrow> s = a @ p @ b"
proof (induction s arbitrary: a b)
  case (Cons c s)
  show ?case
  proof (cases "take (length p) (c # s) = p")
    case True
    then show ?thesis using Cons.prems append_take_drop_id [of "length p" "c # s"] by auto
  next
    case False
    then show ?thesis using Cons by (auto split: prod.splits simp del: take_Cons' )
  qed
qed (simp split: if_splits)

function split_on :: "'a list \<Rightarrow> 'a list \<Rightarrow> 'a list list" where
  "split_on p s = (if p = [] then [s] else (case cut_at p s of None \<Rightarrow> [s] | Some (a, b) \<Rightarrow> a # split_on p b))"
  by pat_completeness auto
termination
proof (relation "measure (\<lambda>(p, s). length s)")
  fix p s ab a and b :: "'a list" assume "p \<noteq> []" "cut_at p s = Some ab" "(a, b) = ab"
  then show "((p, b), (p, s)) \<in> measure (\<lambda>(p, s). length s)" using cut_at_parts [of p s a b] by (auto simp: length_greater_0_conv [symmetric] simp del: length_greater_0_conv)
qed simp

declare split_on.simps [simp del]

definition clip :: "pystr \<Rightarrow> nat \<Rightarrow> pystr" where
  "clip t n =
     (if length t \<le> n then t
      else (let head = n - n div 4 in take head t @ lit '' [...] '' @ drop (length t - (n - head)) t))"

definition DIRECTIVE :: pystr where
  "DIRECTIVE = lit ''[OPENUNUM INTERNAL TURN DIRECTIVE]''"

text \<open>The owner's words without the scaffolding of the turn.\<close>

definition lean_user_text :: "pystr \<Rightarrow> pystr" where
  "lean_user_text t =
     (let (before0, after) = (case cut_at (lit ''</openunum_turn_context>'') t of Some (a, b) \<Rightarrow> (a, b) | None \<Rightarrow> ([], t));
          before = (case cut_at (lit ''<openunum_turn_context>'') before0 of Some (a, _) \<Rightarrow> a | None \<Rightarrow> before0);
          parts = split_on DIRECTIVE after;
          words0 = strip_space (hd parts);
          words1 = (if words0 = [] \<and> \<not> starts_with (lit ''## Session digest'') (dropWhile is_space before) then strip_space before else words0);
          words = (if starts_with (lit ''## Session digest'') words1 then [] else words1);
          rest = filter (\<lambda>p. p \<noteq> []) (map strip_space (tl parts))
      in if words \<noteq> [] then words else (case rest of [] \<Rightarrow> [] | p # _ \<Rightarrow> clip p 400))"

section \<open>Messages\<close>

text \<open>A message is a dictionary; \<open>m.get(k)\<close> of a missing key is \<open>None\<close>.\<close>

type_synonym msg = "(pystr, json) dict"

definition mget :: "msg \<Rightarrow> string \<Rightarrow> json" where
  "mget m k = (case map_of m (lit k) of None \<Rightarrow> JNull | Some v \<Rightarrow> v)"

definition has_role :: "string \<Rightarrow> msg \<Rightarrow> bool" where
  "has_role r m \<longleftrightarrow> mget m ''role'' = JStr (lit r)"

definition is_lead :: "msg \<Rightarrow> bool" where
  "is_lead m \<longleftrightarrow> has_role ''system'' m \<or> has_role ''developer'' m"

text \<open>\<open>for m in (body.get('messages') or [])\<close>, the dictionaries of it; a number or \<open>True\<close> cannot be iterated.\<close>

definition dict_msgs :: "json \<Rightarrow> pyerr + msg list" where
  "dict_msgs v =
     (if \<not> truthy v then Inr []
      else (case v of
              JArr xs \<Rightarrow> Inr (concat (map (\<lambda>x. case x of JObj m \<Rightarrow> [m] | _ \<Rightarrow> []) xs))
            | JStr _ \<Rightarrow> Inr [] | JObj _ \<Rightarrow> Inr [] | _ \<Rightarrow> Inl TypeError))"

definition LEAN_MAX_MSGS :: nat where "LEAN_MAX_MSGS = 16"
definition LEAN_KEEP_MSGS :: nat where "LEAN_KEEP_MSGS = 6"
definition LEAN_CLIP_OLD :: nat where "LEAN_CLIP_OLD = 600"
definition LEAN_CLIP_USER :: nat where "LEAN_CLIP_USER = 1500"
definition LEAN_CLIP_TOOL :: nat where "LEAN_CLIP_TOOL = 2500"
definition LEAN_MAX_TOKENS :: int where "LEAN_MAX_TOKENS = 768"
definition LEAN_MIN_SYSTEM :: nat where "LEAN_MIN_SYSTEM = 4000"

definition wants_lean :: "pylib \<Rightarrow> msg \<Rightarrow> pyerr + bool" where
  "wants_lean lib body =
     (if truthy (mget body ''tools'') then Inr True
      else try_r (dict_msgs (mget body ''messages'')) (\<lambda>msgs.
        let size = (\<lambda>m. length (if truthy (mget m ''content'') then lib_str lib (mget m ''content'') else []))
        in Inr (LEAN_MIN_SYSTEM < sum_list (map size (filter is_lead msgs)))))"

text \<open>A message of the history is clipped by its role alone.\<close>

definition lean_message :: "msg \<Rightarrow> msg" where
  "lean_message m =
     (case mget m ''content'' of
        JStr c \<Rightarrow>
          AList.update (lit ''content'')
            (JStr (if has_role ''user'' m then clip (lean_user_text c) LEAN_CLIP_USER
                   else if has_role ''tool'' m then clip c LEAN_CLIP_TOOL else clip c LEAN_CLIP_OLD)) m
      | _ \<Rightarrow> m)"

section \<open>The append-only window\<close>

text \<open>\<open>kf\<close> is the hash of role, content, tool calls and tool call id.\<close>

type_synonym key_fun = "json \<times> json \<times> json \<times> json \<Rightarrow> pystr"

definition raw_key :: "key_fun \<Rightarrow> msg \<Rightarrow> pystr" where
  "raw_key kf m = kf (mget m ''role'', mget m ''content'', mget m ''tool_calls'', mget m ''tool_call_id'')"

record lean_window =
  lw_keys :: "pystr list"
  lw_msgs :: "msg option list"

text \<open>
  The first place where the old keys go on in the new ones. (A second loop of the code, for a conversation that slid past
  its first message, answers 0 like the case of another conversation.)
\<close>

definition start_for :: "pystr list \<Rightarrow> pystr list \<Rightarrow> nat" where
  "start_for old keys =
     (if old = [] then 0
      else (case find (\<lambda>i. keys ! i = hd old \<and>
                     (let m = min (length old) (length keys - i) in take m (drop i keys) = take m old)) [0..<length keys] of
              Some i \<Rightarrow> i
            | None \<Rightarrow> 0))"

text \<open>A tool result stays with the call it belongs to; results without their call are left out.\<close>

primrec back_tools :: "msg list \<Rightarrow> nat \<Rightarrow> nat" where
  "back_tools rest 0 = 0"
| "back_tools rest (Suc n) = (if has_role ''tool'' (rest ! Suc n) then back_tools rest n else Suc n)"

definition skip_tools :: "msg list \<Rightarrow> nat \<Rightarrow> nat" where
  "skip_tools rest n = n + length (takeWhile (has_role ''tool'') (drop n rest))"

definition last_user :: "msg list \<Rightarrow> int" where
  "last_user rest = (case filter (\<lambda>i. has_role ''user'' (rest ! i)) [0..<length rest] of [] \<Rightarrow> - 1 | is \<Rightarrow> int (List.last is))"

text \<open>\<open>not (m.get('content') or '').strip()\<close>: content that is no string has no \<open>strip\<close>.\<close>

definition no_words :: "msg \<Rightarrow> pyerr + bool" where
  "no_words m =
     (let c = mget m ''content'' in
      if \<not> truthy c then Inr True else (case c of JStr s \<Rightarrow> Inr (strip_space s = []) | _ \<Rightarrow> Inl AttributeError))"

definition keep_message :: "(pystr \<rightharpoonup> msg option) \<Rightarrow> bool \<Rightarrow> pystr \<Rightarrow> msg \<Rightarrow> pyerr + msg option" where
  "keep_message known is_last k m =
     (case known k of
        Some v \<Rightarrow> Inr v
      | None \<Rightarrow>
          (let lm = lean_message m in
           if has_role ''user'' m then try_r (no_words lm) (\<lambda>e. Inr (if e \<and> \<not> is_last then None else Some lm)) else Inr (Some lm)))"

fun keep_all :: "(pystr \<rightharpoonup> msg option) \<Rightarrow> int \<Rightarrow> int \<Rightarrow> (pystr \<times> msg) list \<Rightarrow> pyerr + msg option list" where
  "keep_all known lu i [] = Inr []"
| "keep_all known lu i ((k, m) # ms) =
     try_r (keep_message known (i = lu) k m) (\<lambda>v. try_r (keep_all known lu (i + 1) ms) (\<lambda>vs. Inr (v # vs)))"

definition window_start :: "pystr list \<Rightarrow> pystr list \<Rightarrow> msg list \<Rightarrow> nat" where
  "window_start old keys rest =
     (let s0 = start_for old keys;
          s1 = (if LEAN_MAX_MSGS < length rest - s0 then length rest - LEAN_KEEP_MSGS else s0)
      in skip_tools rest (back_tools rest s1))"

definition select :: "key_fun \<Rightarrow> msg list \<Rightarrow> lean_window \<Rightarrow> pyerr + lean_window \<times> msg list" where
  "select kf rest w =
     (let keys = map (raw_key kf) rest;
          known = map_of (rev (zip (lw_keys w) (lw_msgs w)));
          start = window_start (lw_keys w) keys rest
      in try_r (keep_all known (last_user rest) (int start) (drop start (zip keys rest))) (\<lambda>kept.
           Inr (\<lparr>lw_keys = drop start keys, lw_msgs = kept\<rparr>, concat (map (\<lambda>v. case v of None \<Rightarrow> [] | Some m \<Rightarrow> [m]) kept))))"

section \<open>The rewritten request\<close>

text \<open>\<open>system\<close> is the short system prompt with the date of today; \<open>dumps\<close> is \<open>json.dumps\<close>.\<close>

record lean_cfg =
  ln_system :: pystr
  ln_dumps :: "json \<Rightarrow> pystr"

text \<open>\<open>min(int(mt), MAX) if isinstance(mt, (int, float)) and mt > 0 else MAX\<close>; an infinite number has no \<open>int\<close>.\<close>

definition token_cap :: "json \<Rightarrow> pyerr + int" where
  "token_cap mt =
     (case mt of
        JInt n \<Rightarrow> Inr (if 0 < n then min n LEAN_MAX_TOKENS else LEAN_MAX_TOKENS)
      | JBool b \<Rightarrow> Inr (if b then min 1 LEAN_MAX_TOKENS else LEAN_MAX_TOKENS)
      | JFloat q \<Rightarrow> Inr (if 0 < q then min \<lfloor>q\<rfloor> LEAN_MAX_TOKENS else LEAN_MAX_TOKENS)
      | JInf neg \<Rightarrow> if neg then Inr LEAN_MAX_TOKENS else Inl OverflowError
      | _ \<Rightarrow> Inr LEAN_MAX_TOKENS)"

definition lean_finish :: "lean_cfg \<Rightarrow> msg \<Rightarrow> msg list \<Rightarrow> pyerr + msg" where
  "lean_finish cfg body out =
     (let b1 = AList.update (lit ''cache_prompt'') (JBool True) body;
          tools = (if truthy (mget body ''tools'') then mget body ''tools'' else JArr []);
          n = (length (ln_system cfg) + length (ln_dumps cfg tools)) div 3;
          b2 = (if map_of b1 (lit ''n_keep'') = None then AList.update (lit ''n_keep'') (JInt (int n)) b1 else b1);
          head = JObj [(lit ''role'', JStr (lit ''system'')), (lit ''content'', JStr (ln_system cfg))];
          b3 = AList.update (lit ''messages'') (JArr (head # map JObj out)) b2;
          mt = (if truthy (mget b3 ''max_tokens'') then mget b3 ''max_tokens'' else mget b3 ''n_predict'')
      in try_r (token_cap mt) (\<lambda>c. Inr (AList.delete (lit ''n_predict'') (AList.update (lit ''max_tokens'') (JInt c) b3))))"

definition lean_request :: "lean_cfg \<Rightarrow> key_fun \<Rightarrow> msg \<Rightarrow> lean_window \<Rightarrow> pyerr + lean_window \<times> msg" where
  "lean_request cfg kf body w =
     try_r (dict_msgs (mget body ''messages'')) (\<lambda>msgs.
     try_r (select kf (filter (\<lambda>m. \<not> is_lead m) msgs) w) (\<lambda>(w1, out).
     try_r (lean_finish cfg body out) (\<lambda>b. Inr (w1, b))))"

text \<open>Without a window: the last messages, clipped by their place.\<close>

definition place_message :: "int \<Rightarrow> int \<Rightarrow> msg \<Rightarrow> msg" where
  "place_message lu i m =
     (case mget m ''content'' of
        JStr c \<Rightarrow>
          AList.update (lit ''content'')
            (JStr (if has_role ''user'' m then (if i \<noteq> lu then clip (lean_user_text c) LEAN_CLIP_OLD else lean_user_text c)
                   else if has_role ''tool'' m then clip c (if lu < i then LEAN_CLIP_TOOL else LEAN_CLIP_OLD)
                   else if i < lu then clip c LEAN_CLIP_OLD else c)) m
      | _ \<Rightarrow> m)"

fun place_all :: "int \<Rightarrow> int \<Rightarrow> msg list \<Rightarrow> pyerr + msg list" where
  "place_all lu i [] = Inr []"
| "place_all lu i (m # ms) =
     (let lm = place_message lu i m in
      try_r (if has_role ''user'' m then no_words lm else Inr False) (\<lambda>e.
      try_r (place_all lu (i + 1) ms) (\<lambda>out. Inr (if e \<and> i \<noteq> lu then out else lm # out))))"

definition lean_request_once :: "lean_cfg \<Rightarrow> msg \<Rightarrow> pyerr + msg" where
  "lean_request_once cfg body =
     try_r (dict_msgs (mget body ''messages'')) (\<lambda>msgs.
       let rest0 = filter (\<lambda>m. \<not> is_lead m) msgs;
           rest = dropWhile (has_role ''tool'') (drop (back_tools rest0 (length rest0 - LEAN_KEEP_MSGS)) rest0)
       in try_r (place_all (last_user rest) 0 rest) (lean_finish cfg body))"

section \<open>The stable prefix\<close>

definition MIN_PREFIX_CHARS :: nat where "MIN_PREFIX_CHARS = 2000"

text \<open>\<open>dumps\<close> with sorted keys; \<open>truthy\<close> decides \<open>or []\<close>. The elements of \<open>messages\<close> that are no dictionaries end the lead.\<close>

definition extract_prefix :: "(json \<Rightarrow> pystr) \<Rightarrow> msg \<Rightarrow> msg option" where
  "extract_prefix dumps body =
     (case mget body ''messages'' of
        JArr xs \<Rightarrow>
          (let lead = takeWhile (\<lambda>x. case x of JObj m \<Rightarrow> is_lead m | _ \<Rightarrow> False) xs;
               tools = (if truthy (mget body ''tools'') then mget body ''tools'' else JArr []);
               extra = concat (map (\<lambda>k. case map_of body (lit k) of None \<Rightarrow> [] | Some v \<Rightarrow> [(lit k, v)])
                         [''chat_template_kwargs'', ''reasoning_effort'', ''tool_choice'', ''parallel_tool_calls'', ''model'']);
               spec = (lit ''system'', JArr lead) # (lit ''tools'', tools) # extra
           in if length (dumps (JObj spec)) < MIN_PREFIX_CHARS \<or> lead = [] then None else Some spec)
      | _ \<Rightarrow> None)"

definition prefix_key :: "(pystr \<Rightarrow> pystr) \<Rightarrow> (json \<Rightarrow> pystr) \<Rightarrow> msg \<Rightarrow> pystr \<Rightarrow> pystr" where
  "prefix_key sha dumps spec tag = sha (dumps (JObj spec) @ [10] @ tag)"

definition warm_body :: "int \<Rightarrow> msg \<Rightarrow> msg" where
  "warm_body n spec =
     (let lead = (case mget spec ''system'' of JArr xs \<Rightarrow> xs | _ \<Rightarrow> []);
          user = JObj [(lit ''role'', JStr (lit ''user'')), (lit ''content'', JStr (lit ''.''))]
      in (lit ''messages'', JArr (lead @ [user])) #
         (if truthy (mget spec ''tools'') then [(lit ''tools'', mget spec ''tools'')] else []) @
         [(lit ''stream'', JBool False), (lit ''temperature'', JInt 0), (lit ''max_tokens'', JInt n), (lit ''cache_prompt'', JBool True)] @
         concat (map (\<lambda>k. case map_of spec (lit k) of None \<Rightarrow> [] | Some v \<Rightarrow> [(lit k, v)]) [''chat_template_kwargs'', ''reasoning_effort'', ''model'']))"

section \<open>The command line of the server\<close>

text \<open>\<open>argv[argv.index(flag) + 1] = v\<close>, which raises when the flag is the last argument.\<close>

definition index_of :: "pystr \<Rightarrow> pystr list \<Rightarrow> nat" where
  "index_of flag argv = length (takeWhile (\<lambda>a. a \<noteq> flag) argv)"

definition set_flag :: "string \<Rightarrow> pystr \<Rightarrow> pystr list \<Rightarrow> pyerr + pystr list" where
  "set_flag flag v argv =
     (if Suc (index_of (lit flag) argv) < length argv then Inr (argv[Suc (index_of (lit flag) argv) := v]) else Inl IndexError)"

definition backend_argv :: "nat \<Rightarrow> nat \<Rightarrow> pystr list \<Rightarrow> pyerr + pystr list" where
  "backend_argv port slots argv0 =
     try_r (if lit ''--port'' \<in> set argv0 then set_flag ''--port'' (dec_digits port) argv0 else Inr (argv0 @ [lit ''--port'', dec_digits port])) (\<lambda>a1.
     try_r (if lit ''-t'' \<in> set a1 then set_flag ''-t'' (lit ''2'') a1 else Inr a1) (\<lambda>a2.
     try_r (if lit ''-np'' \<in> set a2 then set_flag ''-np'' (dec_digits slots) a2 else Inr (a2 @ [lit ''-np'', dec_digits slots])) (\<lambda>a3.
       let a4 = (if lit ''--slot-save-path'' \<in> set a3 then a3 else a3 @ [lit ''--slot-save-path'', lit ''/data/slots''])
       in Inr (if lit ''--cache-reuse'' \<in> set a4 then a4 else a4 @ [lit ''--cache-reuse'', lit ''256'']))))"

text \<open>The prefill threads asked for by the environment or the state file: a number of cores other than the default.\<close>

definition threads_batch :: "pystr option \<Rightarrow> pystr option \<Rightarrow> pystr option" where
  "threads_batch env file =
     (case (case env of Some r \<Rightarrow> Some r | None \<Rightarrow> file) of
        None \<Rightarrow> None
      | Some r \<Rightarrow>
          (case int_of_str (strip_space r) of
             Inl e \<Rightarrow> None
           | Inr n \<Rightarrow> if \<not> (1 \<le> n \<and> n \<le> 3) \<or> int_text n = lit ''2'' then None else Some (int_text n)))"

definition with_threads_batch :: "pystr list \<Rightarrow> pystr option \<Rightarrow> pystr list" where
  "with_threads_batch argv tb =
     (let has = (\<lambda>f. lit f \<in> set argv \<and> Suc (index_of (lit f) argv) < length argv) in
      case tb of
        None \<Rightarrow> argv
      | Some t \<Rightarrow>
          if has ''-tb'' then argv[Suc (index_of (lit ''-tb'') argv) := t]
          else if has ''--threads-batch'' then argv[Suc (index_of (lit ''--threads-batch'') argv) := t]
          else argv @ [lit ''-tb'', t])"

definition argv_value :: "pystr list \<Rightarrow> string \<Rightarrow> pystr option" where
  "argv_value argv flag =
     (if lit flag \<in> set argv \<and> Suc (index_of (lit flag) argv) < length argv then Some (argv ! Suc (index_of (lit flag) argv)) else None)"

section \<open>Heads of requests\<close>

definition byte_space :: "byte \<Rightarrow> bool" where
  "byte_space b \<longleftrightarrow> b = 32 \<or> 9 \<le> b \<and> b \<le> 13"

definition byte_strip :: "bytes \<Rightarrow> bytes" where
  "byte_strip s = rev (dropWhile byte_space (rev (dropWhile byte_space s)))"

definition byte_lower :: "bytes \<Rightarrow> bytes" where
  "byte_lower s = map (\<lambda>b. if 65 \<le> b \<and> b \<le> 90 then b + 32 else b) s"

definition blit :: "string \<Rightarrow> bytes" where
  "blit s = map of_char s"

definition CRLF :: bytes where "CRLF = [13, 10]"
definition HEAD_END :: bytes where "HEAD_END = [13, 10, 13, 10]"

definition header_name :: "bytes \<Rightarrow> bytes" where
  "header_name l = byte_lower (byte_strip (takeWhile (\<lambda>b. b \<noteq> 58) l))"

definition header_value :: "bytes \<Rightarrow> bytes" where
  "header_value l = byte_strip (drop 1 (dropWhile (\<lambda>b. b \<noteq> 58) l))"

definition head_of :: "bytes \<Rightarrow> bytes" where
  "head_of data = (case cut_at HEAD_END data of None \<Rightarrow> data | Some (h, _) \<Rightarrow> h)"

definition set_body :: "bytes \<Rightarrow> bytes \<Rightarrow> bytes" where
  "set_body head body =
     (let lines = filter (\<lambda>l. header_name l \<noteq> blit ''content-length'') (split_on CRLF (head_of head))
      in join_with CRLF (lines @ [blit ''Content-Length: '' @ map of_nat (dec_digits (length body))]) @ HEAD_END @ body)"

definition force_close :: "bytes \<Rightarrow> bytes" where
  "force_close head =
     (case cut_at HEAD_END head of
        None \<Rightarrow> head
      | Some (hdr, rest) \<Rightarrow>
          join_with CRLF (filter (\<lambda>l. header_name l \<noteq> blit ''connection'' \<and> header_name l \<noteq> blit ''keep-alive'') (split_on CRLF hdr) @ [blit ''Connection: close''])
            @ HEAD_END @ rest)"

text \<open>
  The length a request announces: a bad number raises, a transfer encoding ends the search at once. The value of a bytes
  \<open>int\<close> is that of its ASCII text.
\<close>

datatype announced = Chunked | Length "int option"

fun content_length :: "int option \<Rightarrow> bytes list \<Rightarrow> pyerr + announced" where
  "content_length n [] = Inr (Length n)"
| "content_length n (l # ls) =
     (if header_name l = blit ''content-length'' then
        (if list_all (\<lambda>b. b < 128) (header_value l) then try_r (int_of_str (map unat (header_value l))) (\<lambda>k. content_length (Some k) ls) else Inl ValueError)
      else if header_name l = blit ''transfer-encoding'' then Inr Chunked
      else content_length n ls)"

definition MAX_BODY :: int where "MAX_BODY = 8 * 1024 * 1024"

text \<open>
  \<open>read_json\<close> up to the parser: the head and what the connection gave, and the body when it is complete. \<open>recv\<close> never
  gives more than is missing.
\<close>

definition read_request :: "bytes \<Rightarrow> bytes \<Rightarrow> bytes \<times> bytes option" where
  "read_request head later =
     (let (hdr, rest) = (case cut_at HEAD_END head of None \<Rightarrow> (head, []) | Some hr \<Rightarrow> hr) in
      case content_length None (tl (split_on CRLF hdr)) of
        Inr (Length (Some n)) \<Rightarrow>
          if MAX_BODY < n then (head, None)
          else (let body = rest @ take (nat n - length rest) later
                in (hdr @ HEAD_END @ body, if int (length body) = n then Some body else None))
      | _ \<Rightarrow> (head, None))"

section \<open>The window only grows at its end\<close>

lemma keep_all_map:
  assumes "keep_all known lu i (kms @ kms2) = Inr vs" and "list_all2 (\<lambda>(k, m) v. known k = Some v) kms old"
  shows "\<exists>new. vs = old @ new \<and> length new = length kms2"
  using assms(2,1)
proof (induction kms old arbitrary: i vs rule: list_all2_induct)
  case Nil
  have "length vs = length kms" if "keep_all known lu i kms = Inr vs" for kms i vs
    using that by (induction kms arbitrary: i vs) (auto simp: try_r_Inr_iff)
  then show ?case using Nil by simp
next
  case (Cons km kms v old)
  then show ?case by (cases km) (fastforce simp: keep_message_def try_r_Inr_iff)
qed

lemma select_parts:
  assumes "select kf rest w = Inr (w1, out)"
  defines "s \<equiv> window_start (lw_keys w) (map (raw_key kf) rest) rest"
  shows "lw_keys w1 = drop s (map (raw_key kf) rest)" and "length (lw_msgs w1) = length (lw_keys w1)"
    and "out = concat (map (\<lambda>v. case v of None \<Rightarrow> [] | Some m \<Rightarrow> [m]) (lw_msgs w1))"
    and "keep_all (map_of (rev (zip (lw_keys w) (lw_msgs w)))) (last_user rest) (int s) (drop s (zip (map (raw_key kf) rest) rest)) = Inr (lw_msgs w1)"
proof -
  have len: "length vs = length kms" if "keep_all known lu i kms = Inr vs" for known lu kms i vs
    using that by (induction kms arbitrary: i vs) (auto simp: try_r_Inr_iff)
  from assms(1) obtain kept where k: "keep_all (map_of (rev (zip (lw_keys w) (lw_msgs w)))) (last_user rest) (int s) (drop s (zip (map (raw_key kf) rest) rest)) = Inr kept"
    and w: "w1 = \<lparr>lw_keys = drop s (map (raw_key kf) rest), lw_msgs = kept\<rparr>" "out = concat (map (\<lambda>v. case v of None \<Rightarrow> [] | Some m \<Rightarrow> [m]) kept)"
    by (auto simp: select_def s_def Let_def try_r_Inr_iff)
  show "lw_keys w1 = drop s (map (raw_key kf) rest)" "out = concat (map (\<lambda>v. case v of None \<Rightarrow> [] | Some m \<Rightarrow> [m]) (lw_msgs w1))"
    "keep_all (map_of (rev (zip (lw_keys w) (lw_msgs w)))) (last_user rest) (int s) (drop s (zip (map (raw_key kf) rest) rest)) = Inr (lw_msgs w1)"
    using k by (simp_all add: w)
  show "length (lw_msgs w1) = length (lw_keys w1)" using len [OF k] by (simp add: w)
qed

lemma skip_head: "skip_tools rest n < length rest \<Longrightarrow> \<not> has_role ''tool'' (rest ! skip_tools rest n)"
proof -
  assume a: "skip_tools rest n < length rest"
  let ?t = "takeWhile (has_role ''tool'') (drop n rest)"
  have "length ?t < length (drop n rest)" using a by (simp add: skip_tools_def)
  then have "\<not> has_role ''tool'' (drop n rest ! length ?t)" by (rule nth_length_takeWhile)
  then show ?thesis using a by (simp add: skip_tools_def)
qed

lemma start_stays: "n < length rest \<Longrightarrow> \<not> has_role ''tool'' (rest ! n) \<Longrightarrow> skip_tools rest (back_tools rest n) = n"
  by (cases n; cases rest) (simp_all add: skip_tools_def Cons_nth_drop_Suc [symmetric])

lemma find_unique: "(\<And>j. j < n \<Longrightarrow> P j \<Longrightarrow> j = i) \<Longrightarrow> i < n \<Longrightarrow> P i \<Longrightarrow> find P [0..<n] = Some i"
proof -
  assume u: "\<And>j. j < n \<Longrightarrow> P j \<Longrightarrow> j = i" and i: "i < n" "P i"
  have "\<not> P ([0..<n] ! j)" if "j < i" for j
  proof
    assume "P ([0..<n] ! j)"
    then have "P j" using that i(1) by simp
    then show False using u [of j] that i(1) by simp
  qed
  then show ?thesis unfolding find_Some_iff using i by (intro exI [of _ i]) simp
qed

lemma start_found:
  assumes "distinct keys" and "i < length keys" and "old \<noteq> []" and "old = take (length old) (drop i keys)"
  shows "start_for old keys = i"
proof -
  let ?P = "\<lambda>j. keys ! j = hd old \<and> (let m = min (length old) (length keys - j) in take m (drop j keys) = take m old)"
  have le: "length old \<le> length keys - i" using arg_cong [OF assms(4), of length] by simp
  have "hd old = hd (take (length old) (drop i keys))" by (rule arg_cong [OF assms(4)])
  then have hd: "hd old = keys ! i" using assms(2,3) by (simp add: hd_take hd_drop_conv_nth)
  have "min (length old) (length keys - i) = length old" using le by simp
  then have P: "?P i" using hd assms(4) [symmetric] by (simp add: Let_def)
  have "\<And>j. j < length keys \<Longrightarrow> ?P j \<Longrightarrow> j = i" using assms(1,2) hd by (metis nth_eq_iff_index_eq)
  then have "find ?P [0..<length keys] = Some i" using P assms(2) by (intro find_unique) blast+
  then show ?thesis using assms(3) by (simp add: start_for_def)
qed

lemma window_grows:
  assumes "select kf rest w = Inr (w1, out1)" and "select kf (drop j rest @ new) w1 = Inr (w2, out2)"
    and "distinct (map (raw_key kf) (rest @ new))" and "lw_keys w1 \<noteq> []"
    and "length (lw_keys w1) + length new \<le> LEAN_MAX_MSGS" and "j + length (lw_keys w1) \<le> length rest"
  shows "\<exists>added. out2 = out1 @ added \<and> length added \<le> length new \<and> lw_keys w2 = lw_keys w1 @ map (raw_key kf) new"
proof -
  define s where "s = window_start (lw_keys w) (map (raw_key kf) rest) rest"
  note one = select_parts [OF assms(1), folded s_def]
  let ?rest = "drop j rest @ new" and ?old = "lw_keys w1"
  let ?keys = "map (raw_key kf) ?rest"
  have s: "s < length rest" "length ?old = length rest - s" using assms(4) one(1) by auto
  then have js: "j \<le> s" using assms(6) by linarith
  have "?keys = drop j (map (raw_key kf) (rest @ new))" using s js by (simp add: drop_map)
  then have dk: "distinct ?keys" using assms(3) by (metis distinct_drop)
  have at: "?old = take (length ?old) (drop (s - j) ?keys)" using s js one(1) by (simp add: drop_map)
  have found: "start_for ?old ?keys = s - j"
    by (rule start_found [OF dk _ assms(4) at]) (use s js in simp)
  have "s = skip_tools rest (back_tools rest (let s0 = start_for (lw_keys w) (map (raw_key kf) rest) in
      if LEAN_MAX_MSGS < length rest - s0 then length rest - LEAN_KEEP_MSGS else s0))"
    by (simp add: s_def window_start_def Let_def)
  then have nt: "\<not> has_role ''tool'' (rest ! s)" using skip_head s(1) by metis
  have stay: "skip_tools ?rest (back_tools ?rest (s - j)) = s - j"
  proof (rule start_stays)
    have i: "s - j < length rest - j" using s js by linarith
    then show "s - j < length ?rest" by simp
    show "\<not> has_role ''tool'' (?rest ! (s - j))" using i js nt by (simp add: nth_append)
  qed
  have le: "length ?rest - (s - j) \<le> LEAN_MAX_MSGS" using assms(5) s js by simp
  have st: "window_start ?old ?keys ?rest = s - j" using found stay le by (simp add: window_start_def Let_def)
  note two = select_parts [OF assms(2), unfolded st]
  have dr: "drop (s - j) (zip ?keys ?rest) = zip ?old (drop s rest) @ zip (map (raw_key kf) new) new"
    using s js one(1) by (simp add: zip_append drop_zip drop_map)
  have dold: "distinct ?old" using dk at by (metis distinct_drop distinct_take)
  have known: "map_of (rev (zip ?old (lw_msgs w1))) (?old ! i) = Some (lw_msgs w1 ! i)" if "i < length ?old" for i
  proof -
    have "distinct (map fst (rev (zip ?old (lw_msgs w1))))" using dold one(2) by (simp add: rev_map [symmetric])
    moreover have "(?old ! i, lw_msgs w1 ! i) \<in> set (rev (zip ?old (lw_msgs w1)))" using that one(2) by (auto simp: set_zip)
    ultimately show ?thesis by simp
  qed
  have "list_all2 (\<lambda>(k, m) v. map_of (rev (zip ?old (lw_msgs w1))) k = Some v) (zip ?old (drop s rest)) (lw_msgs w1)"
    using known one(2) s by (simp add: list_all2_conv_all_nth)
  then obtain new' where n: "lw_msgs w2 = lw_msgs w1 @ new'" "length new' = length (zip (map (raw_key kf) new) new)"
    using keep_all_map two(4) unfolding dr by blast
  let ?flat = "\<lambda>vs :: msg option list. concat (map (\<lambda>v. case v of None \<Rightarrow> [] | Some m \<Rightarrow> [m]) vs)"
  have "length (?flat vs) \<le> length vs" for vs by (induction vs) (auto split: option.split)
  then have "length (?flat new') \<le> length new" using n(2) by (metis length_map length_zip min.idem)
  moreover have "out2 = out1 @ ?flat new'" using one(3) two(3) n(1) by simp
  moreover have "lw_keys w2 = ?old @ map (raw_key kf) new" using two(1) s js one(1) by (simp add: drop_map)
  ultimately show ?thesis by blast
qed

section \<open>Its size is bounded\<close>

lemma clip_length: "length (clip t n) \<le> n + 7"
  by (simp add: clip_def Let_def lit_def)

definition msg_small :: "msg \<Rightarrow> bool" where
  "msg_small m \<longleftrightarrow> (\<forall>c. mget m ''content'' = JStr c \<longrightarrow> length c \<le> LEAN_CLIP_TOOL + 7)"

definition window_small :: "lean_window \<Rightarrow> bool" where
  "window_small w \<longleftrightarrow> (\<forall>m. Some m \<in> set (lw_msgs w) \<longrightarrow> msg_small m)"

text \<open>At most \<open>k\<close> results of tools stand in a row.\<close>

definition tool_runs :: "nat \<Rightarrow> msg list \<Rightarrow> bool" where
  "tool_runs k rest \<longleftrightarrow> (\<forall>i. i + k < length rest \<longrightarrow> (\<exists>j \<le> k. \<not> has_role ''tool'' (rest ! (i + j))))"

lemma lean_message_small: "msg_small (lean_message m)"
proof -
  have "length (clip t LEAN_CLIP_USER) \<le> LEAN_CLIP_TOOL + 7" "length (clip t LEAN_CLIP_OLD) \<le> LEAN_CLIP_TOOL + 7" for t
    using clip_length [of t LEAN_CLIP_USER] clip_length [of t LEAN_CLIP_OLD] by (simp_all add: LEAN_CLIP_USER_def LEAN_CLIP_OLD_def LEAN_CLIP_TOOL_def)
  then show ?thesis using clip_length [of _ LEAN_CLIP_TOOL]
    by (auto simp: msg_small_def lean_message_def mget_def split: json.split option.split)
qed

lemma keep_all_small:
  assumes "keep_all known lu i kms = Inr vs" and "\<And>k m. known k = Some (Some m) \<Longrightarrow> msg_small m"
  shows "Some m \<in> set vs \<Longrightarrow> msg_small m"
  using assms(1)
proof (induction kms arbitrary: i vs)
  case (Cons km kms)
  obtain k x where km: "km = (k, x)" by (cases km)
  obtain v vs' where v: "keep_message known (i = lu) k x = Inr v" "keep_all known lu (i + 1) kms = Inr vs'" "vs = v # vs'"
    using Cons.prems(2) by (auto simp: km try_r_Inr_iff)
  have "v = Some m \<Longrightarrow> msg_small m" using v(1) assms(2) lean_message_small
    by (auto simp: keep_message_def try_r_Inr_iff Let_def split: option.splits if_splits)
  then show ?case using Cons.IH [OF _ v(2)] Cons.prems(1) v(3) by auto
qed simp

lemma back_run:
  assumes "tool_runs k rest" and "n < length rest"
  shows "n - back_tools rest n \<le> k"
proof -
  have tools: "back_tools rest n < i \<Longrightarrow> i \<le> n \<Longrightarrow> has_role ''tool'' (rest ! i)" for i
    by (induction n) (auto simp: le_Suc_eq split: if_splits)
  have "back_tools rest n \<le> n" by (induction n) auto
  show ?thesis
  proof (rule ccontr)
    assume "\<not> n - back_tools rest n \<le> k"
    then have lt: "Suc (back_tools rest n) + k < length rest" "Suc (back_tools rest n) + k \<le> n" using assms(2) by linarith+
    then obtain j where "j \<le> k" "\<not> has_role ''tool'' (rest ! (Suc (back_tools rest n) + j))" using assms(1) unfolding tool_runs_def by blast
    then show False using tools [of "Suc (back_tools rest n) + j"] lt by simp
  qed
qed

lemma select_small:
  assumes "select kf rest w = Inr (w1, out)" and "window_small w"
  shows "window_small w1" and "m \<in> set out \<Longrightarrow> msg_small m"
proof -
  have "msg_small m" if "map_of (rev (zip (lw_keys w) (lw_msgs w))) k = Some (Some m)" for k m
    using assms(2) map_of_SomeD [OF that] by (auto simp: window_small_def dest: set_zip_rightD)
  then show w: "window_small w1" using keep_all_small [OF select_parts(4) [OF assms(1)]] by (auto simp: window_small_def)
  show "m \<in> set out \<Longrightarrow> msg_small m" using w unfolding select_parts(3) [OF assms(1)]
    by (auto simp: window_small_def split: option.splits)
qed

lemma start_le: "start_for old keys = 0 \<or> start_for old keys < length keys"
  by (auto simp: start_for_def find_Some_iff split: option.split)

lemma select_length:
  assumes "select kf rest w = Inr (w1, out)" and "tool_runs k rest"
  shows "length out \<le> LEAN_MAX_MSGS + k"
proof -
  let ?s0 = "start_for (lw_keys w) (map (raw_key kf) rest)"
  define s1 where "s1 = (if LEAN_MAX_MSGS < length rest - ?s0 then length rest - LEAN_KEEP_MSGS else ?s0)"
  define s where "s = window_start (lw_keys w) (map (raw_key kf) rest) rest"
  have l: "length rest - s1 \<le> LEAN_MAX_MSGS" by (simp add: s1_def LEAN_MAX_MSGS_def LEAN_KEEP_MSGS_def)
  have s: "back_tools rest s1 \<le> s" by (simp add: s_def window_start_def s1_def Let_def skip_tools_def)
  have "length rest - s \<le> LEAN_MAX_MSGS + k"
  proof (cases "s1 < length rest")
    case True
    then have "s1 - back_tools rest s1 \<le> k" by (rule back_run [OF assms(2)])
    then show ?thesis using l s by linarith
  next
    case False
    then have "length rest = 0" using start_le [of "lw_keys w" "map (raw_key kf) rest"]
      by (auto simp: s1_def LEAN_MAX_MSGS_def LEAN_KEEP_MSGS_def split: if_splits)
    then show ?thesis by simp
  qed
  moreover have "length out \<le> length (lw_msgs w1)"
  proof -
    have "length (concat (map (\<lambda>v. case v of None \<Rightarrow> [] | Some m \<Rightarrow> [m]) vs)) \<le> length vs" for vs :: "msg option list"
      by (induction vs) (auto split: option.split)
    then show ?thesis by (simp add: select_parts(3) [OF assms(1)])
  qed
  ultimately show ?thesis using select_parts(1,2) [OF assms(1), folded s_def] by simp
qed


text \<open>
  What the model is sent is bounded: at most the window, and as many messages more as results of tools stand in a row,
  each text clipped; and the window keeps only such messages.
\<close>

theorem window_bounded:
  assumes "select kf rest w = Inr (w1, out)" and "window_small w" and "tool_runs k rest"
  shows "length out \<le> LEAN_MAX_MSGS + k \<and> (\<forall>m \<in> set out. msg_small m) \<and> window_small w1"
  using select_length [OF assms(1,3)] select_small [OF assms(1,2)] by blast

definition demo_msg :: "string \<Rightarrow> string \<Rightarrow> msg" where
  "demo_msg role content = [(lit ''role'', JStr (lit role)), (lit ''content'', JStr (lit content))]"

definition demo_key :: key_fun where
  "demo_key = (\<lambda>(r, c, t, i). case c of JStr s \<Rightarrow> s | _ \<Rightarrow> [])"

definition demo_talk :: "msg list" where
  "demo_talk = [demo_msg ''user'' ''hi'', demo_msg ''assistant'' ''hello'']"

definition demo_window :: lean_window where
  "demo_window = \<lparr>lw_keys = map lit [''hi'', ''hello''], lw_msgs = map Some demo_talk\<rparr>"

lemma lean_demo_reads:
  "mget (demo_msg r c) ''role'' = JStr (lit r)" "mget (demo_msg r c) ''content'' = JStr (lit c)" "raw_key demo_key (demo_msg r c) = lit c"
  "has_role r2 (demo_msg r c) \<longleftrightarrow> r = r2"
  by (auto simp: mget_def demo_msg_def raw_key_def demo_key_def has_role_def lit_eq)

lemma demo_texts: "lean_user_text (lit ''hi'') = lit ''hi''" "lean_user_text (lit '' '') = []" "strip_space (lit ''hi'') \<noteq> []" "lit ''hi'' \<noteq> []" "lit [] = []"
  by (simp_all add: lean_user_text_def lit_def split_on.simps DIRECTIVE_def strip_space_def is_space_def starts_with_def Let_def)

lemma demo_lean:
  "lean_message (demo_msg ''user'' ''hi'') = demo_msg ''user'' ''hi''" "lean_message (demo_msg ''user'' '' '') = demo_msg ''user'' []"
  "lean_message (demo_msg ''assistant'' ''hello'') = demo_msg ''assistant'' ''hello''" "lean_message (demo_msg ''assistant'' ''a'') = demo_msg ''assistant'' ''a''"
  by (simp_all add: lean_message_def lean_demo_reads demo_texts clip_def LEAN_CLIP_USER_def LEAN_CLIP_OLD_def) (simp_all add: lit_def demo_msg_def)

lemmas demo_select_defs = select_def window_start_def start_for_def LEAN_MAX_MSGS_def skip_tools_def lean_demo_reads lit_eq last_user_def
  keep_message_def demo_lean no_words_def truthy_def upt_rec demo_texts Let_def

lemma demo_select:
  "select demo_key demo_talk \<lparr>lw_keys = [], lw_msgs = []\<rparr> = Inr (demo_window, demo_talk)"
  by (simp add: demo_select_defs demo_talk_def demo_window_def)

lemma demo_select_next:
  "select demo_key (drop 0 demo_talk @ [demo_msg ''tool'' ''ok'']) demo_window =
     Inr (\<lparr>lw_keys = map lit [''hi'', ''hello'', ''ok''], lw_msgs = map Some (demo_talk @ [demo_msg ''tool'' ''ok''])\<rparr>,
       demo_talk @ [demo_msg ''tool'' ''ok''])"
  by code_simp


lemma window_bounded_witness: "length demo_talk \<le> LEAN_MAX_MSGS + 0 \<and> (\<forall>m \<in> set demo_talk. msg_small m)"
proof -
  have "tool_runs 0 demo_talk" by (simp add: tool_runs_def demo_talk_def less_Suc_eq all_conj_distrib has_role_def mget_def demo_msg_def lit_eq)
  moreover have "window_small \<lparr>lw_keys = [], lw_msgs = []\<rparr>" by (simp add: window_small_def)
  ultimately show ?thesis using window_bounded [OF demo_select] by blast
qed

section \<open>Where it goes wrong\<close>

text \<open>
  Content in parts, as the OpenAI interface allows it, has no \<open>strip\<close>: a message of the user with it makes the rewrite
  raise, and the whole controller prompt goes to the model after all.
\<close>

lemma parts_disable_lean:
  assumes "has_role ''user'' m" and "mget m ''content'' = JArr xs" and "xs \<noteq> []"
  shows "select kf [m] \<lparr>lw_keys = [], lw_msgs = []\<rparr> = Inl AttributeError"
proof -
  have r: "\<not> has_role ''tool'' m" using assms(1) by (simp add: has_role_def lit_eq)
  have "lean_message m = m" "no_words m = Inl AttributeError" using assms by (simp_all add: lean_message_def no_words_def truthy_def)
  then have k: "keep_message (map_of []) b k m = Inl AttributeError" for b k by (simp add: keep_message_def assms(1) Let_def)
  have "window_start [] [raw_key kf m] [m] = 0" by (simp add: window_start_def start_for_def LEAN_MAX_MSGS_def skip_tools_def r)
  then show ?thesis using k by (simp add: select_def)
qed

text \<open>An infinite number of tokens, which JSON can say, has no integer: the rewrite raises what nobody catches.\<close>

lemma infinite_tokens_raise: "mget body ''max_tokens'' = JInf False \<Longrightarrow> lean_finish cfg body out = Inl OverflowError"
  by (auto simp: lean_finish_def Let_def mget_def truthy_def token_cap_def lit_eq split: option.splits)

text \<open>
  Two messages of the user that are the same and have no words: the first was left out, but once the second was sent the
  first is sent too, so what was sent before changes.
\<close>

definition demo_silent :: "msg list" where
  "demo_silent = [demo_msg ''user'' '' '', demo_msg ''assistant'' ''a'', demo_msg ''user'' '' '']"

lemma left_out_comes_back:
  "\<exists>w1 w2. select demo_key demo_silent \<lparr>lw_keys = [], lw_msgs = []\<rparr> = Inr (w1, [demo_msg ''assistant'' ''a'', demo_msg ''user'' []]) \<and>
     select demo_key (demo_silent @ [demo_msg ''assistant'' ''b'']) w1 =
       Inr (w2, [demo_msg ''user'' [], demo_msg ''assistant'' ''a'', demo_msg ''user'' [], demo_msg ''assistant'' ''b''])"
proof -
  let ?e = "demo_msg ''user'' []" and ?a = "demo_msg ''assistant'' ''a''" and ?b = "demo_msg ''assistant'' ''b''"
  have "select demo_key demo_silent \<lparr>lw_keys = [], lw_msgs = []\<rparr> =
      Inr (\<lparr>lw_keys = map lit ['' '', ''a'', '' ''], lw_msgs = [None, Some ?a, Some ?e]\<rparr>, [?a, ?e])"
    by (simp add: demo_select_defs demo_silent_def)
  moreover have "select demo_key (demo_silent @ [?b]) \<lparr>lw_keys = map lit ['' '', ''a'', '' ''], lw_msgs = [None, Some ?a, Some ?e]\<rparr> =
      Inr (\<lparr>lw_keys = map lit ['' '', ''a'', '' '', ''b''], lw_msgs = map Some [?e, ?a, ?e, ?b]\<rparr>, [?e, ?a, ?e, ?b])" by code_simp
  ultimately show ?thesis by blast
qed

end
