(* ===== verification/Llama_Proxy.thy ===== *)
theory Llama_Proxy
  imports Llama_Lean "HOL-Library.Sublist" Window_Budget Hold_Timer
begin

text \<open>
  \<^verbatim>\<open>s22-llama-ondemand.py\<close>, the class \<open>OnDemand\<close>: what a request is answered with, loading and unloading of the server, the
  clock of the middle cores, the retry budget, the limits of a relayed request, the index of saved prefixes. What the world
  answers (health checks, files, the clock) is an input of each operation.
\<close>

section \<open>The retry budget\<close>

record px_cfg =
  pc_idle :: time
  pc_first :: time
  pc_max :: time
  pc_retry_max :: int
  pc_retry_window :: time
  pc_precache :: bool
  pc_cap :: "pystr option"
  pc_start_timeout :: time

type_synonym retry_book = "(pystr, time list) dict"

definition fails_of :: "pystr \<Rightarrow> retry_book \<Rightarrow> time list" where
  "fails_of k b = (case map_of b k of None \<Rightarrow> [] | Some ts \<Rightarrow> ts)"

definition lately :: "px_cfg \<Rightarrow> time \<Rightarrow> time list \<Rightarrow> time list" where
  "lately c now ts = filter (\<lambda>t. now - t < pc_retry_window c) ts"

definition budget_count :: "px_cfg \<Rightarrow> pystr option \<Rightarrow> time \<Rightarrow> retry_book \<Rightarrow> nat" where
  "budget_count c key now b =
     (case key of None \<Rightarrow> 0 | Some k \<Rightarrow> if k = [] \<or> pc_retry_max c = 0 then 0 else length (lately c now (fails_of k b)))"

definition budget_record :: "px_cfg \<Rightarrow> pystr option \<Rightarrow> bool \<Rightarrow> time \<Rightarrow> retry_book \<Rightarrow> retry_book" where
  "budget_record c key failed now b =
     (let keep = filter (\<lambda>(k, ts). ts \<noteq> [] \<and> now - List.last ts < pc_retry_window c) in
      case key of
        None \<Rightarrow> b
      | Some k \<Rightarrow>
          if k = [] then b
          else if failed then keep (AList.update k (lately c now (fails_of k b) @ [now]) b)
          else if map_of b k = None then b
          else keep (AList.delete k b))"

text \<open>A request is refused, without loading the model, when it failed too often lately.\<close>

definition over_budget :: "px_cfg \<Rightarrow> pystr option \<Rightarrow> time \<Rightarrow> retry_book \<Rightarrow> bool" where
  "over_budget c key now b \<longleftrightarrow> pc_retry_max c \<le> int (budget_count c key now b) \<and> 0 < pc_retry_max c"

text \<open>At its start the proxy counts the requests the one before was serving as failures.\<close>

definition reap_interrupted :: "px_cfg \<Rightarrow> time \<Rightarrow> pystr option list \<Rightarrow> retry_book \<Rightarrow> retry_book" where
  "reap_interrupted c now keys b = foldl (\<lambda>b k. budget_record c k True now b) b keys"

section \<open>The proxy\<close>

record slot_entry =
  en_slot :: bool
  en_seen :: int

record flight =
  fl_key :: "pystr option"
  fl_t0 :: time

record px =
  px_up :: bool
  px_active :: nat
  px_last_use :: time
  px_saved :: "pystr option"
  px_freq :: pystr
  px_loads :: nat
  px_budget :: retry_book
  px_flight :: "(nat, flight) dict"
  px_rid :: nat
  px_keys :: "(pystr, slot_entry) dict"
  px_current :: "pystr option"
  px_dirty :: bool
  px_cache :: "(pystr, bytes) dict"
  px_warm_failed :: "(pystr, time) dict"

text \<open>A new proxy: the clock file is as it finds it.\<close>

definition new_px :: "time \<Rightarrow> pystr \<Rightarrow> retry_book \<Rightarrow> (pystr, slot_entry) dict \<Rightarrow> pystr option \<Rightarrow> (pystr, bytes) dict \<Rightarrow> px" where
  "new_px now freq b keys cur cache =
     \<lparr>px_up = False, px_active = 0, px_last_use = now, px_saved = None, px_freq = freq, px_loads = 0, px_budget = b, px_flight = [],
      px_rid = 0, px_keys = keys, px_current = cur, px_dirty = False, px_cache = cache, px_warm_failed = []\<rparr>"

section \<open>The clock of the middle cores\<close>

text \<open>\<open>px_freq\<close> is what the file of the kernel says; reading and writing it may fail.\<close>

definition cap_clock :: "px_cfg \<Rightarrow> bool \<Rightarrow> bool \<Rightarrow> px \<Rightarrow> px" where
  "cap_clock c read_ok write_ok s =
     (case pc_cap c of
        None \<Rightarrow> s
      | Some khz \<Rightarrow> if px_saved s \<noteq> None \<or> \<not> read_ok \<or> \<not> write_ok then s else s\<lparr>px_saved := Some (px_freq s), px_freq := khz\<rparr>)"

definition restore_clock :: "px_cfg \<Rightarrow> bool \<Rightarrow> px \<Rightarrow> px" where
  "restore_clock c write_ok s =
     (case (pc_cap c, px_saved s) of
        (Some khz, Some f) \<Rightarrow> (if write_ok then s\<lparr>px_freq := f\<rparr> else s)\<lparr>px_saved := None\<rparr>
      | _ \<Rightarrow> s)"

section \<open>Saved prefixes\<close>

definition KEEP_PREFIXES :: nat where "KEEP_PREFIXES = 3"

text \<open>A request carried this prefix: it becomes the current one, and the oldest beyond the last three are forgotten.\<close>

definition observe :: "bool \<Rightarrow> pystr \<Rightarrow> int \<Rightarrow> px \<Rightarrow> px" where
  "observe spec_ok key now s =
     (if \<not> spec_ok then s
      else
        (let ent = (case map_of (px_keys s) key of Some e \<Rightarrow> e\<lparr>en_seen := now\<rparr> | None \<Rightarrow> \<lparr>en_slot = False, en_seen = now\<rparr>);
             keys = AList.update key ent (px_keys s);
             olds = take (length keys - KEEP_PREFIXES) (map fst (sort_key (\<lambda>(k, e). en_seen e) keys))
         in s\<lparr>px_current := Some key, px_keys := filter (\<lambda>(k, e). k \<notin> set olds) keys\<rparr>))"

definition has_slot :: "(pystr \<Rightarrow> bool) \<Rightarrow> pystr option \<Rightarrow> px \<Rightarrow> bool" where
  "has_slot file_there key s =
     (case key of
        None \<Rightarrow> False
      | Some k \<Rightarrow> (case map_of (px_keys s) k of None \<Rightarrow> False | Some e \<Rightarrow> en_slot e \<and> file_there k))"

definition set_slot :: "pystr \<Rightarrow> bool \<Rightarrow> px \<Rightarrow> px" where
  "set_slot key v s =
     (case map_of (px_keys s) key of None \<Rightarrow> s | Some e \<Rightarrow> s\<lparr>px_keys := AList.update key (e\<lparr>en_slot := v\<rparr>) (px_keys s)\<rparr>)"

text \<open>Right after a load the saved state of the wanted prefix is put back, or that of the current one when none is wanted.\<close>

definition restore_slot :: "px_cfg \<Rightarrow> (pystr \<Rightarrow> bool) \<Rightarrow> bool \<Rightarrow> pystr option \<Rightarrow> px \<Rightarrow> px" where
  "restore_slot c file_there post_ok want s =
     (if \<not> pc_precache c then s
      else
        (let wanted = (case want of None \<Rightarrow> False | Some k \<Rightarrow> k \<noteq> []);
             key = (if wanted then (case want of Some k \<Rightarrow> if map_of (px_keys s) k \<noteq> None then Some k else None | None \<Rightarrow> None) else px_current s)
         in case key of
              None \<Rightarrow> s
            | Some k \<Rightarrow> if \<not> has_slot file_there key s then s else if post_ok then s\<lparr>px_dirty := False\<rparr> else set_slot k False s))"

definition rearm :: "bool \<Rightarrow> bool \<Rightarrow> bool \<Rightarrow> px \<Rightarrow> px" where
  "rearm force held post_ok s =
     (if (px_active s \<noteq> 0 \<and> \<not> force) \<or> \<not> px_up s \<or> held then s else if post_ok then s\<lparr>px_dirty := False\<rparr> else s)"

section \<open>Loading and unloading\<close>

datatype started = Ready | Exited | TimedOut

text \<open>The polls of a start: the clock, whether the server is healthy, whether it still runs. The list is long enough.\<close>

fun start_wait :: "time \<Rightarrow> (time \<times> bool \<times> bool) list \<Rightarrow> started" where
  "start_wait deadline [] = TimedOut"
| "start_wait deadline ((now, healthy, runs) # ps) =
     (if deadline \<le> now then TimedOut else if healthy then Ready else if \<not> runs then Exited else start_wait deadline ps)"

record load_env =
  le_healthy :: bool
  le_held :: bool
  le_read :: bool
  le_write :: bool
  le_now :: time
  le_polls :: "(time \<times> bool \<times> bool) list"
  le_restored :: bool
  le_file :: "pystr \<Rightarrow> bool"
  le_slot :: bool
  le_probe :: "(pystr, bytes) dict"

definition ensure_backend :: "px_cfg \<Rightarrow> load_env \<Rightarrow> pystr option \<Rightarrow> px \<Rightarrow> px \<times> bool" where
  "ensure_backend c e want s =
     (if px_up s \<and> le_healthy e then (s, True)
      else if le_held e then (s, False)
      else
        (let s1 = (if px_up s then s else (cap_clock c (le_read e) (le_write e) s)\<lparr>px_up := True, px_loads := px_loads s + 1\<rparr>) in
         case start_wait (le_now e + pc_start_timeout c) (le_polls e) of
           Ready \<Rightarrow> (restore_slot c (le_file e) (le_slot e) want (s1\<lparr>px_cache := AList.updates (map fst (le_probe e)) (map snd (le_probe e)) (px_cache s1)\<rparr>), True)
         | Exited \<Rightarrow> (restore_clock c (le_restored e) (s1\<lparr>px_up := False\<rparr>), False)
         | TimedOut \<Rightarrow> (s1, False)))"

definition unload :: "px_cfg \<Rightarrow> bool \<Rightarrow> px \<Rightarrow> px" where
  "unload c write_ok s = restore_clock c write_ok (s\<lparr>px_up := False\<rparr>)"

text \<open>The loop of the idle thread: first it looks, then it unloads.\<close>

definition idle_due :: "px_cfg \<Rightarrow> time \<Rightarrow> px \<Rightarrow> bool" where
  "idle_due c now s \<longleftrightarrow> px_up s \<and> px_active s = 0 \<and> pc_idle c \<le> now - px_last_use s"

definition idle_tick :: "px_cfg \<Rightarrow> time \<Rightarrow> bool \<Rightarrow> px \<Rightarrow> px" where
  "idle_tick c now write_ok s =
     (if idle_due c now s then unload c write_ok s
      else if \<not> px_up s \<and> px_saved s \<noteq> None then restore_clock c write_ok s
      else s)"

text \<open>After an abort the server must go idle; one that does not, with nothing in flight, is unloaded.\<close>

definition check_stuck :: "px_cfg \<Rightarrow> rat \<Rightarrow> bool \<Rightarrow> px \<Rightarrow> px" where
  "check_stuck c pct write_ok s = (if px_up s \<and> 30 < pct \<and> px_active s = 0 then unload c write_ok s else s)"


section \<open>Requests\<close>

text \<open>What a request is: one for the proxy itself, a probe, a prefix prewarm that is answered here, or work for the model.\<close>

datatype px_route = AbortAll | UnloadNow | StatusPage | UnknownControl | Probe | Request bool bool

definition CACHED :: "pystr list" where
  "CACHED = map lit [''/health'', ''/v1/models'', ''/props'', ''/slots'']"

definition CHAT_PATHS :: "pystr list" where
  "CHAT_PATHS = map lit [''/v1/chat/completions'', ''/chat/completions'']"

definition WARM_PATHS :: "pystr list" where
  "WARM_PATHS = map lit [''/completion'', ''/completions'']"

definition px_route :: "pystr \<Rightarrow> pystr \<Rightarrow> px_route" where
  "px_route meth path =
     (let post = (meth = lit ''POST'') in
      if starts_with (lit ''/_s22/'') path then
        (if post \<and> path = lit ''/_s22/abort'' then AbortAll
         else if post \<and> path = lit ''/_s22/unload'' then UnloadNow
         else if path = lit ''/_s22/status'' then StatusPage else UnknownControl)
      else if meth = lit ''GET'' \<and> path \<in> set CACHED then Probe
      else Request (post \<and> path \<in> set CHAT_PATHS) (post \<and> path \<in> set (CHAT_PATHS @ WARM_PATHS)))"

text \<open>A probe never loads the model: while it is not there, the last answer is given.\<close>

datatype probe_answer = FromServer | FromCache bytes | NotLoaded

definition probe_reply :: "bool \<Rightarrow> pystr \<Rightarrow> px \<Rightarrow> probe_answer" where
  "probe_reply healthy path s =
     (if px_up s \<and> healthy then FromServer
      else (case map_of (px_cache s) path of
              Some b \<Rightarrow> if b \<noteq> [] then FromCache b else if path = lit ''/health'' then FromCache (blit (''{'' @ [CHR 0x22] @ ''status'' @ [CHR 0x22] @ '':'' @ [CHR 0x22] @ ''ok'' @ [CHR 0x22] @ ''}'')) else NotLoaded
            | None \<Rightarrow> if path = lit ''/health'' then FromCache (blit (''{'' @ [CHR 0x22] @ ''status'' @ [CHR 0x22] @ '':'' @ [CHR 0x22] @ ''ok'' @ [CHR 0x22] @ ''}'')) else NotLoaded))"

text \<open>A prewarm of the long prompt of the controller is answered at once.\<close>

definition is_prewarm :: "bool \<Rightarrow> pystr \<Rightarrow> pystr \<Rightarrow> json option \<Rightarrow> bool" where
  "is_prewarm lean meth path body \<longleftrightarrow>
     lean \<and> meth = lit ''POST'' \<and> path \<in> set WARM_PATHS \<and>
     (case body of
        Some (JObj kvs) \<Rightarrow>
          (case mget kvs ''n_predict'' of JInt n \<Rightarrow> n = 0 | JFloat q \<Rightarrow> q = 0 | JBool b \<Rightarrow> \<not> b | _ \<Rightarrow> False) \<and> \<not> truthy (mget kvs ''stream'')
      | _ \<Rightarrow> False)"

definition req_begin :: "px_cfg \<Rightarrow> pystr option \<Rightarrow> time \<Rightarrow> px \<Rightarrow> px \<times> bool" where
  "req_begin c rkey now s =
     (if over_budget c rkey now (px_budget s) then (s, False)
      else (s\<lparr>px_active := px_active s + 1, px_last_use := now\<rparr>, True))"

text \<open>The server is loaded; for a new turn of the user the saved prefix is put back when something else used the slot.\<close>

definition req_load :: "px_cfg \<Rightarrow> load_env \<Rightarrow> pystr option \<Rightarrow> bool \<Rightarrow> bool \<Rightarrow> px \<Rightarrow> px \<times> bool" where
  "req_load c e key user_turn post s =
     (case ensure_backend c e key s of
        (s1, False) \<Rightarrow> (s1, False)
      | (s1, True) \<Rightarrow>
          (let s2 = (if key \<noteq> None \<and> user_turn \<and> px_dirty s1 \<and> has_slot (le_file e) key s1 then rearm True (le_held e) (le_slot e) s1 else s1)
           in (if pc_precache c \<and> post then s2\<lparr>px_dirty := True\<rparr> else s2, True)))"

datatype req_end = Aborted | Answered | Unanswered

definition req_finish :: "px_cfg \<Rightarrow> bool \<Rightarrow> pystr option \<Rightarrow> req_end \<Rightarrow> time \<Rightarrow> px \<Rightarrow> px" where
  "req_finish c gen rkey r now s =
     (let b = (case r of Aborted \<Rightarrow> budget_record c rkey True now (px_budget s)
                       | Answered \<Rightarrow> if gen then budget_record c rkey False now (px_budget s) else px_budget s
                       | Unanswered \<Rightarrow> px_budget s)
      in s\<lparr>px_budget := b, px_active := px_active s - 1, px_last_use := now\<rparr>)"

text \<open>The identity of a request for the retry budget: the hash of its messages, or of its prompt. \<open>body\<close> is the parsed body, if it parses.\<close>

definition retry_key :: "(pystr \<Rightarrow> pystr) \<Rightarrow> (json \<Rightarrow> pystr) \<Rightarrow> json option \<Rightarrow> pystr option" where
  "retry_key sha dumps body =
     (case body of
        Some (JObj kvs) \<Rightarrow>
          (let what = (case map_of kvs (lit ''messages'') of Some v \<Rightarrow> v | None \<Rightarrow> mget kvs ''prompt'')
           in if what = JNull then None else Some (take 16 (sha (dumps what))))
      | _ \<Rightarrow> None)"

text \<open>
  A request from its budget to its end: refused, answered that the model is held or does not load, or relayed with the
  result \<open>r\<close>; after a relayed request its prefix is remembered.
\<close>

datatype px_reply = Refused | Unavailable bool | Relayed req_end

definition serve_request :: "px_cfg \<Rightarrow> load_env \<Rightarrow> pystr option \<Rightarrow> pystr option \<Rightarrow> bool \<Rightarrow> bool \<Rightarrow> bool \<Rightarrow> req_end \<Rightarrow> time \<times> time \<Rightarrow> bool \<times> int \<Rightarrow> px \<Rightarrow> px \<times> px_reply" where
  "serve_request c e key rkey user_turn post gen r ts ob s =
     (case req_begin c rkey (fst ts) s of
        (s1, False) \<Rightarrow> (s1, Refused)
      | (s1, True) \<Rightarrow>
          (case req_load c e key user_turn post s1 of
             (s2, False) \<Rightarrow> (req_finish c gen rkey Unanswered (snd ts) s2, Unavailable (le_held e))
           | (s2, True) \<Rightarrow>
               (let s3 = req_finish c gen rkey r (snd ts) s2
                in (case key of None \<Rightarrow> s3 | Some k \<Rightarrow> observe (fst ob) k (snd ob) s3, Relayed r))))"

lemma active_fields [simp]:
  "px_active (set_slot k v s) = px_active s" "px_active (restore_slot c f p w s) = px_active s" "px_active (rearm b h p s) = px_active s"
  "px_active (observe b k n s) = px_active s" "px_active (cap_clock c r ok s) = px_active s" "px_active (restore_clock c ok s) = px_active s"
  by (auto simp: restore_slot_def set_slot_def rearm_def observe_def cap_clock_def restore_clock_def Let_def split: option.splits)

lemma ensure_active [simp]: "px_active (fst (ensure_backend c e w s)) = px_active s"
  by (simp add: ensure_backend_def Let_def split: started.split)

text \<open>However a request ends, the count of requests in flight is as before it, so the idle unload comes.\<close>

lemma request_balanced: "px_active (fst (serve_request c e key rkey user_turn post gen r ts ob s)) = px_active s"
proof -
  have load: "px_active (fst (req_load c e key user_turn post s')) = px_active s'" for s'
    using ensure_active [of c e key s'] by (cases "ensure_backend c e key s'"; cases "snd (ensure_backend c e key s')") (simp_all add: req_load_def Let_def)
  show ?thesis
  proof (cases "over_budget c rkey (fst ts) (px_budget s)")
    case False
    obtain s2 up where r: "req_load c e key user_turn post (s\<lparr>px_active := px_active s + 1, px_last_use := fst ts\<rparr>) = (s2, up)" by fastforce
    then have "px_active s2 = px_active s + 1" using load [of "s\<lparr>px_active := px_active s + 1, px_last_use := fst ts\<rparr>"] by simp
    then show ?thesis using r False by (cases up) (simp_all add: serve_request_def req_begin_def req_finish_def Let_def split: option.split)
  qed (simp add: serve_request_def req_begin_def)
qed

text \<open>A request over its budget never loads the model, and a held model is never loaded.\<close>

lemma refused_untouched:
  assumes "over_budget c rkey (fst ts) (px_budget s)"
  shows "serve_request c e key rkey user_turn post gen r ts ob s = (s, Refused)"
  using assms by (simp add: serve_request_def req_begin_def)

lemma held_not_loaded:
  assumes "\<not> px_up s" and "le_held e" and "\<not> over_budget c rkey (fst ts) (px_budget s)"
  shows "snd (serve_request c e key rkey user_turn post gen r ts ob s) = Unavailable True \<and>
    px_loads (fst (serve_request c e key rkey user_turn post gen r ts ob s)) = px_loads s \<and>
    \<not> px_up (fst (serve_request c e key rkey user_turn post gen r ts ob s))"
  using assms by (simp add: serve_request_def req_begin_def req_load_def ensure_backend_def req_finish_def)

section \<open>Building a saved prefix\<close>

definition cacheable :: "nat \<Rightarrow> nat \<Rightarrow> bool" where
  "cacheable ctx dumped \<longleftrightarrow> of_nat dumped / 3 \<le> of_nat ctx * (6 / 10 :: rat)"

text \<open>A prefix is wanted after a request when it has no saved state and did not fail in the last ten minutes.\<close>

definition warm_wanted :: "px_cfg \<Rightarrow> (pystr \<Rightarrow> bool) \<Rightarrow> time \<Rightarrow> pystr \<Rightarrow> px \<Rightarrow> bool" where
  "warm_wanted c file_there wall key s \<longleftrightarrow>
     pc_precache c \<and> \<not> has_slot file_there (Some key) s \<and>
     600 < wall - (case map_of (px_warm_failed s) key of None \<Rightarrow> 0 | Some t \<Rightarrow> t)"

text \<open>
  It is built after a quiet period. One poll: the clock at the head of the loop, the clock after the sleep, the last use and
  the requests in flight then. Any use starts the period again; after an hour it is given up.
\<close>

fun quiet_wait :: "time \<Rightarrow> time \<Rightarrow> time \<Rightarrow> (time \<times> time \<times> time \<times> nat) list \<Rightarrow> bool" where
  "quiet_wait quiet deadline stamp [] = False"
| "quiet_wait quiet deadline stamp ((t0, t1, last_use, active) # ps) =
     (if deadline \<le> t0 then False
      else if last_use \<noteq> stamp \<or> active \<noteq> 0 then quiet_wait quiet deadline last_use ps
      else if quiet \<le> t1 - stamp then True
      else quiet_wait quiet deadline stamp ps)"

lemma quiet_wait_quiet:
  assumes "quiet_wait quiet deadline stamp ps"
  shows "\<exists>t0 t1 lu. (t0, t1, lu, 0) \<in> set ps \<and> t0 < deadline \<and> quiet \<le> t1 - lu"
  using assms
proof (induction ps arbitrary: stamp)
  case (Cons p ps)
  obtain t0 t1 lu a where p: "p = (t0, t1, lu, a)" by (cases p)
  show ?case
  proof (cases "lu \<noteq> stamp \<or> a \<noteq> 0")
    case True
    then have "quiet_wait quiet deadline lu ps" using Cons.prems by (simp add: p split: if_splits)
    from Cons.IH [OF this] show ?thesis by auto
  next
    case False
    then show ?thesis using Cons.prems Cons.IH [of stamp] by (fastforce simp: p split: if_splits)
  qed
qed simp

text \<open>\<open>lock\<close>: no other prefix is being built; \<open>spec_ok\<close>: its file can be read; \<open>sent\<close>, \<open>saved\<close>: the server took the prefix, and saved its state.\<close>

definition warm :: "px_cfg \<Rightarrow> load_env \<Rightarrow> bool \<Rightarrow> bool \<Rightarrow> bool \<Rightarrow> bool \<Rightarrow> pystr \<Rightarrow> time \<Rightarrow> time \<Rightarrow> px \<Rightarrow> px" where
  "warm c e lock spec_ok sent saved key wall now s =
     (if \<not> pc_precache c \<or> \<not> lock then s
      else
        (let failed = (\<lambda>s. s\<lparr>px_warm_failed := AList.update key wall (px_warm_failed s)\<rparr>);
             s0 = s\<lparr>px_active := px_active s + 1\<rparr>;
             s1 = (if has_slot (le_file e) (Some key) s0 \<or> le_held e then s0
                   else if \<not> spec_ok then failed s0
                   else (case ensure_backend c e (Some key) s0 of
                           (s2, False) \<Rightarrow> s2
                         | (s2, True) \<Rightarrow>
                             if has_slot (le_file e) (Some key) s2 then s2
                             else if sent \<and> saved then set_slot key True s2 else failed s2))
         in s1\<lparr>px_active := px_active s1 - 1, px_last_use := now\<rparr>))"

section \<open>The limits of a relayed request\<close>

record relay =
  ry_aborted :: "string option"
  ry_sent :: bool
  ry_first :: bool
  ry_content :: bool
  ry_done :: bool

datatype relay_in = FromModel bytes bool bool | Watch time | External | ModelClosed

datatype relay_out = ToClient bytes | Gateway504 string | CutBoth

definition new_relay :: relay where
  "new_relay = \<lparr>ry_aborted = None, ry_sent = False, ry_first = False, ry_content = False, ry_done = False\<rparr>"

definition relay_abort :: "string \<Rightarrow> relay \<Rightarrow> relay \<times> relay_out list" where
  "relay_abort reason r =
     (if ry_aborted r \<noteq> None \<or> ry_done r then (r, [])
      else (r\<lparr>ry_aborted := Some reason\<rparr>, (if ry_sent r then [] else [Gateway504 reason]) @ [CutBoth]))"

text \<open>\<open>ls\<close> is the first and the overall limit of the request, 0 for none.\<close>

definition relay_step :: "time \<times> time \<Rightarrow> relay \<Rightarrow> relay_in \<Rightarrow> relay \<times> relay_out list" where
  "relay_step ls r i =
     (case i of
        FromModel d content ok \<Rightarrow>
          if ry_done r then (r, [])
          else
            (let r1 = r\<lparr>ry_first := True, ry_content := ry_content r \<or> content\<rparr> in
             if ry_aborted r \<noteq> None then (r1\<lparr>ry_done := True\<rparr>, []) else if ok then (r1\<lparr>ry_sent := True\<rparr>, [ToClient d])
             else (r1\<lparr>ry_sent := True, ry_done := True\<rparr>, []))
      | Watch el \<Rightarrow>
          if ry_done r then (r, [])
          else if snd ls \<noteq> 0 \<and> snd ls < el then relay_abort ''max_wall'' r
          else if fst ls \<noteq> 0 \<and> \<not> ry_content r \<and> fst ls < el then relay_abort ''no_first_output'' r
          else (r, [])
      | External \<Rightarrow> relay_abort ''external'' r
      | ModelClosed \<Rightarrow> (r\<lparr>ry_done := True\<rparr>, []))"

definition relay_result :: "relay \<Rightarrow> req_end" where
  "relay_result r = (if ry_aborted r \<noteq> None then Aborted else if ry_first r then Answered else Unanswered)"

section \<open>What may happen\<close>

datatype px_event =
    EvBegin "pystr option" time
  | EvLoad load_env "pystr option" bool bool
  | EvFinish bool "pystr option" req_end time
  | EvObserve bool pystr int
  | EvWarm load_env bool bool bool bool pystr time time
  | EvIdle time bool
  | EvUnload bool
  | EvDied

definition px_step :: "px_cfg \<Rightarrow> px \<Rightarrow> px_event \<Rightarrow> px" where
  "px_step c s ev =
     (case ev of
        EvBegin k now \<Rightarrow> fst (req_begin c k now s)
      | EvLoad e k user post \<Rightarrow> fst (req_load c e k user post s)
      | EvFinish gen k r now \<Rightarrow> req_finish c gen k r now s
      | EvObserve ok k now \<Rightarrow> observe ok k now s
      | EvWarm e lock spec_ok sent saved key wall now \<Rightarrow> warm c e lock spec_ok sent saved key wall now s
      | EvIdle now ok \<Rightarrow> idle_tick c now ok s
      | EvUnload ok \<Rightarrow> unload c ok s
      | EvDied \<Rightarrow> s\<lparr>px_up := False\<rparr>)"

section \<open>A request that keeps failing is given up\<close>

text \<open>One try of a request with key \<open>k\<close> that takes \<open>d\<close> and then fails at \<open>t\<close>: whether it was let through at all.\<close>

definition failing_try :: "px_cfg \<Rightarrow> pystr \<Rightarrow> retry_book \<Rightarrow> time \<Rightarrow> time \<Rightarrow> retry_book \<times> bool" where
  "failing_try c k b t d = (if over_budget c (Some k) (t - max 0 d) b then (b, False) else (budget_record c (Some k) True t b, True))"

lemma record_failed:
  assumes "k \<noteq> []" and "0 < pc_retry_window c"
  shows "fails_of k (budget_record c (Some k) True now b) = lately c now (fails_of k b) @ [now]"
proof -
  have f: "map_of (filter (\<lambda>(k, ts). P ts) xs) k = Some ts" if "map_of xs k = Some ts" "P ts" for P and xs :: retry_book and ts
    using that by (induction xs) (auto split: if_splits)
  have "map_of (AList.update k (lately c now (fails_of k b) @ [now]) b) k = Some (lately c now (fails_of k b) @ [now])" by simp
  from f [OF this, of "\<lambda>ts. ts \<noteq> [] \<and> now - List.last ts < pc_retry_window c"] show ?thesis
    using assms by (simp add: budget_record_def fails_of_def)
qed

lemma spent_lately:
  assumes "t - u < pc_retry_window c"
  shows "spent u t (map (\<lambda>h. (h, 1)) (lately c t ts)) = spent u t (map (\<lambda>h. (h, 1)) ts)"
  using assms by (induction ts) (auto simp: lately_def spent_Cons)

lemma lately_le: "length (lately c t ts) \<le> length (lately c (t - max 0 d) ts)"
  unfolding lately_def by (induction ts) auto

interpretation retries: window_budget "failing_try c k" "\<lambda>_. 1" "\<lambda>b. map (\<lambda>h. (h, 1)) (fails_of k b)"
  "\<lambda>t u. t - u < pc_retry_window c" "nat (pc_retry_max c)" "\<lambda>_. k \<noteq> [] \<and> 0 < pc_retry_window c \<and> 0 < pc_retry_max c" for c k
proof unfold_locales
  show "t - u < pc_retry_window c" if "v - u < pc_retry_window c" "t \<le> v" for v t u using that by linarith
  show "k \<noteq> [] \<and> 0 < pc_retry_window c \<and> 0 < pc_retry_max c" if "k \<noteq> [] \<and> 0 < pc_retry_window c \<and> 0 < pc_retry_max c" using that .
  show "spent u t (map (\<lambda>h. (h, 1)) (fails_of k s')) = spent u t (map (\<lambda>h. (h, 1)) (fails_of k s)) + (if ok \<and> u \<le> t then 1 else 0)"
    if "k \<noteq> [] \<and> 0 < pc_retry_window c \<and> 0 < pc_retry_max c" "failing_try c k s t r = (s', ok)" "t - u < pc_retry_window c" for s t r s' ok u
    using that record_failed [of k c t s] spent_lately [OF that(3)] by (auto simp: failing_try_def spent_Cons split: if_splits)
  show "\<forall>(h, w) \<in> set (map (\<lambda>h. (h, 1)) (fails_of k s')). h \<le> t"
    if "k \<noteq> [] \<and> 0 < pc_retry_window c \<and> 0 < pc_retry_max c" "failing_try c k s t r = (s', ok)" "\<forall>(h, w) \<in> set (map (\<lambda>h. (h, 1)) (fails_of k s)). h \<le> t"
    for s t r s' ok
    using that record_failed [of k c t s] by (auto simp: failing_try_def lately_def split: if_splits)
  show "sum_list (map snd (map (\<lambda>h. (h, 1)) (fails_of k s'))) \<le> nat (pc_retry_max c)"
    if "k \<noteq> [] \<and> 0 < pc_retry_window c \<and> 0 < pc_retry_max c" "failing_try c k s t r = (s', True)" for s t r s'
  proof -
    have "\<not> over_budget c (Some k) (t - max 0 r) s" and s': "s' = budget_record c (Some k) True t s"
      using that(2) by (auto simp: failing_try_def split: if_splits)
    then have "int (length (lately c (t - max 0 r) (fails_of k s))) < pc_retry_max c" using that(1) by (simp add: over_budget_def budget_count_def)
    then have "length (lately c t (fails_of k s)) < nat (pc_retry_max c)" using lately_le [of c t "fails_of k s" r] by linarith
    then show ?thesis using that(1) record_failed [of k c t s] by (simp add: s' comp_def sum_list_triv)
  qed
qed

text \<open>
  A request that fails every time it is tried is run at most \<open>retry_max\<close> times in any window of the retry budget, however
  often it comes and however long each try takes.
\<close>

theorem retries_bounded:
  assumes "sorted (map fst tries)" and "granted (failing_try c k) (\<lambda>_. 1) [] tries = (b, done_at)" and "v - u < pc_retry_window c"
    and "k \<noteq> []" and "0 < pc_retry_window c" and "0 < pc_retry_max c"
  shows "int (length (filter (\<lambda>(t, w). u \<le> t \<and> t \<le> v) done_at)) \<le> pc_retry_max c"
proof -
  have "spent u v done_at \<le> nat (pc_retry_max c)"
    by (rule retries.window_ok [OF _ _ assms(1,2,3)]) (simp_all add: assms(4-6) fails_of_def)
  moreover have "spent u v done_at = length (filter (\<lambda>(t, w). u \<le> t \<and> t \<le> v) done_at)"
    by (rule spent_length, rule granted_weights [OF assms(2)]) simp
  ultimately show ?thesis using assms(6) by linarith
qed

definition demo_px :: px_cfg where
  "demo_px = \<lparr>pc_idle = 600, pc_first = 150, pc_max = 420, pc_retry_max = 2, pc_retry_window = 1800, pc_precache = True,
     pc_cap = Some (lit ''1800000''), pc_start_timeout = 120\<rparr>"

lemma retries_bounded_witness:
  "\<exists>b done_at. granted (failing_try demo_px [1]) (\<lambda>_. 1) [] [(400, 400), (900, 420), (1000, 0), (3100, 420)] = (b, done_at) \<and>
     map fst done_at = [400, 900, 3100] \<and> int (length (filter (\<lambda>(t, w). 400 \<le> t \<and> t \<le> 2100) done_at)) \<le> 2"
proof -
  have r: "granted (failing_try demo_px [1]) (\<lambda>_. 1) [] [(400, 400), (900, 420), (1000, 0), (3100, 420)] = ([([1], [3100])], [(400, 1), (900, 1), (3100, 1)])"
    by (simp add: failing_try_def over_budget_def budget_count_def budget_record_def fails_of_def lately_def demo_px_def Let_def)
  have "int (length (filter (\<lambda>(t, w). 400 \<le> t \<and> t \<le> 2100) [(400 :: time, 1), (900, 1), (3100, 1 :: nat)])) \<le> pc_retry_max demo_px"
    by (rule retries_bounded [OF _ r]) (simp_all add: demo_px_def)
  then show ?thesis using r by (simp add: demo_px_def)
qed

section \<open>The clock is given back\<close>

fun files_work :: "px_event \<Rightarrow> bool" where
  "files_work (EvLoad e k user post) \<longleftrightarrow> le_restored e"
| "files_work (EvWarm e lock spec_ok sent saved key wall now) \<longleftrightarrow> le_restored e"
| "files_work (EvIdle now ok) \<longleftrightarrow> ok"
| "files_work (EvUnload ok) \<longleftrightarrow> ok"
| "files_work ev \<longleftrightarrow> True"

definition clock_known :: "px_cfg \<Rightarrow> pystr \<Rightarrow> pystr option \<Rightarrow> pystr \<Rightarrow> bool" where
  "clock_known c orig saved freq \<longleftrightarrow> (case saved of None \<Rightarrow> freq = orig | Some f \<Rightarrow> f = orig \<and> pc_cap c = Some freq)"

definition clock_ok :: "px_cfg \<Rightarrow> pystr \<Rightarrow> px \<Rightarrow> bool" where
  "clock_ok c orig s \<longleftrightarrow> clock_known c orig (px_saved s) (px_freq s)"

lemma cap_ok: "clock_ok c orig s \<Longrightarrow> clock_ok c orig (cap_clock c r w s)"
  by (auto simp: clock_ok_def clock_known_def cap_clock_def split: option.splits)

lemma restore_ok: "clock_ok c orig s \<Longrightarrow> clock_ok c orig (restore_clock c True s)"
  by (auto simp: clock_ok_def clock_known_def restore_clock_def split: option.splits)

lemma clock_fields [simp]:
  "px_saved (set_slot k v s) = px_saved s" "px_freq (set_slot k v s) = px_freq s"
  "px_saved (restore_slot c f p w s) = px_saved s" "px_freq (restore_slot c f p w s) = px_freq s"
  "px_saved (rearm b h p s) = px_saved s" "px_freq (rearm b h p s) = px_freq s"
  "px_saved (fst (req_begin c w t s)) = px_saved s" "px_freq (fst (req_begin c w t s)) = px_freq s"
  "px_saved (req_finish c b w r t s) = px_saved s" "px_freq (req_finish c b w r t s) = px_freq s"
  "px_saved (observe b k n s) = px_saved s" "px_freq (observe b k n s) = px_freq s"
  by (auto simp: restore_slot_def set_slot_def rearm_def req_begin_def req_finish_def observe_def Let_def split: option.splits)

lemma ensure_ok:
  assumes "clock_ok c orig s" and "le_restored e"
  shows "clock_ok c orig (fst (ensure_backend c e k s))"
proof -
  obtain s1 where s1: "s1 = (if px_up s then s else (cap_clock c (le_read e) (le_write e) s)\<lparr>px_up := True, px_loads := px_loads s + 1\<rparr>)" by blast
  have ok: "clock_ok c orig s1"
    using assms(1) cap_ok [OF assms(1)] by (simp add: s1 clock_ok_def)
  have "clock_ok c orig (restore_clock c True (s1\<lparr>px_up := False\<rparr>))"
    by (rule restore_ok) (use ok in \<open>simp add: clock_ok_def\<close>)
  moreover have "clock_ok c orig (restore_slot c f p w (s1\<lparr>px_cache := x\<rparr>))" for f p w x
    using ok by (simp add: clock_ok_def)
  ultimately show ?thesis using assms ok unfolding ensure_backend_def s1 [symmetric] Let_def by (simp split: started.split)
qed

lemma req_load_ok:
  assumes "clock_ok c orig s" and "le_restored e"
  shows "clock_ok c orig (fst (req_load c e k user post s))"
proof -
  obtain s1 up where r: "ensure_backend c e k s = (s1, up)" by fastforce
  then have "clock_ok c orig s1" using ensure_ok [OF assms, of k] by simp
  then show ?thesis by (cases up) (simp_all add: req_load_def r Let_def clock_ok_def)
qed

lemma warm_ok:
  assumes "clock_ok c orig s" and "le_restored e"
  shows "clock_ok c orig (warm c e lock spec_ok sent saved key wall now s)"
proof -
  have "clock_ok c orig (s\<lparr>px_active := px_active s + 1\<rparr>)" using assms(1) by (simp add: clock_ok_def)
  moreover obtain s2 up where r: "ensure_backend c e (Some key) (s\<lparr>px_active := px_active s + 1\<rparr>) = (s2, up)" by fastforce
  ultimately have "clock_ok c orig s2" using ensure_ok [OF _ assms(2)] by (metis fst_conv)
  then show ?thesis using assms(1) r by (cases up) (simp_all add: warm_def Let_def clock_ok_def)
qed

lemma unload_ok: "clock_ok c orig s \<Longrightarrow> clock_ok c orig (unload c True s)"
  unfolding unload_def by (rule restore_ok) (simp add: clock_ok_def)

lemma idle_ok: "clock_ok c orig s \<Longrightarrow> clock_ok c orig (idle_tick c now True s)"
  unfolding idle_tick_def by (simp add: unload_ok restore_ok)

lemma step_clock:
  assumes "clock_ok c orig s" and "files_work ev"
  shows "clock_ok c orig (px_step c s ev)"
proof (cases ev)
  case (EvLoad e k user post)
  then show ?thesis using assms req_load_ok by (simp add: px_step_def)
next
  case (EvWarm e lock spec_ok sent saved key wall now)
  then show ?thesis using assms warm_ok by (simp add: px_step_def)
next
  case (EvIdle now ok)
  then show ?thesis using assms idle_ok by (simp add: px_step_def)
next
  case (EvUnload ok)
  then show ?thesis using assms unload_ok by (simp add: px_step_def)
qed (use assms in \<open>simp_all add: px_step_def clock_ok_def\<close>)

lemma given_back:
  assumes "list_all files_work evs"
  shows "clock_ok c orig (run_steps (px_step c) (new_px now orig b keys cur cache) evs) \<and>
    (\<not> px_up (run_steps (px_step c) (new_px now orig b keys cur cache) evs) \<longrightarrow>
       px_freq (idle_tick c t True (run_steps (px_step c) (new_px now orig b keys cur cache) evs)) = orig)"
proof -
  let ?s = "run_steps (px_step c) (new_px now orig b keys cur cache) evs"
  have "clock_ok c orig (run_steps (px_step c) s evs)" if "clock_ok c orig s" for s
    using that assms by (induction evs arbitrary: s) (simp_all add: step_clock)
  then have ok: "clock_ok c orig ?s" by (simp add: clock_ok_def clock_known_def new_px_def)
  then show ?thesis by (auto simp: idle_tick_def idle_due_def clock_ok_def clock_known_def restore_clock_def split: option.splits)
qed


definition demo_load :: load_env where
  "demo_load = \<lparr>le_healthy = False, le_held = False, le_read = True, le_write = True, le_now = 10, le_polls = [(11, False, True), (13, True, True)],
     le_restored = True, le_file = (\<lambda>_. False), le_slot = True, le_probe = []\<rparr>"


text \<open>What a proxy that was killed had capped, the next one takes for the clock as it was: it stays capped for ever.\<close>

lemma cap_outlives_restart:
  assumes "pc_cap c = Some khz" and "clock_ok c orig s" and "px_saved s \<noteq> None"
    and "list_all files_work evs" and "\<not> px_up (run_steps (px_step c) (new_px now (px_freq s) b keys cur cache) evs)"
  shows "px_freq (idle_tick c t True (run_steps (px_step c) (new_px now (px_freq s) b keys cur cache) evs)) = khz"
proof -
  have "px_freq s = khz" using assms(1-3) by (auto simp: clock_ok_def clock_known_def)
  then show ?thesis using given_back [OF assms(4)] assms(5) by blast
qed

section \<open>What the client sees of a relayed request\<close>

fun relay_run :: "time \<times> time \<Rightarrow> relay \<Rightarrow> relay_in list \<Rightarrow> relay \<times> relay_out list" where
  "relay_run ls r [] = (r, [])"
| "relay_run ls r (i # ins) = (let (r1, o1) = relay_step ls r i; (r2, o2) = relay_run ls r1 ins in (r2, o1 @ o2))"

text \<open>What the model sent, in order.\<close>

fun model_chunks :: "relay_in list \<Rightarrow> bytes list" where
  "model_chunks [] = []"
| "model_chunks (FromModel d content ok # ins) = d # model_chunks ins"
| "model_chunks (i # ins) = model_chunks ins"

text \<open>The last of it: nothing, or one abort, which is a gateway timeout exactly when the client has had nothing.\<close>

definition relay_tail :: "bool \<Rightarrow> relay \<Rightarrow> relay_out list" where
  "relay_tail had r = (case ry_aborted r of None \<Rightarrow> [] | Some reason \<Rightarrow> (if had then [] else [Gateway504 reason]) @ [CutBoth])"

lemma relay_over_step:
  assumes "ry_aborted r \<noteq> None \<or> ry_done r" and "relay_step ls r i = (r1, o1)"
  shows "o1 = [] \<and> ry_aborted r1 = ry_aborted r \<and> (ry_aborted r1 \<noteq> None \<or> ry_done r1)"
  using assms by (cases i) (auto simp: relay_step_def relay_abort_def Let_def split: if_splits)

lemma relay_over:
  assumes "ry_aborted r \<noteq> None \<or> ry_done r" and "relay_run ls r ins = (r', outs)"
  shows "outs = [] \<and> ry_aborted r' = ry_aborted r"
  using assms
proof (induction ins arbitrary: r outs)
  case (Cons i ins)
  obtain r1 o1 where s: "relay_step ls r i = (r1, o1)" by fastforce
  obtain o2 where t: "relay_run ls r1 ins = (r', o2)" and outs: "outs = o1 @ o2" using Cons.prems(2) s by (auto split: prod.splits)
  note step = relay_over_step [OF Cons.prems(1) s]
  have "o2 = [] \<and> ry_aborted r' = ry_aborted r1" by (rule Cons.IH [OF _ t]) (use step in blast)
  then show ?case using step outs by simp
qed simp

lemma relay_shape:
  assumes "relay_run ls r ins = (r', outs)" and "ry_aborted r = None" and "\<not> ry_done r"
  shows "\<exists>ds. outs = map ToClient ds @ relay_tail (ry_sent r \<or> ds \<noteq> []) r' \<and> prefix ds (model_chunks ins)"
  using assms
proof (induction ins arbitrary: r outs)
  case (Cons i ins)
  obtain r1 o1 where s: "relay_step ls r i = (r1, o1)" by fastforce
  obtain o2 where t: "relay_run ls r1 ins = (r', o2)" and outs: "outs = o1 @ o2" using Cons.prems(1) s by (auto split: prod.splits)
  show ?case
  proof (cases "ry_aborted r1 \<noteq> None \<or> ry_done r1")
    case True
    note over = relay_over [OF True t]
    have "o1 = relay_tail (ry_sent r) r1"
      using s True Cons.prems(2,3) by (cases i) (auto simp: relay_step_def relay_abort_def relay_tail_def Let_def split: if_splits)
    then show ?thesis using over outs by (intro exI [of _ "[]"]) (simp add: relay_tail_def)
  next
    case False
    then obtain ds where ds: "o2 = map ToClient ds @ relay_tail (ry_sent r1 \<or> ds \<noteq> []) r'" "prefix ds (model_chunks ins)"
      using Cons.IH [OF t] by auto
    show ?thesis
    proof (cases i)
      case (FromModel d content ok)
      then show ?thesis using s False ds outs Cons.prems(2,3)
        by (intro exI [of _ "d # ds"]) (auto simp: relay_step_def Let_def split: if_splits)
    qed (use s False ds outs Cons.prems(2,3) in \<open>auto simp: relay_step_def relay_abort_def split: if_splits\<close>)
  qed
qed (simp add: relay_tail_def)

lemma relay_split: "relay_run ls r (xs @ ys) = (let (r1, o1) = relay_run ls r xs; (r2, o2) = relay_run ls r1 ys in (r2, o1 @ o2))"
  by (induction xs arbitrary: r) (auto simp: Let_def split: prod.splits)

lemma relay_wall:
  assumes "relay_run ls r (pre @ Watch el # post) = (r', outs)" and "snd ls \<noteq> 0" and "snd ls < el"
  shows "ry_aborted r' \<noteq> None \<or> ry_done (fst (relay_run ls r pre))"
proof -
  obtain r1 o1 where pre: "relay_run ls r pre = (r1, o1)" by fastforce
  obtain r2 o2 where w: "relay_step ls r1 (Watch el) = (r2, o2)" by fastforce
  obtain o3 where t: "relay_run ls r2 post = (r', o3)" using assms(1) pre w by (auto simp: relay_split Let_def split: prod.splits)
  show ?thesis
  proof (cases "ry_done r1")
    case False
    then have "ry_aborted r2 \<noteq> None" using w assms(2,3) by (auto simp: relay_step_def relay_abort_def split: if_splits)
    then show ?thesis using relay_over [OF _ t] by auto
  qed (simp add: pre)
qed



section \<open>Looking and unloading are two steps\<close>

text \<open>
  Between the look of the idle thread and its unload a request can begin and find the server healthy: the unload does not look
  again and takes the server away under it.
\<close>

lemma unload_under_a_request:
  assumes "idle_due c now s" and "\<not> over_budget c k now (px_budget s)" and "le_healthy e"
  shows "idle_due c now s \<and>
    (let s2 = run_steps (px_step c) s [EvBegin k now, EvLoad e key user post] in px_up s2 \<and> px_active s2 = 1 \<and>
       \<not> px_up (px_step c s2 (EvUnload ok)) \<and> px_active (px_step c s2 (EvUnload ok)) = 1)"
  using assms
  by (auto simp: px_step_def req_begin_def req_load_def ensure_backend_def idle_due_def unload_def restore_clock_def rearm_def Let_def
      split: option.splits)

end
