(* ===== verification/Touch_Gesture.thy ===== *)
theory Touch_Gesture
  imports Sipc_Frame Hold_Timer
begin

text \<open>
  \<^verbatim>\<open>touchui/s22-touchd.py\<close>, the gestures: \<open>EdgeSwipe\<close> recognises a swipe of one finger from an edge of the panel,
  \<open>TouchReader\<close> follows the fingers through the events of the kernel (multitouch protocol B). Coordinates are exact
  fractions of the panel.
\<close>

section \<open>Swipes from an edge\<close>

record swipe_cfg =
  sw_edge :: rat
  sw_top :: rat
  sw_travel :: rat
  sw_max_ms :: rat
  sw_drift :: rat

definition default_swipe :: swipe_cfg where
  "default_swipe = \<lparr>sw_edge = 35 / 1000, sw_top = 3 / 100, sw_travel = 12 / 100, sw_max_ms = 900, sw_drift = 6 / 10\<rparr>"

type_synonym spot = "rat \<times> rat \<times> time"

record edge_swipe =
  es_start :: "spot option"
  es_last :: "spot option"
  es_cancelled :: bool

datatype gesture = Home | Switcher | Back

definition es_reset :: edge_swipe where
  "es_reset = \<lparr>es_start = None, es_last = None, es_cancelled = False\<rparr>"

definition es_begin :: "spot \<Rightarrow> edge_swipe" where
  "es_begin p = \<lparr>es_start = Some p, es_last = Some p, es_cancelled = False\<rparr>"

definition es_feed :: "spot \<Rightarrow> edge_swipe \<Rightarrow> edge_swipe" where
  "es_feed p r = (if es_start r = None then es_begin p else r\<lparr>es_last := Some p\<rparr>)"

definition es_cancel :: "edge_swipe \<Rightarrow> edge_swipe" where
  "es_cancel r = r\<lparr>es_cancelled := True\<rparr>"

text \<open>What a finger that went down at the first spot and was last seen at the second means when it is lifted at \<open>t\<close>.\<close>

definition swipe_meaning :: "swipe_cfg \<Rightarrow> spot \<Rightarrow> spot \<Rightarrow> time \<Rightarrow> gesture option" where
  "swipe_meaning c s l t =
     (let (x0, y0, t0) = s; (x1, y1, _) = l; dx = x1 - x0; dy = y1 - y0 in
      if sw_max_ms c < (t - t0) * 1000 then None
      else if 1 - sw_edge c \<le> y0 \<and> sw_travel c \<le> - dy \<and> \<bar>dx\<bar> \<le> sw_drift c * - dy then Some Home
      else if y0 \<le> sw_top c \<and> sw_travel c \<le> dy \<and> \<bar>dx\<bar> \<le> sw_drift c * dy then Some Switcher
      else if x0 \<le> sw_edge c \<and> sw_travel c * (8 / 10) \<le> dx \<and> \<bar>dy\<bar> \<le> sw_drift c * dx then Some Back
      else if 1 - sw_edge c \<le> x0 \<and> sw_travel c * (8 / 10) \<le> - dx \<and> \<bar>dy\<bar> \<le> sw_drift c * - dx then Some Back
      else None)"

definition es_end :: "swipe_cfg \<Rightarrow> time \<Rightarrow> edge_swipe \<Rightarrow> gesture option" where
  "es_end c t r =
     (case (es_start r, es_last r) of
        (Some s, Some l) \<Rightarrow> if es_cancelled r then None else swipe_meaning c s l t
      | _ \<Rightarrow> None)"

section \<open>The fingers\<close>

definition EV_SYN :: int where "EV_SYN = 0"
definition EV_ABS :: int where "EV_ABS = 3"
definition SYN_REPORT :: int where "SYN_REPORT = 0"
definition ABS_MT_SLOT :: int where "ABS_MT_SLOT = 0x2f"
definition ABS_MT_POSITION_X :: int where "ABS_MT_POSITION_X = 0x35"
definition ABS_MT_POSITION_Y :: int where "ABS_MT_POSITION_Y = 0x36"
definition ABS_MT_TRACKING_ID :: int where "ABS_MT_TRACKING_ID = 0x39"

text \<open>A finger: its tracking id and its coordinates, as far as they are known.\<close>

record finger =
  fi_id :: "int option"
  fi_x :: "int option"
  fi_y :: "int option"

record touch_reader =
  tr_r :: edge_swipe
  tr_slot :: int
  tr_slots :: "(int, finger) dict"
  tr_primary :: "int option"
  tr_dirty :: bool

definition new_reader :: touch_reader where
  "new_reader = \<lparr>tr_r = es_reset, tr_slot = 0, tr_slots = [], tr_primary = None, tr_dirty = False\<rparr>"

type_synonym panel = "(int \<times> int) \<times> (int \<times> int)"

definition tr_norm :: "panel \<Rightarrow> int \<Rightarrow> int \<Rightarrow> rat \<times> rat" where
  "tr_norm p x y =
     (let ((xl, xh), (yl, yh)) = p
      in (of_int (x - xl) / of_int (max 1 (xh - xl)), of_int (y - yl) / of_int (max 1 (yh - yl))))"

definition placed :: "panel \<Rightarrow> finger \<Rightarrow> (rat \<times> rat) option" where
  "placed p f = (case (fi_x f, fi_y f) of (Some x, Some y) \<Rightarrow> Some (tr_norm p x y) | _ \<Rightarrow> None)"

text \<open>The end of a report: a finger goes down, moves or is lifted.\<close>

definition tr_sync :: "swipe_cfg \<Rightarrow> panel \<Rightarrow> time \<Rightarrow> touch_reader \<Rightarrow> touch_reader \<times> gesture list" where
  "tr_sync c p t s =
     (case tr_primary s of
        None \<Rightarrow>
          (case filter (\<lambda>(k, f). placed p f \<noteq> None) (tr_slots s) of
             [] \<Rightarrow> (s, [])
           | (k, f) # others \<Rightarrow>
               (case placed p f of
                  None \<Rightarrow> (s, [])
                | Some (x, y) \<Rightarrow>
                    (let r = es_begin (x, y, t)
                     in (s\<lparr>tr_primary := Some k, tr_r := (if others \<noteq> [] then es_cancel r else r)\<rparr>, []))))
      | Some k \<Rightarrow>
          (case map_of (tr_slots s) k of
             None \<Rightarrow>
               (s\<lparr>tr_primary := None, tr_r := es_reset\<rparr>,
                if tr_slots s = [] then (case es_end c t (tr_r s) of None \<Rightarrow> [] | Some g \<Rightarrow> [g]) else [])
           | Some f \<Rightarrow>
               (case placed p f of
                  None \<Rightarrow> (s, [])
                | Some (x, y) \<Rightarrow> (s\<lparr>tr_r := es_feed (x, y, t) (tr_r s)\<rparr>, []))))"

type_synonym ev = "int \<times> int \<times> int \<times> time"

definition tr_event :: "swipe_cfg \<Rightarrow> panel \<Rightarrow> touch_reader \<Rightarrow> ev \<Rightarrow> touch_reader \<times> gesture list" where
  "tr_event c p s e =
     (let (ty, code, v, t) = e in
      if ty = EV_ABS then
        (if code = ABS_MT_SLOT then (s\<lparr>tr_slot := v\<rparr>, [])
         else if code = ABS_MT_TRACKING_ID then
           (if v = - 1 then (s\<lparr>tr_slots := AList.delete (tr_slot s) (tr_slots s), tr_dirty := True\<rparr>, [])
            else
              (let prev = map_of (tr_slots s) (tr_slot s);
                   f = (case prev of Some f \<Rightarrow> f\<lparr>fi_id := Some v\<rparr> | None \<Rightarrow> \<lparr>fi_id = Some v, fi_x = None, fi_y = None\<rparr>)
               in (s\<lparr>tr_slots := AList.update (tr_slot s) f (tr_slots s), tr_dirty := True,
                    tr_r := (if tr_primary s \<noteq> None \<and> tr_primary s \<noteq> Some (tr_slot s) then es_cancel (tr_r s) else tr_r s)\<rparr>, [])))
         else if code = ABS_MT_POSITION_X \<or> code = ABS_MT_POSITION_Y then
           (let f = (case map_of (tr_slots s) (tr_slot s) of Some f \<Rightarrow> f | None \<Rightarrow> \<lparr>fi_id = None, fi_x = None, fi_y = None\<rparr>);
                f1 = (if code = ABS_MT_POSITION_X then f\<lparr>fi_x := Some v\<rparr> else f\<lparr>fi_y := Some v\<rparr>)
            in (s\<lparr>tr_slots := AList.update (tr_slot s) f1 (tr_slots s), tr_dirty := True\<rparr>, []))
         else (s, []))
      else if ty = EV_SYN \<and> code = SYN_REPORT \<and> tr_dirty s then tr_sync c p t (s\<lparr>tr_dirty := False\<rparr>)
      else (s, []))"

section \<open>The stream of events\<close>

text \<open>\<open>struct.unpack('<qqHHi')\<close>: seconds, microseconds, type, code, value.\<close>

type_synonym raw_event = "int \<times> int \<times> int \<times> int \<times> int"

definition EVENT_SIZE :: nat where "EVENT_SIZE = 24"

definition signed_le :: "bytes \<Rightarrow> int" where
  "signed_le bs = (let v = int (from_bytes_le bs) in if 2 * v < 256 ^ length bs then v else v - 256 ^ length bs)"

definition unpack_event :: "bytes \<Rightarrow> raw_event" where
  "unpack_event b =
     (signed_le (py_slice 0 8 b), signed_le (py_slice 8 16 b), int (from_bytes_le (py_slice 16 18 b)),
      int (from_bytes_le (py_slice 18 20 b)), signed_le (py_slice 20 24 b))"

definition event_of :: "raw_event \<Rightarrow> ev" where
  "event_of r = (case r of (sec, usec, ty, code, v) \<Rightarrow> (ty, code, v, of_int sec + of_int usec / 1000000))"

text \<open>The buffer takes a chunk and gives the events that are complete.\<close>

function cut_events :: "bytes \<Rightarrow> bytes \<times> raw_event list" where
  "cut_events b =
     (if length b < EVENT_SIZE then (b, [])
      else (let (r, es) = cut_events (drop EVENT_SIZE b) in (r, unpack_event (take EVENT_SIZE b) # es)))"
  by pat_completeness auto
termination by (relation "measure length") (auto simp: EVENT_SIZE_def)

declare cut_events.simps [simp del]

definition event_feed :: "bytes \<Rightarrow> bytes \<Rightarrow> bytes \<times> raw_event list" where
  "event_feed buf chunk = cut_events (buf @ chunk)"

text \<open>What the kernel writes for an event, when its fields are in range.\<close>

definition pack_signed :: "nat \<Rightarrow> int \<Rightarrow> bytes" where
  "pack_signed n v = to_bytes_le n (nat (v mod 256 ^ n))"

definition pack_event :: "raw_event \<Rightarrow> bytes option" where
  "pack_event r =
     (case r of (sec, usec, ty, code, v) \<Rightarrow>
        if - (2 ^ 63) \<le> sec \<and> sec < 2 ^ 63 \<and> - (2 ^ 63) \<le> usec \<and> usec < 2 ^ 63 \<and> 0 \<le> ty \<and> ty < 2 ^ 16 \<and> 0 \<le> code \<and> code < 2 ^ 16 \<and>
           - (2 ^ 31) \<le> v \<and> v < 2 ^ 31
        then Some (pack_signed 8 sec @ pack_signed 8 usec @ to_bytes_le 2 (nat ty) @ to_bytes_le 2 (nat code) @ pack_signed 4 v)
        else None)"

lemma length_pack_signed [simp]: "length (pack_signed n v) = n"
  by (simp add: pack_signed_def)

lemma signed_pack:
  assumes "- (256 ^ n) \<le> 2 * v" and "2 * v < 256 ^ n"
  shows "signed_le (pack_signed n v) = v"
proof -
  have "int (from_bytes_le (pack_signed n v)) = v mod 256 ^ n"
    by (simp add: pack_signed_def from_to_bytes_le nat_less_iff)
  moreover have "v mod 256 ^ n = (if 0 \<le> v then v else v + 256 ^ n)"
    using assms mod_pos_pos_trivial [of "v + 256 ^ n" "256 ^ n"] by (simp add: mod_pos_pos_trivial)
  ultimately show ?thesis using assms by (auto simp: signed_le_def Let_def)
qed

lemma unpack_pack:
  assumes "pack_event r = Some e"
  shows "unpack_event e = r" "length e = EVENT_SIZE"
proof -
  obtain sec usec ty code v where r: "r = (sec, usec, ty, code, v)" by (cases r)
  have e: "e = pack_signed 8 sec @ pack_signed 8 usec @ to_bytes_le 2 (nat ty) @ to_bytes_le 2 (nat code) @ pack_signed 4 v"
    and rng: "- (2 ^ 63) \<le> sec" "sec < 2 ^ 63" "- (2 ^ 63) \<le> usec" "usec < 2 ^ 63" "0 \<le> ty" "ty < 2 ^ 16" "0 \<le> code" "code < 2 ^ 16"
      "- (2 ^ 31) \<le> v" "v < 2 ^ 31"
    using assms by (auto simp: pack_event_def r split: if_splits)
  show "length e = EVENT_SIZE" by (simp add: e EVENT_SIZE_def)
  have "signed_le (pack_signed 8 sec) = sec" "signed_le (pack_signed 8 usec) = usec" "signed_le (pack_signed 4 v) = v"
    using rng by (auto intro!: signed_pack)
  moreover have "int (from_bytes_le (to_bytes_le 2 (nat ty))) = ty" "int (from_bytes_le (to_bytes_le 2 (nat code))) = code"
    using rng by (simp_all add: from_to_bytes_le)
  ultimately show "unpack_event e = r"
    by (simp add: unpack_event_def e r py_slice_def)
qed

lemma cut_events_append:
  assumes "cut_events a = (r, es)"
  shows "cut_events (a @ b) = (let (r2, es2) = cut_events (r @ b) in (r2, es @ es2))"
  using assms
proof (induction a arbitrary: r es rule: cut_events.induct)
  case (1 a)
  show ?case
  proof (cases "length a < EVENT_SIZE")
    case True
    then show ?thesis using 1(2) by (simp add: cut_events.simps [of a])
  next
    case False
    then obtain r1 es1 where c: "cut_events (drop EVENT_SIZE a) = (r1, es1)" "r = r1" "es = unpack_event (take EVENT_SIZE a) # es1"
      using 1(2) by (auto simp: cut_events.simps [of a] split: prod.splits)
    have "cut_events (a @ b) = (let (r2, es2) = cut_events (drop EVENT_SIZE a @ b) in (r2, unpack_event (take EVENT_SIZE a) # es2))"
      using False by (simp add: cut_events.simps [of "a @ b"])
    then show ?thesis using 1(1) [OF False c(1)] by (simp add: c split: prod.splits)
  qed
qed

interpretation touch: stream_decoder event_feed "\<lambda>_. 0" "\<lambda>b. b = []" pack_event
proof unfold_locales
  show "event_feed s [] = (s, [])" if "s = []" for s
    using that by (simp add: event_feed_def cut_events.simps EVENT_SIZE_def)
  show "event_feed s (a @ b) = (let (s2, out2) = event_feed s1 b in (s2, out1 @ out2))" if "event_feed s a = (s1, out1)" for s a s1 out1 b
    using cut_events_append [OF that [unfolded event_feed_def]] by (simp add: event_feed_def)
  show "event_feed s e = (s, [x])" if "s = []" "pack_event x = Some e" for s x e
    using that unpack_pack [OF that(2)] by (simp add: event_feed_def cut_events.simps [of e] cut_events.simps [of "[]"] EVENT_SIZE_def)
qed simp_all

text \<open>However the reads cut the stream, the events the kernel wrote are the events that are seen.\<close>

lemma touch_stream:
  assumes "list_all2 (\<lambda>x e. pack_event x = Some e) xs es" and "concat cs = concat es"
  shows "run_chunks event_feed [] cs = ([], xs)"
  by (rule touch.run_encs [OF refl assms])

section \<open>A swipe of one finger is recognised\<close>

text \<open>
  The events of one finger: it goes down at the first sample, moves through the others, and is lifted. The kernel
  reports a coordinate only when it has changed.
\<close>

type_synonym touch_sample = "int option \<times> int option \<times> time"

definition sample_events :: "touch_sample \<Rightarrow> ev list" where
  "sample_events q =
     (case q of (xo, yo, t) \<Rightarrow>
        (case xo of None \<Rightarrow> [] | Some x \<Rightarrow> [(EV_ABS, ABS_MT_POSITION_X, x, t)]) @
        (case yo of None \<Rightarrow> [] | Some y \<Rightarrow> [(EV_ABS, ABS_MT_POSITION_Y, y, t)]) @ [(EV_SYN, SYN_REPORT, 0, t)])"

definition moved :: "int \<times> int \<Rightarrow> touch_sample \<Rightarrow> int \<times> int" where
  "moved xy q = (case q of (xo, yo, t) \<Rightarrow> (case xo of None \<Rightarrow> fst xy | Some x \<Rightarrow> x, case yo of None \<Rightarrow> snd xy | Some y \<Rightarrow> y))"

definition finger_contact :: "int \<Rightarrow> int \<times> int \<Rightarrow> time \<Rightarrow> touch_sample list \<Rightarrow> time \<Rightarrow> ev list" where
  "finger_contact i xy t0 qs t =
     [(EV_ABS, ABS_MT_TRACKING_ID, i, t0)] @ sample_events (Some (fst xy), Some (snd xy), t0) @ concat (map sample_events qs) @
     [(EV_ABS, ABS_MT_TRACKING_ID, - 1, t), (EV_SYN, SYN_REPORT, 0, t)]"

definition spot_of :: "panel \<Rightarrow> int \<times> int \<Rightarrow> time \<Rightarrow> spot" where
  "spot_of p xy t = (fst (tr_norm p (fst xy) (snd xy)), snd (tr_norm p (fst xy) (snd xy)), t)"

definition idle_reader :: "touch_reader \<Rightarrow> bool" where
  "idle_reader s \<longleftrightarrow> tr_slots s = [] \<and> tr_primary s = None \<and> \<not> tr_dirty s"

lemmas event_codes = EV_SYN_def EV_ABS_def SYN_REPORT_def ABS_MT_SLOT_def ABS_MT_POSITION_X_def ABS_MT_POSITION_Y_def ABS_MT_TRACKING_ID_def

lemma placed_both [simp]: "fi_x f = Some x \<Longrightarrow> fi_y f = Some y \<Longrightarrow> placed p f = Some (tr_norm p x y)"
  by (simp add: placed_def)

text \<open>One finger is down at \<open>xy\<close> since \<open>a\<close>.\<close>

definition one_down :: "panel \<Rightarrow> spot \<Rightarrow> int \<times> int \<Rightarrow> touch_reader \<Rightarrow> bool" where
  "one_down p a xy s \<longleftrightarrow>
     (\<exists>f tl. tr_primary s = Some (tr_slot s) \<and> tr_slots s = [(tr_slot s, f)] \<and> fi_x f = Some (fst xy) \<and> fi_y f = Some (snd xy) \<and>
        \<not> tr_dirty s \<and> tr_r s = \<lparr>es_start = Some a, es_last = Some (spot_of p xy tl), es_cancelled = False\<rparr>)"

lemma run_chunks_then: "run_chunks f s xs = (s1, []) \<Longrightarrow> run_chunks f s (xs @ ys) = run_chunks f s1 ys"
  by (simp add: run_chunks_append)

lemma follow_sample:
  assumes "one_down p a xy s"
  shows "\<exists>s1. run_chunks (tr_event c p) s (sample_events q) = (s1, []) \<and> one_down p a (moved xy q) s1"
proof -
  obtain xo yo t where q: "q = (xo, yo, t)" by (cases q)
  show ?thesis using assms
    by (cases xo; cases yo)
      (auto simp: q one_down_def sample_events_def moved_def tr_event_def event_codes tr_sync_def es_feed_def spot_of_def Let_def split: prod.splits)
qed

lemma follow_samples:
  assumes "one_down p a xy s"
  shows "\<exists>s1. run_chunks (tr_event c p) s (concat (map sample_events qs)) = (s1, []) \<and> one_down p a (foldl moved xy qs) s1"
  using assms
proof (induction qs arbitrary: xy s)
  case (Cons q qs)
  obtain s1 where s1: "run_chunks (tr_event c p) s (sample_events q) = (s1, [])" "one_down p a (moved xy q) s1"
    using follow_sample [OF Cons.prems] by blast
  then show ?case using Cons.IH [OF s1(2)] by (simp add: run_chunks_then [OF s1(1)])
qed simp

lemma goes_down:
  assumes "idle_reader s" and "i \<noteq> - 1"
  shows "\<exists>s1. run_chunks (tr_event c p) s ([(EV_ABS, ABS_MT_TRACKING_ID, i, t0)] @ sample_events (Some (fst xy), Some (snd xy), t0)) = (s1, []) \<and>
    one_down p (spot_of p xy t0) xy s1"
  using assms
  by (auto simp: idle_reader_def one_down_def sample_events_def tr_event_def event_codes tr_sync_def es_begin_def spot_of_def Let_def split: prod.splits)

lemma meaning_last: "swipe_meaning c a (spot_of p xy t1) t = swipe_meaning c a (spot_of p xy t2) t"
  by (simp add: swipe_meaning_def spot_of_def split: prod.splits)

lemma is_lifted:
  assumes "one_down p a xy s"
  shows "\<exists>s1. run_chunks (tr_event c p) s [(EV_ABS, ABS_MT_TRACKING_ID, - 1, t), (EV_SYN, SYN_REPORT, 0, t)] =
      (s1, case swipe_meaning c a (spot_of p xy t) t of None \<Rightarrow> [] | Some g \<Rightarrow> [g]) \<and> idle_reader s1"
proof -
  obtain f tl where s: "tr_primary s = Some (tr_slot s)" "tr_slots s = [(tr_slot s, f)]" "\<not> tr_dirty s"
    and r: "tr_r s = \<lparr>es_start = Some a, es_last = Some (spot_of p xy tl), es_cancelled = False\<rparr>"
    using assms by (auto simp: one_down_def)
  show ?thesis
    by (simp add: tr_event_def event_codes tr_sync_def s r es_end_def idle_reader_def meaning_last [of c a p xy tl t t])
qed


section \<open>A gesture is one finger's\<close>

abbreviation after_events :: "swipe_cfg \<Rightarrow> panel \<Rightarrow> ev list \<Rightarrow> touch_reader" where
  "after_events c p es \<equiv> run_steps (\<lambda>s e. fst (tr_event c p s e)) new_reader es"

definition finger_down :: "touch_reader \<Rightarrow> ev \<Rightarrow> int option" where
  "finger_down s e = (case e of (ty, code, v, t) \<Rightarrow> if ty = EV_ABS \<and> code = ABS_MT_TRACKING_ID \<and> v \<noteq> - 1 then Some (tr_slot s) else None)"

definition ev_time :: "ev \<Rightarrow> time" where
  "ev_time e = snd (snd (snd e))"

text \<open>The finger in slot \<open>k\<close> was taken up at \<open>b\<close>, alone, and no other finger went down since.\<close>

definition alone_since :: "swipe_cfg \<Rightarrow> panel \<Rightarrow> int \<Rightarrow> spot \<Rightarrow> ev list \<Rightarrow> bool" where
  "alone_since c p k a es \<longleftrightarrow>
     (\<exists>pre b mid f. es = pre @ b # mid \<and> tr_primary (after_events c p pre) = None \<and>
        filter (\<lambda>(j, f). placed p f \<noteq> None) (tr_slots (after_events c p pre)) = [(k, f)] \<and>
        placed p f = Some (fst a, fst (snd a)) \<and> snd (snd a) = ev_time b \<and>
        (\<forall>m1 e m2. mid = m1 @ e # m2 \<longrightarrow> finger_down (after_events c p (pre @ b # m1)) e \<in> {None, Some k}))"

lemma alone_begins:
  assumes "tr_primary (after_events c p es) = None"
    and "filter (\<lambda>(j, f). placed p f \<noteq> None) (tr_slots (after_events c p es)) = [(k, f)]" and "placed p f = Some (x, y)"
  shows "alone_since c p k (x, y, ev_time e) (es @ [e])"
  unfolding alone_since_def using assms by (intro exI [of _ es] exI [of _ e] exI [of _ "[]"]) simp

lemma alone_goes_on:
  assumes "alone_since c p k a es" and "finger_down (after_events c p es) e \<in> {None, Some k}"
  shows "alone_since c p k a (es @ [e])"
proof -
  obtain pre b mid f where s: "es = pre @ b # mid" "tr_primary (after_events c p pre) = None"
    "filter (\<lambda>(j, f). placed p f \<noteq> None) (tr_slots (after_events c p pre)) = [(k, f)]" "placed p f = Some (fst a, fst (snd a))"
    "snd (snd a) = ev_time b"
    and m: "\<And>m1 e m2. mid = m1 @ e # m2 \<Longrightarrow> finger_down (after_events c p (pre @ b # m1)) e \<in> {None, Some k}"
    using assms(1) unfolding alone_since_def by blast
  have "finger_down (after_events c p (pre @ b # m1)) e' \<in> {None, Some k}" if "mid @ [e] = m1 @ e' # m2" for m1 e' m2
  proof (cases m2 rule: rev_cases)
    case Nil
    then show ?thesis using that assms(2) by (simp add: s(1))
  next
    case (snoc m3 z)
    then show ?thesis using that m [of m1 e' m3] by simp
  qed
  moreover have "es @ [e] = pre @ b # (mid @ [e])" by (simp add: s(1))
  ultimately show ?thesis unfolding alone_since_def using s(2-5) by blast
qed

definition tracked :: "swipe_cfg \<Rightarrow> panel \<Rightarrow> ev list \<Rightarrow> bool" where
  "tracked c p es \<longleftrightarrow>
     (let s = after_events c p es in
      \<forall>k. tr_primary s = Some k \<longrightarrow>
        (\<exists>a l. es_start (tr_r s) = Some a \<and> es_last (tr_r s) = Some l \<and> (es_cancelled (tr_r s) \<or> alone_since c p k a es)))"

lemma sync_tracked:
  assumes "tracked c p es" and "e = (EV_SYN, SYN_REPORT, v, t)" and "tr_dirty (after_events c p es)"
  shows "tracked c p (es @ [e])"
proof -
  let ?s = "after_events c p es"
  have step: "after_events c p (es @ [e]) = fst (tr_sync c p t (?s\<lparr>tr_dirty := False\<rparr>))"
    using assms(2,3) by (simp add: tr_event_def event_codes)
  have quiet: "finger_down ?s e \<in> {None, Some k}" for k by (simp add: finger_down_def assms(2) event_codes)
  show ?thesis
  proof (cases "tr_primary ?s")
    case None
    show ?thesis
    proof (cases "filter (\<lambda>(k, f). placed p f \<noteq> None) (tr_slots ?s)")
      case Nil
      then show ?thesis using None unfolding tracked_def step by (simp add: tr_sync_def)
    next
      case (Cons kf others)
      obtain k f where kf: "kf = (k, f)" by (cases kf)
      have "kf \<in> set (filter (\<lambda>(k, f). placed p f \<noteq> None) (tr_slots ?s))" by (simp only: Cons list.set_intros)
      then obtain x y where xy: "placed p f = Some (x, y)" by (auto simp: kf)
      have "others = [] \<Longrightarrow> alone_since c p k (x, y, ev_time e) (es @ [e])"
        using alone_begins [OF None _ xy, of k e] Cons by (simp add: kf)
      then show ?thesis using None Cons xy unfolding tracked_def step Let_def
        by (auto simp: tr_sync_def kf es_begin_def es_cancel_def ev_time_def assms(2) Let_def)
    qed
  next
    case (Some k)
    then obtain a l where r: "es_start (tr_r ?s) = Some a" "es_last (tr_r ?s) = Some l"
      and al: "es_cancelled (tr_r ?s) \<or> alone_since c p k a es"
      using assms(1) by (auto simp: tracked_def Let_def)
    then have "es_cancelled (tr_r ?s) \<or> alone_since c p k a (es @ [e])" using alone_goes_on quiet by blast
    then show ?thesis using Some r unfolding tracked_def step Let_def
      by (cases a; cases l) (auto simp: tr_sync_def es_feed_def split: option.splits prod.splits)
  qed
qed

lemma event_tracked:
  assumes "tracked c p es"
  shows "tracked c p (es @ [e])"
proof -
  obtain ty code v t where e: "e = (ty, code, v, t)" by (cases e)
  let ?s = "after_events c p es"
  show ?thesis
  proof (cases "ty = EV_SYN \<and> code = SYN_REPORT \<and> tr_dirty ?s")
    case True
    then show ?thesis using sync_tracked [OF assms] e by blast
  next
    case False
    let ?s1 = "after_events c p (es @ [e])"
    have keep: "tr_primary ?s1 = tr_primary ?s" "es_start (tr_r ?s1) = es_start (tr_r ?s)" "es_last (tr_r ?s1) = es_last (tr_r ?s)"
      using False by (auto simp: tr_event_def e Let_def event_codes es_cancel_def)
    have quiet: "es_cancelled (tr_r ?s1) \<or> finger_down ?s e \<in> {None, Some k}" if "tr_primary ?s = Some k" for k
      using that by (auto simp: tr_event_def e Let_def event_codes finger_down_def es_cancel_def)
    have stay: "es_cancelled (tr_r ?s) \<Longrightarrow> es_cancelled (tr_r ?s1)"
      using False by (auto simp: tr_event_def e Let_def event_codes es_cancel_def)
    show ?thesis unfolding tracked_def Let_def
    proof (intro allI impI)
      fix k assume "tr_primary ?s1 = Some k"
      then have pk: "tr_primary ?s = Some k" by (simp only: keep)
      then obtain a l where r: "es_start (tr_r ?s) = Some a" "es_last (tr_r ?s) = Some l" "es_cancelled (tr_r ?s) \<or> alone_since c p k a es"
        using assms by (auto simp: tracked_def Let_def)
      then have "es_cancelled (tr_r ?s1) \<or> alone_since c p k a (es @ [e])" using stay quiet [OF pk] alone_goes_on by blast
      then show "\<exists>a l. es_start (tr_r ?s1) = Some a \<and> es_last (tr_r ?s1) = Some l \<and> (es_cancelled (tr_r ?s1) \<or> alone_since c p k a (es @ [e]))"
        using r(1,2) unfolding keep(2,3) by blast
    qed
  qed
qed

lemma all_tracked: "tracked c p es"
proof (induction es rule: rev_induct)
  case Nil
  then show ?case by (simp add: tracked_def new_reader_def)
next
  case (snoc e es)
  then show ?case by (rule event_tracked)
qed

lemma sync_gesture:
  assumes "g \<in> set (snd (tr_sync c p t s))"
  shows "\<exists>k. tr_primary s = Some k \<and> tr_slots s = [] \<and> es_end c t (tr_r s) = Some g"
proof (cases "tr_primary s")
  case None
  then have "snd (tr_sync c p t s) = []"
    by (simp add: tr_sync_def Let_def split: option.split list.split prod.split)
  then show ?thesis using assms by simp
next
  case (Some k)
  show ?thesis
  proof (cases "map_of (tr_slots s) k")
    case None
    then have "snd (tr_sync c p t s) = (if tr_slots s = [] then (case es_end c t (tr_r s) of None \<Rightarrow> [] | Some g \<Rightarrow> [g]) else [])"
      using Some by (simp add: tr_sync_def)
    then show ?thesis using assms Some by (cases "es_end c t (tr_r s)"; cases "tr_slots s = []") simp_all
  next
    case (Some f)
    then have "snd (tr_sync c p t s) = []" using \<open>tr_primary s = Some k\<close>
      by (simp add: tr_sync_def split: option.split prod.split)
    then show ?thesis using assms by simp
  qed
qed

lemma gesture_source:
  assumes "g \<in> set (snd (tr_event c p (after_events c p es) e))"
  shows "\<exists>k a l. alone_since c p k a es \<and> tr_primary (after_events c p es) = Some k \<and> tr_slots (after_events c p es) = [] \<and>
    es_last (tr_r (after_events c p es)) = Some l \<and> swipe_meaning c a l (ev_time e) = Some g"
proof -
  let ?s = "after_events c p es"
  obtain ty code v t where e: "e = (ty, code, v, t)" by (cases e)
  have "g \<in> set (snd (tr_sync c p t (?s\<lparr>tr_dirty := False\<rparr>)))"
    using assms by (auto simp: tr_event_def e Let_def split: if_splits)
  then obtain k where k: "tr_primary ?s = Some k" "tr_slots ?s = []" "es_end c t (tr_r ?s) = Some g"
    using sync_gesture by fastforce
  obtain a l where "es_start (tr_r ?s) = Some a" "es_last (tr_r ?s) = Some l" "es_cancelled (tr_r ?s) \<or> alone_since c p k a es"
    using all_tracked [of c p es] k(1) by (auto simp: tracked_def Let_def)
  then show ?thesis using k by (cases a) (auto simp: es_end_def ev_time_def e split: if_splits)
qed


section \<open>On the panel of the phone\<close>

definition s22_panel :: panel where
  "s22_panel = ((0, 1079), (0, 2339))"

definition demo_home :: "ev list" where
  "demo_home = finger_contact 7 (540, 2330) 0 [(None, Some 2100, 1 / 10), (Some 560, Some 1900, 2 / 10)] (3 / 10)"

lemmas demo_run = demo_home_def finger_contact_def sample_events_def tr_event_def event_codes tr_sync_def es_begin_def es_feed_def es_end_def es_reset_def
  es_cancel_def new_reader_def placed_def tr_norm_def s22_panel_def swipe_meaning_def default_swipe_def Let_def



section \<open>Where it goes wrong\<close>

text \<open>
  The kernel does not report a coordinate that is the same as the one the slot had before, and the reader forgets the
  coordinates of a slot when its finger is lifted: a finger that comes down in the very column of the one before it is
  not seen until it leaves that column.
\<close>

lemma same_column_unseen:
  assumes "idle_reader s" and "i \<noteq> - 1"
  shows "\<exists>s1. run_chunks (tr_event c p) s ((EV_ABS, ABS_MT_TRACKING_ID, i, t0) # concat (map (\<lambda>(y, t). sample_events (None, Some y, t)) ys) @
      [(EV_ABS, ABS_MT_TRACKING_ID, - 1, t), (EV_SYN, SYN_REPORT, 0, t)]) = (s1, []) \<and> idle_reader s1"
proof -
  define half where "half s' \<longleftrightarrow> (\<exists>f. tr_primary s' = None \<and> tr_slots s' = [(tr_slot s', f)] \<and> fi_x f = None)" for s' :: touch_reader
  have one: "\<exists>s2. run_chunks (tr_event c p) s1 (sample_events (None, Some y, t')) = (s2, []) \<and> half s2" if "half s1" for s1 y t'
    using that by (auto simp: half_def sample_events_def tr_event_def event_codes tr_sync_def placed_def Let_def)
  have many: "\<exists>s2. run_chunks (tr_event c p) s1 (concat (map (\<lambda>(y, t). sample_events (None, Some y, t)) ys)) = (s2, []) \<and> half s2" if "half s1" for s1
    using that
  proof (induction ys arbitrary: s1)
    case (Cons q ys)
    obtain s2 where s2: "run_chunks (tr_event c p) s1 (sample_events (None, Some (fst q), snd q)) = (s2, [])" "half s2"
      using one [OF Cons.prems] by blast
    show ?case using Cons.IH [OF s2(2)] by (simp add: run_chunks_then [OF s2(1)] case_prod_unfold)
  qed simp
  let ?s1 = "fst (tr_event c p s (EV_ABS, ABS_MT_TRACKING_ID, i, t0))"
  have "half ?s1" using assms by (simp add: half_def idle_reader_def tr_event_def event_codes)
  then obtain s2 where s2: "run_chunks (tr_event c p) ?s1 (concat (map (\<lambda>(y, t). sample_events (None, Some y, t)) ys)) = (s2, [])" "half s2"
    using many by blast
  have first: "tr_event c p s (EV_ABS, ABS_MT_TRACKING_ID, i, t0) = (?s1, [])" using assms by (simp add: tr_event_def event_codes)
  obtain s3 where s3: "run_chunks (tr_event c p) s2 [(EV_ABS, ABS_MT_TRACKING_ID, - 1, t), (EV_SYN, SYN_REPORT, 0, t)] = (s3, [])" "idle_reader s3"
    using s2(2) by (auto simp: half_def idle_reader_def tr_event_def event_codes tr_sync_def)
  have "run_chunks (tr_event c p) ?s1 (concat (map (\<lambda>(y, t). sample_events (None, Some y, t)) ys) @
      [(EV_ABS, ABS_MT_TRACKING_ID, - 1, t), (EV_SYN, SYN_REPORT, 0, t)]) = (s3, [])"
    unfolding run_chunks_then [OF s2(1)] by (rule s3(1))
  then show ?thesis using s3(2) by (subst run_chunks.simps(2), subst first) simp
qed

text \<open>
  When the first of two fingers is lifted, the reader does not wait until all are up: it takes up the other one at the
  next report, so that one swipes from where it rests.
\<close>

definition demo_two :: "ev list" where
  "demo_two = [(3, 0x39, 1, 0), (3, 0x35, 500, 0), (3, 0x36, 1000, 0), (0, 0, 0, 0),
     (3, 0x2f, 1, 1), (3, 0x39, 2, 1), (3, 0x35, 600, 1), (3, 0x36, 2335, 1), (0, 0, 0, 1),
     (3, 0x2f, 0, 2), (3, 0x39, - 1, 2), (0, 0, 0, 2),
     (3, 0x2f, 1, 3), (3, 0x36, 2330, 3), (0, 0, 0, 3), (3, 0x36, 1900, 3), (0, 0, 0, 3), (3, 0x39, - 1, 3), (0, 0, 0, 3)]"

lemma second_finger_swipes: "snd (run_chunks (tr_event default_swipe s22_panel) new_reader demo_two) = [Home]"
  by code_simp

end
