(* ===== verification/Touch_Daemon.thy ===== *)
theory Touch_Daemon
  imports Phone_Gate Py_Unicode Window_Budget Hold_Timer Touch_Gesture
begin

text \<open>
  \<^verbatim>\<open>touchui/s22-touchd.py\<close>, the class \<open>Daemon\<close>: which touch shell runs, its supervisor, and the commands of the control
  socket. What shells, tools and files answer during an operation is an argument of it; what it does to them is a list of
  actions.
\<close>

section \<open>Which shell\<close>

datatype backend = Quickshell | UnumShell | Fastshell

text \<open>\<open>env\<close> is the environment variable, \<open>file\<close> the profile file, \<open>until\<close> the end of a fall-back from a crashing fastshell.\<close>

definition ui_backend :: "pystr option \<Rightarrow> pystr option \<Rightarrow> bool \<Rightarrow> time \<Rightarrow> time \<Rightarrow> backend" where
  "ui_backend env file fast_there now until =
     (let want = (case env of
                    Some w \<Rightarrow> if w \<noteq> [] then w else (case file of Some f \<Rightarrow> strip_space f | None \<Rightarrow> [])
                  | None \<Rightarrow> (case file of Some f \<Rightarrow> strip_space f | None \<Rightarrow> []))
      in if want = lit ''fastshell'' then (if \<not> fast_there \<or> now < until then Quickshell else Fastshell)
         else if want = lit ''unum-shell'' then UnumShell
         else Quickshell)"

section \<open>The supervisor of the shell\<close>

record supervisor =
  su_proc :: bool
  su_starts :: "time list"
  su_running :: backend
  su_until :: time
  su_backoff :: time
  su_ping_n :: nat
  su_ping_fail :: nat

definition new_supervisor :: supervisor where
  "new_supervisor = \<lparr>su_proc = False, su_starts = [], su_running = Quickshell, su_until = 0, su_backoff = 2, su_ping_n = 0, su_ping_fail = 0\<rparr>"

text \<open>
  What one pass of the loop finds: the exit code of the shell if it has ended, whether there is a desktop session, the
  profile, whether the shell answers a ping, and whether a shell started in this pass is dead after the wait. A pass sees
  one time of the clock.
\<close>

record pass_env =
  pe_now :: time
  pe_exit :: "int option"
  pe_session :: bool
  pe_env :: "pystr option"
  pe_file :: "pystr option"
  pe_fast :: bool
  pe_ping :: bool
  pe_died :: bool

datatype ui_act = StartShell backend | StopShell | WaitFor time

definition pass_backend :: "pass_env \<Rightarrow> supervisor \<Rightarrow> backend" where
  "pass_backend e s = ui_backend (pe_env e) (pe_file e) (pe_fast e) (pe_now e) (su_until s)"

text \<open>The old shell is gone: a clean end after half a minute does not count as a crash.\<close>

definition reap_shell :: "pass_env \<Rightarrow> supervisor \<Rightarrow> supervisor" where
  "reap_shell e s =
     (if su_proc s \<and> pe_exit e = Some 0 \<and> su_starts s \<noteq> [] \<and> 30 < pe_now e - List.last (su_starts s)
      then s\<lparr>su_starts := butlast (su_starts s)\<rparr> else s)\<lparr>su_proc := False\<rparr>"

definition start_shell :: "pass_env \<Rightarrow> supervisor \<Rightarrow> supervisor \<times> ui_act list" where
  "start_shell e s =
     (if \<not> pe_session e then (s, [WaitFor 5])
      else
        (let s1 = s\<lparr>su_starts := filter (\<lambda>t. pe_now e - t < 600) (su_starts s)\<rparr> in
         if 6 \<le> length (su_starts s1) \<and> pass_backend e s1 = Fastshell then (s1\<lparr>su_until := pe_now e + 900, su_starts := []\<rparr>, [])
         else if 6 \<le> length (su_starts s1) then (s1, [WaitFor 300])
         else
           (s1\<lparr>su_starts := su_starts s1 @ [pe_now e], su_running := pass_backend e s1, su_proc := True,
               su_backoff := (if pe_died e then min (su_backoff s1 * 2) 60 else 2), su_ping_fail := 0\<rparr>,
            [StartShell (pass_backend e s1), WaitFor (su_backoff s1)])))"

definition watch_shell :: "pass_env \<Rightarrow> supervisor \<Rightarrow> supervisor \<times> ui_act list" where
  "watch_shell e s =
     (let s1 = (if su_running s = Fastshell then s\<lparr>su_ping_n := su_ping_n s + 1\<rparr> else s);
          asked = su_running s = Fastshell \<and> su_ping_n s1 mod 5 = 0;
          s2 = (if asked then s1\<lparr>su_ping_fail := (if pe_ping e then 0 else su_ping_fail s1 + 1)\<rparr> else s1)
      in if asked \<and> 3 \<le> su_ping_fail s2 then (s2\<lparr>su_ping_fail := 0\<rparr>, [StopShell])
         else if pass_backend e s2 \<noteq> su_running s2 then (s2\<lparr>su_starts := []\<rparr>, [StopShell])
         else (s2, [WaitFor 2]))"

definition ui_pass :: "supervisor \<Rightarrow> pass_env \<Rightarrow> supervisor \<times> ui_act list" where
  "ui_pass s e = (if \<not> su_proc s \<or> pe_exit e \<noteq> None then start_shell e (reap_shell e s) else watch_shell e s)"

section \<open>Gestures\<close>

text \<open>\<open>fast\<close>: the fastshell is the active shell; \<open>display\<close>: what the state file of the screen says.\<close>

datatype touch_act =
    ShellCall pystr "pystr list"
  | UiCall pystr "pystr list"
  | RunDisplay pystr
  | ModelSwitch pystr pystr
  | Unpin
  | Pin json json
  | Backlight int
  | TakePhoto pystr
  | PlayFiller pystr pystr bool
  | PruneRenders
  | Render pystr pystr
  | PlayWav pystr

definition gesture_text :: "gesture \<Rightarrow> pystr" where
  "gesture_text g = (case g of Home \<Rightarrow> lit ''home'' | Switcher \<Rightarrow> lit ''switcher'' | Back \<Rightarrow> lit ''back'')"

definition on_gesture :: "time \<Rightarrow> bool \<Rightarrow> pystr \<Rightarrow> pystr \<Rightarrow> time \<Rightarrow> time \<times> touch_act list" where
  "on_gesture now fast display g last_gesture =
     (if now - last_gesture < 4 / 10 then (last_gesture, [])
      else (now, if fast then [ShellCall (lit ''gesture'') [g]] else if display = lit ''off'' then [] else [UiCall g []]))"

section \<open>Commands\<close>

text \<open>The reply of a command: a result, an error with its name, or an exception; \<open>handle\<close> turns some of those into replies.\<close>

datatype touch_reply = TOk "(string \<times> json) list" | TErr string

type_synonym req = "(pystr, json) dict"

definition rget :: "req \<Rightarrow> string \<Rightarrow> json" where
  "rget r k = (case map_of r (lit k) of None \<Rightarrow> JNull | Some v \<Rightarrow> v)"

definition str_of :: "pylib \<Rightarrow> json \<Rightarrow> pystr" where
  "str_of lib v = (case v of JStr s \<Rightarrow> s | _ \<Rightarrow> lib_str lib v)"

text \<open>\<open>a or b\<close>.\<close>

definition either :: "json \<Rightarrow> json \<Rightarrow> json" where
  "either a b = (if truthy a then a else b)"

text \<open>The screen. \<open>shell\<close> is what the fastshell answered, if it did; \<open>rc\<close> and \<open>after\<close> come from the display tool and the state file after it.\<close>

record display_env =
  de_fast :: bool
  de_shell :: "pystr option"
  de_state :: pystr
  de_rc :: int
  de_after :: pystr

definition cmd_display :: "display_env \<Rightarrow> json \<Rightarrow> touch_act list \<times> touch_reply" where
  "cmd_display e arg =
     (case arg of
        JStr a \<Rightarrow>
          if a \<notin> set (map lit [''on'', ''off'', ''toggle'', ''status'']) then ([], TErr ''bad_arg'')
          else
            (let ask = de_fast e \<and> a \<noteq> lit ''status'';
                 pre = (if ask then [ShellCall (lit ''display'') [a]] else [])
             in if ask \<and> (de_shell e = Some (lit ''on'') \<or> de_shell e = Some (lit ''off'')) then
                  (pre, TOk [(''ok'', JBool True), (''display'', JStr (case de_shell e of Some d \<Rightarrow> d | None \<Rightarrow> [])), (''via'', JStr (lit ''fastshell''))])
                else
                  (pre @ (if a = lit ''off'' \<or> a = lit ''toggle'' \<and> de_state e = lit ''on'' then [UiCall (lit ''lock'') []] else []) @ [RunDisplay a],
                   TOk [(''ok'', JBool (de_rc e = 0)), (''display'', JStr (de_after e))]))
      | _ \<Rightarrow> ([], TErr ''bad_arg''))"

definition display_arg :: "req \<Rightarrow> json" where
  "display_arg r = (case map_of r (lit ''arg'') of None \<Rightarrow> JStr (lit ''toggle'') | Some v \<Rightarrow> v)"

definition UI_FUNCS :: "pystr list" where
  "UI_FUNCS = map lit [''home'', ''hide'', ''back'', ''switcher'', ''open'', ''card'', ''confirm'', ''confirmResult'', ''lock'', ''unlock'',
     ''keyboard'', ''state'', ''perf'', ''send'']"

definition WAKE_FUNCS :: "pystr list" where
  "WAKE_FUNCS = map lit [''home'', ''open'', ''switcher'', ''card'', ''confirm'']"

text \<open>\<open>all(isinstance(a, (str, int, float)) for a in args)\<close> and then \<open>args[0]\<close>; a text is its letters, a dictionary has no item 0.\<close>

definition plain :: "json \<Rightarrow> bool" where
  "plain v = (case v of JStr _ \<Rightarrow> True | JInt _ \<Rightarrow> True | JBool _ \<Rightarrow> True | JFloat _ \<Rightarrow> True | JNaN \<Rightarrow> True | JInf _ \<Rightarrow> True | _ \<Rightarrow> False)"

definition ui_args :: "json \<Rightarrow> pyerr + json list option" where
  "ui_args v =
     (if \<not> truthy v then Inr None
      else (case v of
              JArr vs \<Rightarrow> Inr (if list_all plain vs then Some vs else None)
            | JStr s \<Rightarrow> Inr (Some (map (\<lambda>c. JStr [c]) s))
            | JObj _ \<Rightarrow> Inl KeyError
            | _ \<Rightarrow> Inl TypeError))"

text \<open>\<open>float(v)\<close>; the timeout itself goes to the socket.\<close>

definition float_ok :: "pylib \<Rightarrow> json \<Rightarrow> pyerr option" where
  "float_ok lib v =
     (case v of
        JStr s \<Rightarrow> if lib_float lib s = None then Some ValueError else None
      | JNull \<Rightarrow> Some TypeError | JArr _ \<Rightarrow> Some TypeError | JObj _ \<Rightarrow> Some TypeError | _ \<Rightarrow> None)"

definition cmd_ui :: "pylib \<Rightarrow> pystr \<Rightarrow> (pystr \<Rightarrow> pystr list \<Rightarrow> touch_reply) \<Rightarrow> req \<Rightarrow> touch_act list \<times> (pyerr + touch_reply)" where
  "cmd_ui lib display answer r =
     (case ui_args (rget r ''args'') of
        Inl x \<Rightarrow> ([], Inl x)
      | Inr None \<Rightarrow> ([], Inr (TErr ''bad_args''))
      | Inr (Some args) \<Rightarrow>
          (let f = str_of lib (hd args); rest = map (str_of lib) (tl args) in
           if f \<notin> set UI_FUNCS then ([], Inr (TErr ''unknown_ui_function''))
           else
             (let wake = (if display = lit ''off'' \<and> f \<in> set WAKE_FUNCS then [RunDisplay (lit ''on'')] else []) in
              case (case map_of r (lit ''timeout'') of None \<Rightarrow> None | Some v \<Rightarrow> float_ok lib v) of
                Some x \<Rightarrow> (wake, Inl x)
              | None \<Rightarrow> (wake @ [UiCall f rest], Inr (answer f rest)))))"

definition MODEL_CHOICES :: "(pystr, pystr \<times> pystr) dict" where
  "MODEL_CHOICES = [(lit ''luna'', (lit ''openai'', lit ''openai/gpt-6-luna'')),
     (lit ''local'', (lit ''llama-cpp-local'', lit ''/models/gemma-4-E2B-it-qat-q4_0-heretic-Q4_0_PURE.gguf''))]"

definition DEFAULT_MODEL_CHOICE :: pystr where
  "DEFAULT_MODEL_CHOICE = lit ''luna''"

text \<open>\<open>cur\<close> is what OpenUnum says its model is after the switch; a list or dictionary is no key of the choices.\<close>

definition cmd_model :: "json \<Rightarrow> json \<Rightarrow> touch_act list \<times> (pyerr + touch_reply)" where
  "cmd_model choice cur =
     (case choice of
        JStr ch \<Rightarrow>
          if ch = lit ''current'' then ([], Inr (TOk [(''ok'', JBool True), (''current'', cur)]))
          else (case map_of MODEL_CHOICES ch of
                  None \<Rightarrow> ([], Inr (TErr ''bad_choice''))
                | Some (provider, model) \<Rightarrow>
                    (case cur of
                       JObj kvs \<Rightarrow>
                         if rget kvs ''provider'' \<noteq> JStr provider then ([ModelSwitch provider model], Inr (TErr ''switch_failed''))
                         else if ch = DEFAULT_MODEL_CHOICE then
                           ([ModelSwitch provider model, Unpin], Inr (TOk [(''ok'', JBool True), (''current'', cur), (''pinned'', JBool False)]))
                         else (case map_of kvs (lit ''model'') of
                                 None \<Rightarrow> ([ModelSwitch provider model], Inl KeyError)
                               | Some m \<Rightarrow> ([ModelSwitch provider model, Pin (JStr provider) m],
                                   Inr (TOk [(''ok'', JBool True), (''current'', cur), (''pinned'', JBool True)])))
                     | _ \<Rightarrow> ([ModelSwitch provider model], Inl AttributeError)))
      | JArr _ \<Rightarrow> ([], Inl TypeError)
      | JObj _ \<Rightarrow> ([], Inl TypeError)
      | _ \<Rightarrow> ([], Inr (TErr ''bad_choice'')))"

text \<open>\<open>int(v)\<close>.\<close>

definition to_int :: "json \<Rightarrow> pyerr + int" where
  "to_int v =
     (case v of
        JStr s \<Rightarrow> int_of_str s | JInt n \<Rightarrow> Inr n | JBool b \<Rightarrow> Inr (if b then 1 else 0)
      | JFloat q \<Rightarrow> Inr (if 0 \<le> q then \<lfloor>q\<rfloor> else \<lceil>q\<rceil>) | JNaN \<Rightarrow> Inl ValueError | JInf _ \<Rightarrow> Inl OverflowError | _ \<Rightarrow> Inl TypeError)"

definition cmd_brightness :: "int \<Rightarrow> int \<Rightarrow> json \<Rightarrow> touch_act list \<times> (pyerr + touch_reply)" where
  "cmd_brightness mx cur arg =
     (if arg = JNull \<or> arg = JStr (lit ''get'') then ([], Inr (TOk [(''ok'', JBool True), (''brightness'', JInt cur), (''max'', JInt mx)]))
      else (case to_int arg of
              Inl x \<Rightarrow> ([], Inl x)
            | Inr v \<Rightarrow>
                if \<not> (0 < v \<and> v \<le> mx) then ([], Inr (TErr ''out_of_range''))
                else ([Backlight v], Inr (TOk [(''ok'', JBool True), (''brightness'', JInt v), (''max'', JInt mx)]))))"

definition TTS_ENGINES :: "pystr list" where
  "TTS_ENGINES = map lit [''antonis'', ''supertonic'', ''paradee'', ''kitten'', ''piper'', ''kokoro'', ''el-antonis'', ''el-female'', ''espeak'']"

definition TTS_OUTPUTS :: "pystr list" where
  "TTS_OUTPUTS = map lit [''speaker'', ''earpiece'', ''top'', ''bottom'']"

text \<open>Rendering and playing: the exit codes, or none after the time limit; whether the rendered file is there.\<close>

record tts_env =
  te_render :: "int option"
  te_there :: bool
  te_play :: "int option"

definition cmd_tts :: "pylib \<Rightarrow> tts_env \<Rightarrow> req \<Rightarrow> touch_act list \<times> (pyerr + touch_reply)" where
  "cmd_tts lib e r =
     (let said = strip_space (str_of lib (either (rget r ''text'') (JStr [])));
          engine = str_of lib (either (rget r ''engine'') (JStr (lit ''antonis'')));
          play = truthy (rget r ''play'');
          out = str_of lib (either (rget r ''out'') (JStr (lit ''speaker'')))
      in if said = [] then ([], Inr (TErr ''empty_text''))
         else if 4000 < length said then ([], Inr (TErr ''text_too_long''))
         else if engine \<notin> set TTS_ENGINES then ([], Inr (TErr ''bad_engine''))
         else if out \<notin> set TTS_OUTPUTS then ([], Inr (TErr ''bad_out''))
         else
           (let filler = (if play \<and> truthy (rget r ''filler'')
                          then [PlayFiller (str_of lib (either (rget r ''thinking_for'') (JStr said))) out False] else []);
                acts = filler @ [PruneRenders, Render engine said]
            in case te_render e of
                 None \<Rightarrow> (acts, Inr (TErr ''TimeoutExpired''))
               | Some rc \<Rightarrow>
                   (let ok = (rc = 0 \<and> te_there e) in
                    (acts @ (if ok \<and> play then [PlayWav out] else []),
                     Inr (TOk [(''ok'', JBool ok), (''played'', JBool (ok \<and> play \<and> te_play e = Some 0))])))))"

definition cmd_filler :: "pylib \<Rightarrow> bool \<Rightarrow> req \<Rightarrow> touch_act list \<times> touch_reply" where
  "cmd_filler lib ok r =
     (let out = str_of lib (either (rget r ''out'') (JStr (lit ''speaker''))) in
      if out \<notin> set TTS_OUTPUTS then ([], TErr ''bad_out'')
      else ([PlayFiller (str_of lib (either (rget r ''text'') (JStr []))) out (truthy (rget r ''second''))], TOk [(''ok'', JBool ok)]))"

section \<open>The status\<close>

record touch_status =
  st_level :: "int option"
  st_amps :: "int option list option"
  st_display :: pystr

definition st_muted :: "touch_status \<Rightarrow> bool" where
  "st_muted st \<longleftrightarrow>
     (st_level st = Some 0 \<or> st_level st = None) \<and>
     list_all (\<lambda>v. v = Some 0 \<or> v = None) (case st_amps st of None \<Rightarrow> [] | Some vs \<Rightarrow> vs)"

definition touch_status_cmd :: "time \<Rightarrow> bool \<Rightarrow> touch_status \<Rightarrow> (time \<times> touch_status) option \<Rightarrow> (time \<times> touch_status) option \<times> touch_status" where
  "touch_status_cmd now fresh st cache =
     (case cache of
        Some (t, old) \<Rightarrow> if now - t < 15 \<and> \<not> fresh then (cache, old) else (Some (now, st), st)
      | None \<Rightarrow> (Some (now, st), st))"

section \<open>The camera\<close>

text \<open>
  What the tools answer: whether the software developer is there, the meter frame and what it says (exposure and gain, if
  it is content), the burst, the development.
\<close>

record camera_env =
  ce_have_dev :: bool
  ce_meter_rc :: int
  ce_meter :: "(int \<times> rat) option"
  ce_burst_rc :: int
  ce_develop :: bool

datatype camera_act = ClearRaws | MeterFrame | Meter rat | Burst nat int rat | Develop nat | CopyQuick

definition CAMERA_SENSORS :: "(pystr, rat \<times> nat \<times> nat) dict" where
  "CAMERA_SENSORS = [(lit ''rear'', (16, 4, 0)), (lit ''front'', (8, 4, 0))]"

text \<open>The exposure and gain of the burst, the outcome (\<open>None\<close> when the burst failed, else whether it was developed), and the work.\<close>

definition camera_photo :: "rat \<times> nat \<times> nat \<Rightarrow> camera_env \<Rightarrow> camera_act list \<times> (int \<times> rat) \<times> bool option" where
  "camera_photo sensor e =
     (let (max_gain, burst, rot) = sensor;
          metered = ce_have_dev e \<and> ce_meter_rc e = 0;
          (exp, gain) = (if metered then (case ce_meter e of Some eg \<Rightarrow> eg | None \<Rightarrow> (20000, 8)) else (20000, 8));
          acts = [ClearRaws] @ (if ce_have_dev e then [MeterFrame] else []) @ (if metered then [Meter max_gain] else []) @ [Burst burst exp gain]
      in if ce_burst_rc e \<noteq> 0 then (acts, (exp, gain), None)
         else if ce_have_dev e \<and> ce_develop e then (acts @ [Develop rot], (exp, gain), Some True)
         else (acts @ (if ce_have_dev e then [Develop rot] else []) @ [CopyQuick], (exp, gain), Some False))"

definition cmd_camera :: "pylib \<Rightarrow> bool \<Rightarrow> req \<Rightarrow> bool \<Rightarrow> bool \<times> touch_act list \<times> touch_reply" where
  "cmd_camera lib tool_there r busy =
     (let sensor = str_of lib (either (either (rget r ''sensor'') (rget r ''arg'')) (JStr (lit ''rear''))) in
      if \<not> tool_there then (busy, [], TErr ''no_camera_tool'')
      else if map_of CAMERA_SENSORS sensor = None then (busy, [], TErr ''bad_sensor'')
      else if busy then (busy, [], TErr ''busy'')
      else (True, [TakePhoto sensor], TOk [(''ok'', JBool True), (''state'', JStr (lit ''running''))]))"

section \<open>A request\<close>

record touch_daemon =
  td_last_gesture :: time
  td_camera_busy :: bool
  td_cache :: "(time \<times> touch_status) option"

record handle_env =
  he_now :: time
  he_display :: display_env
  he_answer :: "pystr \<Rightarrow> pystr list \<Rightarrow> touch_reply"
  he_model :: json
  he_max :: int
  he_level :: int
  he_tts :: tts_env
  he_filler :: bool
  he_status :: touch_status
  he_camera :: bool

definition cmd_gesture :: "handle_env \<Rightarrow> json \<Rightarrow> touch_daemon \<Rightarrow> touch_daemon \<times> touch_act list \<times> touch_reply" where
  "cmd_gesture e name d =
     (case name of
        JStr g \<Rightarrow>
          if g \<in> set (map lit [''home'', ''back'', ''switcher'']) then
            (let (t, acts) = on_gesture (he_now e) (de_fast (he_display e)) (de_state (he_display e)) g 0
             in (d\<lparr>td_last_gesture := t\<rparr>, acts, TOk [(''ok'', JBool True)]))
          else (d, [], TErr ''bad_gesture'')
      | _ \<Rightarrow> (d, [], TErr ''bad_gesture''))"

definition status_reply :: "touch_status \<Rightarrow> touch_reply" where
  "status_reply st =
     TOk [(''ok'', JBool True), (''volume_level'', case st_level st of None \<Rightarrow> JNull | Some v \<Rightarrow> JInt v), (''muted'', JBool (st_muted st)),
         (''display'', JStr (st_display st))]"

definition run_command :: "pylib \<Rightarrow> handle_env \<Rightarrow> pystr \<Rightarrow> req \<Rightarrow> touch_daemon \<Rightarrow> touch_daemon \<times> touch_act list \<times> (pyerr + touch_reply)" where
  "run_command lib e verb r d =
     (if verb = lit ''status'' then
        (let (cache, st) = touch_status_cmd (he_now e) (truthy (rget r ''fresh'')) (he_status e) (td_cache d)
         in (d\<lparr>td_cache := cache\<rparr>, [], Inr (status_reply st)))
      else if verb = lit ''display'' then (let (acts, rep) = cmd_display (he_display e) (display_arg r) in (d, acts, Inr rep))
      else if verb = lit ''power'' then (let (acts, rep) = cmd_display (he_display e) (JStr (lit ''toggle'')) in (d, acts, Inr rep))
      else if verb = lit ''ui'' then (d, cmd_ui lib (de_state (he_display e)) (he_answer e) r)
      else if verb = lit ''camera_capture'' then
        (let (busy, acts, rep) = cmd_camera lib (he_camera e) r (td_camera_busy d) in (d\<lparr>td_camera_busy := busy\<rparr>, acts, Inr rep))
      else if verb = lit ''gesture'' then (let (d1, acts, rep) = cmd_gesture e (rget r ''name'') d in (d1, acts, Inr rep))
      else if verb = lit ''model'' then (d, cmd_model (rget r ''arg'') (he_model e))
      else if verb = lit ''brightness'' then (d, cmd_brightness (he_max e) (he_level e) (rget r ''arg''))
      else if verb = lit ''tts'' then (d, cmd_tts lib (he_tts e) r)
      else if verb = lit ''filler'' then (let (acts, rep) = cmd_filler lib (he_filler e) r in (d, acts, Inr rep))
      else (d, [], Inr (TErr ''unknown_command'')))"

text \<open>\<open>handle\<close> answers an \<open>OSError\<close> or \<open>ValueError\<close> with its name; the other exceptions end the thread of the connection without an answer.\<close>

definition caught :: "pyerr + touch_reply \<Rightarrow> touch_reply option" where
  "caught x =
     (case x of Inr rep \<Rightarrow> Some rep | Inl OSError \<Rightarrow> Some (TErr ''OSError'') | Inl ValueError \<Rightarrow> Some (TErr ''ValueError'') | Inl _ \<Rightarrow> None)"

definition touch_request :: "pylib \<Rightarrow> handle_env \<Rightarrow> json \<Rightarrow> touch_daemon \<Rightarrow> touch_daemon \<times> touch_act list \<times> touch_reply option" where
  "touch_request lib e body d =
     (let r = (case body of JObj kvs \<Rightarrow> kvs | _ \<Rightarrow> []);
          (d1, acts, res) = run_command lib e (str_of lib (rget r ''cmd'')) r d
      in (d1, acts, caught res))"

section \<open>The screen is locked before it goes dark\<close>

definition darkens :: "pystr \<Rightarrow> touch_act \<Rightarrow> bool" where
  "darkens state a \<longleftrightarrow> a = RunDisplay (lit ''off'') \<or> a = RunDisplay (lit ''toggle'') \<and> state = lit ''on''"

declare lit_eq [simp]

lemma display_darkens:
  assumes "cmd_display e arg = (acts, rep)" and "acts = pre @ a # post" and "darkens (de_state e) a"
  shows "UiCall (lit ''lock'') [] \<in> set pre"
proof (cases arg)
  case (JStr w)
  define ask where "ask = (if de_fast e \<and> w \<noteq> lit ''status'' then [ShellCall (lit ''display'') [w]] else [])"
  have "acts = [] \<or> acts = ask \<or>
    acts = ask @ (if w = lit ''off'' \<or> w = lit ''toggle'' \<and> de_state e = lit ''on'' then [UiCall (lit ''lock'') []] else []) @ [RunDisplay w]"
    using assms(1) by (auto simp: cmd_display_def JStr Let_def ask_def split: if_splits)
  moreover have "ask \<noteq> pre @ a # post" using assms(3) by (auto simp: ask_def darkens_def Cons_eq_append_conv)
  ultimately show ?thesis using assms(2,3)
    by (auto simp: ask_def darkens_def Cons_eq_append_conv append_eq_Cons_conv append_eq_append_conv2 split: if_splits)
qed (use assms in \<open>auto simp: cmd_display_def\<close>)

lemma ui_never_darkens:
  assumes "(d, cmd_ui lib display answer r) = (d1, acts, res)"
  shows "\<not> list_ex (darkens state) acts"
  using assms by (auto simp: cmd_ui_def Let_def darkens_def split: sum.splits option.splits if_splits)

lemma others_never_darken:
  "\<not> list_ex (darkens state) (fst (cmd_model ch cur))"
  "\<not> list_ex (darkens state) (fst (cmd_brightness mx lv arg))"
  "\<not> list_ex (darkens state) (fst (cmd_tts lib te r))"
  "\<not> list_ex (darkens state) (fst (cmd_filler lib ok r))"
  "\<not> list_ex (darkens state) (fst (snd (cmd_camera lib tool r busy)))"
  "\<not> list_ex (darkens state) (fst (snd (cmd_gesture e nm d)))"
  by (auto simp: cmd_model_def cmd_brightness_def cmd_tts_def cmd_filler_def cmd_camera_def cmd_gesture_def on_gesture_def darkens_def Let_def
      split: json.splits option.splits sum.splits if_splits prod.splits)


text \<open>A toggle while the screen is on, without the fastshell.\<close>

definition demo_pylib :: pylib where
  "demo_pylib = \<lparr>lib_str = (\<lambda>_. []), lib_float = (\<lambda>_. None), lib_int = (\<lambda>_. None)\<rparr>"

definition demo_handle :: handle_env where
  "demo_handle = \<lparr>he_now = 100, he_display = \<lparr>de_fast = False, de_shell = None, de_state = lit ''on'', de_rc = 0, de_after = lit ''off''\<rparr>,
     he_answer = (\<lambda>_ _. TOk []), he_model = JObj [(lit ''provider'', JStr (lit ''openai'')), (lit ''model'', JStr (lit ''openai/other''))],
     he_max = 255, he_level = 80, he_tts = \<lparr>te_render = Some 0, te_there = True, te_play = Some 0\<rparr>, he_filler = True,
     he_status = \<lparr>st_level = None, st_amps = None, st_display = lit ''on''\<rparr>, he_camera = True\<rparr>"

definition demo_daemon :: touch_daemon where
  "demo_daemon = \<lparr>td_last_gesture = 0, td_camera_busy = False, td_cache = None\<rparr>"


section \<open>A shell that keeps crashing is not restarted for ever\<close>

text \<open>
  A pass of the supervisor at \<open>t\<close> with the profile set to \<open>w\<close>, where a shell that has ended has crashed; and whether it
  started one.
\<close>

definition crash_env :: "pystr \<Rightarrow> pass_env \<Rightarrow> time \<Rightarrow> pass_env" where
  "crash_env w e t = e\<lparr>pe_now := t, pe_env := Some w, pe_exit := (if pe_exit e = Some 0 then Some 1 else pe_exit e)\<rparr>"

definition starts_one :: "ui_act list \<Rightarrow> bool" where
  "starts_one acts = list_ex (\<lambda>a. case a of StartShell _ \<Rightarrow> True | _ \<Rightarrow> False) acts"

definition crash_pass :: "pystr \<Rightarrow> supervisor \<Rightarrow> time \<Rightarrow> pass_env \<Rightarrow> supervisor \<times> bool" where
  "crash_pass w s t e = (let (s1, acts) = ui_pass s (crash_env w e t) in (s1, starts_one acts))"

definition profile :: "pystr \<Rightarrow> backend" where
  "profile w = (if w = lit ''unum-shell'' then UnumShell else Quickshell)"

lemma profile_backend:
  assumes "w \<noteq> []" and "w \<noteq> lit ''fastshell''"
  shows "pass_backend (crash_env w e t) s = profile w"
  using assms by (simp add: pass_backend_def ui_backend_def crash_env_def profile_def)

definition in_profile :: "pystr \<Rightarrow> supervisor \<Rightarrow> bool" where
  "in_profile w s \<longleftrightarrow> w \<noteq> [] \<and> w \<noteq> lit ''fastshell'' \<and> (su_proc s \<longrightarrow> su_running s = profile w)"

lemma crash_pass_cases:
  assumes "in_profile w s" and "crash_pass w s t e = (s1, started)"
  shows "in_profile w s1 \<and>
    (if started then length (filter (\<lambda>u. t - u < 600) (su_starts s)) < 6 \<and> su_starts s1 = filter (\<lambda>u. t - u < 600) (su_starts s) @ [t]
     else su_starts s1 = su_starts s \<or> su_starts s1 = filter (\<lambda>u. t - u < 600) (su_starts s))"
proof (cases "\<not> su_proc s \<or> pe_exit e \<noteq> None")
  case True
  have w: "w \<noteq> []" "w \<noteq> lit ''fastshell''" using assms(1) by (simp_all add: in_profile_def)
  have reap: "reap_shell (crash_env w e t) s = s\<lparr>su_proc := False\<rparr>" by (simp add: reap_shell_def crash_env_def)
  have env: "pe_exit (crash_env w e t) = None \<longleftrightarrow> pe_exit e = None" "pe_now (crash_env w e t) = t" by (auto simp: crash_env_def)
  have "profile w \<noteq> Fastshell" by (simp add: profile_def)
  then show ?thesis using True assms(2) w
    by (auto simp: reap env crash_pass_def ui_pass_def start_shell_def profile_backend [OF w] starts_one_def in_profile_def Let_def split: if_splits)
next
  case False
  have w: "w \<noteq> []" "w \<noteq> lit ''fastshell''" and r: "su_running s = profile w" using assms(1) False by (auto simp: in_profile_def)
  have "profile w \<noteq> Fastshell" by (simp add: profile_def)
  moreover have "pe_exit (crash_env w e t) = None" using False by (simp add: crash_env_def)
  ultimately show ?thesis using False assms r w
    by (auto simp: crash_pass_def ui_pass_def watch_shell_def profile_backend [OF w] starts_one_def in_profile_def Let_def)
qed

lemma spent_ones: "spent u t (map (\<lambda>h. (h, 1)) hs) = length (filter (\<lambda>h. u \<le> h \<and> h \<le> t) hs)"
  by (induction hs) (auto simp: spent_Cons)

lemma spent_starts:
  assumes "t - u < 600"
  shows "spent u t (map (\<lambda>h. (h, 1)) (filter (\<lambda>h. t - h < 600) hs)) = spent u t (map (\<lambda>h. (h, 1)) hs)"
  using assms by (induction hs) (auto simp: spent_Cons)

interpretation shell_starts: window_budget "crash_pass w" "\<lambda>_. 1" "\<lambda>s. map (\<lambda>h. (h, 1)) (su_starts s)" "\<lambda>t u. t - u < 600" 6 "in_profile w" for w
proof unfold_locales
  show "t - u < 600" if "v - u < 600" "t \<le> v" for v t u :: time using that by linarith
  show "in_profile w (fst (crash_pass w s t r))" if "in_profile w s" for s t r
    using crash_pass_cases [OF that, of t r] by (cases "crash_pass w s t r") simp
  show "spent u t (map (\<lambda>h. (h, 1)) (su_starts s')) = spent u t (map (\<lambda>h. (h, 1)) (su_starts s)) + (if ok \<and> u \<le> t then 1 else 0)"
    if "in_profile w s" "crash_pass w s t r = (s', ok)" "t - u < 600" for s t r s' ok u
    using crash_pass_cases [OF that(1,2)] spent_starts [OF that(3), of "su_starts s"]
    by (cases ok) (auto simp: spent_Cons)
  show "\<forall>(h, x) \<in> set (map (\<lambda>h. (h, 1)) (su_starts s')). h \<le> t"
    if "in_profile w s" "crash_pass w s t r = (s', ok)" "\<forall>(h, x) \<in> set (map (\<lambda>h. (h, 1)) (su_starts s)). h \<le> t" for s t r s' ok
    using crash_pass_cases [OF that(1,2)] that(3) by (cases ok) auto
  show "sum_list (map snd (map (\<lambda>h. (h, 1)) (su_starts s'))) \<le> (6 :: nat)"
    if "in_profile w s" "crash_pass w s t r = (s', True)" for s t r s'
    using crash_pass_cases [OF that] by (simp add: comp_def sum_list_triv)
qed

text \<open>
  Whatever the passes of the supervisor see, with one profile other than the fastshell: a shell that crashes every time is
  started at most six times in any ten minutes.
\<close>

theorem shell_starts_bounded:
  assumes "sorted (map fst ps)" and "granted (crash_pass w) (\<lambda>_. 1) new_supervisor ps = (s, starts)" and "v - u < 600"
    and "w \<noteq> []" and "w \<noteq> lit ''fastshell''"
  shows "length (filter (\<lambda>(t, x). u \<le> t \<and> t \<le> v) starts) \<le> 6"
proof -
  have "in_profile w new_supervisor" using assms(4,5) by (simp add: in_profile_def new_supervisor_def)
  then have "spent u v starts \<le> 6"
    by (rule shell_starts.window_ok [OF _ _ assms(1-3)]) (simp add: new_supervisor_def)
  moreover have "spent u v starts = length (filter (\<lambda>(t, x). u \<le> t \<and> t \<le> v) starts)"
    by (rule spent_length, rule granted_weights [OF assms(2)]) simp
  ultimately show ?thesis by simp
qed

definition demo_pass :: pass_env where
  "demo_pass = \<lparr>pe_now = 0, pe_exit = Some 139, pe_session = True, pe_env = None, pe_file = None, pe_fast = True, pe_ping = True, pe_died = True\<rparr>"

lemma demo_crashes:
  "snd (granted (crash_pass (lit ''quickshell'')) (\<lambda>_. 1) new_supervisor (map (\<lambda>n. (of_nat n, demo_pass)) [0, 10, 20, 30, 40, 50, 60, 700])) =
     map (\<lambda>n. (of_nat n, 1)) [0, 10, 20, 30, 40, 50, 700]"
  by code_simp

lemma shell_starts_bounded_witness:
  "length (filter (\<lambda>(t, x). 0 \<le> t \<and> t \<le> (599 :: time)) (map (\<lambda>n. (of_nat n, 1 :: nat)) [0, 10, 20, 30, 40, 50, 700])) \<le> 6"
proof -
  obtain s where r: "granted (crash_pass (lit ''quickshell'')) (\<lambda>_. 1) new_supervisor (map (\<lambda>n. (of_nat n, demo_pass)) [0, 10, 20, 30, 40, 50, 60, 700]) =
      (s, map (\<lambda>n. (of_nat n, 1)) [0, 10, 20, 30, 40, 50, 700])"
    using demo_crashes by (metis prod.collapse)
  show ?thesis by (rule shell_starts_bounded [OF _ r]) (simp_all add: lit_def)
qed

text \<open>A fastshell that crashes six times in ten minutes makes way for the classic shell for a quarter of an hour.\<close>

lemma fastshell_falls_back:
  assumes "pass_backend e s = Fastshell" and "su_proc s = False" and "pe_session e"
    and "6 \<le> length (filter (\<lambda>t. pe_now e - t < 600) (su_starts s))"
    and "pe_env e2 = pe_env e" and "pe_file e2 = pe_file e" and "pe_now e2 < pe_now e + 900"
  shows "pass_backend e2 (fst (ui_pass s e)) = Quickshell"
proof -
  have want: "ui_backend (pe_env e2) (pe_file e2) (pe_fast e2) (pe_now e2) until = Quickshell" if "pe_now e2 < until" for until
    using assms(1,5,6) that by (auto simp: pass_backend_def ui_backend_def Let_def split: if_splits option.splits)
  have "su_until (fst (ui_pass s e)) = pe_now e + 900"
    using assms(1-4) by (simp add: ui_pass_def start_shell_def reap_shell_def Let_def pass_backend_def)
  then show ?thesis using want assms(7) by (simp add: pass_backend_def)
qed

text \<open>The backlight is never turned off by its command, and never above its maximum.\<close>

lemma brightness_in_range:
  assumes "touch_request lib e body d = (d1, acts, rep)" and "Backlight v \<in> set acts"
  shows "0 < v \<and> v \<le> he_max e"
proof -
  have others: "Backlight v \<notin> set (fst (cmd_model ch cur))" "Backlight v \<notin> set (fst (cmd_tts lib te r))"
    "Backlight v \<notin> set (fst (cmd_filler lib ok r))" "Backlight v \<notin> set (fst (snd (cmd_camera lib tool r busy)))"
    "Backlight v \<notin> set (fst (snd (cmd_gesture e nm d)))" "Backlight v \<notin> set (fst (cmd_display de arg))" "Backlight v \<notin> set (fst (cmd_ui lib w f r))"
    for ch cur te r ok tool busy nm d de arg w f
    by (auto simp: cmd_model_def cmd_tts_def cmd_filler_def cmd_camera_def cmd_gesture_def on_gesture_def cmd_display_def cmd_ui_def Let_def
        split: json.splits option.splits sum.splits if_splits prod.splits)
  obtain verb r res where run: "run_command lib e verb r d = (d1, acts, res)"
    using assms(1) by (auto simp: touch_request_def Let_def split: prod.splits)
  then have "acts = fst (snd (run_command lib e verb r d))" by simp
  then have "acts = fst (cmd_brightness (he_max e) (he_level e) (rget r ''arg''))"
    using assms(2) others by (simp add: run_command_def Let_def case_prod_unfold split: if_splits)
  then show ?thesis using assms(2) by (auto simp: cmd_brightness_def split: if_splits sum.splits)
qed

section \<open>Where it goes wrong\<close>

text \<open>
  Whether the switch of the model took effect is judged by its provider: when the switch is refused and the model was
  another one of the same provider, the command says it is done and removes the pin of the old choice.
\<close>

lemma switch_not_made:
  "cmd_model (JStr (lit ''luna'')) (JObj [(lit ''provider'', JStr (lit ''openai'')), (lit ''model'', JStr (lit ''openai/other''))]) =
     ([ModelSwitch (lit ''openai'') (lit ''openai/gpt-6-luna''), Unpin],
      Inr (TOk [(''ok'', JBool True), (''current'', JObj [(lit ''provider'', JStr (lit ''openai'')), (lit ''model'', JStr (lit ''openai/other''))]),
        (''pinned'', JBool False)]))"
  by (simp add: cmd_model_def MODEL_CHOICES_def DEFAULT_MODEL_CHOICE_def rget_def)

text \<open>A field of the wrong type ends the thread of the connection: there is no answer, not even an error.\<close>

lemma wrong_type_unanswered:
  "touch_request demo_pylib demo_handle (JObj [(lit ''cmd'', JStr (lit ''ui'')), (lit ''args'', JInt 5)]) demo_daemon = (demo_daemon, [], None)"
  "touch_request demo_pylib demo_handle (JObj [(lit ''cmd'', JStr (lit ''model'')), (lit ''arg'', JArr [])]) demo_daemon = (demo_daemon, [], None)"
  "touch_request demo_pylib demo_handle (JObj [(lit ''cmd'', JStr (lit ''brightness'')), (lit ''arg'', JArr [])]) demo_daemon = (demo_daemon, [], None)"
  by (simp_all add: touch_request_def rget_def str_of_def run_command_def cmd_ui_def ui_args_def truthy_def caught_def cmd_model_def
      cmd_brightness_def to_int_def)

text \<open>When neither the level nor the amplifiers can be read, the phone is reported as muted.\<close>

lemma unknown_is_muted: "st_muted \<lparr>st_level = None, st_amps = Some [None, None], st_display = d\<rparr>"
  by (simp add: st_muted_def)

end
