(* ===== verification/Spec2Isabelle.thy ===== *)
theory Spec2Isabelle
  imports Ipc_Link Sms_Pdu Phone_Http Phone_Inbox Phone_Calls Policy_Tick Haptic Autosleep Keepalive Guardian Buttons
    Turnguard Sip_Session Sip_Client Llama_Proxy Touch_Daemon
begin

text \<open>
  This development models the daemons that run a Samsung S22 under native Linux: the Python programs of
  \<^verbatim>\<open>src/tools/hardware\<close> and \<^verbatim>\<open>src/tools/touchui\<close>. Each theory is one component; its definitions follow the order of the code and keep its
  names where HOL allows it.

  \<^bold>\<open>The parts and how they interact.\<close> The modem daemon \<^verbatim>\<open>phoned/s22-phoned.py\<close> talks to the baseband over a
  stream of SIPC frames, keeps the messages and calls, and offers them on a local HTTP interface. The network policy
  daemon \<^verbatim>\<open>network/s22-netpolicy.py\<close> chooses between Wi-Fi, mobile data and the USB cable, asks the modem
  daemon for data calls over that interface, and parks the Wi-Fi radio. \<^verbatim>\<open>power/s22-autosleep.py\<close> suspends the
  phone, \<^verbatim>\<open>s22-keepalive.py\<close> restarts the services, \<^verbatim>\<open>s22-guardian.py\<close> stops what overheats or runs away and
  tells keepalive so by hold files, \<^verbatim>\<open>s22-turnguard.py\<close> limits the turns of the agent, \<^verbatim>\<open>s22-haptic.py\<close>
  and \<^verbatim>\<open>s22-buttons.py\<close> serve the vibration motor and the keys,
  \<^verbatim>\<open>s22-llama-ondemand.py\<close> loads the local model when it is asked, \<^verbatim>\<open>touchui/s22-touchd.py\<close> reads the swipes
  and keeps the touch shell running;
  \<^verbatim>\<open>voip/s22-sip.py\<close> is a SIP telephone of its own: a user agent, RTP sessions and the codecs.

  \<^bold>\<open>Shared layers.\<close>
  \<^item> \<open>S22_Prelude\<close>: bytes, strings of code points, exceptions as a sum type, dictionaries as association lists,
    \<open>run_chunks\<close> (a machine that answers each input with outputs); \<open>Py_Text\<close>: string operations;
    \<open>Gsm_Codec\<close> also holds the string predicates of the standard library the daemons use.
  \<^item> \<open>Window_Budget\<close>: a locale for "at most so much in any window of time", interpreted for the rate limit, the
    vibration budgets, the restarts and the retries of the local model; \<open>Hold_Timer\<close>: \<open>run_steps\<close> and a locale for "the condition has
    held since", interpreted for the Wi-Fi saver, the data call and the suspend and restart timers.

  \<^bold>\<open>The modem daemon.\<close>
  \<^item> \<open>Sipc_Frame\<close> (\<open>Frame\<close>, \<open>FrameDecoder\<close>): locale \<open>stream_decoder\<close>; frames survive any chunking.
  \<^item> \<open>Gsm_Codec\<close>, \<open>Sms_Pdu\<close> (text, number and PDU codecs): round trips, size limits of the parts.
  \<^item> \<open>Phone_Stores\<close> (\<open>JsonlStore\<close>, \<open>EventBus\<close>, \<open>RateLimit\<close>), \<open>Ipc_Link\<close> (\<open>Link\<close>: sequence
    numbers, waiting requests, frames, drops as an interleaved step relation): strict requests are answered by their
    own acknowledgement only, and by the first one.
  \<^item> \<open>Json_Wire\<close>, \<open>Phone_Decoders\<close> (the \<open>dec_*\<close> functions and request bodies), \<open>Phone_Gate\<close>
    (who may be called or written to), \<open>Phone_Sim\<close> (SIM, PIN, attach), \<open>Phone_Outbox\<close>, \<open>Phone_Inbox\<close>,
    \<open>Phone_Calls\<close>, \<open>Phone_Data\<close> (data calls and the raw endpoint), \<open>Phone_Http\<close> (routes): what reaches
    the modem is permitted, nothing received is lost before it is stored, the call table stays well formed.

  \<^bold>\<open>The other daemons.\<close>
  \<^item> \<open>Net_Policy\<close>, \<open>Wifi_Saver\<close>, \<open>Policy_Tick\<close>: the route plan converges to the wanted table, the radio is
    where the saver believes, data calls are paced, a tick ends with routes and resolver following the uplink.
  \<^item> \<open>Haptic\<close>, \<open>Autosleep\<close>, \<open>Keepalive\<close>: budgets, the conditions of suspending and of restarting, the
    model pin.
  \<^item> \<open>Guardian\<close>: heat is confirmed before services stop, only sustained load is killed. \<open>Turnguard\<close>: every
    turn over its limit is cancelled, at most so often. \<open>Buttons\<close>: the safety path of the Power key, recording
    while a key is held.
  \<^item> \<open>Llama_Lean\<close>: what \<^verbatim>\<open>s22-llama-ondemand.py\<close> makes of a chat request for the local model (the lean rewrite and
    its append-only window, cached prefixes, the edited HTTP heads). \<open>Llama_Proxy\<close>: its class \<open>OnDemand\<close>, with
    \<open>serve_request\<close> for the path of a request, \<open>relay_step\<close> for the limits of its relay and \<open>px_step\<close> for
    everything that may happen to the server and the clock of the cores.
  \<^item> \<open>Touch_Gesture\<close>: the swipes of \<^verbatim>\<open>touchui/s22-touchd.py\<close> (\<open>EdgeSwipe\<close>, \<open>TouchReader\<close>), from the bytes of the
    kernel on; \<open>Touch_Daemon\<close>: its supervisor (\<open>ui_pass\<close> is one round of \<open>ui_loop\<close>) and its control socket
    (\<open>touch_request\<close>).

  \<^bold>\<open>The SIP telephone.\<close> \<^verbatim>\<open>voip/s22-sip.py\<close>, from the wire up.
  \<^item> \<open>Sip_Audio\<close> (G.711): accuracy and stability of both codecs. \<open>Sip_Rtp\<close> (\<open>rtp_pack\<close>, \<open>rtp_unpack\<close>,
    \<open>JitterBuffer\<close>): packets of RFC 3550 are read back, packets that come out of order leave in order, nothing leaves twice.
    \<open>Sip_Session\<close> (\<open>RtpSession\<close>): what is played is heard, every digit once.
  \<^item> \<open>Py_Unicode\<close>: the string methods of the standard library the parsers use; \<open>Sip_Message\<close> (\<open>SipMessage\<close>, addresses,
    \<open>Via\<close>): what is written is read back; \<open>Sip_Headers\<close>: reading headers back after \<open>add\<close>; \<open>Sip_Digest\<close>:
    credentials; \<open>Sip_Sdp\<close>: offer and answer agree.
  \<^item> \<open>Sip_Ua\<close> (\<open>SipUA\<close>, the side that answers): \<open>ua_step\<close> takes a datagram, the answering thread of a call, or a hang-up
    of our own; \<open>moves\<close> abstracts every handler to the few ways in which calls may change, from which the invariants of all
    runs follow. \<open>Sip_Client\<close> (the side that asks): transactions, registration and its renewal, calls.
    Handlers are atomic. Look-ups, the route of the system, random tokens, hashes and what a transaction brings back are
    arguments.

  \<^bold>\<open>Conventions.\<close> A record per class or configuration; one definition per method or stage of a method, composed as the
  code composes them. An exception is \<open>Inl\<close> of an error. What the outside world answers during an operation (files,
  commands, replies of the modem, the clock) is a field of an environment record or an input of the step; what the
  operation does to it is a list of actions. Time is rational; integers are unbounded where Python's are, and words
  where bytes are packed. Code the sources only call (JSON parsing, MD5 and SHA-256, name look-up, the regular expressions of a
  configuration) is a parameter, and appears in a hypothesis only with its documented behaviour.

  \<^bold>\<open>Loops.\<close> All loops are total functions by structural recursion or a measure, except the search for left-over
  processes of \<open>Turnguard\<close>, a partial function whose termination is proved on every table. The runs of the daemons are
  lists of inputs of any length; no fuel is used.

  \<^bold>\<open>What was found.\<close> Lemmas whose text says so show behaviour the code does not intend or document, among them
  \<open>pin_race\<close>, \<open>failed_write_then_deleted\<close>, \<open>release_during_setup_lost\<close>, \<open>unknown_method_flaps\<close>,
  \<open>young_process_restarted\<close>, \<open>spike_unnoticed\<close>, \<open>cooling_releases_memory_hold\<close>,
  \<open>ptt_stop_lost_on_handover\<close>, \<open>nameless_call_blocks\<close>, \<open>bad_offer_blocks\<close>, \<open>tel_caller_unanswered\<close>,
  \<open>lookup_failure_ends_renewal\<close>, \<open>cap_outlives_restart\<close>, \<open>left_out_comes_back\<close>,
  \<open>same_column_unseen\<close>, \<open>second_finger_swipes\<close>, \<open>switch_not_made\<close>.

  \<^bold>\<open>Not modelled.\<close> Device access (V4L2, evdev, ioctls), sockets, threads other than by interleaving, reading of
  /proc and /sys into the facts the decisions use, logging and status files; the camera, the voice assistant,
  the modem boot, the traces; the one-shot bring-up, build, deployment and evidence scripts; the
  Rust, C, shell and web parts of the repository.
\<close>

end
